(* ===== verification/Prelude.thy ===== *)
theory Prelude
  imports Main "HOL-Library.Word"
begin

unbundle bit_operations_syntax

text \<open>
  The shared ground of the development: the names of the machine integer types, the two-sided
  result type with its sequencing, decoders over a byte source, encoders with the byte count they
  report, little and big endian conversions of the Rust integer types, and the generic list facts
  the components use. \<open>usize\<close> is modelled by \<^typ>\<open>nat\<close> (the library is read for a 64-bit target, where
  every in-memory length is below \<open>2 ^ 64\<close>); fixed-width integers are words of their width.
\<close>

named_theorems codec_simps \<open>equations of the encoders and decoders on the values they accept\<close>
named_theorems byte_simps \<open>lengths and contents of byte encodings\<close>

section \<open>Machine integers\<close>

type_synonym u8 = "8 word"
type_synonym u16 = "16 word"
type_synonym u32 = "32 word"
type_synonym u64 = "64 word"
type_synonym i32 = "32 word"
type_synonym i64 = "64 word"
type_synonym bytes = "8 word list"

lemma u8_less_256 [simp]: "unat (b :: u8) < 256"
  using unsigned_less [of b] by simp

lemma u64_less [simp]: "unat (b :: u64) < 18446744073709551616"
  using unsigned_less [of b] by simp

lemma unat_less_exp: "unat (w :: 'a::len word) < 2 ^ LENGTH('a)"
  by (rule unsigned_less)

lemma unat_ucast: "unat (ucast w :: 'b::len word) = unat (w :: 'a::len word) mod 2 ^ LENGTH('b)"
  by (simp add: unsigned_ucast_eq take_bit_eq_mod)

section \<open>Little and big endian byte strings\<close>

text \<open>
  The value of a little-endian byte string, and the \<open>k\<close> low bytes of a number. They are inverse to
  each other, which is all the round trips of \<open>to_le_bytes\<close> and \<open>from_le_bytes\<close> need.
\<close>

fun le_value :: "bytes \<Rightarrow> nat" where
  "le_value [] = 0"
| "le_value (b # bs) = unat b + 256 * le_value bs"

fun le_digits :: "nat \<Rightarrow> nat \<Rightarrow> bytes" where
  "le_digits 0 n = []"
| "le_digits (Suc k) n = of_nat n # le_digits k (n div 256)"

lemma length_le_digits [simp]: "length (le_digits k n) = k"
  by (induction k arbitrary: n) auto

lemma unat_u8_of_nat: "unat (of_nat n :: u8) = n mod 256"
  by (simp add: unat_of_nat)

lemma le_value_less: "le_value bs < 256 ^ length bs"
proof (induction bs)
  case Nil
  then show ?case by simp
next
  case (Cons b bs)
  then have "Suc (le_value bs) \<le> 256 ^ length bs" by simp
  then have "256 * Suc (le_value bs) \<le> 256 * 256 ^ length bs" by (rule mult_le_mono2)
  then show ?case using u8_less_256 [of b] by (simp del: u8_less_256)
qed

lemma le_value_append: "le_value (a @ b) = le_value a + 256 ^ length a * le_value b"
  by (induction a) (simp_all add: algebra_simps)

lemma le_value_digits: "le_value (le_digits k n) = n mod 256 ^ k"
proof (induction k arbitrary: n)
  case 0
  then show ?case by simp
next
  case (Suc k)
  have "n mod 256 ^ Suc k = 256 * (n div 256 mod 256 ^ k) + n mod 256"
    by (simp add: mod_mult2_eq)
  with Suc show ?case by (simp add: unat_u8_of_nat)
qed

lemma le_digits_value: "le_digits (length bs) (le_value bs) = bs"
proof (induction bs)
  case Nil
  then show ?case by simp
next
  case (Cons b bs)
  have "(unat b + 256 * le_value bs) div 256 = le_value bs"
    using u8_less_256 [of b] by (simp add: div_eq_0_iff)
  moreover have "unat (of_nat (unat b + 256 * le_value bs) :: u8) = unat b"
    by (simp only: unat_u8_of_nat mod_mult_self2) simp
  then have "(of_nat (unat b + 256 * le_value bs) :: u8) = b"
    by (simp only: word_unat_eq_iff)
  ultimately show ?case using Cons by simp
qed

text \<open>Rust's \<open>to_le_bytes\<close>, \<open>from_le_bytes\<close>, \<open>to_be_bytes\<close> and \<open>from_be_bytes\<close> at any width.\<close>

definition to_le_bytes :: "'a::len word \<Rightarrow> bytes" where
  "to_le_bytes w = le_digits (LENGTH('a) div 8) (unat w)"

definition from_le_bytes :: "bytes \<Rightarrow> 'a::len word" where
  "from_le_bytes bs = of_nat (le_value bs)"

definition to_be_bytes :: "'a::len word \<Rightarrow> bytes" where
  "to_be_bytes w = rev (to_le_bytes w)"

definition from_be_bytes :: "bytes \<Rightarrow> 'a::len word" where
  "from_be_bytes bs = from_le_bytes (rev bs)"

lemma length_to_le_bytes [byte_simps]: "length (to_le_bytes (w :: 'a::len word)) = LENGTH('a) div 8"
  by (simp add: to_le_bytes_def)

lemma length_to_be_bytes [byte_simps]: "length (to_be_bytes (w :: 'a::len word)) = LENGTH('a) div 8"
  by (simp add: to_be_bytes_def length_to_le_bytes)

lemma power_256: "(256 :: nat) ^ k = 2 ^ (8 * k)"
proof -
  have "(256 :: nat) = 2 ^ 8" by simp
  then show ?thesis by (simp only: power_mult)
qed

lemma from_to_le_bytes:
  assumes "8 dvd LENGTH('a)"
  shows "from_le_bytes (to_le_bytes (w :: 'a::len word)) = w"
proof -
  have "8 * (LENGTH('a) div 8) = LENGTH('a)" using assms by simp
  then have "unat w < 256 ^ (LENGTH('a) div 8)" by (simp add: power_256)
  then show ?thesis
    by (simp add: from_le_bytes_def to_le_bytes_def le_value_digits)
qed

lemma to_from_le_bytes:
  assumes "8 dvd LENGTH('a)" and "length bs = LENGTH('a) div 8"
  shows "to_le_bytes (from_le_bytes bs :: 'a::len word) = bs"
proof -
  have "8 * (LENGTH('a) div 8) = LENGTH('a)" using assms by simp
  then have "le_value bs < 2 ^ LENGTH('a)"
    using le_value_less [of bs] assms(2) by (simp add: power_256)
  then have "unat (of_nat (le_value bs) :: 'a word) = le_value bs"
    by (simp add: unat_of_nat)
  then show ?thesis
    using le_digits_value [of bs] assms(2) by (simp add: from_le_bytes_def to_le_bytes_def)
qed

lemma unat_from_le_bytes:
  assumes "8 * length bs \<le> LENGTH('a)"
  shows "unat (from_le_bytes bs :: 'a::len word) = le_value bs"
proof -
  have "le_value bs < 2 ^ (8 * length bs)" using le_value_less [of bs] by (simp add: power_256)
  also have "\<dots> \<le> 2 ^ LENGTH('a)" using assms by (intro power_increasing) auto
  finally show ?thesis by (simp add: from_le_bytes_def unat_of_nat)
qed

text \<open>The bytes of a word by shifts, as the code that spells the conversion out has them.\<close>

lemma u8_slice: "(ucast (drop_bit k (w :: 'a::len word)) :: u8) = of_nat (unat w div 2 ^ k)"
proof -
  have "unat (drop_bit k w) = drop_bit k (unat w)" by (simp add: unsigned_drop_bit_eq take_bit_nat_eq_self)
  then have "unat (drop_bit k w) = unat w div 2 ^ k" by (simp add: drop_bit_eq_div)
  then show ?thesis by (metis of_nat_unat)
qed

lemma le_digits_4: "le_digits 4 n = [of_nat n, of_nat (n div 2 ^ 8), of_nat (n div 2 ^ 16), of_nat (n div 2 ^ 24)]"
proof -
  have "le_digits (Suc (Suc (Suc (Suc 0)))) n =
     [of_nat n, of_nat (n div 256), of_nat (n div 256 div 256), of_nat (n div 256 div 256 div 256)]" by simp
  moreover have "Suc (Suc (Suc (Suc 0))) = 4" by simp
  ultimately show ?thesis by (simp only: div_mult2_eq [symmetric]) simp
qed

lemma to_be_bytes_u32: "to_be_bytes (w :: u32) =
    [ucast (drop_bit 24 w), ucast (drop_bit 16 w), ucast (drop_bit 8 w), ucast w]"
proof -
  have "(ucast w :: u8) = of_nat (unat w)" by simp
  moreover have "LENGTH(32) div 8 = 4" by simp
  ultimately show ?thesis
    by (simp only: to_be_bytes_def to_le_bytes_def le_digits_4 u8_slice) simp
qed

lemma u8_mask: "(ucast (w AND 0xFF) :: u8) = ucast (w :: u64)"
proof -
  have "(0xFF :: u64) = mask 8" by (simp add: mask_eq_exp_minus_1)
  show ?thesis unfolding \<open>0xFF = mask 8\<close> by (rule bit_word_eqI) (auto simp: bit_simps)
qed

lemma from_be_bytes_u32: "(from_be_bytes [a, b, c, d] :: u32) =
    push_bit 24 (ucast a) OR push_bit 16 (ucast b) OR push_bit 8 (ucast c) OR push_bit 0 (ucast d)"
proof -
  let ?X = "push_bit 24 (ucast a) OR push_bit 16 (ucast b) OR push_bit 8 (ucast c) OR push_bit 0 (ucast d) :: u32"
  have "ucast (drop_bit 24 ?X) = a"
    by (rule bit_word_eqI) (auto simp: bit_simps dest: bit_imp_le_length)
  moreover have "ucast (drop_bit 16 ?X) = b"
    by (rule bit_word_eqI) (auto simp: bit_simps dest: bit_imp_le_length)
  moreover have "ucast (drop_bit 8 ?X) = c"
    by (rule bit_word_eqI) (auto simp: bit_simps dest: bit_imp_le_length)
  moreover have "ucast ?X = d"
    by (rule bit_word_eqI) (auto simp: bit_simps dest: bit_imp_le_length)
  ultimately have "to_be_bytes ?X = [a, b, c, d]" by (simp only: to_be_bytes_u32)
  then have "from_be_bytes [a, b, c, d] = (from_be_bytes (to_be_bytes ?X) :: u32)" by simp
  also have "\<dots> = ?X" by (simp only: from_be_bytes_def to_be_bytes_def rev_rev_ident) (rule from_to_le_bytes, simp)
  finally show ?thesis .
qed

lemma le_digits_add: "le_digits (a + b) n = le_digits a n @ le_digits b (n div 256 ^ a)"
  by (induction a arbitrary: n) (simp_all add: div_mult2_eq)

lemma le_digits_8: "le_digits 8 n = [of_nat n, of_nat (n div 2 ^ 8), of_nat (n div 2 ^ 16), of_nat (n div 2 ^ 24),
   of_nat (n div 2 ^ 32), of_nat (n div 2 ^ 40), of_nat (n div 2 ^ 48), of_nat (n div 2 ^ 56)]"
proof -
  have "le_digits 8 n = le_digits 4 n @ le_digits 4 (n div 256 ^ 4)"
    using le_digits_add [of 4 4 n] by simp
  then show ?thesis by (simp add: le_digits_4 div_mult2_eq [symmetric])
qed

lemma to_be_bytes_u64: "to_be_bytes (w :: u64) =
    [ucast (drop_bit 56 w), ucast (drop_bit 48 w), ucast (drop_bit 40 w), ucast (drop_bit 32 w),
     ucast (drop_bit 24 w), ucast (drop_bit 16 w), ucast (drop_bit 8 w), ucast w]"
proof -
  have "(ucast w :: u8) = of_nat (unat w)" by simp
  moreover have "LENGTH(64) div 8 = 8" by simp
  ultimately show ?thesis
    by (simp only: to_be_bytes_def to_le_bytes_def le_digits_8 u8_slice) simp
qed

section \<open>Results\<close>

text \<open>
  \<open>Result<T, E>\<close> is \<open>'e + 't\<close>, with \<^term>\<open>Inl\<close> for \<open>Err\<close>; the \<open>?\<close> operator is
  \<open>and_then\<close>.
\<close>

fun and_then :: "('e + 'a) \<Rightarrow> ('a \<Rightarrow> 'e + 'b) \<Rightarrow> 'e + 'b" where
  "and_then (Inl e) f = Inl e"
| "and_then (Inr x) f = f x"

lemma and_then_Inr_iff: "and_then m f = Inr y \<longleftrightarrow> (\<exists>x. m = Inr x \<and> f x = Inr y)"
  by (cases m) auto

fun map_err :: "('e \<Rightarrow> 'f) \<Rightarrow> ('e + 'a) \<Rightarrow> 'f + 'a" where
  "map_err g (Inl e) = Inl (g e)"
| "map_err g (Inr x) = Inr x"

fun is_ok :: "'e + 'a \<Rightarrow> bool" where
  "is_ok (Inl e) = False"
| "is_ok (Inr x) = True"

section \<open>Decoders\<close>

text \<open>
  A decoder of the code takes \<open>&mut R\<close> with \<open>R: Read\<close> and returns a \<open>Result\<close>. Over an in-memory
  source it is a function of the bytes not yet read; on success it returns the value and the bytes
  left. What a failed decoder has consumed is never looked at again by its callers, which all
  propagate the error.
\<close>

type_synonym ('e, 'a) decoder = "bytes \<Rightarrow> 'e + ('a \<times> bytes)"

definition dreturn :: "'a \<Rightarrow> ('e, 'a) decoder" where
  "dreturn x = (\<lambda>r. Inr (x, r))"

definition dfail :: "'e \<Rightarrow> ('e, 'a) decoder" where
  "dfail e = (\<lambda>r. Inl e)"

definition dbind :: "('e, 'a) decoder \<Rightarrow> ('a \<Rightarrow> ('e, 'b) decoder) \<Rightarrow> ('e, 'b) decoder" where
  "dbind d f = (\<lambda>r. case d r of Inl e \<Rightarrow> Inl e | Inr (x, r') \<Rightarrow> f x r')"

definition dmap :: "('a \<Rightarrow> 'b) \<Rightarrow> ('e, 'a) decoder \<Rightarrow> ('e, 'b) decoder" where
  "dmap g d = dbind d (\<lambda>x. dreturn (g x))"

lemma dbind_Inr [codec_simps]: "d r = Inr (x, r') \<Longrightarrow> dbind d f r = f x r'"
  by (simp add: dbind_def)

lemma dbind_Inl [codec_simps]: "d r = Inl e \<Longrightarrow> dbind d f r = Inl e"
  by (simp add: dbind_def)

lemma dreturn_apply [simp]: "dreturn x r = Inr (x, r)"
  by (simp add: dreturn_def)

lemma dfail_apply [simp]: "dfail e r = Inl e"
  by (simp add: dfail_def)

lemma dmap_Inr [codec_simps]: "d r = Inr (x, r') \<Longrightarrow> dmap g d r = Inr (g x, r')"
  by (simp add: dmap_def dbind_Inr)

lemma dbind_InrE:
  assumes "dbind d f r = Inr (y, r'')"
  obtains x r' where "d r = Inr (x, r')" and "f x r' = Inr (y, r'')"
  using assms by (auto simp: dbind_def split: sum.splits prod.splits)

lemma dmap_InrE:
  assumes "dmap g d r = Inr (y, r')"
  obtains x where "d r = Inr (x, r')" and "y = g x"
  using assms unfolding dmap_def by (auto elim: dbind_InrE)

text \<open>
  \<open>Read::take\<close>: the inner decoder sees at most \<open>n\<close> bytes, and what it consumed is gone from the
  outer source.
\<close>

definition dtake :: "nat \<Rightarrow> ('e, 'a) decoder \<Rightarrow> ('e, 'a) decoder" where
  "dtake n d = (\<lambda>r. case d (take n r) of Inl e \<Rightarrow> Inl e
     | Inr (x, r') \<Rightarrow> Inr (x, drop (length (take n r) - length r') r))"

lemma dtake_Inr:
  assumes "d (take n r) = Inr (x, r')" and "take n r = c @ r'"
  shows "dtake n d r = Inr (x, drop (length c) r)"
proof -
  have "length (take n r) - length r' = length c" using assms(2) by simp
  with assms(1) show ?thesis by (simp add: dtake_def)
qed

section \<open>Encoders\<close>

text \<open>
  \<open>consensus_encode\<close> writes bytes and returns how many it says it wrote: an encoder gives both, so
  that the count is a claim about the code and not a definition of the model. \<open>wrote bs\<close> is the
  outcome of an encoder that wrote \<open>bs\<close> and counted right.
\<close>

type_synonym 'e encoded = "'e + (bytes \<times> nat)"

definition wrote :: "bytes \<Rightarrow> 'e encoded" where
  "wrote bs = Inr (bs, length bs)"

definition enc_seq :: "'e encoded \<Rightarrow> 'e encoded \<Rightarrow> 'e encoded" where
  "enc_seq m k = (case m of Inl e \<Rightarrow> Inl e
     | Inr (b1, n1) \<Rightarrow> (case k of Inl e \<Rightarrow> Inl e | Inr (b2, n2) \<Rightarrow> Inr (b1 @ b2, n1 + n2)))"

definition enc_nothing :: "'e encoded" where
  "enc_nothing = Inr ([], 0)"

lemma enc_seq_wrote [simp]: "enc_seq (wrote a) (wrote b) = wrote (a @ b)"
  by (simp add: enc_seq_def wrote_def)

lemma enc_nothing_wrote [simp]: "enc_nothing = wrote []"
  by (simp add: enc_nothing_def wrote_def)

lemma wrote_inject [simp]: "wrote a = wrote b \<longleftrightarrow> a = b"
  by (auto simp: wrote_def)

lemma wrote_Inr_iff: "wrote a = Inr (b, n) \<longleftrightarrow> b = a \<and> n = length a"
  by (auto simp: wrote_def)

lemma wrote_not_Inl [simp]: "wrote a \<noteq> Inl e"
  by (simp add: wrote_def)

fun enc_list :: "('a \<Rightarrow> 'e encoded) \<Rightarrow> 'a list \<Rightarrow> 'e encoded" where
  "enc_list f [] = enc_nothing"
| "enc_list f (x # xs) = enc_seq (f x) (enc_list f xs)"

lemma enc_list_wrote:
  assumes "\<And>x. x \<in> set xs \<Longrightarrow> f x = wrote (g x)"
  shows "enc_list f xs = wrote (concat (map g xs))"
  using assms by (induction xs) auto

section \<open>Lists\<close>

lemma take_exact: "length a = n \<Longrightarrow> take n (a @ b) = a"
  by auto

lemma drop_exact: "length a = n \<Longrightarrow> drop n (a @ b) = b"
  by auto

text \<open>Overwriting a range of a byte buffer, as \<open>copy_from_slice\<close> on a sub-slice does.\<close>

definition overwrite :: "'a list \<Rightarrow> nat \<Rightarrow> 'a list \<Rightarrow> 'a list" where
  "overwrite buf i xs = take i buf @ xs @ drop (i + length xs) buf"

lemma length_overwrite [simp]:
  "i + length xs \<le> length buf \<Longrightarrow> length (overwrite buf i xs) = length buf"
  by (simp add: overwrite_def)

lemma take_overwrite [simp]: "i \<le> length buf \<Longrightarrow> take i (overwrite buf i xs) = take i buf"
  by (simp add: overwrite_def)

lemma take_overwrite_end:
  "i \<le> length buf \<Longrightarrow> take (i + length xs) (overwrite buf i xs) = take i buf @ xs"
  by (simp add: overwrite_def)

lemma drop_overwrite:
  "i + length xs \<le> length buf \<Longrightarrow> drop (i + length xs) (overwrite buf i xs) = drop (i + length xs) buf"
  by (simp add: overwrite_def)

end
