(* ===== verification/Bitcoin_Io.thy ===== *)
theory Bitcoin_Io
  imports Prelude
begin

text \<open>
  The crate \<open>bitcoin-io\<close> (\<open>src/io/src/lib.rs\<close>, \<open>src/io/src/error.rs\<close>): the \<open>Read\<close>, \<open>BufRead\<close> and
  \<open>Write\<close> traits, their default methods, and the in-memory readers and writers. A reader is a state
  with a function \<open>read\<close> that gets the length of the caller's buffer and gives the bytes put at its
  front; a writer is a state with a function \<open>write\<close> that gets the bytes offered and gives how many
  it took. The retry loops \<open>read_exact\<close>, \<open>read_to_end\<close> and \<open>write_all\<close> may run forever (a source that is
  interrupted forever), so they are partial functions with value \<^term>\<open>None\<close> for not returning; the
  locales \<open>mem_reader\<close> and \<open>mem_writer\<close> state what an in-memory source or sink promises, and inside
  them the loops are shown to return and to do what their contracts say. The interpretations cover
  slices, cursors, \<open>Take\<close> over any of these, vectors and mutable slices.
\<close>

section \<open>Errors\<close>

datatype ErrorKind =
    NotFound | PermissionDenied | ConnectionRefused | ConnectionReset | ConnectionAborted
  | NotConnected | AddrInUse | AddrNotAvailable | BrokenPipe | AlreadyExists | WouldBlock
  | InvalidInput | InvalidData | TimedOut | WriteZero | Interrupted | UnexpectedEof | Other

text \<open>How a call can end other than by returning \<open>Ok\<close>: an \<open>Err\<close> of some kind, or a panic.\<close>

datatype io_failure = Io ErrorKind | Panic

type_synonym 'r read_fn = "'r \<Rightarrow> nat \<Rightarrow> (io_failure + bytes) \<times> 'r"
type_synonym 'w write_fn = "'w \<Rightarrow> bytes \<Rightarrow> (io_failure + nat) \<times> 'w"

section \<open>The default methods of Read and Write\<close>

text \<open>
  \<open>read_exact\<close> on a buffer of \<open>n\<close> bytes; \<open>acc\<close> is the part of the buffer already filled.
\<close>

partial_function (option) read_exact ::
  "'r read_fn \<Rightarrow> 'r \<Rightarrow> nat \<Rightarrow> bytes \<Rightarrow> ((io_failure + bytes) \<times> 'r) option" where
  "read_exact read r n acc =
     (if n = 0 then Some (Inr acc, r)
      else case read r n of
        (Inr c, r') \<Rightarrow> if c = [] then Some (Inl (Io UnexpectedEof), r')
                       else read_exact read r' (n - length c) (acc @ c)
      | (Inl e, r') \<Rightarrow> if e = Io Interrupted then read_exact read r' n acc else Some (Inl e, r'))"

partial_function (option) write_all ::
  "'w write_fn \<Rightarrow> 'w \<Rightarrow> bytes \<Rightarrow> ((io_failure + unit) \<times> 'w) option" where
  "write_all put w buf =
     (if buf = [] then Some (Inr (), w)
      else case put w buf of
        (Inr len, w') \<Rightarrow> if len = 0 then Some (Inl (Io UnexpectedEof), w')
                         else write_all put w' (drop len buf)
      | (Inl e, w') \<Rightarrow> if e = Io Interrupted then write_all put w' buf else Some (Inl e, w'))"

lemma read_exact_interrupted:
  assumes "read r n = (Inl (Io Interrupted), r')" and "0 < n"
  shows "read_exact read r n acc = read_exact read r' n acc"
  using assms by (subst read_exact.simps) simp

lemma write_all_interrupted:
  assumes "put w buf = (Inl (Io Interrupted), w')" and "buf \<noteq> []"
  shows "write_all put w buf = write_all put w' buf"
  using assms by (subst write_all.simps) simp

section \<open>Take\<close>

record 'r take_reader =
  reader :: 'r
  remaining :: nat

definition take_new :: "'r \<Rightarrow> nat \<Rightarrow> 'r take_reader" where
  "take_new r limit = \<lparr> reader = r, remaining = limit \<rparr>"

definition take_read :: "'r read_fn \<Rightarrow> 'r take_reader read_fn" where
  "take_read read t n =
     (let len = min n (remaining t) in
      case read (reader t) len of
        (Inr c, r') \<Rightarrow> (Inr c, \<lparr> reader = r', remaining = remaining t - length c \<rparr>)
      | (Inl e, r') \<Rightarrow> (Inl e, t\<lparr> reader := r' \<rparr>))"

partial_function (option) read_to_end ::
  "'r read_fn \<Rightarrow> 'r take_reader \<Rightarrow> bytes \<Rightarrow> nat \<Rightarrow>
     ((io_failure + nat) \<times> bytes \<times> 'r take_reader) option" where
  "read_to_end read t buf cnt =
     (case take_read read t 64 of
        (Inr c, t') \<Rightarrow> if c = [] then Some (Inr cnt, buf, t')
                       else read_to_end read t' (buf @ c) (cnt + length c)
      | (Inl e, t') \<Rightarrow> if e = Io Interrupted then read_to_end read t' buf cnt
                       else Some (Inl e, buf, t'))"

definition read_to_limit ::
  "'r read_fn \<Rightarrow> 'r \<Rightarrow> bytes \<Rightarrow> nat \<Rightarrow> ((io_failure + nat) \<times> bytes \<times> 'r take_reader) option" where
  "read_to_limit read r buf limit = read_to_end read (take_new r limit) buf 0"

text \<open>
  \<open>fill_buf\<close> and \<open>consume\<close> of \<open>Take\<close>, over those of the inner reader; \<^term>\<open>None\<close> is a panic.
\<close>

definition take_fill_buf :: "('r \<Rightarrow> bytes option) \<Rightarrow> 'r take_reader \<Rightarrow> bytes option" where
  "take_fill_buf fill_buf t =
     (if remaining t = 0 then Some []
      else map_option (\<lambda>buf. take (min (length buf) (remaining t)) buf) (fill_buf (reader t)))"

definition take_consume :: "('r \<Rightarrow> nat \<Rightarrow> 'r option) \<Rightarrow> 'r take_reader \<Rightarrow> nat \<Rightarrow> 'r take_reader option" where
  "take_consume consume t amount =
     (if amount \<le> remaining t
      then map_option (\<lambda>r'. \<lparr> reader = r', remaining = remaining t - amount \<rparr>) (consume (reader t) amount)
      else None)"

section \<open>Slices and cursors\<close>

definition slice_read :: "bytes read_fn" where
  "slice_read self n = (let cnt = min (length self) n in (Inr (take cnt self), drop cnt self))"

definition slice_fill_buf :: "bytes \<Rightarrow> bytes option" where
  "slice_fill_buf self = Some self"

definition slice_consume :: "bytes \<Rightarrow> nat \<Rightarrow> bytes option" where
  "slice_consume self amount = (if amount \<le> length self then Some (drop amount self) else None)"

record cursor =
  inner :: bytes
  pos :: nat

definition cursor_new :: "bytes \<Rightarrow> cursor" where
  "cursor_new b = \<lparr> inner = b, pos = 0 \<rparr>"

definition u64_max :: nat where
  "u64_max = 18446744073709551615"

text \<open>The range \<open>inner[start_pos..start_pos + read]\<close> panics when it starts past the end.\<close>

definition cursor_read :: "cursor read_fn" where
  "cursor_read self n =
     (let start_pos = pos self;
          rd = min (length (inner self) - start_pos) n in
      if start_pos \<le> length (inner self)
      then (Inr (take rd (drop start_pos (inner self))), self\<lparr> pos := min (pos self + rd) u64_max \<rparr>)
      else (Inl Panic, self))"

definition cursor_fill_buf :: "cursor \<Rightarrow> bytes option" where
  "cursor_fill_buf self =
     (if pos self \<le> length (inner self) then Some (drop (pos self) (inner self)) else None)"

definition cursor_consume :: "cursor \<Rightarrow> nat \<Rightarrow> cursor option" where
  "cursor_consume self amount =
     (if amount \<le> length (inner self) then Some (self\<lparr> pos := pos self + amount \<rparr>) else None)"

section \<open>Writers\<close>

definition vec_write :: "bytes write_fn" where
  "vec_write self buf = (Inr (length buf), self @ buf)"

text \<open>
  A mutable slice as a writer: \<open>filled\<close> is what was written so far and has left the slice, \<open>rest\<close> the
  slice that is left.
\<close>

record slice_writer =
  filled :: bytes
  rest :: bytes

definition slice_write :: "slice_writer write_fn" where
  "slice_write self buf =
     (let cnt = min (length (rest self)) (length buf) in
      (Inr cnt, \<lparr> filled = filled self @ take cnt buf, rest = drop cnt (rest self) \<rparr>))"

definition sink_write :: "unit write_fn" where
  "sink_write self buf = (Inr (length buf), ())"

definition sink_write_all :: "unit \<Rightarrow> bytes \<Rightarrow> (io_failure + unit) \<times> unit" where
  "sink_write_all self buf = (Inr (), ())"

section \<open>What an in-memory reader promises\<close>

definition take_ok :: "('r \<Rightarrow> bool) \<Rightarrow> 'r take_reader \<Rightarrow> bool" where
  "take_ok ok t = ok (reader t)"

definition take_data :: "('r \<Rightarrow> bytes) \<Rightarrow> 'r take_reader \<Rightarrow> bytes" where
  "take_data data t = take (remaining t) (data (reader t))"

locale mem_reader =
  fixes read :: "'r read_fn" and data :: "'r \<Rightarrow> bytes" and ok :: "'r \<Rightarrow> bool"
  assumes read_prefix:
      "ok r \<Longrightarrow> \<exists>c r'. read r n = (Inr c, r') \<and> ok r' \<and> data r = c @ data r' \<and> length c \<le> n"
    and read_progress:
      "\<lbrakk>ok r; read r n = (Inr c, r'); 0 < n; data r \<noteq> []\<rbrakk> \<Longrightarrow> c \<noteq> []"
begin

text \<open>
  \<open>read_exact\<close> returns on such a reader: it fills the buffer with the next \<open>n\<close> bytes when there are
  as many, and reports \<open>UnexpectedEof\<close> otherwise, after having read everything.
\<close>

lemma read_exact_enough:
  assumes "ok r" and "n \<le> length (data r)"
  shows "\<exists>r'. read_exact read r n acc = Some (Inr (acc @ take n (data r)), r') \<and> ok r'
              \<and> data r' = drop n (data r)"
  using assms
proof (induction n arbitrary: r acc rule: less_induct)
  case (less n)
  show ?case
  proof (cases "n = 0")
    case True
    with less.prems show ?thesis by (simp add: read_exact.simps)
  next
    case False
    obtain c r' where rd: "read r n = (Inr c, r')" and ok': "ok r'"
      and dat: "data r = c @ data r'" and len: "length c \<le> n"
      using read_prefix [OF less.prems(1), of n] by blast
    have "data r \<noteq> []" using less.prems(2) False by auto
    with read_progress [OF less.prems(1) rd] False have "c \<noteq> []" by blast
    then have "n - length c < n" using False by auto
    moreover have "n - length c \<le> length (data r')" using less.prems(2) dat by simp
    ultimately obtain r'' where "read_exact read r' (n - length c) (acc @ c) =
        Some (Inr (acc @ c @ take (n - length c) (data r')), r'')" "ok r''"
        "data r'' = drop (n - length c) (data r')"
      using less.IH [of "n - length c" r' "acc @ c"] ok' by auto
    with rd \<open>c \<noteq> []\<close> False dat len show ?thesis
      by (subst read_exact.simps) auto
  qed
qed

lemma read_exact_short:
  assumes "ok r" and "length (data r) < n"
  shows "\<exists>r'. read_exact read r n acc = Some (Inl (Io UnexpectedEof), r') \<and> ok r' \<and> data r' = []"
  using assms
proof (induction n arbitrary: r acc rule: less_induct)
  case (less n)
  obtain c r' where rd: "read r n = (Inr c, r')" and ok': "ok r'"
    and dat: "data r = c @ data r'" and len: "length c \<le> n"
    using read_prefix [OF less.prems(1), of n] by blast
  show ?case
  proof (cases "c = []")
    case True
    then have "data r = []" using read_progress [OF less.prems(1) rd] less.prems(2) by auto
    with True rd ok' dat less.prems(2) show ?thesis by (subst read_exact.simps) auto
  next
    case False
    moreover have "n - length c < n" using False less.prems(2) by auto
    moreover have "length (data r') < n - length c" using less.prems(2) dat by simp
    ultimately show ?thesis
      using less.IH [of "n - length c" r' "acc @ c"] rd ok' less.prems(2)
      by (subst read_exact.simps) auto
  qed
qed

text \<open>\<open>Take\<close> over an in-memory reader is one again, with the data cut at the limit.\<close>

lemma take_read_prefix:
  assumes "take_ok ok t"
  shows "\<exists>c t'. take_read read t n = (Inr c, t') \<and> take_ok ok t'
           \<and> take_data data t = c @ take_data data t' \<and> length c \<le> n
           \<and> data (reader t) = c @ data (reader t')"
proof -
  obtain c r' where "read (reader t) (min n (remaining t)) = (Inr c, r')" "ok r'"
      "data (reader t) = c @ data r'" "length c \<le> min n (remaining t)"
    using read_prefix [of "reader t" "min n (remaining t)"] assms by (auto simp: take_ok_def)
  then show ?thesis by (simp add: take_read_def take_ok_def take_data_def)
qed

lemma take_read_progress:
  assumes "take_ok ok t" "take_read read t n = (Inr c, t')" "0 < n" "take_data data t \<noteq> []"
  shows "c \<noteq> []"
proof -
  obtain c' r' where "read (reader t) (min n (remaining t)) = (Inr c', r')"
    using read_prefix [of "reader t" "min n (remaining t)"] assms(1) by (auto simp: take_ok_def)
  with assms show ?thesis
    using read_progress [of "reader t" "min n (remaining t)"]
    by (auto simp: take_read_def take_ok_def take_data_def)
qed

lemma take_mem_reader: "mem_reader (take_read read) (take_data data) (take_ok ok)"
proof
  fix t n assume "take_ok ok t"
  then show "\<exists>c t'. take_read read t n = (Inr c, t') \<and> take_ok ok t'
      \<and> take_data data t = c @ take_data data t' \<and> length c \<le> n"
    using take_read_prefix [of t n] by blast
qed (rule take_read_progress)

text \<open>\<open>read_to_end\<close> returns, having appended to the buffer exactly what the limit allows.\<close>

lemma read_to_end_returns:
  assumes "take_ok ok t"
  shows "\<exists>t'. read_to_end read t buf cnt =
           Some (Inr (cnt + length (take_data data t)), buf @ take_data data t, t')
           \<and> take_ok ok t' \<and> data (reader t') = drop (length (take_data data t)) (data (reader t))"
  using assms
proof (induction "length (take_data data t)" arbitrary: t buf cnt rule: less_induct)
  case less
  obtain c t' where rd: "take_read read t 64 = (Inr c, t')" and ok': "take_ok ok t'"
    and dat: "take_data data t = c @ take_data data t'"
    and all: "data (reader t) = c @ data (reader t')"
    using take_read_prefix [OF less.prems, of 64] by blast
  show ?case
  proof (cases "c = []")
    case True
    then have "take_data data t = []" using take_read_progress [OF less.prems rd] by auto
    with True rd ok' all show ?thesis by (subst read_to_end.simps) auto
  next
    case False
    then have "length (take_data data t') < length (take_data data t)" using dat by simp
    from less.hyps [OF this ok', of "buf @ c" "cnt + length c"] False rd dat all show ?thesis
      by (subst read_to_end.simps) (auto simp: add.assoc)
  qed
qed

lemma read_to_limit_returns:
  assumes "ok r"
  shows "\<exists>t'. read_to_limit read r buf limit =
           Some (Inr (min limit (length (data r))), buf @ take limit (data r), t')
           \<and> ok (reader t') \<and> data (reader t') = drop limit (data r)"
  using read_to_end_returns [of "take_new r limit" buf 0] assms
  by (auto simp: read_to_limit_def take_ok_def take_data_def take_new_def min.commute min_def)

end

section \<open>Interpretations for the readers\<close>

interpretation slice: mem_reader slice_read "\<lambda>r. r" "\<lambda>_. True"
  by unfold_locales (auto simp: slice_read_def Let_def)

interpretation slice_take: mem_reader "take_read slice_read" "take_data (\<lambda>r. r)" "take_ok (\<lambda>_. True)"
  by (rule slice.take_mem_reader)

definition cursor_ok :: "cursor \<Rightarrow> bool" where
  "cursor_ok c \<longleftrightarrow> pos c \<le> length (inner c) \<and> length (inner c) \<le> u64_max"

definition cursor_data :: "cursor \<Rightarrow> bytes" where
  "cursor_data c = drop (pos c) (inner c)"

lemma cursor_read_ok:
  assumes "cursor_ok c"
  shows "cursor_read c n = (Inr (take n (cursor_data c)),
           c\<lparr> pos := pos c + min (length (cursor_data c)) n \<rparr>)"
proof -
  have "pos c + min (length (inner c) - pos c) n \<le> u64_max"
    using assms by (auto simp: cursor_ok_def)
  moreover have "take (min (length (inner c) - pos c) n) (drop (pos c) (inner c))
      = take n (drop (pos c) (inner c))"
    by (metis length_drop min.commute take_all_iff linorder_le_cases take_take)
  ultimately show ?thesis
    using assms by (simp add: cursor_read_def cursor_ok_def cursor_data_def Let_def)
qed

interpretation cur: mem_reader cursor_read cursor_data cursor_ok
proof
  fix c n assume ok: "cursor_ok c"
  have "drop (pos c + min (length (cursor_data c)) n) (inner c) = drop n (cursor_data c)"
    by (auto simp: cursor_data_def add.commute min_def)
  then have "cursor_data (c\<lparr> pos := pos c + min (length (cursor_data c)) n \<rparr>) = drop n (cursor_data c)"
    by (simp add: cursor_data_def)
  moreover have "cursor_ok (c\<lparr> pos := pos c + min (length (cursor_data c)) n \<rparr>)"
    using ok by (auto simp: cursor_ok_def cursor_data_def)
  ultimately show "\<exists>d c'. cursor_read c n = (Inr d, c') \<and> cursor_ok c'
      \<and> cursor_data c = d @ cursor_data c' \<and> length d \<le> n"
    using ok by (simp add: cursor_read_ok)
qed (auto simp: cursor_read_ok)

interpretation cur_take: mem_reader "take_read cursor_read" "take_data cursor_data" "take_ok cursor_ok"
  by (rule cur.take_mem_reader)

section \<open>What an in-memory writer promises\<close>

text \<open>
  \<open>room\<close> is what the writer can still take: \<^term>\<open>None\<close> for a growing vector, the slice's length for a
  slice.
\<close>

locale mem_writer =
  fixes put :: "'w write_fn" and written :: "'w \<Rightarrow> bytes" and room :: "'w \<Rightarrow> nat option"
  assumes write_takes:
    "\<exists>w'. put w b = (Inr (case room w of None \<Rightarrow> length b | Some k \<Rightarrow> min k (length b)), w')
        \<and> written w' = written w @ take (case room w of None \<Rightarrow> length b | Some k \<Rightarrow> min k (length b)) b
        \<and> room w' = map_option (\<lambda>k. k - min k (length b)) (room w)"
begin

lemma write_all_fits:
  assumes "\<And>k. room w = Some k \<Longrightarrow> length b \<le> k"
  shows "\<exists>w'. write_all put w b = Some (Inr (), w') \<and> written w' = written w @ b
              \<and> room w' = map_option (\<lambda>k. k - length b) (room w)"
proof (cases "b = []")
  case True
  then show ?thesis by (subst write_all.simps) (simp add: option.map_id0 [unfolded id_def])
next
  case False
  have take_all: "(case room w of None \<Rightarrow> length b | Some k \<Rightarrow> min k (length b)) = length b"
    using assms by (auto split: option.splits)
  have left: "map_option (\<lambda>k. k - min k (length b)) (room w) = map_option (\<lambda>k. k - length b) (room w)"
    by (cases "room w") auto
  obtain w' where "put w b = (Inr (length b), w')" "written w' = written w @ b"
      "room w' = map_option (\<lambda>k. k - length b) (room w)"
    using write_takes [of w b] unfolding take_all left by auto
  moreover have "write_all put w' [] = Some (Inr (), w')" by (subst write_all.simps) simp
  ultimately show ?thesis using False by (subst write_all.simps) auto
qed

lemma write_all_full:
  assumes "room w = Some k" and "k < length b"
  shows "\<exists>w'. write_all put w b = Some (Inl (Io UnexpectedEof), w')
              \<and> written w' = written w @ take k b \<and> room w' = Some 0"
proof -
  have stuck: "\<exists>w'. write_all put v c = Some (Inl (Io UnexpectedEof), w')
      \<and> written w' = written v \<and> room w' = Some 0" if "room v = Some 0" "c \<noteq> []" for v c
    using that write_takes [of v c] by (subst write_all.simps) auto
  show ?thesis
  proof (cases "k = 0")
    case True
    then show ?thesis using stuck [of w b] assms by auto
  next
    case False
    obtain w' where w': "put w b = (Inr k, w')" "written w' = written w @ take k b"
        "room w' = Some 0"
      using write_takes [of w b] assms by (auto simp: min_def)
    have "drop k b \<noteq> []" using assms(2) by simp
    from stuck [OF w'(3) this] w' False assms(2) show ?thesis
      by (subst write_all.simps) auto
  qed
qed

end

interpretation vec: mem_writer vec_write "\<lambda>w. w" "\<lambda>_. None"
  by unfold_locales (simp add: vec_write_def)

interpretation mut_slice: mem_writer slice_write filled "\<lambda>w. Some (length (rest w))"
  by unfold_locales (simp add: slice_write_def Let_def)

section \<open>Reading from a byte string\<close>

text \<open>
  The decoders of the library are given as functions of the bytes not yet read. Their one primitive
  is \<open>read_exact\<close> on the source: \<open>dread n\<close>. That it is what the loop computes on every in-memory
  reader is what the locale shows; below it is stated for slices, cursors and \<open>Take\<close>.
\<close>

definition dread :: "nat \<Rightarrow> (io_failure, bytes) decoder" where
  "dread n = (\<lambda>r. if n \<le> length r then Inr (take n r, drop n r) else Inl (Io UnexpectedEof))"

lemma dread_append [codec_simps]: "length a = n \<Longrightarrow> dread n (a @ r) = Inr (a, r)"
  by (auto simp: dread_def)

lemma dread_Inr_iff: "dread n r = Inr (a, r') \<longleftrightarrow> length a = n \<and> r = a @ r'"
  by (auto simp: dread_def)

lemma dread_Inl_iff: "dread n r = Inl e \<longleftrightarrow> length r < n \<and> e = Io UnexpectedEof"
  by (auto simp: dread_def)

text \<open>
  \<open>read_exact\<close> always returns on a cursor over a buffer, on a slice and on a \<open>Take\<close> of a slice;
  it fills the buffer with exactly the next bytes and advances by as many when the source has them
  (for \<open>Take\<close>: within the limit), and reports \<open>UnexpectedEof\<close> with the source exhausted otherwise.
\<close>

theorem read_exact_in_memory:
  assumes "cursor_ok c"
  shows "read_exact slice_read r n [] =
       Some (if n \<le> length r then (Inr (take n r), drop n r) else (Inl (Io UnexpectedEof), []))
   \<and> (\<exists>c'. cursor_ok c' \<and> read_exact cursor_read c n [] =
       Some (if n \<le> length (cursor_data c) then Inr (take n (cursor_data c)) else Inl (Io UnexpectedEof), c')
       \<and> cursor_data c' = drop n (cursor_data c))
   \<and> (\<exists>t'. read_exact (take_read slice_read) (take_new r limit) n [] =
       Some (if n \<le> min limit (length r) then Inr (take n r) else Inl (Io UnexpectedEof), t')
       \<and> take_data (\<lambda>r. r) t' = drop n (take limit r))"
proof (intro conjI)
  show "read_exact slice_read r n [] =
     Some (if n \<le> length r then (Inr (take n r), drop n r) else (Inl (Io UnexpectedEof), []))"
    using slice.read_exact_enough [of n r "[]"] slice.read_exact_short [of r n "[]"] by auto
  show "\<exists>c'. cursor_ok c' \<and> read_exact cursor_read c n [] =
     Some (if n \<le> length (cursor_data c) then Inr (take n (cursor_data c)) else Inl (Io UnexpectedEof), c')
     \<and> cursor_data c' = drop n (cursor_data c)"
    using cur.read_exact_enough [OF assms, of n "[]"] cur.read_exact_short [OF assms, of n "[]"]
    by (cases "n \<le> length (cursor_data c)") auto
  have "take_data (\<lambda>r. r) (take_new r limit) = take limit r"
    by (simp add: take_data_def take_new_def)
  then show "\<exists>t'. read_exact (take_read slice_read) (take_new r limit) n [] =
     Some (if n \<le> min limit (length r) then Inr (take n r) else Inl (Io UnexpectedEof), t')
     \<and> take_data (\<lambda>r. r) t' = drop n (take limit r)"
    using slice_take.read_exact_enough [of "take_new r limit" n "[]"]
      slice_take.read_exact_short [of "take_new r limit" n "[]"]
    by (cases "n \<le> min limit (length r)") (auto simp: take_ok_def)
qed

theorem read_exact_in_memory_witness:
  "cursor_ok \<lparr> inner = [1, 2, 3], pos = 1 \<rparr>
   \<and> read_exact slice_read [5, 6, 7] 2 [] = Some (Inr [5, 6], [7])
   \<and> (\<exists>c'. read_exact cursor_read \<lparr> inner = [1, 2, 3], pos = 1 \<rparr> 2 [] = Some (Inr [2, 3], c'))"
proof -
  have ok: "cursor_ok \<lparr> inner = [1, 2, 3], pos = 1 \<rparr>" by (simp add: cursor_ok_def u64_max_def)
  from ok read_exact_in_memory [OF ok, of "[5, 6, 7]" 2 0] show ?thesis
    by (auto simp: cursor_data_def)
qed

end
