(* ===== verification/Hash_Engine.thy ===== *)
theory Hash_Engine
  imports Prelude
begin

text \<open>
  The hash engine that the block hashes of \<open>src/hashes/src\<close> share: the state of \<open>HashEngine\<close> (buffer,
  chaining value, byte count), the input loop of the macro \<open>engine_input_impl!\<close> (\<open>util.rs\<close>), the
  padding code of the \<open>from_engine\<close> functions, and \<open>hash\<close> and \<open>hash_byte_chunks\<close> of the trait \<open>Hash\<close>
  (\<open>lib.rs\<close>). \<open>B\<close> is \<open>BLOCK_SIZE\<close>, \<open>P\<close> the \<open>process_block\<close> of the hash as a function of chaining
  value and buffer, \<open>L\<close> the size of the length field and \<open>lf\<close> its encoding of the byte count (as the
  list of the inputs that write it).

  The reference is \<open>absorb\<close>, the Merkle-Damgard iteration over the whole blocks of a message, and
  \<open>md_pad\<close>, the padded message. The locale \<open>block_hash\<close> proves once that the buffering engine computes
  them, whatever way the message was split over calls of \<open>input\<close>; the hashes interpret it.
\<close>

record 'h engine =
  buffer :: bytes
  hstate :: 'h
  nbytes :: nat

section \<open>The code\<close>

function engine_input :: "nat \<Rightarrow> ('h \<Rightarrow> bytes \<Rightarrow> 'h) \<Rightarrow> 'h engine \<Rightarrow> bytes \<Rightarrow> 'h engine" where
  "engine_input B P e inp =
     (if inp = [] \<or> B = 0 then e
      else let buf_idx = nbytes e mod B;
               rem_len = B - buf_idx;
               write_len = min rem_len (length inp);
               e1 = e\<lparr> buffer := overwrite (buffer e) buf_idx (take write_len inp),
                       nbytes := nbytes e + write_len \<rparr>;
               e2 = (if nbytes e1 mod B = 0 then e1\<lparr> hstate := P (hstate e1) (buffer e1) \<rparr> else e1)
           in engine_input B P e2 (drop write_len inp))"
  by pat_completeness auto
termination
  by (relation "measure (\<lambda>(B, P, e, inp). length inp)") auto

declare engine_input.simps [simp del]

text \<open>
  The padding of \<open>from_engine\<close>; the digest is read off the chaining value of the engine it returns.
\<close>

definition engine_finish ::
  "nat \<Rightarrow> nat \<Rightarrow> (nat \<Rightarrow> bytes list) \<Rightarrow> ('h \<Rightarrow> bytes \<Rightarrow> 'h) \<Rightarrow> 'h engine \<Rightarrow> 'h engine" where
  "engine_finish B L lf P e =
     (let data_len = nbytes e;
          zeroes = replicate (B - L) 0;
          e1 = engine_input B P e [0x80];
          e2 = (if nbytes e1 mod B > length zeroes then engine_input B P e1 zeroes else e1);
          pad_length = length zeroes - nbytes e2 mod B;
          e3 = engine_input B P e2 (take pad_length zeroes)
      in fold (\<lambda>c e. engine_input B P e c) (lf data_len) e3)"

definition new_engine :: "nat \<Rightarrow> 'h \<Rightarrow> 'h engine" where
  "new_engine B iv = \<lparr> buffer = replicate B 0, hstate = iv, nbytes = 0 \<rparr>"

text \<open>\<open>Hash::hash\<close> and \<open>Hash::hash_byte_chunks\<close>.\<close>

definition hash_trait_hash :: "('s \<Rightarrow> bytes \<Rightarrow> 's) \<Rightarrow> ('s \<Rightarrow> bytes) \<Rightarrow> 's \<Rightarrow> bytes \<Rightarrow> bytes" where
  "hash_trait_hash input from_engine engine data = from_engine (input engine data)"

definition hash_byte_chunks ::
  "('s \<Rightarrow> bytes \<Rightarrow> 's) \<Rightarrow> ('s \<Rightarrow> bytes) \<Rightarrow> 's \<Rightarrow> bytes list \<Rightarrow> bytes" where
  "hash_byte_chunks input from_engine engine chunks = from_engine (fold (\<lambda>c e. input e c) chunks engine)"

section \<open>The reference\<close>

function absorb :: "nat \<Rightarrow> ('h \<Rightarrow> bytes \<Rightarrow> 'h) \<Rightarrow> 'h \<Rightarrow> bytes \<Rightarrow> 'h" where
  "absorb B P h m = (if B = 0 \<or> length m < B then h else absorb B P (P h (take B m)) (drop B m))"
  by pat_completeness auto
termination
  by (relation "measure (\<lambda>(B, P, h, m). length m)") auto

declare absorb.simps [simp del]

definition md_pad :: "nat \<Rightarrow> nat \<Rightarrow> (nat \<Rightarrow> bytes list) \<Rightarrow> nat \<Rightarrow> bytes \<Rightarrow> bytes" where
  "md_pad B L lf n m = m @ [0x80] @ replicate ((2 * B - L - 1 - length m mod B) mod B) 0 @ concat (lf n)"

lemma absorb_short: "length m < B \<Longrightarrow> absorb B P h m = h"
  by (simp add: absorb.simps)

lemma absorb_block: "\<lbrakk>length b = B; 0 < B\<rbrakk> \<Longrightarrow> absorb B P h (b @ m) = absorb B P (P h b) m"
  by (subst absorb.simps) simp

text \<open>Two compressions that agree on chaining values of \<open>n\<close> words absorb alike.\<close>

lemma absorb_agree:
  assumes "\<And>h b. \<lbrakk>length h = n; length b = B\<rbrakk> \<Longrightarrow> P h b = Q h b \<and> length (Q h b) = n" and "length h = n"
  shows "absorb B P h m = absorb B Q h m \<and> length (absorb B Q h m) = n"
  using assms(2)
proof (induction "length m" arbitrary: m h rule: less_induct)
  case less
  show ?case
  proof (cases "B = 0 \<or> length m < B")
    case True
    then show ?thesis using less.prems by (simp add: absorb.simps)
  next
    case False
    then have "P h (take B m) = Q h (take B m) \<and> length (Q h (take B m)) = n" using less.prems by (intro assms(1)) simp_all
    moreover have "length (drop B m) < length m" using False by (cases m) auto
    ultimately show ?thesis
      using less.hyps [of "drop B m" "Q h (take B m)"] False by (simp add: absorb.simps [of B _ h m])
  qed
qed

lemma absorb_append:
  assumes "0 < B" and "B dvd length a"
  shows "absorb B P h (a @ b) = absorb B P (absorb B P h a) b"
  using assms
proof (induction "length a" arbitrary: a h rule: less_induct)
  case less
  show ?case
  proof (cases "a = []")
    case True
    then show ?thesis using less.prems by (simp add: absorb_short)
  next
    case False
    then have "B \<le> length a" using less.prems by (simp add: dvd_imp_le)
    then obtain x y where a: "a = x @ y" "length x = B"
      by (metis append_take_drop_id length_take min_absorb2)
    then have "length y < length a" "B dvd length y"
      using less.prems by auto
    from less.hyps [OF this(1) less.prems(1) this(2)] a less.prems show ?thesis
      by (simp add: absorb_block)
  qed
qed

lemma nbytes_input: "0 < B \<Longrightarrow> nbytes (engine_input B P e inp) = nbytes e + length inp"
proof (induction B P e inp rule: engine_input.induct)
  case (1 B P e inp)
  then show ?case by (subst engine_input.simps) (auto simp: Let_def)
qed

text \<open>The bytes of a message past its last whole block.\<close>

definition tail_of :: "nat \<Rightarrow> bytes \<Rightarrow> bytes" where
  "tail_of B m = drop (B * (length m div B)) m"

lemma length_tail_of: "length (tail_of B m) = length m mod B"
  by (simp add: tail_of_def minus_mult_div_eq_mod)

lemma absorb_tail_append:
  assumes "0 < B"
  shows "absorb B P h (m @ x) = absorb B P (absorb B P h m) (tail_of B m @ x)"
proof -
  define a where "a = take (B * (length m div B)) m"
  have m: "m = a @ tail_of B m" by (simp add: a_def tail_of_def)
  have "B * (length m div B) \<le> length m" by simp
  then have dvd: "B dvd length a" by (simp add: a_def min_absorb2)
  have "length (tail_of B m) < B" using assms by (simp add: length_tail_of)
  then have "absorb B P h m = absorb B P h a"
    using absorb_append [OF assms dvd, of P h "tail_of B m"] m absorb_short by metis
  moreover have "absorb B P h (m @ x) = absorb B P (absorb B P h a) (tail_of B m @ x)"
    using absorb_append [OF assms dvd, of P h "tail_of B m @ x"] m by (metis append.assoc)
  ultimately show ?thesis by simp
qed

lemma tail_of_append_short:
  assumes "length m mod B + length x < B"
  shows "tail_of B (m @ x) = tail_of B m @ x"
proof -
  have "length m + length x = (length m mod B + length x) + B * (length m div B)" by simp
  moreover have "((length m mod B + length x) + B * (length m div B)) div B
      = length m div B + (length m mod B + length x) div B"
    using assms by (intro div_mult_self2) auto
  ultimately have "(length m + length x) div B = length m div B" using assms by simp
  then show ?thesis by (simp add: tail_of_def)
qed

lemma tail_of_append_full:
  assumes "(length m + length x) mod B = 0"
  shows "tail_of B (m @ x) = []"
  using length_tail_of [of B "m @ x"] assms by simp

section \<open>The engine and the message it has seen\<close>

text \<open>
  \<open>holds B P h m e\<close>: from chaining value \<open>h\<close>, at a block boundary, \<open>e\<close> has been given the bytes
  \<open>m\<close>. The byte count need only agree with \<open>m\<close> modulo the block size, so that an engine resumed from
  a midstate is covered.
\<close>

definition holds :: "nat \<Rightarrow> ('h \<Rightarrow> bytes \<Rightarrow> 'h) \<Rightarrow> 'h \<Rightarrow> bytes \<Rightarrow> 'h engine \<Rightarrow> bool" where
  "holds B P h m e \<longleftrightarrow> length (buffer e) = B \<and> nbytes e mod B = length m mod B
     \<and> hstate e = absorb B P h m \<and> take (length m mod B) (buffer e) = tail_of B m"

locale block_hash =
  fixes B L :: nat and lf :: "nat \<Rightarrow> bytes list" and P :: "'h \<Rightarrow> bytes \<Rightarrow> 'h"
  assumes block_pos: "0 < L" "2 * L \<le> B"
    and length_field: "length (concat (lf n)) = L"
begin

lemma block_size_pos: "0 < B"
  using block_pos by simp

lemma holds_new: "holds B P h [] (new_engine B h)"
  using block_size_pos by (simp add: holds_def new_engine_def absorb_short tail_of_def)

text \<open>One turn of the input loop.\<close>

lemma holds_turn:
  assumes h: "holds B P h m e" and x: "0 < length x" "length x \<le> B - nbytes e mod B"
    and e1: "e1 = e\<lparr> buffer := overwrite (buffer e) (nbytes e mod B) x, nbytes := nbytes e + length x \<rparr>"
  shows "holds B P h (m @ x)
     (if nbytes e1 mod B = 0 then e1\<lparr> hstate := P (hstate e1) (buffer e1) \<rparr> else e1)"
proof -
  let ?i = "length m mod B"
  have i: "nbytes e mod B = ?i" "length (buffer e) = B" "take ?i (buffer e) = tail_of B m"
    "hstate e = absorb B P h m" using h by (auto simp: holds_def)
  have lt: "?i < B" using block_size_pos by simp
  have len: "?i + length x \<le> B" using x i lt by simp
  have buf: "take (?i + length x) (buffer e1) = tail_of B m @ x" "length (buffer e1) = B"
    using i lt len by (simp_all add: e1 take_overwrite_end)
  have cnt: "nbytes e1 mod B = (length m + length x) mod B"
    using mod_add_cong [OF i(1) refl, of "length x"] by (simp add: e1)
  also have "\<dots> = (?i + length x) mod B" by (simp add: mod_add_left_eq)
  finally have cnt': "nbytes e1 mod B = (?i + length x) mod B" .
  show ?thesis
  proof (cases "?i + length x = B")
    case True
    then have z: "nbytes e1 mod B = 0" "(length m + length x) mod B = 0" using cnt' cnt by simp_all
    have "length (tail_of B m @ x) = B" using True by (simp add: length_tail_of)
    then have "absorb B P h (m @ x) = P (absorb B P h m) (tail_of B m @ x)"
      using absorb_block [of "tail_of B m @ x" B P "absorb B P h m" "[]"] block_size_pos
      by (simp add: absorb_tail_append [of B P h m x] absorb_short)
    moreover have "buffer e1 = tail_of B m @ x" using buf True by simp
    ultimately show ?thesis
      using z i buf tail_of_append_full [OF z(2)] by (simp add: holds_def e1)
  next
    case False
    then have lt': "?i + length x < B" using len by simp
    then have nz: "nbytes e1 mod B \<noteq> 0" "(length m + length x) mod B = ?i + length x"
      using cnt' cnt x(1) by simp_all
    have "absorb B P h (m @ x) = absorb B P h m"
      using lt' block_size_pos by (simp add: absorb_tail_append [of B P h m x] absorb_short length_tail_of)
    then show ?thesis
      using nz i buf lt' cnt x(1) by (auto simp: holds_def e1 tail_of_append_short)
  qed
qed

lemma holds_input:
  assumes "holds B P h m e"
  shows "holds B P h (m @ inp) (engine_input B P e inp)"
  using assms
proof (induction "length inp" arbitrary: m e inp rule: less_induct)
  case less
  show ?case
  proof (cases "inp = []")
    case True
    then show ?thesis using less.prems by (simp add: engine_input.simps)
  next
    case False
    define k where "k = min (B - nbytes e mod B) (length inp)"
    define x where "x = take k inp"
    have lenx: "length x = k" by (simp add: x_def k_def)
    have "nbytes e mod B < B" using block_size_pos by simp
    then have k: "0 < k" "k \<le> B - nbytes e mod B" using False by (auto simp: k_def)
    define e1 where "e1 = e\<lparr> buffer := overwrite (buffer e) (nbytes e mod B) x, nbytes := nbytes e + k \<rparr>"
    define e2 where "e2 = (if nbytes e1 mod B = 0 then e1\<lparr> hstate := P (hstate e1) (buffer e1) \<rparr> else e1)"
    have "holds B P h (m @ x) e2"
      using holds_turn [OF less.prems, of x e1] k lenx by (simp add: e1_def e2_def)
    moreover have "length (drop k inp) < length inp" using k False by simp
    ultimately have "holds B P h ((m @ x) @ drop k inp) (engine_input B P e2 (drop k inp))"
      by (rule less.hyps [rotated])
    moreover have "engine_input B P e inp = engine_input B P e2 (drop k inp)"
      using False block_size_pos
      by (subst engine_input.simps) (simp add: Let_def k_def e1_def e2_def x_def)
    ultimately show ?thesis by (simp add: x_def)
  qed
qed

text \<open>Splitting the input over several calls does not matter.\<close>

lemma holds_chunks:
  assumes "holds B P h m e"
  shows "holds B P h (m @ concat cs) (fold (\<lambda>c e. engine_input B P e c) cs e)"
  using assms
proof (induction cs arbitrary: m e)
  case Nil
  then show ?case by simp
next
  case (Cons c cs)
  from Cons.IH [OF holds_input [OF Cons.prems, of c]] show ?case by simp
qed

lemma nbytes_chunks: "nbytes (fold (\<lambda>c e. engine_input B P e c) cs e) = nbytes e + length (concat cs)"
  by (induction cs arbitrary: e) (simp_all add: nbytes_input block_size_pos)

lemma holds_hstate:
  assumes "holds B P h m e" and "B dvd length m"
  shows "hstate e = absorb B P h m"
  using assms by (simp add: holds_def)

text \<open>The two branches of the padding code give the same padding: the least that fills a block.\<close>

lemma pad_zeroes:
  assumes idx1: "idx1 = (n + 1) mod B"
  shows "(2 * B - L - 1 - n mod B) mod B =
           (if B - L < idx1 then (B - L) + ((B - L) - (idx1 + (B - L)) mod B) else (B - L) - idx1)"
proof -
  let ?i = "n mod B"
  have lt: "?i < B" using block_size_pos by simp
  show ?thesis
  proof (cases "?i + 1 = B")
    case True
    then have "idx1 = 0" using idx1 by (metis mod_add_left_eq mod_self)
    then show ?thesis using True block_pos by simp
  next
    case False
    then have i1: "idx1 = ?i + 1" using lt idx1 by (metis mod_Suc Suc_eq_plus1)
    show ?thesis
    proof (cases "B - L < idx1")
      case True
      have "idx1 + (B - L) = (idx1 - L) + B" "idx1 - L < B" using True block_pos i1 lt by linarith+
      then have wrap: "(idx1 + (B - L)) mod B = idx1 - L" by simp
      have "2 * B - L - 1 - ?i < B" using True i1 lt block_pos by linarith
      then have "(2 * B - L - 1 - ?i) mod B = 2 * B - L - 1 - ?i" by (rule mod_less)
      also have "\<dots> = (B - L) + ((B - L) - (idx1 - L))" using True i1 lt block_pos by linarith
      finally show ?thesis using True by (simp only: wrap if_True)
    next
      case False
      then have "2 * B - L - 1 - ?i = B + (B - L - idx1)" using i1 block_pos by simp
      moreover have "B - L - idx1 < B" using block_size_pos i1 by linarith
      ultimately show ?thesis using False by (simp only: mod_add_self1 mod_less if_False)
    qed
  qed
qed

lemma md_pad_blocks: "B dvd length (md_pad B L lf n m)"
proof -
  let ?z = "2 * B - L - 1 - length m mod B"
  have "length m mod B < B" using block_size_pos by simp
  then have "length m mod B + 1 + ?z + L = 2 * B" using block_pos by linarith
  then have "(length m mod B + 1 + ?z + L) mod B = 0" by simp
  moreover have "(length m + 1 + ?z mod B + L) mod B = (length m mod B + 1 + ?z + L) mod B"
    by (intro mod_add_cong) (simp_all add: mod_add_right_eq)
  ultimately have "(length m + 1 + ?z mod B + L) mod B = 0" by simp
  then show ?thesis using length_field [of n]
    by (simp add: md_pad_def mod_eq_0_iff_dvd add.commute add.left_commute)
qed

lemma finish_absorbs:
  assumes h: "holds B P h m e"
  shows "hstate (engine_finish B L lf P e) = absorb B P h (md_pad B L lf (nbytes e) m)"
proof -
  define e1 where "e1 = engine_input B P e [0x80]"
  define zs :: bytes where "zs = replicate (B - L) 0"
  define e2 where "e2 = (if nbytes e1 mod B > length zs then engine_input B P e1 zs else e1)"
  define p where "p = length zs - nbytes e2 mod B"
  have h1: "holds B P h (m @ [0x80]) e1" using holds_input [OF h] by (simp add: e1_def)
  have idx1: "nbytes e1 mod B = (length m + 1) mod B" using h1 by (simp add: holds_def)
  have h2: "holds B P h (m @ [0x80] @ (if nbytes e1 mod B > B - L then zs else [])) e2"
    using holds_input [OF h1, of zs] h1 by (simp add: e2_def zs_def)
  have pz: "(if nbytes e1 mod B > B - L then zs else []) @ take p zs =
      replicate ((2 * B - L - 1 - length m mod B) mod B) 0"
  proof (cases "nbytes e1 mod B > B - L")
    case True
    have "nbytes e2 mod B = (nbytes e1 mod B + (B - L)) mod B"
      using True block_size_pos by (simp add: e2_def zs_def nbytes_input mod_add_left_eq)
    then show ?thesis
      using True pad_zeroes [OF idx1] by (simp add: p_def zs_def replicate_add)
  next
    case False
    then show ?thesis using pad_zeroes [OF idx1] by (simp add: p_def zs_def e2_def)
  qed
  have "engine_finish B L lf P e =
      fold (\<lambda>c e. engine_input B P e c) (lf (nbytes e)) (engine_input B P e2 (take p zs))"
    by (simp add: engine_finish_def Let_def e1_def e2_def p_def zs_def)
  moreover have "holds B P h (((m @ [0x80] @ (if nbytes e1 mod B > B - L then zs else []))
      @ take p zs) @ concat (lf (nbytes e)))
      (fold (\<lambda>c e. engine_input B P e c) (lf (nbytes e)) (engine_input B P e2 (take p zs)))"
    by (intro holds_chunks holds_input h2)
  moreover have "((m @ [0x80] @ (if nbytes e1 mod B > B - L then zs else [])) @ take p zs)
      @ concat (lf (nbytes e)) = md_pad B L lf (nbytes e) m"
    using pz by (simp add: md_pad_def)
  ultimately show ?thesis using holds_hstate [OF _ md_pad_blocks] by simp
qed

lemma hash_chunks_absorbs:
  "hstate (engine_finish B L lf P (fold (\<lambda>c e. engine_input B P e c) cs (new_engine B h)))
     = absorb B P h (md_pad B L lf (length (concat cs)) (concat cs))"
proof -
  have "nbytes (fold (\<lambda>c e. engine_input B P e c) cs (new_engine B h)) = length (concat cs)"
    by (simp add: nbytes_chunks new_engine_def)
  with finish_absorbs [OF holds_chunks [OF holds_new, of h cs]] show ?thesis by simp
qed

end

end
