(* ===== verification/Sha2_Rounds.thy ===== *)
theory Sha2_Rounds
  imports Hash_Engine
begin

text \<open>
  The compression function of the SHA-2 family as the code writes it: eight registers that stay in
  place while the arguments of the macro \<open>round!\<close> rotate, and a sixteen-word message schedule that is
  updated in place. The list of the macro's calls is data (\<open>round_call\<close>), so that each hash gives the
  calls its source file lists. The reference is the compression of FIPS 180-4, where the registers
  shift and the schedule is a table of as many words as there are rounds.
\<close>

section \<open>The macro and a sequence of its calls\<close>

record 'w sha2_funs =
  f_Ch :: "'w \<Rightarrow> 'w \<Rightarrow> 'w \<Rightarrow> 'w"
  f_Maj :: "'w \<Rightarrow> 'w \<Rightarrow> 'w \<Rightarrow> 'w"
  f_Sigma0 :: "'w \<Rightarrow> 'w"
  f_Sigma1 :: "'w \<Rightarrow> 'w"
  f_sigma0 :: "'w \<Rightarrow> 'w"
  f_sigma1 :: "'w \<Rightarrow> 'w"

text \<open>
  A call names the registers in the places of \<open>a, ..., h\<close>, the constant, and the indices into \<open>w\<close>.
\<close>

datatype 'w round_call =
    Round "nat list" 'w nat
  | LaterRound "nat list" 'w nat nat nat nat

definition sha2_round ::
  "'a::len word sha2_funs \<Rightarrow> nat list \<Rightarrow> 'a word \<Rightarrow> 'a word \<Rightarrow> 'a word list \<Rightarrow> 'a word list" where
  "sha2_round F v k w R =
     (let a = R ! (v ! 0); b = R ! (v ! 1); c = R ! (v ! 2); d = R ! (v ! 3);
          e = R ! (v ! 4); f = R ! (v ! 5); g = R ! (v ! 6); h = R ! (v ! 7);
          t1 = h + f_Sigma1 F e + f_Ch F e f g + k + w;
          t2 = f_Sigma0 F a + f_Maj F a b c
      in R[v ! 3 := d + t1, v ! 7 := t1 + t2])"

fun sha2_call ::
  "'a::len word sha2_funs \<Rightarrow> 'a word round_call \<Rightarrow> 'a word list \<times> 'a word list
     \<Rightarrow> 'a word list \<times> 'a word list" where
  "sha2_call F (Round v k i) (R, w) = (sha2_round F v k (w ! i) R, w)"
| "sha2_call F (LaterRound v k i i1 i2 i3) (R, w) =
     (let w' = w[i := w ! i + f_sigma1 F (w ! i1) + w ! i2 + f_sigma0 F (w ! i3)]
      in (sha2_round F v k (w' ! i) R, w'))"

definition sha2_compress ::
  "'a::len word sha2_funs \<Rightarrow> 'a word round_call list \<Rightarrow> 'a word list \<Rightarrow> 'a word list \<Rightarrow> 'a word list" where
  "sha2_compress F calls h w = map2 (+) h (fst (fold (sha2_call F) calls (h, w)))"

section \<open>The reference of FIPS 180-4\<close>

fun fips_schedule :: "'a::len word sha2_funs \<Rightarrow> 'a word list \<Rightarrow> nat \<Rightarrow> 'a word" where
  "fips_schedule F M t =
     (if t < 16 then M ! t
      else f_sigma1 F (fips_schedule F M (t - 2)) + fips_schedule F M (t - 7)
         + f_sigma0 F (fips_schedule F M (t - 15)) + fips_schedule F M (t - 16))"

declare fips_schedule.simps [simp del]

definition fips_step ::
  "'a::len word sha2_funs \<Rightarrow> 'a word \<Rightarrow> 'a word \<Rightarrow> 'a word list \<Rightarrow> 'a word list" where
  "fips_step F k w S =
     (let T1 = S ! 7 + f_Sigma1 F (S ! 4) + f_Ch F (S ! 4) (S ! 5) (S ! 6) + k + w;
          T2 = f_Sigma0 F (S ! 0) + f_Maj F (S ! 0) (S ! 1) (S ! 2)
      in [T1 + T2, S ! 0, S ! 1, S ! 2, S ! 3 + T1, S ! 4, S ! 5, S ! 6])"

definition fips_compress ::
  "'a::len word sha2_funs \<Rightarrow> 'a word list \<Rightarrow> 'a word list \<Rightarrow> 'a word list \<Rightarrow> 'a word list" where
  "fips_compress F K h M =
     map2 (+) h (fold (\<lambda>t S. fips_step F (K ! t) (fips_schedule F M t) S) [0..<length K] h)"

lemma length_fips_compress: "length h = 8 \<Longrightarrow> length (fips_compress F K h M) = 8"
proof -
  have "length (fold (\<lambda>t S. fips_step F (K ! t) (fips_schedule F M t) S) ts h) = 8" if "length h = 8" for ts h
    using that by (induction ts arbitrary: h) (simp_all add: fips_step_def Let_def)
  then show "length h = 8 \<Longrightarrow> length (fips_compress F K h M) = 8" by (simp add: fips_compress_def)
qed

section \<open>The regular sequence of calls computes the reference\<close>

definition role :: "nat \<Rightarrow> nat \<Rightarrow> nat" where
  "role i j = (j + (8 - i mod 8)) mod 8"

definition regular_call :: "'w list \<Rightarrow> nat \<Rightarrow> 'w round_call" where
  "regular_call K i =
     (let v = map (role i) [0..<8] in
      if i < 16 then Round v (K ! i) i
      else LaterRound v (K ! i) (i mod 16) ((i + 14) mod 16) ((i + 9) mod 16) ((i + 1) mod 16))"

definition regular_calls :: "'w list \<Rightarrow> 'w round_call list" where
  "regular_calls K = map (regular_call K) [0..<length K]"

lemma upt_8: "[0..<8] = [0, 1, 2, 3, 4, 5, 6, 7::nat]"
  by (simp add: upt_rec)

lemma list_8: "length R = 8 \<Longrightarrow> \<exists>a b c d e f g h. R = [a, b, c, d, e, f, g, h]"
  by (auto simp: length_Suc_conv eval_nat_numeral)

lemma mod_8_cases: "(i::nat) mod 8 \<in> {0, 1, 2, 3, 4, 5, 6, 7}"
  by (simp only: insert_iff empty_iff) presburger

lemma round_is_step:
  assumes "length R = 8"
  shows "map (\<lambda>j. sha2_round F (map (role i) [0..<8]) k w R ! role (Suc i) j) [0..<8]
           = fips_step F k w (map (\<lambda>j. R ! role i j) [0..<8])"
proof -
  from list_8 [OF assms] obtain a b c d e f g h where R: "R = [a, b, c, d, e, f, g, h]" by blast
  from mod_8_cases [of i] show ?thesis
    by (elim insertE emptyE)
      (simp_all add: R role_def upt_8 sha2_round_def fips_step_def Let_def mod_Suc)
qed

lemma length_sha2_round [simp]: "length (sha2_round F v k w R) = length R"
  by (simp add: sha2_round_def Let_def)

text \<open>The window of the schedule that the sixteen words hold before round \<open>n\<close>.\<close>

definition window :: "'a::len word sha2_funs \<Rightarrow> 'a word list \<Rightarrow> nat \<Rightarrow> 'a word list \<Rightarrow> bool" where
  "window F M n w \<longleftrightarrow> length w = 16
     \<and> (\<forall>t. n \<le> t + 16 \<longrightarrow> t < max 16 n \<longrightarrow> w ! (t mod 16) = fips_schedule F M t)"

lemma windowD: "\<lbrakk>window F M n w; n \<le> t + 16; t < max 16 n\<rbrakk> \<Longrightarrow> w ! (t mod 16) = fips_schedule F M t"
  by (simp add: window_def)

lemma window_start: "length M = 16 \<Longrightarrow> window F M 0 M"
  by (auto simp: window_def fips_schedule.simps)

lemma window_first: "\<lbrakk>window F M n w; n < 16\<rbrakk> \<Longrightarrow> window F M (Suc n) w"
  by (auto simp: window_def)

lemma window_later:
  assumes w: "window F M n w" and n: "16 \<le> n"
  shows "window F M (Suc n) (w[n mod 16 := w ! (n mod 16) + f_sigma1 F (w ! ((n + 14) mod 16))
           + w ! ((n + 9) mod 16) + f_sigma0 F (w ! ((n + 1) mod 16))])"
proof -
  have at: "w ! ((n + d) mod 16) = fips_schedule F M (n + d - 16)" if "d < 16" for d
  proof -
    have "(n + d - 16) mod 16 = (n + d) mod 16"
      using n by (metis add.commute le_add_diff_inverse2 mod_add_self2 trans_le_add1)
    moreover have "w ! ((n + d - 16) mod 16) = fips_schedule F M (n + d - 16)"
      using w that n by (intro windowD [OF w]) auto
    ultimately show ?thesis by simp
  qed
  have new: "fips_schedule F M n = w ! (n mod 16) + f_sigma1 F (w ! ((n + 14) mod 16))
      + w ! ((n + 9) mod 16) + f_sigma0 F (w ! ((n + 1) mod 16))"
  proof -
    have "n + 14 - 16 = n - 2" "n + 9 - 16 = n - 7" "n + 1 - 16 = n - 15" using n by simp_all
    then show ?thesis
      using at [of 0] at [of 14] at [of 9] at [of 1] n
      by (subst fips_schedule.simps) (simp add: add_ac)
  qed
  have keep: "w ! (t mod 16) = fips_schedule F M t" if "Suc n \<le> t + 16" "t < n" for t
    using w that by (simp add: window_def)
  have distinct: "t mod 16 \<noteq> n mod 16" if "Suc n \<le> t + 16" "t < n" for t
  proof
    assume "t mod 16 = n mod 16"
    then have "16 dvd n - t" using that by (metis mod_eq_dvd_iff_nat less_imp_le)
    then show False using that by (auto dest: dvd_imp_le)
  qed
  show ?thesis
    unfolding window_def
  proof (intro conjI allI impI)
    show "length (w[n mod 16 := w ! (n mod 16) + f_sigma1 F (w ! ((n + 14) mod 16))
        + w ! ((n + 9) mod 16) + f_sigma0 F (w ! ((n + 1) mod 16))]) = 16"
      using w by (simp add: window_def)
    fix t assume "Suc n \<le> t + 16" "t < max 16 (Suc n)"
    then show "w[n mod 16 := w ! (n mod 16) + f_sigma1 F (w ! ((n + 14) mod 16))
        + w ! ((n + 9) mod 16) + f_sigma0 F (w ! ((n + 1) mod 16))] ! (t mod 16) = fips_schedule F M t"
      using n w new keep [of t] distinct [of t] by (cases "t = n") (auto simp: window_def)
  qed
qed

lemma regular_rounds:
  assumes "length h = 8" "length M = 16"
  shows "\<exists>R w. fold (sha2_call F) (map (regular_call K) [0..<n]) (h, M) = (R, w)
     \<and> length R = 8 \<and> window F M n w
     \<and> map (\<lambda>j. R ! role n j) [0..<8]
         = fold (\<lambda>t S. fips_step F (K ! t) (fips_schedule F M t) S) [0..<n] h"
proof (induction n)
  case 0
  have "map (\<lambda>j. h ! role 0 j) [0..<8] = h"
    using assms(1) by (auto simp: role_def intro!: nth_equalityI)
  then show ?case using assms by (simp add: window_start)
next
  case (Suc n)
  then obtain R w where fold: "fold (sha2_call F) (map (regular_call K) [0..<n]) (h, M) = (R, w)"
    and len: "length R = 8" and win: "window F M n w"
    and st: "map (\<lambda>j. R ! role n j) [0..<8]
       = fold (\<lambda>t S. fips_step F (K ! t) (fips_schedule F M t) S) [0..<n] h" by blast
  let ?R = "sha2_round F (map (role n) [0..<8]) (K ! n) (fips_schedule F M n) R"
  have "\<exists>w'. sha2_call F (regular_call K n) (R, w) = (?R, w') \<and> window F M (Suc n) w'"
  proof (cases "n < 16")
    case True
    then have "w ! n = fips_schedule F M n" using win by (auto simp: window_def)
    then show ?thesis using True win by (simp add: regular_call_def Let_def window_first)
  next
    case False
    let ?w = "w[n mod 16 := w ! (n mod 16) + f_sigma1 F (w ! ((n + 14) mod 16))
      + w ! ((n + 9) mod 16) + f_sigma0 F (w ! ((n + 1) mod 16))]"
    have win': "window F M (Suc n) ?w" using window_later [OF win] False by simp
    then have "?w ! (n mod 16) = fips_schedule F M n" by (rule windowD) auto
    then show ?thesis using False win' by (simp add: regular_call_def Let_def)
  qed
  then obtain w' where "sha2_call F (regular_call K n) (R, w) = (?R, w')" "window F M (Suc n) w'"
    by blast
  moreover have "map (\<lambda>j. ?R ! role (Suc n) j) [0..<8]
      = fold (\<lambda>t S. fips_step F (K ! t) (fips_schedule F M t) S) [0..<Suc n] h"
    using round_is_step [OF len] st by simp
  ultimately have "fold (sha2_call F) (map (regular_call K) [0..<Suc n]) (h, M) = (?R, w')
      \<and> length ?R = 8 \<and> window F M (Suc n) w' \<and> map (\<lambda>j. ?R ! role (Suc n) j) [0..<8]
      = fold (\<lambda>t S. fips_step F (K ! t) (fips_schedule F M t) S) [0..<Suc n] h"
    using fold len by simp
  then show ?case by blast
qed

lemma regular_compress:
  assumes "length h = 8" "length M = 16" "8 dvd length K"
  shows "sha2_compress F (regular_calls K) h M = fips_compress F K h M"
proof -
  obtain R w where R: "fold (sha2_call F) (regular_calls K) (h, M) = (R, w)" "length R = 8"
    "map (\<lambda>j. R ! role (length K) j) [0..<8]
       = fold (\<lambda>t S. fips_step F (K ! t) (fips_schedule F M t) S) [0..<length K] h"
    using regular_rounds [OF assms(1,2), of F K "length K"] by (auto simp: regular_calls_def)
  have "map (\<lambda>j. R ! role (length K) j) [0..<8] = R"
    using R(2) assms(3) by (auto simp: role_def intro!: nth_equalityI)
  with R show ?thesis by (simp add: sha2_compress_def fips_compress_def)
qed

section \<open>Where the constants come from\<close>

fun round_const :: "'w round_call \<Rightarrow> 'w" where
  "round_const (Round v k i) = k"
| "round_const (LaterRound v k i i1 i2 i3) = k"

text \<open>
  The standard takes its constants from the fractional parts of roots of primes. The greatest \<open>r\<close> with
  \<open>r ^ e \<le> p * 2 ^ (e * w)\<close> is the \<open>e\<close>-th root of \<open>p\<close> with \<open>w\<close> binary places, and as a word of \<open>w\<close> bits it
  loses the integral part.
\<close>

definition root_frac :: "nat \<Rightarrow> int \<Rightarrow> 'a::len word" where
  "root_frac e p = of_int (GREATEST r. 0 \<le> r \<and> r ^ e \<le> p * 2 ^ (e * LENGTH('a)))"

definition first_primes :: "int list" where
  "first_primes =
    [2, 3, 5, 7, 11, 13, 17, 19, 23, 29, 31, 37, 41, 43, 47, 53, 59, 61, 67, 71, 73, 79, 83, 89, 97, 101,
     103, 107, 109, 113, 127, 131, 137, 139, 149, 151, 157, 163, 167, 173, 179, 181, 191, 193, 197, 199,
     211, 223, 227, 229, 233, 239, 241, 251, 257, 263, 269, 271, 277, 281, 283, 293, 307, 311, 313, 317,
     331, 337, 347, 349, 353, 359, 367, 373, 379, 383, 389, 397, 401, 409]"

text \<open>These are all the numbers up to 409 that no smaller prime divides (a proper divisor below 21 suffices).\<close>

lemma first_primes_sieve:
  "first_primes = filter (\<lambda>n. \<forall>d \<in> set [2, 3, 5, 7, 11, 13, 17, 19]. n \<le> d \<or> n mod d \<noteq> 0) [2..409]"
  by code_simp

text \<open>
  The same for computation: \<open>root_digits e b p k\<close> tells that \<open>k\<close> is the first \<open>b\<close> bits of the fractional part
  of the \<open>e\<close>-th root of \<open>p\<close>, with an integral part of at most twenty.
\<close>

definition root_digits :: "nat \<Rightarrow> nat \<Rightarrow> int \<Rightarrow> int \<Rightarrow> bool" where
  "root_digits e b p k \<longleftrightarrow> 0 \<le> k \<and> k < 2 ^ b
     \<and> (\<exists>c \<in> set [1..20]. c ^ e \<le> p \<and> p < (c + 1) ^ e
          \<and> (c * 2 ^ b + k) ^ e \<le> p * 2 ^ (e * b) \<and> p * 2 ^ (e * b) < (c * 2 ^ b + k + 1) ^ e)"

lemma greatest_root:
  fixes r N :: int
  assumes "0 \<le> r" "r ^ e \<le> N" "N < (r + 1) ^ e"
  shows "(GREATEST r. 0 \<le> r \<and> r ^ e \<le> N) = r"
proof (rule Greatest_equality)
  show "0 \<le> r \<and> r ^ e \<le> N" using assms by simp
  fix y assume y: "0 \<le> y \<and> y ^ e \<le> N"
  show "y \<le> r"
  proof (rule ccontr)
    assume "\<not> y \<le> r"
    then have "(r + 1) ^ e \<le> y ^ e" using assms(1) by (intro power_mono) simp_all
    with y assms(3) show False by simp
  qed
qed

lemma root_frac_digits:
  fixes k :: "'a::len word"
  assumes "root_digits e LENGTH('a) p (uint k)"
  shows "root_frac e p = k"
proof -
  from assms obtain c where c: "c \<in> set [1..20]" "(c * 2 ^ LENGTH('a) + uint k) ^ e \<le> p * 2 ^ (e * LENGTH('a))"
    "p * 2 ^ (e * LENGTH('a)) < (c * 2 ^ LENGTH('a) + uint k + 1) ^ e"
    unfolding root_digits_def by blast
  then have "(GREATEST r. 0 \<le> r \<and> r ^ e \<le> p * 2 ^ (e * LENGTH('a))) = c * 2 ^ LENGTH('a) + uint k"
    by (intro greatest_root) simp_all
  then show ?thesis by (simp add: root_frac_def)
qed

lemma root_fracs:
  fixes ks :: "'a::len word list"
  assumes "list_all2 (\<lambda>p k. root_digits e LENGTH('a) p (uint k)) ps ks"
  shows "map (root_frac e) ps = ks"
  using assms by (induction rule: list_all2_induct) (simp_all add: root_frac_digits)

section \<open>Big endian words of a block\<close>

text \<open>\<open>chunks_exact(k)\<close> on the buffer, each chunk read by \<open>from_be_bytes\<close>.\<close>

fun chunks_exact :: "nat \<Rightarrow> bytes \<Rightarrow> bytes list" where
  "chunks_exact k bs = (if k = 0 \<or> length bs < k then [] else take k bs # chunks_exact k (drop k bs))"

declare chunks_exact.simps [simp del]

definition be_words :: "bytes \<Rightarrow> 'a::len word list" where
  "be_words bs = map from_be_bytes (chunks_exact (LENGTH('a) div 8) bs)"

text \<open>The standard numbers the sixteen words of a block by their places.\<close>

definition fips_words :: "bytes \<Rightarrow> 'a::len word list" where
  "fips_words b = map (\<lambda>i. from_be_bytes (take (LENGTH('a) div 8) (drop (LENGTH('a) div 8 * i) b))) [0..<16]"

lemma chunks_exact_places:
  "\<lbrakk>0 < k; length bs = n * k\<rbrakk> \<Longrightarrow> chunks_exact k bs = map (\<lambda>i. take k (drop (k * i) bs)) [0..<n]"
proof (induction n arbitrary: bs)
  case 0
  then show ?case by (simp add: chunks_exact.simps)
next
  case (Suc n)
  then have "chunks_exact k (drop k bs) = map (\<lambda>i. take k (drop (k * i) (drop k bs))) [0..<n]" by simp
  also have "\<dots> = map (\<lambda>i. take k (drop (k * i) bs)) [1..<Suc n]"
    by (simp add: map_Suc_upt [symmetric] comp_def add.commute del: upt_Suc)
  finally have "chunks_exact k bs = take k bs # map (\<lambda>i. take k (drop (k * i) bs)) [1..<Suc n]"
    using Suc.prems by (subst chunks_exact.simps) simp
  also have "\<dots> = map (\<lambda>i. take k (drop (k * i) bs)) [0..<Suc n]" by (simp add: upt_conv_Cons del: upt_Suc)
  finally show ?case .
qed

lemma be_words_places:
  assumes "8 \<le> LENGTH('a)" "length b = 16 * (LENGTH('a) div 8)"
  shows "be_words b = (fips_words b :: 'a::len word list)"
proof -
  have "chunks_exact (LENGTH('a) div 8) b
      = map (\<lambda>i. take (LENGTH('a) div 8) (drop (LENGTH('a) div 8 * i) b)) [0..<16]"
    using assms by (intro chunks_exact_places) simp_all
  then show ?thesis by (simp add: be_words_def fips_words_def comp_def)
qed

lemma length_chunks_exact: "0 < k \<Longrightarrow> length (chunks_exact k bs) = length bs div k"
proof (induction k bs rule: chunks_exact.induct)
  case (1 k bs)
  then show ?case by (subst chunks_exact.simps) (auto simp: le_div_geq)
qed

lemma chunks_exact_concat:
  assumes "0 < k" "\<And>c. c \<in> set cs \<Longrightarrow> length c = k"
  shows "chunks_exact k (concat cs) = cs"
  using assms(2)
proof (induction cs)
  case Nil
  then show ?case using assms(1) by (simp add: chunks_exact.simps)
next
  case (Cons c cs)
  then have "length c = k" "chunks_exact k (concat cs) = cs" by simp_all
  then show ?case using assms(1) by (subst chunks_exact.simps) simp
qed

lemma be_words_to_bytes:
  assumes "8 dvd LENGTH('a)"
  shows "be_words (concat (map to_be_bytes ws)) = (ws :: 'a::len word list)"
proof -
  have "8 \<le> LENGTH('a)" using assms by (simp add: dvd_imp_le)
  then have "chunks_exact (LENGTH('a) div 8) (concat (map to_be_bytes ws)) = map to_be_bytes ws"
    by (intro chunks_exact_concat) (auto simp: length_to_be_bytes)
  then show ?thesis
    using assms by (simp add: be_words_def from_be_bytes_def to_be_bytes_def from_to_le_bytes map_idI)
qed

end
