(* ===== verification/Sha256.thy ===== *)
theory Sha256
  imports Sha2_Rounds
begin

text \<open>
  SHA-256 (\<open>src/hashes/src/sha256.rs\<close>) and the hashes built on it: SHA256d (\<open>sha256d.rs\<close>) and tagged
  hashes (\<open>sha256t.rs\<close>). The software path of \<open>process_block\<close> is modelled with every call of \<open>round!\<close> as
  the file lists it; the path with x86 SHA instructions is not. The \<open>const\<close> implementation
  \<open>Midstate::const_hash\<close> is modelled separately, since the code has it separately, and shown to agree.
  Digests and midstates are byte strings; the byte count is \<open>usize\<close>, the bit count \<open>u64\<close> with
  wrap-around.
\<close>

section \<open>The functions of the rounds\<close>

definition Ch :: "u32 \<Rightarrow> u32 \<Rightarrow> u32 \<Rightarrow> u32" where
  "Ch x y z = z XOR (x AND (y XOR z))"

definition Maj :: "u32 \<Rightarrow> u32 \<Rightarrow> u32 \<Rightarrow> u32" where
  "Maj x y z = (x AND y) OR (z AND (x OR y))"

definition Sigma0 :: "u32 \<Rightarrow> u32" where
  "Sigma0 x = word_rotl 30 x XOR word_rotl 19 x XOR word_rotl 10 x"

definition Sigma1 :: "u32 \<Rightarrow> u32" where
  "Sigma1 x = word_rotl 26 x XOR word_rotl 21 x XOR word_rotl 7 x"

definition sigma0 :: "u32 \<Rightarrow> u32" where
  "sigma0 x = word_rotl 25 x XOR word_rotl 14 x XOR drop_bit 3 x"

definition sigma1 :: "u32 \<Rightarrow> u32" where
  "sigma1 x = word_rotl 15 x XOR word_rotl 13 x XOR drop_bit 10 x"

definition sha256_funs :: "u32 sha2_funs" where
  "sha256_funs = \<lparr> f_Ch = Ch, f_Maj = Maj, f_Sigma0 = Sigma0, f_Sigma1 = Sigma1,
                   f_sigma0 = sigma0, f_sigma1 = sigma1 \<rparr>"

text \<open>The calls of \<open>round!\<close>, registers \<open>a, ..., h\<close> numbered from 0.\<close>

definition sha256_calls :: "u32 round_call list" where
  "sha256_calls =
    [Round [0, 1, 2, 3, 4, 5, 6, 7] 0x428a2f98 0,
     Round [7, 0, 1, 2, 3, 4, 5, 6] 0x71374491 1,
     Round [6, 7, 0, 1, 2, 3, 4, 5] 0xb5c0fbcf 2,
     Round [5, 6, 7, 0, 1, 2, 3, 4] 0xe9b5dba5 3,
     Round [4, 5, 6, 7, 0, 1, 2, 3] 0x3956c25b 4,
     Round [3, 4, 5, 6, 7, 0, 1, 2] 0x59f111f1 5,
     Round [2, 3, 4, 5, 6, 7, 0, 1] 0x923f82a4 6,
     Round [1, 2, 3, 4, 5, 6, 7, 0] 0xab1c5ed5 7,
     Round [0, 1, 2, 3, 4, 5, 6, 7] 0xd807aa98 8,
     Round [7, 0, 1, 2, 3, 4, 5, 6] 0x12835b01 9,
     Round [6, 7, 0, 1, 2, 3, 4, 5] 0x243185be 10,
     Round [5, 6, 7, 0, 1, 2, 3, 4] 0x550c7dc3 11,
     Round [4, 5, 6, 7, 0, 1, 2, 3] 0x72be5d74 12,
     Round [3, 4, 5, 6, 7, 0, 1, 2] 0x80deb1fe 13,
     Round [2, 3, 4, 5, 6, 7, 0, 1] 0x9bdc06a7 14,
     Round [1, 2, 3, 4, 5, 6, 7, 0] 0xc19bf174 15,
     LaterRound [0, 1, 2, 3, 4, 5, 6, 7] 0xe49b69c1 0 14 9 1,
     LaterRound [7, 0, 1, 2, 3, 4, 5, 6] 0xefbe4786 1 15 10 2,
     LaterRound [6, 7, 0, 1, 2, 3, 4, 5] 0x0fc19dc6 2 0 11 3,
     LaterRound [5, 6, 7, 0, 1, 2, 3, 4] 0x240ca1cc 3 1 12 4,
     LaterRound [4, 5, 6, 7, 0, 1, 2, 3] 0x2de92c6f 4 2 13 5,
     LaterRound [3, 4, 5, 6, 7, 0, 1, 2] 0x4a7484aa 5 3 14 6,
     LaterRound [2, 3, 4, 5, 6, 7, 0, 1] 0x5cb0a9dc 6 4 15 7,
     LaterRound [1, 2, 3, 4, 5, 6, 7, 0] 0x76f988da 7 5 0 8,
     LaterRound [0, 1, 2, 3, 4, 5, 6, 7] 0x983e5152 8 6 1 9,
     LaterRound [7, 0, 1, 2, 3, 4, 5, 6] 0xa831c66d 9 7 2 10,
     LaterRound [6, 7, 0, 1, 2, 3, 4, 5] 0xb00327c8 10 8 3 11,
     LaterRound [5, 6, 7, 0, 1, 2, 3, 4] 0xbf597fc7 11 9 4 12,
     LaterRound [4, 5, 6, 7, 0, 1, 2, 3] 0xc6e00bf3 12 10 5 13,
     LaterRound [3, 4, 5, 6, 7, 0, 1, 2] 0xd5a79147 13 11 6 14,
     LaterRound [2, 3, 4, 5, 6, 7, 0, 1] 0x06ca6351 14 12 7 15,
     LaterRound [1, 2, 3, 4, 5, 6, 7, 0] 0x14292967 15 13 8 0,
     LaterRound [0, 1, 2, 3, 4, 5, 6, 7] 0x27b70a85 0 14 9 1,
     LaterRound [7, 0, 1, 2, 3, 4, 5, 6] 0x2e1b2138 1 15 10 2,
     LaterRound [6, 7, 0, 1, 2, 3, 4, 5] 0x4d2c6dfc 2 0 11 3,
     LaterRound [5, 6, 7, 0, 1, 2, 3, 4] 0x53380d13 3 1 12 4,
     LaterRound [4, 5, 6, 7, 0, 1, 2, 3] 0x650a7354 4 2 13 5,
     LaterRound [3, 4, 5, 6, 7, 0, 1, 2] 0x766a0abb 5 3 14 6,
     LaterRound [2, 3, 4, 5, 6, 7, 0, 1] 0x81c2c92e 6 4 15 7,
     LaterRound [1, 2, 3, 4, 5, 6, 7, 0] 0x92722c85 7 5 0 8,
     LaterRound [0, 1, 2, 3, 4, 5, 6, 7] 0xa2bfe8a1 8 6 1 9,
     LaterRound [7, 0, 1, 2, 3, 4, 5, 6] 0xa81a664b 9 7 2 10,
     LaterRound [6, 7, 0, 1, 2, 3, 4, 5] 0xc24b8b70 10 8 3 11,
     LaterRound [5, 6, 7, 0, 1, 2, 3, 4] 0xc76c51a3 11 9 4 12,
     LaterRound [4, 5, 6, 7, 0, 1, 2, 3] 0xd192e819 12 10 5 13,
     LaterRound [3, 4, 5, 6, 7, 0, 1, 2] 0xd6990624 13 11 6 14,
     LaterRound [2, 3, 4, 5, 6, 7, 0, 1] 0xf40e3585 14 12 7 15,
     LaterRound [1, 2, 3, 4, 5, 6, 7, 0] 0x106aa070 15 13 8 0,
     LaterRound [0, 1, 2, 3, 4, 5, 6, 7] 0x19a4c116 0 14 9 1,
     LaterRound [7, 0, 1, 2, 3, 4, 5, 6] 0x1e376c08 1 15 10 2,
     LaterRound [6, 7, 0, 1, 2, 3, 4, 5] 0x2748774c 2 0 11 3,
     LaterRound [5, 6, 7, 0, 1, 2, 3, 4] 0x34b0bcb5 3 1 12 4,
     LaterRound [4, 5, 6, 7, 0, 1, 2, 3] 0x391c0cb3 4 2 13 5,
     LaterRound [3, 4, 5, 6, 7, 0, 1, 2] 0x4ed8aa4a 5 3 14 6,
     LaterRound [2, 3, 4, 5, 6, 7, 0, 1] 0x5b9cca4f 6 4 15 7,
     LaterRound [1, 2, 3, 4, 5, 6, 7, 0] 0x682e6ff3 7 5 0 8,
     LaterRound [0, 1, 2, 3, 4, 5, 6, 7] 0x748f82ee 8 6 1 9,
     LaterRound [7, 0, 1, 2, 3, 4, 5, 6] 0x78a5636f 9 7 2 10,
     LaterRound [6, 7, 0, 1, 2, 3, 4, 5] 0x84c87814 10 8 3 11,
     LaterRound [5, 6, 7, 0, 1, 2, 3, 4] 0x8cc70208 11 9 4 12,
     LaterRound [4, 5, 6, 7, 0, 1, 2, 3] 0x90befffa 12 10 5 13,
     LaterRound [3, 4, 5, 6, 7, 0, 1, 2] 0xa4506ceb 13 11 6 14,
     LaterRound [2, 3, 4, 5, 6, 7, 0, 1] 0xbef9a3f7 14 12 7 15,
     LaterRound [1, 2, 3, 4, 5, 6, 7, 0] 0xc67178f2 15 13 8 0]"

section \<open>The engine\<close>

definition software_process_block :: "u32 list \<Rightarrow> bytes \<Rightarrow> u32 list" where
  "software_process_block h buf = sha2_compress sha256_funs sha256_calls h (be_words buf)"

definition sha256_iv :: "u32 list" where
  "sha256_iv = [0x6a09e667, 0xbb67ae85, 0x3c6ef372, 0xa54ff53a, 0x510e527f, 0x9b05688c, 0x1f83d9ab,
                0x5be0cd19]"

type_synonym sha256_engine = "u32 list engine"

definition sha256_engine_default :: sha256_engine where
  "sha256_engine_default = new_engine 64 sha256_iv"

definition sha256_input :: "sha256_engine \<Rightarrow> bytes \<Rightarrow> sha256_engine" where
  "sha256_input = engine_input 64 software_process_block"

definition sha256_midstate :: "sha256_engine \<Rightarrow> bytes" where
  "sha256_midstate e = concat (map to_be_bytes (hstate e))"

definition sha256_len_field :: "nat \<Rightarrow> bytes list" where
  "sha256_len_field data_len = [to_be_bytes (8 * of_nat data_len :: u64)]"

definition sha256_from_engine :: "sha256_engine \<Rightarrow> bytes" where
  "sha256_from_engine e =
     sha256_midstate (engine_finish 64 8 sha256_len_field software_process_block e)"

definition sha256_hash :: "bytes \<Rightarrow> bytes" where
  "sha256_hash = hash_trait_hash sha256_input sha256_from_engine sha256_engine_default"

definition sha256_hash_byte_chunks :: "bytes list \<Rightarrow> bytes" where
  "sha256_hash_byte_chunks = hash_byte_chunks sha256_input sha256_from_engine sha256_engine_default"

text \<open>\<open>HashEngine::from_midstate\<close>; \<^term>\<open>None\<close> is the failed assertion.\<close>

definition sha256_from_midstate :: "bytes \<Rightarrow> nat \<Rightarrow> sha256_engine option" where
  "sha256_from_midstate midstate len =
     (if len mod 64 = 0
      then Some \<lparr> buffer = replicate 64 0, hstate = be_words midstate, nbytes = len \<rparr> else None)"

text \<open>\<open>sha256d::from_engine\<close> and \<open>Hash::hash_again\<close>.\<close>

definition sha256d_from_engine :: "sha256_engine \<Rightarrow> bytes" where
  "sha256d_from_engine e = sha256_hash (sha256_from_engine e)"

definition sha256d_hash :: "bytes \<Rightarrow> bytes" where
  "sha256d_hash = hash_trait_hash sha256_input sha256d_from_engine sha256_engine_default"

definition hash_again :: "bytes \<Rightarrow> bytes" where
  "hash_again h = sha256_hash h"

section \<open>The implementation for constant contexts\<close>

definition read_u32 :: "bytes \<Rightarrow> nat \<Rightarrow> u32" where
  "read_u32 bs index = push_bit 24 (ucast (bs ! (index + 0))) OR push_bit 16 (ucast (bs ! (index + 1)))
     OR push_bit 8 (ucast (bs ! (index + 2))) OR push_bit 0 (ucast (bs ! (index + 3)))"

definition copy_w :: "bytes \<Rightarrow> nat \<Rightarrow> u32 list" where
  "copy_w bs index = map (\<lambda>i. read_u32 bs (index + i * 4)) [0..<16]"

text \<open>The words of one chunk: of the message itself, or of the padded last one or two blocks.\<close>

definition const_chunk :: "bytes \<Rightarrow> nat \<Rightarrow> nat \<Rightarrow> u32 list" where
  "const_chunk bs num_chunks chunk =
     (if chunk * 64 + 64 \<le> length bs then copy_w bs (chunk * 64)
      else let offset = chunk * 64;
               i = length bs - offset;
               buf = overwrite (replicate 64 0) 0 (drop offset bs);
               buf = (if length bs mod 64 \<le> 64 - 9 \<or> chunk + 2 = num_chunks then buf[i := 0x80] else buf);
               bit_len = of_nat (length bs) * 8 :: u64;
               buf = (if chunk + 1 = num_chunks
                      then buf[64 - 8 := ucast (drop_bit 56 bit_len AND 0xFF),
                               64 - 7 := ucast (drop_bit 48 bit_len AND 0xFF),
                               64 - 6 := ucast (drop_bit 40 bit_len AND 0xFF),
                               64 - 5 := ucast (drop_bit 32 bit_len AND 0xFF),
                               64 - 4 := ucast (drop_bit 24 bit_len AND 0xFF),
                               64 - 3 := ucast (drop_bit 16 bit_len AND 0xFF),
                               64 - 2 := ucast (drop_bit 8 bit_len AND 0xFF),
                               64 - 1 := ucast (drop_bit 0 bit_len AND 0xFF)] else buf)
           in copy_w buf 0)"

function const_hash_loop :: "bytes \<Rightarrow> bool \<Rightarrow> nat \<Rightarrow> nat \<Rightarrow> u32 list \<Rightarrow> u32 list" where
  "const_hash_loop bs finalize num_chunks chunk state =
     (if chunk < num_chunks \<and> \<not> (\<not> finalize \<and> chunk + 1 = num_chunks)
      then const_hash_loop bs finalize num_chunks (chunk + 1)
             (sha2_compress sha256_funs sha256_calls state (const_chunk bs num_chunks chunk))
      else state)"
  by pat_completeness auto
termination
  by (relation "measure (\<lambda>(bs, f, n, c, s). n - c)") auto

declare const_hash_loop.simps [simp del]

definition const_hash_output :: "u32 list \<Rightarrow> bytes" where
  "const_hash_output state = concat (map (\<lambda>s. [ucast (drop_bit 24 s), ucast (drop_bit 16 s),
      ucast (drop_bit 8 s), ucast (drop_bit 0 s)]) state)"

definition midstate_const_hash :: "bytes \<Rightarrow> bool \<Rightarrow> bytes" where
  "midstate_const_hash bs finalize =
     const_hash_output (const_hash_loop bs finalize ((length bs + 9 + 63) div 64) 0 sha256_iv)"

definition sha256_const_hash :: "bytes \<Rightarrow> bytes" where
  "sha256_const_hash bs = midstate_const_hash bs True"

definition hash_tag :: "bytes \<Rightarrow> bytes" where
  "hash_tag tag = (let hash = sha256_const_hash tag
                   in midstate_const_hash (map (\<lambda>i. hash ! (i mod length hash)) [0..<64]) False)"

text \<open>The engine of a tagged hash: 64 bytes already hashed.\<close>

definition tag_engine :: "bytes \<Rightarrow> sha256_engine option" where
  "tag_engine tag = sha256_from_midstate (hash_tag tag) 64"

definition sha256t_from_engine :: "sha256_engine \<Rightarrow> bytes" where
  "sha256t_from_engine e = sha256_from_engine e"

section \<open>The reference\<close>

text \<open>
  SHA-256 written down from FIPS 180-4 alone: constants from roots of primes, the functions of section 4.1.2,
  words of a block by their places, and the length of the message in bits modulo \<open>2 ^ 64\<close> as the last
  eight bytes.
\<close>

definition fips256_K :: "u32 list" where
  "fips256_K = map (root_frac 3) (take 64 first_primes)"

definition fips256_iv :: "u32 list" where
  "fips256_iv = map (root_frac 2) (take 8 first_primes)"

definition fips_len_field_64 :: "nat \<Rightarrow> bytes list" where
  "fips_len_field_64 n = [to_be_bytes (of_nat (8 * n) :: u64)]"

definition fips256_funs :: "u32 sha2_funs" where
  "fips256_funs = \<lparr>
     f_Ch = (\<lambda>x y z. (x AND y) XOR (NOT x AND z)),
     f_Maj = (\<lambda>x y z. (x AND y) XOR (x AND z) XOR (y AND z)),
     f_Sigma0 = (\<lambda>x. word_rotr 2 x XOR word_rotr 13 x XOR word_rotr 22 x),
     f_Sigma1 = (\<lambda>x. word_rotr 6 x XOR word_rotr 11 x XOR word_rotr 25 x),
     f_sigma0 = (\<lambda>x. word_rotr 7 x XOR word_rotr 18 x XOR drop_bit 3 x),
     f_sigma1 = (\<lambda>x. word_rotr 17 x XOR word_rotr 19 x XOR drop_bit 10 x) \<rparr>"

text \<open>Pad, cut into blocks, iterate the compression, print big endian.\<close>

definition fips_sha256_block :: "u32 list \<Rightarrow> bytes \<Rightarrow> u32 list" where
  "fips_sha256_block h b = fips_compress fips256_funs fips256_K h (fips_words b)"

definition fips_sha256 :: "bytes \<Rightarrow> bytes" where
  "fips_sha256 m = concat (map to_be_bytes
     (absorb 64 fips_sha256_block fips256_iv (md_pad 64 8 fips_len_field_64 (length m) m)))"

section \<open>The code computes the reference\<close>

lemma fips256_funs_eq: "sha256_funs = fips256_funs"
proof -
  have "Ch x y z = (x AND y) XOR (NOT x AND z)" for x y z
    by (rule bit_word_eqI) (auto simp: Ch_def bit_simps)
  moreover have "Maj x y z = (x AND y) XOR (x AND z) XOR (y AND z)" for x y z
    by (rule bit_word_eqI) (auto simp: Maj_def bit_simps)
  ultimately show ?thesis
    by (simp add: sha256_funs_def fips256_funs_def fun_eq_iff Sigma0_def Sigma1_def sigma0_def
        sigma1_def word_rotl_eq_word_rotr)
qed

text \<open>The constants of the calls and of the default engine are those of the standard.\<close>

lemma sha256_K_fips: "map round_const sha256_calls = fips256_K"
proof -
  have "list_all2 (\<lambda>p k. root_digits 3 32 p (uint k)) (take 64 first_primes) (map round_const sha256_calls)"
    by code_simp
  then show ?thesis unfolding fips256_K_def by (intro root_fracs [symmetric]) simp
qed

lemma sha256_iv_fips: "sha256_iv = fips256_iv"
proof -
  have "list_all2 (\<lambda>p k. root_digits 2 32 p (uint k)) (take 8 first_primes) sha256_iv"
    by code_simp
  then show ?thesis unfolding fips256_iv_def by (intro root_fracs [symmetric]) simp
qed

lemma sha256_calls_regular: "sha256_calls = regular_calls fips256_K"
proof -
  have "sha256_calls = regular_calls (map round_const sha256_calls)" by code_simp
  then show ?thesis by (simp only: sha256_K_fips)
qed

lemma length_be_words_64: "length b = 64 \<Longrightarrow> length (be_words b :: u32 list) = 16"
  by (simp add: be_words_def length_chunks_exact)

lemma length_fips256_K: "length fips256_K = 64"
  by (simp add: fips256_K_def first_primes_def)

lemma software_process_block_fips:
  assumes "length h = 8" "length b = 64"
  shows "software_process_block h b = fips_sha256_block h b"
proof -
  have "8 dvd length fips256_K" by (simp add: length_fips256_K)
  moreover have "be_words b = (fips_words b :: u32 list)" using assms by (intro be_words_places) simp_all
  moreover have "length (fips_words b :: u32 list) = 16" by (simp add: fips_words_def)
  ultimately show ?thesis
    using assms
    by (simp add: software_process_block_def fips_sha256_block_def sha256_calls_regular regular_compress
        fips256_funs_eq)
qed

lemma fips_sha256_block_agrees:
  "\<lbrakk>length h = 8; length b = 64\<rbrakk> \<Longrightarrow> software_process_block h b = fips_sha256_block h b \<and> length (fips_sha256_block h b) = 8"
  using software_process_block_fips by (simp add: fips_sha256_block_def length_fips_compress)

lemma absorb_fips: "length h = 8 \<Longrightarrow> absorb 64 software_process_block h m = absorb 64 fips_sha256_block h m"
  and length_absorb_fips: "length h = 8 \<Longrightarrow> length (absorb 64 fips_sha256_block h m) = 8"
  using absorb_agree [of 8 64, OF fips_sha256_block_agrees] by simp_all

interpretation sha256_blocks: block_hash 64 8 sha256_len_field software_process_block
  by unfold_locales (simp_all add: sha256_len_field_def length_to_be_bytes)

lemma length_sha256_iv: "length sha256_iv = 8"
  by (simp add: sha256_iv_def)

lemma sha256_len_field_fips: "sha256_len_field = fips_len_field_64"
  by (simp add: fun_eq_iff sha256_len_field_def fips_len_field_64_def)

text \<open>The reference in terms of the code's block function, for the proofs about other entry points.\<close>

lemma fips_sha256_code:
  "fips_sha256 m = concat (map to_be_bytes
     (absorb 64 software_process_block sha256_iv (md_pad 64 8 sha256_len_field (length m) m)))"
  using absorb_fips [OF length_sha256_iv]
  by (simp add: fips_sha256_def sha256_iv_fips sha256_len_field_fips)

lemma sha256_chunks_fips: "sha256_hash_byte_chunks cs = fips_sha256 (concat cs)"
  using sha256_blocks.hash_chunks_absorbs [of cs sha256_iv]
  by (simp add: sha256_hash_byte_chunks_def hash_byte_chunks_def sha256_input_def sha256_from_engine_def
      sha256_midstate_def sha256_engine_default_def fips_sha256_code)

lemma sha256_hash_fips: "sha256_hash m = fips_sha256 m"
  using sha256_chunks_fips [of "[m]"]
  by (simp add: sha256_hash_def hash_trait_hash_def sha256_hash_byte_chunks_def hash_byte_chunks_def)

section \<open>The constant implementation agrees\<close>

lemma chunks_exact_4:
  assumes "length b = 4 * n"
  shows "chunks_exact 4 b = map (\<lambda>i. [b ! (i * 4), b ! (i * 4 + 1), b ! (i * 4 + 2), b ! (i * 4 + 3)]) [0..<n]"
  using assms
proof (induction n arbitrary: b)
  case 0
  then show ?case by (simp add: chunks_exact.simps)
next
  case (Suc n)
  then obtain c d e f r where b: "b = c # d # e # f # r" "length r = 4 * n"
    by (auto simp: length_Suc_conv eval_nat_numeral)
  have "map (\<lambda>i. [b ! (i * 4), b ! (i * 4 + 1), b ! (i * 4 + 2), b ! (i * 4 + 3)]) [0..<Suc n]
      = [c, d, e, f] # map (\<lambda>i. [r ! (i * 4), r ! (i * 4 + 1), r ! (i * 4 + 2), r ! (i * 4 + 3)]) [0..<n]"
    by (simp only: upt_conv_Cons map_Suc_upt [symmetric] zero_less_Suc list.map map_map o_def)
      (simp add: b add.commute)
  then show ?case
    using Suc.IH [OF b(2)] by (subst chunks_exact.simps) (simp add: b(1))
qed

lemma copy_w_block:
  assumes "index + 64 \<le> length bs"
  shows "copy_w bs index = be_words (take 64 (drop index bs))"
proof -
  have "read_u32 bs (index + i * 4) = from_be_bytes [take 64 (drop index bs) ! (i * 4),
      take 64 (drop index bs) ! (i * 4 + 1), take 64 (drop index bs) ! (i * 4 + 2),
      take 64 (drop index bs) ! (i * 4 + 3)]" if "i < 16" for i
    using that assms by (simp add: read_u32_def from_be_bytes_u32 add.assoc)
  then show ?thesis
    using assms chunks_exact_4 [of "take 64 (drop index bs)" 16]
    by (simp add: copy_w_def be_words_def)
qed

lemma be64_bytes:
  "to_be_bytes (w :: u64) = [ucast (drop_bit 56 w AND 0xFF), ucast (drop_bit 48 w AND 0xFF),
     ucast (drop_bit 40 w AND 0xFF), ucast (drop_bit 32 w AND 0xFF), ucast (drop_bit 24 w AND 0xFF),
     ucast (drop_bit 16 w AND 0xFF), ucast (drop_bit 8 w AND 0xFF), ucast (drop_bit 0 w AND 0xFF)]"
  by (simp only: u8_mask to_be_bytes_u64 drop_bit_0 id_apply)

lemma write_len_field:
  assumes "length x = 56"
  shows "(x @ replicate 8 0)[64 - 8 := a, 64 - 7 := b, 64 - 6 := c, 64 - 5 := d, 64 - 4 := e,
           64 - 3 := f, 64 - 2 := g, 64 - 1 := h] = x @ [a, b, c, d, e, f, g, h]"
  using assms by (simp add: list_update_append eval_nat_numeral(2,3))

lemma num_chunks_eq:
  "((n::nat) + 9 + 63) div 64 = (if n mod 64 \<le> 55 then n div 64 + 1 else n div 64 + 2)"
proof -
  have "n mod 64 < 64" by simp
  then have "(n mod 64 + 72) div 64 = (if n mod 64 \<le> 55 then 1 else 2)"
    by (auto intro!: div_nat_eqI)
  moreover have "n + 9 + 63 = (n mod 64 + 72) + 64 * (n div 64)" by simp
  then have "(n + 9 + 63) div 64 = n div 64 + (n mod 64 + 72) div 64" by (simp only: div_mult_self2)
  ultimately show ?thesis by simp
qed

lemma md_pad_256:
  "md_pad 64 8 sha256_len_field n m = m @ [0x80]
     @ replicate (if length m mod 64 \<le> 55 then 55 - length m mod 64 else 119 - length m mod 64) 0
     @ to_be_bytes (of_nat n * 8 :: u64)"
proof -
  have lt: "length m mod 64 < 64" by simp
  have "(119 - length m mod 64) mod 64
      = (if length m mod 64 \<le> 55 then 55 - length m mod 64 else 119 - length m mod 64)"
  proof (cases "length m mod 64 \<le> 55")
    case True
    then have "119 - length m mod 64 = 64 + (55 - length m mod 64)" by simp
    then show ?thesis using True by (simp only: mod_add_self1 if_True) simp
  next
    case False
    then show ?thesis by simp
  qed
  then show ?thesis by (simp add: md_pad_def sha256_len_field_def mult.commute)
qed

text \<open>Each chunk of the loop is the corresponding block of the padded message.\<close>

lemma replicate_split: "k \<le> n \<Longrightarrow> replicate n x = replicate (n - k) x @ replicate k x"
  by (simp flip: replicate_add)

lemma pad_marker:
  assumes "length t < 64"
  shows "(overwrite (replicate 64 0) 0 t)[length t := 0x80] = (t @ [0x80] @ replicate (63 - length t) 0 :: bytes)"
proof -
  have "replicate (64 - length t) (0::u8) = 0 # replicate (63 - length t) 0"
    using assms by (simp flip: replicate_Suc)
  then show ?thesis by (simp add: overwrite_def list_update_append)
qed

lemma drop_tail_of: "drop (64 * (length m div 64)) (m @ x) = tail_of 64 m @ x"
proof -
  have "64 * (length m div 64) \<le> length m" by simp
  then show ?thesis by (simp add: tail_of_def)
qed

lemma const_chunk_full:
  assumes "chunk < length m div 64"
  shows "const_chunk m N chunk
     = be_words (take 64 (drop (64 * chunk) (md_pad 64 8 sha256_len_field (length m) m)))"
proof -
  have "length m = 64 * (length m div 64) + length m mod 64" by simp
  then have "chunk * 64 + 64 \<le> length m" using assms by linarith
  then show ?thesis by (simp add: const_chunk_def copy_w_block md_pad_def mult.commute)
qed

lemma const_chunk_last:
  assumes r: "length m mod 64 \<le> 55"
  shows "const_chunk m (length m div 64 + 1) (length m div 64)
     = be_words (take 64 (drop (64 * (length m div 64)) (md_pad 64 8 sha256_len_field (length m) m)))"
proof -
  let ?q = "length m div 64" and ?t = "tail_of 64 m" and ?len = "to_be_bytes (of_nat (length m) * 8 :: u64)"
  let ?x = "?t @ [0x80] @ replicate (55 - length m mod 64) 0 :: bytes"
  have n: "\<not> ?q * 64 + 64 \<le> length m" "length m - ?q * 64 = length ?t"
    by (simp_all add: length_tail_of minus_mult_div_eq_mod dividend_less_times_div mult.commute not_le add.commute)
  have x: "length ?x = 56" using r by (simp add: length_tail_of)
  have "(overwrite (replicate 64 0) 0 (drop (?q * 64) m))[length ?t := 0x80] = ?x @ replicate 8 0"
    using pad_marker [of ?t] replicate_split [of 8 "63 - length ?t" "0::u8"] r
    by (simp add: length_tail_of tail_of_def [of 64, symmetric] mult.commute [of _ 64])
  then have "const_chunk m (?q + 1) ?q = copy_w (?x @ ?len) 0"
    using n r unfolding const_chunk_def Let_def be64_bytes
    by (simp add: write_len_field [OF x, simplified])
  moreover have "drop (64 * ?q) (md_pad 64 8 sha256_len_field (length m) m) = ?x @ ?len"
    unfolding md_pad_256 drop_tail_of using r by simp
  ultimately show ?thesis using x by (simp add: copy_w_block length_to_be_bytes)
qed

lemma const_chunk_marker:
  assumes r: "55 < length m mod 64"
  shows "const_chunk m (length m div 64 + 2) (length m div 64)
     = be_words (take 64 (drop (64 * (length m div 64)) (md_pad 64 8 sha256_len_field (length m) m)))"
proof -
  let ?q = "length m div 64" and ?t = "tail_of 64 m"
  let ?x = "?t @ [0x80] @ replicate (63 - length m mod 64) 0 :: bytes"
  have r': "length m mod 64 < 64" by simp
  have n: "\<not> ?q * 64 + 64 \<le> length m" "length m - ?q * 64 = length ?t"
    by (simp_all add: length_tail_of minus_mult_div_eq_mod dividend_less_times_div mult.commute not_le add.commute)
  have x: "length ?x = 64" using r r' by (simp add: length_tail_of)
  have "(overwrite (replicate 64 0) 0 (drop (?q * 64) m))[length ?t := 0x80] = ?x"
    using pad_marker [of ?t] r' by (simp add: length_tail_of tail_of_def [of 64, symmetric] mult.commute [of _ 64])
  then have "const_chunk m (?q + 2) ?q = copy_w ?x 0"
    using n r by (simp add: const_chunk_def Let_def)
  moreover have "drop (64 * ?q) (md_pad 64 8 sha256_len_field (length m) m)
      = ?x @ replicate 56 0 @ to_be_bytes (of_nat (length m) * 8 :: u64)"
    unfolding md_pad_256 drop_tail_of
    using r r' replicate_split [of 56 "119 - length m mod 64" "0::u8"] by simp
  then have "take 64 (drop (64 * ?q) (md_pad 64 8 sha256_len_field (length m) m)) = ?x"
    using take_exact [OF x] by (simp only:)
  ultimately show ?thesis using x by (simp add: copy_w_block)
qed

lemma const_chunk_length:
  assumes r: "55 < length m mod 64"
  shows "const_chunk m (length m div 64 + 2) (length m div 64 + 1)
     = be_words (take 64 (drop (64 * (length m div 64 + 1)) (md_pad 64 8 sha256_len_field (length m) m)))"
proof -
  let ?q = "length m div 64" and ?len = "to_be_bytes (of_nat (length m) * 8 :: u64)"
  have r': "length m mod 64 < 64" and n: "length m = 64 * ?q + length m mod 64" by simp_all
  then have nr: "length m - length m mod 64 = 64 * ?q" "length m < 64 * ?q + 64" by linarith+
  let ?y = "m @ [0x80] @ replicate (63 - length m mod 64) 0 :: bytes"
  have "length ?y = length m + 1 + (63 - length m mod 64)" by simp
  also have "\<dots> = (length m - length m mod 64) + 64" using r' by simp
  finally have y: "length ?y = 64 * (?q + 1)" using nr(1) by simp
  have "md_pad 64 8 sha256_len_field (length m) m = ?y @ replicate 56 0 @ ?len"
    using r r' replicate_split [of 56 "119 - length m mod 64" "0::u8"] by (simp add: md_pad_256)
  then have "drop (64 * (?q + 1)) (md_pad 64 8 sha256_len_field (length m) m) = replicate 56 0 @ ?len"
    using drop_exact [OF y] by (simp only:)
  moreover have "const_chunk m (?q + 2) (?q + 1) = copy_w (replicate 56 0 @ ?len) 0"
  proof -
    have "overwrite (replicate 64 0) 0 (drop ((?q + 1) * 64) m) = replicate 56 0 @ replicate 8 (0::u8)"
      using nr(2) by (simp add: overwrite_def flip: replicate_add)
    moreover have "\<not> (?q + 1) * 64 + 64 \<le> length m" using nr(2) by simp
    ultimately show ?thesis
      using r unfolding const_chunk_def Let_def be64_bytes
      by (simp add: write_len_field [of "replicate 56 0", simplified])
  qed
  ultimately show ?thesis by (simp add: copy_w_block length_to_be_bytes)
qed

lemma const_chunk_block:
  assumes "chunk < (length m + 9 + 63) div 64"
  shows "const_chunk m ((length m + 9 + 63) div 64) chunk
     = be_words (take 64 (drop (64 * chunk) (md_pad 64 8 sha256_len_field (length m) m)))"
proof (cases "length m mod 64 \<le> 55")
  case True
  then show ?thesis
    using assms const_chunk_full [of chunk m] const_chunk_last [of m]
    unfolding num_chunks_eq by (auto simp: less_Suc_eq)
next
  case False
  then show ?thesis
    using assms const_chunk_full [of chunk m] const_chunk_marker [of m] const_chunk_length [of m]
    unfolding num_chunks_eq by (auto simp: less_Suc_eq)
qed

lemma length_md_pad_256: "length (md_pad 64 8 sha256_len_field n m) = 64 * ((length m + 9 + 63) div 64)"
proof -
  have "length m mod 64 < 64" "64 * (length m div 64) = length m - length m mod 64"
    by (simp_all add: minus_mod_eq_mult_div)
  moreover have "length (md_pad 64 8 sha256_len_field n m) = length m + 9
      + (if length m mod 64 \<le> 55 then 55 - length m mod 64 else 119 - length m mod 64)"
    by (simp add: md_pad_256 length_to_be_bytes)
  ultimately show ?thesis unfolding num_chunks_eq by (auto simp: distrib_left add.commute)
qed

lemma const_hash_loop_absorbs:
  assumes "chunk \<le> (length m + 9 + 63) div 64"
  shows "const_hash_loop m True ((length m + 9 + 63) div 64) chunk st
     = absorb 64 software_process_block st (drop (64 * chunk) (md_pad 64 8 sha256_len_field (length m) m))"
  using assms
proof (induction "(length m + 9 + 63) div 64 - chunk" arbitrary: chunk st)
  case 0
  then show ?case
    by (subst const_hash_loop.simps) (simp add: absorb_short length_md_pad_256)
next
  case (Suc k)
  let ?N = "(length m + 9 + 63) div 64" and ?p = "md_pad 64 8 sha256_len_field (length m) m"
  have lt: "chunk < ?N" using Suc.hyps(2) by linarith
  then have "64 * chunk + 64 \<le> length ?p" by (simp only: length_md_pad_256)
  then have "absorb 64 software_process_block st (drop (64 * chunk) ?p)
      = absorb 64 software_process_block (software_process_block st (take 64 (drop (64 * chunk) ?p)))
          (drop (64 * (chunk + 1)) ?p)"
    by (subst absorb.simps) (auto simp: add.commute)
  moreover have "k = ?N - (chunk + 1)" using Suc.hyps(2) by linarith
  ultimately show ?case
    using lt Suc.hyps(1) [of "chunk + 1"] const_chunk_block [OF lt]
    by (subst const_hash_loop.simps) (simp add: software_process_block_def)
qed

lemma const_hash_output_be: "const_hash_output st = concat (map to_be_bytes st)"
proof -
  have "to_be_bytes = (\<lambda>s :: u32. [ucast (drop_bit 24 s), ucast (drop_bit 16 s), ucast (drop_bit 8 s), ucast s])"
    by (rule ext) (simp add: to_be_bytes_u32)
  then show ?thesis by (simp add: const_hash_output_def)
qed

lemma sha256_const_hash_fips: "sha256_const_hash m = fips_sha256 m"
  using const_hash_loop_absorbs [of 0 m sha256_iv]
  by (simp add: sha256_const_hash_def midstate_const_hash_def const_hash_output_be fips_sha256_code)

text \<open>Without the last block, the loop absorbs a message of whole blocks.\<close>

lemma const_hash_64:
  assumes "length m = 64"
  shows "midstate_const_hash m False = concat (map to_be_bytes (absorb 64 software_process_block sha256_iv m))"
proof -
  have "absorb 64 software_process_block sha256_iv m = software_process_block sha256_iv m"
    using assms by (subst absorb.simps) (simp add: absorb_short)
  moreover have "const_chunk m 2 0 = be_words m"
    using assms by (simp add: const_chunk_def copy_w_block)
  moreover have "const_hash_loop m False 2 0 sha256_iv
      = sha2_compress sha256_funs sha256_calls sha256_iv (const_chunk m 2 0)"
    by (simp add: const_hash_loop.simps)
  ultimately show ?thesis
    using assms by (simp add: midstate_const_hash_def const_hash_output_be software_process_block_def)
qed

section \<open>Lengths\<close>

lemma length_be_concat: "length (concat (map to_be_bytes (ws :: 'a::len word list))) = length ws * (LENGTH('a) div 8)"
  by (induction ws) (simp_all add: length_to_be_bytes)

lemma length_fips_sha256: "length (fips_sha256 m) = 32"
  by (simp add: fips_sha256_code absorb_fips length_be_concat length_absorb_fips length_sha256_iv)

lemma length_sha256_hash [byte_simps]: "length (sha256_hash m) = 32"
  by (simp add: sha256_hash_fips length_fips_sha256)

lemma sha256d_hash_eq: "sha256d_hash m = sha256_hash (sha256_hash m)"
  by (simp add: sha256d_hash_def hash_trait_hash_def sha256d_from_engine_def sha256_hash_def)

lemma length_sha256d_hash [byte_simps]: "length (sha256d_hash m) = 32"
  by (simp add: sha256d_hash_eq length_sha256_hash)

section \<open>Tagged hashes\<close>

lemma map_nth_twice:
  assumes "length h = 32"
  shows "map (\<lambda>i. h ! (i mod length h)) [0..<64] = h @ h"
proof (rule nth_equalityI)
  fix i assume "i < length (map (\<lambda>i. h ! (i mod length h)) [0..<64])"
  then show "map (\<lambda>i. h ! (i mod length h)) [0..<64] ! i = (h @ h) ! i"
    using assms by (cases "i < 32") (auto simp: nth_append mod_if)
qed (simp add: assms)

lemma tag_engine_holds:
  obtains e where "tag_engine tag = Some e" "nbytes e = 64"
    and "holds 64 software_process_block sha256_iv (sha256_hash tag @ sha256_hash tag) e"
proof -
  let ?t = "sha256_hash tag"
  have t: "sha256_const_hash tag = ?t" by (simp add: sha256_const_hash_fips sha256_hash_fips)
  have len: "length (?t @ ?t) = 64" by (simp add: length_sha256_hash)
  have "hash_tag tag = concat (map to_be_bytes (absorb 64 software_process_block sha256_iv (?t @ ?t)))"
    using const_hash_64 [OF len] map_nth_twice [of ?t]
    by (simp add: hash_tag_def Let_def t length_sha256_hash)
  then have "be_words (hash_tag tag) = absorb 64 software_process_block sha256_iv (?t @ ?t)"
    by (simp add: be_words_to_bytes)
  then have "holds 64 software_process_block sha256_iv (?t @ ?t)
      \<lparr> buffer = replicate 64 0, hstate = be_words (hash_tag tag), nbytes = 64 \<rparr>"
    using len length_tail_of [of 64 "?t @ ?t"] by (simp add: holds_def)
  then show ?thesis
    by (intro that) (simp_all add: tag_engine_def sha256_from_midstate_def)
qed

section \<open>Properties\<close>

text \<open>
  C5: hashing through the engine, with the data split over calls of \<open>input\<close> in any way, is SHA-256 of
  FIPS 180-4 on the concatenated data, and so is \<open>Hash::hash\<close>. The reference shares nothing with the code
  but the words: its constants are computed from the first primes, its functions are those of the standard.
\<close>

theorem sha256_engine_correct:
  "sha256_hash_byte_chunks cs = fips_sha256 (concat cs) \<and> sha256_hash (concat cs) = fips_sha256 (concat cs)"
  by (simp add: sha256_chunks_fips sha256_hash_fips)

text \<open>
  C27: \<open>const_hash\<close>, the second implementation of SHA-256 in the file, gives the same digest as the
  engine on every input.
\<close>

theorem const_hash_agrees: "sha256_const_hash m = sha256_hash m"
  by (simp add: sha256_const_hash_fips sha256_hash_fips)

text \<open>
  a tagged hash, computed from the midstate of \<open>hash_tag\<close>, is SHA-256 of the tag's digest twice
  followed by the data; the engine is always built (its assertion holds).
\<close>

theorem tagged_hash_correct:
  "\<exists>e. tag_engine tag = Some e
     \<and> sha256t_from_engine (sha256_input e m) = sha256_hash (sha256_hash tag @ sha256_hash tag @ m)"
proof -
  let ?t = "sha256_hash tag"
  obtain e where e: "tag_engine tag = Some e" "nbytes e = 64"
    "holds 64 software_process_block sha256_iv (?t @ ?t) e" by (rule tag_engine_holds)
  have "holds 64 software_process_block sha256_iv ((?t @ ?t) @ m) (sha256_input e m)"
    unfolding sha256_input_def by (rule sha256_blocks.holds_input [OF e(3)])
  moreover have "nbytes (sha256_input e m) = length ((?t @ ?t) @ m)"
    by (simp add: sha256_input_def nbytes_input e(2) length_sha256_hash)
  ultimately have "sha256t_from_engine (sha256_input e m) = fips_sha256 ((?t @ ?t) @ m)"
    using sha256_blocks.finish_absorbs
    by (simp add: sha256t_from_engine_def sha256_from_engine_def sha256_midstate_def fips_sha256_code)
  with e(1) show ?thesis by (simp add: sha256_hash_fips)
qed

end
