(* ===== verification/Encode.thy ===== *)
theory Encode
  imports Bitcoin_Io Sha256
begin

text \<open>
  Consensus encoding (\<open>src/litecoin/src/consensus/encode.rs\<close>): the error type, \<open>serialize\<close> and
  \<open>deserialize\<close>, fixed-width integers, \<open>VarInt\<close>, booleans, byte arrays, vectors, byte strings read in
  chunks, pairs and \<open>CheckedData\<close>. An encoder gives the bytes written and the count reported; a decoder
  consumes a prefix of the source. The locale \<open>codec\<close> is the contract of an \<open>Encodable\<close> and \<open>Decodable\<close>
  type, \<open>canonical_codec\<close> adds that nothing else decodes; vectors, size limits and \<open>deserialize\<close> are
  treated once inside them.
\<close>

section \<open>Errors\<close>

datatype encode_error =
    ErrIo io_failure
  | OversizedVectorAllocation nat nat
  | InvalidChecksum bytes bytes
  | NonMinimalVarInt
  | ParseFailed string
  | UnsupportedSegwitFlag u8

text \<open>\<open>map_err(Error::Io)\<close>.\<close>

definition dio :: "(io_failure, 'a) decoder \<Rightarrow> (encode_error, 'a) decoder" where
  "dio d = (\<lambda>r. map_err ErrIo (d r))"

lemma dio_dread_append [codec_simps]: "length a = n \<Longrightarrow> dio (dread n) (a @ r) = Inr (a, r)"
  by (simp add: dio_def dread_append)

lemma dio_dread_Inr_iff: "dio (dread n) r = Inr (a, r') \<longleftrightarrow> length a = n \<and> r = a @ r'"
  by (auto simp: dio_def dread_def)

section \<open>The code\<close>

definition MAX_VEC_SIZE :: nat where
  "MAX_VEC_SIZE = 4000000"

text \<open>
  The default \<open>consensus_decode\<close> of a type that gives \<open>consensus_decode_from_finite_reader\<close>.
\<close>

definition limited :: "(encode_error, 'a) decoder \<Rightarrow> (encode_error, 'a) decoder" where
  "limited from_finite = dtake MAX_VEC_SIZE from_finite"

definition serialize :: "('a \<Rightarrow> io_failure encoded) \<Rightarrow> 'a \<Rightarrow> io_failure + bytes" where
  "serialize enc x = (case enc x of Inl e \<Rightarrow> Inl Panic
     | Inr (b, len) \<Rightarrow> if len = length b then Inr b else Inl Panic)"

definition deserialize_partial :: "(encode_error, 'a) decoder \<Rightarrow> bytes \<Rightarrow> encode_error + ('a \<times> nat)" where
  "deserialize_partial from_finite data = and_then (from_finite data)
     (\<lambda>(rv, rest). Inr (rv, length data - length rest))"

definition deserialize :: "(encode_error, 'a) decoder \<Rightarrow> bytes \<Rightarrow> encode_error + 'a" where
  "deserialize from_finite data = and_then (deserialize_partial from_finite data)
     (\<lambda>(rv, consumed). if consumed = length data then Inr rv
        else Inl (ParseFailed ''data not consumed entirely when explicitly deserializing''))"

text \<open>\<open>impl_int_encodable!\<close>: the emitted bytes with \<open>mem::size_of\<close> as the count.\<close>

definition int_encode :: "'a::len word \<Rightarrow> io_failure encoded" where
  "int_encode w = Inr (to_le_bytes w, LENGTH('a) div 8)"

definition read_int :: "(encode_error, 'a::len word) decoder" where
  "read_int = dbind (dio (dread (LENGTH('a) div 8))) (\<lambda>val. dreturn (from_le_bytes val))"

definition emit_u8 :: "u8 \<Rightarrow> io_failure encoded" where
  "emit_u8 v = Inr ([v], 1)"

definition read_u8 :: "(encode_error, u8) decoder" where
  "read_u8 = dbind (dio (dread 1)) (\<lambda>slice. dreturn (slice ! 0))"

definition emit_slice :: "bytes \<Rightarrow> io_failure encoded" where
  "emit_slice v = Inr (v, length v)"

text \<open>An encoder that reports a count of its own, whatever its parts have reported.\<close>

definition reporting :: "io_failure encoded \<Rightarrow> nat \<Rightarrow> io_failure encoded" where
  "reporting m k = and_then m (\<lambda>(b, n). Inr (b, k))"

definition bool_encode :: "bool \<Rightarrow> io_failure encoded" where
  "bool_encode v = reporting (emit_u8 (if v then 1 else 0)) 1"

definition read_bool :: "(encode_error, bool) decoder" where
  "read_bool = dmap (\<lambda>bit. bit \<noteq> 0) read_u8"

definition varint_size :: "u64 \<Rightarrow> nat" where
  "varint_size n = (if n \<le> 0xFC then 1 else if n \<le> 0xFFFF then 3 else if n \<le> 0xFFFFFFFF then 5 else 9)"

definition varint_encode :: "u64 \<Rightarrow> io_failure encoded" where
  "varint_encode n =
     (if n \<le> 0xFC then reporting (int_encode (ucast n :: u8)) 1
      else if n \<le> 0xFFFF then reporting (enc_seq (emit_u8 0xFD) (int_encode (ucast n :: u16))) 3
      else if n \<le> 0xFFFFFFFF then reporting (enc_seq (emit_u8 0xFE) (int_encode (ucast n :: u32))) 5
      else reporting (enc_seq (emit_u8 0xFF) (int_encode n)) 9)"

definition varint_decode :: "(encode_error, u64) decoder" where
  "varint_decode = dbind read_u8 (\<lambda>n.
     if n = 0xFF then dbind read_int (\<lambda>x :: u64.
       if x < 0x100000000 then dfail NonMinimalVarInt else dreturn x)
     else if n = 0xFE then dbind read_int (\<lambda>x :: u32.
       if x < 0x10000 then dfail NonMinimalVarInt else dreturn (ucast x))
     else if n = 0xFD then dbind read_int (\<lambda>x :: u16.
       if x < 0xFD then dfail NonMinimalVarInt else dreturn (ucast x))
     else dreturn (ucast n))"

text \<open>\<open>impl_array!\<close>.\<close>

definition array_encode :: "bytes \<Rightarrow> io_failure encoded" where
  "array_encode self = reporting (emit_slice self) (length self)"

definition array_decode :: "nat \<Rightarrow> (encode_error, bytes) decoder" where
  "array_decode n = dio (dread n)"

text \<open>\<open>impl_vec!\<close>: \<open>for _ in 0..len\<close> with the first error ending the loop.\<close>

primrec drepeat :: "nat \<Rightarrow> (encode_error, 'a) decoder \<Rightarrow> (encode_error, 'a list) decoder" where
  "drepeat 0 d = dreturn []"
| "drepeat (Suc n) d = dbind d (\<lambda>x. dbind (drepeat n d) (\<lambda>xs. dreturn (x # xs)))"

definition vec_encode :: "('a \<Rightarrow> io_failure encoded) \<Rightarrow> 'a list \<Rightarrow> io_failure encoded" where
  "vec_encode enc xs = enc_seq (varint_encode (of_nat (length xs))) (enc_list enc xs)"

definition vec_decode :: "(encode_error, 'a) decoder \<Rightarrow> (encode_error, 'a list) decoder" where
  "vec_decode from_finite = dbind varint_decode (\<lambda>len. drepeat (unat len) from_finite)"

definition consensus_encode_with_size :: "bytes \<Rightarrow> io_failure encoded" where
  "consensus_encode_with_size data =
     enc_seq (varint_encode (of_nat (length data))) (emit_slice data)"

text \<open>
  \<open>read_bytes_from_finite_reader\<close>: \<open>ret\<close> is what the chunks so far have filled. The assertion on the
  chunk size is the first branch.
\<close>

function read_chunks :: "nat \<Rightarrow> nat \<Rightarrow> bytes \<Rightarrow> (encode_error, bytes) decoder" where
  "read_chunks len chunk_size ret r =
     (if chunk_size = 0 then Inl (ErrIo Panic)
      else if len = 0 then Inr (ret, r)
      else let n = min len chunk_size in
        (case dio (dread n) r of Inl e \<Rightarrow> Inl e
         | Inr (c, r') \<Rightarrow> read_chunks (len - n) chunk_size (ret @ c) r'))"
  by pat_completeness auto
termination
  by (relation "measure (\<lambda>(len, cs, ret, r). len)") auto

declare read_chunks.simps [simp del]

definition read_bytes_from_finite_reader :: "nat \<Rightarrow> nat \<Rightarrow> (encode_error, bytes) decoder" where
  "read_bytes_from_finite_reader len chunk_size = read_chunks len chunk_size []"

definition bytes_decode :: "(encode_error, bytes) decoder" where
  "bytes_decode = dbind varint_decode
     (\<lambda>len. read_bytes_from_finite_reader (unat len) (128 * 1024))"

text \<open>\<open>tuple_encode!\<close> for pairs; each part is read by \<open>consensus_decode\<close>.\<close>

definition pair_encode ::
  "('a \<Rightarrow> io_failure encoded) \<Rightarrow> ('b \<Rightarrow> io_failure encoded) \<Rightarrow> 'a \<times> 'b \<Rightarrow> io_failure encoded" where
  "pair_encode enc1 enc2 = (\<lambda>(x, y). enc_seq (enc1 x) (enc2 y))"

definition pair_decode ::
  "(encode_error, 'a) decoder \<Rightarrow> (encode_error, 'b) decoder \<Rightarrow> (encode_error, 'a \<times> 'b) decoder" where
  "pair_decode dec1 dec2 = dbind dec1 (\<lambda>x. dbind dec2 (\<lambda>y. dreturn (x, y)))"

definition sha2_checksum :: "bytes \<Rightarrow> bytes" where
  "sha2_checksum data = (let checksum = sha256d_hash data
     in [checksum ! 0, checksum ! 1, checksum ! 2, checksum ! 3])"

record checked_data =
  cd_data :: bytes
  cd_checksum :: bytes

definition checked_data_new :: "bytes \<Rightarrow> checked_data" where
  "checked_data_new data = \<lparr> cd_data = data, cd_checksum = sha2_checksum data \<rparr>"

definition checked_data_encode :: "checked_data \<Rightarrow> io_failure encoded" where
  "checked_data_encode self =
     (if length (cd_data self) < 2 ^ 32
      then reporting (enc_seq (int_encode (of_nat (length (cd_data self)) :: u32))
             (enc_seq (array_encode (cd_checksum self)) (emit_slice (cd_data self))))
             (8 + length (cd_data self))
      else Inl Panic)"

definition checked_data_decode :: "(encode_error, checked_data) decoder" where
  "checked_data_decode = dbind read_int (\<lambda>len :: u32. dbind (array_decode 4) (\<lambda>checksum.
     dbind (read_bytes_from_finite_reader (unat len) MAX_VEC_SIZE) (\<lambda>data.
       let expected_checksum = sha2_checksum data in
       if expected_checksum \<noteq> checksum then dfail (InvalidChecksum expected_checksum checksum)
       else dreturn \<lparr> cd_data = data, cd_checksum = checksum \<rparr>)))"

section \<open>Counting and sequencing\<close>

lemma reporting_wrote [simp]: "reporting (wrote b) k = Inr (b, k)"
  by (simp add: reporting_def wrote_def)

lemma emit_u8_wrote [simp]: "emit_u8 v = wrote [v]"
  by (simp add: emit_u8_def wrote_def)

lemma emit_slice_wrote [simp]: "emit_slice v = wrote v"
  by (simp add: emit_slice_def wrote_def)

lemma array_encode_wrote [simp]: "array_encode v = wrote v"
  by (simp add: array_encode_def) (simp add: wrote_def)

lemma int_encode_wrote [simp]: "int_encode w = wrote (to_le_bytes w)"
  by (simp add: int_encode_def wrote_def length_to_le_bytes)

lemma read_u8_append [codec_simps]: "read_u8 (b # r) = Inr (b, r)"
  by (simp add: read_u8_def dbind_def dio_def dread_def)

lemma read_u8_Inr_iff: "read_u8 r = Inr (b, r') \<longleftrightarrow> r = b # r'"
  by (cases r) (auto simp: read_u8_def dbind_def dio_def dread_def)

lemma read_int_append:
  assumes "8 dvd LENGTH('a)"
  shows "read_int (to_le_bytes (w :: 'a::len word) @ r) = Inr (w, r)"
  by (simp add: read_int_def dbind_Inr dio_dread_append length_to_le_bytes from_to_le_bytes assms)

lemma read_int_Inr:
  assumes "8 dvd LENGTH('a)" and "read_int r = Inr (w :: 'a::len word, r')"
  shows "r = to_le_bytes w @ r'"
  using assms(2) unfolding read_int_def
  by (auto elim!: dbind_InrE simp: dio_dread_Inr_iff to_from_le_bytes assms(1))

text \<open>The chunk size does not matter: the loop reads exactly \<open>len\<close> bytes or reports the end.\<close>

lemma read_chunks_eq:
  assumes "0 < chunk_size"
  shows "read_chunks len chunk_size ret r =
     (if len \<le> length r then Inr (ret @ take len r, drop len r) else Inl (ErrIo (Io UnexpectedEof)))"
  using assms
proof (induction len chunk_size ret r rule: read_chunks.induct)
  case (1 len cs ret r)
  show ?case
  proof (cases "len = 0")
    case True
    then show ?thesis using 1 by (subst read_chunks.simps) simp
  next
    case False
    let ?n = "min len cs"
    show ?thesis
    proof (cases "?n \<le> length r")
      case True
      then have "dio (dread ?n) r = Inr (take ?n r, drop ?n r)" by (simp add: dio_def dread_def)
      then show ?thesis
        using 1 False True by (subst read_chunks.simps) (auto simp: Let_def min_def simp flip: take_add)
    next
      case False
      then have "dio (dread ?n) r = Inl (ErrIo (Io UnexpectedEof))" by (simp add: dio_def dread_def)
      then show ?thesis using 1 \<open>len \<noteq> 0\<close> False by (subst read_chunks.simps) (auto simp: Let_def)
    qed
  qed
qed

lemma read_bytes_eq: "0 < cs \<Longrightarrow> read_bytes_from_finite_reader n cs = dio (dread n)"
  by (rule ext) (simp add: read_bytes_from_finite_reader_def read_chunks_eq dio_def dread_def)

section \<open>The contract of an encodable and decodable type\<close>

text \<open>
  \<open>wf\<close> says which values the encoder is meant for, \<open>ser\<close> is the byte string of a value.
\<close>

locale codec =
  fixes enc :: "'a \<Rightarrow> io_failure encoded" and dec :: "(encode_error, 'a) decoder"
    and wf :: "'a \<Rightarrow> bool" and ser :: "'a \<Rightarrow> bytes"
  assumes enc_ser: "wf x \<Longrightarrow> enc x = wrote (ser x)"
    and dec_ser: "wf x \<Longrightarrow> dec (ser x @ r) = Inr (x, r)"
begin

lemma serialize_ok: "wf x \<Longrightarrow> serialize enc x = Inr (ser x)"
  by (simp add: serialize_def enc_ser) (simp add: wrote_def)

lemma deserialize_ser: "wf x \<Longrightarrow> deserialize dec (ser x) = Inr x"
  using dec_ser [of x "[]"] by (simp add: deserialize_def deserialize_partial_def)

lemma deserialize_serialize: "wf x \<Longrightarrow> and_then (map_err ErrIo (serialize enc x)) (deserialize dec) = Inr x"
  by (simp add: serialize_ok deserialize_ser)

lemma deserialize_trailing:
  "\<lbrakk>wf x; r \<noteq> []\<rbrakk> \<Longrightarrow> \<exists>msg. deserialize dec (ser x @ r) = Inl (ParseFailed msg)"
  by (simp add: deserialize_def deserialize_partial_def dec_ser)

text \<open>Distinct values have encodings of which none is a prefix of another.\<close>

lemma ser_prefix_free: "\<lbrakk>wf x; wf y; ser x @ r = ser y @ s\<rbrakk> \<Longrightarrow> x = y \<and> r = s"
  by (metis dec_ser Inr_inject Pair_inject)

lemma ser_inject: "\<lbrakk>wf x; wf y; ser x = ser y\<rbrakk> \<Longrightarrow> x = y"
  using ser_prefix_free [of x y "[]" "[]"] by simp

text \<open>A size limit does not disturb values that fit.\<close>

lemma limited_ser:
  assumes "wf x" and "length (ser x) \<le> n"
  shows "dtake n dec (ser x @ r) = Inr (x, r)"
proof -
  have t: "take n (ser x @ r) = ser x @ take (n - length (ser x)) r" using assms(2) by simp
  then show ?thesis
    using dtake_Inr [of dec n "ser x @ r" x "take (n - length (ser x)) r" "ser x"] dec_ser [OF assms(1)]
    by simp
qed

lemma limited_codec: "codec enc (dtake n dec) (\<lambda>x. wf x \<and> length (ser x) \<le> n) ser"
  by unfold_locales (simp_all add: enc_ser limited_ser)

text \<open>Vectors.\<close>

lemma enc_list_ser: "list_all wf xs \<Longrightarrow> enc_list enc xs = wrote (concat (map ser xs))"
  by (rule enc_list_wrote) (simp add: enc_ser list_all_iff)

lemma drepeat_ser: "list_all wf xs \<Longrightarrow> drepeat (length xs) dec (concat (map ser xs) @ r) = Inr (xs, r)"
  by (induction xs) (simp_all add: dbind_Inr dec_ser)

end

locale canonical_codec = codec +
  assumes dec_canonical: "dec r = Inr (x, r') \<Longrightarrow> wf x \<and> r = ser x @ r'"
begin

lemma deserialize_canonical: "deserialize dec b = Inr x \<Longrightarrow> wf x \<and> b = ser x"
proof -
  assume "deserialize dec b = Inr x"
  then obtain r where r: "dec b = Inr (x, r)" "length b - length r = length b"
    by (auto simp: deserialize_def deserialize_partial_def and_then_Inr_iff split: if_splits)
  then have c: "wf x" "b = ser x @ r" using dec_canonical [OF r(1)] by simp_all
  then have "length r = 0" using r(2) by (cases "length b = 0") auto
  with c show "wf x \<and> b = ser x" by simp
qed

lemma serialize_deserialize: "deserialize dec b = Inr x \<Longrightarrow> serialize enc x = Inr b"
  using deserialize_canonical serialize_ok by auto

text \<open>\<open>deserialize\<close> accepts exactly what \<open>serialize\<close> gives for well-formed values.\<close>

lemma deserialize_iff: "deserialize dec b = Inr x \<longleftrightarrow> wf x \<and> serialize enc x = Inr b"
  by (metis deserialize_canonical deserialize_ser serialize_ok Inr_inject)

lemma limited_canonical: "canonical_codec enc (dtake n dec) (\<lambda>x. wf x \<and> length (ser x) \<le> n) ser"
proof (intro canonical_codec.intro limited_codec canonical_codec_axioms.intro)
  fix r x r'
  assume d: "dtake n dec r = Inr (x, r')"
  then obtain q where q: "dec (take n r) = Inr (x, q)" "r' = drop (length (take n r) - length q) r"
    by (auto simp: dtake_def split: sum.splits)
  then have c: "wf x" "take n r = ser x @ q" using dec_canonical [OF q(1)] by simp_all
  moreover from c(2) have "length (ser x) \<le> n" by (metis append_eq_conv_conj le_trans length_append
        length_take min.bounded_iff le_add1 order_refl)
  moreover have "r = ser x @ drop (length (ser x)) r"
    using c(2) by (metis append.assoc append_eq_conv_conj append_take_drop_id)
  ultimately show "(wf x \<and> length (ser x) \<le> n) \<and> r = ser x @ r'" using q(2) by simp
qed

lemma drepeat_canonical:
  "drepeat n dec r = Inr (xs, r') \<Longrightarrow> length xs = n \<and> list_all wf xs \<and> r = concat (map ser xs) @ r'"
proof (induction n arbitrary: r xs)
  case 0
  then show ?case by simp
next
  case (Suc n)
  from Suc.prems obtain x q ys where "dec r = Inr (x, q)" "drepeat n dec q = Inr (ys, r')" "xs = x # ys"
    by (auto elim!: dbind_InrE)
  with dec_canonical [of r x q] Suc.IH [of q ys] show ?case by simp
qed

end

section \<open>VarInt\<close>

definition varint_ser :: "u64 \<Rightarrow> bytes" where
  "varint_ser n =
     (if n \<le> 0xFC then to_le_bytes (ucast n :: u8)
      else if n \<le> 0xFFFF then 0xFD # to_le_bytes (ucast n :: u16)
      else if n \<le> 0xFFFFFFFF then 0xFE # to_le_bytes (ucast n :: u32)
      else 0xFF # to_le_bytes n)"

lemma length_varint_ser [byte_simps]: "length (varint_ser n) = varint_size n"
  by (simp add: varint_ser_def varint_size_def length_to_le_bytes)

lemma varint_encode_wrote: "varint_encode n = wrote (varint_ser n)"
  by (simp add: varint_encode_def varint_ser_def) (simp add: wrote_def length_to_le_bytes)

lemma to_le_bytes_u8: "to_le_bytes (b :: u8) = [b]"
  by (simp add: to_le_bytes_def)

lemma ucast_back:
  "(n :: u64) \<le> 0xFC \<Longrightarrow> ucast (ucast n :: u8) = n" "n \<le> 0xFFFF \<Longrightarrow> ucast (ucast n :: u16) = n"
  "n \<le> 0xFFFFFFFF \<Longrightarrow> ucast (ucast n :: u32) = n"
  by (simp_all add: word_unat_eq_iff unat_ucast word_le_nat_alt)

lemma varint_decode_ser: "varint_decode (varint_ser n @ r) = Inr (n, r)"
proof -
  have small: "(ucast n :: u8) \<noteq> 0xFF \<and> (ucast n :: u8) \<noteq> 0xFE \<and> (ucast n :: u8) \<noteq> 0xFD" if "n \<le> 0xFC"
    using that by (simp add: word_unat_eq_iff unat_ucast word_le_nat_alt)
  have not16: "\<not> (ucast n :: u16) < 0xFD" if "\<not> n \<le> 0xFC" "n \<le> 0xFFFF"
    using that by (simp add: word_less_nat_alt unat_ucast word_le_nat_alt)
  have not32: "\<not> (ucast n :: u32) < 0x10000" if "\<not> n \<le> 0xFFFF" "n \<le> 0xFFFFFFFF"
    using that by (simp add: word_less_nat_alt unat_ucast word_le_nat_alt)
  have not64: "\<not> n < 0x100000000" if "\<not> n \<le> 0xFFFFFFFF"
    using that by (simp add: word_less_nat_alt word_le_nat_alt)
  show ?thesis
    using small not16 not32 not64
    by (auto simp: varint_decode_def varint_ser_def dbind_Inr to_le_bytes_u8 read_u8_append
        read_int_append ucast_back)
qed

lemma varint_decode_canonical:
  assumes "varint_decode r = Inr (n, r')"
  shows "r = varint_ser n @ r'"
proof -
  from assms obtain b q where r: "r = b # q" and rest: "(if b = 0xFF then dbind read_int (\<lambda>x :: u64.
       if x < 0x100000000 then dfail NonMinimalVarInt else dreturn x)
     else if b = 0xFE then dbind read_int (\<lambda>x :: u32.
       if x < 0x10000 then dfail NonMinimalVarInt else dreturn (ucast x))
     else if b = 0xFD then dbind read_int (\<lambda>x :: u16.
       if x < 0xFD then dfail NonMinimalVarInt else dreturn (ucast x))
     else dreturn (ucast b)) q = Inr (n, r')"
    unfolding varint_decode_def by (auto simp: read_u8_Inr_iff elim!: dbind_InrE)
  consider "b = 0xFF" | "b = 0xFE" | "b = 0xFD" | "b \<noteq> 0xFF" "b \<noteq> 0xFE" "b \<noteq> 0xFD" by blast
  then show ?thesis
  proof cases
    case 1
    with rest have "q = to_le_bytes n @ r'" "\<not> n < 0x100000000"
      by (auto elim!: dbind_InrE dest: read_int_Inr [rotated] split: if_splits)
    then show ?thesis using 1 r by (auto simp: varint_ser_def word_less_nat_alt word_le_nat_alt)
  next
    case 2
    with rest obtain x :: u32 where "q = to_le_bytes x @ r'" "\<not> x < 0x10000" "n = ucast x"
      by (auto elim!: dbind_InrE dest: read_int_Inr [rotated] split: if_splits)
    moreover have "unat x < 2 ^ LENGTH(32)" by (rule unat_less_exp)
    then have "unat (ucast x :: u64) = unat x" by (simp add: unat_ucast)
    moreover have "(ucast (ucast x :: u64) :: u32) = x"
      by (rule bit_word_eqI) (auto simp: bit_simps)
    ultimately show ?thesis
      using 2 r \<open>unat x < 2 ^ LENGTH(32)\<close> by (simp add: varint_ser_def word_less_nat_alt word_le_nat_alt)
  next
    case 3
    with rest obtain x :: u16 where "q = to_le_bytes x @ r'" "\<not> x < 0xFD" "n = ucast x"
      by (auto elim!: dbind_InrE dest: read_int_Inr [rotated] split: if_splits)
    moreover have "unat x < 2 ^ LENGTH(16)" by (rule unat_less_exp)
    then have "unat (ucast x :: u64) = unat x" by (simp add: unat_ucast)
    moreover have "(ucast (ucast x :: u64) :: u16) = x"
      by (rule bit_word_eqI) (auto simp: bit_simps)
    ultimately show ?thesis
      using 3 r \<open>unat x < 2 ^ LENGTH(16)\<close> by (simp add: varint_ser_def word_less_nat_alt word_le_nat_alt)
  next
    case 4
    with rest have "n = ucast b" "q = r'" by simp_all
    moreover have "unat b \<le> 252" using 4 u8_less_256 [of b] by (simp add: word_unat_eq_iff del: u8_less_256)
    moreover have "(ucast (ucast b :: u64) :: u8) = b" "unat (ucast b :: u64) = unat b"
      using u8_less_256 [of b] by (simp_all add: word_unat_eq_iff unat_ucast del: u8_less_256)
    ultimately show ?thesis using r by (simp add: varint_ser_def word_le_nat_alt to_le_bytes_u8)
  qed
qed

interpretation varint: canonical_codec varint_encode varint_decode "\<lambda>_. True" varint_ser
  by unfold_locales (simp_all add: varint_encode_wrote varint_decode_ser varint_decode_canonical)

section \<open>The other base types\<close>

interpretation u64_codec: canonical_codec "int_encode :: u64 \<Rightarrow> _" read_int "\<lambda>_. True" to_le_bytes
  by unfold_locales (simp_all add: read_int_append read_int_Inr)

interpretation u32_codec: canonical_codec "int_encode :: u32 \<Rightarrow> _" read_int "\<lambda>_. True" to_le_bytes
  by unfold_locales (simp_all add: read_int_append read_int_Inr)

interpretation u16_codec: canonical_codec "int_encode :: u16 \<Rightarrow> _" read_int "\<lambda>_. True" to_le_bytes
  by unfold_locales (simp_all add: read_int_append read_int_Inr)

interpretation u8_codec: canonical_codec emit_u8 read_u8 "\<lambda>_. True" "\<lambda>b. [b]"
  by unfold_locales (simp_all add: read_u8_append read_u8_Inr_iff)

text \<open>Any byte but zero decodes to \<open>true\<close>, so booleans are not canonical.\<close>

interpretation bool_codec: codec bool_encode read_bool "\<lambda>_. True" "\<lambda>v. [if v then 1 else 0]"
  by unfold_locales (simp_all add: bool_encode_def read_bool_def dmap_Inr read_u8_append, simp_all add: wrote_def)

lemma array_canonical: "canonical_codec array_encode (array_decode n) (\<lambda>a. length a = n) (\<lambda>a. a)"
  by unfold_locales (simp_all add: array_decode_def dio_dread_append dio_dread_Inr_iff)

text \<open>\<open>[u8; 4]\<close> and \<open>[u8; 32]\<close>, the arrays of checksums and hashes.\<close>

interpretation array4: canonical_codec array_encode "array_decode 4" "\<lambda>a. length a = 4" "\<lambda>a. a"
  by (rule array_canonical)

interpretation array32: canonical_codec array_encode "array_decode 32" "\<lambda>a. length a = 32" "\<lambda>a. a"
  by (rule array_canonical)

section \<open>Vectors\<close>

definition vec_wf :: "('a \<Rightarrow> bool) \<Rightarrow> 'a list \<Rightarrow> bool" where
  "vec_wf ok xs \<longleftrightarrow> length xs < 2 ^ 64 \<and> list_all ok xs"

definition vec_ser :: "('a \<Rightarrow> bytes) \<Rightarrow> 'a list \<Rightarrow> bytes" where
  "vec_ser ser xs = varint_ser (of_nat (length xs)) @ concat (map ser xs)"

lemma unat_of_nat_u64: "n < 2 ^ 64 \<Longrightarrow> unat (of_nat n :: u64) = n"
  by (simp add: unat_of_nat)

context codec
begin

lemma vec_codec: "codec (vec_encode enc) (vec_decode dec) (vec_wf wf) (vec_ser ser)"
proof
  fix xs assume "vec_wf wf xs"
  then show "vec_encode enc xs = wrote (vec_ser ser xs)"
    by (simp add: vec_encode_def vec_ser_def vec_wf_def varint_encode_wrote enc_list_ser)
next
  fix xs r assume "vec_wf wf xs"
  then show "vec_decode dec (vec_ser ser xs @ r) = Inr (xs, r)"
    by (simp add: vec_decode_def vec_ser_def vec_wf_def dbind_Inr varint_decode_ser drepeat_ser
        unat_of_nat_u64 del: unat_of_nat)
qed

end

context canonical_codec
begin

lemma vec_canonical: "canonical_codec (vec_encode enc) (vec_decode dec) (vec_wf wf) (vec_ser ser)"
proof (intro canonical_codec.intro vec_codec canonical_codec_axioms.intro)
  fix r xs r' assume "vec_decode dec r = Inr (xs, r')"
  then obtain n q where "varint_decode r = Inr (n, q)" "drepeat (unat n) dec q = Inr (xs, r')"
    unfolding vec_decode_def by (rule dbind_InrE)
  then have "r = varint_ser n @ q" "length xs = unat n" "list_all wf xs" "q = concat (map ser xs) @ r'"
    using varint_decode_canonical drepeat_canonical by blast+
  then show "vec_wf wf xs \<and> r = vec_ser ser xs @ r'"
    using unat_less_exp [of n] by (simp add: vec_wf_def vec_ser_def)
qed

end

section \<open>Byte strings\<close>

definition bytes_wf :: "bytes \<Rightarrow> bool" where
  "bytes_wf b \<longleftrightarrow> length b < 2 ^ 64"

definition bytes_ser :: "bytes \<Rightarrow> bytes" where
  "bytes_ser b = varint_ser (of_nat (length b)) @ b"

lemma bytes_decode_eq: "bytes_decode = dbind varint_decode (\<lambda>len. dio (dread (unat len)))"
  by (simp add: bytes_decode_def read_bytes_eq)

interpretation bytes_codec: canonical_codec consensus_encode_with_size bytes_decode bytes_wf bytes_ser
proof
  fix b r
  assume "bytes_wf b"
  then show "consensus_encode_with_size b = wrote (bytes_ser b)"
    and "bytes_decode (bytes_ser b @ r) = Inr (b, r)"
    by (simp_all add: consensus_encode_with_size_def bytes_ser_def bytes_wf_def varint_encode_wrote
        bytes_decode_eq dbind_Inr varint_decode_ser dio_dread_append unat_of_nat_u64 del: unat_of_nat)
next
  fix r b r' assume "bytes_decode r = Inr (b, r')"
  then obtain n q where "varint_decode r = Inr (n, q)" "dio (dread (unat n)) q = Inr (b, r')"
    unfolding bytes_decode_eq by (rule dbind_InrE)
  then show "bytes_wf b \<and> r = bytes_ser b @ r'"
    using varint_decode_canonical [of r n q] unat_less_exp [of n]
    by (auto simp: bytes_wf_def bytes_ser_def dio_dread_Inr_iff)
qed

interpretation vec_u64: canonical_codec "vec_encode (int_encode :: u64 \<Rightarrow> _)" "vec_decode read_int"
  "vec_wf (\<lambda>_. True)" "vec_ser to_le_bytes"
  by (rule u64_codec.vec_canonical)

interpretation vec_varint: canonical_codec "vec_encode varint_encode" "vec_decode varint_decode"
  "vec_wf (\<lambda>_. True)" "vec_ser varint_ser"
  by (rule varint.vec_canonical)

interpretation vec_bytes: canonical_codec "vec_encode consensus_encode_with_size" "vec_decode bytes_decode"
  "vec_wf bytes_wf" "vec_ser bytes_ser"
  by (rule bytes_codec.vec_canonical)

section \<open>CheckedData\<close>

definition checked_data_wf :: "checked_data \<Rightarrow> bool" where
  "checked_data_wf c \<longleftrightarrow> length (cd_data c) < 2 ^ 32 \<and> cd_checksum c = sha2_checksum (cd_data c)"

definition checked_data_ser :: "checked_data \<Rightarrow> bytes" where
  "checked_data_ser c = to_le_bytes (of_nat (length (cd_data c)) :: u32) @ cd_checksum c @ cd_data c"

lemma length_sha2_checksum [byte_simps]: "length (sha2_checksum d) = 4"
  by (simp add: sha2_checksum_def Let_def)

interpretation checked: canonical_codec checked_data_encode checked_data_decode checked_data_wf checked_data_ser
proof
  fix c :: checked_data and r
  assume wf: "checked_data_wf c"
  then have "unat (of_nat (length (cd_data c)) :: u32) = length (cd_data c)"
    by (simp add: checked_data_wf_def unat_of_nat)
  with wf show "checked_data_decode (checked_data_ser c @ r) = Inr (c, r)"
    by (simp add: checked_data_decode_def checked_data_ser_def checked_data_wf_def dbind_Inr read_int_append
        array_decode_def dio_dread_append length_sha2_checksum read_bytes_eq MAX_VEC_SIZE_def)
  show "checked_data_encode c = wrote (checked_data_ser c)"
    using wf by (simp add: checked_data_encode_def checked_data_ser_def checked_data_wf_def)
      (simp add: wrote_def length_to_le_bytes length_sha2_checksum)
next
  fix r c r' assume "checked_data_decode r = Inr (c, r')"
  then obtain n :: u32 and q1 s q2 d where "read_int r = Inr (n, q1)" "array_decode 4 q1 = Inr (s, q2)"
    "dio (dread (unat n)) q2 = Inr (d, r')" "sha2_checksum d = s" "c = \<lparr> cd_data = d, cd_checksum = s \<rparr>"
    unfolding checked_data_decode_def
    by (auto simp: Let_def read_bytes_eq MAX_VEC_SIZE_def elim!: dbind_InrE split: if_splits)
  then show "checked_data_wf c \<and> r = checked_data_ser c @ r'"
    using read_int_Inr [of r n q1] unat_less_exp [of n]
    by (auto simp: checked_data_wf_def checked_data_ser_def array_decode_def dio_dread_Inr_iff)
qed

section \<open>Composing canonical codecs\<close>

text \<open>
  What a canonical decoder accepts is an equivalence, so that decoders of records are unfolded into
  conditions on the bytes by rewriting.
\<close>

lemma dbind_Inr_iff:
  "dbind d f r = Inr (y, r'') \<longleftrightarrow> (\<exists>x r'. d r = Inr (x, r') \<and> f x r' = Inr (y, r''))"
  by (auto simp: dbind_def split: sum.splits prod.splits)

lemma dmap_Inr_iff: "dmap g d r = Inr (y, r') \<longleftrightarrow> (\<exists>x. d r = Inr (x, r') \<and> y = g x)"
  by (auto simp: dmap_def dbind_Inr_iff)

context canonical_codec
begin

lemma dec_iff: "dec r = Inr (x, r') \<longleftrightarrow> wf x \<and> r = ser x @ r'"
  using dec_ser dec_canonical by blast

end

lemma canonical_codecI:
  assumes "\<And>x. ok x \<Longrightarrow> enc x = wrote (ser x)"
    and "\<And>r x r'. dec r = Inr (x, r') \<longleftrightarrow> ok x \<and> r = ser x @ r'"
  shows "canonical_codec enc dec ok ser"
  using assms by unfold_locales blast+

lemmas base_dec_iff = varint.dec_iff u64_codec.dec_iff u32_codec.dec_iff u16_codec.dec_iff u8_codec.dec_iff
  bytes_codec.dec_iff

lemma array_dec_iff: "array_decode n r = Inr (x, r') \<longleftrightarrow> length x = n \<and> r = x @ r'"
  by (simp add: array_decode_def dio_dread_Inr_iff)

section \<open>Properties\<close>

text \<open>
  every \<open>VarInt\<close> is written in exactly \<open>size()\<close> bytes, the count reported is right, and reading it
  back gives the number and leaves what follows.
\<close>

theorem varint_roundtrip:
  "\<exists>b. varint_encode n = Inr (b, varint_size n) \<and> length b = varint_size n
       \<and> varint_decode (b @ r) = Inr (n, r)"
  using varint_encode_wrote [of n] by (auto simp: wrote_def length_varint_ser varint_decode_ser)

text \<open>
  a \<open>VarInt\<close> is accepted only in its minimal form: whatever decodes is the encoding of the number
  it decodes to.
\<close>

theorem varint_minimal:
  assumes "varint_decode r = Inr (n, r')"
  shows "\<exists>b. varint_encode n = Inr (b, length b) \<and> r = b @ r'"
  using varint_decode_canonical [OF assms] varint_encode_wrote [of n] by (auto simp: wrote_def)

theorem varint_minimal_witness:
  "varint_decode [0xFD, 0x00, 0x01, 7] = Inr (0x100, [7])
   \<and> (\<exists>b. varint_encode 0x100 = Inr (b, length b) \<and> [0xFD, 0x00, 0x01, 7] = b @ [7])"
proof -
  have d: "varint_decode [0xFD, 0x00, 0x01, 7] = Inr (0x100, [7])" by code_simp
  from d varint_minimal [OF d] show ?thesis by blast
qed

text \<open>
  vectors of byte strings (the encoding of witness stacks and byte vectors nested in messages):
  \<open>deserialize\<close> accepts a byte string and gives \<open>xs\<close> exactly when \<open>xs\<close> is representable and the byte
  string is what \<open>serialize\<close> gives for it.
\<close>

theorem vec_bytes_deserialize:
  "deserialize (vec_decode bytes_decode) b = Inr xs \<longleftrightarrow>
     vec_wf bytes_wf xs \<and> serialize (vec_encode consensus_encode_with_size) xs = Inr b"
  by (rule vec_bytes.deserialize_iff)

text \<open>
  reading a byte string in chunks, of whatever positive size, is reading it whole: the loop ends
  with exactly the bytes asked for, or with \<open>UnexpectedEof\<close> when the source is too short.
\<close>

theorem read_bytes_chunking:
  assumes "0 < chunk_size"
  shows "read_bytes_from_finite_reader len chunk_size r =
     (if len \<le> length r then Inr (take len r, drop len r) else Inl (ErrIo (Io UnexpectedEof)))"
  by (simp add: read_bytes_eq [OF assms] dio_def dread_def)

theorem read_bytes_chunking_witness:
  "read_bytes_from_finite_reader 5 2 [1, 2, 3, 4, 5, 6] = Inr ([1, 2, 3, 4, 5], [6])"
  using read_bytes_chunking [of 2 5 "[1, 2, 3, 4, 5, 6]"] by simp

text \<open>
  C28: \<open>CheckedData\<close> read from a byte string is exactly what was written for data of at most
  \<open>2 ^ 32 - 1\<close> bytes with its right checksum; data under any other checksum is refused with both
  checksums in the error.
\<close>

theorem checked_data_integrity:
  assumes "length data < 2 ^ 32" and "length s = 4" and "s \<noteq> sha2_checksum data"
  shows "(deserialize checked_data_decode b = Inr c \<longleftrightarrow>
            length (cd_data c) < 2 ^ 32 \<and> c = checked_data_new (cd_data c)
            \<and> serialize checked_data_encode c = Inr b)
     \<and> checked_data_decode (to_le_bytes (of_nat (length data) :: u32) @ s @ data @ r)
         = Inl (InvalidChecksum (sha2_checksum data) s)"
proof
  have "checked_data_wf c \<longleftrightarrow> length (cd_data c) < 2 ^ 32 \<and> c = checked_data_new (cd_data c)"
    by (cases c) (auto simp: checked_data_wf_def checked_data_new_def)
  then show "deserialize checked_data_decode b = Inr c \<longleftrightarrow>
      length (cd_data c) < 2 ^ 32 \<and> c = checked_data_new (cd_data c) \<and> serialize checked_data_encode c = Inr b"
    using checked.deserialize_iff [of b c] by auto
next
  have "unat (of_nat (length data) :: u32) = length data"
    using assms(1) by (simp add: unat_of_nat)
  then show "checked_data_decode (to_le_bytes (of_nat (length data) :: u32) @ s @ data @ r)
         = Inl (InvalidChecksum (sha2_checksum data) s)"
    using assms(2,3) by (auto simp: checked_data_decode_def dbind_Inr read_int_append array_decode_def
        dio_dread_append read_bytes_eq MAX_VEC_SIZE_def Let_def)
qed

theorem checked_data_integrity_witness:
  "\<exists>s. length s = 4 \<and> s \<noteq> sha2_checksum [1, 2]
     \<and> checked_data_decode (to_le_bytes (of_nat (length [1, 2 :: u8]) :: u32) @ s @ [1, 2] @ [])
         = Inl (InvalidChecksum (sha2_checksum [1, 2]) s)"
proof -
  let ?c = "sha2_checksum [1, 2]"
  have "\<exists>s :: bytes. length s = 4 \<and> s \<noteq> ?c"
  proof (cases "?c = [0, 0, 0, 0]")
    case True
    then show ?thesis by (intro exI [of _ "[1, 0, 0, 0]"]) simp
  next
    case False
    then show ?thesis by (intro exI [of _ "[0, 0, 0, 0]"]) auto
  qed
  then obtain s where s: "length s = 4" "s \<noteq> ?c" by blast
  then show ?thesis
    using checked_data_integrity [of "[1, 2]" s "[]" "checked_data_new []" "[]"] by auto
qed

end
