(* ===== verification/Opcodes.thy ===== *)
theory Opcodes
  imports Prelude
begin

text \<open>
  Script opcodes (\<open>src/litecoin/src/blockdata/opcodes.rs\<close>): the table of names and codes, the
  classification of an opcode in the legacy and the tapscript context, and the small numbers that have
  an opcode of their own. An \<open>Opcode\<close> is its code. \<open>Ordinary::with\<close> has an \<open>unreachable!\<close> arm, so
  \<open>classify\<close> is given as an option with \<^term>\<open>None\<close> for that panic, and shown to be total.
\<close>

section \<open>The table\<close>

definition opcode_table_low :: "(string \<times> u8) list" where
  "opcode_table_low =
    [(''OP_PUSHBYTES_0'', 0x00), (''OP_PUSHBYTES_1'', 0x01), (''OP_PUSHBYTES_2'', 0x02),
     (''OP_PUSHBYTES_3'', 0x03), (''OP_PUSHBYTES_4'', 0x04), (''OP_PUSHBYTES_5'', 0x05),
     (''OP_PUSHBYTES_6'', 0x06), (''OP_PUSHBYTES_7'', 0x07), (''OP_PUSHBYTES_8'', 0x08),
     (''OP_PUSHBYTES_9'', 0x09), (''OP_PUSHBYTES_10'', 0x0a), (''OP_PUSHBYTES_11'', 0x0b),
     (''OP_PUSHBYTES_12'', 0x0c), (''OP_PUSHBYTES_13'', 0x0d), (''OP_PUSHBYTES_14'', 0x0e),
     (''OP_PUSHBYTES_15'', 0x0f), (''OP_PUSHBYTES_16'', 0x10), (''OP_PUSHBYTES_17'', 0x11),
     (''OP_PUSHBYTES_18'', 0x12), (''OP_PUSHBYTES_19'', 0x13), (''OP_PUSHBYTES_20'', 0x14),
     (''OP_PUSHBYTES_21'', 0x15), (''OP_PUSHBYTES_22'', 0x16), (''OP_PUSHBYTES_23'', 0x17),
     (''OP_PUSHBYTES_24'', 0x18), (''OP_PUSHBYTES_25'', 0x19), (''OP_PUSHBYTES_26'', 0x1a),
     (''OP_PUSHBYTES_27'', 0x1b), (''OP_PUSHBYTES_28'', 0x1c), (''OP_PUSHBYTES_29'', 0x1d),
     (''OP_PUSHBYTES_30'', 0x1e), (''OP_PUSHBYTES_31'', 0x1f), (''OP_PUSHBYTES_32'', 0x20),
     (''OP_PUSHBYTES_33'', 0x21), (''OP_PUSHBYTES_34'', 0x22), (''OP_PUSHBYTES_35'', 0x23),
     (''OP_PUSHBYTES_36'', 0x24), (''OP_PUSHBYTES_37'', 0x25), (''OP_PUSHBYTES_38'', 0x26),
     (''OP_PUSHBYTES_39'', 0x27), (''OP_PUSHBYTES_40'', 0x28), (''OP_PUSHBYTES_41'', 0x29),
     (''OP_PUSHBYTES_42'', 0x2a), (''OP_PUSHBYTES_43'', 0x2b), (''OP_PUSHBYTES_44'', 0x2c),
     (''OP_PUSHBYTES_45'', 0x2d), (''OP_PUSHBYTES_46'', 0x2e), (''OP_PUSHBYTES_47'', 0x2f),
     (''OP_PUSHBYTES_48'', 0x30), (''OP_PUSHBYTES_49'', 0x31), (''OP_PUSHBYTES_50'', 0x32),
     (''OP_PUSHBYTES_51'', 0x33), (''OP_PUSHBYTES_52'', 0x34), (''OP_PUSHBYTES_53'', 0x35),
     (''OP_PUSHBYTES_54'', 0x36), (''OP_PUSHBYTES_55'', 0x37), (''OP_PUSHBYTES_56'', 0x38),
     (''OP_PUSHBYTES_57'', 0x39), (''OP_PUSHBYTES_58'', 0x3a), (''OP_PUSHBYTES_59'', 0x3b),
     (''OP_PUSHBYTES_60'', 0x3c), (''OP_PUSHBYTES_61'', 0x3d), (''OP_PUSHBYTES_62'', 0x3e),
     (''OP_PUSHBYTES_63'', 0x3f), (''OP_PUSHBYTES_64'', 0x40), (''OP_PUSHBYTES_65'', 0x41),
     (''OP_PUSHBYTES_66'', 0x42), (''OP_PUSHBYTES_67'', 0x43), (''OP_PUSHBYTES_68'', 0x44),
     (''OP_PUSHBYTES_69'', 0x45), (''OP_PUSHBYTES_70'', 0x46), (''OP_PUSHBYTES_71'', 0x47),
     (''OP_PUSHBYTES_72'', 0x48), (''OP_PUSHBYTES_73'', 0x49), (''OP_PUSHBYTES_74'', 0x4a),
     (''OP_PUSHBYTES_75'', 0x4b), (''OP_PUSHDATA1'', 0x4c), (''OP_PUSHDATA2'', 0x4d),
     (''OP_PUSHDATA4'', 0x4e), (''OP_PUSHNUM_NEG1'', 0x4f), (''OP_RESERVED'', 0x50),
     (''OP_PUSHNUM_1'', 0x51), (''OP_PUSHNUM_2'', 0x52), (''OP_PUSHNUM_3'', 0x53),
     (''OP_PUSHNUM_4'', 0x54), (''OP_PUSHNUM_5'', 0x55), (''OP_PUSHNUM_6'', 0x56),
     (''OP_PUSHNUM_7'', 0x57), (''OP_PUSHNUM_8'', 0x58), (''OP_PUSHNUM_9'', 0x59),
     (''OP_PUSHNUM_10'', 0x5a), (''OP_PUSHNUM_11'', 0x5b), (''OP_PUSHNUM_12'', 0x5c),
     (''OP_PUSHNUM_13'', 0x5d), (''OP_PUSHNUM_14'', 0x5e), (''OP_PUSHNUM_15'', 0x5f),
     (''OP_PUSHNUM_16'', 0x60), (''OP_NOP'', 0x61), (''OP_VER'', 0x62), (''OP_IF'', 0x63),
     (''OP_NOTIF'', 0x64), (''OP_VERIF'', 0x65), (''OP_VERNOTIF'', 0x66), (''OP_ELSE'', 0x67),
     (''OP_ENDIF'', 0x68), (''OP_VERIFY'', 0x69), (''OP_RETURN'', 0x6a), (''OP_TOALTSTACK'', 0x6b),
     (''OP_FROMALTSTACK'', 0x6c), (''OP_2DROP'', 0x6d), (''OP_2DUP'', 0x6e), (''OP_3DUP'', 0x6f),
     (''OP_2OVER'', 0x70), (''OP_2ROT'', 0x71), (''OP_2SWAP'', 0x72), (''OP_IFDUP'', 0x73),
     (''OP_DEPTH'', 0x74), (''OP_DROP'', 0x75), (''OP_DUP'', 0x76), (''OP_NIP'', 0x77),
     (''OP_OVER'', 0x78), (''OP_PICK'', 0x79), (''OP_ROLL'', 0x7a), (''OP_ROT'', 0x7b),
     (''OP_SWAP'', 0x7c), (''OP_TUCK'', 0x7d), (''OP_CAT'', 0x7e), (''OP_SUBSTR'', 0x7f)]"

definition opcode_table_high :: "(string \<times> u8) list" where
  "opcode_table_high =
    [(''OP_LEFT'', 0x80), (''OP_RIGHT'', 0x81), (''OP_SIZE'', 0x82), (''OP_INVERT'', 0x83),
     (''OP_AND'', 0x84), (''OP_OR'', 0x85), (''OP_XOR'', 0x86), (''OP_EQUAL'', 0x87),
     (''OP_EQUALVERIFY'', 0x88), (''OP_RESERVED1'', 0x89), (''OP_RESERVED2'', 0x8a),
     (''OP_1ADD'', 0x8b), (''OP_1SUB'', 0x8c), (''OP_2MUL'', 0x8d), (''OP_2DIV'', 0x8e),
     (''OP_NEGATE'', 0x8f), (''OP_ABS'', 0x90), (''OP_NOT'', 0x91), (''OP_0NOTEQUAL'', 0x92),
     (''OP_ADD'', 0x93), (''OP_SUB'', 0x94), (''OP_MUL'', 0x95), (''OP_DIV'', 0x96),
     (''OP_MOD'', 0x97), (''OP_LSHIFT'', 0x98), (''OP_RSHIFT'', 0x99), (''OP_BOOLAND'', 0x9a),
     (''OP_BOOLOR'', 0x9b), (''OP_NUMEQUAL'', 0x9c), (''OP_NUMEQUALVERIFY'', 0x9d),
     (''OP_NUMNOTEQUAL'', 0x9e), (''OP_LESSTHAN'', 0x9f), (''OP_GREATERTHAN'', 0xa0),
     (''OP_LESSTHANOREQUAL'', 0xa1), (''OP_GREATERTHANOREQUAL'', 0xa2), (''OP_MIN'', 0xa3),
     (''OP_MAX'', 0xa4), (''OP_WITHIN'', 0xa5), (''OP_RIPEMD160'', 0xa6), (''OP_SHA1'', 0xa7),
     (''OP_SHA256'', 0xa8), (''OP_HASH160'', 0xa9), (''OP_HASH256'', 0xaa),
     (''OP_CODESEPARATOR'', 0xab), (''OP_CHECKSIG'', 0xac), (''OP_CHECKSIGVERIFY'', 0xad),
     (''OP_CHECKMULTISIG'', 0xae), (''OP_CHECKMULTISIGVERIFY'', 0xaf), (''OP_NOP1'', 0xb0),
     (''OP_CLTV'', 0xb1), (''OP_CSV'', 0xb2), (''OP_NOP4'', 0xb3), (''OP_NOP5'', 0xb4),
     (''OP_NOP6'', 0xb5), (''OP_NOP7'', 0xb6), (''OP_NOP8'', 0xb7), (''OP_NOP9'', 0xb8),
     (''OP_NOP10'', 0xb9), (''OP_CHECKSIGADD'', 0xba), (''OP_RETURN_187'', 0xbb),
     (''OP_RETURN_188'', 0xbc), (''OP_RETURN_189'', 0xbd), (''OP_RETURN_190'', 0xbe),
     (''OP_RETURN_191'', 0xbf), (''OP_RETURN_192'', 0xc0), (''OP_RETURN_193'', 0xc1),
     (''OP_RETURN_194'', 0xc2), (''OP_RETURN_195'', 0xc3), (''OP_RETURN_196'', 0xc4),
     (''OP_RETURN_197'', 0xc5), (''OP_RETURN_198'', 0xc6), (''OP_RETURN_199'', 0xc7),
     (''OP_RETURN_200'', 0xc8), (''OP_RETURN_201'', 0xc9), (''OP_RETURN_202'', 0xca),
     (''OP_RETURN_203'', 0xcb), (''OP_RETURN_204'', 0xcc), (''OP_RETURN_205'', 0xcd),
     (''OP_RETURN_206'', 0xce), (''OP_RETURN_207'', 0xcf), (''OP_RETURN_208'', 0xd0),
     (''OP_RETURN_209'', 0xd1), (''OP_RETURN_210'', 0xd2), (''OP_RETURN_211'', 0xd3),
     (''OP_RETURN_212'', 0xd4), (''OP_RETURN_213'', 0xd5), (''OP_RETURN_214'', 0xd6),
     (''OP_RETURN_215'', 0xd7), (''OP_RETURN_216'', 0xd8), (''OP_RETURN_217'', 0xd9),
     (''OP_RETURN_218'', 0xda), (''OP_RETURN_219'', 0xdb), (''OP_RETURN_220'', 0xdc),
     (''OP_RETURN_221'', 0xdd), (''OP_RETURN_222'', 0xde), (''OP_RETURN_223'', 0xdf),
     (''OP_RETURN_224'', 0xe0), (''OP_RETURN_225'', 0xe1), (''OP_RETURN_226'', 0xe2),
     (''OP_RETURN_227'', 0xe3), (''OP_RETURN_228'', 0xe4), (''OP_RETURN_229'', 0xe5),
     (''OP_RETURN_230'', 0xe6), (''OP_RETURN_231'', 0xe7), (''OP_RETURN_232'', 0xe8),
     (''OP_RETURN_233'', 0xe9), (''OP_RETURN_234'', 0xea), (''OP_RETURN_235'', 0xeb),
     (''OP_RETURN_236'', 0xec), (''OP_RETURN_237'', 0xed), (''OP_RETURN_238'', 0xee),
     (''OP_RETURN_239'', 0xef), (''OP_RETURN_240'', 0xf0), (''OP_RETURN_241'', 0xf1),
     (''OP_RETURN_242'', 0xf2), (''OP_RETURN_243'', 0xf3), (''OP_RETURN_244'', 0xf4),
     (''OP_RETURN_245'', 0xf5), (''OP_RETURN_246'', 0xf6), (''OP_RETURN_247'', 0xf7),
     (''OP_RETURN_248'', 0xf8), (''OP_RETURN_249'', 0xf9), (''OP_RETURN_250'', 0xfa),
     (''OP_RETURN_251'', 0xfb), (''OP_RETURN_252'', 0xfc), (''OP_RETURN_253'', 0xfd),
     (''OP_RETURN_254'', 0xfe), (''OP_INVALIDOPCODE'', 0xff)]"

text \<open>The name that \<open>Display\<close> prints.\<close>

definition opcode_name :: "u8 \<Rightarrow> string option" where
  "opcode_name op = map_of (map (\<lambda>(s, c). (c, s)) (opcode_table_low @ opcode_table_high)) op"

abbreviation OP_PUSHBYTES_0 :: u8 where "OP_PUSHBYTES_0 \<equiv> 0x00"

abbreviation OP_PUSHBYTES_2 :: u8 where "OP_PUSHBYTES_2 \<equiv> 0x02"

abbreviation OP_PUSHBYTES_20 :: u8 where "OP_PUSHBYTES_20 \<equiv> 0x14"

abbreviation OP_PUSHBYTES_32 :: u8 where "OP_PUSHBYTES_32 \<equiv> 0x20"

abbreviation OP_PUSHBYTES_33 :: u8 where "OP_PUSHBYTES_33 \<equiv> 0x21"

abbreviation OP_PUSHBYTES_40 :: u8 where "OP_PUSHBYTES_40 \<equiv> 0x28"

abbreviation OP_PUSHBYTES_65 :: u8 where "OP_PUSHBYTES_65 \<equiv> 0x41"

abbreviation OP_PUSHBYTES_75 :: u8 where "OP_PUSHBYTES_75 \<equiv> 0x4b"

abbreviation OP_PUSHDATA1 :: u8 where "OP_PUSHDATA1 \<equiv> 0x4c"

abbreviation OP_PUSHDATA2 :: u8 where "OP_PUSHDATA2 \<equiv> 0x4d"

abbreviation OP_PUSHDATA4 :: u8 where "OP_PUSHDATA4 \<equiv> 0x4e"

abbreviation OP_PUSHNUM_NEG1 :: u8 where "OP_PUSHNUM_NEG1 \<equiv> 0x4f"

abbreviation OP_RESERVED :: u8 where "OP_RESERVED \<equiv> 0x50"

abbreviation OP_PUSHNUM_1 :: u8 where "OP_PUSHNUM_1 \<equiv> 0x51"

abbreviation OP_PUSHNUM_16 :: u8 where "OP_PUSHNUM_16 \<equiv> 0x60"

abbreviation OP_NOP :: u8 where "OP_NOP \<equiv> 0x61"

abbreviation OP_VER :: u8 where "OP_VER \<equiv> 0x62"

abbreviation OP_VERIF :: u8 where "OP_VERIF \<equiv> 0x65"

abbreviation OP_VERNOTIF :: u8 where "OP_VERNOTIF \<equiv> 0x66"

abbreviation OP_VERIFY :: u8 where "OP_VERIFY \<equiv> 0x69"

abbreviation OP_RETURN :: u8 where "OP_RETURN \<equiv> 0x6a"

abbreviation OP_DUP :: u8 where "OP_DUP \<equiv> 0x76"

abbreviation OP_CAT :: u8 where "OP_CAT \<equiv> 0x7e"

abbreviation OP_SUBSTR :: u8 where "OP_SUBSTR \<equiv> 0x7f"

abbreviation OP_LEFT :: u8 where "OP_LEFT \<equiv> 0x80"

abbreviation OP_RIGHT :: u8 where "OP_RIGHT \<equiv> 0x81"

abbreviation OP_INVERT :: u8 where "OP_INVERT \<equiv> 0x83"

abbreviation OP_AND :: u8 where "OP_AND \<equiv> 0x84"

abbreviation OP_OR :: u8 where "OP_OR \<equiv> 0x85"

abbreviation OP_XOR :: u8 where "OP_XOR \<equiv> 0x86"

abbreviation OP_EQUAL :: u8 where "OP_EQUAL \<equiv> 0x87"

abbreviation OP_EQUALVERIFY :: u8 where "OP_EQUALVERIFY \<equiv> 0x88"

abbreviation OP_RESERVED1 :: u8 where "OP_RESERVED1 \<equiv> 0x89"

abbreviation OP_RESERVED2 :: u8 where "OP_RESERVED2 \<equiv> 0x8a"

abbreviation OP_2MUL :: u8 where "OP_2MUL \<equiv> 0x8d"

abbreviation OP_2DIV :: u8 where "OP_2DIV \<equiv> 0x8e"

abbreviation OP_MUL :: u8 where "OP_MUL \<equiv> 0x95"

abbreviation OP_DIV :: u8 where "OP_DIV \<equiv> 0x96"

abbreviation OP_MOD :: u8 where "OP_MOD \<equiv> 0x97"

abbreviation OP_LSHIFT :: u8 where "OP_LSHIFT \<equiv> 0x98"

abbreviation OP_RSHIFT :: u8 where "OP_RSHIFT \<equiv> 0x99"

abbreviation OP_NUMEQUAL :: u8 where "OP_NUMEQUAL \<equiv> 0x9c"

abbreviation OP_NUMEQUALVERIFY :: u8 where "OP_NUMEQUALVERIFY \<equiv> 0x9d"

abbreviation OP_HASH160 :: u8 where "OP_HASH160 \<equiv> 0xa9"

abbreviation OP_CHECKSIG :: u8 where "OP_CHECKSIG \<equiv> 0xac"

abbreviation OP_CHECKSIGVERIFY :: u8 where "OP_CHECKSIGVERIFY \<equiv> 0xad"

abbreviation OP_CHECKMULTISIG :: u8 where "OP_CHECKMULTISIG \<equiv> 0xae"

abbreviation OP_CHECKMULTISIGVERIFY :: u8 where "OP_CHECKMULTISIGVERIFY \<equiv> 0xaf"

abbreviation OP_NOP1 :: u8 where "OP_NOP1 \<equiv> 0xb0"

abbreviation OP_NOP10 :: u8 where "OP_NOP10 \<equiv> 0xb9"

abbreviation OP_CHECKSIGADD :: u8 where "OP_CHECKSIGADD \<equiv> 0xba"

abbreviation OP_INVALIDOPCODE :: u8 where "OP_INVALIDOPCODE \<equiv> 0xff"

abbreviation OP_CLTV :: u8 where "OP_CLTV \<equiv> 0xb1"

abbreviation OP_CSV :: u8 where "OP_CSV \<equiv> 0xb2"

section \<open>Classification\<close>

datatype ClassifyContext = TapScript | Legacy

datatype Class =
    PushNum int
  | ClassPushBytes nat
  | ReturnOp
  | SuccessOp
  | IllegalOp
  | NoOp
  | Ordinary u8

text \<open>The opcodes listed in \<open>ordinary_opcode!\<close>.\<close>

definition ordinary_opcodes :: "u8 list" where
  "ordinary_opcodes =
    [0x4c, 0x4d, 0x4e, 0x63, 0x64, 0x67, 0x68, 0x69, 0x6b, 0x6c, 0x6d, 0x6e,
     0x6f, 0x70, 0x71, 0x72, 0x75, 0x76, 0x77, 0x78, 0x79, 0x7a, 0x7b, 0x7c,
     0x7d, 0x73, 0x74, 0x82, 0x87, 0x88, 0x8b, 0x8c, 0x8f, 0x90, 0x91, 0x92,
     0x93, 0x94, 0x9a, 0x9b, 0x9c, 0x9d, 0x9e, 0x9f, 0xa0, 0xa1, 0xa2, 0xa3,
     0xa4, 0xa5, 0xa6, 0xa7, 0xa8, 0xa9, 0xaa, 0xab, 0xac, 0xad, 0xae, 0xaf,
     0xba]"

definition ordinary_with :: "u8 \<Rightarrow> u8 option" where
  "ordinary_with b = (if b \<in> set ordinary_opcodes then Some b else None)"

definition classify :: "u8 \<Rightarrow> ClassifyContext \<Rightarrow> Class option" where
  "classify op ctx =
     (if op \<in> set [OP_VERIF, OP_VERNOTIF, OP_INVALIDOPCODE] then Some IllegalOp
      else if op \<in> set [OP_CAT, OP_SUBSTR, OP_LEFT, OP_RIGHT, OP_INVERT, OP_AND, OP_OR, OP_XOR, OP_2MUL,
                        OP_2DIV, OP_MUL, OP_DIV, OP_MOD, OP_LSHIFT, OP_RSHIFT] \<and> ctx = Legacy
        then Some IllegalOp
      else if ctx = TapScript \<and> (op = 80 \<or> op = 98 \<or> (126 \<le> op \<and> op \<le> 129) \<or> (131 \<le> op \<and> op \<le> 134)
                \<or> (137 \<le> op \<and> op \<le> 138) \<or> (141 \<le> op \<and> op \<le> 142) \<or> (149 \<le> op \<and> op \<le> 153)
                \<or> (187 \<le> op \<and> op \<le> 254))
        then Some SuccessOp
      else if op = OP_NOP then Some NoOp
      else if OP_NOP1 \<le> op \<and> op \<le> OP_NOP10 then Some NoOp
      else if op = OP_RETURN then Some ReturnOp
      else if op \<in> set [OP_RESERVED, OP_RESERVED1, OP_RESERVED2, OP_VER] \<and> ctx = Legacy then Some ReturnOp
      else if ctx = Legacy \<and> OP_CHECKSIGADD \<le> op then Some ReturnOp
      else if op \<in> set [OP_CHECKMULTISIG, OP_CHECKMULTISIGVERIFY] \<and> ctx = TapScript then Some ReturnOp
      else if op = OP_PUSHNUM_NEG1 then Some (PushNum (- 1))
      else if OP_PUSHNUM_1 \<le> op \<and> op \<le> OP_PUSHNUM_16 then Some (PushNum (1 + uint op - uint OP_PUSHNUM_1))
      else if op \<le> OP_PUSHBYTES_75 then Some (ClassPushBytes (unat op))
      else map_option Ordinary (ordinary_with op))"

definition decode_pushnum :: "u8 \<Rightarrow> u8 option" where
  "decode_pushnum op = (if OP_PUSHNUM_1 \<le> op \<and> op \<le> OP_PUSHNUM_16 then Some (op - OP_PUSHNUM_1 + 1) else None)"

section \<open>Facts by enumeration\<close>

text \<open>All bytes, for facts that hold byte by byte.\<close>

definition all_bytes :: "u8 list" where
  "all_bytes = map word_of_int [0..255]"

lemma in_all_bytes: "b \<in> set all_bytes"
proof -
  have "uint b \<in> set [0..255]" using uint_bounded [of b] by simp
  then show ?thesis unfolding all_bytes_def set_map by (metis image_eqI word_of_int_uint)
qed

lemma all_bytesI: "list_all P all_bytes \<Longrightarrow> P b"
  using in_all_bytes by (simp add: list_all_iff)

lemma opcode_table_codes: "map snd (opcode_table_low @ opcode_table_high) = all_bytes"
  by code_simp

lemma classify_push: "op \<le> OP_PUSHBYTES_75 \<Longrightarrow> classify op ctx = Some (ClassPushBytes (unat op))"
  by (simp add: classify_def word_le_nat_alt word_unat_eq_iff)

text \<open>Everything after the push opcodes is neither a push of bytes nor of data.\<close>

fun is_push_class :: "Class \<Rightarrow> bool" where
  "is_push_class (ClassPushBytes n) \<longleftrightarrow> True"
| "is_push_class (Ordinary op) \<longleftrightarrow> op \<in> set [OP_PUSHDATA1, OP_PUSHDATA2, OP_PUSHDATA4]"
| "is_push_class _ \<longleftrightarrow> False"

lemma classify_pushdata:
  "classify OP_PUSHDATA1 ctx = Some (Ordinary OP_PUSHDATA1)"
  "classify OP_PUSHDATA2 ctx = Some (Ordinary OP_PUSHDATA2)"
  "classify OP_PUSHDATA4 ctx = Some (Ordinary OP_PUSHDATA4)"
  by (simp_all add: classify_def ordinary_with_def ordinary_opcodes_def)

lemma classify_other:
  assumes "OP_PUSHDATA4 < op" "classify op Legacy = Some c"
  shows "\<not> is_push_class c"
proof -
  have "\<not> op \<le> OP_PUSHBYTES_75" "op \<noteq> OP_PUSHDATA1" "op \<noteq> OP_PUSHDATA2" "op \<noteq> OP_PUSHDATA4"
    using assms(1) by (simp_all add: word_less_nat_alt word_le_nat_alt word_unat_eq_iff)
  then show ?thesis using assms(2) by (auto simp: classify_def ordinary_with_def split: if_splits)
qed

section \<open>The classes, counted\<close>

fun class_kind :: "Class option \<Rightarrow> nat" where
  "class_kind None = 0"
| "class_kind (Some IllegalOp) = 1"
| "class_kind (Some SuccessOp) = 2"
| "class_kind (Some NoOp) = 3"
| "class_kind (Some ReturnOp) = 4"
| "class_kind (Some (PushNum n)) = 5"
| "class_kind (Some (ClassPushBytes n)) = 6"
| "class_kind (Some (Ordinary op)) = 7"

definition class_profile :: "ClassifyContext \<Rightarrow> nat list" where
  "class_profile ctx = map (\<lambda>b. class_kind (classify b ctx)) all_bytes"

definition runs :: "(nat \<times> nat) list \<Rightarrow> nat list" where
  "runs rs = concat (map (\<lambda>(n, k). replicate n k) rs)"

lemma class_profile_Legacy: "class_profile Legacy = runs
    [(76, 6), (3, 7), (1, 5), (1, 4), (16, 5), (1, 3), (1, 4), (2, 7), (2, 1), (3, 7), (1, 4), (19,
     7), (4, 1), (1, 7), (4, 1), (2, 7), (2, 4), (2, 7), (2, 1), (6, 7), (5, 1), (22, 7), (10, 3),
     (69, 4), (1, 1)]"
  by code_simp

lemma class_profile_TapScript: "class_profile TapScript = runs
    [(76, 6), (3, 7), (1, 5), (1, 2), (16, 5), (1, 3), (1, 2), (2, 7), (2, 1), (3, 7), (1, 4), (19,
     7), (4, 2), (1, 7), (4, 2), (2, 7), (2, 2), (2, 7), (2, 2), (6, 7), (5, 2), (20, 7), (2, 4),
     (10, 3), (1, 7), (68, 2), (1, 1)]"
  by code_simp

lemma class_profile_total: "0 \<notin> set (class_profile ctx)"
  by (cases ctx) (simp_all add: class_profile_Legacy class_profile_TapScript runs_def)

section \<open>Properties\<close>

text \<open>
  every opcode has a class in both contexts (the \<open>unreachable!\<close> arm of \<open>Ordinary::with\<close> is never
  reached), and the classes partition the 256 codes as counted here: illegal, success, no-op, return,
  number, bytes, ordinary. The comments of \<open>classify\<close> count 71 opcodes from \<open>OP_CHECKSIGADD\<close> on as returns
  in the legacy context and 61 and 60 ordinary ones; there are 69, 60 and 59.
\<close>

theorem classify_partition:
  "classify op ctx \<noteq> None
   \<and> map (count_list (class_profile Legacy)) [1..<8] = [18, 0, 11, 74, 17, 76, 60]
   \<and> map (count_list (class_profile TapScript)) [1..<8] = [3, 87, 11, 3, 17, 76, 59]"
proof (intro conjI)
  show "classify op ctx \<noteq> None"
    using class_profile_total [of ctx] in_all_bytes [of op] by (force simp: class_profile_def)
  show "map (count_list (class_profile Legacy)) [1..<8] = [18, 0, 11, 74, 17, 76, 60]"
    unfolding class_profile_Legacy by code_simp
  show "map (count_list (class_profile TapScript)) [1..<8] = [3, 87, 11, 3, 17, 76, 59]"
    unfolding class_profile_TapScript by code_simp
qed

end
