(* ===== verification/Script_Instr.thy ===== *)
theory Script_Instr
  imports Opcodes
begin

text \<open>
  Reading and writing scripts instruction by instruction: script numbers and \<open>read_uint_iter\<close>
  (\<open>src/litecoin/src/blockdata/script/mod.rs\<close>), the iterator \<open>Instructions\<close> and its variant with
  positions (\<open>instruction.rs\<close>), and the writers of \<open>ScriptBuf\<close> (\<open>owned.rs\<close>). A script is its bytes. The
  iterator's state is the bytes left; \<open>kill\<close> empties it. Writers that can panic give an option.
\<close>

datatype script_error =
    NonMinimalPush
  | EarlyEndOfScript
  | NumericOverflow
  | UnknownSpentOutput "bytes \<times> u32"
  | Serialization

section \<open>Script numbers\<close>

text \<open>
  \<open>write_scriptint\<close> writes into an array of eight bytes; the model gives the part written, and
  \<^term>\<open>None\<close> when a store is out of bounds. \<open>i64\<close> values are integers of its range, \<open>unsigned_abs\<close> a
  natural number.
\<close>

definition is_i64 :: "int \<Rightarrow> bool" where
  "is_i64 n \<longleftrightarrow> - (2 ^ 63) \<le> n \<and> n < 2 ^ 63"

definition out_store :: "bytes \<Rightarrow> u8 \<Rightarrow> bytes option" where
  "out_store out b = (if length out < 8 then Some (out @ [b]) else None)"

function scriptint_loop :: "nat \<Rightarrow> bytes \<Rightarrow> (nat \<times> bytes) option" where
  "scriptint_loop a out =
     (if 255 < a
      then (case out_store out (of_nat (a mod 256)) of None \<Rightarrow> None
            | Some out' \<Rightarrow> scriptint_loop (a div 256) out')
      else Some (a, out))"
  by pat_completeness auto
termination
  by (relation "measure fst") auto

declare scriptint_loop.simps [simp del]

definition write_scriptint :: "int \<Rightarrow> bytes option" where
  "write_scriptint n =
     (if n = 0 then Some []
      else let neg = n < 0 in
        Option.bind (scriptint_loop (nat \<bar>n\<bar>) []) (\<lambda>(a, out).
          if 128 \<le> a
          then Option.bind (out_store out (of_nat a)) (\<lambda>out. out_store out (if neg then 0x80 else 0))
          else out_store out (of_nat (if neg then a + 128 else a))))"

text \<open>The fold of \<open>scriptint_parse\<close> over the bytes, with the shift it ends with.\<close>

definition scriptint_parse :: "bytes \<Rightarrow> int" where
  "scriptint_parse v =
     (let (ret, sh) = fold (\<lambda>n (acc, sh). (acc + int (unat n) * 2 ^ sh, sh + 8)) v (0, 0 :: nat)
      in if last v AND 0x80 \<noteq> 0 then - (ret mod 2 ^ (sh - 1)) else ret)"

definition read_scriptint :: "bytes \<Rightarrow> script_error + int" where
  "read_scriptint v =
     (if v = [] then Inr 0
      else if 4 < length v then Inl NumericOverflow
      else if last v AND 0x7f = 0 \<and> (length v \<le> 1 \<or> v ! (length v - 2) AND 0x80 = 0)
        then Inl NonMinimalPush
      else Inr (scriptint_parse v))"

definition read_scriptint_non_minimal :: "bytes \<Rightarrow> script_error + int" where
  "read_scriptint_non_minimal v =
     (if v = [] then Inr 0 else if 4 < length v then Inl NumericOverflow else Inr (scriptint_parse v))"

definition read_scriptbool :: "bytes \<Rightarrow> bool" where
  "read_scriptbool v =
     (if v = [] then False
      else \<not> (last v AND NOT 0x80 = 0 \<and> list_all (\<lambda>b. b = 0) (butlast v)))"

section \<open>Instructions\<close>

datatype instruction = PushBytes bytes | Op u8

text \<open>\<open>read_uint_iter\<close>: the number and the bytes left; \<open>usize\<close> is 64 bits wide.\<close>

fun read_uint_loop :: "nat \<Rightarrow> nat \<Rightarrow> bytes \<Rightarrow> script_error + nat" where
  "read_uint_loop i ret [] = Inr ret"
| "read_uint_loop i ret (item # items) =
     (if 64 \<le> i * 8 then Inl NumericOverflow
      else let s = (unat item * 2 ^ (i * 8)) mod 2 ^ 64 + ret in
        if 2 ^ 64 \<le> s then Inl NumericOverflow else read_uint_loop (i + 1) s items)"

definition read_uint_iter :: "bytes \<Rightarrow> nat \<Rightarrow> script_error + (nat \<times> bytes)" where
  "read_uint_iter data sz =
     (if length data < sz then Inl EarlyEndOfScript
      else if 65535 div 8 < sz then Inl NumericOverflow
      else and_then (read_uint_loop 0 0 (take sz data)) (\<lambda>n. Inr (n, drop sz data)))"

type_synonym item = "script_error + instruction"

definition take_slice_or_kill :: "nat \<Rightarrow> bytes \<Rightarrow> item option \<times> bytes" where
  "take_slice_or_kill len data =
     (if len \<le> length data then (Some (Inr (PushBytes (take len data))), drop len data)
      else (Some (Inl EarlyEndOfScript), []))"

definition next_push_data_len :: "bool \<Rightarrow> nat \<Rightarrow> nat \<Rightarrow> bytes \<Rightarrow> item option \<times> bytes" where
  "next_push_data_len enforce_minimal len min_push_len data =
     (case read_uint_iter data len of
        Inl e \<Rightarrow> (Some (Inl EarlyEndOfScript), [])
      | Inr (n, data') \<Rightarrow>
          if enforce_minimal \<and> n < min_push_len then (Some (Inl NonMinimalPush), [])
          else if n < 2 ^ 32 then take_slice_or_kill n data'
          else (Some (Inl NumericOverflow), data'))"

definition next_instruction :: "bool \<Rightarrow> bytes \<Rightarrow> item option \<times> bytes" where
  "next_instruction enforce_minimal data =
     (case data of [] \<Rightarrow> (None, [])
      | byte # rest \<Rightarrow>
         (case classify byte Legacy of
            Some (ClassPushBytes n) \<Rightarrow>
              (case rest of
                 op_byte # _ \<Rightarrow>
                   if enforce_minimal \<and> n = 1 \<and> (op_byte = 0x81 \<or> (0 < op_byte \<and> op_byte \<le> 16))
                   then (Some (Inl NonMinimalPush), [])
                   else take_slice_or_kill n rest
               | [] \<Rightarrow> if n = 0 then (Some (Inr (PushBytes [])), []) else take_slice_or_kill n rest)
          | Some (Ordinary op) \<Rightarrow>
              if op = OP_PUSHDATA1 then next_push_data_len enforce_minimal 1 76 rest
              else if op = OP_PUSHDATA2 then next_push_data_len enforce_minimal 2 0x100 rest
              else if op = OP_PUSHDATA4 then next_push_data_len enforce_minimal 4 0x10000 rest
              else (Some (Inr (Op byte)), rest)
          | _ \<Rightarrow> (Some (Inr (Op byte)), rest)))"

lemma take_slice_length: "take_slice_or_kill n data = (x, r) \<Longrightarrow> length r \<le> length data"
  by (auto simp: take_slice_or_kill_def split: if_splits)

lemma read_uint_iter_length: "read_uint_iter data n = Inr (k, r) \<Longrightarrow> length r \<le> length data"
  by (auto simp: read_uint_iter_def and_then_Inr_iff split: if_splits)

lemma next_push_length: "next_push_data_len m k l data = (x, r) \<Longrightarrow> length r \<le> length data"
  by (cases "read_uint_iter data k")
    (auto simp: next_push_data_len_def split: if_splits dest!: take_slice_length read_uint_iter_length)

lemma next_instruction_length: "next_instruction m data = (Some x, r) \<Longrightarrow> length r < length data"
proof (cases data)
  case (Cons b rest)
  assume n: "next_instruction m data = (Some x, r)"
  then have "length r \<le> length rest"
    unfolding next_instruction_def Cons
    by (auto split: option.splits Class.splits list.splits if_splits
        dest: take_slice_length next_push_length)
  then show "length r < length data" by (simp add: Cons)
qed (simp add: next_instruction_def)

text \<open>All the items the iterator gives.\<close>

function instructions :: "bool \<Rightarrow> bytes \<Rightarrow> item list" where
  "instructions m data =
     (case next_instruction m data of (None, _) \<Rightarrow> [] | (Some x, rest) \<Rightarrow> x # instructions m rest)"
  by pat_completeness auto
termination
  by (relation "measure (\<lambda>(m, data). length data)") (auto dest!: next_instruction_length [OF sym])

declare instructions.simps [simp del]

text \<open>\<open>InstructionIndices\<close>: the position of each instruction.\<close>

function instruction_indices :: "bool \<Rightarrow> nat \<Rightarrow> bytes \<Rightarrow> (script_error + (nat \<times> instruction)) list" where
  "instruction_indices m pos data =
     (case next_instruction m data of (None, _) \<Rightarrow> []
      | (Some x, rest) \<Rightarrow>
          (case x of Inl e \<Rightarrow> Inl e | Inr i \<Rightarrow> Inr (pos, i))
          # instruction_indices m (pos + (length data - length rest)) rest)"
  by pat_completeness auto
termination
  by (relation "measure (\<lambda>(m, pos, data). length data)") (auto dest!: next_instruction_length [OF sym])

declare instruction_indices.simps [simp del]

text \<open>Methods of \<open>Instruction\<close>.\<close>

fun opcode_of :: "instruction \<Rightarrow> u8 option" where
  "opcode_of (Op op) = Some op"
| "opcode_of (PushBytes b) = None"

fun push_bytes_of :: "instruction \<Rightarrow> bytes option" where
  "push_bytes_of (Op op) = None"
| "push_bytes_of (PushBytes b) = Some b"

fun script_num :: "instruction \<Rightarrow> int option" where
  "script_num (Op op) =
     (if 0x51 \<le> op \<and> op \<le> 0x60 then Some (uint op - 0x50)
      else if op = 0x4f then Some (- 1) else None)"
| "script_num (PushBytes b) = (case read_scriptint_non_minimal b of Inl e \<Rightarrow> None | Inr n \<Rightarrow> Some n)"

section \<open>Writing\<close>

definition reserved_len_for_slice :: "nat \<Rightarrow> nat" where
  "reserved_len_for_slice len =
     len + (if len \<le> 0x4b then 1 else if len \<le> 0xff then 2 else if len \<le> 0xffff then 3 else 5)"

fun script_serialized_len :: "instruction \<Rightarrow> nat" where
  "script_serialized_len (Op op) = 1"
| "script_serialized_len (PushBytes b) = reserved_len_for_slice (length b)"

definition push_slice_no_opt :: "bytes \<Rightarrow> bytes \<Rightarrow> bytes option" where
  "push_slice_no_opt self data =
     (let n = length data in
      if n < 76 then Some (self @ [of_nat n] @ data)
      else if n < 0x100 then Some (self @ [OP_PUSHDATA1, of_nat n] @ data)
      else if n < 0x10000
        then Some (self @ [OP_PUSHDATA2, of_nat (n mod 0x100), of_nat (n div 0x100)] @ data)
      else if n < 0x100000000
        then Some (self @ [OP_PUSHDATA4, of_nat (n mod 0x100), of_nat (n div 0x100 mod 0x100),
                           of_nat (n div 0x10000 mod 0x100), of_nat (n div 0x1000000)] @ data)
      else None)"

fun push_instruction :: "bytes \<Rightarrow> instruction \<Rightarrow> bytes option" where
  "push_instruction self (Op op) = Some (self @ [op])"
| "push_instruction self (PushBytes b) = push_slice_no_opt self b"

text \<open>
  \<open>FromIterator\<close>: both branches of \<open>extend\<close> push the instructions in order; they differ in what memory
  they reserve.
\<close>

primrec script_extend :: "bytes \<Rightarrow> instruction list \<Rightarrow> bytes option" where
  "script_extend self [] = Some self"
| "script_extend self (i # is) = Option.bind (push_instruction self i) (\<lambda>s. script_extend s is)"

definition script_from_iter :: "instruction list \<Rightarrow> bytes option" where
  "script_from_iter is = script_extend [] is"

section \<open>The reader on what the writer writes\<close>

lemma read_uint_loop_value:
  "i + length items \<le> 4 \<Longrightarrow> ret < 2 ^ (8 * i) \<Longrightarrow> read_uint_loop i ret items = Inr (ret + 2 ^ (8 * i) * le_value items)"
proof (induction items arbitrary: i ret)
  case Nil
  then show ?case by simp
next
  case (Cons b items)
  have b: "unat b \<le> 255" using u8_less_256 [of b] by linarith
  have "unat b * 2 ^ (8 * i) + ret < 2 ^ (8 * Suc i)"
  proof -
    have "unat b * 2 ^ (8 * i) \<le> 255 * 2 ^ (8 * i)" using b by simp
    then have "unat b * 2 ^ (8 * i) + ret < 255 * 2 ^ (8 * i) + 2 ^ (8 * i)" using Cons.prems(2) by linarith
    then show ?thesis by (simp add: power_add)
  qed
  moreover have "(2::nat) ^ (8 * Suc i) \<le> 2 ^ 32" using Cons.prems(1) by (intro power_increasing) auto
  ultimately have lt: "unat b * 2 ^ (8 * i) + ret < 2 ^ (8 * Suc i)" "unat b * 2 ^ (8 * i) + ret < 2 ^ 32"
    by linarith+
  then have "(unat b * 2 ^ (i * 8)) mod 2 ^ 64 = unat b * 2 ^ (8 * i)" by (simp add: mult.commute [of i])
  then have "read_uint_loop i ret (b # items) = read_uint_loop (Suc i) (unat b * 2 ^ (8 * i) + ret) items"
    using lt Cons.prems(1) by (simp add: Let_def)
  also have "\<dots> = Inr (unat b * 2 ^ (8 * i) + ret + 2 ^ (8 * Suc i) * le_value items)"
    using Cons.IH [of "Suc i"] Cons.prems(1) lt(1) by simp
  also have "2 ^ (8 * Suc i) * le_value items = 2 ^ (8 * i) * (256 * le_value items)"
    by (simp add: power_add)
  finally show ?case by (simp add: algebra_simps)
qed

lemma read_uint_iter_eq:
  "k \<le> 4 \<Longrightarrow> read_uint_iter data k =
     (if k \<le> length data then Inr (le_value (take k data), drop k data) else Inl EarlyEndOfScript)"
  using read_uint_loop_value [of 0 "take k data" 0] by (simp add: read_uint_iter_def)

lemma next_push_data_len_eq:
  assumes "k \<le> 4"
  shows "next_push_data_len m k l data =
    (if k \<le> length data
     then let n = le_value (take k data) in
       if m \<and> n < l then (Some (Inl NonMinimalPush), []) else take_slice_or_kill n (drop k data)
     else (Some (Inl EarlyEndOfScript), []))"
proof -
  have "le_value (take k data) < 2 ^ 32" if "k \<le> length data"
  proof -
    have "le_value (take k data) < 256 ^ k" using le_value_less [of "take k data"] that by simp
    also have "(256::nat) ^ k \<le> 256 ^ 4" using assms by (intro power_increasing) auto
    finally show ?thesis by simp
  qed
  then show ?thesis by (simp add: next_push_data_len_def read_uint_iter_eq [OF assms] Let_def)
qed

lemma next_push:
  "op \<le> OP_PUSHBYTES_75 \<Longrightarrow> next_instruction m (op # rest) =
     (if m \<and> op = 1 \<and> rest \<noteq> [] \<and> (hd rest = 0x81 \<or> (0 < hd rest \<and> hd rest \<le> 16))
      then (Some (Inl NonMinimalPush), []) else take_slice_or_kill (unat op) rest)"
  by (cases rest)
    (auto simp: next_instruction_def classify_push take_slice_or_kill_def word_unat_eq_iff)

lemma next_pushdata:
  "next_instruction m (OP_PUSHDATA1 # rest) = next_push_data_len m 1 76 rest"
  "next_instruction m (OP_PUSHDATA2 # rest) = next_push_data_len m 2 0x100 rest"
  "next_instruction m (OP_PUSHDATA4 # rest) = next_push_data_len m 4 0x10000 rest"
  by (simp_all add: next_instruction_def classify_pushdata)

lemma next_other: "OP_PUSHDATA4 < op \<Longrightarrow> next_instruction m (op # rest) = (Some (Inr (Op op)), rest)"
  using classify_other [of op]
  by (auto simp: next_instruction_def split: option.splits Class.splits)

lemma opcode_cases:
  obtains "(op :: u8) \<le> OP_PUSHBYTES_75" | "op = OP_PUSHDATA1" | "op = OP_PUSHDATA2" | "op = OP_PUSHDATA4"
    | "OP_PUSHDATA4 < op"
proof -
  have "unat op \<le> 75 \<or> unat op = 76 \<or> unat op = 77 \<or> unat op = 78 \<or> 78 < unat op" by linarith
  then show thesis using that by (auto simp: word_le_nat_alt word_less_nat_alt word_unat_eq_iff)
qed

text \<open>
  The instructions that are written and read back: opcodes that are not pushes, data that fits the
  push opcodes, and for the strict reader no single byte that has an opcode of its own.
\<close>

definition small_num :: "bytes \<Rightarrow> bool" where
  "small_num d \<longleftrightarrow> length d = 1 \<and> (hd d = 0x81 \<or> (0 < hd d \<and> hd d \<le> 16))"

fun instr_wf :: "bool \<Rightarrow> instruction \<Rightarrow> bool" where
  "instr_wf m (Op op) \<longleftrightarrow> OP_PUSHDATA4 < op"
| "instr_wf m (PushBytes d) \<longleftrightarrow> length d < 2 ^ 32 \<and> \<not> (m \<and> small_num d)"

definition push_header :: "nat \<Rightarrow> bytes" where
  "push_header n =
     (if n < 76 then [of_nat n] else if n < 0x100 then OP_PUSHDATA1 # le_digits 1 n
      else if n < 0x10000 then OP_PUSHDATA2 # le_digits 2 n else OP_PUSHDATA4 # le_digits 4 n)"

fun instr_ser :: "instruction \<Rightarrow> bytes" where
  "instr_ser (Op op) = [op]"
| "instr_ser (PushBytes d) = push_header (length d) @ d"

lemma of_nat_mod_256: "(of_nat (n mod 256) :: u8) = of_nat n"
  by (simp add: word_unat_eq_iff unat_u8_of_nat)

lemma le_digits_1: "le_digits 1 n = [of_nat n]"
  by simp

lemma le_digits_2: "le_digits 2 n = [of_nat n, of_nat (n div 256)]"
proof -
  have "le_digits (Suc (Suc 0)) n = [of_nat n, of_nat (n div 256)]" by simp
  then show ?thesis by (simp only: Suc_1 One_nat_def [symmetric])
qed

lemma push_slice_header:
  "length d < 2 ^ 32 \<Longrightarrow> push_slice_no_opt s d = Some (s @ push_header (length d) @ d)"
  unfolding push_slice_no_opt_def push_header_def Let_def le_digits_1 le_digits_2 le_digits_4
  by (simp add: of_nat_mod_256)

lemma push_instruction_ser: "instr_wf m i \<Longrightarrow> push_instruction s i = Some (s @ instr_ser i)"
  by (cases i) (simp_all add: push_slice_header)

lemma script_extend_ser:
  "list_all (instr_wf m) is \<Longrightarrow> script_extend s is = Some (s @ concat (map instr_ser is))"
  by (induction "is" arbitrary: s) (simp_all add: push_instruction_ser [of m])

lemma next_instr_ser:
  assumes "instr_wf m i"
  shows "next_instruction m (instr_ser i @ r) = (Some (Inr i), r)"
proof (cases i)
  case (Op op)
  then show ?thesis using assms by (simp add: next_other)
next
  case (PushBytes d)
  let ?n = "length d"
  have lt: "?n < 2 ^ 32" and small: "\<not> (m \<and> small_num d)" using assms PushBytes by simp_all
  consider "?n < 76" | "76 \<le> ?n" "?n < 0x100" | "0x100 \<le> ?n" "?n < 0x10000" | "0x10000 \<le> ?n" by linarith
  then show ?thesis
  proof cases
    case 1
    then have u: "unat (of_nat ?n :: u8) = ?n" by (simp add: unat_u8_of_nat)
    then have op: "(of_nat ?n :: u8) \<le> OP_PUSHBYTES_75" using 1 by (simp add: word_le_nat_alt)
    have "(of_nat ?n :: u8) = 1 \<longleftrightarrow> ?n = 1" using u by (metis of_nat_1 unat_1)
    then have "\<not> (m \<and> (of_nat ?n :: u8) = 1 \<and> d @ r \<noteq> [] \<and> (hd (d @ r) = 0x81 \<or> (0 < hd (d @ r) \<and> hd (d @ r) \<le> 16)))"
      using small by (auto simp: small_num_def hd_append)
    then show ?thesis
      using 1 u next_push [OF op] PushBytes by (simp add: push_header_def take_slice_or_kill_def)
  next
    case 2
    then show ?thesis
      using PushBytes by (simp add: push_header_def next_pushdata next_push_data_len_eq take_slice_or_kill_def
          le_value_digits unat_u8_of_nat)
  next
    case 3
    have "take 2 (le_digits 2 ?n @ d @ r) = le_digits 2 ?n" "drop 2 (le_digits 2 ?n @ d @ r) = d @ r" by simp_all
    moreover have "le_value (le_digits 2 ?n) = ?n" using 3 by (simp add: le_value_digits)
    ultimately show ?thesis
      using 3 PushBytes by (simp add: push_header_def next_pushdata next_push_data_len_eq take_slice_or_kill_def)
  next
    case 4
    have "take 4 (le_digits 4 ?n @ d @ r) = le_digits 4 ?n" "drop 4 (le_digits 4 ?n @ d @ r) = d @ r" by simp_all
    moreover have "le_value (le_digits 4 ?n) = ?n" using lt by (simp add: le_value_digits)
    ultimately show ?thesis
      using 4 PushBytes by (simp add: push_header_def next_pushdata next_push_data_len_eq take_slice_or_kill_def)
  qed
qed

lemma instructions_ser:
  "list_all (instr_wf m) is \<Longrightarrow> instructions m (concat (map instr_ser is)) = map Inr is"
proof (induction "is")
  case Nil
  then show ?case by (simp add: instructions.simps next_instruction_def)
next
  case (Cons i "is")
  then show ?case by (subst instructions.simps) (simp add: next_instr_ser)
qed

section \<open>What the reader accepts\<close>

text \<open>
  An instruction read is well-formed, a prefix of the data was consumed, and the writer never needs
  more bytes for it than it had. The strict reader consumes exactly what the writer writes.
\<close>

lemma take_slice_Inr:
  "take_slice_or_kill n data = (Some (Inr i), r) \<longleftrightarrow> (\<exists>d. i = PushBytes d \<and> length d = n \<and> data = d @ r)"
  by (auto simp: take_slice_or_kill_def)

lemma take_slice_Inl: "take_slice_or_kill n data = (Some (Inl e), r) \<Longrightarrow> e = EarlyEndOfScript \<and> r = []"
  by (auto simp: take_slice_or_kill_def split: if_splits)

lemma length_push_header: "length (push_header n) = (if n < 76 then 1 else if n < 256 then 2 else if n < 65536 then 3 else 5)"
  by (simp add: push_header_def)

lemma next_push_data_len_Inr:
  assumes "k \<le> 4" and "next_push_data_len m k l data = (Some (Inr i), r)"
  obtains d where "i = PushBytes d" "data = le_digits k (length d) @ d @ r" "length d < 256 ^ k"
    "m \<Longrightarrow> l \<le> length d"
proof -
  let ?n = "le_value (take k data)"
  have k: "k \<le> length data" and nm: "\<not> (m \<and> ?n < l)" and t: "take_slice_or_kill ?n (drop k data) = (Some (Inr i), r)"
    using assms(2) by (auto simp: next_push_data_len_eq [OF assms(1)] Let_def split: if_splits)
  from t obtain d where d: "i = PushBytes d" "length d = ?n" "drop k data = d @ r"
    by (auto simp: take_slice_Inr)
  have "take k data = le_digits k (length d)"
    using le_digits_value [of "take k data"] k d(2) by simp
  then have "data = le_digits k (length d) @ d @ r" using d(3) by (metis append_take_drop_id)
  moreover have "length d < 256 ^ k" using le_value_less [of "take k data"] k d(2) by simp
  ultimately show thesis using that d nm by auto
qed

lemma next_push_data_len_Inl:
  assumes "k \<le> 4" and "next_push_data_len m k l data = (Some (Inl e), r)"
  shows "r = [] \<and> e \<in> {NonMinimalPush, EarlyEndOfScript}"
  using assms(2) by (auto simp: next_push_data_len_eq [OF assms(1)] Let_def split: if_splits dest: take_slice_Inl)

lemma next_instruction_Inl:
  assumes "next_instruction m data = (Some (Inl e), r)"
  shows "r = [] \<and> e \<in> {NonMinimalPush, EarlyEndOfScript}"
proof (cases data)
  case Nil
  then show ?thesis using assms by (simp add: next_instruction_def)
next
  case (Cons op rest)
  show ?thesis
    by (rule opcode_cases [of op])
      (use assms Cons in \<open>auto simp: next_push next_pushdata next_other split: if_splits
         dest: take_slice_Inl next_push_data_len_Inl [rotated]\<close>)
qed

lemma next_instruction_Inr:
  assumes "next_instruction m data = (Some (Inr i), r)"
  shows "instr_wf m i \<and> (\<exists>c. data = c @ r \<and> length (instr_ser i) \<le> length c \<and> (m \<longrightarrow> c = instr_ser i))"
proof (cases data)
  case Nil
  then show ?thesis using assms by (simp add: next_instruction_def)
next
  case (Cons op rest)
  show ?thesis
  proof (rule opcode_cases [of op])
    assume op: "op \<le> OP_PUSHBYTES_75"
    then obtain d where d: "i = PushBytes d" "length d = unat op" "rest = d @ r"
      "\<not> (m \<and> op = 1 \<and> rest \<noteq> [] \<and> (hd rest = 0x81 \<or> (0 < hd rest \<and> hd rest \<le> 16)))"
      using assms Cons by (auto simp: next_push take_slice_Inr split: if_splits)
    have "op = of_nat (length d)" using d(2) by simp
    moreover have "length d < 76" using op d(2) by (simp add: word_le_nat_alt)
    moreover have "\<not> (m \<and> small_num d)"
      using d by (cases d) (auto simp: small_num_def word_unat_eq_iff)
    ultimately show ?thesis using d Cons by (simp add: push_header_def)
  next
    assume "op = OP_PUSHDATA1"
    then have "next_push_data_len m 1 76 rest = (Some (Inr i), r)" using assms Cons by (simp add: next_pushdata)
    then obtain d where "i = PushBytes d" "rest = le_digits 1 (length d) @ d @ r" "length d < 256 ^ 1"
      "m \<Longrightarrow> 76 \<le> length d" by (rule next_push_data_len_Inr [rotated]) auto
    then show ?thesis
      using Cons \<open>op = OP_PUSHDATA1\<close>
      by (auto simp: push_header_def small_num_def intro!: exI [of _ "OP_PUSHDATA1 # le_digits 1 (length d) @ d"])
  next
    assume "op = OP_PUSHDATA2"
    then have "next_push_data_len m 2 0x100 rest = (Some (Inr i), r)" using assms Cons by (simp add: next_pushdata)
    then obtain d where "i = PushBytes d" "rest = le_digits 2 (length d) @ d @ r" "length d < 256 ^ 2"
      "m \<Longrightarrow> 0x100 \<le> length d" by (rule next_push_data_len_Inr [rotated]) auto
    then show ?thesis
      using Cons \<open>op = OP_PUSHDATA2\<close>
      by (auto simp: push_header_def small_num_def intro!: exI [of _ "OP_PUSHDATA2 # le_digits 2 (length d) @ d"])
  next
    assume "op = OP_PUSHDATA4"
    then have "next_push_data_len m 4 0x10000 rest = (Some (Inr i), r)" using assms Cons by (simp add: next_pushdata)
    then obtain d where "i = PushBytes d" "rest = le_digits 4 (length d) @ d @ r" "length d < 256 ^ 4"
      "m \<Longrightarrow> 0x10000 \<le> length d" by (rule next_push_data_len_Inr [rotated]) auto
    then show ?thesis
      using Cons \<open>op = OP_PUSHDATA4\<close>
      by (auto simp: push_header_def small_num_def intro!: exI [of _ "OP_PUSHDATA4 # le_digits 4 (length d) @ d"])
  next
    assume "OP_PUSHDATA4 < op"
    then show ?thesis using assms Cons by (auto simp: next_other)
  qed
qed

lemma next_instruction_None: "next_instruction m data = (None, r) \<Longrightarrow> data = []"
proof (cases data)
  case (Cons op rest)
  assume n: "next_instruction m data = (None, r)"
  have "data = []"
    by (rule opcode_cases [of op])
      (use n Cons in \<open>auto simp: next_push next_pushdata next_other next_push_data_len_eq
         take_slice_or_kill_def Let_def split: if_splits\<close>)
  then show ?thesis .
qed simp

lemma instructions_next:
  "next_instruction m data = (x, r) \<Longrightarrow>
     instructions m data = (case x of None \<Rightarrow> [] | Some y \<Rightarrow> y # instructions m r)"
  by (subst instructions.simps) (simp split: option.split)

lemma instructions_Nil: "instructions m [] = []"
  by (simp add: instructions.simps next_instruction_def)

lemma instructions_error_last_aux:
  "\<exists>is. instructions m data = map Inr is \<or> (\<exists>e. instructions m data = map Inr is @ [Inl e])"
proof (induction "length data" arbitrary: data rule: less_induct)
  case less
  obtain x r where n: "next_instruction m data = (x, r)" by fastforce
  show ?case
  proof (cases x)
    case None
    then have "instructions m data = map Inr []" using n by (simp add: instructions.simps)
    then show ?thesis by blast
  next
    case (Some y)
    show ?thesis
    proof (cases y)
      case (Inl e)
      then have "instructions m data = map Inr [] @ [Inl e]"
        using n Some next_instruction_Inl [of m data e r]
        by (subst instructions.simps) (simp add: instructions_Nil)
      then show ?thesis by blast
    next
      case (Inr i)
      obtain "is" where "instructions m r = map Inr is \<or> (\<exists>e. instructions m r = map Inr is @ [Inl e])"
        using less.hyps [of r] next_instruction_length [of m data y r] n Some by blast
      moreover have "instructions m data = Inr i # instructions m r"
        using n Some Inr by (subst instructions.simps) simp
      ultimately have "instructions m data = map Inr (i # is) \<or> (\<exists>e. instructions m data = map Inr (i # is) @ [Inl e])"
        by auto
      then show ?thesis by blast
    qed
  qed
qed

lemma instructions_parsed:
  "instructions m data = map Inr is \<Longrightarrow> list_all (instr_wf m) is
     \<and> length (concat (map instr_ser is)) \<le> length data \<and> (m \<longrightarrow> data = concat (map instr_ser is))"
proof (induction "is" arbitrary: data)
  case Nil
  obtain x r where n: "next_instruction m data = (x, r)" by fastforce
  then have "x = None" using Nil instructions_next [OF n] by (auto split: option.splits)
  then show ?case using n next_instruction_None by simp
next
  case (Cons i "is")
  obtain x r where n: "next_instruction m data = (x, r)" by fastforce
  then have x: "x = Some (Inr i)" "instructions m r = map Inr is"
    using Cons.prems instructions_next [OF n] by (auto split: option.splits)
  then show ?case
    using Cons.IH [OF x(2)] next_instruction_Inr [of m data i r] n by auto
qed

section \<open>Positions\<close>

lemma instruction_indices_Nil: "instruction_indices m pos [] = []"
  by (simp add: instruction_indices.simps next_instruction_def)

lemma instruction_indices_at:
  assumes "Inr (p, i) \<in> set (instruction_indices m pos data)" and "data = drop pos s" and "pos \<le> length s"
  shows "p < length s \<and> (\<exists>r. next_instruction m (drop p s) = (Some (Inr i), r))"
  using assms
proof (induction "length data" arbitrary: data pos rule: less_induct)
  case less
  obtain x r where n: "next_instruction m data = (x, r)" by fastforce
  then obtain y where y: "x = Some y"
    using less.prems(1) by (cases x) (simp_all add: instruction_indices.simps [of m pos data])
  have len: "length r < length data" using n y next_instruction_length by blast
  have ix: "instruction_indices m pos data = (case y of Inl e \<Rightarrow> Inl e | Inr i \<Rightarrow> Inr (pos, i))
      # instruction_indices m (pos + (length data - length r)) r"
    using n y by (subst instruction_indices.simps) simp
  show ?case
  proof (cases "y = Inr i \<and> p = pos")
    case True
    then show ?thesis using less.prems n y len by auto
  next
    case False
    then have rec: "Inr (p, i) \<in> set (instruction_indices m (pos + (length data - length r)) r)"
      using less.prems(1) unfolding ix by (auto split: sum.splits)
    then have "r \<noteq> []" by (auto simp: instruction_indices_Nil)
    then obtain j where j: "y = Inr j" using n y next_instruction_Inl by (cases y) blast+
    then obtain c where c: "data = c @ r" using n y next_instruction_Inr by blast
    then have "drop (length c) data = r" by simp
    moreover have k: "length data - length r = length c" using c by simp
    ultimately have "r = drop (pos + (length data - length r)) s"
      unfolding k using less.prems(2) by (simp add: add.commute)
    moreover have "pos + (length data - length r) \<le> length s" using less.prems(2,3) c by auto
    ultimately show ?thesis using less.hyps [OF len rec] by blast
  qed
qed

lemma instruction_indices_instructions:
  "map (map_sum id snd) (instruction_indices m pos data) = instructions m data"
proof (induction "length data" arbitrary: data pos rule: less_induct)
  case less
  obtain x r where n: "next_instruction m data = (x, r)" by fastforce
  show ?case
  proof (cases x)
    case None
    then show ?thesis using n by (simp add: instruction_indices.simps instructions_next)
  next
    case (Some y)
    then have "length r < length data" using n next_instruction_length by blast
    from less [OF this] n Some show ?thesis
      by (subst instruction_indices.simps) (auto simp: instructions_next split: sum.split)
  qed
qed

section \<open>Script numbers: facts\<close>

lemma u8_sign: "(b :: u8) AND 0x80 = 0 \<longleftrightarrow> unat b < 128" and u8_rest: "(b :: u8) AND 0x7f = 0 \<longleftrightarrow> unat b mod 128 = 0"
proof -
  have "list_all (\<lambda>b :: u8. (b AND 0x80 = 0 \<longleftrightarrow> b < 0x80) \<and> (b AND 0x7f = 0 \<longleftrightarrow> b = 0 \<or> b = 0x80)) all_bytes"
    by code_simp
  from all_bytesI [OF this, of b]
  have b: "b AND 0x80 = 0 \<longleftrightarrow> b < 0x80" "b AND 0x7f = 0 \<longleftrightarrow> b = 0 \<or> b = 0x80" by blast+
  show "b AND 0x80 = 0 \<longleftrightarrow> unat b < 128" using b(1) by (simp add: word_less_nat_alt)
  have "unat b < 256" by simp
  then have "unat b mod 128 = 0 \<longleftrightarrow> unat b = 0 \<or> unat b = 128" by presburger
  then show "b AND 0x7f = 0 \<longleftrightarrow> unat b mod 128 = 0" using b(2) by (simp add: word_unat_eq_iff)
qed

lemma scriptint_fold:
  "fold (\<lambda>n (acc, sh). (acc + int (unat n) * 2 ^ sh, sh + 8)) v (acc, sh :: nat)
     = (acc + 2 ^ sh * int (le_value v), sh + 8 * length v)"
  by (induction v arbitrary: acc sh) (simp_all add: algebra_simps power_add)

lemma scriptint_parse_snoc:
  "scriptint_parse (ds @ [b]) =
     (let a = int (le_value ds + 256 ^ length ds * (unat b mod 128)) in
      if unat b < 128 then a else - a)"
proof -
  let ?k = "length ds"
  have p: "(2::nat) ^ (8 * ?k + 7) = 256 ^ ?k * 128" by (simp add: power_add power_256)
  have "le_value ds < 256 ^ ?k" by (rule le_value_less)
  have "le_value ds + 256 ^ ?k * (unat b mod 128) < 2 ^ (8 * ?k + 7)"
  proof -
    have "unat b mod 128 \<le> 127" by simp
    then have "256 ^ ?k * (unat b mod 128) \<le> 256 ^ ?k * 127" by (rule mult_le_mono2)
    then show ?thesis using le_value_less [of ds] unfolding p by linarith
  qed
  moreover have "le_value ds + 256 ^ ?k * unat b =
      le_value ds + 256 ^ ?k * (unat b mod 128) + 2 ^ (8 * ?k + 7) * (unat b div 128)"
  proof -
    have "256 ^ ?k * unat b = 256 ^ ?k * (unat b mod 128 + 128 * (unat b div 128))" by simp
    then show ?thesis unfolding p by (simp only: distrib_left mult.assoc add.assoc)
  qed
  ultimately have m: "(le_value ds + 256 ^ ?k * unat b) mod 2 ^ (8 * ?k + 7) = le_value ds + 256 ^ ?k * (unat b mod 128)"
    by (simp only: mod_mult_self2 mod_less)
  have "scriptint_parse (ds @ [b]) = (if unat b < 128 then int (le_value ds + 256 ^ ?k * unat b)
      else - (int (le_value ds + 256 ^ ?k * unat b) mod 2 ^ (8 * ?k + 7)))"
    unfolding scriptint_parse_def scriptint_fold by (simp add: u8_sign le_value_append Let_def add.commute [of 7])
  also have "int (le_value ds + 256 ^ ?k * unat b) mod 2 ^ (8 * ?k + 7)
      = int ((le_value ds + 256 ^ ?k * unat b) mod 2 ^ (8 * ?k + 7))"
    by (simp add: zmod_int)
  finally show ?thesis using m by (simp add: Let_def)
qed

text \<open>The magnitude loop: digits below, the top digit returned.\<close>

lemma scriptint_loop_eq:
  assumes "a < 256 ^ (8 - length out)" and "length out < 8"
  shows "\<exists>t ds. scriptint_loop a out = Some (t, out @ ds) \<and> t \<le> 255 \<and> length out + length ds < 8
           \<and> a = le_value ds + 256 ^ length ds * t \<and> (0 < a \<longrightarrow> 0 < t)"
  using assms
proof (induction a arbitrary: out rule: less_induct)
  case (less a)
  show ?case
  proof (cases "255 < a")
    case False
    then show ?thesis using less.prems by (subst scriptint_loop.simps) auto
  next
    case True
    have l7: "length out < 7"
    proof (rule ccontr)
      assume "\<not> length out < 7"
      then have "8 - length out = 1" using less.prems(2) by simp
      then show False using less.prems(1) True by simp
    qed
    let ?out = "out @ [of_nat (a mod 256)]"
    have "256 ^ (8 - length out) = 256 * (256::nat) ^ (8 - length ?out)"
      using l7 by (simp add: Suc_diff_Suc flip: power_Suc)
    then have lt: "a div 256 < 256 ^ (8 - length ?out)"
      using less.prems(1) by (simp add: less_mult_imp_div_less mult.commute)
    have "a div 256 < a" "length ?out < 8" using True l7 by simp_all
    from less.IH [OF this(1) lt this(2)] obtain t ds where
      r: "scriptint_loop (a div 256) ?out = Some (t, ?out @ ds)" "t \<le> 255" "length ?out + length ds < 8"
        "a div 256 = le_value ds + 256 ^ length ds * t" "0 < a div 256 \<longrightarrow> 0 < t"
      by (elim exE conjE) (rule that)
    have "scriptint_loop a out = Some (t, out @ of_nat (a mod 256) # ds)"
      using True r(1) l7 by (subst scriptint_loop.simps) (simp add: out_store_def)
    moreover have "a = le_value (of_nat (a mod 256) # ds) + 256 ^ length (of_nat (a mod 256) # ds :: bytes) * t"
      using div_mult_mod_eq [of a 256] unfolding r(4) by (simp add: unat_u8_of_nat algebra_simps)
    moreover have "0 < t" using r(5) True by simp
    ultimately show ?thesis using r(2,3) by (intro exI [of _ t] exI [of _ "of_nat (a mod 256) # ds"]) simp
  qed
qed

text \<open>
  The bytes written for a number: digits, and a top byte with the sign bit (a byte of its own when the
  top digit uses that bit).
\<close>

lemma write_scriptint_form:
  assumes "n \<noteq> 0" and "is_i64 n" and "n \<noteq> - (2 ^ 63)"
  obtains ds b where "write_scriptint n = Some (ds @ [b])" "length ds < 8" "unat b < 128 \<longleftrightarrow> 0 < n"
    "nat \<bar>n\<bar> = le_value ds + 256 ^ length ds * (unat b mod 128)"
    "unat b mod 128 = 0 \<longrightarrow> ds \<noteq> [] \<and> 128 \<le> unat (last ds)"
proof -
  let ?a = "nat \<bar>n\<bar>"
  have a: "?a < 2 ^ 63" "0 < ?a" using assms by (auto simp: is_i64_def)
  have "(2::nat) ^ 63 \<le> 256 ^ 8" by simp
  then have "?a < 256 ^ (8 - length ([] :: bytes))" using a(1) by simp
  from scriptint_loop_eq [OF this] obtain t ds where
    l: "scriptint_loop ?a [] = Some (t, ds)" "t \<le> 255" "length ds < 8" "?a = le_value ds + 256 ^ length ds * t" "0 < t"
    using a(2) by auto
  show thesis
  proof (cases "128 \<le> t")
    case True
    have len: "length ds < 7"
    proof (rule ccontr)
      assume "\<not> length ds < 7"
      then have "length ds = 7" using l(3) by simp
      then have "256 ^ 7 * 128 \<le> ?a" unfolding l(4) using True by simp
      then show False using a(1) by simp
    qed
    let ?b = "if n < 0 then 0x80 else 0 :: u8"
    have "write_scriptint n = Some ((ds @ [of_nat t]) @ [?b])"
      using assms(1) l True len by (simp add: write_scriptint_def out_store_def Let_def)
    moreover have "?a = le_value (ds @ [of_nat t]) + 256 ^ length (ds @ [of_nat t :: u8]) * (unat ?b mod 128)"
      using l(2,4) by (simp add: le_value_append unat_u8_of_nat)
    moreover have "unat ?b < 128 \<longleftrightarrow> 0 < n" using assms(1) by auto
    moreover have "128 \<le> unat (last (ds @ [of_nat t :: u8]))" using True l(2) by (simp add: unat_u8_of_nat)
    ultimately show thesis using that [of "ds @ [of_nat t]" ?b] len by simp
  next
    case False
    let ?b = "of_nat (if n < 0 then t + 128 else t) :: u8"
    have b: "unat ?b = (if n < 0 then t + 128 else t)" using False by (simp add: unat_u8_of_nat)
    have "write_scriptint n = Some (ds @ [?b])"
      using assms(1) l False by (simp add: write_scriptint_def out_store_def Let_def)
    moreover have "?a = le_value ds + 256 ^ length ds * (unat ?b mod 128)"
      using l(4) False unfolding b by simp
    moreover have "unat ?b < 128 \<longleftrightarrow> 0 < n" using assms(1) False unfolding b by auto
    moreover have "unat ?b mod 128 \<noteq> 0" using l(5) False unfolding b by auto
    ultimately show thesis using that [of ds ?b] l(3) by simp
  qed
qed

lemma scriptint_loop_digits:
  assumes "0 < t" "t \<le> 255" "length out + length ds < 8"
  shows "scriptint_loop (le_value ds + 256 ^ length ds * t) out = Some (t, out @ ds)"
  using assms(3)
proof (induction ds arbitrary: out)
  case Nil
  then show ?case using assms by (simp add: scriptint_loop.simps)
next
  case (Cons d ds)
  let ?a = "le_value (d # ds) + 256 ^ length (d # ds) * t"
  have "?a = unat d + 256 * (le_value ds + 256 ^ length ds * t)" by (simp add: algebra_simps)
  moreover have "unat d < 256" by simp
  ultimately have a: "?a mod 256 = unat d" "?a div 256 = le_value ds + 256 ^ length ds * t"
    by (simp_all only: mod_mult_self2 mod_less div_mult_self2 div_less)
  have "256 \<le> 256 ^ length (d # ds) * t" using assms(1) by (simp add: Suc_leI)
  then have "255 < ?a" by linarith
  then have "scriptint_loop ?a out = scriptint_loop (?a div 256) (out @ [of_nat (?a mod 256)])"
    using Cons.prems by (subst scriptint_loop.simps) (simp add: out_store_def)
  then show ?case unfolding a using Cons.IH [of "out @ [d]"] Cons.prems by simp
qed

text \<open>What the strict reader accepts is minimal: the top byte says more than the sign, or has to be there.\<close>

definition scriptint_minimal :: "bytes \<Rightarrow> u8 \<Rightarrow> bool" where
  "scriptint_minimal ds b \<longleftrightarrow> (unat b mod 128 = 0 \<longrightarrow> ds \<noteq> [] \<and> 128 \<le> unat (last ds))"

lemma read_scriptint_snoc:
  "read_scriptint (ds @ [b]) = (if 3 < length ds then Inl NumericOverflow
     else if scriptint_minimal ds b then Inr (scriptint_parse (ds @ [b])) else Inl NonMinimalPush)"
proof -
  have "(ds @ [b]) ! (length (ds @ [b]) - 2) = last ds" if "ds \<noteq> []"
    using that by (simp add: nth_append last_conv_nth)
  then show ?thesis
    by (cases "ds = []") (auto simp: read_scriptint_def u8_rest u8_sign scriptint_minimal_def)
qed

lemma scriptint_parse_abs:
  "nat \<bar>scriptint_parse (ds @ [b])\<bar> = le_value ds + 256 ^ length ds * (unat b mod 128)"
  unfolding scriptint_parse_snoc Let_def by (simp only: if_distrib [of abs] abs_minus_cancel abs_of_nat if_cancel nat_int)

lemma scriptint_parse_neg:
  "scriptint_parse (ds @ [b]) < 0 \<longleftrightarrow> \<not> unat b < 128 \<and> 0 < le_value ds + 256 ^ length ds * (unat b mod 128)"
  unfolding scriptint_parse_snoc Let_def
  by (cases "unat b < 128") (simp_all only: if_True if_False neg_less_0_iff_less of_nat_less_0_iff of_nat_0_less_iff, simp_all)

lemma mod_128: "(m::nat) < 256 \<Longrightarrow> m mod 128 = (if m < 128 then m else m - 128)"
  by (simp add: le_mod_geq)

lemma nat_abs_less: "\<bar>n :: int\<bar> < 2 ^ 31 \<longleftrightarrow> nat \<bar>n\<bar> < 2 ^ 31"
  by (simp add: nat_less_iff)

lemma scriptint_magnitude_pos:
  assumes "scriptint_minimal ds b"
  shows "0 < le_value ds + 256 ^ length ds * (unat b mod 128)"
proof (cases "unat b mod 128 = 0")
  case True
  then obtain xs x where "ds = xs @ [x]" "128 \<le> unat x"
    using assms by (metis scriptint_minimal_def append_butlast_last_id)
  then show ?thesis by (simp add: le_value_append)
qed simp

lemma write_scriptint_minimal:
  assumes min: "scriptint_minimal ds b" and len: "length ds < 8"
    and n: "n = scriptint_parse (ds @ [b])"
  shows "write_scriptint n = Some (ds @ [b])"
proof -
  let ?a = "le_value ds + 256 ^ length ds * (unat b mod 128)"
  have pos: "0 < ?a" using scriptint_magnitude_pos [OF min] .
  have abs: "nat \<bar>n\<bar> = ?a" unfolding n by (rule scriptint_parse_abs)
  have neg: "n < 0 \<longleftrightarrow> \<not> unat b < 128" unfolding n scriptint_parse_neg using pos by blast
  have nz: "n \<noteq> 0"
  proof
    assume "n = 0"
    then have "?a = 0" unfolding abs [symmetric] by simp
    then show False using pos by linarith
  qed
  show ?thesis
  proof (cases "unat b mod 128 = 0")
    case False
    have "of_nat (if n < 0 then unat b mod 128 + 128 else unat b mod 128) = b"
    proof -
      have "unat b mod 128 = (if unat b < 128 then unat b else unat b - 128)" by (rule mod_128) simp
      then have "(if n < 0 then unat b mod 128 + 128 else unat b mod 128) = unat b"
        unfolding neg by auto
      then show ?thesis by simp
    qed
    moreover have "scriptint_loop ?a [] = Some (unat b mod 128, ds)"
      using scriptint_loop_digits [of "unat b mod 128" "[]" ds] False len by simp
    ultimately show ?thesis
      using nz len unfolding write_scriptint_def abs by (simp add: out_store_def Let_def)
  next
    case True
    then obtain xs x where ds: "ds = xs @ [x]" "128 \<le> unat x"
      using min by (metis scriptint_minimal_def append_butlast_last_id)
    have "unat b < 256" "unat x \<le> 255" using u8_less_256 [of b] u8_less_256 [of x] by linarith+
    then have "scriptint_loop ?a [] = Some (unat x, xs)"
      using scriptint_loop_digits [of "unat x" "[]" xs] ds len True by (simp add: le_value_append)
    moreover have "b = (if n < 0 then 0x80 else 0)"
      using True mod_128 [OF \<open>unat b < 256\<close>] unfolding neg word_unat_eq_iff by (auto split: if_splits)
    ultimately show ?thesis
      using nz len ds unfolding write_scriptint_def abs by (simp add: out_store_def Let_def)
  qed
qed

lemma scriptint_value_bound:
  assumes "length ds \<le> 3"
  shows "\<bar>scriptint_parse (ds @ [b])\<bar> < 2 ^ 31"
proof -
  have "le_value ds < 256 ^ length ds" by (rule le_value_less)
  moreover have "256 ^ length ds * (unat b mod 128) \<le> 256 ^ length ds * 127" by (intro mult_le_mono2) simp
  ultimately have "le_value ds + 256 ^ length ds * (unat b mod 128) < 256 ^ length ds * 128" by linarith
  also have "\<dots> \<le> 256 ^ 3 * 128" using assms by (intro mult_le_mono1 power_increasing) auto
  finally have "le_value ds + 256 ^ length ds * (unat b mod 128) < 2 ^ 31" by simp
  then show ?thesis unfolding nat_abs_less scriptint_parse_abs .
qed

lemma scriptint_short:
  assumes "scriptint_minimal ds b" and "\<bar>scriptint_parse (ds @ [b])\<bar> < 2 ^ 31"
  shows "length ds \<le> 3"
proof (rule ccontr)
  assume "\<not> length ds \<le> 3"
  then have l: "4 \<le> length ds" by simp
  have "2 ^ 31 \<le> le_value ds + 256 ^ length ds * (unat b mod 128)"
  proof (cases "unat b mod 128 = 0")
    case True
    then obtain xs x where ds: "ds = xs @ [x]" "128 \<le> unat x"
      using assms(1) by (metis scriptint_minimal_def append_butlast_last_id)
    have "(256::nat) ^ 3 * 128 \<le> 256 ^ length xs * unat x"
      using l ds by (intro mult_le_mono power_increasing) auto
    then show ?thesis using ds by (simp add: le_value_append)
  next
    case False
    have "(256::nat) ^ 4 * 1 \<le> 256 ^ length ds * (unat b mod 128)"
      using l False by (intro mult_le_mono power_increasing) auto
    then show ?thesis by simp
  qed
  then show False
    using assms(2) unfolding nat_abs_less scriptint_parse_abs by linarith
qed

lemma le_value_zeros: "le_value (replicate k 0) = 0"
  by (induction k) simp_all

lemma write_scriptint_0: "write_scriptint 0 = Some []"
  by (simp add: write_scriptint_def)

lemma read_scriptint_write:
  "read_scriptint v = Inr n \<longleftrightarrow> write_scriptint n = Some v \<and> \<bar>n\<bar> < 2 ^ 31"
proof (cases v rule: rev_cases)
  case Nil
  have "n = 0" if w: "write_scriptint n = Some []" "\<bar>n\<bar> < 2 ^ 31"
  proof (rule ccontr)
    assume "n \<noteq> 0"
    moreover from w(2) have "is_i64 n" "n \<noteq> - (2 ^ 63)" by (auto simp: is_i64_def)
    ultimately obtain ds b where "write_scriptint n = Some (ds @ [b])" by (rule write_scriptint_form)
    with w(1) show False by simp
  qed
  then show ?thesis using Nil write_scriptint_0 by (auto simp: read_scriptint_def)
next
  case (snoc ds b)
  show ?thesis
  proof
    assume r: "read_scriptint v = Inr n"
    then have m: "length ds \<le> 3" "scriptint_minimal ds b" "n = scriptint_parse (ds @ [b])"
      unfolding snoc read_scriptint_snoc by (auto split: if_splits)
    then show "write_scriptint n = Some v \<and> \<bar>n\<bar> < 2 ^ 31"
      using write_scriptint_minimal [OF m(2) _ m(3)] scriptint_value_bound [OF m(1), of b] snoc by simp
  next
    assume w: "write_scriptint n = Some v \<and> \<bar>n\<bar> < 2 ^ 31"
    then have "n \<noteq> 0" using snoc write_scriptint_0 by auto
    moreover from w have "is_i64 n" "n \<noteq> - (2 ^ 63)" by (auto simp: is_i64_def)
    ultimately have "n \<noteq> 0" "is_i64 n" "n \<noteq> - (2 ^ 63)" by blast+
    then obtain ds' b' where f: "write_scriptint n = Some (ds' @ [b'])" "length ds' < 8" "unat b' < 128 \<longleftrightarrow> 0 < n"
      "nat \<bar>n\<bar> = le_value ds' + 256 ^ length ds' * (unat b' mod 128)"
      and m: "unat b' mod 128 = 0 \<longrightarrow> ds' \<noteq> [] \<and> 128 \<le> unat (last ds')"
      by (rule write_scriptint_form)
    have min: "scriptint_minimal ds' b'" using m by (simp add: scriptint_minimal_def)
    from f have eq: "ds' = ds" "b' = b" using w snoc by simp_all
    have "scriptint_parse (ds @ [b]) = n"
      using f(3,4) \<open>n \<noteq> 0\<close> scriptint_parse_abs [of ds b] scriptint_parse_neg [of ds b] unfolding eq by linarith
    then show "read_scriptint v = Inr n"
      using min scriptint_short [of ds b] w unfolding snoc read_scriptint_snoc eq by auto
  qed
qed

section \<open>Properties\<close>

text \<open>
  reading a script number and writing it are inverse to each other, exactly on the numbers of at
  most 31 bits: a byte string reads as \<open>n\<close> if and only if it is what \<open>n\<close> is written as and \<open>n\<close> is in
  range.
\<close>

theorem scriptint_roundtrip:
  "read_scriptint v = Inr n \<longleftrightarrow> write_scriptint n = Some v \<and> \<bar>n\<bar> < 2 ^ 31"
  by (rule read_scriptint_write)

text \<open>
  \<open>write_scriptint\<close> stores within its eight bytes for every \<open>i64\<close> but the least one, for which it
  stores past the end (so \<open>push_int(i64::MIN)\<close> panics).
\<close>

theorem scriptint_min_panics:
  assumes "is_i64 n"
  shows "write_scriptint n = None \<longleftrightarrow> n = - (2 ^ 63)"
proof
  assume "write_scriptint n = None"
  then show "n = - (2 ^ 63)"
    using assms write_scriptint_form [of n] write_scriptint_0 by (metis option.distinct(1))
next
  assume n: "n = - (2 ^ 63)"
  have "scriptint_loop (le_value (replicate 7 0) + 256 ^ length (replicate 7 (0::u8)) * 128) []
      = Some (128, [] @ replicate 7 0)"
    by (rule scriptint_loop_digits) simp_all
  moreover have "le_value (replicate 7 0) + 256 ^ length (replicate 7 (0::u8)) * 128 = nat \<bar>n\<bar>"
    unfolding n le_value_zeros by simp
  ultimately show "write_scriptint n = None"
    using n by (simp add: write_scriptint_def out_store_def)
qed

theorem scriptint_min_panics_witness:
  "is_i64 (- (2 ^ 63)) \<and> write_scriptint (- (2 ^ 63)) = None"
proof -
  have i: "is_i64 (- (2 ^ 63))" by (simp add: is_i64_def)
  from i scriptint_min_panics [OF i] show ?thesis by simp
qed

text \<open>
  C21: the strict iterator reads a script as a list of instructions without an error exactly when the
  instructions are well formed (an opcode above \<open>OP_PUSHDATA4\<close>, or a push of less than \<open>2 ^ 32\<close> bytes that are
  not a number with an opcode of its own) and the writer writes the list as that script.
\<close>

theorem minimal_script_roundtrip:
  "instructions True s = map Inr is \<longleftrightarrow> list_all (instr_wf True) is \<and> script_from_iter is = Some s"
proof
  assume "instructions True s = map Inr is"
  from instructions_parsed [OF this] show "list_all (instr_wf True) is \<and> script_from_iter is = Some s"
    by (simp add: script_from_iter_def script_extend_ser [of True])
next
  assume a: "list_all (instr_wf True) is \<and> script_from_iter is = Some s"
  then have "s = concat (map instr_ser is)"
    using script_extend_ser [of True "is" "[]"] by (simp add: script_from_iter_def)
  then show "instructions True s = map Inr is" using instructions_ser [of True "is"] a by simp
qed

text \<open>
  writing the instructions of any script that parses gives a script with the same instructions
  that is no longer than the original.
\<close>

theorem rewriting_script:
  assumes "instructions False s = map Inr is"
  shows "\<exists>s'. script_from_iter is = Some s' \<and> instructions False s' = map Inr is \<and> length s' \<le> length s"
  using instructions_parsed [OF assms] instructions_ser [of False "is"]
  by (simp add: script_from_iter_def script_extend_ser [of False])

theorem rewriting_script_witness:
  "instructions False [OP_PUSHDATA1, 1, 7, OP_DUP] = map Inr [PushBytes [7], Op OP_DUP]
   \<and> (\<exists>s'. script_from_iter [PushBytes [7], Op OP_DUP] = Some s'
        \<and> instructions False s' = map Inr [PushBytes [7], Op OP_DUP] \<and> length s' \<le> 4)"
proof -
  have i: "instructions False [OP_PUSHDATA1, 1, 7, OP_DUP] = map Inr [PushBytes [7], Op OP_DUP]"
  proof -
    have "next_instruction False [OP_PUSHDATA1, 1, 7, OP_DUP] = (Some (Inr (PushBytes [7])), [OP_DUP])"
      by (simp add: next_pushdata next_push_data_len_eq take_slice_or_kill_def Let_def)
    moreover have "next_instruction False [OP_DUP] = (Some (Inr (Op OP_DUP)), [])" by (simp add: next_other)
    ultimately show ?thesis using instructions_next instructions_Nil by simp
  qed
  from i rewriting_script [OF i] show ?thesis by (simp add: numeral_eq_Suc)
qed

text \<open>
  C31: iterating over any script, strictly or not, ends; there is at most one error and it is the last
  item. The positions given with the instructions are where they can be read from, and the iterator
  with positions gives the same instructions.
\<close>

theorem iteration_ends:
  "(\<exists>is. instructions m s = map Inr is \<or> (\<exists>e. instructions m s = map Inr is @ [Inl e]))
   \<and> map (map_sum id snd) (instruction_indices m 0 s) = instructions m s
   \<and> list_all (\<lambda>x. case x of Inl e \<Rightarrow> True
        | Inr (p, i) \<Rightarrow> p < length s \<and> (\<exists>r. next_instruction m (drop p s) = (Some (Inr i), r)))
        (instruction_indices m 0 s)"
  using instructions_error_last_aux [of m s] instruction_indices_instructions [of m 0 s]
    instruction_indices_at [of _ _ m 0 s s] by (auto simp: list_all_iff split: sum.split)

end
