(* ===== verification/Script.thy ===== *)
theory Script
  imports Script_Instr Encode
begin

text \<open>
  Scripts as a whole (\<open>src/litecoin/src/blockdata/script/\<close>): the \<open>Builder\<close> (\<open>builder.rs\<close>), the
  constructors of standard scripts (\<open>owned.rs\<close>), the recognisers and counters of \<open>Script\<close>
  (\<open>borrowed.rs\<close>), witness versions and witness programs. A script is its bytes, hashes and keys are
  the bytes pushed for them; \<^term>\<open>None\<close> is a panic where the result is a script.
\<close>

section \<open>The builder\<close>

record builder =
  b_script :: bytes
  b_last :: "u8 option"

definition builder_new :: builder where
  "builder_new = \<lparr> b_script = [], b_last = None \<rparr>"

definition push_opcode :: "builder \<Rightarrow> u8 \<Rightarrow> builder" where
  "push_opcode self data = \<lparr> b_script = b_script self @ [data], b_last = Some data \<rparr>"

definition push_slice :: "builder \<Rightarrow> bytes \<Rightarrow> builder option" where
  "push_slice self data =
     map_option (\<lambda>s. \<lparr> b_script = s, b_last = None \<rparr>) (push_slice_no_opt (b_script self) data)"

definition push_int_non_minimal :: "builder \<Rightarrow> int \<Rightarrow> builder option" where
  "push_int_non_minimal self data = Option.bind (write_scriptint data) (push_slice self)"

definition push_int :: "builder \<Rightarrow> int \<Rightarrow> builder option" where
  "push_int self data =
     (if data = - 1 \<or> (1 \<le> data \<and> data \<le> 16)
        then Some (push_opcode self (word_of_int (data - 1 + uint OP_PUSHNUM_1)))
      else if data = 0 then Some (push_opcode self OP_PUSHBYTES_0)
      else push_int_non_minimal self data)"

definition push_lock_time :: "builder \<Rightarrow> u32 \<Rightarrow> builder option" where
  "push_lock_time self lock_time = push_int self (uint lock_time)"

definition push_sequence :: "builder \<Rightarrow> u32 \<Rightarrow> builder option" where
  "push_sequence self sequence = push_int self (uint sequence)"

fun opcode_to_verify :: "u8 option \<Rightarrow> u8 option" where
  "opcode_to_verify None = None"
| "opcode_to_verify (Some op) =
     (if op = OP_EQUAL then Some OP_EQUALVERIFY
      else if op = OP_NUMEQUAL then Some OP_NUMEQUALVERIFY
      else if op = OP_CHECKSIG then Some OP_CHECKSIGVERIFY
      else if op = OP_CHECKMULTISIG then Some OP_CHECKMULTISIGVERIFY
      else None)"

definition builder_push_verify :: "builder \<Rightarrow> builder" where
  "builder_push_verify self =
     (case opcode_to_verify (b_last self) of
        Some opcode \<Rightarrow> push_opcode (self\<lparr> b_script := butlast (b_script self) \<rparr>) opcode
      | None \<Rightarrow> push_opcode self OP_VERIFY)"

text \<open>\<open>Script::last_opcode\<close>, \<open>last_pushdata\<close>, \<open>ScriptBuf::push_verify\<close> and \<open>scan_and_push_verify\<close>.\<close>

definition last_opcode :: "bytes \<Rightarrow> u8 option" where
  "last_opcode s = (let is = instructions False s in
     if is = [] then None else case last is of Inr (Op op) \<Rightarrow> Some op | _ \<Rightarrow> None)"

definition last_pushdata :: "bytes \<Rightarrow> bytes option" where
  "last_pushdata s = (let is = instructions False s in
     if is = [] then None else case last is of Inr (PushBytes d) \<Rightarrow> Some d | _ \<Rightarrow> None)"

definition script_push_verify :: "bytes \<Rightarrow> u8 option \<Rightarrow> bytes" where
  "script_push_verify s last_op =
     (case opcode_to_verify last_op of Some opcode \<Rightarrow> butlast s @ [opcode] | None \<Rightarrow> s @ [OP_VERIFY])"

definition scan_and_push_verify :: "bytes \<Rightarrow> bytes" where
  "scan_and_push_verify s = script_push_verify s (last_opcode s)"

definition builder_from_vec :: "bytes \<Rightarrow> builder" where
  "builder_from_vec v = \<lparr> b_script = v, b_last = last_opcode v \<rparr>"

text \<open>A public key: the flag \<open>compressed\<close> and the two serialisations of the library's key.\<close>

record public_key =
  compressed :: bool
  key_serialize :: bytes
  key_serialize_uncompressed :: bytes

definition push_key :: "builder \<Rightarrow> public_key \<Rightarrow> builder option" where
  "push_key self key =
     (if compressed key then push_slice self (key_serialize key)
      else push_slice self (key_serialize_uncompressed key))"

section \<open>Witness versions and programs\<close>

datatype WitnessVersion =
  V0 | V1 | V2 | V3 | V4 | V5 | V6 | V7 | V8 | V9 | V10 | V11 | V12 | V13 | V14 | V15 | V16

fun to_num :: "WitnessVersion \<Rightarrow> u8" where
  "to_num V0 = 0" | "to_num V1 = 1" | "to_num V2 = 2" | "to_num V3 = 3" | "to_num V4 = 4"
| "to_num V5 = 5" | "to_num V6 = 6" | "to_num V7 = 7" | "to_num V8 = 8" | "to_num V9 = 9"
| "to_num V10 = 10" | "to_num V11 = 11" | "to_num V12 = 12" | "to_num V13 = 13" | "to_num V14 = 14"
| "to_num V15 = 15" | "to_num V16 = 16"

text \<open>\<open>TryFrom<u8>\<close> and \<open>TryFrom<Opcode>\<close>, with the invalid number as the error.\<close>

definition version_try_from_u8 :: "u8 \<Rightarrow> u8 + WitnessVersion" where
  "version_try_from_u8 no =
     (if no = 0 then Inr V0 else if no = 1 then Inr V1 else if no = 2 then Inr V2
      else if no = 3 then Inr V3 else if no = 4 then Inr V4 else if no = 5 then Inr V5
      else if no = 6 then Inr V6 else if no = 7 then Inr V7 else if no = 8 then Inr V8
      else if no = 9 then Inr V9 else if no = 10 then Inr V10 else if no = 11 then Inr V11
      else if no = 12 then Inr V12 else if no = 13 then Inr V13 else if no = 14 then Inr V14
      else if no = 15 then Inr V15 else if no = 16 then Inr V16 else Inl no)"

definition version_try_from_opcode :: "u8 \<Rightarrow> u8 + WitnessVersion" where
  "version_try_from_opcode op =
     (if op = 0 then Inr V0
      else if OP_PUSHNUM_1 \<le> op \<and> op \<le> OP_PUSHNUM_16 then version_try_from_u8 (op - OP_PUSHNUM_1 + 1)
      else Inl op)"

datatype version_instruction_error = TryFromVersion u8 | DataPush

fun version_try_from_instruction :: "instruction \<Rightarrow> version_instruction_error + WitnessVersion" where
  "version_try_from_instruction (Op op) = map_err TryFromVersion (version_try_from_opcode op)"
| "version_try_from_instruction (PushBytes b) = (if b = [] then Inr V0 else Inl DataPush)"

definition version_to_opcode :: "WitnessVersion \<Rightarrow> u8" where
  "version_to_opcode version =
     (if version = V0 then OP_PUSHBYTES_0 else OP_PUSHNUM_1 + to_num version - 1)"

record witness_program =
  wp_version :: WitnessVersion
  wp_program :: bytes

datatype witness_program_error = InvalidLength nat | InvalidSegwitV0Length nat

definition witness_program_new :: "WitnessVersion \<Rightarrow> bytes \<Rightarrow> witness_program_error + witness_program" where
  "witness_program_new version bs =
     (let program_len = length bs in
      if program_len < 2 \<or> 40 < program_len then Inl (InvalidLength program_len)
      else if version = V0 \<and> program_len \<noteq> 20 \<and> program_len \<noteq> 32 then Inl (InvalidSegwitV0Length program_len)
      else Inr \<lparr> wp_version = version, wp_program = bs \<rparr>)"

definition wp_is_p2wpkh :: "witness_program \<Rightarrow> bool" where
  "wp_is_p2wpkh p \<longleftrightarrow> wp_version p = V0 \<and> length (wp_program p) = 20"

definition wp_is_p2wsh :: "witness_program \<Rightarrow> bool" where
  "wp_is_p2wsh p \<longleftrightarrow> wp_version p = V0 \<and> length (wp_program p) = 32"

definition wp_is_p2tr :: "witness_program \<Rightarrow> bool" where
  "wp_is_p2tr p \<longleftrightarrow> wp_version p = V1 \<and> length (wp_program p) = 32"

definition P2A_PROGRAM :: bytes where
  "P2A_PROGRAM = [78, 115]"

definition wp_is_p2a :: "witness_program \<Rightarrow> bool" where
  "wp_is_p2a p \<longleftrightarrow> wp_version p = V1 \<and> wp_program p = P2A_PROGRAM"

section \<open>Standard scripts\<close>

definition new_p2pk :: "public_key \<Rightarrow> bytes option" where
  "new_p2pk pubkey =
     map_option (\<lambda>b. b_script (push_opcode b OP_CHECKSIG)) (push_key builder_new pubkey)"

definition new_p2pkh :: "bytes \<Rightarrow> bytes option" where
  "new_p2pkh pubkey_hash =
     map_option (\<lambda>b. b_script (push_opcode (push_opcode b OP_EQUALVERIFY) OP_CHECKSIG))
       (push_slice (push_opcode (push_opcode builder_new OP_DUP) OP_HASH160) pubkey_hash)"

definition new_p2sh :: "bytes \<Rightarrow> bytes option" where
  "new_p2sh script_hash =
     map_option (\<lambda>b. b_script (push_opcode b OP_EQUAL))
       (push_slice (push_opcode builder_new OP_HASH160) script_hash)"

text \<open>The debug assertions of \<open>new_witness_program_unchecked\<close> are part of the model.\<close>

definition new_witness_program_unchecked :: "WitnessVersion \<Rightarrow> bytes \<Rightarrow> bytes option" where
  "new_witness_program_unchecked version program =
     (if 2 \<le> length program \<and> length program \<le> 40
         \<and> (version \<noteq> V0 \<or> length program = 20 \<or> length program = 32)
      then map_option b_script (push_slice (push_opcode builder_new (version_to_opcode version)) program)
      else None)"

definition new_p2wpkh :: "bytes \<Rightarrow> bytes option" where
  "new_p2wpkh pubkey_hash = new_witness_program_unchecked V0 pubkey_hash"

definition new_p2wsh :: "bytes \<Rightarrow> bytes option" where
  "new_p2wsh script_hash = new_witness_program_unchecked V0 script_hash"

definition new_p2tr_tweaked :: "bytes \<Rightarrow> bytes option" where
  "new_p2tr_tweaked output_key = new_witness_program_unchecked V1 output_key"

definition new_p2a :: "bytes option" where
  "new_p2a = new_witness_program_unchecked V1 P2A_PROGRAM"

definition new_witness_program :: "witness_program \<Rightarrow> bytes option" where
  "new_witness_program p =
     map_option b_script (push_slice (push_opcode builder_new (version_to_opcode (wp_version p))) (wp_program p))"

definition p2wpkh_script_code_buf :: "bytes \<Rightarrow> bytes option" where
  "p2wpkh_script_code_buf wpkh =
     map_option (\<lambda>b. b_script (push_opcode (push_opcode b OP_EQUALVERIFY) OP_CHECKSIG))
       (push_slice (push_opcode (push_opcode builder_new OP_DUP) OP_HASH160) wpkh)"

definition new_op_return :: "bytes \<Rightarrow> bytes option" where
  "new_op_return data = map_option b_script (push_slice (push_opcode builder_new OP_RETURN) data)"

section \<open>Recognisers\<close>

definition script_witness_version :: "bytes \<Rightarrow> WitnessVersion option" where
  "script_witness_version s =
     (let script_len = length s in
      if \<not> (4 \<le> script_len \<and> script_len \<le> 42) then None
      else let ver_opcode = s ! 0; push_opbyte = s ! 1 in
        if push_opbyte < OP_PUSHBYTES_2 \<or> OP_PUSHBYTES_40 < push_opbyte then None
        else if script_len - 2 \<noteq> unat push_opbyte then None
        else case version_try_from_opcode ver_opcode of Inl e \<Rightarrow> None | Inr v \<Rightarrow> Some v)"

definition is_witness_program :: "bytes \<Rightarrow> bool" where
  "is_witness_program s \<longleftrightarrow> script_witness_version s \<noteq> None"

definition is_p2sh :: "bytes \<Rightarrow> bool" where
  "is_p2sh s \<longleftrightarrow> length s = 23 \<and> s ! 0 = OP_HASH160 \<and> s ! 1 = OP_PUSHBYTES_20 \<and> s ! 22 = OP_EQUAL"

definition is_p2pkh :: "bytes \<Rightarrow> bool" where
  "is_p2pkh s \<longleftrightarrow> length s = 25 \<and> s ! 0 = OP_DUP \<and> s ! 1 = OP_HASH160 \<and> s ! 2 = OP_PUSHBYTES_20
     \<and> s ! 23 = OP_EQUALVERIFY \<and> s ! 24 = OP_CHECKSIG"

definition p2pk_pubkey_bytes :: "bytes \<Rightarrow> bytes option" where
  "p2pk_pubkey_bytes s =
     (if length s = 67 \<and> s ! 0 = OP_PUSHBYTES_65 \<and> s ! 66 = OP_CHECKSIG then Some (take 65 (drop 1 s))
      else if length s = 35 \<and> s ! 0 = OP_PUSHBYTES_33 \<and> s ! 34 = OP_CHECKSIG then Some (take 33 (drop 1 s))
      else None)"

definition is_p2pk :: "bytes \<Rightarrow> bool" where
  "is_p2pk s \<longleftrightarrow> p2pk_pubkey_bytes s \<noteq> None"

definition is_p2wsh :: "bytes \<Rightarrow> bool" where
  "is_p2wsh s \<longleftrightarrow> length s = 34 \<and> script_witness_version s = Some V0 \<and> s ! 1 = OP_PUSHBYTES_32"

definition is_p2wpkh :: "bytes \<Rightarrow> bool" where
  "is_p2wpkh s \<longleftrightarrow> length s = 22 \<and> script_witness_version s = Some V0 \<and> s ! 1 = OP_PUSHBYTES_20"

definition is_p2tr :: "bytes \<Rightarrow> bool" where
  "is_p2tr s \<longleftrightarrow> length s = 34 \<and> script_witness_version s = Some V1 \<and> s ! 1 = OP_PUSHBYTES_32"

definition is_op_return :: "bytes \<Rightarrow> bool" where
  "is_op_return s = (case s of [] \<Rightarrow> False | b # _ \<Rightarrow> b = OP_RETURN)"

definition is_provably_unspendable :: "bytes \<Rightarrow> bool" where
  "is_provably_unspendable s = (case s of [] \<Rightarrow> False
     | b # _ \<Rightarrow> classify b Legacy = Some ReturnOp \<or> classify b Legacy = Some IllegalOp)"

fun push_only_item :: "item \<Rightarrow> bool" where
  "push_only_item (Inl e) \<longleftrightarrow> False"
| "push_only_item (Inr (PushBytes d)) \<longleftrightarrow> True"
| "push_only_item (Inr (Op op)) \<longleftrightarrow> op \<le> 0x60"

definition is_push_only :: "bytes \<Rightarrow> bool" where
  "is_push_only s = list_all push_only_item (instructions False s)"

definition p2wpkh_script_code :: "bytes \<Rightarrow> bytes option" where
  "p2wpkh_script_code s = (if is_p2wpkh s then p2wpkh_script_code_buf (drop 2 s) else None)"

fun is_push_item :: "item \<Rightarrow> bool" where
  "is_push_item (Inr (PushBytes d)) \<longleftrightarrow> True"
| "is_push_item _ \<longleftrightarrow> False"

definition redeem_script :: "bytes \<Rightarrow> bytes option" where
  "redeem_script s =
     (let is = instructions False s in
      if \<not> list_all is_push_item is then None
      else if is = [] then None else case last is of Inr (PushBytes b) \<Rightarrow> Some b | _ \<Rightarrow> None)"

text \<open>
  \<open>is_multisig\<close>: the loop over the keys gives \<^term>\<open>None\<close> for \<open>return false\<close>, and the number of keys with
  the items left when it ends. The counter is a \<open>u8\<close> (built without overflow checks).
\<close>

fun multisig_keys :: "u8 \<Rightarrow> item list \<Rightarrow> (u8 \<times> item list) option" where
  "multisig_keys n [] = Some (n, [])"
| "multisig_keys n (Inl e # r) = Some (n, r)"
| "multisig_keys n (Inr (PushBytes d) # r) = multisig_keys (n + 1) r"
| "multisig_keys n (Inr (Op op) # r) =
     (case decode_pushnum op of Some pushnum \<Rightarrow> if pushnum \<noteq> n then None else Some (n, r)
      | None \<Rightarrow> Some (n, r))"

definition is_multisig :: "bytes \<Rightarrow> bool" where
  "is_multisig s =
     (case instructions False s of
        Inr (Op op) # r1 \<Rightarrow>
          (case decode_pushnum op of None \<Rightarrow> False
           | Some required_sigs \<Rightarrow>
              (case multisig_keys 0 r1 of None \<Rightarrow> False
               | Some (num_pubkeys, r2) \<Rightarrow>
                   \<not> num_pubkeys < required_sigs
                   \<and> (case r2 of Inr (Op op2) # r3 \<Rightarrow> op2 = OP_CHECKMULTISIG \<and> r3 = [] | _ \<Rightarrow> False)))
      | _ \<Rightarrow> False)"

section \<open>Counting\<close>

fun count_sigops_loop :: "bool \<Rightarrow> nat \<Rightarrow> u8 option \<Rightarrow> item list \<Rightarrow> nat" where
  "count_sigops_loop accurate n cache [] = n"
| "count_sigops_loop accurate n cache (Inr (Op opcode) # r) =
     (if opcode = OP_CHECKSIG \<or> opcode = OP_CHECKSIGVERIFY then count_sigops_loop accurate (n + 1) cache r
      else if opcode = OP_CHECKMULTISIG \<or> opcode = OP_CHECKMULTISIGVERIFY
        then (case (accurate, cache) of
                (True, Some pushnum) \<Rightarrow> count_sigops_loop accurate (n + unat pushnum) cache r
              | _ \<Rightarrow> count_sigops_loop accurate (n + 20) cache r)
      else count_sigops_loop accurate n (decode_pushnum opcode) r)"
| "count_sigops_loop accurate n cache (Inr (PushBytes d) # r) = count_sigops_loop accurate n None r"
| "count_sigops_loop accurate n cache (Inl e # r) = n"

definition count_sigops_internal :: "bytes \<Rightarrow> bool \<Rightarrow> nat" where
  "count_sigops_internal s accurate = count_sigops_loop accurate 0 None (instructions False s)"

definition count_sigops :: "bytes \<Rightarrow> nat" where
  "count_sigops s = count_sigops_internal s True"

definition count_sigops_legacy :: "bytes \<Rightarrow> nat" where
  "count_sigops_legacy s = count_sigops_internal s False"

text \<open>The threshold below which an output is dust; \<^term>\<open>None\<close> when the product overflows \<open>u64\<close>.\<close>

definition script_encoded_size :: "bytes \<Rightarrow> nat" where
  "script_encoded_size s = varint_size (of_nat (length s)) + length s"

definition minimal_non_dust_inner :: "bytes \<Rightarrow> nat \<Rightarrow> nat option" where
  "minimal_non_dust_inner s dust_relay_fee =
     (let size_cost = (if is_op_return s then 0
            else if is_witness_program s then 32 + 4 + 1 + (107 div 4) + 4 + 8 + script_encoded_size s
            else 32 + 4 + 1 + 107 + 4 + 8 + script_encoded_size s)
      in if dust_relay_fee * size_cost < 2 ^ 64 then Some (dust_relay_fee * size_cost div 1000) else None)"

definition minimal_non_dust :: "bytes \<Rightarrow> nat option" where
  "minimal_non_dust s = minimal_non_dust_inner s 3000"

section \<open>Encoding\<close>

definition script_encode :: "bytes \<Rightarrow> io_failure encoded" where
  "script_encode s = consensus_encode_with_size s"

definition script_decode :: "(encode_error, bytes) decoder" where
  "script_decode = bytes_decode"

section \<open>Appending to a script\<close>

text \<open>An instruction that is read is read from its own bytes, whatever follows them.\<close>

lemma next_push_data_len_local:
  assumes "k \<le> 4" and "next_push_data_len m k l data = (Some (Inr i), r)"
  shows "\<exists>c. data = c @ r \<and> (\<forall>x. next_push_data_len m k l (c @ x) = (Some (Inr i), x))"
proof -
  obtain d where d: "i = PushBytes d" "data = le_digits k (length d) @ d @ r" "length d < 256 ^ k" "m \<longrightarrow> l \<le> length d"
    using next_push_data_len_Inr [OF assms] by blast
  have "next_push_data_len m k l ((le_digits k (length d) @ d) @ x) = (Some (Inr i), x)" for x
    using d(1,3,4) by (auto simp: next_push_data_len_eq [OF assms(1)] take_slice_or_kill_def Let_def le_value_digits)
  then show ?thesis using d(2) by (intro exI [of _ "le_digits k (length d) @ d"]) simp
qed

lemma next_instruction_local:
  assumes "next_instruction m data = (Some (Inr i), r)"
  shows "\<exists>c. data = c @ r \<and> (\<forall>x. next_instruction m (c @ x) = (Some (Inr i), x))"
proof (cases data)
  case Nil
  then show ?thesis using assms by (simp add: next_instruction_def)
next
  case (Cons op rest)
  show ?thesis
  proof (rule opcode_cases [of op])
    assume op: "op \<le> OP_PUSHBYTES_75"
    then obtain d where d: "i = PushBytes d" "length d = unat op" "rest = d @ r"
      and small: "\<not> (m \<and> op = 1 \<and> rest \<noteq> [] \<and> (hd rest = 0x81 \<or> 0 < hd rest \<and> hd rest \<le> 16))"
      using assms by (auto simp: Cons next_push take_slice_Inr split: if_splits)
    have "next_instruction m ((op # d) @ x) = (Some (Inr i), x)" for x
    proof -
      have "d \<noteq> []" if "op = 1" using d(2) that by auto
      then have "hd (d @ x) = hd rest \<and> rest \<noteq> []" if "op = 1" using that d(3) by simp
      then show ?thesis using op small d(1,2) by (auto simp: next_push take_slice_or_kill_def)
    qed
    then show ?thesis using d(3) by (intro exI [of _ "op # d"]) (simp add: Cons)
  next
    assume "OP_PUSHDATA4 < op"
    then show ?thesis using assms by (intro exI [of _ "[op]"]) (simp add: Cons next_other)
  qed (use assms next_push_data_len_local [of 1 m 76 rest i r] next_push_data_len_local [of 2 m "0x100" rest i r]
        next_push_data_len_local [of 4 m "0x10000" rest i r] in
      \<open>auto simp: Cons next_pushdata Cons_eq_append_conv\<close>)
qed

lemma instructions_Inr_Cons:
  "instructions m s = Inr i # ys \<longleftrightarrow>
     (\<exists>c r. s = c @ r \<and> (\<forall>x. next_instruction m (c @ x) = (Some (Inr i), x)) \<and> instructions m r = ys)"
proof
  assume i: "instructions m s = Inr i # ys"
  obtain y r where n: "next_instruction m s = (y, r)" by fastforce
  then have y: "y = Some (Inr i)" and r: "instructions m r = ys"
    using i instructions_next [OF n] by (auto split: option.splits)
  then show "\<exists>c r. s = c @ r \<and> (\<forall>x. next_instruction m (c @ x) = (Some (Inr i), x)) \<and> instructions m r = ys"
    using next_instruction_local [OF n [unfolded y]] by blast
next
  assume "\<exists>c r. s = c @ r \<and> (\<forall>x. next_instruction m (c @ x) = (Some (Inr i), x)) \<and> instructions m r = ys"
  then obtain c r where "s = c @ r" "next_instruction m (c @ r) = (Some (Inr i), r)" "instructions m r = ys" by blast
  then show "instructions m s = Inr i # ys" using instructions_next by fastforce
qed

lemma instructions_empty: "instructions m s = [] \<longleftrightarrow> s = []"
proof
  assume i: "instructions m s = []"
  obtain y r where n: "next_instruction m s = (y, r)" by fastforce
  then have "y = None" using i instructions_next [OF n] by (auto split: option.splits)
  then show "s = []" using n next_instruction_None by blast
qed (simp add: instructions_Nil)

lemma instructions_append:
  "instructions m s = map Inr is \<Longrightarrow> instructions m (s @ x) = map Inr is @ instructions m x"
proof (induction "is" arbitrary: s)
  case Nil
  then show ?case by (simp add: instructions_empty)
next
  case (Cons i "is")
  then obtain c r where "s = c @ r" "\<forall>x. next_instruction m (c @ x) = (Some (Inr i), x)" "instructions m r = map Inr is"
    by (auto simp: instructions_Inr_Cons)
  then show ?case using Cons.IH [of r] by (auto simp: instructions_Inr_Cons)
qed

lemma instructions_op: "OP_PUSHDATA4 < op \<Longrightarrow> instructions m [op] = [Inr (Op op)]"
  using instructions_ser [of m "[Op op]"] by simp

lemma instructions_split:
  "instructions m s = map Inr (is @ js) \<Longrightarrow>
     \<exists>a c. s = a @ c \<and> instructions m a = map Inr is \<and> instructions m c = map Inr js"
proof (induction "is" arbitrary: s)
  case Nil
  then show ?case by (intro exI [of _ "[]"] exI [of _ s]) (simp add: instructions_Nil)
next
  case (Cons j "is")
  then obtain c r where c: "s = c @ r" "\<forall>x. next_instruction m (c @ x) = (Some (Inr j), x)"
      "instructions m r = map Inr (is @ js)"
    by (auto simp: instructions_Inr_Cons)
  then obtain a d where d: "r = a @ d" "instructions m a = map Inr is" "instructions m d = map Inr js"
    using Cons.IH by blast
  have "instructions m (c @ a) = map Inr (j # is)" using c(2) d(2) by (auto simp: instructions_Inr_Cons)
  then show ?case using c(1) d by (intro exI [of _ "c @ a"] exI [of _ d]) simp
qed

lemma instructions_last_op:
  assumes "instructions m s = map Inr (is @ [Op op])"
  shows "\<exists>a. s = a @ [op] \<and> instructions m a = map Inr is \<and> OP_PUSHDATA4 < op"
proof -
  obtain a c where a: "s = a @ c" "instructions m a = map Inr is" "instructions m c = [Inr (Op op)]"
    using instructions_split [of m s "is" "[Op op]"] assms by auto
  then have n: "next_instruction m c = (Some (Inr (Op op)), [])"
    by (auto simp: instructions_Inr_Cons instructions_empty dest: spec [of _ "[]"])
  obtain b rest where b: "c = b # rest" using n by (cases c) (auto simp: next_instruction_def)
  have "c = [op] \<and> OP_PUSHDATA4 < op"
  proof (rule opcode_cases [of b])
    assume "OP_PUSHDATA4 < b"
    then show ?thesis using n by (simp add: b next_other)
  qed (use n in \<open>auto simp: b next_push next_pushdata next_push_data_len_eq take_slice_or_kill_def Let_def split: if_splits\<close>)
  then show ?thesis using a by auto
qed

section \<open>Recognisers and constructors\<close>

text \<open>A script with a fixed frame around its data is recognised by its length and the bytes of the frame.\<close>

lemma framed_iff:
  "(\<exists>h. length h = n \<and> s = p @ h @ q) \<longleftrightarrow>
     length s = length p + n + length q \<and> (\<forall>i < length p. s ! i = p ! i)
     \<and> (\<forall>i < length q. s ! (length p + n + i) = q ! i)" (is "?l \<longleftrightarrow> ?r")
proof
  assume ?l
  then show ?r by (auto simp: nth_append)
next
  assume r: ?r
  let ?h = "take n (drop (length p) s)"
  have "s = p @ ?h @ q"
  proof (rule nth_equalityI)
    show "length s = length (p @ ?h @ q)" using r by simp
    fix i assume "i < length s"
    then show "s ! i = (p @ ?h @ q) ! i"
      using r by (auto simp: nth_append dest: spec [of _ "i - length p - n"])
  qed
  then show ?l using r by (intro exI [of _ ?h]) simp
qed

lemmas frame_simps = All_less_Suc nth_Cons' add.commute numeral_2_eq_2

lemma push_slice_short:
  "length d < 76 \<Longrightarrow> push_slice b d = Some \<lparr> b_script = b_script b @ of_nat (length d) # d, b_last = None \<rparr>"
  by (simp add: push_slice_def push_slice_no_opt_def)

lemma new_p2pkh_eq: "length h = 20 \<Longrightarrow>
    new_p2pkh h = Some ([OP_DUP, OP_HASH160, OP_PUSHBYTES_20] @ h @ [OP_EQUALVERIFY, OP_CHECKSIG])"
  by (simp add: new_p2pkh_def push_slice_short push_opcode_def builder_new_def)

lemma new_p2sh_eq: "length h = 20 \<Longrightarrow> new_p2sh h = Some ([OP_HASH160, OP_PUSHBYTES_20] @ h @ [OP_EQUAL])"
  by (simp add: new_p2sh_def push_slice_short push_opcode_def builder_new_def)

lemma is_p2pkh_iff: "is_p2pkh s \<longleftrightarrow> (\<exists>h. length h = 20 \<and> new_p2pkh h = Some s)"
proof -
  have "(\<exists>h. length h = 20 \<and> new_p2pkh h = Some s) \<longleftrightarrow>
      (\<exists>h. length h = 20 \<and> s = [OP_DUP, OP_HASH160, OP_PUSHBYTES_20] @ h @ [OP_EQUALVERIFY, OP_CHECKSIG])"
    using new_p2pkh_eq by (metis option.inject)
  also have "\<dots> \<longleftrightarrow> is_p2pkh s" unfolding framed_iff is_p2pkh_def by (auto simp: frame_simps)
  finally show ?thesis by simp
qed

lemma is_p2sh_iff: "is_p2sh s \<longleftrightarrow> (\<exists>h. length h = 20 \<and> new_p2sh h = Some s)"
proof -
  have "(\<exists>h. length h = 20 \<and> new_p2sh h = Some s) \<longleftrightarrow>
      (\<exists>h. length h = 20 \<and> s = [OP_HASH160, OP_PUSHBYTES_20] @ h @ [OP_EQUAL])"
    using new_p2sh_eq by (metis option.inject)
  also have "\<dots> \<longleftrightarrow> is_p2sh s" unfolding framed_iff is_p2sh_def by (auto simp: frame_simps)
  finally show ?thesis by simp
qed

text \<open>The serialisations of a key have the lengths of SEC1.\<close>

definition key_wf :: "public_key \<Rightarrow> bool" where
  "key_wf k \<longleftrightarrow> length (key_serialize k) = 33 \<and> length (key_serialize_uncompressed k) = 65"

definition key_bytes :: "public_key \<Rightarrow> bytes" where
  "key_bytes k = (if compressed k then key_serialize k else key_serialize_uncompressed k)"

lemma new_p2pk_eq:
  "key_wf k \<Longrightarrow> new_p2pk k = Some ([of_nat (length (key_bytes k))] @ key_bytes k @ [OP_CHECKSIG])"
  by (simp add: new_p2pk_def push_key_def key_wf_def key_bytes_def push_slice_short push_opcode_def builder_new_def)

lemma p2pk_pubkey_bytes_iff:
  "p2pk_pubkey_bytes s = Some d \<longleftrightarrow>
     (length d = 65 \<and> s = [OP_PUSHBYTES_65] @ d @ [OP_CHECKSIG])
     \<or> (length d = 33 \<and> s = [OP_PUSHBYTES_33] @ d @ [OP_CHECKSIG])"
proof -
  have 65: "length s = 67 \<and> s ! 0 = OP_PUSHBYTES_65 \<and> s ! 66 = OP_CHECKSIG \<and> d = take 65 (drop 1 s)
      \<longleftrightarrow> length d = 65 \<and> s = [OP_PUSHBYTES_65] @ d @ [OP_CHECKSIG]"
    using framed_iff [of 65 s "[OP_PUSHBYTES_65]" "[OP_CHECKSIG]"] by (auto simp: frame_simps)
  have 33: "length s = 35 \<and> s ! 0 = OP_PUSHBYTES_33 \<and> s ! 34 = OP_CHECKSIG \<and> d = take 33 (drop 1 s)
      \<longleftrightarrow> length d = 33 \<and> s = [OP_PUSHBYTES_33] @ d @ [OP_CHECKSIG]"
    using framed_iff [of 33 s "[OP_PUSHBYTES_33]" "[OP_CHECKSIG]"] by (auto simp: frame_simps)
  show ?thesis unfolding p2pk_pubkey_bytes_def using 65 33 by (auto split: if_splits)
qed

lemma is_p2pk_iff: "is_p2pk s \<longleftrightarrow> (\<exists>k. key_wf k \<and> new_p2pk k = Some s)"
proof
  assume "is_p2pk s"
  then obtain d where "p2pk_pubkey_bytes s = Some d" by (auto simp: is_p2pk_def)
  then consider (u) "length d = 65" "s = [OP_PUSHBYTES_65] @ d @ [OP_CHECKSIG]"
    | (c) "length d = 33" "s = [OP_PUSHBYTES_33] @ d @ [OP_CHECKSIG]"
    by (auto simp: p2pk_pubkey_bytes_iff)
  then show "\<exists>k. key_wf k \<and> new_p2pk k = Some s"
  proof cases
    case u
    let ?k = "\<lparr> compressed = False, key_serialize = replicate 33 0, key_serialize_uncompressed = d \<rparr>"
    have "key_wf ?k" using u by (simp add: key_wf_def)
    then show ?thesis using u new_p2pk_eq [of ?k] by (intro exI [of _ ?k]) (simp add: key_bytes_def)
  next
    case c
    let ?k = "\<lparr> compressed = True, key_serialize = d, key_serialize_uncompressed = replicate 65 0 \<rparr>"
    have "key_wf ?k" using c by (simp add: key_wf_def)
    then show ?thesis using c new_p2pk_eq [of ?k] by (intro exI [of _ ?k]) (simp add: key_bytes_def)
  qed
next
  assume "\<exists>k. key_wf k \<and> new_p2pk k = Some s"
  then obtain k where "key_wf k" "new_p2pk k = Some s" by blast
  then have "p2pk_pubkey_bytes s = Some (key_bytes k)"
    unfolding p2pk_pubkey_bytes_iff using new_p2pk_eq [of k] by (auto simp: key_wf_def key_bytes_def)
  then show "is_p2pk s" by (simp add: is_p2pk_def)
qed

lemma version_opcode: "version_try_from_opcode op = Inr v \<longleftrightarrow> op = version_to_opcode v"
proof
  have "list_all (\<lambda>op :: u8. case version_try_from_opcode op of Inl e \<Rightarrow> True | Inr v \<Rightarrow> version_to_opcode v = op) all_bytes"
    by code_simp
  from all_bytesI [OF this, of op]
  show "version_try_from_opcode op = Inr v \<Longrightarrow> op = version_to_opcode v" by simp
next
  show "op = version_to_opcode v \<Longrightarrow> version_try_from_opcode op = Inr v"
    by (cases v; hypsubst; code_simp)
qed

lemma script_witness_version_Cons:
  "script_witness_version (x # y # p) = Some v \<longleftrightarrow>
     2 \<le> length p \<and> length p \<le> 40 \<and> length p = unat y \<and> version_try_from_opcode x = Inr v"
proof -
  have y: "y < OP_PUSHBYTES_2 \<longleftrightarrow> unat y < 2" "OP_PUSHBYTES_40 < y \<longleftrightarrow> 40 < unat y"
    by (simp_all add: word_less_nat_alt)
  have "length (x # y # p) - 2 = length p" "4 \<le> length (x # y # p) \<longleftrightarrow> 2 \<le> length p"
    "length (x # y # p) \<le> 42 \<longleftrightarrow> length p \<le> 40" by auto
  then show ?thesis
    unfolding script_witness_version_def Let_def y
    by (cases "version_try_from_opcode x") (simp_all del: length_Cons split del: if_split, auto simp: y)
qed

lemma script_witness_version_iff:
  "script_witness_version s = Some v \<longleftrightarrow>
     (\<exists>p. 2 \<le> length p \<and> length p \<le> 40 \<and> s = [version_to_opcode v, of_nat (length p)] @ p)"
proof
  assume a: "script_witness_version s = Some v"
  then have "4 \<le> length s" by (rule contrapos_pp) (simp add: script_witness_version_def)
  then obtain x y p where s: "s = x # y # p" by (cases s; cases "tl s") auto
  have "length p = unat y" using a unfolding s script_witness_version_Cons by blast
  then have "y = of_nat (length p)" by simp
  then show "\<exists>p. 2 \<le> length p \<and> length p \<le> 40 \<and> s = [version_to_opcode v, of_nat (length p)] @ p"
    using a unfolding s script_witness_version_Cons version_opcode by (intro exI [of _ p]) simp
next
  assume "\<exists>p. 2 \<le> length p \<and> length p \<le> 40 \<and> s = [version_to_opcode v, of_nat (length p)] @ p"
  then obtain p where p: "2 \<le> length p" "length p \<le> 40" and s: "s = version_to_opcode v # of_nat (length p) # p" by auto
  have "unat (of_nat (length p) :: u8) = length p" using p by (simp add: unat_u8_of_nat)
  then show "script_witness_version s = Some v"
    unfolding s script_witness_version_Cons version_opcode using p by simp
qed

lemma new_witness_program_unchecked_eq:
  "new_witness_program_unchecked v p = Some s \<longleftrightarrow>
     2 \<le> length p \<and> length p \<le> 40 \<and> (v \<noteq> V0 \<or> length p = 20 \<or> length p = 32)
     \<and> s = [version_to_opcode v, of_nat (length p)] @ p"
  by (auto simp: new_witness_program_unchecked_def push_slice_short push_opcode_def builder_new_def)

lemma versioned_script_iff:
  assumes "2 \<le> n" and "n \<le> 40" and "v \<noteq> V0 \<or> n = 20 \<or> n = 32"
  shows "length s = n + 2 \<and> script_witness_version s = Some v \<and> s ! 1 = of_nat n
    \<longleftrightarrow> (\<exists>p. length p = n \<and> new_witness_program_unchecked v p = Some s)"
  unfolding script_witness_version_iff new_witness_program_unchecked_eq using assms by auto

section \<open>Properties\<close>

text \<open>
  each recogniser of a standard script holds exactly of the scripts its constructor makes: pay to
  public key hash, to script hash, to public key (with keys of the lengths of SEC1), to witness key
  hash, to witness script hash and to taproot output key.
\<close>

theorem standard_scripts:
  "(is_p2pkh s \<longleftrightarrow> (\<exists>h. length h = 20 \<and> new_p2pkh h = Some s))
   \<and> (is_p2sh s \<longleftrightarrow> (\<exists>h. length h = 20 \<and> new_p2sh h = Some s))
   \<and> (is_p2pk s \<longleftrightarrow> (\<exists>k. key_wf k \<and> new_p2pk k = Some s))
   \<and> (is_p2wpkh s \<longleftrightarrow> (\<exists>h. length h = 20 \<and> new_p2wpkh h = Some s))
   \<and> (is_p2wsh s \<longleftrightarrow> (\<exists>h. length h = 32 \<and> new_p2wsh h = Some s))
   \<and> (is_p2tr s \<longleftrightarrow> (\<exists>k. length k = 32 \<and> new_p2tr_tweaked k = Some s))"
  using versioned_script_iff [of 20 V0 s] versioned_script_iff [of 32 V0 s] versioned_script_iff [of 32 V1 s]
  by (simp add: is_p2pkh_iff is_p2sh_iff is_p2pk_iff is_p2wpkh_def is_p2wsh_def is_p2tr_def
      new_p2wpkh_def new_p2wsh_def new_p2tr_tweaked_def)

text \<open>
  a script is a witness program of version \<open>v\<close> exactly when it is the opcode of \<open>v\<close> and one push of 2 to
  40 bytes; every program that \<open>WitnessProgram::new\<close> accepts is written as such a script and its version
  and bytes are read back, and the standard recognisers on scripts and on programs agree on it.
\<close>

theorem witness_program_scripts:
  "(script_witness_version s = Some v \<longleftrightarrow>
      (\<exists>p. 2 \<le> length p \<and> length p \<le> 40 \<and> s = [version_to_opcode v, of_nat (length p)] @ p))
   \<and> (case witness_program_new v p of
        Inl e \<Rightarrow> \<not> (2 \<le> length p \<and> length p \<le> 40 \<and> (if v = V0 then length p = 20 \<or> length p = 32 else True))
      | Inr w \<Rightarrow> (case new_witness_program w of None \<Rightarrow> False
          | Some t \<Rightarrow> script_witness_version t = Some v \<and> drop 2 t = p
              \<and> is_p2wpkh t = wp_is_p2wpkh w \<and> is_p2wsh t = wp_is_p2wsh w \<and> is_p2tr t = wp_is_p2tr w))"
proof (rule conjI [OF script_witness_version_iff])
  show "case witness_program_new v p of
        Inl e \<Rightarrow> \<not> (2 \<le> length p \<and> length p \<le> 40 \<and> (if v = V0 then length p = 20 \<or> length p = 32 else True))
      | Inr w \<Rightarrow> (case new_witness_program w of None \<Rightarrow> False
          | Some t \<Rightarrow> script_witness_version t = Some v \<and> drop 2 t = p
              \<and> is_p2wpkh t = wp_is_p2wpkh w \<and> is_p2wsh t = wp_is_p2wsh w \<and> is_p2tr t = wp_is_p2tr w)"
  proof (cases "witness_program_new v p")
    case (Inl e)
    then show ?thesis by (auto simp: witness_program_new_def Let_def split: if_splits)
  next
    case (Inr w)
    then have w: "w = \<lparr> wp_version = v, wp_program = p \<rparr>" and l: "2 \<le> length p" "length p \<le> 40"
      by (auto simp: witness_program_new_def Let_def split: if_splits)
    let ?t = "[version_to_opcode v, of_nat (length p)] @ p"
    have t: "new_witness_program w = Some ?t"
      using l by (simp add: w new_witness_program_def push_slice_short push_opcode_def builder_new_def)
    have v: "script_witness_version ?t = Some v" unfolding script_witness_version_iff using l by blast
    show ?thesis
      using Inr t v l
      by (auto simp: w is_p2wpkh_def is_p2wsh_def is_p2tr_def wp_is_p2wpkh_def wp_is_p2wsh_def wp_is_p2tr_def)
  qed
qed

section \<open>The builder and the reader\<close>

text \<open>
  The builder holds the instructions \<open>is\<close>: its script reads as them, and the opcode it remembers leads to
  the same \<open>VERIFY\<close> form as the last instruction.
\<close>

definition last_op :: "instruction list \<Rightarrow> u8 option" where
  "last_op is = (if is = [] then None else opcode_of (last is))"

definition builder_holds :: "builder \<Rightarrow> instruction list \<Rightarrow> bool" where
  "builder_holds b is \<longleftrightarrow> instructions False (b_script b) = map Inr is
     \<and> opcode_to_verify (b_last b) = opcode_to_verify (last_op is)"

definition verify_instructions :: "instruction list \<Rightarrow> instruction list" where
  "verify_instructions is =
     (case opcode_to_verify (last_op is) of Some op \<Rightarrow> butlast is @ [Op op] | None \<Rightarrow> is @ [Op OP_VERIFY])"

lemma opcode_to_verify_range: "opcode_to_verify x = Some op \<Longrightarrow> OP_PUSHDATA4 < op"
  by (cases x) (auto split: if_splits)

lemma last_opcode_instructions: "instructions False s = map Inr is \<Longrightarrow> last_opcode s = last_op is"
  by (cases "is" rule: rev_cases) (auto simp: last_opcode_def last_op_def split: instruction.splits)

lemma script_push_verify_instructions:
  assumes s: "instructions False s = map Inr is" and l: "opcode_to_verify x = opcode_to_verify (last_op is)"
  shows "instructions False (script_push_verify s x) = map Inr (verify_instructions is)"
proof (cases "opcode_to_verify (last_op is)")
  case None
  then show ?thesis
    using instructions_append [OF s, of "[OP_VERIFY]"] l
    by (simp add: script_push_verify_def verify_instructions_def instructions_op)
next
  case (Some op)
  then obtain js o' where js: "is = js @ [Op o']"
    by (cases "is" rule: rev_cases; cases "last is") (auto simp: last_op_def)
  then obtain a where a: "s = a @ [o']" "instructions False a = map Inr js"
    using instructions_last_op [of False s js o'] s by auto
  then show ?thesis
    using instructions_append [OF a(2), of "[op]"] instructions_op [OF opcode_to_verify_range [OF Some]] l Some js
    by (simp add: script_push_verify_def verify_instructions_def)
qed

lemma verify_instructions_last: "opcode_to_verify (last_op (verify_instructions is)) = None"
proof (cases "opcode_to_verify (last_op is)")
  case (Some op)
  then show ?thesis by (cases "last_op is") (auto simp: verify_instructions_def last_op_def split: if_splits)
qed (simp add: verify_instructions_def last_op_def)

lemma builder_push_verify_script: "b_script (builder_push_verify b) = script_push_verify (b_script b) (b_last b)"
  by (simp add: builder_push_verify_def script_push_verify_def push_opcode_def split: option.split)

lemma builder_push_verify_last: "opcode_to_verify (b_last (builder_push_verify b)) = None"
  by (cases "opcode_to_verify (b_last b)"; cases "b_last b")
    (auto simp: builder_push_verify_def push_opcode_def split: if_splits)

lemma builder_holds_new: "builder_holds builder_new []"
  by (simp add: builder_holds_def builder_new_def last_op_def instructions_Nil)

lemma holds_push_opcode:
  "builder_holds b is \<Longrightarrow> OP_PUSHDATA4 < op \<Longrightarrow> builder_holds (push_opcode b op) (is @ [Op op])"
  by (simp add: builder_holds_def push_opcode_def instructions_append instructions_op last_op_def)

lemma holds_push_slice:
  assumes "builder_holds b is" and "length d < 2 ^ 32"
  shows "\<exists>b'. push_slice b d = Some b' \<and> builder_holds b' (is @ [PushBytes d])"
proof -
  have "instructions False (b_script b @ push_header (length d) @ d) = map Inr (is @ [PushBytes d])"
    using instructions_append [of False "b_script b" "is" "push_header (length d) @ d"] assms
      instructions_ser [of False "[PushBytes d]"] by (simp add: builder_holds_def)
  then show ?thesis
    using assms by (simp add: push_slice_def push_slice_header builder_holds_def last_op_def)
qed

lemma holds_push_verify: "builder_holds b is \<Longrightarrow> builder_holds (builder_push_verify b) (verify_instructions is)"
  by (simp add: builder_holds_def builder_push_verify_script script_push_verify_instructions
      builder_push_verify_last verify_instructions_last)

lemma holds_from_vec: "instructions False s = map Inr is \<Longrightarrow> builder_holds (builder_from_vec s) is"
  by (simp add: builder_holds_def builder_from_vec_def last_opcode_instructions)

text \<open>The instruction an integer is pushed as.\<close>

definition has_opcode :: "int \<Rightarrow> bool" where
  "has_opcode n \<longleftrightarrow> n = - 1 \<or> (1 \<le> n \<and> n \<le> 16)"

definition int_opcode :: "int \<Rightarrow> u8" where
  "int_opcode n = word_of_int (n - 1 + uint OP_PUSHNUM_1)"

definition int_instruction :: "int \<Rightarrow> instruction" where
  "int_instruction n =
     (if has_opcode n then Op (int_opcode n)
      else case write_scriptint n of Some d \<Rightarrow> PushBytes d | None \<Rightarrow> Op 0xff)"

lemma int_opcode_cases:
  assumes "has_opcode n"
  shows "OP_PUSHDATA4 < int_opcode n" "script_num (Op (int_opcode n)) = Some n"
    "opcode_to_verify (Some (int_opcode n)) = None"
proof -
  have "list_all (\<lambda>n. OP_PUSHDATA4 < int_opcode n \<and> script_num (Op (int_opcode n)) = Some n
      \<and> opcode_to_verify (Some (int_opcode n)) = None) ((-1) # [1..16])" by code_simp
  moreover have "n \<in> set ((-1) # [1..16])" using assms by (auto simp: has_opcode_def)
  ultimately show "OP_PUSHDATA4 < int_opcode n" "script_num (Op (int_opcode n)) = Some n"
    "opcode_to_verify (Some (int_opcode n)) = None" unfolding list_all_iff by blast+
qed

lemma write_scriptint_short:
  assumes "\<bar>n\<bar> < 2 ^ 31"
  obtains d where "write_scriptint n = Some d" "read_scriptint d = Inr n"
proof -
  have "is_i64 n" "n \<noteq> - (2 ^ 63)" using assms by (auto simp: is_i64_def)
  then have "\<exists>d. write_scriptint n = Some d"
    using write_scriptint_0 by (cases "n = 0") (simp, metis write_scriptint_form)
  then show thesis using that assms read_scriptint_write by blast
qed

lemma read_scriptint_length: "read_scriptint v = Inr n \<Longrightarrow> length v \<le> 4"
  by (auto simp: read_scriptint_def split: if_splits)

lemma read_scriptint_small_num:
  assumes "read_scriptint v = Inr n" and "small_num v"
  shows "has_opcode n"
proof -
  obtain b where v: "v = [b]" and b: "b = 0x81 \<or> (0 < b \<and> b \<le> 16)"
    using assms(2) by (cases v) (auto simp: small_num_def)
  have n: "n = scriptint_parse ([] @ [b])" using assms(1) by (auto simp: read_scriptint_def v split: if_splits)
  show ?thesis
  proof (cases "b = 0x81")
    case True
    then show ?thesis unfolding n scriptint_parse_snoc by (simp add: has_opcode_def)
  next
    case False
    then have u: "0 < unat b" "unat b \<le> 16" using b by (simp_all add: word_less_nat_alt word_le_nat_alt)
    then have "n = int (unat b)" unfolding n scriptint_parse_snoc by (simp add: Let_def)
    then show ?thesis using u unfolding has_opcode_def by linarith
  qed
qed

lemma int_instruction_wf:
  assumes "\<bar>n\<bar> < 2 ^ 31"
  shows "instr_wf True (int_instruction n) \<and> script_num (int_instruction n) = Some n"
proof (cases "has_opcode n")
  case True
  show ?thesis unfolding int_instruction_def if_P [OF True] instr_wf.simps using int_opcode_cases [OF True] by blast
next
  case False
  obtain d where d: "write_scriptint n = Some d" "read_scriptint d = Inr n"
    using write_scriptint_short [OF assms] .
  have s: "\<not> small_num d" using read_scriptint_small_num [OF d(2)] False by blast
  have "read_scriptint_non_minimal d = Inr n"
    using d(2) by (auto simp: read_scriptint_def read_scriptint_non_minimal_def split: if_splits)
  then show ?thesis
    using s False d(1) read_scriptint_length [OF d(2)] by (simp add: int_instruction_def)
qed

lemma push_int_ser:
  assumes "\<bar>n\<bar> < 2 ^ 31"
  shows "\<exists>b'. push_int b n = Some b' \<and> b_script b' = b_script b @ instr_ser (int_instruction n)
           \<and> opcode_to_verify (b_last b') = opcode_to_verify (opcode_of (int_instruction n))"
proof -
  obtain d where d: "write_scriptint n = Some d" "read_scriptint d = Inr n"
    using write_scriptint_short [OF assms] .
  have p: "push_int b n = (if has_opcode n then Some (push_opcode b (int_opcode n))
      else if n = 0 then Some (push_opcode b OP_PUSHBYTES_0) else push_int_non_minimal b n)"
    by (simp only: push_int_def has_opcode_def int_opcode_def)
  consider "has_opcode n" | "\<not> has_opcode n" "n = 0" | "\<not> has_opcode n" "n \<noteq> 0" by blast
  then show ?thesis
  proof cases
    case 1
    then show ?thesis unfolding p by (simp add: int_instruction_def push_opcode_def)
  next
    case 2
    then show ?thesis
      unfolding p by (simp add: int_instruction_def push_opcode_def write_scriptint_0 push_header_def)
  next
    case 3
    then show ?thesis
      using d(1) read_scriptint_length [OF d(2)]
      unfolding p by (simp add: int_instruction_def push_int_non_minimal_def push_slice_def push_slice_header)
  qed
qed

lemma holds_push_int:
  assumes "builder_holds b is" and "\<bar>n\<bar> < 2 ^ 31"
  shows "\<exists>b'. push_int b n = Some b' \<and> builder_holds b' (is @ [int_instruction n])"
proof -
  obtain b' where b': "push_int b n = Some b'" "b_script b' = b_script b @ instr_ser (int_instruction n)"
      "opcode_to_verify (b_last b') = opcode_to_verify (opcode_of (int_instruction n))"
    using push_int_ser [OF assms(2)] by blast
  have "instr_wf False (int_instruction n)"
    using int_instruction_wf [OF assms(2)] by (cases "int_instruction n") auto
  then have "instructions False (instr_ser (int_instruction n)) = [Inr (int_instruction n)]"
    using instructions_ser [of False "[int_instruction n]"] by simp
  then show ?thesis
    using b' assms(1) by (simp add: builder_holds_def instructions_append last_op_def)
qed

text \<open>
  for every integer of at most 31 bits \<open>push_int\<close> succeeds and appends exactly one instruction, which the
  strict reader accepts as minimal and which reads back as that integer.
\<close>

theorem push_int_reads_back:
  assumes "\<bar>n\<bar> < 2 ^ 31"
  shows "\<exists>b' t i. push_int b n = Some b' \<and> b_script b' = b_script b @ t
           \<and> instructions True t = [Inr i] \<and> script_num i = Some n"
  using push_int_ser [OF assms, of b] int_instruction_wf [OF assms] instructions_ser [of True "[int_instruction n]"]
  by auto

theorem push_int_reads_back_witness:
  "\<exists>b' t i. push_int builder_new (-70000) = Some b' \<and> b_script b' = b_script builder_new @ t
           \<and> instructions True t = [Inr i] \<and> script_num i = Some (-70000)"
  by (rule push_int_reads_back) simp

text \<open>Sequences of builder calls, and the instructions they stand for.\<close>

datatype builder_call = CallOpcode u8 | CallSlice bytes | CallInt int | CallVerify

fun builder_call_step :: "builder \<Rightarrow> builder_call \<Rightarrow> builder option" where
  "builder_call_step b (CallOpcode op) = Some (push_opcode b op)"
| "builder_call_step b (CallSlice d) = push_slice b d"
| "builder_call_step b (CallInt n) = push_int b n"
| "builder_call_step b CallVerify = Some (builder_push_verify b)"

primrec builder_run :: "builder \<Rightarrow> builder_call list \<Rightarrow> builder option" where
  "builder_run b [] = Some b"
| "builder_run b (c # cs) = Option.bind (builder_call_step b c) (\<lambda>b'. builder_run b' cs)"

fun call_instructions :: "builder_call \<Rightarrow> instruction list \<Rightarrow> instruction list" where
  "call_instructions (CallOpcode op) is = is @ [Op op]"
| "call_instructions (CallSlice d) is = is @ [PushBytes d]"
| "call_instructions (CallInt n) is = is @ [int_instruction n]"
| "call_instructions CallVerify is = verify_instructions is"

fun call_wf :: "builder_call \<Rightarrow> bool" where
  "call_wf (CallOpcode op) \<longleftrightarrow> OP_PUSHDATA4 < op"
| "call_wf (CallSlice d) \<longleftrightarrow> length d < 2 ^ 32"
| "call_wf (CallInt n) \<longleftrightarrow> \<bar>n\<bar> < 2 ^ 31"
| "call_wf CallVerify \<longleftrightarrow> True"

lemma builder_call_holds:
  "builder_holds b is \<Longrightarrow> call_wf c \<Longrightarrow> \<exists>b'. builder_call_step b c = Some b' \<and> builder_holds b' (call_instructions c is)"
  by (cases c) (simp_all add: holds_push_opcode holds_push_slice holds_push_int holds_push_verify)

lemma builder_run_holds:
  "builder_holds b is \<Longrightarrow> list_all call_wf cs \<Longrightarrow>
     \<exists>b'. builder_run b cs = Some b' \<and> builder_holds b' (fold call_instructions cs is)"
proof (induction cs arbitrary: b "is")
  case (Cons c cs)
  then obtain b' where "builder_call_step b c = Some b'" "builder_holds b' (call_instructions c is)"
    using builder_call_holds by fastforce
  then show ?case using Cons by simp
qed simp

text \<open>
  C7: the builder refines a list of instructions: after any sequence of calls with valid arguments its
  script reads as the instructions the calls stand for (where \<open>push_verify\<close> turns a final opcode into its
  \<open>VERIFY\<close> form or appends \<open>OP_VERIFY\<close>), and appending \<open>VERIFY\<close> by rescanning the script gives the bytes
  that the builder gives from the opcode it remembers.
\<close>

theorem builder_refines_instructions:
  assumes "list_all call_wf cs"
  shows "\<exists>b. builder_run builder_new cs = Some b
           \<and> instructions False (b_script b) = map Inr (fold call_instructions cs [])
           \<and> scan_and_push_verify (b_script b) = b_script (builder_push_verify b)"
proof -
  obtain b where b: "builder_run builder_new cs = Some b" and h: "builder_holds b (fold call_instructions cs [])"
    using builder_run_holds [OF builder_holds_new assms] by blast
  from h have i: "instructions False (b_script b) = map Inr (fold call_instructions cs [])"
    and l: "opcode_to_verify (b_last b) = opcode_to_verify (last_op (fold call_instructions cs []))"
    by (simp_all add: builder_holds_def)
  have "scan_and_push_verify (b_script b) = b_script (builder_push_verify b)"
    by (simp add: scan_and_push_verify_def builder_push_verify_script last_opcode_instructions [OF i]
        script_push_verify_def l)
  then show ?thesis using b i by blast
qed

theorem builder_refines_instructions_witness:
  "\<exists>b. builder_run builder_new [CallSlice [1, 2, 3], CallInt 300, CallOpcode OP_EQUAL, CallVerify] = Some b
     \<and> instructions False (b_script b) =
         map Inr (fold call_instructions [CallSlice [1, 2, 3], CallInt 300, CallOpcode OP_EQUAL, CallVerify] [])
     \<and> scan_and_push_verify (b_script b) = b_script (builder_push_verify b)"
  by (rule builder_refines_instructions) simp

section \<open>Signature operations and multisig\<close>

definition is_checksig :: "u8 \<Rightarrow> bool" where
  "is_checksig op \<longleftrightarrow> op = OP_CHECKSIG \<or> op = OP_CHECKSIGVERIFY"

definition is_checkmultisig :: "u8 \<Rightarrow> bool" where
  "is_checkmultisig op \<longleftrightarrow> op = OP_CHECKMULTISIG \<or> op = OP_CHECKMULTISIGVERIFY"

fun legacy_sigops :: "item \<Rightarrow> nat" where
  "legacy_sigops (Inr (Op op)) = (if is_checksig op then 1 else if is_checkmultisig op then 20 else 0)"
| "legacy_sigops _ = 0"

text \<open>The accurate count as documented: a multisig counts the number pushed just before it, or 20.\<close>

fun documented_sigops :: "u8 option \<Rightarrow> item list \<Rightarrow> nat" where
  "documented_sigops prev [] = 0"
| "documented_sigops prev (Inl e # r) = 0"
| "documented_sigops prev (Inr (PushBytes d) # r) = documented_sigops None r"
| "documented_sigops prev (Inr (Op op) # r) =
     (if is_checksig op then 1
      else if is_checkmultisig op then (case prev of Some n \<Rightarrow> unat n | None \<Rightarrow> 20) else 0)
     + documented_sigops (decode_pushnum op) r"

fun multisig_first :: "item list \<Rightarrow> bool" where
  "multisig_first (Inr (Op op) # r) \<longleftrightarrow> is_checkmultisig op"
| "multisig_first _ \<longleftrightarrow> False"

fun sigops_apart :: "item list \<Rightarrow> bool" where
  "sigops_apart (Inr (Op op) # r) \<longleftrightarrow>
     \<not> ((is_checksig op \<or> is_checkmultisig op) \<and> multisig_first r) \<and> sigops_apart r"
| "sigops_apart (_ # r) \<longleftrightarrow> sigops_apart r"
| "sigops_apart [] \<longleftrightarrow> True"

lemma decode_pushnum_range: "decode_pushnum op = Some n \<Longrightarrow> 1 \<le> unat n \<and> unat n \<le> 16"
proof -
  have "list_all (\<lambda>op. case decode_pushnum op of None \<Rightarrow> True | Some n \<Rightarrow> 1 \<le> n \<and> n \<le> 16) all_bytes"
    by code_simp
  from all_bytesI [OF this, of op]
  show "decode_pushnum op = Some n \<Longrightarrow> 1 \<le> unat n \<and> unat n \<le> 16"
    by (simp add: word_le_nat_alt)
qed

lemma sigop_pushnum: "is_checksig op \<or> is_checkmultisig op \<Longrightarrow> decode_pushnum op = None"
  by (auto simp: is_checksig_def is_checkmultisig_def decode_pushnum_def)

lemma count_loop_legacy:
  assumes "\<exists>is. items = map Inr is \<or> (\<exists>e. items = map Inr is @ [Inl e])"
  shows "count_sigops_loop False n c items = n + sum_list (map legacy_sigops items)"
proof -
  have "count_sigops_loop False n c (map Inr is @ err) = n + sum_list (map legacy_sigops (map Inr is))"
    if "err = [] \<or> (\<exists>e. err = [Inl e])" for "is" err
  proof (induction "is" arbitrary: n c)
    case Nil
    then show ?case using that by auto
  next
    case (Cons i "is")
    show ?case
    proof (cases i)
      case (Op op)
      have b: "(case (False, c) of (True, Some p) \<Rightarrow> f p | _ \<Rightarrow> g) = g" for f :: "u8 \<Rightarrow> nat" and g by simp
      show ?thesis
        using Cons.IH by (simp add: Op is_checksig_def is_checkmultisig_def b)
    qed (simp add: Cons.IH)
  qed
  from this [of "[]"] this [of "[Inl _]"] show ?thesis using assms by auto
qed

lemma count_loop_documented:
  "sigops_apart items \<Longrightarrow> multisig_first items \<longrightarrow> c = p \<Longrightarrow>
     count_sigops_loop True n c items = n + documented_sigops p items"
proof (induction p items arbitrary: n c rule: documented_sigops.induct)
  case (4 prev op r)
  then show ?case
    using sigop_pushnum [of op] by (auto simp: is_checksig_def is_checkmultisig_def split: option.splits)
qed auto

lemma count_loop_le:
  "(\<And>k. c = Some k \<Longrightarrow> unat k \<le> 20) \<Longrightarrow>
     count_sigops_loop True n c items \<le> count_sigops_loop False (n + j) c' items"
proof (induction items arbitrary: n c j c')
  case (Cons x items)
  show ?case
  proof (cases x)
    case (Inr i)
    show ?thesis
    proof (cases i)
      case (PushBytes d)
      then show ?thesis using Inr Cons.IH [of None n j None] by simp
    next
      case (Op op)
      have 1: "count_sigops_loop True (n + 1) c items \<le> count_sigops_loop False (n + j + 1) c' items"
        using Cons.IH [of c "n + 1" j c', OF Cons.prems] by (simp add: add.commute add.left_commute)
      have 20: "count_sigops_loop True (n + k) c items \<le> count_sigops_loop False (n + j + 20) c' items" if "k \<le> 20" for k
        using Cons.IH [of c "n + k" "20 + j - k" c', OF Cons.prems] that by (simp add: algebra_simps)
      have 0: "count_sigops_loop True n (decode_pushnum op) items \<le> count_sigops_loop False (n + j) (decode_pushnum op) items"
        using Cons.IH [of "decode_pushnum op" n j] decode_pushnum_range [of op] by fastforce
      show ?thesis
        unfolding Inr Op using 1 20 0 Cons.prems by (cases c) (auto split: option.split)
    qed
  qed simp
qed simp

lemma legacy_bound: "sum_list (map legacy_sigops items) \<le> 20 * length items"
proof (induction items)
  case (Cons x items)
  have "legacy_sigops x \<le> 20" by (cases x rule: legacy_sigops.cases) auto
  then show ?case using Cons by simp
qed simp

lemma instructions_length: "length (instructions m s) \<le> length s"
proof (induction "length s" arbitrary: s rule: less_induct)
  case less
  obtain y r where n: "next_instruction m s = (y, r)" by fastforce
  show ?case
  proof (cases y)
    case (Some x)
    then have "length r < length s" using n next_instruction_length by blast
    moreover from this have "length (instructions m r) \<le> length r" by (rule less)
    ultimately show ?thesis using instructions_next [OF n] Some by simp
  qed (simp add: instructions_next [OF n])
qed

text \<open>
  the legacy count is one for each \<open>CHECKSIG\<close> and twenty for each \<open>CHECKMULTISIG\<close> (and their \<open>VERIFY\<close>
  forms) read before the first malformed push, it is at most twenty times the length of the script, and
  the accurate count never exceeds it.
\<close>

theorem sigops_bounds:
  "count_sigops_legacy s = sum_list (map legacy_sigops (instructions False s))
   \<and> count_sigops s \<le> count_sigops_legacy s \<and> count_sigops_legacy s \<le> 20 * length s"
proof -
  have l: "count_sigops_legacy s = sum_list (map legacy_sigops (instructions False s))"
    using count_loop_legacy [OF instructions_error_last_aux [of False s], of 0 None]
    by (simp add: count_sigops_legacy_def count_sigops_internal_def)
  moreover have "count_sigops s \<le> count_sigops_legacy s"
    using count_loop_le [of None 0 "instructions False s" 0 None]
    by (simp add: count_sigops_def count_sigops_legacy_def count_sigops_internal_def)
  moreover have "sum_list (map legacy_sigops (instructions False s)) \<le> 20 * length s"
    using legacy_bound [of "instructions False s"] instructions_length [of False s] by linarith
  ultimately show ?thesis by simp
qed

text \<open>
  the accurate count is the documented one (a multisig counts the keys pushed just before it, else
  twenty) on every script in which no multisig directly follows another signature check.
\<close>

theorem sigops_accurate:
  assumes "sigops_apart (instructions False s)"
  shows "count_sigops s = documented_sigops None (instructions False s)"
  using count_loop_documented [OF assms, of None None 0]
  by (simp add: count_sigops_def count_sigops_internal_def)

lemma instructions_ops: "list_all (\<lambda>op. OP_PUSHDATA4 < op) s \<Longrightarrow> instructions False s = map (\<lambda>op. Inr (Op op)) s"
  using instructions_ser [of False "map Op s"] by (simp add: list_all_iff comp_def)

theorem sigops_accurate_witness:
  "sigops_apart (instructions False [0x53, OP_CHECKMULTISIG, OP_DUP, OP_CHECKMULTISIG])
   \<and> count_sigops [0x53, OP_CHECKMULTISIG, OP_DUP, OP_CHECKMULTISIG] = 23"
proof -
  have i: "instructions False [0x53, OP_CHECKMULTISIG, OP_DUP, OP_CHECKMULTISIG]
      = map (\<lambda>op. Inr (Op op)) [0x53, OP_CHECKMULTISIG, OP_DUP, OP_CHECKMULTISIG]"
    by (rule instructions_ops) simp
  have a: "sigops_apart (instructions False [0x53, OP_CHECKMULTISIG, OP_DUP, OP_CHECKMULTISIG])"
    unfolding i by (simp add: is_checksig_def is_checkmultisig_def)
  from sigops_accurate [OF a] show ?thesis
    using a unfolding i by (simp add: is_checksig_def is_checkmultisig_def decode_pushnum_def)
qed

text \<open>
  where a multisig directly follows another signature check the accurate count uses a number pushed
  before that check: \<open>2 CHECKSIG CHECKMULTISIG\<close> counts 3 instead of the documented 21.
\<close>

theorem sigops_stale_pushnum:
  "count_sigops [0x52, OP_CHECKSIG, OP_CHECKMULTISIG] = 3
   \<and> documented_sigops None (instructions False [0x52, OP_CHECKSIG, OP_CHECKMULTISIG]) = 21"
proof -
  have i: "instructions False [0x52, OP_CHECKSIG, OP_CHECKMULTISIG]
      = map (\<lambda>op. Inr (Op op)) [0x52, OP_CHECKSIG, OP_CHECKMULTISIG]"
    by (rule instructions_ops) simp
  show ?thesis
    unfolding count_sigops_def count_sigops_internal_def i
    by (simp add: is_checksig_def is_checkmultisig_def decode_pushnum_def)
qed

text \<open>The instructions of a bare multisig output: the threshold, the keys, an opcode for their number.\<close>

lemma multisig_keys_push: "multisig_keys n (map (\<lambda>k. Inr (PushBytes k)) ks @ r) = multisig_keys (n + of_nat (length ks)) r"
  by (induction ks arbitrary: n) (simp_all add: algebra_simps)

lemma multisig_keys_iff:
  "multisig_keys n items = Some (k, Inr (Op op2) # r) \<longleftrightarrow>
     (\<exists>ks x. items = map (\<lambda>d. Inr (PushBytes d)) ks @ x # Inr (Op op2) # r \<and> k = n + of_nat (length ks)
        \<and> (case x of Inl e \<Rightarrow> True | Inr (PushBytes d) \<Rightarrow> False
           | Inr (Op op) \<Rightarrow> decode_pushnum op = None \<or> decode_pushnum op = Some k))"
  (is "?l \<longleftrightarrow> ?r")
proof
  show "?l \<Longrightarrow> ?r"
  proof (induction n items rule: multisig_keys.induct)
    case (2 n e r)
    then show ?case by (intro exI [of _ "[]"] exI [of _ "Inl e"]) simp
  next
    case (3 n d r')
    then obtain ks x where "r' = map (\<lambda>d. Inr (PushBytes d)) ks @ x # Inr (Op op2) # r"
        "k = n + 1 + of_nat (length ks)"
        "case x of Inl e \<Rightarrow> True | Inr (PushBytes d) \<Rightarrow> False
           | Inr (Op op) \<Rightarrow> decode_pushnum op = None \<or> decode_pushnum op = Some k" by auto
    then show ?case by (intro exI [of _ "d # ks"] exI [of _ x]) (simp add: algebra_simps)
  next
    case (4 n op r')
    then show ?case by (intro exI [of _ "[]"] exI [of _ "Inr (Op op)"]) (auto split: option.splits if_splits)
  qed simp
next
  assume ?r
  then obtain ks x where *: "items = map (\<lambda>d. Inr (PushBytes d)) ks @ x # Inr (Op op2) # r"
      "k = n + of_nat (length ks)"
      "case x of Inl e \<Rightarrow> True | Inr (PushBytes d) \<Rightarrow> False
         | Inr (Op op) \<Rightarrow> decode_pushnum op = None \<or> decode_pushnum op = Some k" by blast
  from *(3) show ?l unfolding *(1) multisig_keys_push *(2) [symmetric]
    by (cases x) (auto split: instruction.splits)
qed

lemma error_last: "instructions m s = a @ Inl e # b \<Longrightarrow> b = []"
proof -
  assume a: "instructions m s = a @ Inl e # b"
  obtain "is" err where i: "instructions m s = map Inr is @ err" "err = [] \<or> (\<exists>e. err = [Inl e])"
    using instructions_error_last_aux [of m s] by (metis append_Nil2)
  with a show "b = []"
    by (auto simp: append_eq_append_conv2 append_eq_Cons_conv Cons_eq_append_conv map_eq_append_conv map_eq_Cons_conv)
qed

lemma only_op: "(case r of Inr (Op op) # r' \<Rightarrow> op = x \<and> r' = [] | _ \<Rightarrow> False) \<longleftrightarrow> r = [Inr (Op x)]"
  by (auto split: list.split sum.split instruction.split)

text \<open>
  exactly which scripts \<open>is_multisig\<close> accepts: a threshold opcode, any number of pushes, one opcode and
  \<open>CHECKMULTISIG\<close>, where the threshold is at most the number of pushes modulo 256 and the opcode is either
  that number or no number at all. In particular every script \<open>m key... n CHECKMULTISIG\<close> with
  \<open>m \<le> n \<le> 16\<close> is accepted, and so is \<open>1 key NOP CHECKMULTISIG\<close>, which is not of the documented form.
\<close>

theorem is_multisig_exact:
  "(is_multisig s \<longleftrightarrow>
      (\<exists>op1 m ks op2. instructions False s =
           Inr (Op op1) # map (\<lambda>k. Inr (PushBytes k)) ks @ [Inr (Op op2), Inr (Op OP_CHECKMULTISIG)]
         \<and> decode_pushnum op1 = Some m \<and> m \<le> of_nat (length ks)
         \<and> (decode_pushnum op2 = None \<or> decode_pushnum op2 = Some (of_nat (length ks)))))
   \<and> is_multisig [OP_PUSHNUM_1, 1, 7, OP_NOP, OP_CHECKMULTISIG]"
proof
  show "is_multisig s \<longleftrightarrow>
      (\<exists>op1 m ks op2. instructions False s =
           Inr (Op op1) # map (\<lambda>k. Inr (PushBytes k)) ks @ [Inr (Op op2), Inr (Op OP_CHECKMULTISIG)]
         \<and> decode_pushnum op1 = Some m \<and> m \<le> of_nat (length ks)
         \<and> (decode_pushnum op2 = None \<or> decode_pushnum op2 = Some (of_nat (length ks))))" (is "?l \<longleftrightarrow> ?r")
  proof
    assume ?l
    then obtain op1 m k r1 where s: "instructions False s = Inr (Op op1) # r1" "decode_pushnum op1 = Some m"
        "multisig_keys 0 r1 = Some (k, [Inr (Op OP_CHECKMULTISIG)])" "m \<le> k"
      unfolding is_multisig_def only_op by (auto split: list.splits sum.splits instruction.splits option.splits)
    then obtain ks x where x: "r1 = map (\<lambda>d. Inr (PushBytes d)) ks @ [x, Inr (Op OP_CHECKMULTISIG)]"
        "k = of_nat (length ks)" "case x of Inl e \<Rightarrow> True | Inr (PushBytes d) \<Rightarrow> False
         | Inr (Op op) \<Rightarrow> decode_pushnum op = None \<or> decode_pushnum op = Some k"
      by (auto simp: multisig_keys_iff)
    have "x \<noteq> Inl e" for e
      using error_last [of False s "Inr (Op op1) # map (\<lambda>d. Inr (PushBytes d)) ks" e "[Inr (Op OP_CHECKMULTISIG)]"] s(1) x(1)
      by auto
    then obtain op2 where "x = Inr (Op op2)" using x(3) by (cases x) (auto split: instruction.splits)
    then show ?r using s x by auto
  next
    assume ?r
    then obtain op1 m ks op2 where s: "instructions False s =
           Inr (Op op1) # map (\<lambda>k. Inr (PushBytes k)) ks @ [Inr (Op op2), Inr (Op OP_CHECKMULTISIG)]"
        "decode_pushnum op1 = Some m" "m \<le> of_nat (length ks)"
        "decode_pushnum op2 = None \<or> decode_pushnum op2 = Some (of_nat (length ks))" by blast
    then show ?l by (auto simp: is_multisig_def multisig_keys_push)
  qed
next
  have "instructions False (concat (map instr_ser [Op OP_PUSHNUM_1, PushBytes [7], Op OP_NOP, Op OP_CHECKMULTISIG]))
      = map Inr [Op OP_PUSHNUM_1, PushBytes [7], Op OP_NOP, Op OP_CHECKMULTISIG]"
    by (rule instructions_ser) simp
  then show "is_multisig [OP_PUSHNUM_1, 1, 7, OP_NOP, OP_CHECKMULTISIG]"
    by (simp add: push_header_def is_multisig_def decode_pushnum_def)
qed

end
