(* ===== verification/Witness.thy ===== *)
theory Witness
  imports Encode
begin

text \<open>
  The witness of an input (\<open>src/litecoin/src/blockdata/witness.rs\<close>): a stack of byte strings kept in one
  buffer, the elements with their lengths first and an index of four bytes for each element behind them.
  The operations are modelled on that buffer; \<open>witness_of\<close> is the buffer of a list of byte strings, and
  the lemmas show that every operation does on buffers what it should on lists. Where a result is an
  option of an option the outer \<^term>\<open>None\<close> is a panic. Indices are stored in the byte order of the
  machine, here little-endian.
\<close>

section \<open>The code\<close>

record witness =
  content :: bytes
  witness_elements :: nat
  indices_start :: nat

definition witness_new :: witness where
  "witness_new = \<lparr> content = [], witness_elements = 0, indices_start = 0 \<rparr>"

text \<open>Rust's \<open>Vec::resize\<close>, \<open>rotate_right\<close> and \<open>copy_from_slice\<close> into a sub-slice.\<close>

definition vec_resize :: "bytes \<Rightarrow> nat \<Rightarrow> bytes" where
  "vec_resize v n = take n v @ replicate (n - length v) 0"

definition rotate_right :: "nat \<Rightarrow> bytes \<Rightarrow> bytes" where
  "rotate_right k v = drop (length v - k) v @ take (length v - k) v"

definition copy_slice :: "bytes \<Rightarrow> nat \<Rightarrow> bytes \<Rightarrow> bytes option" where
  "copy_slice v start d = (if start + length d \<le> length v then Some (overwrite v start d) else None)"

definition encode_cursor :: "bytes \<Rightarrow> nat \<Rightarrow> nat \<Rightarrow> nat \<Rightarrow> bytes option" where
  "encode_cursor bs start_of_indices index value =
     (if value < 2 ^ 32 then copy_slice bs (start_of_indices + index * 4) (to_le_bytes (of_nat value :: u32))
      else None)"

definition decode_cursor :: "bytes \<Rightarrow> nat \<Rightarrow> nat \<Rightarrow> nat option" where
  "decode_cursor bs start_of_indices index =
     (let start = start_of_indices + index * 4 in
      if length bs < start + 4 then None
      else Some (unat (from_le_bytes (take 4 (drop start bs)) :: u32)))"

function grown_len :: "nat \<Rightarrow> nat \<Rightarrow> nat" where
  "grown_len new_len required_len =
     (if new_len \<le> required_len \<and> 0 < new_len then grown_len (new_len * 2) required_len else new_len)"
  by pat_completeness auto
termination
  by (relation "measure (\<lambda>(n, r). Suc r - n)") auto

declare grown_len.simps [simp del]

definition resize_if_needed :: "bytes \<Rightarrow> nat \<Rightarrow> bytes" where
  "resize_if_needed v required_len =
     (if length v \<le> required_len then vec_resize v (grown_len (max (length v) 1) required_len) else v)"

text \<open>A \<open>VarInt\<close> written into the slice reserved for it.\<close>

definition put_varint :: "bytes \<Rightarrow> nat \<Rightarrow> u64 \<Rightarrow> bytes option" where
  "put_varint v start n =
     (if start + varint_size n \<le> length v
      then (case varint_encode n of Inl e \<Rightarrow> None
            | Inr (b, k) \<Rightarrow> if length b \<le> varint_size n then Some (overwrite v start b) else None)
      else None)"

text \<open>\<open>from_slice\<close>.\<close>

fun from_slice_loop :: "nat \<Rightarrow> nat \<Rightarrow> nat \<Rightarrow> bytes \<Rightarrow> bytes list \<Rightarrow> bytes option" where
  "from_slice_loop content_size i cursor v [] = Some v"
| "from_slice_loop content_size i cursor v (elem # elems) =
     (let elem_len_varint = of_nat (length elem) :: u64; n = varint_size elem_len_varint in
      Option.bind (encode_cursor v content_size i cursor) (\<lambda>v.
      Option.bind (put_varint v cursor elem_len_varint) (\<lambda>v.
      Option.bind (copy_slice v (cursor + n) elem) (\<lambda>v.
        from_slice_loop content_size (i + 1) (cursor + n + length elem) v elems))))"

definition from_slice :: "bytes list \<Rightarrow> witness option" where
  "from_slice elems =
     (let n = length elems;
          content_size = sum_list (map (\<lambda>e. length e + varint_size (of_nat (length e))) elems) in
      map_option (\<lambda>v. \<lparr> content = v, witness_elements = n, indices_start = content_size \<rparr>)
        (from_slice_loop content_size 0 0 (replicate (content_size + n * 4) 0) elems))"

definition witness_push :: "witness \<Rightarrow> bytes \<Rightarrow> witness option" where
  "witness_push self new_element =
     (let elements = witness_elements self + 1;
          previous_content_end = indices_start self;
          element_len_varint = of_nat (length new_element) :: u64;
          new_item_total_len = varint_size element_len_varint + length new_element;
          v = vec_resize (content self) (length (content self) + new_item_total_len + 4);
          v = take previous_content_end v @ rotate_right new_item_total_len (drop previous_content_end v);
          start = indices_start self + new_item_total_len;
          end_varint = previous_content_end + varint_size element_len_varint in
      Option.bind (encode_cursor v start (elements - 1) previous_content_end) (\<lambda>v.
      Option.bind (put_varint v previous_content_end element_len_varint) (\<lambda>v.
      Option.bind (copy_slice v end_varint new_element) (\<lambda>v.
        Some \<lparr> content = v, witness_elements = elements, indices_start = start \<rparr>))))"

definition witness_clear :: "witness \<Rightarrow> witness" where
  "witness_clear self = \<lparr> content = [], witness_elements = 0, indices_start = 0 \<rparr>"

text \<open>Access by index.\<close>

definition slice_at :: "bytes \<Rightarrow> nat \<Rightarrow> nat \<Rightarrow> bytes option" where
  "slice_at v start n = (if start + n \<le> length v then Some (take n (drop start v)) else None)"

definition element_at :: "bytes \<Rightarrow> nat \<Rightarrow> bytes option option" where
  "element_at v index =
     (if index \<le> length v
      then (case varint_decode (drop index v) of Inl e \<Rightarrow> Some None
            | Inr (n, _) \<Rightarrow> map_option Some (slice_at v (index + varint_size n) (unat n)))
      else None)"

definition witness_nth :: "witness \<Rightarrow> nat \<Rightarrow> bytes option option" where
  "witness_nth self index =
     (case decode_cursor (content self) (indices_start self) index of None \<Rightarrow> Some None
      | Some p \<Rightarrow> element_at (content self) p)"

definition witness_last :: "witness \<Rightarrow> bytes option option" where
  "witness_last self =
     (if witness_elements self = 0 then Some None else witness_nth self (witness_elements self - 1))"

definition second_to_last :: "witness \<Rightarrow> bytes option option" where
  "second_to_last self =
     (if witness_elements self \<le> 1 then Some None else witness_nth self (witness_elements self - 2))"

definition third_to_last :: "witness \<Rightarrow> bytes option option" where
  "third_to_last self =
     (if witness_elements self \<le> 2 then Some None else witness_nth self (witness_elements self - 3))"

definition wit_is_empty :: "witness \<Rightarrow> bool" where
  "wit_is_empty self \<longleftrightarrow> witness_elements self = 0"

definition wit_len :: "witness \<Rightarrow> nat" where
  "wit_len self = witness_elements self"

text \<open>\<open>Iter\<close>: the elements it gives until it ends; \<^term>\<open>None\<close> for a panic.\<close>

function iter_from :: "bytes \<Rightarrow> nat \<Rightarrow> nat \<Rightarrow> bytes list option" where
  "iter_from inner_bytes start current_index =
     (case decode_cursor inner_bytes start current_index of None \<Rightarrow> Some []
      | Some index \<Rightarrow>
         (case element_at inner_bytes index of None \<Rightarrow> None | Some None \<Rightarrow> Some []
          | Some (Some s) \<Rightarrow> map_option (Cons s) (iter_from inner_bytes start (current_index + 1))))"
  by pat_completeness auto
termination
  by (relation "measure (\<lambda>(v, s, i). Suc (length v) - i)") (auto simp: decode_cursor_def Let_def split: if_splits)

declare iter_from.simps [simp del]

definition to_vec :: "witness \<Rightarrow> bytes list option" where
  "to_vec self = iter_from (content self) (indices_start self) 0"

definition witness_size :: "witness \<Rightarrow> nat option" where
  "witness_size self =
     map_option (\<lambda>es. varint_size (of_nat (witness_elements self))
         + sum_list (map (\<lambda>e. varint_size (of_nat (length e)) + length e) es))
       (to_vec self)"

text \<open>Encoding and decoding.\<close>

definition witness_encode :: "witness \<Rightarrow> io_failure encoded" where
  "witness_encode self =
     (let len = of_nat (witness_elements self) :: u64;
          content_len = length (content self) - witness_elements self * 4 in
      reporting (enc_seq (varint_encode len) (emit_slice (take content_len (content self))))
        (content_len + varint_size len))"

abbreviation dpanic :: "(encode_error, 'a) decoder" where
  "dpanic \<equiv> dfail (ErrIo Panic)"

definition dsome :: "'a option \<Rightarrow> (encode_error, 'a) decoder" where
  "dsome x = (case x of None \<Rightarrow> dpanic | Some y \<Rightarrow> dreturn y)"

primrec witness_decode_loop ::
    "nat \<Rightarrow> nat \<Rightarrow> nat \<Rightarrow> nat \<Rightarrow> bytes \<Rightarrow> (encode_error, nat \<times> bytes) decoder" where
  "witness_decode_loop 0 i space cursor v = dreturn (cursor, v)"
| "witness_decode_loop (Suc k) i space cursor v =
     dbind varint_decode (\<lambda>element_size_varint.
       let varint_len = varint_size element_size_varint;
           element_size = unat element_size_varint;
           required_len = cursor + element_size + varint_len in
       if 2 ^ 64 \<le> required_len then dfail (OversizedVectorAllocation (2 ^ 64 - 1) MAX_VEC_SIZE)
       else if MAX_VEC_SIZE + space < required_len
         then dfail (OversizedVectorAllocation required_len MAX_VEC_SIZE)
       else dbind (dsome (encode_cursor v 0 i (cursor - space))) (\<lambda>v.
            dbind (dsome (put_varint (resize_if_needed v required_len) cursor element_size_varint)) (\<lambda>v.
            dbind (dio (dread element_size)) (\<lambda>bs.
            dbind (dsome (copy_slice v (cursor + varint_len) bs)) (\<lambda>v.
              witness_decode_loop k (i + 1) space (cursor + varint_len + element_size) v)))))"

definition witness_decode :: "(encode_error, witness) decoder" where
  "witness_decode =
     dbind varint_decode (\<lambda>n. let elements = unat n in
       if MAX_VEC_SIZE < elements then dfail (OversizedVectorAllocation elements MAX_VEC_SIZE)
       else if elements = 0 then dreturn witness_new
       else let space = elements * 4 in
         dmap (\<lambda>(cursor, v). \<lparr> content = drop space (take cursor v) @ take space (take cursor v),
                              witness_elements = elements, indices_start = cursor - space \<rparr>)
           (witness_decode_loop elements 0 space space (replicate (space + 128) 0)))"

section \<open>Taproot spends\<close>

definition TAPROOT_ANNEX_PREFIX :: u8 where
  "TAPROOT_ANNEX_PREFIX = 0x50"

definition TAPROOT_CONTROL_BASE_SIZE :: nat where
  "TAPROOT_CONTROL_BASE_SIZE = 33"

datatype p2tr_spend =
    KeySpend "bytes option"
  | ScriptSpend bytes bytes "bytes option"

definition starts_with_annex :: "bytes \<Rightarrow> bool" where
  "starts_with_annex e \<longleftrightarrow> e \<noteq> [] \<and> hd e = TAPROOT_ANNEX_PREFIX"

text \<open>\<open>expect\<close> on an element: a panic when there is none.\<close>

definition expected :: "bytes option option \<Rightarrow> bytes option" where
  "expected x = Option.bind x (\<lambda>y. y)"

definition from_witness :: "witness \<Rightarrow> p2tr_spend option option" where
  "from_witness w =
     (if witness_elements w = 0 then Some None
      else if witness_elements w = 1 then Some (Some (KeySpend None))
      else Option.bind (expected (witness_last w)) (\<lambda>l.
        if witness_elements w = 2 \<and> starts_with_annex l then Some (Some (KeySpend (Some l)))
        else if starts_with_annex l
          then Option.bind (expected (third_to_last w)) (\<lambda>leaf_script.
               Option.bind (expected (second_to_last w)) (\<lambda>control_block.
                 Some (Some (ScriptSpend leaf_script control_block (Some l)))))
        else Option.bind (expected (second_to_last w)) (\<lambda>leaf_script.
               Some (Some (ScriptSpend leaf_script l None)))))"

fun spend_annex :: "p2tr_spend \<Rightarrow> bytes option" where
  "spend_annex (KeySpend annex) = annex"
| "spend_annex (ScriptSpend leaf_script control_block annex) = annex"

datatype leaf_version = LeafTapScript | Future u8

definition leaf_version_from_consensus :: "u8 \<Rightarrow> u8 + leaf_version" where
  "leaf_version_from_consensus version =
     (if version = 0xc0 then Inr LeafTapScript
      else if version = TAPROOT_ANNEX_PREFIX then Inl TAPROOT_ANNEX_PREFIX
      else if version AND 0xFE \<noteq> version then Inl version
      else Inr (Future version))"

fun leaf_version_to_consensus :: "leaf_version \<Rightarrow> u8" where
  "leaf_version_to_consensus LeafTapScript = 0xc0"
| "leaf_version_to_consensus (Future version) = version"

definition tapscript :: "witness \<Rightarrow> bytes option option" where
  "tapscript w = map_option (\<lambda>s. case s of Some (ScriptSpend leaf_script _ _) \<Rightarrow> Some leaf_script | _ \<Rightarrow> None)
     (from_witness w)"

definition taproot_leaf_script :: "witness \<Rightarrow> (leaf_version \<times> bytes) option option" where
  "taproot_leaf_script w = map_option (\<lambda>s. case s of
       Some (ScriptSpend leaf_script control_block _) \<Rightarrow>
         if TAPROOT_CONTROL_BASE_SIZE \<le> length control_block
         then (case leaf_version_from_consensus (hd control_block AND 0xfe) of Inl e \<Rightarrow> None
               | Inr version \<Rightarrow> Some (version, leaf_script))
         else None
     | _ \<Rightarrow> None) (from_witness w)"

definition taproot_control_block :: "witness \<Rightarrow> bytes option option" where
  "taproot_control_block w =
     map_option (\<lambda>s. case s of Some (ScriptSpend _ control_block _) \<Rightarrow> Some control_block | _ \<Rightarrow> None)
       (from_witness w)"

definition taproot_annex :: "witness \<Rightarrow> bytes option option" where
  "taproot_annex w = map_option (\<lambda>s. Option.bind s spend_annex) (from_witness w)"

definition witness_script :: "witness \<Rightarrow> bytes option option" where
  "witness_script w = witness_last w"

section \<open>The buffer of a list of byte strings\<close>

definition offset :: "bytes list \<Rightarrow> nat \<Rightarrow> nat" where
  "offset es i = length (concat (map bytes_ser (take i es)))"

definition elements_ser :: "bytes list \<Rightarrow> bytes" where
  "elements_ser es = concat (map bytes_ser es)"

definition index_of :: "bytes list \<Rightarrow> nat \<Rightarrow> bytes" where
  "index_of es n = concat (map (\<lambda>i. to_le_bytes (of_nat (offset es i) :: u32)) [0..<n])"

definition witness_of :: "bytes list \<Rightarrow> witness" where
  "witness_of es =
     \<lparr> content = elements_ser es @ index_of es (length es), witness_elements = length es,
       indices_start = length (elements_ser es) \<rparr>"

text \<open>Stacks whose elements can be indexed with four bytes.\<close>

definition stack_wf :: "bytes list \<Rightarrow> bool" where
  "stack_wf es \<longleftrightarrow> length (elements_ser es) < 2 ^ 32"

lemma length_bytes_ser: "length (bytes_ser e) = varint_size (of_nat (length e)) + length e"
  by (simp add: bytes_ser_def length_varint_ser)

lemma length_elements_ser: "length (elements_ser es) = sum_list (map (\<lambda>e. length e + varint_size (of_nat (length e))) es)"
  by (induction es) (simp_all add: elements_ser_def length_bytes_ser)

lemma elements_ser_simps [simp]:
  "elements_ser [] = []" "elements_ser (e # es) = bytes_ser e @ elements_ser es"
  "elements_ser (es @ fs) = elements_ser es @ elements_ser fs"
  by (simp_all add: elements_ser_def)

lemma length_concat_4:
  "(\<And>x. x \<in> set xs \<Longrightarrow> length (f x) = 4) \<Longrightarrow> length (concat (map f xs)) = 4 * length xs"
  by (induction xs) simp_all

lemma nth_concat_4:
  assumes "i < length xs" and "\<And>x. x \<in> set xs \<Longrightarrow> length (f x) = 4"
  shows "take 4 (drop (4 * i) (concat (map f xs))) = f (xs ! i)"
  using assms
proof (induction xs arbitrary: i)
  case (Cons x xs)
  show ?case
  proof (cases i)
    case 0
    then show ?thesis using Cons.prems by simp
  next
    case (Suc j)
    then have "drop (4 * i) (concat (map f (x # xs))) = drop (4 * j) (concat (map f xs))"
      using Cons.prems(2) [of x] by (simp add: drop_append)
    then show ?thesis using Suc Cons.IH [of j] Cons.prems by simp
  qed
qed simp

lemma length_index_of [simp]: "length (index_of es n) = 4 * n"
  unfolding index_of_def by (subst length_concat_4) (simp_all add: length_to_le_bytes)

lemma index_of_Suc: "index_of es (Suc n) = index_of es n @ to_le_bytes (of_nat (offset es n) :: u32)"
  by (simp add: index_of_def)

lemma offset_append: "i \<le> length es \<Longrightarrow> offset (es @ fs) i = offset es i"
  by (simp add: offset_def)

lemma offset_all: "offset es (length es) = length (elements_ser es)"
  by (simp add: offset_def elements_ser_def)

lemma index_of_append: "n \<le> length es \<Longrightarrow> index_of (es @ fs) n = index_of es n"
  by (auto simp: index_of_def offset_append intro!: arg_cong [of _ _ concat])

lemma offset_le: "offset es i \<le> length (elements_ser es)"
proof -
  have "length (elements_ser es) = length (elements_ser (take i es)) + length (elements_ser (drop i es))"
    by (simp flip: length_append elements_ser_simps(3))
  then show ?thesis by (simp add: offset_def elements_ser_def)
qed

lemma elements_ser_split: "i < length es \<Longrightarrow>
    elements_ser es = elements_ser (take i es) @ bytes_ser (es ! i) @ elements_ser (drop (Suc i) es)"
  by (metis append.assoc elements_ser_simps(2,3) id_take_nth_drop)

text \<open>Writing into a buffer whose layout is known.\<close>

lemma overwrite_at: "length b = length d \<Longrightarrow> overwrite (a @ b @ c) (length a) d = a @ d @ c"
  by (simp add: overwrite_def)

lemma copy_slice_at: "length b = length d \<Longrightarrow> start = length a \<Longrightarrow> copy_slice (a @ b @ c) start d = Some (a @ d @ c)"
  by (simp add: copy_slice_def overwrite_at)

lemma put_varint_at:
  "length b = varint_size n \<Longrightarrow> start = length a \<Longrightarrow> put_varint (a @ b @ c) start n = Some (a @ varint_ser n @ c)"
  by (simp add: put_varint_def varint_encode_wrote wrote_def length_varint_ser overwrite_at)

lemma encode_cursor_at:
  "length b = 4 \<Longrightarrow> start + index * 4 = length a \<Longrightarrow> value < 2 ^ 32 \<Longrightarrow>
     encode_cursor (a @ b @ c) start index value = Some (a @ to_le_bytes (of_nat value :: u32) @ c)"
  by (simp add: encode_cursor_def copy_slice_at length_to_le_bytes)

text \<open>Length and bytes of an element, written one after the other.\<close>

lemma put_element_at:
  assumes "length b = length (bytes_ser e)" and "start = length a"
  shows "Option.bind (put_varint (a @ b @ c) start (of_nat (length e))) (\<lambda>v.
           copy_slice v (start + varint_size (of_nat (length e))) e) = Some (a @ bytes_ser e @ c)"
proof -
  let ?n = "varint_size (of_nat (length e))"
  obtain b1 b2 where b: "b = b1 @ b2" "length b1 = ?n" "length b2 = length e"
  proof
    show "b = take ?n b @ drop ?n b" "length (take ?n b) = ?n" "length (drop ?n b) = length e"
      using assms(1) by (simp_all add: length_bytes_ser)
  qed
  have "put_varint (a @ b1 @ b2 @ c) start (of_nat (length e)) = Some (a @ varint_ser (of_nat (length e)) @ b2 @ c)"
    by (rule put_varint_at [OF b(2) assms(2)])
  moreover have "copy_slice ((a @ varint_ser (of_nat (length e))) @ b2 @ c) (start + ?n) e
      = Some ((a @ varint_ser (of_nat (length e))) @ e @ c)"
    by (rule copy_slice_at) (use b assms in \<open>simp_all add: length_varint_ser\<close>)
  ultimately show ?thesis by (simp add: b(1) bytes_ser_def)
qed

section \<open>Every operation on the buffer of a list\<close>

lemma replicate_parts: "n = k + m \<Longrightarrow> replicate n x = replicate k x @ replicate m x"
  by (simp add: replicate_add)

lemma from_slice_loop_eq:
  assumes "length (elements_ser (ds @ es)) < 2 ^ 32"
  shows "from_slice_loop (length (elements_ser (ds @ es))) (length ds) (length (elements_ser ds))
      (elements_ser ds @ replicate (length (elements_ser es)) 0 @ index_of ds (length ds) @ replicate (4 * length es) 0) es
    = Some (elements_ser (ds @ es) @ index_of (ds @ es) (length (ds @ es)))"
  using assms
proof (induction es arbitrary: ds)
  case Nil
  then show ?case by simp
next
  case (Cons e es)
  let ?D = "elements_ser ds" and ?I = "index_of ds (length ds)" and ?k = "length (elements_ser es)"
  let ?x = "to_le_bytes (of_nat (length ?D) :: u32)"
  have r: "replicate (4 * length (e # es)) (0 :: u8) = replicate 4 0 @ replicate (4 * length es) 0"
    by (rule replicate_parts) simp
  have z: "replicate (length (elements_ser (e # es))) (0 :: u8) = replicate (length (bytes_ser e)) 0 @ replicate ?k 0"
    by (rule replicate_parts) simp
  have c: "encode_cursor ((?D @ replicate (length (elements_ser (e # es))) 0 @ ?I) @ replicate 4 0 @ replicate (4 * length es) 0)
        (length (elements_ser (ds @ e # es))) (length ds) (length ?D)
      = Some ((?D @ replicate (length (elements_ser (e # es))) 0 @ ?I) @ ?x @ replicate (4 * length es) 0)"
    by (rule encode_cursor_at) (use Cons.prems in simp_all)
  have p: "Option.bind (put_varint (?D @ replicate (length (bytes_ser e)) 0 @ (replicate ?k 0 @ ?I @ ?x @ replicate (4 * length es) 0))
         (length ?D) (of_nat (length e))) (\<lambda>v. copy_slice v (length ?D + varint_size (of_nat (length e))) e)
      = Some (?D @ bytes_ser e @ (replicate ?k 0 @ ?I @ ?x @ replicate (4 * length es) 0))"
    by (rule put_element_at) simp_all
  have i: "index_of (ds @ [e]) (length (ds @ [e])) = ?I @ ?x"
    by (simp add: index_of_Suc index_of_append offset_append offset_all)
  have "from_slice_loop (length (elements_ser (ds @ e # es))) (Suc (length ds)) (length ?D + length (bytes_ser e))
      (?D @ bytes_ser e @ replicate ?k 0 @ ?I @ ?x @ replicate (4 * length es) 0) es
    = Some (elements_ser (ds @ e # es) @ index_of (ds @ e # es) (length (ds @ e # es)))"
    using Cons.IH [of "ds @ [e]"] Cons.prems i by simp
  then show ?case
    using c p unfolding r z
    by (auto simp: Let_def length_bytes_ser add.assoc Option.bind_eq_Some_conv split: option.splits)
qed

lemma from_slice_eq:
  assumes "stack_wf es"
  shows "from_slice es = Some (witness_of es)"
  using from_slice_loop_eq [of "[]" es] assms
  by (simp add: from_slice_def witness_of_def stack_wf_def Let_def length_elements_ser [symmetric]
      index_of_def replicate_add mult.commute)

lemma witness_push_eq:
  assumes "length (elements_ser es) < 2 ^ 32"
  shows "witness_push (witness_of es) e = Some (witness_of (es @ [e]))"
proof -
  let ?D = "elements_ser es" and ?I = "index_of es (length es)" and ?t = "length (bytes_ser e)"
  let ?x = "to_le_bytes (of_nat (length ?D) :: u32)"
  have "vec_resize (?D @ ?I) (length (?D @ ?I) + ?t + 4) = ?D @ ?I @ replicate ?t 0 @ replicate 4 0"
    by (simp add: vec_resize_def replicate_add)
  moreover have "rotate_right ?t (?I @ replicate ?t 0 @ replicate 4 0) = replicate ?t 0 @ ?I @ replicate 4 0"
  proof -
    have s: "replicate ?t (0 :: u8) @ replicate 4 0 = replicate 4 0 @ replicate ?t 0"
      by (simp add: add.commute flip: replicate_add)
    have "length (?I @ replicate 4 0 @ replicate ?t 0) - ?t = length (?I @ replicate 4 (0 :: u8))" by simp
    then show ?thesis unfolding s rotate_right_def by simp
  qed
  ultimately have v: "vec_resize (?D @ ?I) (length (?D @ ?I) + ?t + 4) = ?D @ ?I @ replicate ?t 0 @ replicate 4 0"
    and w: "rotate_right ?t (?I @ replicate ?t 0 @ replicate 4 0) = replicate ?t 0 @ ?I @ replicate 4 0" by blast+
  have c: "encode_cursor ((?D @ replicate ?t 0 @ ?I) @ replicate 4 0 @ []) (length ?D + ?t) (length es) (length ?D)
      = Some ((?D @ replicate ?t 0 @ ?I) @ ?x @ [])"
    by (rule encode_cursor_at) (use assms in simp_all)
  have p: "Option.bind (put_varint (?D @ replicate ?t 0 @ (?I @ ?x)) (length ?D) (of_nat (length e)))
         (\<lambda>v. copy_slice v (length ?D + varint_size (of_nat (length e))) e) = Some (?D @ bytes_ser e @ (?I @ ?x))"
    by (rule put_element_at) simp_all
  have i: "index_of (es @ [e]) (length (es @ [e])) = ?I @ ?x"
    by (simp add: index_of_Suc index_of_append offset_append offset_all)
  have t: "varint_size (of_nat (length e)) + length e = ?t" by (simp add: length_bytes_ser)
  show ?thesis
    unfolding witness_push_def witness_of_def Let_def witness.simps t v
    using c p i by (auto simp: w Option.bind_eq_Some_conv)
qed

lemma decode_cursor_eq:
  assumes "stack_wf es"
  shows "decode_cursor (content (witness_of es)) (indices_start (witness_of es)) i =
     (if i < length es then Some (offset es i) else None)"
proof (cases "i < length es")
  case True
  have "take 4 (drop (length (elements_ser es) + i * 4) (elements_ser es @ index_of es (length es)))
      = to_le_bytes (of_nat (offset es i) :: u32)"
    using nth_concat_4 [of i "[0..<length es]" "\<lambda>i. to_le_bytes (of_nat (offset es i) :: u32)"] True
    by (simp add: index_of_def length_to_le_bytes mult.commute)
  moreover have "unat (of_nat (offset es i) :: u32) = offset es i"
    using offset_le [of es i] assms by (simp add: stack_wf_def unat_of_nat)
  ultimately show ?thesis
    using True by (simp add: decode_cursor_def witness_of_def Let_def from_to_le_bytes)
next
  case False
  then show ?thesis by (simp add: decode_cursor_def witness_of_def Let_def)
qed

lemma element_at_eq:
  assumes "stack_wf es" and "i < length es"
  shows "element_at (content (witness_of es)) (offset es i) = Some (Some (es ! i))"
proof -
  let ?e = "es ! i" and ?v = "content (witness_of es)"
  obtain a b where v: "?v = a @ bytes_ser ?e @ b" and a: "length a = offset es i"
    using elements_ser_split [OF assms(2)]
    by (auto simp: witness_of_def offset_def elements_ser_def intro!: that [of "elements_ser (take i es)"])
  have "length ?e < 2 ^ 64"
    using v assms(1) elements_ser_split [OF assms(2)] by (simp add: stack_wf_def length_bytes_ser)
  then have "varint_decode (varint_ser (of_nat (length ?e)) @ ?e @ b) = Inr (of_nat (length ?e), ?e @ b)"
      "unat (of_nat (length ?e) :: u64) = length ?e"
    by (simp_all add: varint_decode_ser unat_of_nat)
  then show ?thesis
    unfolding element_at_def v
    by (simp add: a [symmetric] bytes_ser_def slice_at_def length_varint_ser)
qed

lemma witness_nth_eq:
  assumes "stack_wf es"
  shows "witness_nth (witness_of es) i = Some (if i < length es then Some (es ! i) else None)"
  using decode_cursor_eq [OF assms, of i] element_at_eq [OF assms, of i] by (simp add: witness_nth_def)

lemma witness_elements_of [simp]: "witness_elements (witness_of es) = length es"
  by (simp add: witness_of_def)

lemma witness_from_end_eq:
  assumes "stack_wf es"
  shows "witness_last (witness_of es) = Some (if es = [] then None else Some (last es))"
    and "second_to_last (witness_of es) = Some (if length es \<le> 1 then None else Some (es ! (length es - 2)))"
    and "third_to_last (witness_of es) = Some (if length es \<le> 2 then None else Some (es ! (length es - 3)))"
  by (auto simp: witness_last_def second_to_last_def third_to_last_def witness_nth_eq [OF assms] last_conv_nth)

lemma iter_from_eq:
  assumes "stack_wf es"
  shows "i \<le> length es \<Longrightarrow>
    iter_from (content (witness_of es)) (indices_start (witness_of es)) i = Some (drop i es)"
proof (induction "length es - i" arbitrary: i)
  case 0
  then show ?case by (subst iter_from.simps) (simp add: decode_cursor_eq [OF assms])
next
  case (Suc k)
  then have i: "i < length es" by simp
  have "iter_from (content (witness_of es)) (indices_start (witness_of es)) (i + 1) = Some (drop (i + 1) es)"
    using Suc.hyps(1) [of "i + 1"] Suc.hyps(2) i by simp
  then show ?case
    using i by (subst iter_from.simps) (simp add: decode_cursor_eq [OF assms] element_at_eq [OF assms i] Cons_nth_drop_Suc)
qed

lemma to_vec_eq: "stack_wf es \<Longrightarrow> to_vec (witness_of es) = Some es"
  using iter_from_eq [of es 0] by (simp add: to_vec_def)

lemma witness_size_eq:
  "stack_wf es \<Longrightarrow> witness_size (witness_of es) = Some (length (vec_ser bytes_ser es))"
  by (simp add: witness_size_def to_vec_eq vec_ser_def length_varint_ser length_elements_ser [unfolded elements_ser_def]
      add.commute)

lemma witness_encode_eq: "witness_encode (witness_of es) = wrote (vec_ser bytes_ser es)"
proof -
  have "take (length (content (witness_of es)) - length es * 4) (content (witness_of es)) = elements_ser es"
    "length (content (witness_of es)) - length es * 4 = length (elements_ser es)"
    by (simp_all add: witness_of_def)
  then show ?thesis
    by (simp add: witness_encode_def Let_def varint_encode_wrote)
      (simp add: wrote_def vec_ser_def length_varint_ser elements_ser_def)
qed

lemma witness_of_inject: "stack_wf es \<Longrightarrow> stack_wf fs \<Longrightarrow> witness_of es = witness_of fs \<Longrightarrow> es = fs"
  using to_vec_eq by (metis option.inject)

section \<open>Decoding\<close>

lemma grown_len_bounds: "0 < n \<Longrightarrow> r < grown_len n r \<and> n \<le> grown_len n r"
proof (induction n r rule: grown_len.induct)
  case (1 n r)
  then show ?case by (subst (1 2) grown_len.simps) fastforce
qed

lemma resize_if_needed_eq: "\<exists>z. resize_if_needed v r = v @ z \<and> r < length (v @ z)"
proof (cases "length v \<le> r")
  case True
  let ?n = "grown_len (max (length v) 1) r"
  have "r < ?n" "length v \<le> ?n" using grown_len_bounds [of "max (length v) 1" r] by auto
  then show ?thesis
    using True by (intro exI [of _ "replicate (?n - length v) 0"]) (simp add: resize_if_needed_def vec_resize_def)
next
  case False
  then show ?thesis by (intro exI [of _ "[]"]) (simp add: resize_if_needed_def)
qed

text \<open>The buffer while \<open>k\<close> elements are still to be read: the index grows in front of the elements.\<close>

definition layout :: "bytes list \<Rightarrow> nat \<Rightarrow> bytes \<Rightarrow> bool" where
  "layout ds k v \<longleftrightarrow> (\<exists>R T. v = index_of ds (length ds) @ R @ elements_ser ds @ T \<and> length R = 4 * k)"

lemma split_three:
  assumes "a + b \<le> length z"
  shows "\<exists>z1 z2 z3. z = z1 @ z2 @ z3 \<and> length z1 = a \<and> length z2 = b"
  using assms
  by - (rule exI [of _ "take a z"], rule exI [of _ "take b (drop a z)"], rule exI [of _ "drop b (drop a z)"], simp del: drop_drop)

lemma decode_step:
  assumes lay: "layout ds (Suc k) v" and sp: "space = 4 * (length ds + Suc k)"
    and cur: "cursor = space + length (elements_ser ds)" and small: "length (elements_ser ds) < 2 ^ 32"
  shows "\<exists>v1 v2. encode_cursor v 0 (length ds) (cursor - space) = Some v1
     \<and> put_varint (resize_if_needed v1 (cursor + unat n + varint_size n)) cursor n = Some v2
     \<and> (\<forall>e. length e = unat n \<longrightarrow>
          (\<exists>v3. copy_slice v2 (cursor + varint_size n) e = Some v3 \<and> layout (ds @ [e]) k v3))"
proof -
  let ?D = "elements_ser ds" and ?I = "index_of ds (length ds)" and ?x = "to_le_bytes (of_nat (length (elements_ser ds)) :: u32)"
  obtain R T where v: "v = ?I @ R @ ?D @ T" and R: "length R = 4 * Suc k" using lay by (auto simp: layout_def)
  let ?R = "drop 4 R"
  have R': "length ?R = 4 * k" "length (take 4 R) = 4" using R by simp_all
  have "encode_cursor (?I @ take 4 R @ (?R @ ?D @ T)) 0 (length ds) (length ?D) = Some (?I @ ?x @ (?R @ ?D @ T))"
    by (rule encode_cursor_at) (use R' small in simp_all)
  then have c: "encode_cursor v 0 (length ds) (cursor - space) = Some (?I @ ?x @ ?R @ ?D @ T)"
    unfolding v using cur by (metis add_diff_cancel_left' append.assoc append_take_drop_id)
  let ?req = "cursor + unat n + varint_size n"
  obtain z where z: "resize_if_needed (?I @ ?x @ ?R @ ?D @ T) ?req = (?I @ ?x @ ?R @ ?D @ T) @ z"
      "?req < length ((?I @ ?x @ ?R @ ?D @ T) @ z)"
    using resize_if_needed_eq by blast
  let ?A = "?I @ ?x @ ?R @ ?D" and ?Z = "T @ z"
  have A: "length ?A = cursor" using R' sp cur by (simp add: length_to_le_bytes)
  have Z: "unat n + varint_size n < length ?Z" using z(2) A by simp
  obtain Z1 Z2 Z3 where split: "?Z = Z1 @ Z2 @ Z3" and Zl: "length Z1 = varint_size n" "length Z2 = unat n"
    using split_three [of "varint_size n" "unat n" ?Z] Z by auto
  have p: "put_varint (?A @ Z1 @ (Z2 @ Z3)) cursor n = Some (?A @ varint_ser n @ (Z2 @ Z3))"
    by (rule put_varint_at) (use A Zl in simp_all)
  have "copy_slice ((?A @ varint_ser n) @ Z2 @ Z3) (cursor + varint_size n) e = Some ((?A @ varint_ser n) @ e @ Z3)
      \<and> layout (ds @ [e]) k ((?A @ varint_ser n) @ e @ Z3)" if e: "length e = unat n" for e
  proof
    show "copy_slice ((?A @ varint_ser n) @ Z2 @ Z3) (cursor + varint_size n) e = Some ((?A @ varint_ser n) @ e @ Z3)"
      by (rule copy_slice_at) (use A Zl e in \<open>simp_all add: length_varint_ser\<close>)
    have "bytes_ser e = varint_ser n @ e" using e by (simp add: bytes_ser_def)
    moreover have "index_of (ds @ [e]) (length (ds @ [e])) = ?I @ ?x"
      by (simp add: index_of_Suc index_of_append offset_append offset_all)
    ultimately show "layout (ds @ [e]) k ((?A @ varint_ser n) @ e @ Z3)"
      unfolding layout_def using R' by (intro exI [of _ ?R] exI [of _ Z3]) simp
  qed
  moreover have "(?I @ ?x @ ?R @ ?D @ T) @ z = ?A @ Z1 @ Z2 @ Z3" using split by simp
  ultimately show ?thesis
    using c z(1) p
    by - (rule exI [of _ "?I @ ?x @ ?R @ ?D @ T"], rule exI [of _ "?A @ varint_ser n @ Z2 @ Z3"], simp)
qed

lemma witness_decode_step:
  assumes "layout ds (Suc k) v" and "space = 4 * (length ds + Suc k)"
    and "cursor = space + length (elements_ser ds)" and "length (elements_ser ds) < 2 ^ 32"
    and "space \<le> 4 * MAX_VEC_SIZE"
  shows "\<exists>v2. witness_decode_loop (Suc k) (length ds) space cursor v (varint_ser n @ q) =
      (if length (elements_ser ds) + varint_size n + unat n \<le> MAX_VEC_SIZE
       then dbind (dio (dread (unat n))) (\<lambda>e. dbind (dsome (copy_slice v2 (cursor + varint_size n) e))
              (witness_decode_loop k (length (ds @ [e])) space (cursor + varint_size n + unat n)))
       else dfail (OversizedVectorAllocation
              (if cursor + unat n + varint_size n < 2 ^ 64 then cursor + unat n + varint_size n else 2 ^ 64 - 1)
              MAX_VEC_SIZE)) q
    \<and> (\<forall>e. length e = unat n \<longrightarrow>
         (\<exists>v3. copy_slice v2 (cursor + varint_size n) e = Some v3 \<and> layout (ds @ [e]) k v3))"
proof -
  let ?req = "cursor + unat n + varint_size n" and ?b = "length (elements_ser ds) + varint_size n + unat n \<le> MAX_VEC_SIZE"
  obtain v1 v2 where v: "encode_cursor v 0 (length ds) (cursor - space) = Some v1"
      "put_varint (resize_if_needed v1 ?req) cursor n = Some v2"
      "\<forall>e. length e = unat n \<longrightarrow> (\<exists>v3. copy_slice v2 (cursor + varint_size n) e = Some v3 \<and> layout (ds @ [e]) k v3)"
    using decode_step [OF assms(1-4), of n] by blast
  have b: "MAX_VEC_SIZE + space < ?req \<longleftrightarrow> \<not> ?b" using assms(3) by (auto simp: algebra_simps)
  have big: "\<not> 2 ^ 64 \<le> ?req" if ?b
    using that assms(3,5) by (simp add: MAX_VEC_SIZE_def)
  show ?thesis
    by (rule exI [of _ v2]) (use v b big in \<open>simp add: dbind_Inr varint_decode_ser Let_def dsome_def\<close>)
qed

lemma witness_decode_loop_ser:
  assumes "layout ds (length es) v" and "space = 4 * (length ds + length es)" and "space \<le> 4 * MAX_VEC_SIZE"
    and "length (elements_ser (ds @ es)) \<le> MAX_VEC_SIZE"
  shows "\<exists>v'. layout (ds @ es) 0 v'
    \<and> witness_decode_loop (length es) (length ds) space (space + length (elements_ser ds)) v (elements_ser es @ r)
        = Inr ((space + length (elements_ser (ds @ es)), v'), r)"
  using assms
proof (induction es arbitrary: ds v)
  case (Cons e es)
  let ?n = "of_nat (length e) :: u64" and ?cursor = "space + length (elements_ser ds)"
  have "length e \<le> MAX_VEC_SIZE" "length (elements_ser ds) \<le> MAX_VEC_SIZE"
    using Cons.prems(4) by (simp_all add: length_bytes_ser)
  then have n: "unat ?n = length e" and d: "length (elements_ser ds) < 2 ^ 32"
    by (simp_all add: MAX_VEC_SIZE_def unat_of_nat)
  have b: "length (elements_ser ds) + varint_size ?n + unat ?n \<le> MAX_VEC_SIZE"
    using Cons.prems(4) n by (simp add: length_bytes_ser)
  obtain v2 where v2: "witness_decode_loop (Suc (length es)) (length ds) space ?cursor v (varint_ser ?n @ e @ elements_ser es @ r)
      = dbind (dio (dread (unat ?n))) (\<lambda>e. dbind (dsome (copy_slice v2 (?cursor + varint_size ?n) e))
              (witness_decode_loop (length es) (length (ds @ [e])) space (?cursor + varint_size ?n + unat ?n)))
          (e @ elements_ser es @ r)"
    "\<exists>v3. copy_slice v2 (?cursor + varint_size ?n) e = Some v3 \<and> layout (ds @ [e]) (length es) v3"
    using witness_decode_step [of ds "length es" v space ?cursor ?n "e @ elements_ser es @ r"] Cons.prems n b d by auto
  then obtain v3 where v3: "copy_slice v2 (?cursor + varint_size ?n) e = Some v3" "layout (ds @ [e]) (length es) v3" by blast
  obtain v' where "layout ((ds @ [e]) @ es) 0 v'"
      "witness_decode_loop (length es) (length (ds @ [e])) space (space + length (elements_ser (ds @ [e]))) v3 (elements_ser es @ r)
        = Inr ((space + length (elements_ser ((ds @ [e]) @ es)), v'), r)"
    using Cons.IH [OF v3(2)] Cons.prems by auto
  then show ?case
    using v2(1) v3(1) n
    by (intro exI [of _ v']) (simp add: bytes_ser_def dbind_Inr dio_dread_append dsome_def length_varint_ser add.assoc)
qed simp

lemma witness_decode_loop_canonical:
  assumes "layout ds k v" and "space = 4 * (length ds + k)" and "space \<le> 4 * MAX_VEC_SIZE"
    and "length (elements_ser ds) \<le> MAX_VEC_SIZE"
    and "witness_decode_loop k (length ds) space (space + length (elements_ser ds)) v r = Inr ((c, v'), r')"
  shows "\<exists>es. length es = k \<and> r = elements_ser es @ r' \<and> c = space + length (elements_ser (ds @ es))
    \<and> layout (ds @ es) 0 v' \<and> length (elements_ser (ds @ es)) \<le> MAX_VEC_SIZE"
  using assms
proof (induction k arbitrary: ds v r)
  case 0
  then show ?case by (intro exI [of _ "[]"]) simp
next
  case (Suc k)
  let ?cursor = "space + length (elements_ser ds)"
  obtain n q where n: "varint_decode r = Inr (n, q)" using Suc.prems(5) by (auto elim: dbind_InrE)
  then have r: "r = varint_ser n @ q" by (rule varint_decode_canonical)
  have d: "length (elements_ser ds) < 2 ^ 32" using Suc.prems(4) by (simp add: MAX_VEC_SIZE_def)
  obtain v2 where v2: "witness_decode_loop (Suc k) (length ds) space ?cursor v (varint_ser n @ q) =
      (if length (elements_ser ds) + varint_size n + unat n \<le> MAX_VEC_SIZE
       then dbind (dio (dread (unat n))) (\<lambda>e. dbind (dsome (copy_slice v2 (?cursor + varint_size n) e))
              (witness_decode_loop k (length (ds @ [e])) space (?cursor + varint_size n + unat n)))
       else dfail (OversizedVectorAllocation
              (if ?cursor + unat n + varint_size n < 2 ^ 64 then ?cursor + unat n + varint_size n else 2 ^ 64 - 1)
              MAX_VEC_SIZE)) q"
    and c: "\<And>e. length e = unat n \<Longrightarrow> \<exists>v3. copy_slice v2 (?cursor + varint_size n) e = Some v3 \<and> layout (ds @ [e]) k v3"
    using witness_decode_step [of ds k v space ?cursor n q] Suc.prems d by blast
  have b: "length (elements_ser ds) + varint_size n + unat n \<le> MAX_VEC_SIZE"
    using Suc.prems(5) v2 unfolding r by (auto split: if_splits)
  then have "dbind (dio (dread (unat n))) (\<lambda>e. dbind (dsome (copy_slice v2 (?cursor + varint_size n) e))
      (witness_decode_loop k (length (ds @ [e])) space (?cursor + varint_size n + unat n))) q = Inr ((c, v'), r')"
    using Suc.prems(5) v2 unfolding r by (simp del: witness_decode_loop.simps)
  then obtain e q' where e: "length e = unat n" "q = e @ q'"
    and l: "dbind (dsome (copy_slice v2 (?cursor + varint_size n) e))
              (witness_decode_loop k (length (ds @ [e])) space (?cursor + varint_size n + unat n)) q' = Inr ((c, v'), r')"
    by (rule dbind_InrE) (auto simp: dio_dread_Inr_iff)
  obtain v3 where v3: "copy_slice v2 (?cursor + varint_size n) e = Some v3" "layout (ds @ [e]) k v3"
    using c [OF e(1)] by blast
  have s: "bytes_ser e = varint_ser n @ e" using e(1) by (simp add: bytes_ser_def)
  have l': "witness_decode_loop k (length (ds @ [e])) space (space + length (elements_ser (ds @ [e]))) v3 q' = Inr ((c, v'), r')"
    using l v3(1) e(1) by (simp add: s dbind_Inr dsome_def length_varint_ser add.assoc)
  obtain es where "length es = k" "q' = elements_ser es @ r'" "c = space + length (elements_ser ((ds @ [e]) @ es))"
    "layout ((ds @ [e]) @ es) 0 v'" "length (elements_ser ((ds @ [e]) @ es)) \<le> MAX_VEC_SIZE"
    using Suc.IH [OF v3(2) _ Suc.prems(3) _ l'] Suc.prems(2) b e(1) by (auto simp: s length_varint_ser)
  then show ?case using r e s by (intro exI [of _ "e # es"]) simp
qed

text \<open>The stacks that decode: the elements and their number within the limit on vectors.\<close>

definition decodable_stack :: "bytes list \<Rightarrow> bool" where
  "decodable_stack es \<longleftrightarrow> length es \<le> MAX_VEC_SIZE \<and> length (elements_ser es) \<le> MAX_VEC_SIZE"

lemma decodable_stack_wf: "decodable_stack es \<Longrightarrow> stack_wf es"
  by (simp add: decodable_stack_def stack_wf_def MAX_VEC_SIZE_def)

lemma layout_start: "layout [] k (replicate (k * 4 + 128) 0)"
  unfolding layout_def
  by (rule exI [of _ "replicate (4 * k) 0"], rule exI [of _ "replicate 128 0"])
    (simp add: index_of_def mult.commute flip: replicate_add)

lemma layout_done:
  assumes "layout es 0 v" and "c = 4 * length es + length (elements_ser es)"
  shows "\<lparr> content = drop (4 * length es) (take c v) @ take (4 * length es) (take c v),
           witness_elements = length es, indices_start = c - 4 * length es \<rparr> = witness_of es"
  using assms by (auto simp: layout_def witness_of_def)

lemma witness_decode_ser:
  assumes "decodable_stack es"
  shows "witness_decode (vec_ser bytes_ser es @ r) = Inr (witness_of es, r)"
proof -
  have n: "unat (of_nat (length es) :: u64) = length es" "\<not> MAX_VEC_SIZE < length es"
    using assms by (simp_all add: decodable_stack_def MAX_VEC_SIZE_def unat_of_nat)
  show ?thesis
  proof (cases "es = []")
    case True
    then show ?thesis
      using n by (simp add: witness_decode_def vec_ser_def dbind_Inr varint_decode_ser witness_new_def witness_of_def index_of_def)
  next
    case False
    obtain v' where v': "layout es 0 v'"
      "witness_decode_loop (length es) 0 (4 * length es) (4 * length es) (replicate (4 * length es + 128) 0) (elements_ser es @ r)
        = Inr ((4 * length es + length (elements_ser es), v'), r)"
      using witness_decode_loop_ser [of "[]" es _ "4 * length es" r, OF layout_start] assms
      by (auto simp: decodable_stack_def mult.commute)
    let ?f = "\<lambda>(cursor, v). \<lparr> content = drop (4 * length es) (take cursor v) @ take (4 * length es) (take cursor v),
        witness_elements = length es, indices_start = cursor - 4 * length es \<rparr>"
    have "dmap ?f (witness_decode_loop (length es) 0 (4 * length es) (4 * length es) (replicate (4 * length es + 128) 0))
        (elements_ser es @ r) = Inr (?f (4 * length es + length (elements_ser es), v'), r)"
      by (rule dmap_Inr) (rule v'(2))
    also have "?f (4 * length es + length (elements_ser es), v') = witness_of es"
      unfolding prod.case by (rule layout_done [OF v'(1) refl])
    finally show ?thesis
      using False n by (simp add: witness_decode_def vec_ser_def dbind_Inr varint_decode_ser Let_def
          mult.commute elements_ser_def del: take_take)
  qed
qed

lemma witness_decode_canonical:
  assumes "witness_decode r = Inr (w, r')"
  shows "\<exists>es. w = witness_of es \<and> r = vec_ser bytes_ser es @ r' \<and> decodable_stack es"
proof -
  obtain n q where n: "varint_decode r = Inr (n, q)" and "\<not> MAX_VEC_SIZE < unat n"
    using assms unfolding witness_decode_def by (auto simp: Let_def elim!: dbind_InrE split: if_splits)
  then have r: "r = varint_ser n @ q" and le: "unat n \<le> MAX_VEC_SIZE" using varint_decode_canonical by auto
  show ?thesis
  proof (cases "unat n = 0")
    case True
    then show ?thesis
      using assms n r by (intro exI [of _ "[]"])
        (auto simp: witness_decode_def vec_ser_def dbind_Inr witness_new_def witness_of_def index_of_def decodable_stack_def unat_eq_0)
  next
    case False
    then obtain c v where l: "witness_decode_loop (unat n) 0 (4 * unat n) (4 * unat n) (replicate (4 * unat n + 128) 0) q = Inr ((c, v), r')"
      and w: "w = \<lparr> content = drop (4 * unat n) (take c v) @ take (4 * unat n) (take c v),
           witness_elements = unat n, indices_start = c - 4 * unat n \<rparr>"
      using assms n le by (auto simp: witness_decode_def dbind_Inr Let_def mult.commute elim!: dmap_InrE)
    obtain es where es: "length es = unat n" "q = elements_ser es @ r'" "c = 4 * unat n + length (elements_ser es)"
        "layout es 0 v" "length (elements_ser es) \<le> MAX_VEC_SIZE"
      using witness_decode_loop_canonical [of "[]" "unat n" _ "4 * unat n" q c v r', OF layout_start] l le
      by (auto simp: mult.commute)
    have "w = witness_of es" using layout_done [OF es(4)] es(1,3) w by simp
    moreover have "r = vec_ser bytes_ser es @ r'" using r es(1,2) by (simp add: vec_ser_def elements_ser_def)
    ultimately show ?thesis using es le by (auto simp: decodable_stack_def)
  qed
qed

text \<open>The witness as a codec: the values are the buffers of decodable stacks.\<close>

definition witness_stack :: "witness \<Rightarrow> bytes list" where
  "witness_stack w = (case to_vec w of None \<Rightarrow> [] | Some es \<Rightarrow> es)"

definition witness_wf :: "witness \<Rightarrow> bool" where
  "witness_wf w \<longleftrightarrow> decodable_stack (witness_stack w) \<and> w = witness_of (witness_stack w)"

lemma witness_stack_of [simp]: "stack_wf es \<Longrightarrow> witness_stack (witness_of es) = es"
  by (simp add: witness_stack_def to_vec_eq)

lemma witness_wf_of: "witness_wf (witness_of es) \<longleftrightarrow> decodable_stack es" if "stack_wf es"
  using that by (simp add: witness_wf_def)

interpretation witness_codec: canonical_codec witness_encode witness_decode witness_wf
  "\<lambda>w. vec_ser bytes_ser (witness_stack w)"
proof
  fix w r assume w: "witness_wf w"
  then obtain es where es: "w = witness_of es" "decodable_stack es" "witness_stack w = es"
    by (auto simp: witness_wf_def)
  show "witness_encode w = wrote (vec_ser bytes_ser (witness_stack w))"
    unfolding es(3) unfolding es(1) by (rule witness_encode_eq)
  show "witness_decode (vec_ser bytes_ser (witness_stack w) @ r) = Inr (w, r)"
    using witness_decode_ser [OF es(2)] es by simp
next
  fix r w r' assume "witness_decode r = Inr (w, r')"
  from witness_decode_canonical [OF this] show "witness_wf w \<and> r = vec_ser bytes_ser (witness_stack w) @ r'"
    using decodable_stack_wf witness_wf_of by auto
qed

section \<open>Sequences of operations\<close>

datatype witness_op = OpPush bytes | OpClear

text \<open>The operation on a witness and on a list.\<close>

fun witness_apply :: "witness_op \<Rightarrow> witness \<Rightarrow> witness option" where
  "witness_apply (OpPush e) w = witness_push w e"
| "witness_apply OpClear w = Some (witness_clear w)"

fun list_apply :: "witness_op \<Rightarrow> bytes list \<Rightarrow> bytes list" where
  "list_apply (OpPush e) es = es @ [e]"
| "list_apply OpClear es = []"

fun witness_applies :: "witness_op list \<Rightarrow> witness \<Rightarrow> witness option" where
  "witness_applies [] w = Some w"
| "witness_applies (op # ops) w = Option.bind (witness_apply op w) (witness_applies ops)"

definition witness_run :: "bytes list \<Rightarrow> witness_op list \<Rightarrow> witness option" where
  "witness_run es ops = Option.bind (from_slice es) (witness_applies ops)"

definition list_run :: "bytes list \<Rightarrow> witness_op list \<Rightarrow> bytes list" where
  "list_run es ops = fold list_apply ops es"

text \<open>Every stack on the way is small enough for indices of four bytes.\<close>

fun stacks_wf :: "bytes list \<Rightarrow> witness_op list \<Rightarrow> bool" where
  "stacks_wf es [] \<longleftrightarrow> stack_wf es"
| "stacks_wf es (op # ops) \<longleftrightarrow> stack_wf es \<and> stacks_wf (list_apply op es) ops"

lemma stacks_wf_start: "stacks_wf es ops \<Longrightarrow> stack_wf es"
  by (cases ops) simp_all

lemma stacks_wf_run: "stacks_wf es ops \<Longrightarrow> stack_wf (list_run es ops)"
  by (induction ops arbitrary: es) (simp_all add: list_run_def)

lemma witness_apply_eq:
  assumes "stack_wf es"
  shows "witness_apply op (witness_of es) = Some (witness_of (list_apply op es))"
proof (cases op)
  case OpClear
  then show ?thesis by (simp add: witness_clear_def witness_of_def index_of_def)
qed (use assms in \<open>simp add: witness_push_eq stack_wf_def\<close>)

lemma witness_applies_eq: "stacks_wf es ops \<Longrightarrow> witness_applies ops (witness_of es) = Some (witness_of (list_run es ops))"
  by (induction ops arbitrary: es) (simp_all add: list_run_def witness_apply_eq)

lemma witness_run_eq: "stacks_wf es ops \<Longrightarrow> witness_run es ops = Some (witness_of (list_run es ops))"
  by (simp add: witness_run_def from_slice_eq stacks_wf_start witness_applies_eq)

section \<open>Taproot spends of a stack\<close>

text \<open>The rule of BIP 341 on the list: the annex, if any, is taken off before the last elements are read.\<close>

fun spend_of_stack :: "bytes list \<Rightarrow> p2tr_spend option" where
  "spend_of_stack es =
     (let annex = (if 2 \<le> length es \<and> starts_with_annex (last es) then Some (last es) else None);
          stack = (if annex = None then es else butlast es) in
      if stack = [] then None
      else if length stack = 1 then Some (KeySpend annex)
      else Some (ScriptSpend (last (butlast stack)) (last stack) annex))"

lemma nth_from_end: "es \<noteq> [] \<Longrightarrow> es ! (length es - Suc 0) = last es"
  by (simp add: last_conv_nth)

lemma from_witness_eq:
  assumes "stack_wf es"
  shows "from_witness (witness_of es) = Some (spend_of_stack es)"
proof -
  note e = witness_from_end_eq [OF assms]
  show ?thesis
  proof (cases es rule: rev_cases)
    case Nil
    then show ?thesis by (simp add: from_witness_def)
  next
    case (snoc es1 a)
    show ?thesis
    proof (cases es1 rule: rev_cases)
      case Nil
      then show ?thesis by (simp add: from_witness_def snoc)
    next
      case (snoc es2 b)
      note s = \<open>es = es1 @ [a]\<close> \<open>es1 = es2 @ [b]\<close>
      have "last es = a" "es ! (length es - 2) = b" using s by (simp_all add: nth_append)
      moreover have "es ! (length es - 3) = last es2" if "es2 \<noteq> []"
        using s that by (cases es2 rule: rev_cases) (simp_all add: nth_append)
      ultimately show ?thesis
        by (simp add: from_witness_def e expected_def Let_def) (auto simp: s numeral_2_eq_2 butlast_append)
    qed
  qed
qed

lemma leaf_version_roundtrip:
  "leaf_version_from_consensus b = Inr v \<longleftrightarrow>
     b = leaf_version_to_consensus v \<and> (v = LeafTapScript \<or> (b \<noteq> 0xc0 \<and> b \<noteq> 0x50 \<and> b AND 0xFE = b))"
  by (cases v) (auto simp: leaf_version_from_consensus_def TAPROOT_ANNEX_PREFIX_def)

section \<open>Properties\<close>

text \<open>
  C6: the witness buffer refines a list of byte strings. Let a witness be made by \<open>from_slice\<close> (of the empty
  list that is \<open>Witness::new\<close>) and changed by any sequence of pushes and clears, where every stack on the way
  takes less than \<open>2 ^ 32\<close> bytes with the lengths of its elements. Then no operation panics, the buffer is the
  one of the list that the same operations give on lists, and every query (\<open>len\<close>, \<open>is_empty\<close>, \<open>nth\<close>, \<open>last\<close>,
  \<open>second_to_last\<close>, \<open>third_to_last\<close>, \<open>to_vec\<close>, \<open>size\<close>) gives what the list gives. Two witnesses obtained in
  this way are equal, as their buffers, exactly when their lists are equal.
\<close>

theorem witness_refines_list:
  assumes "stacks_wf es ops" and "stacks_wf es' ops'"
  shows "\<exists>w w'. witness_run es ops = Some w \<and> witness_run es' ops' = Some w'
    \<and> from_slice [] = Some witness_new
    \<and> w = witness_of (list_run es ops)
    \<and> wit_len w = length (list_run es ops)
    \<and> (wit_is_empty w \<longleftrightarrow> list_run es ops = [])
    \<and> to_vec w = Some (list_run es ops)
    \<and> witness_nth w i = Some (if i < length (list_run es ops) then Some (list_run es ops ! i) else None)
    \<and> witness_last w = Some (if list_run es ops = [] then None else Some (last (list_run es ops)))
    \<and> second_to_last w = Some (if length (list_run es ops) \<le> 1 then None
         else Some (list_run es ops ! (length (list_run es ops) - 2)))
    \<and> third_to_last w = Some (if length (list_run es ops) \<le> 2 then None
         else Some (list_run es ops ! (length (list_run es ops) - 3)))
    \<and> witness_size w = Some (length (vec_ser bytes_ser (list_run es ops)))
    \<and> (w = w' \<longleftrightarrow> list_run es ops = list_run es' ops')"
proof (intro exI conjI)
  let ?fs = "list_run es ops"
  have wf: "stack_wf ?fs" "stack_wf (list_run es' ops')" using assms by (auto dest: stacks_wf_run)
  show "witness_run es ops = Some (witness_of ?fs)" "witness_run es' ops' = Some (witness_of (list_run es' ops'))"
    using assms by (simp_all add: witness_run_eq)
  show "witness_of ?fs = witness_of (list_run es' ops') \<longleftrightarrow> ?fs = list_run es' ops'"
    using witness_of_inject [OF wf] by (intro iffI) simp_all
  show "from_slice [] = Some witness_new"
    using from_slice_eq [of "[]"] by (simp add: stack_wf_def witness_of_def witness_new_def index_of_def)
  show "wit_len (witness_of ?fs) = length ?fs" "wit_is_empty (witness_of ?fs) \<longleftrightarrow> ?fs = []"
    by (simp_all add: wit_len_def wit_is_empty_def)
qed (simp_all add: assms stacks_wf_run to_vec_eq witness_nth_eq witness_size_eq witness_from_end_eq)

theorem witness_refines_list_witness:
  "\<exists>w. witness_run [[1, 2]] [OpPush [], OpClear, OpPush [3], OpPush [4, 5]] = Some w
    \<and> to_vec w = Some [[3], [4, 5]] \<and> second_to_last w = Some (Some [3]) \<and> third_to_last w = Some None
    \<and> w = witness_of [[3], [4, 5]]"
proof -
  have wf: "stacks_wf [[1, 2]] [OpPush [], OpClear, OpPush [3], OpPush [4, 5]]"
    by (simp add: stack_wf_def length_bytes_ser varint_size_def)
  have run: "list_run [[1, 2]] [OpPush [], OpClear, OpPush [3], OpPush [4, 5]] = [[3], [4, 5]]"
    by (simp add: list_run_def)
  from witness_refines_list [OF wf wf] show ?thesis unfolding run by simp
qed

text \<open>
  C20: decoding a witness accepts exactly the encodings of the lists within the limit on vectors: it gives
  the buffer of the list and leaves what follows, and encoding that buffer gives back the bytes.
\<close>

theorem witness_codec_exact:
  "(witness_decode r = Inr (w, r') \<longleftrightarrow>
      (\<exists>es. decodable_stack es \<and> w = witness_of es \<and> r = vec_ser bytes_ser es @ r'))
   \<and> witness_encode (witness_of es) = Inr (vec_ser bytes_ser es, length (vec_ser bytes_ser es))"
  using witness_decode_canonical [of r w r'] witness_decode_ser witness_encode_eq [of es]
  by (auto simp: wrote_def)

text \<open>
  the taproot views of a witness follow BIP 341: with at least two elements a last element that starts
  with \<open>0x50\<close> is the annex; of what remains, one element is a key spend, and otherwise the last is the
  control block and the one before it the script. No element is ever missing.
\<close>

theorem taproot_views:
  assumes "stack_wf es"
  shows "from_witness (witness_of es) = Some (spend_of_stack es)
    \<and> taproot_annex (witness_of es) =
        Some (if 2 \<le> length es \<and> starts_with_annex (last es) then Some (last es) else None)"
  using from_witness_eq [OF assms]
  by (auto simp: taproot_annex_def Let_def) (cases es rule: rev_cases; auto)+

theorem taproot_views_witness:
  "from_witness (witness_of [[7], [8], [9], [0x50, 1]]) = Some (Some (ScriptSpend [8] [9] (Some [0x50, 1])))"
proof -
  have w: "stack_wf [[7], [8], [9], [0x50, 1]]" by (simp add: stack_wf_def length_bytes_ser varint_size_def)
  from taproot_views [OF w] show ?thesis by (simp add: starts_with_annex_def TAPROOT_ANNEX_PREFIX_def)
qed

end
