(* ===== verification/Locktime.thy ===== *)
theory Locktime
  imports Encode
begin

text \<open>
  Lock times: absolute ones (\<open>src/units/src/locktime/absolute.rs\<close>, \<open>src/litecoin/src/blockdata/locktime/absolute.rs\<close>),
  relative ones (\<open>relative.rs\<close> in the same directories) and the sequence number of an input
  (\<open>Sequence\<close> in \<open>src/litecoin/src/blockdata/transaction.rs\<close>). Heights, times and sequence numbers are words
  of the width of the code; additions wrap, as in a build without overflow checks.
\<close>

section \<open>Absolute lock times\<close>

definition LOCK_TIME_THRESHOLD :: u32 where
  "LOCK_TIME_THRESHOLD = 500000000"

datatype lock_unit = UnitBlocks | UnitSeconds

datatype conversion_error = ConversionError lock_unit u32

definition is_block_height_value :: "u32 \<Rightarrow> bool" where
  "is_block_height_value n \<longleftrightarrow> n < LOCK_TIME_THRESHOLD"

definition is_block_time_value :: "u32 \<Rightarrow> bool" where
  "is_block_time_value n \<longleftrightarrow> LOCK_TIME_THRESHOLD \<le> n"

definition height_from_consensus :: "u32 \<Rightarrow> conversion_error + u32" where
  "height_from_consensus n = (if is_block_height_value n then Inr n else Inl (ConversionError UnitBlocks n))"

definition time_from_consensus :: "u32 \<Rightarrow> conversion_error + u32" where
  "time_from_consensus n = (if is_block_time_value n then Inr n else Inl (ConversionError UnitSeconds n))"

datatype LockTime = Blocks u32 | Seconds u32

text \<open>The two calls of \<open>expect\<close> in \<open>from_consensus\<close> panic on an error, here \<^term>\<open>None\<close>.\<close>

definition locktime_from_consensus :: "u32 \<Rightarrow> LockTime option" where
  "locktime_from_consensus n =
     (if is_block_height_value n
      then (case height_from_consensus n of Inl e \<Rightarrow> None | Inr h \<Rightarrow> Some (Blocks h))
      else (case time_from_consensus n of Inl e \<Rightarrow> None | Inr t \<Rightarrow> Some (Seconds t)))"

definition locktime_from_height :: "u32 \<Rightarrow> conversion_error + LockTime" where
  "locktime_from_height n = and_then (height_from_consensus n) (\<lambda>h. Inr (Blocks h))"

definition locktime_from_time :: "u32 \<Rightarrow> conversion_error + LockTime" where
  "locktime_from_time n = and_then (time_from_consensus n) (\<lambda>t. Inr (Seconds t))"

fun locktime_to_consensus :: "LockTime \<Rightarrow> u32" where
  "locktime_to_consensus (Blocks h) = h"
| "locktime_to_consensus (Seconds t) = t"

fun is_same_unit :: "LockTime \<Rightarrow> LockTime \<Rightarrow> bool" where
  "is_same_unit (Blocks _) (Blocks _) \<longleftrightarrow> True"
| "is_same_unit (Seconds _) (Seconds _) \<longleftrightarrow> True"
| "is_same_unit _ _ \<longleftrightarrow> False"

fun is_satisfied_by :: "LockTime \<Rightarrow> u32 \<Rightarrow> u32 \<Rightarrow> bool" where
  "is_satisfied_by (Blocks n) height time \<longleftrightarrow> n \<le> height"
| "is_satisfied_by (Seconds n) height time \<longleftrightarrow> n \<le> time"

fun is_implied_by :: "LockTime \<Rightarrow> LockTime \<Rightarrow> bool" where
  "is_implied_by (Blocks this) (Blocks other) \<longleftrightarrow> this \<le> other"
| "is_implied_by (Seconds this) (Seconds other) \<longleftrightarrow> this \<le> other"
| "is_implied_by _ _ \<longleftrightarrow> False"

definition locktime_encode :: "LockTime \<Rightarrow> io_failure encoded" where
  "locktime_encode self = int_encode (locktime_to_consensus self)"

definition locktime_decode :: "(encode_error, LockTime) decoder" where
  "locktime_decode = dbind read_int (\<lambda>n. case locktime_from_consensus n of
     None \<Rightarrow> dfail (ErrIo Panic) | Some l \<Rightarrow> dreturn l)"

section \<open>Sequence numbers and relative lock times\<close>

definition SEQUENCE_MAX :: u32 where "SEQUENCE_MAX = 0xFFFFFFFF"
definition MIN_NO_RBF :: u32 where "MIN_NO_RBF = 0xFFFFFFFE"
definition LOCK_TIME_DISABLE_FLAG_MASK :: u32 where "LOCK_TIME_DISABLE_FLAG_MASK = 0x80000000"
definition LOCK_TYPE_MASK :: u32 where "LOCK_TYPE_MASK = 0x00400000"

definition enables_absolute_lock_time :: "u32 \<Rightarrow> bool" where
  "enables_absolute_lock_time s \<longleftrightarrow> s \<noteq> SEQUENCE_MAX"

definition is_final :: "u32 \<Rightarrow> bool" where
  "is_final s \<longleftrightarrow> \<not> enables_absolute_lock_time s"

definition is_rbf :: "u32 \<Rightarrow> bool" where
  "is_rbf s \<longleftrightarrow> s < MIN_NO_RBF"

definition is_relative_lock_time :: "u32 \<Rightarrow> bool" where
  "is_relative_lock_time s \<longleftrightarrow> s AND LOCK_TIME_DISABLE_FLAG_MASK = 0"

definition is_height_locked :: "u32 \<Rightarrow> bool" where
  "is_height_locked s \<longleftrightarrow> is_relative_lock_time s \<and> s AND LOCK_TYPE_MASK = 0"

definition is_time_locked :: "u32 \<Rightarrow> bool" where
  "is_time_locked s \<longleftrightarrow> is_relative_lock_time s \<and> 0 < s AND LOCK_TYPE_MASK"

definition sequence_from_height :: "u16 \<Rightarrow> u32" where
  "sequence_from_height height = ucast height"

definition sequence_from_512_second_intervals :: "u16 \<Rightarrow> u32" where
  "sequence_from_512_second_intervals intervals = ucast intervals OR LOCK_TYPE_MASK"

definition low_u16 :: "u32 \<Rightarrow> u16" where
  "low_u16 s = ucast s"

datatype relative_lock = RelBlocks u16 | RelTime u16

definition to_relative_lock_time :: "u32 \<Rightarrow> relative_lock option" where
  "to_relative_lock_time s =
     (if \<not> is_relative_lock_time s then None
      else let lock_value = low_u16 s in
        if is_time_locked s then Some (RelTime lock_value) else Some (RelBlocks lock_value))"

text \<open>\<open>DisabledLockTimeError\<close> carries the value.\<close>

definition relative_from_consensus :: "u32 \<Rightarrow> u32 + relative_lock" where
  "relative_from_consensus n = (case to_relative_lock_time n of None \<Rightarrow> Inl n | Some l \<Rightarrow> Inr l)"

fun relative_to_consensus :: "relative_lock \<Rightarrow> u32" where
  "relative_to_consensus (RelBlocks h) = ucast h"
| "relative_to_consensus (RelTime t) = push_bit 22 1 OR ucast t"

definition to_sequence :: "relative_lock \<Rightarrow> u32" where
  "to_sequence l = relative_to_consensus l"

fun relative_satisfied_by_height :: "relative_lock \<Rightarrow> u16 \<Rightarrow> unit + bool" where
  "relative_satisfied_by_height (RelBlocks h) height = Inr (h \<le> height)"
| "relative_satisfied_by_height (RelTime t) height = Inl ()"

fun relative_satisfied_by_time :: "relative_lock \<Rightarrow> u16 \<Rightarrow> unit + bool" where
  "relative_satisfied_by_time (RelTime t) time = Inr (t \<le> time)"
| "relative_satisfied_by_time (RelBlocks h) time = Inl ()"

definition relative_satisfied_by :: "relative_lock \<Rightarrow> u16 \<Rightarrow> u16 \<Rightarrow> bool" where
  "relative_satisfied_by l h t \<longleftrightarrow>
     (if relative_satisfied_by_height l h = Inr True then True else relative_satisfied_by_time l t = Inr True)"

fun relative_implied_by :: "relative_lock \<Rightarrow> relative_lock \<Rightarrow> bool" where
  "relative_implied_by (RelBlocks this) (RelBlocks other) \<longleftrightarrow> this \<le> other"
| "relative_implied_by (RelTime this) (RelTime other) \<longleftrightarrow> this \<le> other"
| "relative_implied_by _ _ \<longleftrightarrow> False"

definition relative_implied_by_sequence :: "relative_lock \<Rightarrow> u32 \<Rightarrow> bool" where
  "relative_implied_by_sequence l other =
     (case relative_from_consensus other of Inr o' \<Rightarrow> relative_implied_by l o' | Inl e \<Rightarrow> False)"

text \<open>Times from seconds. \<open>TimeOverflowError::new\<close> asserts that the rounded-up interval overflows.\<close>

datatype time_failure = TimeOverflow u32 | TimePanic

definition time_from_seconds_floor :: "u32 \<Rightarrow> time_failure + u16" where
  "time_from_seconds_floor seconds =
     (let interval = seconds div 512 in if interval \<le> 0xFFFF then Inr (ucast interval) else Inl (TimeOverflow seconds))"

definition time_from_seconds_ceil :: "u32 \<Rightarrow> time_failure + u16" where
  "time_from_seconds_ceil seconds =
     (let interval = (seconds + 511) div 512 in
      if interval \<le> 0xFFFF then Inr (ucast interval) else Inl (TimeOverflow seconds))"

definition time_overflow_new :: "u32 \<Rightarrow> time_failure" where
  "time_overflow_new seconds = (if (seconds + 511) div 512 \<le> 0xFFFF then TimePanic else TimeOverflow seconds)"

definition sequence_from_seconds_floor :: "u32 \<Rightarrow> time_failure + u32" where
  "sequence_from_seconds_floor seconds =
     (if seconds div 512 \<le> 0xFFFF then Inr (sequence_from_512_second_intervals (ucast (seconds div 512)))
      else Inl (time_overflow_new seconds))"

definition sequence_from_seconds_ceil :: "u32 \<Rightarrow> time_failure + u32" where
  "sequence_from_seconds_ceil seconds =
     (if (seconds + 511) div 512 \<le> 0xFFFF
      then Inr (sequence_from_512_second_intervals (ucast ((seconds + 511) div 512)))
      else Inl (time_overflow_new seconds))"

section \<open>Lemmas\<close>

definition locktime_wf :: "LockTime \<Rightarrow> bool" where
  "locktime_wf l = (case l of Blocks h \<Rightarrow> is_block_height_value h | Seconds t \<Rightarrow> is_block_time_value t)"

lemma locktime_from_consensus_iff:
  "locktime_from_consensus n = Some l \<longleftrightarrow> locktime_wf l \<and> locktime_to_consensus l = n"
  by (cases l) (auto simp: locktime_from_consensus_def locktime_wf_def height_from_consensus_def
      time_from_consensus_def is_block_height_value_def is_block_time_value_def)

lemma locktime_from_consensus_total: "\<exists>l. locktime_from_consensus n = Some l"
  by (auto simp: locktime_from_consensus_def height_from_consensus_def time_from_consensus_def
      is_block_height_value_def is_block_time_value_def)

interpretation locktime_codec: canonical_codec locktime_encode locktime_decode locktime_wf
  "\<lambda>l. to_le_bytes (locktime_to_consensus l)"
proof
  fix l r assume "locktime_wf l"
  then show "locktime_decode (to_le_bytes (locktime_to_consensus l) @ r) = Inr (l, r)"
    using locktime_from_consensus_iff [of "locktime_to_consensus l" l]
    by (simp add: locktime_decode_def dbind_Inr read_int_append)
next
  fix r l r' assume "locktime_decode r = Inr (l, r')"
  then obtain n :: u32 where "read_int r = Inr (n, r')" "locktime_from_consensus n = Some l"
    by (auto simp: locktime_decode_def elim!: dbind_InrE split: option.splits)
  then show "locktime_wf l \<and> r = to_le_bytes (locktime_to_consensus l) @ r'"
    using read_int_Inr [of r n r'] by (auto simp: locktime_from_consensus_iff)
qed (simp add: locktime_encode_def)

lemma bit_flag: "n < 32 \<Longrightarrow> bit (push_bit n 1 :: u32) k \<longleftrightarrow> k = n"
  by (auto simp: bit_simps)

lemma and_flag:
  assumes "n < 32"
  shows "(s :: u32) AND push_bit n 1 = 0 \<longleftrightarrow> \<not> bit s n"
proof
  assume "s AND push_bit n 1 = 0"
  then have "\<not> bit (s AND push_bit n 1) n" by simp
  then show "\<not> bit s n" using bit_flag [OF assms, of n] by (simp add: bit_and_iff)
next
  assume "\<not> bit s n"
  then show "s AND push_bit n 1 = 0" using bit_flag [OF assms] by (intro bit_word_eqI) (auto simp: bit_and_iff)
qed

lemma mask_flags: "LOCK_TIME_DISABLE_FLAG_MASK = push_bit 31 1" "LOCK_TYPE_MASK = push_bit 22 1"
  by (simp_all add: LOCK_TIME_DISABLE_FLAG_MASK_def LOCK_TYPE_MASK_def push_bit_eq_mult)

lemma mask_bits:
  "(s :: u32) AND LOCK_TIME_DISABLE_FLAG_MASK = 0 \<longleftrightarrow> \<not> bit s 31" "(s :: u32) AND LOCK_TYPE_MASK = 0 \<longleftrightarrow> \<not> bit s 22"
  unfolding mask_flags by (rule and_flag, simp)+

lemma relative_consensus_bits:
  "bit (relative_to_consensus (RelBlocks h)) k \<longleftrightarrow> bit h k"
  "bit (relative_to_consensus (RelTime t)) k \<longleftrightarrow> k = 22 \<or> bit t k"
proof -
  show "bit (relative_to_consensus (RelBlocks h)) k \<longleftrightarrow> bit h k"
    by (auto simp: bit_simps dest: bit_imp_le_length)
  show "bit (relative_to_consensus (RelTime t)) k \<longleftrightarrow> k = 22 \<or> bit t k"
    unfolding relative_to_consensus.simps bit_or_iff using bit_flag [of 22 k]
    by (auto simp: bit_ucast_iff dest: bit_imp_le_length)
qed

lemma relative_roundtrip: "relative_from_consensus (relative_to_consensus l) = Inr l"
proof (cases l)
  case (RelBlocks h)
  have "\<not> bit h 31" "\<not> bit h 22" by (auto dest: bit_imp_le_length)
  moreover have "low_u16 (ucast h) = h" by (rule bit_word_eqI) (simp add: low_u16_def bit_simps)
  ultimately show ?thesis
    using relative_consensus_bits(1) [of h]
    by (simp add: RelBlocks relative_from_consensus_def to_relative_lock_time_def is_relative_lock_time_def
        is_time_locked_def mask_bits word_neq_0_conv [symmetric] del: word_neq_0_conv)
next
  case (RelTime t)
  have "\<not> bit t 31" by (auto dest: bit_imp_le_length)
  moreover have "low_u16 (relative_to_consensus (RelTime t)) = t"
    by (rule bit_word_eqI) (auto simp: low_u16_def bit_ucast_iff relative_consensus_bits(2) simp del: relative_to_consensus.simps)
  ultimately show ?thesis
    using relative_consensus_bits(2) [of t]
    by (simp add: RelTime relative_from_consensus_def to_relative_lock_time_def is_relative_lock_time_def
        is_time_locked_def mask_bits word_neq_0_conv [symmetric] del: word_neq_0_conv relative_to_consensus.simps)
qed

lemma unat_add_511: "unat ((s :: u32) + 511) = (if unat s + 511 < 2 ^ 32 then unat s + 511 else unat s + 511 - 2 ^ 32)"
proof -
  have "unat s < 2 ^ 32" using unat_less_exp [of s] by simp
  then show ?thesis by (auto simp: unat_word_ariths le_mod_geq)
qed

lemma ceil_interval: "unat (((s :: u32) + 511) div 512) = (if unat s + 511 < 2 ^ 32 then (unat s + 511) div 512 else 0)"
proof -
  have "unat s < 2 ^ 32" using unat_less_exp [of s] by simp
  then show ?thesis by (auto simp: unat_div unat_add_511)
qed

lemma ucast_of_unat: "(ucast (w :: u32) :: u16) = of_nat (unat w)"
  by simp

section \<open>Properties\<close>

text \<open>
  every \<open>u32\<close> is exactly one absolute lock time, a height below the threshold or a time from it on, and
  is read back from it; the lock \<open>a\<close> is implied by \<open>b\<close> exactly when both have the same unit and every height
  and time that satisfy \<open>b\<close> satisfy \<open>a\<close>.
\<close>

theorem absolute_lock_semantics:
  "(locktime_from_consensus n = Some l \<longleftrightarrow> locktime_wf l \<and> locktime_to_consensus l = n)
   \<and> (\<exists>l. locktime_from_consensus n = Some l)
   \<and> (is_implied_by a b \<longleftrightarrow> is_same_unit a b
        \<and> {(h, t). is_satisfied_by b h t} \<subseteq> {(h, t). is_satisfied_by a h t})"
proof (intro conjI locktime_from_consensus_iff locktime_from_consensus_total)
  show "is_implied_by a b \<longleftrightarrow> is_same_unit a b
        \<and> {(h, t). is_satisfied_by b h t} \<subseteq> {(h, t). is_satisfied_by a h t}"
    by (cases a; cases b) (auto intro: order_trans)
qed

text \<open>
  relative lock times round-trip through their consensus value and their sequence number; a value is
  refused exactly when its disable flag is set, and a value with a relative lock is locked by height or by
  time but not both; implication between locks of one unit is inclusion of what satisfies them.
\<close>

theorem relative_lock_semantics:
  "relative_from_consensus (relative_to_consensus l) = Inr l
   \<and> to_relative_lock_time (to_sequence l) = Some l
   \<and> (relative_from_consensus n = Inl n \<longleftrightarrow> bit n 31)
   \<and> (is_relative_lock_time n \<longleftrightarrow> is_height_locked n \<noteq> is_time_locked n)
   \<and> relative_implied_by_sequence l (to_sequence l') = relative_implied_by l l'
   \<and> (relative_implied_by (RelTime i) (RelTime j) \<longleftrightarrow>
        {(h, t). relative_satisfied_by (RelTime j) h t} \<subseteq> {(h, t). relative_satisfied_by (RelTime i) h t})
   \<and> (relative_implied_by (RelBlocks i) (RelBlocks j) \<longleftrightarrow>
        {(h, t). relative_satisfied_by (RelBlocks j) h t} \<subseteq> {(h, t). relative_satisfied_by (RelBlocks i) h t})"
proof (intro conjI)
  show "to_relative_lock_time (to_sequence l) = Some l"
    using relative_roundtrip [of l] by (auto simp: relative_from_consensus_def to_sequence_def split: option.splits)
  show "relative_from_consensus n = Inl n \<longleftrightarrow> bit n 31"
    by (simp add: relative_from_consensus_def to_relative_lock_time_def is_relative_lock_time_def mask_bits Let_def)
  show "is_relative_lock_time n \<longleftrightarrow> is_height_locked n \<noteq> is_time_locked n"
    by (auto simp: is_height_locked_def is_time_locked_def word_neq_0_conv [symmetric] simp del: word_neq_0_conv)
  show "relative_implied_by_sequence l (to_sequence l') = relative_implied_by l l'"
    by (simp add: relative_implied_by_sequence_def to_sequence_def relative_roundtrip)
qed (auto simp: relative_roundtrip relative_satisfied_by_def intro: order_trans)

text \<open>
  converting seconds to intervals of 512 seconds is exact rounding with an overflow error, except in the
  last 511 values of \<open>u32\<close>: there rounding up wraps around to a lock of zero intervals, and rounding down in
  \<open>Sequence\<close> hits the failing assertion of \<open>TimeOverflowError::new\<close>.
\<close>

theorem lock_from_seconds:
  "time_from_seconds_floor s =
     (if unat s div 512 < 2 ^ 16 then Inr (of_nat (unat s div 512)) else Inl (TimeOverflow s))
   \<and> time_from_seconds_ceil s =
     (if 2 ^ 32 \<le> unat s + 511 then Inr 0
      else if (unat s + 511) div 512 < 2 ^ 16 then Inr (of_nat ((unat s + 511) div 512)) else Inl (TimeOverflow s))
   \<and> sequence_from_seconds_floor s =
     (if unat s div 512 < 2 ^ 16 then Inr (sequence_from_512_second_intervals (of_nat (unat s div 512)))
      else if 2 ^ 32 \<le> unat s + 511 then Inl TimePanic else Inl (TimeOverflow s))
   \<and> sequence_from_seconds_ceil s =
     (if 2 ^ 32 \<le> unat s + 511 then Inr (sequence_from_512_second_intervals 0)
      else if (unat s + 511) div 512 < 2 ^ 16
      then Inr (sequence_from_512_second_intervals (of_nat ((unat s + 511) div 512))) else Inl (TimeOverflow s))"
proof -
  have f: "s div 512 \<le> 0xFFFF \<longleftrightarrow> unat s div 512 < 2 ^ 16" "(ucast (s div 512) :: u16) = of_nat (unat s div 512)"
    by (auto simp: word_le_nat_alt ucast_of_unat unat_div simp del: of_nat_unat)
  have c: "(s + 511) div 512 \<le> 0xFFFF \<longleftrightarrow> 2 ^ 32 \<le> unat s + 511 \<or> (unat s + 511) div 512 < 2 ^ 16"
    "(ucast ((s + 511) div 512) :: u16) = (if 2 ^ 32 \<le> unat s + 511 then 0 else of_nat ((unat s + 511) div 512))"
    by (auto simp: word_le_nat_alt ucast_of_unat ceil_interval simp del: of_nat_unat)
  have o: "\<not> unat s div 512 < 2 ^ 16 \<Longrightarrow> \<not> (unat s + 511) div 512 < 2 ^ 16" by simp
  show ?thesis
    unfolding time_from_seconds_floor_def time_from_seconds_ceil_def sequence_from_seconds_floor_def
      sequence_from_seconds_ceil_def time_overflow_new_def Let_def f c using o by auto
qed

end
