(* ===== verification/Mimblewimble.thy ===== *)
theory Mimblewimble
  imports Script
begin

text \<open>
  The wire format of Litecoin's extension blocks (\<open>src/litecoin/src/blockdata/mimblewimble.rs\<close>): the
  variable-length amounts, peg-outs, kernels, inputs, outputs and transaction bodies. Public keys belong to
  the library \<open>secp256k1\<close>: a parameter \<open>K\<close> gives \<open>PublicKey::from_slice\<close> and \<open>PublicKey::serialize\<close>, and
  \<open>key_laws\<close> states what is documented of them on compressed keys.
\<close>

section \<open>Amounts\<close>

text \<open>
  The loops of \<open>write_amount\<close> and \<open>write_compact_varint\<close>, which differ in the type of the number only, and
  those of \<open>read_amount\<close> and \<open>read_compact_varint\<close>, with the largest value of the type.
\<close>

definition AMOUNT_SIZE :: nat where
  "AMOUNT_SIZE = 10"

function write_amount_loop :: "int \<Rightarrow> bytes \<Rightarrow> bytes option" where
  "write_amount_loop n tmp =
     (if AMOUNT_SIZE \<le> length tmp then None
      else let a = of_int (n mod 128) :: u8;
               b = (if length tmp \<noteq> 0 then 0x80 else 0x00) :: u8;
               tmp' = tmp @ [a OR b] in
        if n \<le> 0x7f then Some tmp' else write_amount_loop (n div 128 - 1) tmp')"
  by pat_completeness auto
termination
  by (relation "measure (\<lambda>(n, tmp). AMOUNT_SIZE - length tmp)") auto

declare write_amount_loop.simps [simp del]

definition write_amount :: "int \<Rightarrow> io_failure encoded" where
  "write_amount amount =
     (case write_amount_loop amount [] of None \<Rightarrow> Inl Panic
      | Some tmp \<Rightarrow> reporting (enc_list emit_u8 (rev tmp)) (length tmp))"

definition write_compact_varint :: "u64 \<Rightarrow> io_failure encoded" where
  "write_compact_varint value =
     (case write_amount_loop (uint value) [] of None \<Rightarrow> Inl Panic
      | Some tmp \<Rightarrow> reporting (enc_list emit_u8 (rev tmp)) (length tmp))"

fun read_amount_loop :: "int \<Rightarrow> int \<Rightarrow> (encode_error, int) decoder" where
  "read_amount_loop max_value n [] = Inl (ErrIo (Io UnexpectedEof))"
| "read_amount_loop max_value n (ch_data # r) =
     (if max_value div 128 < n then Inl (ParseFailed ''MWEB varint overflow'')
      else let n = n * 128 + uint (ch_data AND 0x7f) in
        if ch_data AND 0x80 \<noteq> 0
        then (if max_value < n + 1 then Inl (ParseFailed ''MWEB varint overflow'')
              else read_amount_loop max_value (n + 1) r)
        else Inr (n, r))"

definition read_amount :: "(encode_error, int) decoder" where
  "read_amount = read_amount_loop (2 ^ 63 - 1) 0"

definition read_compact_varint :: "(encode_error, u64) decoder" where
  "read_compact_varint = dmap word_of_int (read_amount_loop (2 ^ 64 - 1) 0)"

definition read_array_len :: "(encode_error, u64) decoder" where
  "read_array_len = varint_decode"

section \<open>Lemmas on amounts\<close>

text \<open>The bytes of a number: all but the last carry the high bit, and each carry is one less.\<close>

function amount_hi :: "int \<Rightarrow> bytes" where
  "amount_hi n = (if n < 128 then [] else amount_hi (n div 128 - 1)) @ [of_int (n mod 128 + 128)]"
  by pat_completeness auto
termination
  by (relation "measure nat") auto

declare amount_hi.simps [simp del]

definition amount_ser :: "int \<Rightarrow> bytes" where
  "amount_ser n = (if n < 128 then [] else amount_hi (n div 128 - 1)) @ [of_int (n mod 128)]"

lemma u8_high: "(b :: u8) AND 0x80 \<noteq> 0 \<longleftrightarrow> 128 \<le> uint b" and u8_low: "uint ((b :: u8) AND 0x7f) = uint b mod 128"
  and u8_or_high: "uint b < 128 \<Longrightarrow> b OR 0x80 = of_int (uint b + 128)"
proof -
  have "list_all (\<lambda>b :: u8. ((b AND 0x80 \<noteq> 0) = (0x80 \<le> b)) \<and> (b AND 0x7f = (if b < 0x80 then b else b - 0x80))
      \<and> (b < 0x80 \<longrightarrow> b OR 0x80 = b + 0x80)) all_bytes" by code_simp
  from all_bytesI [OF this, of b]
  have b: "(b AND 0x80 \<noteq> 0) = (0x80 \<le> b)" "b AND 0x7f = (if b < 0x80 then b else b - 0x80)"
    "b < 0x80 \<longrightarrow> b OR 0x80 = b + 0x80" by blast+
  show "b AND 0x80 \<noteq> 0 \<longleftrightarrow> 128 \<le> uint b" using b(1) by (simp add: word_le_def)
  have lt: "uint b < 256" using uint_lt2p [of b] by simp
  have "uint b mod 128 = (if uint b < 128 then uint b else uint b - 128)"
  proof (cases "uint b < 128")
    case False
    have "uint b mod 128 = (128 + (uint b - 128)) mod 128" by simp
    also have "\<dots> = (uint b - 128) mod 128" by (rule mod_add_self1)
    also have "\<dots> = uint b - 128" using False lt by (intro mod_pos_pos_trivial) linarith+
    finally show ?thesis using False by simp
  qed (simp add: uint_nonnegative)
  moreover have "uint (b - 0x80) = uint b - 128" if "\<not> b < 0x80"
    using that by (simp add: uint_sub_if' word_less_def)
  ultimately show "uint (b AND 0x7f) = uint b mod 128"
    using b(2) by (auto simp: word_less_def)
  show "uint b < 128 \<Longrightarrow> b OR 0x80 = of_int (uint b + 128)"
    using b(3) by (simp add: word_less_def)
qed

lemma uint_small_byte: "0 \<le> k \<Longrightarrow> k < 256 \<Longrightarrow> uint (of_int k :: u8) = k"
  by (simp add: uint_word_of_int)

lemma digit_bound: "0 \<le> (n :: int) mod 128" "n mod 128 < 128"
  by simp_all

lemma read_amount_hi:
  "0 \<le> n \<Longrightarrow> n < m \<Longrightarrow> read_amount_loop m 0 (amount_hi n @ r) = read_amount_loop m (n + 1) r"
proof (induction n arbitrary: r rule: amount_hi.induct)
  case (1 n)
  have b: "uint (of_int (n mod 128 + 128) :: u8) = n mod 128 + 128"
    using digit_bound [of n] by (intro uint_small_byte) linarith+
  show ?case
  proof (cases "n < 128")
    case True
    have "0 \<le> m div 128" using "1.prems" by (simp add: pos_imp_zdiv_nonneg_iff)
    then show ?thesis
      using True 1 b by (subst amount_hi.simps) (simp add: u8_high u8_low)
  next
    case False
    have d: "0 \<le> n div 128 - 1" "n div 128 - 1 < m" "n div 128 \<le> m div 128" "n div 128 * 128 + n mod 128 = n"
      using False "1.prems" by (auto simp: zdiv_mono1)
    have "read_amount_loop m 0 (amount_hi n @ r)
        = read_amount_loop m (n div 128) (of_int (n mod 128 + 128) # r)"
      using "1.IH" [of "of_int (n mod 128 + 128) # r"] False d by (subst amount_hi.simps) simp
    also have "\<dots> = read_amount_loop m (n + 1) r"
      using d b "1.prems" by (simp add: u8_high u8_low)
    finally show ?thesis .
  qed
qed

lemma read_amount_loop_ser:
  assumes "0 \<le> n" and "n \<le> m"
  shows "read_amount_loop m 0 (amount_ser n @ r) = Inr (n, r)"
proof -
  have b: "uint (of_int (n mod 128) :: u8) = n mod 128"
    using digit_bound [of n] by (intro uint_small_byte) linarith+
  have m: "0 \<le> m div 128" "n div 128 \<le> m div 128" using assms by (auto simp: pos_imp_zdiv_nonneg_iff zdiv_mono1)
  have nh: "\<not> of_int (n mod 128) AND (0x80 :: u8) \<noteq> 0" unfolding u8_high b using digit_bound [of n] by linarith
  have l: "uint (of_int (n mod 128) AND (0x7f :: u8)) = n mod 128" unfolding u8_low b by simp
  have d: "n div 128 * 128 + n mod 128 = n" by simp
  show ?thesis
  proof (cases "n < 128")
    case True
    then show ?thesis unfolding amount_ser_def using assms m nh l by (simp del: uint_word_of_int)
  next
    case False
    then have "read_amount_loop m 0 (amount_ser n @ r) = read_amount_loop m (n div 128) (of_int (n mod 128) # r)"
      unfolding amount_ser_def using read_amount_hi [of "n div 128 - 1" m "of_int (n mod 128) # r"] assms
        int_div_less_self [of n 128] by simp
    then show ?thesis using m nh l d by simp
  qed
qed

text \<open>What has been read so far: nothing, or the bytes of one less than the number reached.\<close>

definition amount_prefix :: "int \<Rightarrow> bytes" where
  "amount_prefix n = (if n = 0 then [] else amount_hi (n - 1))"

lemma amount_prefix_step:
  fixes ch :: u8
  assumes "0 \<le> n"
  defines "v \<equiv> n * 128 + uint ch mod 128"
  shows "128 \<le> uint ch \<Longrightarrow> amount_prefix (v + 1) = amount_prefix n @ [ch]"
    and "uint ch < 128 \<Longrightarrow> amount_ser v = amount_prefix n @ [ch]"
proof -
  have v: "v div 128 = n" "v mod 128 = uint ch mod 128" "v < 128 \<longleftrightarrow> n = 0" "0 \<le> v"
    using assms(1) digit_bound [of "uint ch"] unfolding v_def by (auto simp: div_add1_eq)
  have p: "(if v < 128 then [] else amount_hi (v div 128 - 1)) = amount_prefix n"
    using v by (simp add: amount_prefix_def)
  show "amount_prefix (v + 1) = amount_prefix n @ [ch]" if h: "128 \<le> uint ch"
  proof -
    have "uint ch mod 128 + 128 = uint ch"
    proof -
      have "uint ch < 256" using uint_lt2p [of ch] by simp
      then have "(uint ch - 128) mod 128 = uint ch - 128" using h by (intro mod_pos_pos_trivial) linarith+
      then show ?thesis by (metis diff_add_cancel mod_add_self2)
    qed
    then have "of_int (v mod 128 + 128) = ch" unfolding v by simp
    moreover have "amount_prefix (v + 1) = amount_hi v" using v by (simp add: amount_prefix_def)
    ultimately show ?thesis by (simp add: amount_hi.simps [of v] p)
  qed
  show "amount_ser v = amount_prefix n @ [ch]" if "uint ch < 128"
  proof -
    have "of_int (v mod 128) = ch" unfolding v using that by simp
    then show ?thesis unfolding amount_ser_def p by simp
  qed
qed

lemma read_amount_canonical:
  "read_amount_loop m n r = Inr (k, r') \<Longrightarrow> 0 \<le> n \<Longrightarrow> m mod 128 = 127 \<Longrightarrow>
     0 \<le> k \<and> k \<le> m \<and> amount_prefix n @ r = amount_ser k @ r'"
proof (induction r arbitrary: n)
  case (Cons ch r)
  let ?v = "n * 128 + uint ch mod 128"
  have le: "n \<le> m div 128" using Cons.prems(1) by (auto simp: not_less split: if_splits)
  have "n * 128 \<le> m div 128 * 128" "m div 128 * 128 + 127 = m" using le Cons.prems(3) div_mult_mod_eq [of m 128] by linarith+
  then have vm: "0 \<le> ?v" "?v \<le> m" using Cons.prems(2) digit_bound [of "uint ch"] by linarith+
  show ?case
  proof (cases "128 \<le> uint ch")
    case True
    then have "read_amount_loop m (?v + 1) r = Inr (k, r')"
      using Cons.prems(1) le by (simp add: u8_high u8_low Let_def split: if_splits)
    then show ?thesis
      using Cons.IH [of "?v + 1"] Cons.prems(3) vm amount_prefix_step(1) [OF Cons.prems(2) True] by simp
  next
    case False
    then have "k = ?v" "r' = r" using Cons.prems(1) le by (simp_all add: u8_high u8_low Let_def)
    then show ?thesis using vm amount_prefix_step(2) [OF Cons.prems(2)] False by simp
  qed
qed simp

lemma write_amount_byte: "(of_int (n mod 128) :: u8) OR 0x80 = of_int (n mod 128 + 128)"
proof -
  have b: "uint (of_int (n mod 128) :: u8) = n mod 128"
    using digit_bound [of n] by (intro uint_small_byte) linarith+
  have "uint (of_int (n mod 128) :: u8) < 128" unfolding b by simp
  from u8_or_high [OF this] show ?thesis unfolding b .
qed

lemma write_amount_loop_hi:
  "0 \<le> n \<Longrightarrow> tmp \<noteq> [] \<Longrightarrow> length tmp + length (amount_hi n) \<le> AMOUNT_SIZE \<Longrightarrow>
     write_amount_loop n tmp = Some (tmp @ rev (amount_hi n))"
proof (induction n arbitrary: tmp rule: amount_hi.induct)
  case (1 n)
  have h: "amount_hi n = (if n < 128 then [] else amount_hi (n div 128 - 1)) @ [of_int (n mod 128 + 128)]"
    by (rule amount_hi.simps)
  have t: "\<not> AMOUNT_SIZE \<le> length tmp" using "1.prems"(3) unfolding h by simp
  have l: "write_amount_loop n tmp = (if n \<le> 127 then Some (tmp @ [of_int (n mod 128 + 128)])
      else write_amount_loop (n div 128 - 1) (tmp @ [of_int (n mod 128 + 128)]))"
    using t "1.prems"(2) by (subst write_amount_loop.simps) (simp add: write_amount_byte Let_def del: of_int_add)
  show ?case
  proof (cases "n < 128")
    case True
    then show ?thesis unfolding l h by simp
  next
    case False
    have "write_amount_loop (n div 128 - 1) (tmp @ [of_int (n mod 128 + 128)])
        = Some ((tmp @ [of_int (n mod 128 + 128)]) @ rev (amount_hi (n div 128 - 1)))"
      using "1.prems" False unfolding h by (intro "1.IH") simp_all
    then show ?thesis using False unfolding l h by simp
  qed
qed

lemma length_amount_hi: "n < 128 ^ k \<Longrightarrow> 0 < k \<Longrightarrow> length (amount_hi n) \<le> k"
proof (induction k arbitrary: n)
  case (Suc k)
  show ?case
  proof (cases "n < 128")
    case True
    then show ?thesis by (subst amount_hi.simps) simp
  next
    case False
    then have k: "0 < k" using Suc.prems(1) by (cases k) simp_all
    have "n div 128 - 1 < 128 ^ k" using Suc.prems(1) by simp
    then show ?thesis using False Suc.IH [of "n div 128 - 1"] k by (subst amount_hi.simps) simp
  qed
qed simp

lemma length_amount_ser: "n < 2 ^ 64 \<Longrightarrow> length (amount_ser n) \<le> AMOUNT_SIZE"
proof -
  assume n: "n < 2 ^ 64"
  then have "n div 128 - 1 < 128 ^ 9" by simp
  then show ?thesis using length_amount_hi [of "n div 128 - 1" 9] by (simp add: amount_ser_def AMOUNT_SIZE_def)
qed

lemma write_amount_loop_ser:
  assumes "0 \<le> n" and "n < 2 ^ 64"
  shows "write_amount_loop n [] = Some (rev (amount_ser n))"
proof -
  have l: "write_amount_loop n [] = (if n \<le> 127 then Some [of_int (n mod 128)]
      else write_amount_loop (n div 128 - 1) [of_int (n mod 128)])"
    by (subst write_amount_loop.simps) (simp add: AMOUNT_SIZE_def Let_def)
  show ?thesis
  proof (cases "n < 128")
    case False
    then have "length [of_int (n mod 128) :: u8] + length (amount_hi (n div 128 - 1)) \<le> AMOUNT_SIZE"
      using length_amount_ser [OF assms(2)] by (simp add: amount_ser_def)
    then have "write_amount_loop (n div 128 - 1) [of_int (n mod 128)] = Some ([of_int (n mod 128)] @ rev (amount_hi (n div 128 - 1)))"
      using False by (intro write_amount_loop_hi) simp_all
    then show ?thesis using False unfolding l by (simp add: amount_ser_def)
  qed (simp add: l amount_ser_def)
qed

lemma enc_list_bytes: "enc_list emit_u8 bs = wrote bs"
  by (induction bs) simp_all

definition amount_wf :: "int \<Rightarrow> bool" where
  "amount_wf n \<longleftrightarrow> 0 \<le> n \<and> n < 2 ^ 63"

lemma amount_codec: "canonical_codec write_amount read_amount amount_wf amount_ser"
proof (rule canonical_codecI)
  fix n assume "amount_wf n"
  then show "write_amount n = wrote (amount_ser n)"
    by (simp add: write_amount_def amount_wf_def write_amount_loop_ser enc_list_bytes) (simp add: wrote_def)
next
  fix r n r'
  show "read_amount r = Inr (n, r') \<longleftrightarrow> amount_wf n \<and> r = amount_ser n @ r'"
    using read_amount_canonical [of "2 ^ 63 - 1" 0 r n r'] read_amount_loop_ser [of n "2 ^ 63 - 1" r']
    by (auto simp: read_amount_def amount_wf_def amount_prefix_def)
qed

interpretation amount: canonical_codec write_amount read_amount amount_wf amount_ser
  by (rule amount_codec)

interpretation compact_varint: canonical_codec write_compact_varint read_compact_varint "\<lambda>_. True"
  "\<lambda>n. amount_ser (uint n)"
proof (rule canonical_codecI)
  fix n :: u64
  show "write_compact_varint n = wrote (amount_ser (uint n))"
    using uint_lt2p [of n]
    by (simp add: write_compact_varint_def write_amount_loop_ser enc_list_bytes) (simp add: wrote_def)
next
  fix r r' and n :: u64
  have "read_amount_loop (2 ^ 64 - 1) 0 r = Inr (k, r') \<longleftrightarrow> 0 \<le> k \<and> k < 2 ^ 64 \<and> r = amount_ser k @ r'" for k
    using read_amount_canonical [of "2 ^ 64 - 1" 0 r k r'] read_amount_loop_ser [of k "2 ^ 64 - 1" r']
    by (auto simp: amount_prefix_def)
  then have "read_compact_varint r = Inr (n, r') \<longleftrightarrow>
      (\<exists>k. (0 \<le> k \<and> k < 2 ^ 64 \<and> r = amount_ser k @ r') \<and> n = word_of_int k)"
    by (simp only: read_compact_varint_def dmap_Inr_iff)
  also have "\<dots> \<longleftrightarrow> r = amount_ser (uint n) @ r'"
  proof
    assume "\<exists>k. (0 \<le> k \<and> k < 2 ^ 64 \<and> r = amount_ser k @ r') \<and> n = word_of_int k"
    then obtain k where k: "0 \<le> k" "k < 2 ^ 64" "r = amount_ser k @ r'" "n = word_of_int k" by blast
    then have "uint n = k" by (simp add: uint_word_of_int)
    with k(3) show "r = amount_ser (uint n) @ r'" by simp
  next
    assume "r = amount_ser (uint n) @ r'"
    then show "\<exists>k. (0 \<le> k \<and> k < 2 ^ 64 \<and> r = amount_ser k @ r') \<and> n = word_of_int k"
      using uint_lt2p [of n] by (intro exI [of _ "uint n"]) simp
  qed
  finally show "read_compact_varint r = Inr (n, r') \<longleftrightarrow> True \<and> r = amount_ser (uint n) @ r'" by simp
qed

section \<open>Keys and fields that depend on a feature bit\<close>

record 'k key_ops =
  pk_from_slice :: "bytes \<Rightarrow> 'k option"
  pk_serialize :: "'k \<Rightarrow> bytes"

definition key_laws :: "'k key_ops \<Rightarrow> bool" where
  "key_laws K \<longleftrightarrow>
     (\<forall>k. length (pk_serialize K k) = 33 \<and> pk_from_slice K (pk_serialize K k) = Some k)
     \<and> (\<forall>b k. length b = 33 \<longrightarrow> pk_from_slice K b = Some k \<longrightarrow> pk_serialize K k = b)"

definition key_encode :: "'k key_ops \<Rightarrow> 'k \<Rightarrow> io_failure encoded" where
  "key_encode K k = array_encode (pk_serialize K k)"

definition key_decode :: "'k key_ops \<Rightarrow> string \<Rightarrow> (encode_error, 'k) decoder" where
  "key_decode K msg = dbind (array_decode 33) (\<lambda>b. case pk_from_slice K b of
     None \<Rightarrow> dfail (ParseFailed msg) | Some k \<Rightarrow> dreturn k)"

text \<open>A field that is read when its bit is set, and must be there to be written when its bit is set.\<close>

definition dec_field :: "bool \<Rightarrow> (encode_error, 'a) decoder \<Rightarrow> (encode_error, 'a option) decoder" where
  "dec_field bit_set d = (if bit_set then dmap Some d else dreturn None)"

definition enc_field :: "bool \<Rightarrow> ('a \<Rightarrow> io_failure encoded) \<Rightarrow> 'a option \<Rightarrow> io_failure encoded" where
  "enc_field bit_set enc x =
     (if bit_set then (case x of None \<Rightarrow> Inl (Io Other) | Some v \<Rightarrow> enc v) else enc_nothing)"

text \<open>A list that is read when its bit is set and empty otherwise.\<close>

definition dec_list :: "bool \<Rightarrow> (encode_error, 'a list) decoder \<Rightarrow> (encode_error, 'a list) decoder" where
  "dec_list bit_set d = (if bit_set then d else dreturn [])"

definition enc_when :: "bool \<Rightarrow> io_failure encoded \<Rightarrow> io_failure encoded" where
  "enc_when bit_set e = (if bit_set then e else enc_nothing)"

section \<open>The structures\<close>

record 'k output_fields =
  key_exchange_pubkey :: 'k
  view_tag :: u8
  masked_value :: u64
  masked_nonce :: bytes

record 'k output_message =
  om_features :: u8
  standard_fields :: "'k output_fields option"
  om_extra_data :: bytes

record 'k mw_output =
  out_commitment :: bytes
  sender_public_key :: 'k
  receiver_public_key :: 'k
  message :: "'k output_message"
  range_proof :: bytes
  out_signature :: bytes

record 'k mw_input =
  in_features :: u8
  output_id :: bytes
  in_commitment :: bytes
  input_public_key :: "'k option"
  output_public_key :: 'k
  in_extra_data :: bytes
  in_signature :: bytes

record pegout_coin =
  peg_amount :: int
  peg_script :: bytes

record 'k kernel =
  k_features :: u8
  k_fee :: "int option"
  k_pegin :: "int option"
  k_pegouts :: "pegout_coin list"
  k_lock_height :: "u32 option"
  k_stealth_excess :: "'k option"
  k_extra_data :: bytes
  k_excess :: bytes
  k_signature :: bytes

record 'k tx_body =
  body_inputs :: "'k mw_input list"
  body_outputs :: "'k mw_output list"
  body_kernels :: "'k kernel list"

record 'k mw_transaction =
  kernel_offset :: bytes
  stealth_offset :: bytes
  mw_body :: "'k tx_body"

abbreviation feature :: "u8 \<Rightarrow> u8 \<Rightarrow> bool" where
  "feature features b \<equiv> features AND b \<noteq> 0"

definition pegout_decode :: "(encode_error, pegout_coin) decoder" where
  "pegout_decode = dbind read_amount (\<lambda>amount. dbind bytes_decode (\<lambda>script.
     if script = [] then dfail (ParseFailed ''Pegout scriptPubKey must not be empty'')
     else dreturn \<lparr> peg_amount = amount, peg_script = script \<rparr>))"

definition pegout_encode :: "pegout_coin \<Rightarrow> io_failure encoded" where
  "pegout_encode p = enc_seq (write_amount (peg_amount p)) (script_encode (peg_script p))"

definition lock_height_decode :: "(encode_error, u32) decoder" where
  "lock_height_decode = dbind read_amount (\<lambda>raw.
     if raw < 0 \<or> 2 ^ 32 - 1 < raw then dfail (ParseFailed ''Kernel lock_height out of range'')
     else dreturn (word_of_int raw))"

definition kernel_decode :: "'k key_ops \<Rightarrow> (encode_error, 'k kernel) decoder" where
  "kernel_decode K =
     dbind read_u8 (\<lambda>features.
     dbind (dec_field (feature features 0x01) read_amount) (\<lambda>fee.
     dbind (dec_field (feature features 0x02) read_amount) (\<lambda>pegin.
     dbind (dec_list (feature features 0x04)
              (dbind read_array_len (\<lambda>n. drepeat (unat n) pegout_decode))) (\<lambda>pegouts.
     dbind (dec_field (feature features 0x08) lock_height_decode) (\<lambda>lock_height.
     dbind (dec_field (feature features 0x10) (key_decode K ''invalid kernel stealth excess'')) (\<lambda>stealth_excess.
     dbind (dec_list (feature features 0x20) bytes_decode) (\<lambda>extra_data.
     dbind (array_decode 33) (\<lambda>excess.
     dbind (array_decode 64) (\<lambda>signature.
       dreturn \<lparr> k_features = features, k_fee = fee, k_pegin = pegin, k_pegouts = pegouts,
                 k_lock_height = lock_height, k_stealth_excess = stealth_excess, k_extra_data = extra_data,
                 k_excess = excess, k_signature = signature \<rparr>)))))))))"

definition kernel_encode :: "'k key_ops \<Rightarrow> 'k kernel \<Rightarrow> io_failure encoded" where
  "kernel_encode K k =
     (let f = k_features k in
      enc_seq (emit_u8 f)
     (enc_seq (enc_field (feature f 0x01) write_amount (k_fee k))
     (enc_seq (enc_field (feature f 0x02) write_amount (k_pegin k))
     (enc_seq (enc_when (feature f 0x04)
                 (enc_seq (varint_encode (of_nat (length (k_pegouts k)))) (enc_list pegout_encode (k_pegouts k))))
     (enc_seq (enc_field (feature f 0x08) (\<lambda>lh. write_amount (uint lh)) (k_lock_height k))
     (enc_seq (enc_field (feature f 0x10) (key_encode K) (k_stealth_excess k))
     (enc_seq (enc_when (feature f 0x20) (consensus_encode_with_size (k_extra_data k)))
     (enc_seq (array_encode (k_excess k)) (array_encode (k_signature k))))))))))"

definition mw_input_decode :: "'k key_ops \<Rightarrow> (encode_error, 'k mw_input) decoder" where
  "mw_input_decode K =
     dbind read_u8 (\<lambda>features.
     dbind (array_decode 32) (\<lambda>id.
     dbind (array_decode 33) (\<lambda>commitment.
     dbind (key_decode K ''invalid input output_public_key'') (\<lambda>output_key.
     dbind (dec_field (feature features 1) (key_decode K ''invalid input input_public_key'')) (\<lambda>input_key.
     dbind (dec_list (feature features 2) bytes_decode) (\<lambda>extra_data.
     dbind (array_decode 64) (\<lambda>signature.
       dreturn \<lparr> in_features = features, output_id = id, in_commitment = commitment,
                 input_public_key = input_key, output_public_key = output_key,
                 in_extra_data = extra_data, in_signature = signature \<rparr>)))))))"

definition mw_input_encode :: "'k key_ops \<Rightarrow> 'k mw_input \<Rightarrow> io_failure encoded" where
  "mw_input_encode K i =
     enc_seq (emit_u8 (in_features i))
    (enc_seq (array_encode (output_id i))
    (enc_seq (array_encode (in_commitment i))
    (enc_seq (key_encode K (output_public_key i))
    (enc_seq (enc_field (feature (in_features i) 1) (key_encode K) (input_public_key i))
    (enc_seq (enc_when (feature (in_features i) 2) (consensus_encode_with_size (in_extra_data i)))
             (array_encode (in_signature i)))))))"

definition fields_decode :: "'k key_ops \<Rightarrow> (encode_error, 'k output_fields) decoder" where
  "fields_decode K =
     dbind (key_decode K ''invalid output key_exchange_pubkey'') (\<lambda>key.
     dbind read_u8 (\<lambda>tag. dbind read_int (\<lambda>value. dbind (array_decode 16) (\<lambda>nonce.
       dreturn \<lparr> key_exchange_pubkey = key, view_tag = tag, masked_value = value, masked_nonce = nonce \<rparr>))))"

definition fields_encode :: "'k key_ops \<Rightarrow> 'k output_fields \<Rightarrow> io_failure encoded" where
  "fields_encode K f =
     enc_seq (key_encode K (key_exchange_pubkey f))
    (enc_seq (emit_u8 (view_tag f))
    (enc_seq (int_encode (masked_value f)) (array_encode (masked_nonce f))))"

text \<open>The encoder of a message tests the field and not the bit.\<close>

definition output_message_decode :: "'k key_ops \<Rightarrow> (encode_error, 'k output_message) decoder" where
  "output_message_decode K =
     dbind read_u8 (\<lambda>features.
     dbind (dec_field (feature features 0x01) (fields_decode K)) (\<lambda>fields.
     dbind (dec_list (feature features 0x02) bytes_decode) (\<lambda>extra_data.
       dreturn \<lparr> om_features = features, standard_fields = fields, om_extra_data = extra_data \<rparr>)))"

definition output_message_encode :: "'k key_ops \<Rightarrow> 'k output_message \<Rightarrow> io_failure encoded" where
  "output_message_encode K m =
     enc_seq (emit_u8 (om_features m))
    (enc_seq (case standard_fields m of None \<Rightarrow> enc_nothing | Some f \<Rightarrow> fields_encode K f)
             (enc_when (feature (om_features m) 0x02) (consensus_encode_with_size (om_extra_data m))))"

definition mw_output_decode :: "'k key_ops \<Rightarrow> (encode_error, 'k mw_output) decoder" where
  "mw_output_decode K =
     dbind (array_decode 33) (\<lambda>commitment.
     dbind (key_decode K ''invalid output sender_public_key'') (\<lambda>sender.
     dbind (key_decode K ''invalid output receiver_public_key'') (\<lambda>receiver.
     dbind (output_message_decode K) (\<lambda>msg.
     dbind (array_decode 675) (\<lambda>proof.
     dbind (array_decode 64) (\<lambda>signature.
       dreturn \<lparr> out_commitment = commitment, sender_public_key = sender, receiver_public_key = receiver,
                 message = msg, range_proof = proof, out_signature = signature \<rparr>))))))"

definition mw_output_encode :: "'k key_ops \<Rightarrow> 'k mw_output \<Rightarrow> io_failure encoded" where
  "mw_output_encode K x =
     enc_seq (array_encode (out_commitment x))
    (enc_seq (key_encode K (sender_public_key x))
    (enc_seq (key_encode K (receiver_public_key x))
    (enc_seq (output_message_encode K (message x))
    (enc_seq (array_encode (range_proof x)) (array_encode (out_signature x))))))"

definition tx_body_decode :: "'k key_ops \<Rightarrow> (encode_error, 'k tx_body) decoder" where
  "tx_body_decode K =
     dbind (vec_decode (mw_input_decode K)) (\<lambda>inputs.
     dbind (vec_decode (mw_output_decode K)) (\<lambda>outputs.
     dbind (vec_decode (kernel_decode K)) (\<lambda>kernels.
       dreturn \<lparr> body_inputs = inputs, body_outputs = outputs, body_kernels = kernels \<rparr>)))"

definition tx_body_encode :: "'k key_ops \<Rightarrow> 'k tx_body \<Rightarrow> io_failure encoded" where
  "tx_body_encode K b =
     enc_seq (vec_encode (mw_input_encode K) (body_inputs b))
    (enc_seq (vec_encode (mw_output_encode K) (body_outputs b))
             (vec_encode (kernel_encode K) (body_kernels b)))"

definition mw_tx_decode :: "'k key_ops \<Rightarrow> (encode_error, 'k mw_transaction) decoder" where
  "mw_tx_decode K =
     dbind (array_decode 32) (\<lambda>ko. dbind (array_decode 32) (\<lambda>so. dbind (tx_body_decode K) (\<lambda>body.
       if body_kernels body = [] then dfail (ParseFailed ''MWEB transaction must contain at least one kernel'')
       else dreturn \<lparr> kernel_offset = ko, stealth_offset = so, mw_body = body \<rparr>)))"

definition mw_tx_encode :: "'k key_ops \<Rightarrow> 'k mw_transaction \<Rightarrow> io_failure encoded" where
  "mw_tx_encode K t =
     enc_seq (array_encode (kernel_offset t))
    (enc_seq (array_encode (stealth_offset t)) (tx_body_encode K (mw_body t)))"

section \<open>Every structure has a canonical encoding\<close>

definition field_wf :: "bool \<Rightarrow> ('a \<Rightarrow> bool) \<Rightarrow> 'a option \<Rightarrow> bool" where
  "field_wf bit_set ok x = (case x of None \<Rightarrow> \<not> bit_set | Some v \<Rightarrow> bit_set \<and> ok v)"

definition field_ser :: "('a \<Rightarrow> bytes) \<Rightarrow> 'a option \<Rightarrow> bytes" where
  "field_ser ser x = (case x of None \<Rightarrow> [] | Some v \<Rightarrow> ser v)"

definition list_wf :: "bool \<Rightarrow> ('a list \<Rightarrow> bool) \<Rightarrow> 'a list \<Rightarrow> bool" where
  "list_wf bit_set ok xs \<longleftrightarrow> (if bit_set then ok xs else xs = [])"

definition when_ser :: "bool \<Rightarrow> bytes \<Rightarrow> bytes" where
  "when_ser bit_set b = (if bit_set then b else [])"

lemma dec_field_iff:
  "canonical_codec enc d ok ser \<Longrightarrow>
     dec_field c d r = Inr (x, r') \<longleftrightarrow> field_wf c ok x \<and> r = field_ser ser x @ r'"
  by (cases x) (auto simp: dec_field_def field_wf_def field_ser_def dmap_Inr_iff canonical_codec.dec_iff)

lemma enc_field_wrote:
  "codec enc d ok ser \<Longrightarrow> field_wf c ok x \<Longrightarrow> enc_field c enc x = wrote (field_ser ser x)"
  by (auto simp: enc_field_def field_wf_def field_ser_def codec.enc_ser split: option.splits)

lemma dec_list_iff:
  "(\<And>r x r'. d r = Inr (x, r') \<longleftrightarrow> ok x \<and> r = ser x @ r') \<Longrightarrow>
     dec_list c d r = Inr (x, r') \<longleftrightarrow> list_wf c ok x \<and> r = when_ser c (ser x) @ r'"
  by (auto simp: dec_list_def list_wf_def when_ser_def)

lemma enc_when_wrote: "(c \<Longrightarrow> e = wrote b) \<Longrightarrow> enc_when c e = wrote (when_ser c b)"
  by (simp add: enc_when_def when_ser_def)

lemma case_dfail_iff: "(case x of None \<Rightarrow> dfail e | Some k \<Rightarrow> dreturn k) r = Inr (y, r') \<longleftrightarrow> x = Some y \<and> r' = r"
  by (cases x) auto

lemma if_dfail_iff: "(if c then dfail e else d) r = Inr y \<longleftrightarrow> \<not> c \<and> d r = Inr y"
  by simp

lemma key_codec: "key_laws K \<Longrightarrow> canonical_codec (key_encode K) (key_decode K msg) (\<lambda>_. True) (pk_serialize K)"
  by (rule canonical_codecI)
    (auto simp: key_encode_def key_decode_def dbind_Inr_iff array_dec_iff key_laws_def case_dfail_iff)

lemma canonical_is_codec: "canonical_codec e d ok ser \<Longrightarrow> codec e d ok ser"
  by (simp add: canonical_codec_def)

text \<open>Peg-outs and lock heights.\<close>

definition pegout_wf :: "pegout_coin \<Rightarrow> bool" where
  "pegout_wf p \<longleftrightarrow> amount_wf (peg_amount p) \<and> bytes_wf (peg_script p) \<and> peg_script p \<noteq> []"

definition pegout_ser :: "pegout_coin \<Rightarrow> bytes" where
  "pegout_ser p = amount_ser (peg_amount p) @ bytes_ser (peg_script p)"

interpretation pegout: canonical_codec pegout_encode pegout_decode pegout_wf pegout_ser
proof (rule canonical_codecI)
  fix p assume "pegout_wf p"
  then show "pegout_encode p = wrote (pegout_ser p)"
    by (simp add: pegout_encode_def pegout_ser_def pegout_wf_def script_encode_def amount.enc_ser bytes_codec.enc_ser)
next
  fix r p r'
  show "pegout_decode r = Inr (p, r') \<longleftrightarrow> pegout_wf p \<and> r = pegout_ser p @ r'"
    by (cases p) (auto simp: pegout_decode_def pegout_wf_def pegout_ser_def dbind_Inr_iff amount.dec_iff base_dec_iff
        split: if_splits)
qed

interpretation lock_height: canonical_codec "\<lambda>lh :: u32. write_amount (uint lh)" lock_height_decode "\<lambda>_. True"
  "\<lambda>lh. amount_ser (uint lh)"
proof (rule canonical_codecI)
  fix n :: u32
  have "uint n < 2 ^ 32" using uint_lt2p [of n] by simp
  then show "write_amount (uint n) = wrote (amount_ser (uint n))"
    by (intro amount.enc_ser) (simp add: amount_wf_def)
next
  fix r r' and n :: u32
  have n: "uint n < 2 ^ 32" using uint_lt2p [of n] by simp
  have "lock_height_decode r = Inr (n, r') \<longleftrightarrow>
      (\<exists>k. amount_wf k \<and> r = amount_ser k @ r' \<and> k < 2 ^ 32 \<and> n = word_of_int k)"
    unfolding lock_height_decode_def dbind_Inr_iff amount.dec_iff if_dfail_iff amount_wf_def by fastforce
  also have "\<dots> \<longleftrightarrow> r = amount_ser (uint n) @ r'"
  proof
    assume "\<exists>k. amount_wf k \<and> r = amount_ser k @ r' \<and> k < 2 ^ 32 \<and> n = word_of_int k"
    then obtain k where k: "amount_wf k" "r = amount_ser k @ r'" "k < 2 ^ 32" "n = word_of_int k" by blast
    then have "uint n = k" by (simp add: uint_word_of_int amount_wf_def)
    with k(2) show "r = amount_ser (uint n) @ r'" by simp
  next
    assume "r = amount_ser (uint n) @ r'"
    then show "\<exists>k. amount_wf k \<and> r = amount_ser k @ r' \<and> k < 2 ^ 32 \<and> n = word_of_int k"
      using n by (intro exI [of _ "uint n"]) (simp add: amount_wf_def)
  qed
  finally show "lock_height_decode r = Inr (n, r') \<longleftrightarrow> True \<and> r = amount_ser (uint n) @ r'" by simp
qed

interpretation vec_pegout: canonical_codec "vec_encode pegout_encode" "vec_decode pegout_decode"
  "vec_wf pegout_wf" "vec_ser pegout_ser"
  by (rule pegout.vec_canonical)

definition kernel_wf :: "'k kernel \<Rightarrow> bool" where
  "kernel_wf k \<longleftrightarrow>
     (let f = k_features k in
      field_wf (feature f 0x01) amount_wf (k_fee k) \<and> field_wf (feature f 0x02) amount_wf (k_pegin k)
      \<and> list_wf (feature f 0x04) (vec_wf pegout_wf) (k_pegouts k)
      \<and> field_wf (feature f 0x08) (\<lambda>_. True) (k_lock_height k)
      \<and> field_wf (feature f 0x10) (\<lambda>_. True) (k_stealth_excess k)
      \<and> list_wf (feature f 0x20) bytes_wf (k_extra_data k)
      \<and> length (k_excess k) = 33 \<and> length (k_signature k) = 64)"

definition kernel_ser :: "'k key_ops \<Rightarrow> 'k kernel \<Rightarrow> bytes" where
  "kernel_ser K k =
     (let f = k_features k in
      [f] @ field_ser amount_ser (k_fee k) @ field_ser amount_ser (k_pegin k)
      @ when_ser (feature f 0x04) (vec_ser pegout_ser (k_pegouts k))
      @ field_ser (\<lambda>lh. amount_ser (uint lh)) (k_lock_height k)
      @ field_ser (pk_serialize K) (k_stealth_excess k)
      @ when_ser (feature f 0x20) (bytes_ser (k_extra_data k))
      @ k_excess k @ k_signature k)"

lemmas field_iffs =
  dec_field_iff [OF amount_codec] dec_field_iff [OF lock_height.canonical_codec_axioms]
  dec_list_iff [OF vec_pegout.dec_iff] dec_list_iff [OF bytes_codec.dec_iff]

lemma kernel_codec:
  fixes K :: "'k key_ops"
  assumes K: "key_laws K"
  shows "canonical_codec (kernel_encode K) (kernel_decode K) kernel_wf (kernel_ser K)"
proof (rule canonical_codecI)
  fix k :: "'k kernel" assume "kernel_wf k"
  then show "kernel_encode K k = wrote (kernel_ser K k)"
    using enc_field_wrote [OF canonical_is_codec [OF amount_codec]]
      enc_field_wrote [OF lock_height.codec_axioms]
      enc_field_wrote [OF canonical_is_codec [OF key_codec [OF K]]]
    by (auto simp: kernel_encode_def kernel_ser_def kernel_wf_def Let_def list_wf_def enc_when_def when_ser_def
        vec_wf_def vec_ser_def varint_encode_wrote pegout.enc_list_ser bytes_codec.enc_ser)
next
  fix r r' and k :: "'k kernel"
  have v: "dbind read_array_len (\<lambda>n. drepeat (unat n) pegout_decode) = vec_decode pegout_decode"
    by (simp add: read_array_len_def vec_decode_def)
  show "kernel_decode K r = Inr (k, r') \<longleftrightarrow> kernel_wf k \<and> r = kernel_ser K k @ r'"
    unfolding kernel_decode_def dbind_Inr_iff v field_iffs dec_field_iff [OF key_codec [OF K]] array_dec_iff
      base_dec_iff dreturn_apply kernel_wf_def kernel_ser_def Let_def
    by (cases k) auto
qed

text \<open>Inputs, outputs and bodies.\<close>

definition mw_input_wf :: "'k mw_input \<Rightarrow> bool" where
  "mw_input_wf i \<longleftrightarrow> length (output_id i) = 32 \<and> length (in_commitment i) = 33 \<and> length (in_signature i) = 64
     \<and> field_wf (feature (in_features i) 1) (\<lambda>_. True) (input_public_key i)
     \<and> list_wf (feature (in_features i) 2) bytes_wf (in_extra_data i)"

definition mw_input_ser :: "'k key_ops \<Rightarrow> 'k mw_input \<Rightarrow> bytes" where
  "mw_input_ser K i =
     [in_features i] @ output_id i @ in_commitment i @ pk_serialize K (output_public_key i)
     @ field_ser (pk_serialize K) (input_public_key i)
     @ when_ser (feature (in_features i) 2) (bytes_ser (in_extra_data i)) @ in_signature i"

lemma mw_input_codec:
  fixes K :: "'k key_ops"
  assumes K: "key_laws K"
  shows "canonical_codec (mw_input_encode K) (mw_input_decode K) mw_input_wf (mw_input_ser K)"
proof (rule canonical_codecI)
  fix i :: "'k mw_input" assume "mw_input_wf i"
  then show "mw_input_encode K i = wrote (mw_input_ser K i)"
    using enc_field_wrote [OF canonical_is_codec [OF key_codec [OF K]]]
    by (auto simp: mw_input_encode_def mw_input_ser_def mw_input_wf_def list_wf_def enc_when_def when_ser_def
        key_encode_def bytes_codec.enc_ser)
next
  fix r r' and i :: "'k mw_input"
  show "mw_input_decode K r = Inr (i, r') \<longleftrightarrow> mw_input_wf i \<and> r = mw_input_ser K i @ r'"
    unfolding mw_input_decode_def dbind_Inr_iff field_iffs dec_field_iff [OF key_codec [OF K]]
      canonical_codec.dec_iff [OF key_codec [OF K]] array_dec_iff base_dec_iff dreturn_apply mw_input_wf_def mw_input_ser_def
    by (cases i) auto
qed

definition fields_ser :: "'k key_ops \<Rightarrow> 'k output_fields \<Rightarrow> bytes" where
  "fields_ser K f =
     pk_serialize K (key_exchange_pubkey f) @ [view_tag f] @ to_le_bytes (masked_value f) @ masked_nonce f"

lemma fields_codec:
  fixes K :: "'k key_ops"
  assumes K: "key_laws K"
  shows "canonical_codec (fields_encode K) (fields_decode K) (\<lambda>f. length (masked_nonce f) = 16) (fields_ser K)"
proof (rule canonical_codecI)
  fix r r' and f :: "'k output_fields"
  show "fields_decode K r = Inr (f, r') \<longleftrightarrow> length (masked_nonce f) = 16 \<and> r = fields_ser K f @ r'"
    unfolding fields_decode_def dbind_Inr_iff canonical_codec.dec_iff [OF key_codec [OF K]] array_dec_iff base_dec_iff
      dreturn_apply fields_ser_def
    by (cases f) auto
qed (simp add: fields_encode_def fields_ser_def key_encode_def)

definition output_message_wf :: "'k output_message \<Rightarrow> bool" where
  "output_message_wf m \<longleftrightarrow>
     field_wf (feature (om_features m) 0x01) (\<lambda>f. length (masked_nonce f) = 16) (standard_fields m)
     \<and> list_wf (feature (om_features m) 0x02) bytes_wf (om_extra_data m)"

definition output_message_ser :: "'k key_ops \<Rightarrow> 'k output_message \<Rightarrow> bytes" where
  "output_message_ser K m =
     [om_features m] @ field_ser (fields_ser K) (standard_fields m)
     @ when_ser (feature (om_features m) 0x02) (bytes_ser (om_extra_data m))"

lemma output_message_codec:
  fixes K :: "'k key_ops"
  assumes K: "key_laws K"
  shows "canonical_codec (output_message_encode K) (output_message_decode K) output_message_wf (output_message_ser K)"
proof (rule canonical_codecI)
  fix m :: "'k output_message" assume "output_message_wf m"
  then show "output_message_encode K m = wrote (output_message_ser K m)"
    using codec.enc_ser [OF canonical_is_codec [OF fields_codec [OF K]]]
    by (auto simp: output_message_encode_def output_message_ser_def output_message_wf_def list_wf_def enc_when_def
        when_ser_def field_wf_def field_ser_def bytes_codec.enc_ser split: option.splits)
next
  fix r r' and m :: "'k output_message"
  show "output_message_decode K r = Inr (m, r') \<longleftrightarrow> output_message_wf m \<and> r = output_message_ser K m @ r'"
    unfolding output_message_decode_def dbind_Inr_iff field_iffs dec_field_iff [OF fields_codec [OF K]]
      base_dec_iff dreturn_apply output_message_wf_def output_message_ser_def
    by (cases m) auto
qed

definition mw_output_wf :: "'k mw_output \<Rightarrow> bool" where
  "mw_output_wf x \<longleftrightarrow> length (out_commitment x) = 33 \<and> output_message_wf (message x)
     \<and> length (range_proof x) = 675 \<and> length (out_signature x) = 64"

definition mw_output_ser :: "'k key_ops \<Rightarrow> 'k mw_output \<Rightarrow> bytes" where
  "mw_output_ser K x =
     out_commitment x @ pk_serialize K (sender_public_key x) @ pk_serialize K (receiver_public_key x)
     @ output_message_ser K (message x) @ range_proof x @ out_signature x"

lemma mw_output_codec:
  fixes K :: "'k key_ops"
  assumes K: "key_laws K"
  shows "canonical_codec (mw_output_encode K) (mw_output_decode K) mw_output_wf (mw_output_ser K)"
proof (rule canonical_codecI)
  fix x :: "'k mw_output" assume "mw_output_wf x"
  then show "mw_output_encode K x = wrote (mw_output_ser K x)"
    using codec.enc_ser [OF canonical_is_codec [OF output_message_codec [OF K]]]
    by (simp add: mw_output_encode_def mw_output_ser_def mw_output_wf_def key_encode_def)
next
  fix r r' and x :: "'k mw_output"
  show "mw_output_decode K r = Inr (x, r') \<longleftrightarrow> mw_output_wf x \<and> r = mw_output_ser K x @ r'"
    unfolding mw_output_decode_def dbind_Inr_iff canonical_codec.dec_iff [OF key_codec [OF K]]
      canonical_codec.dec_iff [OF output_message_codec [OF K]] array_dec_iff dreturn_apply mw_output_wf_def mw_output_ser_def
    by (cases x) auto
qed

definition tx_body_wf :: "'k tx_body \<Rightarrow> bool" where
  "tx_body_wf b \<longleftrightarrow> vec_wf mw_input_wf (body_inputs b) \<and> vec_wf mw_output_wf (body_outputs b)
     \<and> vec_wf kernel_wf (body_kernels b)"

definition tx_body_ser :: "'k key_ops \<Rightarrow> 'k tx_body \<Rightarrow> bytes" where
  "tx_body_ser K b =
     vec_ser (mw_input_ser K) (body_inputs b) @ vec_ser (mw_output_ser K) (body_outputs b)
     @ vec_ser (kernel_ser K) (body_kernels b)"

definition mw_tx_wf :: "'k mw_transaction \<Rightarrow> bool" where
  "mw_tx_wf t \<longleftrightarrow> length (kernel_offset t) = 32 \<and> length (stealth_offset t) = 32
     \<and> tx_body_wf (mw_body t) \<and> body_kernels (mw_body t) \<noteq> []"

definition mw_tx_ser :: "'k key_ops \<Rightarrow> 'k mw_transaction \<Rightarrow> bytes" where
  "mw_tx_ser K t = kernel_offset t @ stealth_offset t @ tx_body_ser K (mw_body t)"

lemma tx_body_codec:
  fixes K :: "'k key_ops"
  assumes K: "key_laws K"
  shows "canonical_codec (tx_body_encode K) (tx_body_decode K) tx_body_wf (tx_body_ser K)"
proof (rule canonical_codecI)
  note i = canonical_codec.vec_canonical [OF mw_input_codec [OF K]]
    and o = canonical_codec.vec_canonical [OF mw_output_codec [OF K]]
    and k = canonical_codec.vec_canonical [OF kernel_codec [OF K]]
  show "tx_body_encode K b = wrote (tx_body_ser K b)" if "tx_body_wf b" for b
    using that codec.enc_ser [OF canonical_is_codec [OF i]] codec.enc_ser [OF canonical_is_codec [OF o]]
      codec.enc_ser [OF canonical_is_codec [OF k]]
    by (simp add: tx_body_encode_def tx_body_ser_def tx_body_wf_def)
  show "tx_body_decode K r = Inr (b, r') \<longleftrightarrow> tx_body_wf b \<and> r = tx_body_ser K b @ r'" for r b r'
    unfolding tx_body_decode_def dbind_Inr_iff canonical_codec.dec_iff [OF i] canonical_codec.dec_iff [OF o]
      canonical_codec.dec_iff [OF k] dreturn_apply tx_body_wf_def tx_body_ser_def
    by (cases b) auto
qed

lemma mw_tx_codec:
  fixes K :: "'k key_ops"
  assumes K: "key_laws K"
  shows "canonical_codec (mw_tx_encode K) (mw_tx_decode K) mw_tx_wf (mw_tx_ser K)"
proof (rule canonical_codecI)
  show "mw_tx_encode K t = wrote (mw_tx_ser K t)" if "mw_tx_wf t" for t
    using that codec.enc_ser [OF canonical_is_codec [OF tx_body_codec [OF K]]]
    by (simp add: mw_tx_encode_def mw_tx_ser_def mw_tx_wf_def)
  show "mw_tx_decode K r = Inr (t, r') \<longleftrightarrow> mw_tx_wf t \<and> r = mw_tx_ser K t @ r'" for r t r'
    unfolding mw_tx_decode_def dbind_Inr_iff canonical_codec.dec_iff [OF tx_body_codec [OF K]] array_dec_iff
      if_dfail_iff dreturn_apply mw_tx_wf_def mw_tx_ser_def
    by (cases t) auto
qed

section \<open>Properties\<close>

lemma write_amount_negative:
  assumes "n < 0"
  shows "write_amount n = wrote [of_int (n mod 128)]" and "read_amount [of_int (n mod 128)] = Inr (n mod 128, [])"
proof -
  have "write_amount_loop n [] = Some [of_int (n mod 128)]"
    using assms by (subst write_amount_loop.simps) (simp add: AMOUNT_SIZE_def)
  then show "write_amount n = wrote [of_int (n mod 128)]"
    by (simp add: write_amount_def) (simp add: wrote_def)
  have "amount_ser (n mod 128) = [of_int (n mod 128)]" by (simp add: amount_ser_def)
  moreover have "n mod 128 \<le> 2 ^ 63 - 1" using digit_bound(2) [of n] by simp
  ultimately show "read_amount [of_int (n mod 128)] = Inr (n mod 128, [])"
    using read_amount_loop_ser [of "n mod 128" "2 ^ 63 - 1" "[]"] by (simp add: read_amount_def)
qed

text \<open>
  The two directions of the variable-length amount agree. A reader accepts exactly the bytes that
  \<open>write_amount\<close> produces for a non-negative 64-bit amount, at most ten of them, so no amount has two encodings.
  A negative amount is written without an error, as one byte that holds its lowest seven bits and reads back
  as another amount.
\<close>
theorem amounts_exact:
  "(read_amount r = Inr (n, r')) = (0 \<le> n \<and> n < 2 ^ 63 \<and>
      (\<exists>b. write_amount n = wrote b \<and> length b \<le> AMOUNT_SIZE \<and> r = b @ r'))
   \<and> write_amount (- int (Suc k)) = wrote [of_int (- int (Suc k) mod 128)]
   \<and> read_amount [of_int (- int (Suc k) mod 128)] = Inr (- int (Suc k) mod 128, [])"
proof (intro conjI)
  show "(read_amount r = Inr (n, r')) = (0 \<le> n \<and> n < 2 ^ 63 \<and>
      (\<exists>b. write_amount n = wrote b \<and> length b \<le> AMOUNT_SIZE \<and> r = b @ r'))"
    using length_amount_ser [of n] amount.enc_ser [of n] by (auto simp: amount.dec_iff amount_wf_def)
qed (intro write_amount_negative; simp)+

text \<open>
  C8: The extension-block part of a transaction is read exactly when it is the encoding of a transaction with at
  least one kernel, whose optional fields are present exactly when their feature bit is set; a transaction has one
  encoding only, whatever a key library does that returns the key it was given for the 33 bytes of a key.
\<close>
theorem mweb_transaction_exact:
  fixes K :: "'k key_ops"
  assumes "key_laws K"
  shows "(mw_tx_decode K r = Inr (t, r')) = (mw_tx_wf t \<and> (\<exists>b. mw_tx_encode K t = wrote b \<and> r = b @ r'))"
  using codec.enc_ser [OF canonical_is_codec [OF mw_tx_codec [OF assms]], of t]
  by (auto simp: canonical_codec.dec_iff [OF mw_tx_codec [OF assms]])

definition byte_keys :: "u8 key_ops" where
  "byte_keys = \<lparr> pk_from_slice = (\<lambda>b. if take 32 b = replicate 32 2 then Some (b ! 32) else None),
                 pk_serialize = (\<lambda>k. replicate 32 2 @ [k]) \<rparr>"

lemma key_laws_byte_keys: "key_laws byte_keys"
proof -
  have "b = replicate 32 2 @ [b ! 32]" if "length b = 33" "take 32 b = replicate 32 2" for b :: bytes
    using that take_Suc_conv_app_nth [of 32 b] by simp
  then show ?thesis
    by (auto simp: key_laws_def byte_keys_def nth_append split: if_splits)
qed

definition sample_kernel :: "u8 kernel" where
  "sample_kernel = \<lparr> k_features = 0x13, k_fee = Some 200, k_pegin = Some 70000, k_pegouts = [], k_lock_height = None,
     k_stealth_excess = Some 9, k_extra_data = [], k_excess = replicate 33 5, k_signature = replicate 64 6 \<rparr>"

definition sample_mw_tx :: "u8 mw_transaction" where
  "sample_mw_tx = \<lparr> kernel_offset = replicate 32 1, stealth_offset = replicate 32 2,
     mw_body = \<lparr> body_inputs = [], body_outputs = [], body_kernels = [sample_kernel] \<rparr> \<rparr>"

lemma sample_mw_tx_wf: "mw_tx_wf sample_mw_tx"
  by (simp add: sample_mw_tx_def mw_tx_wf_def tx_body_wf_def vec_wf_def kernel_wf_def sample_kernel_def
      field_wf_def list_wf_def amount_wf_def)

theorem mweb_transaction_exact_witness:
  "mw_tx_decode byte_keys (mw_tx_ser byte_keys sample_mw_tx @ [7]) = Inr (sample_mw_tx, [7])"
proof -
  have "mw_tx_encode byte_keys sample_mw_tx = wrote (mw_tx_ser byte_keys sample_mw_tx)"
    by (rule codec.enc_ser [OF canonical_is_codec [OF mw_tx_codec [OF key_laws_byte_keys]] sample_mw_tx_wf])
  then show ?thesis
    unfolding mweb_transaction_exact [OF key_laws_byte_keys] using sample_mw_tx_wf by blast
qed

text \<open>An encoder that either writes, or fails with \<open>Other\<close> exactly under a condition.\<close>

definition fails_iff :: "bool \<Rightarrow> io_failure encoded \<Rightarrow> bool" where
  "fails_iff c e \<longleftrightarrow> (if c then e = Inl (Io Other) else \<exists>b. e = wrote b)"

lemma fails_iff_wrote: "fails_iff False (wrote b)"
  by (simp add: fails_iff_def)

lemma fails_iff_seq: "fails_iff c a \<Longrightarrow> fails_iff d b \<Longrightarrow> fails_iff (c \<or> d) (enc_seq a b)"
  by (auto simp: fails_iff_def split: if_splits) (auto simp: enc_seq_def wrote_def)

lemma fails_iff_list: "(\<And>x. x \<in> set xs \<Longrightarrow> fails_iff False (f x)) \<Longrightarrow> fails_iff False (enc_list f xs)"
proof (induction xs)
  case (Cons x xs)
  then show ?case using fails_iff_seq [of False "f x" False "enc_list f xs"] by simp
qed (simp add: fails_iff_def)

lemma fails_iff_field:
  "(\<And>v. x = Some v \<Longrightarrow> fails_iff False (enc v)) \<Longrightarrow> fails_iff (c \<and> x = None) (enc_field c enc x)"
  by (auto simp: fails_iff_def enc_field_def split: option.splits)

lemma fails_iff_when: "(c \<Longrightarrow> fails_iff False e) \<Longrightarrow> fails_iff False (enc_when c e)"
  by (simp add: enc_when_def fails_iff_def)

lemma fails_iff_amount: "n < 2 ^ 63 \<Longrightarrow> fails_iff False (write_amount n)"
proof (cases "n < 0")
  case True
  then show ?thesis using write_amount_negative(1) by (simp add: fails_iff_def)
qed (auto simp: fails_iff_def amount.enc_ser amount_wf_def)

lemma fails_iff_pegouts:
  assumes "\<forall>p\<in>set ps. peg_amount p < 2 ^ 63"
  shows "fails_iff False (enc_seq (varint_encode (of_nat (length ps))) (enc_list pegout_encode ps))"
proof -
  have "fails_iff False (pegout_encode p)" if "p \<in> set ps" for p
    unfolding pegout_encode_def
    using fails_iff_seq [OF fails_iff_amount fails_iff_wrote] assms that
    by (auto simp: script_encode_def consensus_encode_with_size_def varint_encode_wrote)
  then show ?thesis
    using fails_iff_seq [OF fails_iff_wrote fails_iff_list] by (auto simp: varint_encode_wrote)
qed

text \<open>
  The encoder of a kernel fails exactly when a feature bit is set whose field is missing, and with an \<open>Other\<close>
  error; it writes the kernel otherwise. The fields whose bit is not set are left out without an error.
\<close>
theorem kernel_missing_field:
  assumes "\<forall>n. k_fee k = Some n \<longrightarrow> n < 2 ^ 63" and "\<forall>n. k_pegin k = Some n \<longrightarrow> n < 2 ^ 63"
    and "\<forall>p\<in>set (k_pegouts k). peg_amount p < 2 ^ 63"
  shows "if feature (k_features k) 0x01 \<and> k_fee k = None \<or> feature (k_features k) 0x02 \<and> k_pegin k = None
           \<or> feature (k_features k) 0x08 \<and> k_lock_height k = None
           \<or> feature (k_features k) 0x10 \<and> k_stealth_excess k = None
         then kernel_encode K k = Inl (Io Other) else \<exists>b. kernel_encode K k = wrote b"
proof -
  let ?f = "k_features k"
  have lh: "fails_iff False (write_amount (uint (lh :: u32)))" for lh
    using uint_lt2p [of lh] by (intro fails_iff_amount) simp
  have key: "fails_iff False (key_encode K q)" for q
    by (simp add: key_encode_def fails_iff_wrote)
  have bytes: "fails_iff False (consensus_encode_with_size d)" for d
    by (simp add: consensus_encode_with_size_def varint_encode_wrote fails_iff_wrote)
  have "fails_iff (False \<or> (feature ?f 0x01 \<and> k_fee k = None) \<or> (feature ?f 0x02 \<and> k_pegin k = None) \<or> False
      \<or> (feature ?f 0x08 \<and> k_lock_height k = None) \<or> (feature ?f 0x10 \<and> k_stealth_excess k = None)
      \<or> False \<or> False \<or> False) (kernel_encode K k)"
    unfolding kernel_encode_def Let_def using assms
    by (intro fails_iff_seq fails_iff_field fails_iff_when fails_iff_pegouts fails_iff_amount lh key bytes)
      (simp_all add: fails_iff_wrote)
  then show ?thesis unfolding fails_iff_def by simp
qed

theorem kernel_missing_field_witness:
  "kernel_encode byte_keys (sample_kernel \<lparr> k_fee := None \<rparr>) = Inl (Io Other)"
  using kernel_missing_field [of "sample_kernel \<lparr> k_fee := None \<rparr>" byte_keys] by (simp add: sample_kernel_def)

text \<open>
  The encoder of an output's message looks at the fields and not at the feature bit. A message whose fields are
  present and whose bit is not set is encoded with the fields, and its bytes read back as a message without them,
  the fields left over as the input of whatever is read next.
\<close>
theorem message_bit_ignored:
  fixes K :: "'k key_ops"
  assumes "key_laws K" and "\<not> feature c 0x01" and "\<not> feature c 0x02"
  shows "output_message_encode K \<lparr> om_features = c, standard_fields = Some f, om_extra_data = x \<rparr>
           = enc_seq (emit_u8 c) (fields_encode K f)
         \<and> output_message_decode K (c # b)
           = Inr (\<lparr> om_features = c, standard_fields = None, om_extra_data = [] \<rparr>, b)"
proof
  show "output_message_encode K \<lparr> om_features = c, standard_fields = Some f, om_extra_data = x \<rparr>
      = enc_seq (emit_u8 c) (fields_encode K f)"
    using assms(3) by (simp add: output_message_encode_def fields_encode_def key_encode_def enc_when_def)
  have "output_message_wf (\<lparr> om_features = c, standard_fields = None, om_extra_data = [] \<rparr> :: 'k output_message)"
    using assms(2,3) by (simp add: output_message_wf_def field_wf_def list_wf_def)
  then show "output_message_decode K (c # b)
      = Inr (\<lparr> om_features = c, standard_fields = None, om_extra_data = [] \<rparr>, b)"
    using assms(3) unfolding canonical_codec.dec_iff [OF output_message_codec [OF assms(1)]]
    by (simp add: output_message_ser_def field_ser_def when_ser_def)
qed

theorem message_bit_ignored_witness:
  "output_message_decode byte_keys (0 # replicate 58 3)
     = Inr (\<lparr> om_features = 0, standard_fields = None, om_extra_data = [] \<rparr>, replicate 58 3)"
  using message_bit_ignored [OF key_laws_byte_keys, of 0] by simp

end
