(* ===== verification/Units.thy ===== *)
theory Units
  imports Prelude "HOL-Library.Signed_Division"
begin

text \<open>
  The integer newtypes of \<open>src/units\<close>: \<open>Weight\<close> (\<open>weight.rs\<close>), \<open>FeeRate\<close> (\<open>fee_rate.rs\<close>) and the arithmetic of
  \<open>Amount\<close> and \<open>SignedAmount\<close> (\<open>amount.rs\<close>). The unsigned ones are 64-bit words; a signed amount is an integer
  between \<open>- (2 ^ 63)\<close> and \<open>2 ^ 63 - 1\<close>. Operations that panic return \<^term>\<open>None\<close>; unchecked ones wrap, as in a
  build without overflow checks.
\<close>

section \<open>Checked arithmetic of u64 and i64\<close>

definition checked_add :: "u64 \<Rightarrow> u64 \<Rightarrow> u64 option" where
  "checked_add a b = (if unat a + unat b < 2 ^ 64 then Some (a + b) else None)"

definition checked_sub :: "u64 \<Rightarrow> u64 \<Rightarrow> u64 option" where
  "checked_sub a b = (if b \<le> a then Some (a - b) else None)"

definition checked_mul :: "u64 \<Rightarrow> u64 \<Rightarrow> u64 option" where
  "checked_mul a b = (if unat a * unat b < 2 ^ 64 then Some (a * b) else None)"

definition checked_div :: "u64 \<Rightarrow> u64 \<Rightarrow> u64 option" where
  "checked_div a b = (if b = 0 then None else Some (a div b))"

definition checked_rem :: "u64 \<Rightarrow> u64 \<Rightarrow> u64 option" where
  "checked_rem a b = (if b = 0 then None else Some (a mod b))"

definition in_i64 :: "int \<Rightarrow> bool" where
  "in_i64 n \<longleftrightarrow> - (2 ^ 63) \<le> n \<and> n < 2 ^ 63"

definition checked_i64 :: "int \<Rightarrow> int option" where
  "checked_i64 n = (if in_i64 n then Some n else None)"

definition wrap_i64 :: "int \<Rightarrow> int" where
  "wrap_i64 n = (n + 2 ^ 63) mod 2 ^ 64 - 2 ^ 63"

section \<open>Weight\<close>

type_synonym weight = u64

definition WITNESS_SCALE_FACTOR :: u64 where "WITNESS_SCALE_FACTOR = 4"

definition from_wu_usize :: "nat \<Rightarrow> weight" where
  "from_wu_usize wu = of_nat wu"

definition from_kwu :: "u64 \<Rightarrow> weight option" where
  "from_kwu wu = checked_mul wu 1000"

definition from_vb :: "u64 \<Rightarrow> weight option" where
  "from_vb vb = checked_mul vb WITNESS_SCALE_FACTOR"

definition from_vb_unwrap :: "u64 \<Rightarrow> weight option" where
  "from_vb_unwrap vb = (case checked_mul vb WITNESS_SCALE_FACTOR of Some w \<Rightarrow> Some w | None \<Rightarrow> None)"

definition from_vb_unchecked :: "u64 \<Rightarrow> weight" where
  "from_vb_unchecked vb = vb * 4"

definition from_witness_data_size :: "u64 \<Rightarrow> weight" where
  "from_witness_data_size witness_size = witness_size"

definition from_non_witness_data_size :: "u64 \<Rightarrow> weight" where
  "from_non_witness_data_size non_witness_size = non_witness_size * WITNESS_SCALE_FACTOR"

definition to_kwu_floor :: "weight \<Rightarrow> u64" where
  "to_kwu_floor w = w div 1000"

definition to_vbytes_floor :: "weight \<Rightarrow> u64" where
  "to_vbytes_floor w = w div WITNESS_SCALE_FACTOR"

definition to_vbytes_ceil :: "weight \<Rightarrow> u64" where
  "to_vbytes_ceil w = (w + WITNESS_SCALE_FACTOR - 1) div WITNESS_SCALE_FACTOR"

definition scale_by_witness_factor :: "weight \<Rightarrow> weight option" where
  "scale_by_witness_factor w = checked_mul w WITNESS_SCALE_FACTOR"

section \<open>FeeRate\<close>

text \<open>In satoshis per 1000 weight units.\<close>

type_synonym fee_rate = u64

definition from_sat_per_vb :: "u64 \<Rightarrow> fee_rate option" where
  "from_sat_per_vb sat_vb = checked_mul sat_vb (1000 div 4)"

definition from_sat_per_vb_u32 :: "u32 \<Rightarrow> fee_rate" where
  "from_sat_per_vb_u32 sat_vb = ucast sat_vb * (1000 div 4)"

definition to_sat_per_vb_floor :: "fee_rate \<Rightarrow> u64" where
  "to_sat_per_vb_floor r = r div (1000 div 4)"

definition to_sat_per_vb_ceil :: "fee_rate \<Rightarrow> u64" where
  "to_sat_per_vb_ceil r = (r + (1000 div 4 - 1)) div (1000 div 4)"

definition checked_mul_by_weight :: "fee_rate \<Rightarrow> weight \<Rightarrow> u64 option" where
  "checked_mul_by_weight r w =
     Option.bind (checked_mul r w) (\<lambda>p. map_option (\<lambda>s. s div 1000) (checked_add p 999))"

definition fee_wu :: "fee_rate \<Rightarrow> weight \<Rightarrow> u64 option" where
  "fee_wu r w = checked_mul_by_weight r w"

definition fee_vb :: "fee_rate \<Rightarrow> u64 \<Rightarrow> u64 option" where
  "fee_vb r vb = Option.bind (from_vb vb) (fee_wu r)"

definition mul_weight_fee_rate :: "weight \<Rightarrow> fee_rate \<Rightarrow> u64" where
  "mul_weight_fee_rate w r = (r * w + 999) div 1000"

definition div_amount_weight :: "u64 \<Rightarrow> weight \<Rightarrow> fee_rate option" where
  "div_amount_weight a w = (if w = 0 then None else Some (a * 1000 div w))"

section \<open>Amount and SignedAmount\<close>

datatype out_of_range = OutOfRangeError bool bool

abbreviation too_big :: "bool \<Rightarrow> out_of_range" where
  "too_big is_signed \<equiv> OutOfRangeError is_signed True"

abbreviation too_small :: out_of_range where
  "too_small \<equiv> OutOfRangeError True False"

abbreviation negative :: out_of_range where
  "negative \<equiv> OutOfRangeError False False"

fun valid_range :: "out_of_range \<Rightarrow> int \<times> u64" where
  "valid_range (OutOfRangeError is_signed _) =
     (if is_signed then (- (2 ^ 63), 0x7FFFFFFFFFFFFFFF) else (0, 0xFFFFFFFFFFFFFFFF))"

fun is_above_max :: "out_of_range \<Rightarrow> bool" where
  "is_above_max (OutOfRangeError _ is_greater_than_max) = is_greater_than_max"

fun is_below_min :: "out_of_range \<Rightarrow> bool" where
  "is_below_min (OutOfRangeError _ is_greater_than_max) = (\<not> is_greater_than_max)"

definition from_int_btc :: "u64 \<Rightarrow> u64 option" where
  "from_int_btc btc = checked_mul btc 100000000"

definition ONE_BTC :: u64 where "ONE_BTC = 100000000"

definition div_by_weight_ceil :: "u64 \<Rightarrow> weight \<Rightarrow> fee_rate option" where
  "div_by_weight_ceil a w =
     Option.bind (checked_mul a 1000) (\<lambda>sats. Option.bind (checked_sub w 1) (\<lambda>d.
       Option.bind (checked_add sats d) (\<lambda>s. checked_div s w)))"

definition div_by_weight_floor :: "u64 \<Rightarrow> weight \<Rightarrow> fee_rate option" where
  "div_by_weight_floor a w = Option.bind (checked_mul a 1000) (\<lambda>sats. checked_div sats w)"

definition to_signed :: "u64 \<Rightarrow> out_of_range + int" where
  "to_signed a = (if 0x7FFFFFFFFFFFFFFF < a then Inl (too_big True) else Inr (sint a))"

definition to_unsigned :: "int \<Rightarrow> out_of_range + u64" where
  "to_unsigned n = (if n < 0 then Inl negative else Inr (of_int n))"

definition amount_checked_sum :: "u64 list \<Rightarrow> u64 option" where
  "amount_checked_sum xs =
     (let first = Some (case xs of [] \<Rightarrow> 0 | x # _ \<Rightarrow> x) in
      foldl (\<lambda>acc item. Option.bind acc (\<lambda>a. checked_add a item)) first (tl xs))"

definition amount_sum :: "u64 list \<Rightarrow> u64" where
  "amount_sum xs = foldl (+) 0 xs"

definition signed_abs :: "int \<Rightarrow> int" where
  "signed_abs n = wrap_i64 \<bar>n\<bar>"

definition unsigned_abs :: "int \<Rightarrow> u64" where
  "unsigned_abs n = of_int \<bar>n\<bar>"

definition signum :: "int \<Rightarrow> int" where
  "signum n = (if n = 0 then 0 else if 0 < n then 1 else - 1)"

definition signed_checked_abs :: "int \<Rightarrow> int option" where
  "signed_checked_abs n = checked_i64 \<bar>n\<bar>"

definition signed_checked_add :: "int \<Rightarrow> int \<Rightarrow> int option" where
  "signed_checked_add a b = checked_i64 (a + b)"

definition signed_checked_sub :: "int \<Rightarrow> int \<Rightarrow> int option" where
  "signed_checked_sub a b = checked_i64 (a - b)"

definition signed_checked_mul :: "int \<Rightarrow> int \<Rightarrow> int option" where
  "signed_checked_mul a b = checked_i64 (a * b)"

definition signed_checked_div :: "int \<Rightarrow> int \<Rightarrow> int option" where
  "signed_checked_div a b = (if b = 0 then None else checked_i64 (a sdiv b))"

text \<open>\<open>i64::checked_rem\<close> also refuses \<open>MIN % -1\<close>, whose quotient is out of range.\<close>

definition signed_checked_rem :: "int \<Rightarrow> int \<Rightarrow> int option" where
  "signed_checked_rem a b = (if b = 0 \<or> \<not> in_i64 (a sdiv b) then None else Some (a smod b))"

definition signed_unchecked_add :: "int \<Rightarrow> int \<Rightarrow> int" where
  "signed_unchecked_add a b = wrap_i64 (a + b)"

definition signed_unchecked_sub :: "int \<Rightarrow> int \<Rightarrow> int" where
  "signed_unchecked_sub a b = wrap_i64 (a - b)"

definition signed_neg :: "int \<Rightarrow> int" where
  "signed_neg n = wrap_i64 (- n)"

definition positive_sub :: "int \<Rightarrow> int \<Rightarrow> int option" where
  "positive_sub a b = (if a < 0 \<or> b < 0 \<or> a < b then None else signed_checked_sub a b)"

definition signed_checked_sum :: "int list \<Rightarrow> int option" where
  "signed_checked_sum xs =
     (let first = Some (case xs of [] \<Rightarrow> 0 | x # _ \<Rightarrow> x) in
      foldl (\<lambda>acc item. Option.bind acc (\<lambda>a. signed_checked_add a item)) first (tl xs))"

section \<open>Lemmas\<close>

lemma u64_bound: "unat (a :: u64) < 2 ^ 64"
  using unat_less_exp [of a] by simp

lemma checked_add_iff: "checked_add a b = Some c \<longleftrightarrow> unat c = unat a + unat b"
proof
  assume "checked_add a b = Some c"
  then show "unat c = unat a + unat b" by (auto simp: checked_add_def unat_word_ariths split: if_splits)
next
  assume c: "unat c = unat a + unat b"
  then have "unat a + unat b < 2 ^ 64" using u64_bound [of c] by simp
  then show "checked_add a b = Some c"
    using c by (simp add: checked_add_def word_unat_eq_iff unat_word_ariths)
qed

lemma checked_mul_iff: "checked_mul a b = Some c \<longleftrightarrow> unat c = unat a * unat b"
proof
  assume "checked_mul a b = Some c"
  then show "unat c = unat a * unat b" by (auto simp: checked_mul_def unat_word_ariths split: if_splits)
next
  assume c: "unat c = unat a * unat b"
  then have "unat a * unat b < 2 ^ 64" using u64_bound [of c] by simp
  then show "checked_mul a b = Some c"
    using c by (simp add: checked_mul_def word_unat_eq_iff unat_word_ariths)
qed

lemma checked_sub_iff: "checked_sub a b = Some c \<longleftrightarrow> unat a = unat c + unat b"
proof
  assume "checked_sub a b = Some c"
  then show "unat a = unat c + unat b" by (auto simp: checked_sub_def unat_sub word_le_nat_alt split: if_splits)
next
  assume a: "unat a = unat c + unat b"
  then have "b \<le> a" by (simp add: word_le_nat_alt)
  then show "checked_sub a b = Some c" using a by (simp add: checked_sub_def word_unat_eq_iff unat_sub)
qed

lemma checked_div_iff: "checked_div a b = Some c \<longleftrightarrow> b \<noteq> 0 \<and> unat c = unat a div unat b"
  by (auto simp: checked_div_def word_unat_eq_iff unat_div)

lemma unat_1000: "unat (1000 :: u64) = 1000" and unat_999: "unat (999 :: u64) = 999"
  by simp_all

lemma unat_0_iff: "unat (a :: u64) = 0 \<longleftrightarrow> a = 0"
  by (simp add: unat_eq_0)

lemma checked_mul_by_weight_iff:
  "checked_mul_by_weight r w = Some f \<longleftrightarrow>
     unat r * unat w + 999 < 2 ^ 64 \<and> unat f = (unat r * unat w + 999) div 1000"
proof -
  have "checked_mul_by_weight r w = Some f \<longleftrightarrow>
      (\<exists>(p :: u64) s. unat p = unat r * unat w \<and> unat s = unat p + 999 \<and> f = s div 1000)"
    by (simp add: checked_mul_by_weight_def bind_eq_Some_conv checked_mul_iff checked_add_iff) metis
  also have "\<dots> \<longleftrightarrow> unat r * unat w + 999 < 2 ^ 64 \<and> unat f = (unat r * unat w + 999) div 1000"
  proof
    assume "\<exists>(p :: u64) s. unat p = unat r * unat w \<and> unat s = unat p + 999 \<and> f = s div 1000"
    then obtain p :: u64 and s where ps: "unat p = unat r * unat w" "unat s = unat p + 999" "f = s div 1000" by blast
    have "unat s < 2 ^ 64" by (rule u64_bound)
    with ps show "unat r * unat w + 999 < 2 ^ 64 \<and> unat f = (unat r * unat w + 999) div 1000"
      by (simp add: unat_div)
  next
    assume h: "unat r * unat w + 999 < 2 ^ 64 \<and> unat f = (unat r * unat w + 999) div 1000"
    have p: "unat (of_nat (unat r * unat w) :: u64) = unat r * unat w"
      and s: "unat (of_nat (unat r * unat w + 999) :: u64) = unat r * unat w + 999"
      using h by (simp_all add: unat_of_nat del: of_nat_mult of_nat_add)
    have "f = of_nat (unat r * unat w + 999) div 1000"
      using h s by (simp add: word_unat_eq_iff unat_div del: of_nat_mult of_nat_add)
    with p s show "\<exists>(p :: u64) s. unat p = unat r * unat w \<and> unat s = unat p + 999 \<and> f = s div 1000"
      by (intro exI [of _ "of_nat (unat r * unat w)"] exI [of _ "of_nat (unat r * unat w + 999)"]) simp
  qed
  finally show ?thesis .
qed

lemma unat_of_nat_u64_eq: "n < 2 ^ 64 \<Longrightarrow> unat (of_nat n :: u64) = n"
  by (simp add: unat_of_nat)

lemma fee_ceiling:
  assumes "checked_mul_by_weight r w = Some f"
  shows "unat f * 1000 < unat r * unat w + 1000" and "unat r * unat w \<le> unat f * 1000"
proof -
  have f: "unat f = (unat r * unat w + 999) div 1000" using assms by (simp add: checked_mul_by_weight_iff)
  have "unat f * 1000 \<le> unat r * unat w + 999" unfolding f by (rule div_times_less_eq_dividend)
  then show "unat f * 1000 < unat r * unat w + 1000" by linarith
  have "unat r * unat w + 999 < (unat f + 1) * 1000"
    unfolding f using dividend_less_times_div [of 1000 "unat r * unat w + 999"] by simp
  then show "unat r * unat w \<le> unat f * 1000" by simp
qed

lemma div_by_weight_floor_iff:
  "div_by_weight_floor a w = Some r \<longleftrightarrow> unat a * 1000 < 2 ^ 64 \<and> w \<noteq> 0 \<and> unat r = unat a * 1000 div unat w"
proof -
  have "(\<exists>s :: u64. unat s = n) \<longleftrightarrow> n < 2 ^ 64" for n
    using u64_bound by (metis unat_of_nat_u64_eq)
  moreover have "div_by_weight_floor a w = Some r \<longleftrightarrow>
      (\<exists>s :: u64. unat s = unat a * 1000) \<and> w \<noteq> 0 \<and> unat r = unat a * 1000 div unat w"
    by (auto simp: div_by_weight_floor_def bind_eq_Some_conv checked_mul_iff checked_div_iff)
  ultimately show ?thesis by simp
qed

lemma div_by_weight_ceil_Some:
  "div_by_weight_ceil a w = Some r \<Longrightarrow> 0 < unat w \<and> unat r = (unat a * 1000 + (unat w - 1)) div unat w"
  by (auto simp: div_by_weight_ceil_def bind_eq_Some_conv checked_mul_iff checked_add_iff checked_sub_iff
      checked_div_iff)

lemma amount_fold_None: "foldl (\<lambda>acc item. Option.bind acc (\<lambda>a. checked_add a item)) None xs = None"
  by (induction xs) simp_all

lemma amount_fold_sum:
  "foldl (\<lambda>acc item. Option.bind acc (\<lambda>a. checked_add a item)) (Some x) xs =
     (if unat x + sum_list (map unat xs) < 2 ^ 64 then Some (of_nat (unat x + sum_list (map unat xs))) else None)"
proof (induction xs arbitrary: x)
  case Nil
  then show ?case using u64_bound [of x] by simp
next
  case (Cons y xs)
  show ?case
  proof (cases "unat x + unat y < 2 ^ 64")
    case True
    then have "unat (x + y) = unat x + unat y" by (simp add: unat_word_ariths)
    with True Cons.IH [of "x + y"] show ?thesis by (simp add: checked_add_def add.assoc)
  next
    case False
    then have "checked_add x y = None" by (simp add: checked_add_def)
    with False show ?thesis by (simp add: amount_fold_None)
  qed
qed

lemma to_signed_iff: "to_signed a = Inr n \<longleftrightarrow> n = uint a \<and> n < 2 ^ 63"
proof -
  have lt: "a \<le> 0x7FFFFFFFFFFFFFFF \<longleftrightarrow> uint a < 2 ^ 63" by (simp add: word_le_def) linarith
  have "sint a = uint a" if "uint a < 2 ^ 63"
    using that order_trans [OF _ uint_nonnegative, of "- (2 ^ 63)" a] signed_take_bit_int_eq_self [of 63 "uint a"]
    by (simp add: sint_uint)
  then show ?thesis using lt by (auto simp: to_signed_def not_less [symmetric])
qed

section \<open>Properties\<close>

text \<open>
  The fee for a weight is rounded up: it is the least amount that pays the rate, and \<^term>\<open>None\<close> is returned only
  on overflow. The two ways to get a rate from an amount bracket it: the fee at the rate rounded down never
  exceeds the amount, the fee at the rate rounded up never falls short, and the two rates differ by one at most.
\<close>
theorem fee_rates_bracket:
  assumes "div_by_weight_floor a w = Some lo" and "div_by_weight_ceil a w = Some hi"
    and "fee_wu lo w = Some f" and "fee_wu hi w = Some g"
  shows "f \<le> a \<and> a \<le> g \<and> lo \<le> hi \<and> unat hi \<le> unat lo + 1
    \<and> (\<forall>x :: nat. x < unat f \<longleftrightarrow> x * 1000 < unat lo * unat w)"
proof -
  have w: "0 < unat w" and lo: "unat lo = unat a * 1000 div unat w"
    and hi: "unat hi = (unat a * 1000 + (unat w - 1)) div unat w"
    using assms(1,2) div_by_weight_ceil_Some by (auto simp: div_by_weight_floor_iff unat_gt_0)
  note F = fee_ceiling [OF assms(3) [unfolded fee_wu_def]] and G = fee_ceiling [OF assms(4) [unfolded fee_wu_def]]
  have l: "unat lo * unat w \<le> unat a * 1000" unfolding lo by (rule div_times_less_eq_dividend)
  have "unat a * 1000 + (unat w - 1) < (unat hi + 1) * unat w"
    unfolding hi using dividend_less_times_div [OF w, of "unat a * 1000 + (unat w - 1)"] by (simp add: mult.commute)
  then have h: "unat a * 1000 \<le> unat hi * unat w" using w by simp
  have "unat hi \<le> (unat a * 1000 + unat w) div unat w" unfolding hi by (rule div_le_mono) simp
  then have "unat hi \<le> unat lo + 1" using w unfolding lo by (simp add: div_add_self2)
  moreover have "unat lo \<le> unat hi" unfolding lo hi by (rule div_le_mono) simp
  moreover have "\<forall>x. x < unat f \<longleftrightarrow> x * 1000 < unat lo * unat w" using F by auto
  ultimately show ?thesis using F G l h by (simp add: word_le_nat_alt)
qed

theorem fee_rates_bracket_witness:
  "div_by_weight_floor 1000 333 = Some 3003 \<and> div_by_weight_ceil 1000 333 = Some 3004
   \<and> fee_wu 3003 333 = Some 1000 \<and> fee_wu 3004 333 = Some 1001 \<and> (1000 :: u64) \<le> 1000 \<and> (1000 :: u64) \<le> 1001"
proof -
  have h: "div_by_weight_floor 1000 333 = Some 3003" "div_by_weight_ceil 1000 333 = Some 3004"
    "fee_wu 3003 333 = Some 1000" "fee_wu 3004 333 = Some 1001"
    by (simp_all add: div_by_weight_floor_iff div_by_weight_ceil_def fee_wu_def checked_mul_by_weight_def
        checked_mul_def checked_add_def checked_sub_def checked_div_def)
  from fee_rates_bracket [OF h] h show ?thesis by blast
qed

text \<open>
  Sums of amounts are exact or refused, whatever the order, and the conversions between the signed and the
  unsigned type are partial inverses of each other that keep the number.
\<close>
theorem amounts_exact_arithmetic:
  "amount_checked_sum xs =
     (if sum_list (map unat xs) < 2 ^ 64 then Some (of_nat (sum_list (map unat xs))) else None)
   \<and> (to_signed a = Inr n \<longleftrightarrow> n = uint a \<and> in_i64 n)
   \<and> (in_i64 n \<and> to_unsigned n = Inr a \<longleftrightarrow> to_signed a = Inr n)"
proof (intro conjI)
  show "amount_checked_sum xs =
     (if sum_list (map unat xs) < 2 ^ 64 then Some (of_nat (sum_list (map unat xs))) else None)"
  proof (cases xs)
    case (Cons x ys)
    then show ?thesis unfolding amount_checked_sum_def by (simp add: amount_fold_sum)
  qed (simp add: amount_checked_sum_def)
  show "to_signed a = Inr n \<longleftrightarrow> n = uint a \<and> in_i64 n"
    using uint_nonnegative [of a] order_trans [of "- (2 ^ 63)" 0 "uint a"] by (auto simp: to_signed_iff in_i64_def)
  have "of_int n = a \<longleftrightarrow> n = uint a" if "0 \<le> n" "n < 2 ^ 63"
    using that by (auto simp: uint_word_of_int)
  then show "in_i64 n \<and> to_unsigned n = Inr a \<longleftrightarrow> to_signed a = Inr n"
    using uint_nonnegative [of a] by (cases "n < 0") (auto simp: to_unsigned_def to_signed_iff in_i64_def)
qed

end
