(* ===== verification/Numerals.thy ===== *)
theory Numerals
  imports Prelude
begin

text \<open>
  Decimal numerals of the standard library: digits, the value of a string of digits, the digits of a number and
  the digits padded with zeros. Strings are lists of one-byte characters.
\<close>

definition is_digit :: "char \<Rightarrow> bool" where
  "is_digit c \<longleftrightarrow> 48 \<le> (of_char c :: nat) \<and> (of_char c :: nat) \<le> 57"

definition digit_of :: "char \<Rightarrow> nat" where
  "digit_of c = of_char c - 48"

definition digits_value :: "string \<Rightarrow> nat" where
  "digits_value s = foldl (\<lambda>n c. n * 10 + digit_of c) 0 s"

definition digit_char :: "nat \<Rightarrow> char" where
  "digit_char n = char_of (48 + n)"

function dec_string :: "nat \<Rightarrow> string" where
  "dec_string n = (if n < 10 then [] else dec_string (n div 10)) @ [digit_char (n mod 10)]"
  by pat_completeness auto
termination
  by (relation "measure id") auto

declare dec_string.simps [simp del]

text \<open>\<open>{:0width$}\<close>.\<close>

definition zero_padded :: "nat \<Rightarrow> nat \<Rightarrow> string" where
  "zero_padded n width = replicate (width - length (dec_string n)) CHR ''0'' @ dec_string n"

lemma digit_char_facts:
  assumes "n < 10"
  shows "is_digit (digit_char n)" "digit_of (digit_char n) = n" "digit_char n = CHR ''0'' \<longleftrightarrow> n = 0"
proof -
  have "list_all (\<lambda>n. is_digit (digit_char n) \<and> digit_of (digit_char n) = n \<and> (digit_char n = CHR ''0'' \<longleftrightarrow> n = 0)) [0..<10]"
    by code_simp
  with assms show "is_digit (digit_char n)" "digit_of (digit_char n) = n" "digit_char n = CHR ''0'' \<longleftrightarrow> n = 0"
    unfolding list_all_iff by (metis atLeastLessThan_iff set_upt zero_le)+
qed

lemma not_digit: "\<not> is_digit CHR ''.''" "\<not> is_digit CHR ''-''" "\<not> is_digit CHR '' ''" "is_digit CHR ''0''"
  by (simp_all add: is_digit_def)

lemma digit_of_less: "is_digit c \<Longrightarrow> digit_of c < 10"
  by (auto simp: is_digit_def digit_of_def)

lemma digits_value_acc: "foldl (\<lambda>n c. n * 10 + digit_of c) a s = a * 10 ^ length s + digits_value s"
proof (induction s arbitrary: a)
  case (Cons c s)
  show ?case
    using Cons [of "a * 10 + digit_of c"] Cons [of "digit_of c"] by (simp add: digits_value_def algebra_simps)
qed (simp add: digits_value_def)

lemma digits_value_simps [simp]:
  "digits_value [] = 0" "digits_value (c # s) = digit_of c * 10 ^ length s + digits_value s"
  "digits_value (s @ t) = digits_value s * 10 ^ length t + digits_value t"
  "digits_value (replicate k CHR ''0'') = 0"
proof -
  show c: "digits_value (c # s) = digit_of c * 10 ^ length s + digits_value s" for c s
    using digits_value_acc [of "digit_of c" s] by (simp add: digits_value_def)
  show "digits_value [] = 0" by (simp add: digits_value_def)
  show "digits_value (s @ t) = digits_value s * 10 ^ length t + digits_value t"
    using digits_value_acc [of "digits_value s" t] by (simp add: digits_value_def)
  show "digits_value (replicate k CHR ''0'') = 0"
    by (induction k) (simp_all add: c digits_value_def [of "[]"] digit_of_def)
qed

lemma dec_string_facts: "list_all is_digit (dec_string n) \<and> digits_value (dec_string n) = n \<and> dec_string n \<noteq> []"
proof (induction n rule: dec_string.induct)
  case (1 n)
  then show ?case
    using digit_char_facts [of "n mod 10"] by (subst (1 2 3) dec_string.simps) (auto simp: list_all_iff)
qed

lemma length_dec_string: "n < 10 ^ k \<Longrightarrow> 0 < k \<Longrightarrow> length (dec_string n) \<le> k"
proof (induction k arbitrary: n)
  case (Suc k)
  show ?case
  proof (cases "n < 10")
    case True
    then show ?thesis by (subst dec_string.simps) simp
  next
    case False
    then have "0 < k" using Suc.prems(1) by (cases k) simp_all
    moreover have "n div 10 < 10 ^ k" using Suc.prems(1) by (simp add: less_mult_imp_div_less mult.commute)
    ultimately show ?thesis using Suc.IH False by (subst dec_string.simps) simp
  qed
qed simp

lemma zero_padded_facts:
  assumes "n < 10 ^ k" and "0 < k"
  shows "length (zero_padded n k) = k" "list_all is_digit (zero_padded n k)" "digits_value (zero_padded n k) = n"
  using length_dec_string [OF assms] dec_string_facts [of n]
  by (auto simp: zero_padded_def list_all_iff not_digit)

lemma dec_string_0: "dec_string 0 = ''0''"
  by (subst dec_string.simps) (simp add: digit_char_facts(3))

lemma length_dec_string_u64: "n < 2 ^ 64 \<Longrightarrow> length (dec_string n) \<le> 20"
  by (rule length_dec_string) simp_all

end
