(* ===== verification/Amount_Text.thy ===== *)
theory Amount_Text
  imports Units Numerals
begin

text \<open>
  The text format of amounts (\<open>src/units/src/amount.rs\<close>): denominations, parsing of a decimal number in a
  denomination, and printing with the options of a formatter. A string is a list of characters of one byte, so
  that positions count characters and bytes alike: text outside ASCII, which the parser refuses, is not modelled.
\<close>

section \<open>Denominations\<close>

datatype Denomination =
  Bitcoin | CentiBitcoin | MilliBitcoin | MicroBitcoin | NanoBitcoin | PicoBitcoin | Bit | Satoshi | MilliSatoshi

fun precision :: "Denomination \<Rightarrow> int" where
  "precision Bitcoin = -8"
| "precision CentiBitcoin = -6"
| "precision MilliBitcoin = -5"
| "precision MicroBitcoin = -2"
| "precision NanoBitcoin = 1"
| "precision PicoBitcoin = 4"
| "precision Bit = -2"
| "precision Satoshi = 0"
| "precision MilliSatoshi = 3"

fun as_str :: "Denomination \<Rightarrow> string" where
  "as_str Bitcoin = ''BTC''"
| "as_str CentiBitcoin = ''cBTC''"
| "as_str MilliBitcoin = ''mBTC''"
| "as_str MicroBitcoin = ''uBTC''"
| "as_str NanoBitcoin = ''nBTC''"
| "as_str PicoBitcoin = ''pBTC''"
| "as_str Bit = ''bits''"
| "as_str Satoshi = ''satoshi''"
| "as_str MilliSatoshi = ''msat''"

definition denomination_forms :: "string \<Rightarrow> Denomination option" where
  "denomination_forms s =
     (if s \<in> set [''BTC'', ''btc''] then Some Bitcoin
      else if s \<in> set [''cBTC'', ''cbtc''] then Some CentiBitcoin
      else if s \<in> set [''mBTC'', ''mbtc''] then Some MilliBitcoin
      else if s \<in> set [''uBTC'', ''ubtc''] then Some MicroBitcoin
      else if s \<in> set [''nBTC'', ''nbtc''] then Some NanoBitcoin
      else if s \<in> set [''pBTC'', ''pbtc''] then Some PicoBitcoin
      else if s \<in> set [''bit'', ''bits'', ''BIT'', ''BITS''] then Some Bit
      else if s \<in> set [''SATOSHI'', ''satoshi'', ''SATOSHIS'', ''satoshis'', ''SAT'', ''sat'', ''SATS'', ''sats'']
        then Some Satoshi
      else if s \<in> set [''mSAT'', ''msat'', ''mSATs'', ''msats''] then Some MilliSatoshi
      else None)"

definition CONFUSING_FORMS :: "string list" where
  "CONFUSING_FORMS =
     [''Msat'', ''Msats'', ''MSAT'', ''MSATS'', ''MSat'', ''MSats'', ''MBTC'', ''Mbtc'', ''PBTC'']"

datatype denomination_error = UnknownDenomination string | PossiblyConfusing string

definition denomination_from_str :: "string \<Rightarrow> denomination_error + Denomination" where
  "denomination_from_str s =
     (if s \<in> set CONFUSING_FORMS then Inl (PossiblyConfusing s)
      else case denomination_forms s of Some d \<Rightarrow> Inr d | None \<Rightarrow> Inl (UnknownDenomination s))"

section \<open>Parsing\<close>

datatype missing_digits = Empty | OnlyMinusSign

datatype inner_error =
    Overflow bool
  | InnerTooPrecise nat
  | InnerMissingDigits missing_digits
  | InnerInputTooLarge nat
  | InnerInvalidCharacter char nat

datatype amount_error =
    OutOfRange out_of_range
  | TooPrecise nat
  | MissingDigits missing_digits
  | InputTooLarge nat
  | InvalidCharacter char nat

fun convert_error :: "bool \<Rightarrow> inner_error \<Rightarrow> amount_error" where
  "convert_error is_signed (Overflow is_negative) = OutOfRange (OutOfRangeError is_signed (\<not> is_negative))"
| "convert_error is_signed (InnerTooPrecise p) = TooPrecise p"
| "convert_error is_signed (InnerMissingDigits k) = MissingDigits k"
| "convert_error is_signed (InnerInputTooLarge n) = InputTooLarge n"
| "convert_error is_signed (InnerInvalidCharacter c p) = InvalidCharacter c p"

fun position :: "(char \<Rightarrow> bool) \<Rightarrow> string \<Rightarrow> nat option" where
  "position p [] = None"
| "position p (c # s) = (if p c then Some 0 else map_option Suc (position p s))"

abbreviation find_char :: "char \<Rightarrow> string \<Rightarrow> nat option" where
  "find_char c \<equiv> position (\<lambda>d. d = c)"

text \<open>The first character that is not a zero among the last \<open>n\<close>, from the right.\<close>

definition last_nonzero :: "nat \<Rightarrow> string \<Rightarrow> nat option" where
  "last_nonzero n s = map_option (\<lambda>k. length s - 1 - k) (position (\<lambda>d. d \<noteq> CHR ''0'') (take n (rev s)))"

definition or_else :: "'a option \<Rightarrow> 'a option \<Rightarrow> 'a option" where
  "or_else a b = (case a of None \<Rightarrow> b | Some x \<Rightarrow> Some x)"

definition is_too_precise :: "string \<Rightarrow> nat \<Rightarrow> nat option" where
  "is_too_precise s n =
     (case find_char CHR ''.'' s of
        Some pos \<Rightarrow>
          if pos \<le> n then Some 0
          else or_else (last_nonzero n (take pos s))
            (map_option (\<lambda>i. i + pos + 1) (position (\<lambda>d. d \<noteq> CHR ''0'') (drop (pos + 1) s)))
      | None \<Rightarrow> if length s \<le> n then Some 0 else last_nonzero n s)"

text \<open>\<open>str::parse\<close> at \<open>i64\<close>: an optional sign and at least one digit, in range.\<close>

definition parse_i64 :: "string \<Rightarrow> int option" where
  "parse_i64 s =
     (case s of [] \<Rightarrow> None
      | c # cs \<Rightarrow>
         let ds = (if c = CHR ''-'' \<or> c = CHR ''+'' then cs else s) in
         if ds = [] \<or> \<not> list_all is_digit ds then None
         else checked_i64 (if c = CHR ''-'' then - int (digits_value ds) else int (digits_value ds)))"

definition INPUT_STRING_LEN_LIMIT :: nat where "INPUT_STRING_LEN_LIMIT = 50"

text \<open>The loop over the characters, and the scaling that follows it.\<close>

fun digits_loop :: "bool \<Rightarrow> nat \<Rightarrow> nat \<Rightarrow> nat option \<Rightarrow> u64 \<Rightarrow> string \<Rightarrow> inner_error + (nat option \<times> u64)" where
  "digits_loop is_negative max_decimals i decimals value [] = Inr (decimals, value)"
| "digits_loop is_negative max_decimals i decimals value (c # s) =
     (let pos = i + (if is_negative then 1 else 0) in
      if is_digit c
      then (case Option.bind (checked_mul 10 value) (\<lambda>v. checked_add v (of_nat (digit_of c))) of
              None \<Rightarrow> Inl (Overflow is_negative)
            | Some v \<Rightarrow>
               (case decimals of
                  None \<Rightarrow> digits_loop is_negative max_decimals (i + 1) None v s
                | Some d \<Rightarrow> if d < max_decimals
                    then digits_loop is_negative max_decimals (i + 1) (Some (d + 1)) v s
                    else Inl (InnerTooPrecise pos)))
      else if c = CHR ''.''
      then (case decimals of
              None \<Rightarrow> if max_decimals = 0 then Inr (decimals, value)
                else digits_loop is_negative max_decimals (i + 1) (Some 0) value s
            | Some _ \<Rightarrow> Inl (InnerInvalidCharacter CHR ''.'' pos))
      else Inl (InnerInvalidCharacter c pos))"

fun scale_up :: "bool \<Rightarrow> nat \<Rightarrow> u64 \<Rightarrow> inner_error + u64" where
  "scale_up is_negative 0 value = Inr value"
| "scale_up is_negative (Suc n) value =
     (case checked_mul 10 value of Some v \<Rightarrow> scale_up is_negative n v | None \<Rightarrow> Inl (Overflow is_negative))"

definition parse_decimal :: "bool \<Rightarrow> nat \<Rightarrow> string \<Rightarrow> inner_error + (bool \<times> u64)" where
  "parse_decimal is_negative max_decimals s =
     and_then (digits_loop is_negative max_decimals 0 None 0 s) (\<lambda>(decimals, value).
       and_then (scale_up is_negative (max_decimals - (case decimals of None \<Rightarrow> 0 | Some d \<Rightarrow> d)) value) (\<lambda>v.
         Inr (is_negative, v)))"

text \<open>The number after the sign: shortened by the denomination's precision, or with as many decimals as it has.\<close>

definition parse_unsigned :: "bool \<Rightarrow> string \<Rightarrow> Denomination \<Rightarrow> inner_error + (bool \<times> u64)" where
  "parse_unsigned is_negative s denom =
     (let precision_diff = - precision denom in
      if precision_diff \<le> 0
      then let last_n = nat (- precision_diff) in
        (case is_too_precise s last_n of
           Some pos \<Rightarrow>
             if parse_i64 s = Some 0 then Inr (is_negative, 0)
             else Inl (InnerTooPrecise (pos + (if is_negative then 1 else 0)))
         | None \<Rightarrow>
             parse_decimal is_negative 0
               (take ((case find_char CHR ''.'' s of None \<Rightarrow> length s | Some p \<Rightarrow> p) - last_n) s))
      else parse_decimal is_negative (nat precision_diff) s)"

definition parse_signed_to_satoshi :: "string \<Rightarrow> Denomination \<Rightarrow> inner_error + (bool \<times> u64)" where
  "parse_signed_to_satoshi s denom =
     (if s = [] then Inl (InnerMissingDigits Empty)
      else if INPUT_STRING_LEN_LIMIT < length s then Inl (InnerInputTooLarge (length s))
      else let is_negative = (hd s = CHR ''-'') in
        if is_negative \<and> length s = 1 then Inl (InnerMissingDigits OnlyMinusSign)
        else parse_unsigned is_negative (if is_negative then tl s else s) denom)"

definition amount_from_str_in :: "string \<Rightarrow> Denomination \<Rightarrow> amount_error + u64" where
  "amount_from_str_in s denom =
     (case parse_signed_to_satoshi s denom of
        Inl e \<Rightarrow> Inl (convert_error False e)
      | Inr (is_negative, satoshi) \<Rightarrow> if is_negative then Inl (OutOfRange negative) else Inr satoshi)"

definition signed_from_str_in :: "string \<Rightarrow> Denomination \<Rightarrow> amount_error + int" where
  "signed_from_str_in s denom =
     (case parse_signed_to_satoshi s denom of
        Inl e \<Rightarrow> Inl (convert_error True e)
      | Inr (is_negative, sat) \<Rightarrow>
          if \<not> is_negative
          then (if 0x7FFFFFFFFFFFFFFF < sat then Inl (OutOfRange (too_big True)) else Inr (sint sat))
          else if sat = 0x8000000000000000 then Inr (- (2 ^ 63))
          else if 0x8000000000000000 < sat then Inl (OutOfRange too_small)
          else Inr (- sint sat))"

datatype parse_error =
  ParseAmount amount_error | ParseDenomination denomination_error | MissingDenomination

definition is_alphabetic :: "char \<Rightarrow> bool" where
  "is_alphabetic c \<longleftrightarrow> (let n = of_char c :: nat in 65 \<le> n \<and> n \<le> 90 \<or> 97 \<le> n \<and> n \<le> 122)"

definition split_amount_and_denomination :: "string \<Rightarrow> parse_error + (string \<times> Denomination)" where
  "split_amount_and_denomination s =
     and_then (case find_char CHR '' '' s of
         Some i \<Rightarrow> Inr (i, i + 1)
       | None \<Rightarrow> (case position is_alphabetic s of Some i \<Rightarrow> Inr (i, i) | None \<Rightarrow> Inl MissingDenomination))
       (\<lambda>(i, j). case denomination_from_str (drop j s) of
          Inl e \<Rightarrow> Inl (ParseDenomination e) | Inr d \<Rightarrow> Inr (take i s, d))"

definition amount_from_str :: "string \<Rightarrow> parse_error + u64" where
  "amount_from_str s =
     and_then (split_amount_and_denomination s) (\<lambda>(amt, denom). map_err ParseAmount (amount_from_str_in amt denom))"

definition signed_from_str :: "string \<Rightarrow> parse_error + int" where
  "signed_from_str s =
     and_then (split_amount_and_denomination s) (\<lambda>(amt, denom). map_err ParseAmount (signed_from_str_in amt denom))"

section \<open>Printing\<close>

datatype alignment = AlignLeft | AlignRight | AlignCenter

record format_options =
  opt_fill :: char
  opt_align :: "alignment option"
  opt_width :: "nat option"
  opt_precision :: "nat option"
  opt_sign_plus :: bool
  opt_zero_pad :: bool

definition default_options :: format_options where
  "default_options = \<lparr> opt_fill = CHR '' '', opt_align = None, opt_width = None, opt_precision = None,
     opt_sign_plus = False, opt_zero_pad = False \<rparr>"

function dec_width :: "nat \<Rightarrow> nat" where
  "dec_width num = (let num = num div 10 in if num = 0 then 1 else dec_width num + 1)"
  by pat_completeness auto
termination
  by (relation "measure id") (auto simp: div_less_dividend dvd_imp_le)

declare dec_width.simps [simp del]

text \<open>The loop that strips the trailing zeros of the decimals.\<close>

function strip_zeros :: "nat \<Rightarrow> nat \<Rightarrow> nat \<times> nat" where
  "strip_zeros nb_decimals num =
     (if num \<noteq> 0 \<and> num mod 10 = 0 then strip_zeros (nb_decimals - 1) (num div 10) else (nb_decimals, num))"
  by pat_completeness auto
termination
  by (relation "measure snd") auto

declare strip_zeros.simps [simp del]

definition unwrap_or :: "'a \<Rightarrow> 'a option \<Rightarrow> 'a" where
  "unwrap_or d x = (case x of None \<Rightarrow> d | Some y \<Rightarrow> y)"

text \<open>The number left of the point, the one right of it, its digits, further zeros, and zeros before the point.\<close>

definition normalize :: "nat \<Rightarrow> int \<Rightarrow> nat option \<Rightarrow> nat \<times> nat \<times> nat \<times> nat \<times> nat" where
  "normalize satoshi p opt_prec =
     (if 0 < p then (satoshi, 0, 0, unwrap_or 0 opt_prec, if 0 < satoshi then nat p else 0)
      else if p < 0
      then let precision = nat (- p);
               divisor = 10 ^ precision;
               frac = satoshi mod divisor;
               (nb_decimals, frac) = (if frac = 0 then (0, 0) else strip_zeros precision frac) in
           (satoshi div divisor, frac, nb_decimals, unwrap_or 0 opt_prec - nb_decimals, 0)
      else (satoshi, 0, 0, unwrap_or 0 opt_prec, 0))"

definition padding :: "nat \<Rightarrow> format_options \<Rightarrow> nat \<times> nat" where
  "padding num_width options =
     (let width = unwrap_or 0 (opt_width options);
          align = unwrap_or AlignRight (opt_align options) in
      if \<not> num_width < width then (0, 0)
      else if opt_zero_pad options \<or> align = AlignRight then (width - num_width, 0)
      else if align = AlignLeft then (0, width - num_width)
      else ((width - num_width) div 2, (width - num_width + 1) div 2))"

definition fmt_satoshi_in :: "nat \<Rightarrow> bool \<Rightarrow> Denomination \<Rightarrow> bool \<Rightarrow> format_options \<Rightarrow> string" where
  "fmt_satoshi_in satoshi is_neg denom show_denom options =
     (let (whole, frac, nb_decimals, trailing_zeros, expo) =
            normalize satoshi (precision denom) (opt_precision options);
          total_decimals = nb_decimals + trailing_zeros;
          num_width = (if 0 < total_decimals then 1 + total_decimals else 0) + (dec_width whole + expo);
          num_width = (if opt_sign_plus options \<or> is_neg then num_width + 1 else num_width);
          num_width = (if show_denom then num_width + (length (as_str denom) + 1) else num_width);
          (left_pad, pad_right) = padding num_width options in
      (if opt_zero_pad options then [] else replicate left_pad (opt_fill options))
      @ (if is_neg then ''-'' else if opt_sign_plus options then ''+'' else [])
      @ (if opt_zero_pad options then replicate left_pad CHR ''0'' else [])
      @ dec_string whole @ replicate expo CHR ''0''
      @ (if 0 < total_decimals then ''.'' else [])
      @ (if 0 < nb_decimals then zero_padded frac nb_decimals else [])
      @ replicate trailing_zeros CHR ''0''
      @ (if show_denom then CHR '' '' # as_str denom else [])
      @ replicate pad_right (opt_fill options))"

definition amount_to_string_in :: "u64 \<Rightarrow> Denomination \<Rightarrow> string" where
  "amount_to_string_in a denom = fmt_satoshi_in (unat a) False denom False default_options"

definition amount_to_string_with_denomination :: "u64 \<Rightarrow> Denomination \<Rightarrow> string" where
  "amount_to_string_with_denomination a denom = amount_to_string_in a denom @ CHR '' '' # as_str denom"

definition signed_to_string_in :: "int \<Rightarrow> Denomination \<Rightarrow> string" where
  "signed_to_string_in n denom = fmt_satoshi_in (unat (unsigned_abs n)) (n < 0) denom False default_options"

definition signed_to_string_with_denomination :: "int \<Rightarrow> Denomination \<Rightarrow> string" where
  "signed_to_string_with_denomination n denom = signed_to_string_in n denom @ CHR '' '' # as_str denom"

definition amount_display :: "u64 \<Rightarrow> format_options \<Rightarrow> string" where
  "amount_display a options =
     fmt_satoshi_in (unat a) False Bitcoin True
       (if opt_precision options = None \<and> a mod ONE_BTC \<noteq> 0 then options \<lparr> opt_precision := Some 8 \<rparr> else options)"

definition signed_display :: "int \<Rightarrow> string" where
  "signed_display n = signed_to_string_in n Bitcoin @ CHR '' '' # as_str Bitcoin"

datatype display_style = FixedDenomination Denomination bool | DynamicDenomination

fun show_denomination :: "display_style \<Rightarrow> display_style" where
  "show_denomination (FixedDenomination d _) = FixedDenomination d True"
| "show_denomination DynamicDenomination = DynamicDenomination"

fun display_fmt :: "nat \<Rightarrow> bool \<Rightarrow> display_style \<Rightarrow> format_options \<Rightarrow> string" where
  "display_fmt sats_abs is_neg (FixedDenomination d shown) options = fmt_satoshi_in sats_abs is_neg d shown options"
| "display_fmt sats_abs is_neg DynamicDenomination options =
     (if unat ONE_BTC \<le> sats_abs then fmt_satoshi_in sats_abs is_neg Bitcoin True options
      else fmt_satoshi_in sats_abs is_neg Satoshi True options)"

section \<open>The reference reading of a numeral\<close>

text \<open>The reference reading of a decimal numeral with at most \<open>k\<close> decimals, in units of \<open>10\<close> to the minus \<open>k\<close>.\<close>

definition decimal_reading :: "nat \<Rightarrow> string \<Rightarrow> nat option" where
  "decimal_reading k s =
     (case dropWhile is_digit s of
        [] \<Rightarrow> Some (digits_value s * 10 ^ k)
      | c # fs \<Rightarrow>
          if c = CHR ''.'' \<and> list_all is_digit fs \<and> length fs \<le> k
          then Some (digits_value (takeWhile is_digit s @ fs) * 10 ^ (k - length fs)) else None)"

abbreviation printed :: "nat \<Rightarrow> Denomination \<Rightarrow> string" where
  "printed n d \<equiv> fmt_satoshi_in n False d False default_options"

section \<open>The parser\<close>

lemma step_eq:
  assumes "is_digit c"
  shows "Option.bind (checked_mul 10 v) (\<lambda>x. checked_add x (of_nat (digit_of c))) =
     (if unat v * 10 + digit_of c < 2 ^ 64 then Some (of_nat (unat v * 10 + digit_of c) :: u64) else None)"
proof -
  have d: "unat (of_nat (digit_of c) :: u64) = digit_of c"
    using digit_of_less [OF assms] by (intro unat_of_nat_u64_eq) simp
  have t: "unat (10 :: u64) = 10" by simp
  show ?thesis
  proof (cases "checked_mul 10 v")
    case None
    then have "2 ^ 64 \<le> 10 * unat v" unfolding checked_mul_def t by (simp split: if_splits)
    with None show ?thesis by simp
  next
    case (Some x)
    then have x: "unat x = 10 * unat v" using checked_mul_iff [of 10 v x] unfolding t by blast
    then have "x = of_nat (unat v * 10)" by (metis mult.commute of_nat_unat ucast_id)
    with x show ?thesis unfolding Some by (simp add: checked_add_def d mult.commute)
  qed
qed


lemma loop_digits:
  "list_all is_digit ds \<Longrightarrow> case_option True (\<lambda>d. d + length ds \<le> m) decs \<Longrightarrow>
   digits_loop neg m i decs v (ds @ t) =
     (if unat v * 10 ^ length ds + digits_value ds < 2 ^ 64
      then digits_loop neg m (i + length ds) (map_option (\<lambda>d. d + length ds) decs)
        (of_nat (unat v * 10 ^ length ds + digits_value ds)) t
      else Inl (Overflow neg))"
proof (induction ds arbitrary: i v decs)
  case Nil
  then show ?case by (simp add: option.map_ident)
next
  case (Cons c ds)
  define w where "w = unat v * 10 + digit_of c"
  have c: "is_digit c" using Cons.prems by simp
  have e: "unat v * 10 ^ length (c # ds) + digits_value (c # ds) = w * 10 ^ length ds + digits_value ds"
    by (simp add: w_def algebra_simps)
  have step: "digits_loop neg m i decs v (c # ds @ t) =
      (if w < 2 ^ 64 then digits_loop neg m (i + 1) (map_option (\<lambda>d. d + 1) decs) (of_nat w) (ds @ t)
       else Inl (Overflow neg))"
    using Cons.prems(2) by (simp add: step_eq [OF c] Let_def c split: option.splits flip: w_def)
  show ?case
  proof (cases "w < 2 ^ 64")
    case True
    then have u: "unat (of_nat w :: u64) = w" by (rule unat_of_nat_u64_eq)
    have "case_option True (\<lambda>d. d + length ds \<le> m) (map_option (\<lambda>d. d + 1) decs)"
      using Cons.prems(2) by (simp split: option.splits)
    then show ?thesis
      unfolding e using True Cons.IH [of "map_option (\<lambda>d. d + 1) decs" "i + 1" "of_nat w"] Cons.prems(1)
      by (simp add: step u option.map_comp comp_def del: digits_loop.simps)
  next
    case False
    have "w \<le> w * 10 ^ length ds + digits_value ds" by (simp add: trans_le_add1)
    with False have "\<not> w * 10 ^ length ds + digits_value ds < 2 ^ 64" by linarith
    then show ?thesis unfolding e using False by (simp add: step del: digits_loop.simps)
  qed
qed

lemma loop_refuses:
  "d \<le> m \<Longrightarrow> m < d + length s \<or> \<not> list_all is_digit s \<Longrightarrow> digits_loop neg m i (Some d) v s \<noteq> Inr r"
proof (induction s arbitrary: i v d)
  case (Cons c s)
  show ?case
  proof (cases "is_digit c \<and> d < m")
    case True
    then show ?thesis using Cons.prems Cons.IH [of "d + 1"] by (auto simp: Let_def split: option.splits)
  next
    case False
    then show ?thesis by (auto simp: Let_def split: option.splits)
  qed
qed simp

lemma scale_up_eq:
  "scale_up neg n v = (if unat v * 10 ^ n < 2 ^ 64 then Inr (of_nat (unat v * 10 ^ n)) else Inl (Overflow neg))"
proof (induction n arbitrary: v)
  case (Suc n)
  show ?case
  proof (cases "unat v * 10 < 2 ^ 64")
    case True
    then have u: "unat (of_nat (unat v * 10) :: u64) = unat v * 10" by (rule unat_of_nat_u64_eq)
    have "checked_mul 10 v = Some (of_nat (unat v * 10))"
      unfolding checked_mul_iff u by simp
    then show ?thesis using Suc [of "of_nat (unat v * 10)"] unfolding u by (simp add: mult.assoc)
  next
    case False
    have "unat v * 10 \<le> unat v * 10 ^ Suc n" by simp
    with False have "\<not> unat v * 10 ^ Suc n < 2 ^ 64" by linarith
    then show ?thesis using False by (simp add: checked_mul_def mult.commute)
  qed
qed simp

lemma takeWhile_digits: "list_all is_digit (takeWhile is_digit s)"
  by (auto simp: list_all_iff dest: set_takeWhileD)

lemma decimal_reading_digits: "list_all is_digit ds \<Longrightarrow> decimal_reading k ds = Some (digits_value ds * 10 ^ k)"
proof -
  assume "list_all is_digit ds"
  then have d: "dropWhile is_digit ds = []" by (simp add: list_all_iff dropWhile_eq_Nil_conv)
  show ?thesis unfolding decimal_reading_def d by simp
qed

lemma decimal_reading_point:
  assumes "list_all is_digit ds"
  shows "decimal_reading k (ds @ CHR ''.'' # fs) =
     (if list_all is_digit fs \<and> length fs \<le> k
      then Some (digits_value (ds @ fs) * 10 ^ (k - length fs)) else None)"
proof -
  have "dropWhile is_digit (ds @ CHR ''.'' # fs) = CHR ''.'' # fs" "takeWhile is_digit (ds @ CHR ''.'' # fs) = ds"
    using assms by (simp_all add: list_all_iff not_digit dropWhile_append2 takeWhile_append2)
  then show ?thesis by (simp add: decimal_reading_def)
qed

lemma decimal_reading_None: "\<not> is_digit c \<Longrightarrow> c \<noteq> CHR ''.'' \<Longrightarrow> list_all is_digit ds \<Longrightarrow> decimal_reading k (ds @ c # t) = None"
proof -
  assume "\<not> is_digit c" "c \<noteq> CHR ''.''" "list_all is_digit ds"
  moreover from this have "dropWhile is_digit (ds @ c # t) = c # t"
    by (simp add: list_all_iff dropWhile_append2)
  ultimately show ?thesis by (simp add: decimal_reading_def)
qed


lemma numeral_cases:
  obtains (digits) "list_all is_digit s"
  | (point) ds fs where "list_all is_digit ds" "s = ds @ CHR ''.'' # fs"
  | (other) ds c t where "list_all is_digit ds" "\<not> is_digit c" "c \<noteq> CHR ''.''" "s = ds @ c # t"
proof (cases "dropWhile is_digit s")
  case Nil
  then have "list_all is_digit s" by (simp add: dropWhile_eq_Nil_conv list_all_iff)
  then show ?thesis by (rule that(1))
next
  case (Cons c t)
  then have "s = takeWhile is_digit s @ c # t" by (metis takeWhile_dropWhile_id)
  moreover have "\<not> is_digit c" using Cons by (metis hd_dropWhile list.distinct(1) list.sel(1))
  ultimately show ?thesis using that(2) that(3) takeWhile_digits by (cases "c = CHR ''.''") metis+
qed

lemma scaled_iff:
  "(if x < 2 ^ 64 then and_then (scale_up neg k (of_nat x)) (\<lambda>v. Inr (neg, v)) else Inl (Overflow neg)) = Inr (n, w)
     \<longleftrightarrow> n = neg \<and> unat w = x * 10 ^ k" (is "?l = _ \<longleftrightarrow> _")
proof (cases "x * 10 ^ k < 2 ^ 64")
  case True
  have "x \<le> x * 10 ^ k" by simp
  with True have x: "x < 2 ^ 64" by linarith
  have "?l = Inr (neg, of_nat (x * 10 ^ k))"
    using True x by (simp add: scale_up_eq unat_of_nat_u64_eq del: of_nat_mult unat_of_nat)
  moreover have "w = of_nat (x * 10 ^ k) \<longleftrightarrow> unat w = x * 10 ^ k"
    using unat_of_nat_u64_eq [OF True] by (auto simp: word_unat_eq_iff simp del: of_nat_mult unat_of_nat)
  ultimately show ?thesis by auto
next
  case False
  then have "?l = Inl (Overflow neg)"
    by (simp add: scale_up_eq unat_of_nat_u64_eq del: of_nat_mult unat_of_nat)
  moreover have "unat w \<noteq> x * 10 ^ k" using False u64_bound [of w] by metis
  ultimately show ?thesis by simp
qed

lemma parse_decimal_digits:
  assumes "list_all is_digit ds"
  shows "parse_decimal neg m ds = Inr (n, w) \<longleftrightarrow> n = neg \<and> unat w = digits_value ds * 10 ^ m"
proof -
  have "parse_decimal neg m ds =
      (if digits_value ds < 2 ^ 64 then and_then (scale_up neg m (of_nat (digits_value ds))) (\<lambda>v. Inr (neg, v))
       else Inl (Overflow neg))"
    using loop_digits [OF assms, of m None neg 0 0 "[]"] by (simp add: parse_decimal_def)
  then show ?thesis by (simp only: scaled_iff)
qed

lemma parse_decimal_point:
  assumes ds: "list_all is_digit ds" and m: "0 < m"
  shows "parse_decimal neg m (ds @ CHR ''.'' # fs) = Inr (n, w) \<longleftrightarrow>
    n = neg \<and> list_all is_digit fs \<and> length fs \<le> m \<and> unat w = digits_value (ds @ fs) * 10 ^ (m - length fs)"
proof -
  define v where "v = digits_value ds"
  have start: "digits_loop neg m 0 None 0 (ds @ CHR ''.'' # fs) =
      (if v < 2 ^ 64 then digits_loop neg m (length ds + 1) (Some 0) (of_nat v) fs else Inl (Overflow neg))"
    using loop_digits [OF ds, of m None neg 0 0 "CHR ''.'' # fs"] m by (simp add: v_def not_digit)
  show ?thesis
  proof (cases "list_all is_digit fs \<and> length fs \<le> m")
    case False
    then have "digits_loop neg m (length ds + 1) (Some 0) (of_nat v) fs \<noteq> Inr r" for r
      by (intro loop_refuses) auto
    then show ?thesis using False start by (auto simp: parse_decimal_def and_then_Inr_iff)
  next
    case True
    define x where "x = digits_value (ds @ fs)"
    have x: "v * 10 ^ length fs + digits_value fs = x" by (simp add: x_def v_def)
    have "v \<le> v * 10 ^ length fs" by simp
    then have vx: "v \<le> x" unfolding x [symmetric] by linarith
    have "digits_loop neg m 0 None 0 (ds @ CHR ''.'' # fs) =
        (if x < 2 ^ 64 then Inr (Some (length fs), of_nat x) else Inl (Overflow neg))"
      using start vx True loop_digits [of fs m "Some 0" neg "length ds + 1" "of_nat v" "[]"]
      by (auto simp: unat_of_nat_u64_eq x simp del: unat_of_nat of_nat_add of_nat_mult)
    then have "parse_decimal neg m (ds @ CHR ''.'' # fs) =
        (if x < 2 ^ 64 then and_then (scale_up neg (m - length fs) (of_nat x)) (\<lambda>v. Inr (neg, v))
         else Inl (Overflow neg))"
      by (simp add: parse_decimal_def)
    then show ?thesis using True by (simp only: scaled_iff x_def simp_thms)
  qed
qed

lemma parse_decimal_other:
  assumes "list_all is_digit ds" "\<not> is_digit c" "c \<noteq> CHR ''.''"
  shows "parse_decimal neg m (ds @ c # t) \<noteq> Inr r"
  using loop_digits [OF assms(1), of m None neg 0 0 "c # t"] assms(2,3) by (auto simp: parse_decimal_def Let_def)

lemma parse_decimal_iff:
  assumes "0 < m \<or> CHR ''.'' \<notin> set s"
  shows "parse_decimal neg m s = Inr (n, w) \<longleftrightarrow> n = neg \<and> decimal_reading m s = Some (unat w)"
proof (cases s rule: numeral_cases)
  case digits
  then show ?thesis by (auto simp: parse_decimal_digits decimal_reading_digits)
next
  case (point ds fs)
  then show ?thesis using assms by (auto simp: parse_decimal_point decimal_reading_point simp del: digits_value_simps)
next
  case (other ds c t)
  then show ?thesis by (simp add: parse_decimal_other decimal_reading_None)
qed


section \<open>Printing\<close>

lemma strip_zeros_spec:
  "strip_zeros nb num = (nb', f) \<Longrightarrow> num \<noteq> 0 \<Longrightarrow> num < 10 ^ nb \<Longrightarrow>
     0 < nb' \<and> nb' \<le> nb \<and> f * 10 ^ (nb - nb') = num \<and> f < 10 ^ nb'"
proof (induction nb num rule: strip_zeros.induct)
  case (1 nb num)
  show ?case
  proof (cases "num mod 10 = 0")
    case True
    then have n: "num = num div 10 * 10" by presburger
    with 1(3) have n0: "num div 10 \<noteq> 0" by (metis mult_is_0)
    obtain m where nb: "nb = Suc m" using 1(3,4) by (cases nb) auto
    have "num div 10 < 10 ^ (nb - 1)" using 1(4) n unfolding nb by simp
    with 1(1,2) True 1(3) n0 have ih: "0 < nb'" "nb' \<le> nb - 1" "f * 10 ^ (nb - 1 - nb') = num div 10" "f < 10 ^ nb'"
      by (auto simp: strip_zeros.simps [of nb num])
    have "nb - nb' = Suc (nb - 1 - nb')" using ih(2) nb by simp
    then have "f * 10 ^ (nb - nb') = num" using ih(3) n by (simp add: mult.assoc [symmetric])
    with ih show ?thesis by simp
  next
    case False
    then have "nb' = nb" "f = num" using 1(2) by (auto simp: strip_zeros.simps [of nb num])
    moreover have "0 < nb" using 1(3,4) by (cases nb) auto
    ultimately show ?thesis using 1(4) by simp
  qed
qed

lemma fmt_default:
  "fmt_satoshi_in n neg d False default_options = (if neg then ''-'' else []) @ printed n d"
  by (simp add: fmt_satoshi_in_def default_options_def padding_def unwrap_or_def split: prod.splits)

lemma printed_whole:
  "0 \<le> precision d \<Longrightarrow> printed n d = dec_string n @ replicate (if n = 0 then 0 else nat (precision d)) CHR ''0''"
  by (auto simp: fmt_satoshi_in_def normalize_def default_options_def padding_def unwrap_or_def Let_def)

lemma printed_decimals [consumes 1]:
  assumes "precision d < 0"
  defines "k \<equiv> nat (- precision d)"
  obtains (whole) "n mod 10 ^ k = 0" "printed n d = dec_string (n div 10 ^ k)"
  | (frac) fs where "printed n d = dec_string (n div 10 ^ k) @ CHR ''.'' # fs" "list_all is_digit fs" "length fs \<le> k"
      "digits_value fs * 10 ^ (k - length fs) = n mod 10 ^ k"
proof (cases "n mod 10 ^ k = 0")
  case True
  then have "printed n d = dec_string (n div 10 ^ k)"
    using assms by (simp add: fmt_satoshi_in_def normalize_def default_options_def padding_def unwrap_or_def Let_def)
  with True show ?thesis by (rule whole)
next
  case False
  obtain nb f where s: "strip_zeros k (n mod 10 ^ k) = (nb, f)" by fastforce
  from strip_zeros_spec [OF this False] have nb: "0 < nb" "nb \<le> k" "f * 10 ^ (k - nb) = n mod 10 ^ k" "f < 10 ^ nb"
    by simp_all
  have "printed n d = dec_string (n div 10 ^ k) @ CHR ''.'' # zero_padded f nb"
    using assms False s nb(1)
    by (simp add: fmt_satoshi_in_def normalize_def default_options_def padding_def unwrap_or_def Let_def)
  with nb show ?thesis by (intro frac [of "zero_padded f nb"]) (simp_all add: zero_padded_facts [OF nb(4,1)])
qed


lemma decimal_reading_printed:
  assumes "precision d < 0"
  shows "decimal_reading (nat (- precision d)) (printed n d) = Some n"
  using assms
proof (cases rule: printed_decimals [of d n])
  case whole
  then have "n div 10 ^ nat (- precision d) * 10 ^ nat (- precision d) = n"
    by (simp add: mod_0_imp_dvd dvd_div_mult_self)
  then show ?thesis using dec_string_facts by (simp add: whole decimal_reading_digits)
next
  case (frac fs)
  define k where "k = nat (- precision d)"
  have "(n div 10 ^ k * 10 ^ length fs + digits_value fs) * 10 ^ (k - length fs) =
      n div 10 ^ k * (10 ^ length fs * 10 ^ (k - length fs)) + digits_value fs * 10 ^ (k - length fs)"
    by (simp add: algebra_simps)
  also have "\<dots> = n" unfolding power_add [symmetric] using frac(3,4) by (simp add: k_def div_mult_mod_eq)
  finally show ?thesis
    unfolding frac(1) using dec_string_facts frac(2,3) by (simp add: decimal_reading_point k_def)
qed

lemma precision_bounds: "-8 \<le> precision d" "precision d \<le> 4"
  by (cases d; simp)+

lemma length_printed:
  assumes "n < 2 ^ 64"
  shows "length (printed n d) \<le> 30"
proof (cases "precision d < 0")
  case True
  have "n div 10 ^ nat (- precision d) \<le> n" by (rule div_le_dividend)
  with assms have l: "length (dec_string (n div 10 ^ nat (- precision d))) \<le> 20"
    by (intro length_dec_string_u64) linarith
  from True show ?thesis
    using l precision_bounds [of d] by (cases rule: printed_decimals [of d n]) auto
next
  case False
  then show ?thesis using length_dec_string_u64 [OF assms] precision_bounds [of d] by (auto simp: printed_whole)
qed

lemma printed_head: obtains c cs where "printed n d = c # cs" "is_digit c"
proof -
  have "\<exists>m t. printed n d = dec_string m @ t"
  proof (cases "precision d < 0")
    case True
    then show ?thesis by (cases rule: printed_decimals [of d n]) (metis append_Nil2)+
  qed (metis printed_whole not_less)
  then obtain m t where p: "printed n d = dec_string m @ t" by blast
  with dec_string_facts [of m] that show thesis by (cases "dec_string m") auto
qed

lemma position_None: "position p s = None \<longleftrightarrow> (\<forall>c \<in> set s. \<not> p c)"
  by (induction s) auto

lemma find_char_digits: "list_all is_digit s \<Longrightarrow> find_char CHR ''.'' s = None"
  by (auto simp: position_None list_all_iff not_digit)

lemma parse_unsigned_printed:
  assumes "n < 2 ^ 64"
  shows "parse_unsigned neg (printed n d) d = Inr (neg, of_nat n)"
proof (cases "precision d < 0")
  case True
  then have "parse_decimal neg (nat (- precision d)) (printed n d) = Inr (neg, of_nat n)"
    by (subst parse_decimal_iff) (simp_all add: decimal_reading_printed unat_of_nat_u64_eq [OF assms] del: unat_of_nat)
  with True show ?thesis by (simp add: parse_unsigned_def Let_def)
next
  case False
  define k where "k = nat (precision d)"
  have digits: "list_all is_digit (dec_string n)" "digits_value (dec_string n) = n" "dec_string n \<noteq> []"
    using dec_string_facts [of n] by simp_all
  have dec: "parse_decimal neg 0 (dec_string n) = Inr (neg, of_nat n)"
    by (subst parse_decimal_digits) (simp_all add: digits unat_of_nat_u64_eq [OF assms] del: unat_of_nat)
  show ?thesis
  proof (cases "n = 0")
    case True
    then show ?thesis
      using False dec
      by (auto simp: printed_whole dec_string_0 parse_unsigned_def Let_def is_too_precise_def last_nonzero_def
          parse_i64_def is_digit_def digit_of_def checked_i64_def in_i64_def digits_value_def)
  next
    case n: False
    have p: "printed n d = dec_string n @ replicate k CHR ''0''" using False n by (simp add: printed_whole k_def)
    have dot: "find_char CHR ''.'' (printed n d) = None"
      unfolding p using digits(1) by (intro find_char_digits) (auto simp: list_all_iff not_digit)
    have "last_nonzero k (printed n d) = None" unfolding p by (simp add: last_nonzero_def position_None)
    then have "is_too_precise (printed n d) k = None"
      using digits(3) by (simp add: is_too_precise_def dot) (simp add: p)
    with False dot dec show ?thesis by (simp add: parse_unsigned_def Let_def k_def [symmetric]) (simp add: p)
  qed
qed

lemma parse_signed_printed:
  assumes "n < 2 ^ 64"
  shows "parse_signed_to_satoshi (printed n d) d = Inr (False, of_nat n)"
    "parse_signed_to_satoshi (CHR ''-'' # printed n d) d = Inr (True, of_nat n)"
proof -
  obtain c cs where p: "printed n d = c # cs" "is_digit c" by (rule printed_head)
  have l: "length (printed n d) \<le> 30" using assms by (rule length_printed)
  then have "\<not> INPUT_STRING_LEN_LIMIT < length (printed n d)" by (simp add: INPUT_STRING_LEN_LIMIT_def)
  moreover have "hd (printed n d) \<noteq> CHR ''-''" "printed n d \<noteq> []" using p not_digit by auto
  ultimately show "parse_signed_to_satoshi (printed n d) d = Inr (False, of_nat n)"
    by (simp add: parse_signed_to_satoshi_def parse_unsigned_printed [OF assms])
  show "parse_signed_to_satoshi (CHR ''-'' # printed n d) d = Inr (True, of_nat n)"
    using l \<open>printed n d \<noteq> []\<close>
    by (simp add: parse_signed_to_satoshi_def parse_unsigned_printed [OF assms] INPUT_STRING_LEN_LIMIT_def)
qed


lemma printed_chars: "list_all (\<lambda>c. is_digit c \<or> c = CHR ''.'') (printed n d)"
proof (cases "precision d < 0")
  case True
  then show ?thesis
    using dec_string_facts by (cases rule: printed_decimals [of d n]) (auto simp: list_all_iff)
next
  case False
  then show ?thesis using dec_string_facts [of n] not_digit by (auto simp: printed_whole list_all_iff)
qed

lemma find_char_append: "c \<notin> set s \<Longrightarrow> find_char c (s @ c # t) = Some (length s)"
  by (induction s) auto

lemma denomination_from_as_str: "denomination_from_str (as_str d) = Inr d"
  by (cases d) (simp_all add: denomination_from_str_def CONFUSING_FORMS_def denomination_forms_def)

lemma split_with_denomination:
  "list_all (\<lambda>c. is_digit c \<or> c = CHR ''.'') s \<Longrightarrow>
     split_amount_and_denomination (s @ CHR '' '' # as_str d) = Inr (s, d)"
proof -
  assume "list_all (\<lambda>c. is_digit c \<or> c = CHR ''.'') s"
  then have "CHR '' '' \<notin> set s" using not_digit by (auto simp: list_all_iff)
  then show ?thesis
    by (simp add: split_amount_and_denomination_def find_char_append denomination_from_as_str)
qed

lemma split_negative:
  "list_all (\<lambda>c. is_digit c \<or> c = CHR ''.'') s \<Longrightarrow>
     split_amount_and_denomination (CHR ''-'' # s @ CHR '' '' # as_str d) = Inr (CHR ''-'' # s, d)"
proof -
  assume "list_all (\<lambda>c. is_digit c \<or> c = CHR ''.'') s"
  then have "CHR '' '' \<notin> set s" using not_digit by (auto simp: list_all_iff)
  then show ?thesis
    by (simp add: split_amount_and_denomination_def find_char_append denomination_from_as_str)
qed

lemma amount_from_str_in_printed: "amount_from_str_in (amount_to_string_in a d) d = Inr a"
  using parse_signed_printed(1) [OF u64_bound, of a d] by (simp add: amount_from_str_in_def amount_to_string_in_def)

lemma unsigned_abs_eq: "unsigned_abs n = of_nat (nat \<bar>n\<bar>)"
  by (simp add: unsigned_abs_def)

lemma signed_result:
  assumes "m \<le> 2 ^ 63" and "m = 2 ^ 63 \<longrightarrow> neg" and "parse_signed_to_satoshi s d = Inr (neg, of_nat m)"
  shows "signed_from_str_in s d = Inr (if neg then - int m else int m)"
proof -
  have u: "unat (of_nat m :: u64) = m" using assms(1) by (intro unat_of_nat_u64_eq) simp
  have i: "uint (of_nat m :: u64) = int m" using u by (metis uint_nat)
  have s: "sint (of_nat m :: u64) = int m" if "m < 2 ^ 63"
  proof -
    have "to_signed (of_nat m) = Inr (int m)" using that by (simp add: to_signed_iff i)
    then show ?thesis by (simp add: to_signed_def split: if_splits)
  qed
  have c: "(0x7FFFFFFFFFFFFFFF < (of_nat m :: u64)) \<longleftrightarrow> m = 2 ^ 63" "((of_nat m :: u64) = 0x8000000000000000) \<longleftrightarrow> m = 2 ^ 63"
    "\<not> (0x8000000000000000 < (of_nat m :: u64))"
    using assms(1) by (auto simp: word_less_nat_alt word_unat_eq_iff u simp del: unat_of_nat)
  show ?thesis using assms s unfolding signed_from_str_in_def assms(3) by (auto simp: c)
qed

lemma signed_from_str_in_printed: "in_i64 n \<Longrightarrow> signed_from_str_in (signed_to_string_in n d) d = Inr n"
proof -
  assume n: "in_i64 n"
  define m where "m = nat \<bar>n\<bar>"
  have m: "m \<le> 2 ^ 63" "m = 2 ^ 63 \<longrightarrow> n < 0" using n by (auto simp: m_def in_i64_def)
  then have l: "m < 2 ^ 64" by simp
  then have "unat (unsigned_abs n) = m" unfolding unsigned_abs_eq m_def [symmetric] by (rule unat_of_nat_u64_eq)
  then have "parse_signed_to_satoshi (signed_to_string_in n d) d = Inr (n < 0, of_nat m)"
    using parse_signed_printed [OF l, of d] unfolding signed_to_string_in_def fmt_default [of _ "n < 0"]
    by (cases "n < 0") simp_all
  from signed_result [OF m(1,2) this] show ?thesis by (simp add: m_def)
qed

lemma amount_display_eq:
  obtains z where "amount_display a default_options = printed (unat a) Bitcoin @ replicate z CHR ''0'' @ '' BTC''"
    "decimal_reading 8 (printed (unat a) Bitcoin @ replicate z CHR ''0'') = Some (unat a)"
    "z \<le> 8"
proof -
  define n where "n = unat a"
  have o: "unat ONE_BTC = 10 ^ 8" by (simp add: ONE_BTC_def)
  have r: "decimal_reading 8 (printed n Bitcoin) = Some n" using decimal_reading_printed [of Bitcoin n] by simp
  show thesis
  proof (cases "n mod 10 ^ 8 = 0")
    case True
    then have "a mod ONE_BTC = 0" by (simp add: word_unat_eq_iff unat_mod_distrib o n_def)
    then have "amount_display a default_options = printed n Bitcoin @ '' BTC''"
      by (simp add: amount_display_def n_def fmt_satoshi_in_def default_options_def padding_def unwrap_or_def split: prod.splits)
    with r that [of 0] show thesis by (simp add: n_def)
  next
    case False
    then have nz: "a mod ONE_BTC \<noteq> 0" by (simp add: word_unat_eq_iff unat_mod_distrib o n_def)
    obtain nb f where s: "strip_zeros 8 (n mod 10 ^ 8) = (nb, f)" by fastforce
    from strip_zeros_spec [OF this False] have nb: "0 < nb" "nb \<le> 8" "f * 10 ^ (8 - nb) = n mod 10 ^ 8" "f < 10 ^ nb"
      by simp_all
    let ?w = "dec_string (n div 10 ^ 8)"
    have p: "printed n Bitcoin = ?w @ CHR ''.'' # zero_padded f nb"
      using False s nb(1)
      by (simp add: fmt_satoshi_in_def normalize_def default_options_def padding_def unwrap_or_def Let_def)
    have e: "amount_display a default_options = printed n Bitcoin @ replicate (8 - nb) CHR ''0'' @ '' BTC''"
      unfolding p using nz False s nb(1)
      by (simp add: amount_display_def n_def fmt_satoshi_in_def normalize_def default_options_def padding_def unwrap_or_def Let_def)
    note zp = zero_padded_facts [OF nb(4,1)]
    have "list_all is_digit (zero_padded f nb @ replicate (8 - nb) CHR ''0'')"
      using zp(2) not_digit by (auto simp: list_all_iff)
    then have "decimal_reading 8 (printed n Bitcoin @ replicate (8 - nb) CHR ''0'') = Some n"
      unfolding p using dec_string_facts [of "n div 10 ^ 8"] nb zp
      by (simp add: decimal_reading_point)
    with e nb(2) that [of "8 - nb"] show thesis by (simp add: n_def)
  qed
qed


lemma amount_from_display: "amount_from_str (amount_display a default_options) = Inr a"
proof -
  obtain z where z: "amount_display a default_options = printed (unat a) Bitcoin @ replicate z CHR ''0'' @ '' BTC''"
      "decimal_reading 8 (printed (unat a) Bitcoin @ replicate z CHR ''0'') = Some (unat a)" "z \<le> 8"
    by (rule amount_display_eq)
  let ?s = "printed (unat a) Bitcoin @ replicate z CHR ''0''"
  have "list_all (\<lambda>c. is_digit c \<or> c = CHR ''.'') ?s"
    using printed_chars [of "unat a" Bitcoin] not_digit by (auto simp: list_all_iff)
  from split_with_denomination [OF this, of Bitcoin]
  have split: "split_amount_and_denomination (amount_display a default_options) = Inr (?s, Bitcoin)"
    by (simp add: z(1))
  obtain c cs where p: "printed (unat a) Bitcoin = c # cs" "is_digit c" by (rule printed_head)
  have "length ?s \<le> 38" using length_printed [OF u64_bound, of a Bitcoin] z(3) by simp
  then have "parse_signed_to_satoshi ?s Bitcoin = parse_unsigned False ?s Bitcoin"
    using p not_digit by (auto simp: parse_signed_to_satoshi_def INPUT_STRING_LEN_LIMIT_def Let_def)
  also have "\<dots> = parse_decimal False 8 ?s" by (simp add: parse_unsigned_def)
  also have "\<dots> = Inr (False, a)" using z(2) by (subst parse_decimal_iff) simp_all
  finally have "amount_from_str_in ?s Bitcoin = Inr a" by (simp add: amount_from_str_in_def)
  then show ?thesis by (simp add: amount_from_str_def split)
qed

lemma parse_signed_iff:
  assumes "precision d < 0"
  shows "parse_signed_to_satoshi s d = Inr (neg, w) \<longleftrightarrow> length s \<le> 50 \<and>
     (if take 1 s = ''-''
      then neg \<and> 1 < length s \<and> decimal_reading (nat (- precision d)) (drop 1 s) = Some (unat w)
      else \<not> neg \<and> 0 < length s \<and> decimal_reading (nat (- precision d)) s = Some (unat w))"
proof (cases s)
  case (Cons c cs)
  have "parse_unsigned b t d = Inr (neg, w) \<longleftrightarrow> neg = b \<and> decimal_reading (nat (- precision d)) t = Some (unat w)" for b t
    using assms by (simp add: parse_unsigned_def parse_decimal_iff)
  then show ?thesis
    unfolding Cons by (cases cs) (auto simp: parse_signed_to_satoshi_def INPUT_STRING_LEN_LIMIT_def Let_def)
qed (simp add: parse_signed_to_satoshi_def)

lemma signed_from_str_in_iff:
  "signed_from_str_in s d = Inr n \<longleftrightarrow>
     (\<exists>neg w. parse_signed_to_satoshi s d = Inr (neg, w) \<and> in_i64 n \<and> n = (if neg then - int (unat w) else int (unat w)))"
proof (cases "parse_signed_to_satoshi s d")
  case (Inr r)
  obtain neg w where r: "r = (neg, w)" by fastforce
  define m where "m = unat w"
  have w: "w = of_nat m" by (simp add: m_def)
  show ?thesis
  proof (cases "m \<le> 2 ^ 63 \<and> (m = 2 ^ 63 \<longrightarrow> neg)")
    case True
    then have "signed_from_str_in s d = Inr (if neg then - int m else int m)"
      using Inr r w by (intro signed_result) auto
    moreover have "in_i64 (if neg then - int m else int m)" using True by (auto simp: in_i64_def)
    ultimately show ?thesis using Inr r by (auto simp: m_def)
  next
    case False
    then have big: "2 ^ 63 \<le> m" "neg \<longrightarrow> 2 ^ 63 < m" by auto
    then have "\<not> in_i64 (if neg then - int m else int m)" by (auto simp: in_i64_def)
    moreover have "0x7FFFFFFFFFFFFFFF < w" "neg \<longrightarrow> 0x8000000000000000 < w"
      using big by (simp_all add: word_less_nat_alt m_def)
    then have "signed_from_str_in s d \<noteq> Inr n" by (auto simp: signed_from_str_in_def Inr r)
    ultimately show ?thesis using Inr r by (auto simp: m_def)
  qed
qed (simp add: signed_from_str_in_def)

lemma signed_reading:
  assumes "in_i64 n"
  shows "(\<exists>w :: u64. x = Some (unat w) \<and> n = - int (unat w)) \<longleftrightarrow> n \<le> 0 \<and> x = Some (nat (- n))"
proof
  assume "n \<le> 0 \<and> x = Some (nat (- n))"
  moreover from this have "unat (of_nat (nat (- n)) :: u64) = nat (- n)"
    using assms by (intro unat_of_nat_u64_eq) (auto simp: in_i64_def)
  ultimately show "\<exists>w :: u64. x = Some (unat w) \<and> n = - int (unat w)"
    by (intro exI [of _ "of_nat (nat (- n))"]) simp
qed auto

lemma unsigned_reading:
  assumes "in_i64 n"
  shows "(\<exists>w :: u64. x = Some (unat w) \<and> n = int (unat w)) \<longleftrightarrow> 0 \<le> n \<and> x = Some (nat n)"
proof
  assume "0 \<le> n \<and> x = Some (nat n)"
  moreover from this have "unat (of_nat (nat n) :: u64) = nat n"
    using assms by (intro unat_of_nat_u64_eq) (auto simp: in_i64_def)
  ultimately show "\<exists>w :: u64. x = Some (unat w) \<and> n = int (unat w)"
    by (intro exI [of _ "of_nat (nat n)"]) simp
qed auto

section \<open>Properties\<close>

text \<open>
  C29: Printed amounts read back: for every amount and denomination the parser accepts what the printer wrote, with or
  without the denomination, and so does the default \<open>Display\<close>; signed amounts over the whole range of \<open>i64\<close>.
\<close>

theorem amount_text_roundtrip:
  "amount_from_str_in (amount_to_string_in a d) d = Inr a
   \<and> amount_from_str (amount_to_string_with_denomination a d) = Inr a
   \<and> amount_from_str (amount_display a default_options) = Inr a
   \<and> (if in_i64 n
      then signed_from_str_in (signed_to_string_in n d) d = Inr n
        \<and> signed_from_str (signed_to_string_with_denomination n d) = Inr n
        \<and> signed_from_str (signed_display n) = Inr n
      else True)"
proof -
  have "split_amount_and_denomination (amount_to_string_with_denomination a d) = Inr (amount_to_string_in a d, d)"
    by (simp add: amount_to_string_with_denomination_def amount_to_string_in_def split_with_denomination printed_chars)
  then have a: "amount_from_str (amount_to_string_with_denomination a d) = Inr a"
    by (simp add: amount_from_str_def amount_from_str_in_printed)
  have "split_amount_and_denomination (signed_to_string_with_denomination n d') = Inr (signed_to_string_in n d', d')" for d'
    unfolding signed_to_string_with_denomination_def signed_to_string_in_def fmt_default [of _ "n < 0"]
    by (cases "n < 0") (simp_all add: split_with_denomination split_negative printed_chars)
  then have s: "signed_from_str (signed_to_string_with_denomination n d') = Inr n" if "in_i64 n" for d'
    by (simp add: signed_from_str_def signed_from_str_in_printed that)
  have "signed_from_str (signed_display n) = Inr n" if "in_i64 n"
    using s [OF that, of Bitcoin] by (simp add: signed_display_def signed_to_string_with_denomination_def)
  with a s show ?thesis by (simp add: amount_from_str_in_printed amount_from_display signed_from_str_in_printed)
qed

text \<open>
  In a denomination above the satoshi the parser accepts exactly the decimal numerals of at most 50 characters with
  no more decimals than the denomination has, whose value fits: the number returned is the exact value, never
  rounded or wrapped; a sign is one leading minus, which unsigned amounts refuse.
\<close>

theorem amount_parse_exact:
  assumes "precision d < 0"
  shows "(amount_from_str_in s d = Inr a \<longleftrightarrow>
      0 < length s \<and> length s \<le> 50 \<and> decimal_reading (nat (- precision d)) s = Some (unat a))
   \<and> (signed_from_str_in s d = Inr n \<longleftrightarrow> length s \<le> 50 \<and> in_i64 n \<and>
      (if take 1 s = ''-''
       then 1 < length s \<and> n \<le> 0 \<and> decimal_reading (nat (- precision d)) (drop 1 s) = Some (nat (- n))
       else 0 < length s \<and> 0 \<le> n \<and> decimal_reading (nat (- precision d)) s = Some (nat n)))"
proof
  have "decimal_reading k s = None" if "take 1 s = ''-''" for k
    using that decimal_reading_None [of "CHR ''-''" "[]"] not_digit by (cases s) auto
  moreover have "amount_from_str_in s d = Inr a \<longleftrightarrow> parse_signed_to_satoshi s d = Inr (False, a)"
    by (auto simp: amount_from_str_in_def split: sum.splits)
  ultimately show "amount_from_str_in s d = Inr a \<longleftrightarrow>
      0 < length s \<and> length s \<le> 50 \<and> decimal_reading (nat (- precision d)) s = Some (unat a)"
    by (auto simp: parse_signed_iff [OF assms])
  show "signed_from_str_in s d = Inr n \<longleftrightarrow> length s \<le> 50 \<and> in_i64 n \<and>
      (if take 1 s = ''-''
       then 1 < length s \<and> n \<le> 0 \<and> decimal_reading (nat (- precision d)) (drop 1 s) = Some (nat (- n))
       else 0 < length s \<and> 0 \<le> n \<and> decimal_reading (nat (- precision d)) s = Some (nat n))"
  proof (cases "in_i64 n")
    case True
    then show ?thesis
      unfolding signed_from_str_in_iff parse_signed_iff [OF assms]
        signed_reading [OF True, symmetric] unsigned_reading [OF True, symmetric] by (simp split: if_split) blast
  qed (simp add: signed_from_str_in_iff)
qed

theorem amount_parse_exact_witness:
  "amount_from_str_in ''0.5'' Bitcoin = Inr 50000000 \<and> signed_from_str_in ''-1.25'' MicroBitcoin = Inr (- 125)"
  using amount_parse_exact [of Bitcoin "''0.5''" 50000000 0] amount_parse_exact [of MicroBitcoin "''-1.25''" 0 "- 125"]
  by (simp add: decimal_reading_def is_digit_def digit_of_def in_i64_def)

text \<open>
  In a denomination below the satoshi a second sign slips through for zero: \<open>s.parse::<i64>()\<close>, which accepts its
  own sign, decides whether a too precise number is zero after the minus has been removed. Other numbers and
  denominations refuse the sign.
\<close>

theorem parse_double_sign:
  "signed_from_str_in ''--0'' MilliSatoshi = Inr 0
   \<and> amount_from_str_in ''+0'' MilliSatoshi = Inr 0
   \<and> signed_from_str_in ''--0'' Satoshi = Inl (InvalidCharacter CHR ''-'' 1)
   \<and> amount_from_str_in ''+0'' Satoshi = Inl (InvalidCharacter CHR ''+'' 0)
   \<and> amount_from_str_in ''+5000'' MilliSatoshi = Inl (InvalidCharacter CHR ''+'' 0)"
  by code_simp

end
