(* ===== verification/Transaction.thy ===== *)
theory Transaction
  imports Mimblewimble Witness Locktime Units
begin

text \<open>
  Transactions (\<open>src/litecoin/src/blockdata/transaction.rs\<close>): out-points, inputs, outputs, the consensus encoding
  with the segwit and extension-block flags, the identifiers, sizes and weights, signature operation costs and
  weight prediction. The witness of an input is the buffer of theory \<open>Witness\<close>; a size that comes from it is
  \<^term>\<open>None\<close> where the code panics on a malformed buffer. Sizes are natural numbers.
\<close>

section \<open>Data\<close>

record OutPoint =
  txid :: bytes
  vout :: u32

record TxIn =
  previous_output :: OutPoint
  script_sig :: bytes
  sequence :: u32
  txin_witness :: witness

record TxOut =
  txout_value :: u64
  script_pubkey :: bytes

text \<open>The version is an \<open>i32\<close>, kept as its 32 bits.\<close>

record 'k Transaction =
  version :: u32
  lock_time :: LockTime
  tx_input :: "TxIn list"
  tx_output :: "TxOut list"
  mw_tx :: "'k mw_transaction option"
  is_hog_ex :: bool

definition SEGWIT_MARKER :: u8 where "SEGWIT_MARKER = 0x00"
definition FLAGS_SEGWIT :: u8 where "FLAGS_SEGWIT = 0x01"
definition FLAGS_MWEB_TX :: u8 where "FLAGS_MWEB_TX = 0x08"

definition OUTPOINT_SIZE :: nat where "OUTPOINT_SIZE = 32 + 4"
definition SEQUENCE_SIZE :: nat where "SEQUENCE_SIZE = 4"
definition LOCKTIME_SIZE :: nat where "LOCKTIME_SIZE = 4"
definition AMOUNT_BYTES :: nat where "AMOUNT_BYTES = 8"

definition outpoint_null :: OutPoint where
  "outpoint_null = \<lparr> txid = replicate 32 0, vout = 0xFFFFFFFF \<rparr>"

definition is_null :: "OutPoint \<Rightarrow> bool" where
  "is_null p \<longleftrightarrow> p = outpoint_null"

definition enables_lock_time :: "TxIn \<Rightarrow> bool" where
  "enables_lock_time i \<longleftrightarrow> sequence i \<noteq> SEQUENCE_MAX"

definition version_is_standard :: "u32 \<Rightarrow> bool" where
  "version_is_standard v \<longleftrightarrow> v = 1 \<or> v = 2"

abbreviation witness_is_empty :: "TxIn \<Rightarrow> bool" where
  "witness_is_empty i \<equiv> witness_elements (txin_witness i) = 0"

section \<open>Consensus encoding\<close>

definition outpoint_encode :: "OutPoint \<Rightarrow> io_failure encoded" where
  "outpoint_encode p = enc_seq (array_encode (txid p)) (int_encode (vout p))"

definition outpoint_decode :: "(encode_error, OutPoint) decoder" where
  "outpoint_decode = dbind (array_decode 32) (\<lambda>t. dbind read_int (\<lambda>v. dreturn \<lparr> txid = t, vout = v \<rparr>))"

definition txin_encode :: "TxIn \<Rightarrow> io_failure encoded" where
  "txin_encode i =
     enc_seq (outpoint_encode (previous_output i))
    (enc_seq (script_encode (script_sig i)) (int_encode (sequence i)))"

definition txin_decode :: "(encode_error, TxIn) decoder" where
  "txin_decode =
     dbind outpoint_decode (\<lambda>p. dbind script_decode (\<lambda>s. dbind read_int (\<lambda>q.
       dreturn \<lparr> previous_output = p, script_sig = s, sequence = q, txin_witness = witness_new \<rparr>)))"

definition txout_encode :: "TxOut \<Rightarrow> io_failure encoded" where
  "txout_encode x = enc_seq (int_encode (txout_value x)) (script_encode (script_pubkey x))"

definition txout_decode :: "(encode_error, TxOut) decoder" where
  "txout_decode = dbind read_int (\<lambda>v. dbind script_decode (\<lambda>s.
     dreturn \<lparr> txout_value = v, script_pubkey = s \<rparr>))"

definition transaction_encode :: "'k key_ops \<Rightarrow> 'k Transaction \<Rightarrow> io_failure encoded" where
  "transaction_encode K tx =
     (let has_witnesses = list_ex (\<lambda>i. \<not> witness_is_empty i) (tx_input tx);
          has_mweb = (mw_tx tx \<noteq> None \<or> is_hog_ex tx);
          needs_segwit_disambiguation = (tx_input tx = [] \<and> \<not> has_mweb);
          segwit_required = (has_witnesses \<or> needs_segwit_disambiguation);
          ins = vec_encode txin_encode (tx_input tx);
          outs = vec_encode txout_encode (tx_output tx);
          flag = (if segwit_required then FLAGS_SEGWIT else 0) OR (if has_mweb then FLAGS_MWEB_TX else 0) in
      enc_seq (int_encode (version tx))
     (enc_seq
        (if \<not> segwit_required \<and> \<not> has_mweb then enc_seq ins outs
         else enc_seq (emit_u8 SEGWIT_MARKER) (enc_seq (emit_u8 flag) (enc_seq ins (enc_seq outs
             (enc_seq
                (if segwit_required then enc_list (\<lambda>i. witness_encode (txin_witness i)) (tx_input tx)
                 else enc_nothing)
                (if has_mweb
                 then (case mw_tx tx of Some mw \<Rightarrow> enc_seq (emit_u8 1) (mw_tx_encode K mw)
                       | None \<Rightarrow> emit_u8 0)
                 else enc_nothing))))))
        (locktime_encode (lock_time tx))))"

primrec decode_witnesses :: "TxIn list \<Rightarrow> (encode_error, TxIn list) decoder" where
  "decode_witnesses [] = dreturn []"
| "decode_witnesses (i # is) =
     dbind witness_decode (\<lambda>w. dbind (decode_witnesses is) (\<lambda>js. dreturn (i \<lparr> txin_witness := w \<rparr> # js)))"

definition decode_segwit_part :: "u8 \<Rightarrow> TxIn list \<Rightarrow> (encode_error, TxIn list) decoder" where
  "decode_segwit_part segwit_flag input =
     (if segwit_flag AND FLAGS_SEGWIT \<noteq> 0
      then dbind (decode_witnesses input) (\<lambda>input.
        if input \<noteq> [] \<and> list_all witness_is_empty input
        then dfail (ParseFailed ''witness flag set but no witnesses present'') else dreturn input)
      else dreturn input)"

definition decode_mweb_part ::
    "'k key_ops \<Rightarrow> u8 \<Rightarrow> TxOut list \<Rightarrow> (encode_error, 'k mw_transaction option \<times> bool) decoder" where
  "decode_mweb_part K segwit_flag output =
     (if segwit_flag AND FLAGS_MWEB_TX \<noteq> 0
      then dbind read_u8 (\<lambda>is_mw_tx_present.
        if is_mw_tx_present \<noteq> 0 then dmap (\<lambda>mw. (Some mw, False)) (mw_tx_decode K)
        else if output = [] then dfail (ParseFailed ''HogEx transaction must have at least one output'')
        else dreturn (None, True))
      else dreturn (None, False))"

text \<open>The rest of \<open>consensus_decode_from_finite_reader\<close> after the marker, which reads as an empty vector of inputs.\<close>

definition decode_extended :: "'k key_ops \<Rightarrow> u32 \<Rightarrow> (encode_error, 'k Transaction) decoder" where
  "decode_extended K v =
     dbind read_u8 (\<lambda>segwit_flag.
       if segwit_flag AND (FLAGS_SEGWIT OR FLAGS_MWEB_TX) \<noteq> segwit_flag \<or> segwit_flag = 0
       then dfail (UnsupportedSegwitFlag segwit_flag)
       else dbind (vec_decode txin_decode) (\<lambda>input. dbind (vec_decode txout_decode) (\<lambda>output.
            dbind (decode_segwit_part segwit_flag input) (\<lambda>input.
            dbind (decode_mweb_part K segwit_flag output) (\<lambda>mweb.
            dbind locktime_decode (\<lambda>l.
              dreturn \<lparr> version = v, lock_time = l, tx_input = input, tx_output = output,
                        mw_tx = fst mweb, is_hog_ex = snd mweb \<rparr>))))))"

definition transaction_decode :: "'k key_ops \<Rightarrow> (encode_error, 'k Transaction) decoder" where
  "transaction_decode K =
     dbind read_int (\<lambda>v. dbind (vec_decode txin_decode) (\<lambda>input.
       if input = [] then decode_extended K v
       else dbind (vec_decode txout_decode) (\<lambda>output. dbind locktime_decode (\<lambda>l.
              dreturn \<lparr> version = v, lock_time = l, tx_input = input, tx_output = output,
                        mw_tx = None, is_hog_ex = False \<rparr>))))"

section \<open>Identifiers\<close>

text \<open>Hash engines never fail: an error of an encoder is a panic of \<open>expect\<close>.\<close>

definition hash_encoded :: "io_failure encoded \<Rightarrow> bytes option" where
  "hash_encoded e = (case e of Inl _ \<Rightarrow> None | Inr (b, _) \<Rightarrow> Some (sha256d_hash b))"

definition compute_txid :: "'k Transaction \<Rightarrow> bytes option" where
  "compute_txid tx =
     hash_encoded (enc_seq (int_encode (version tx))
       (enc_seq (vec_encode txin_encode (tx_input tx))
       (enc_seq (vec_encode txout_encode (tx_output tx)) (locktime_encode (lock_time tx)))))"

definition compute_wtxid :: "'k key_ops \<Rightarrow> 'k Transaction \<Rightarrow> bytes option" where
  "compute_wtxid K tx = hash_encoded (transaction_encode K tx)"

definition compute_ntxid :: "'k Transaction \<Rightarrow> bytes option" where
  "compute_ntxid tx =
     compute_txid (\<lparr> version = version tx, lock_time = lock_time tx,
       tx_input = map (\<lambda>i. i \<lparr> script_sig := [], txin_witness := witness_new \<rparr>) (tx_input tx),
       tx_output = tx_output tx, mw_tx = None, is_hog_ex = False \<rparr> :: 'k Transaction)"

section \<open>Sizes and weights\<close>

abbreviation size_of_len :: "nat \<Rightarrow> nat" where
  "size_of_len n \<equiv> varint_size (of_nat n)"

definition txin_base_size :: "TxIn \<Rightarrow> nat" where
  "txin_base_size i =
     OUTPOINT_SIZE + size_of_len (length (script_sig i)) + length (script_sig i) + SEQUENCE_SIZE"

definition txin_total_size :: "TxIn \<Rightarrow> nat option" where
  "txin_total_size i = map_option (\<lambda>n. txin_base_size i + n) (witness_size (txin_witness i))"

definition legacy_weight :: "TxIn \<Rightarrow> weight" where
  "legacy_weight i = from_non_witness_data_size (of_nat (txin_base_size i))"

definition segwit_weight :: "TxIn \<Rightarrow> weight option" where
  "segwit_weight i = map_option (\<lambda>n. from_non_witness_data_size (of_nat (txin_base_size i))
     + from_witness_data_size (of_nat n)) (witness_size (txin_witness i))"

definition size_from_script_pubkey :: "bytes \<Rightarrow> nat" where
  "size_from_script_pubkey s = AMOUNT_BYTES + size_of_len (length s) + length s"

definition txout_size :: "TxOut \<Rightarrow> nat" where
  "txout_size x = size_from_script_pubkey (script_pubkey x)"

definition txout_weight :: "TxOut \<Rightarrow> weight option" where
  "txout_weight x = from_vb (of_nat (txout_size x))"

fun sum_sizes :: "('a \<Rightarrow> nat option) \<Rightarrow> 'a list \<Rightarrow> nat option" where
  "sum_sizes f [] = Some 0"
| "sum_sizes f (x # xs) = Option.bind (f x) (\<lambda>n. map_option (\<lambda>m. n + m) (sum_sizes f xs))"

definition uses_segwit_serialization :: "'k Transaction \<Rightarrow> bool" where
  "uses_segwit_serialization tx \<longleftrightarrow>
     (if list_ex (\<lambda>i. \<not> witness_is_empty i) (tx_input tx) then True else tx_input tx = [])"

definition tx_base_size :: "'k Transaction \<Rightarrow> nat" where
  "tx_base_size tx =
     4 + size_of_len (length (tx_input tx)) + sum_list (map txin_base_size (tx_input tx))
     + size_of_len (length (tx_output tx)) + sum_list (map txout_size (tx_output tx)) + LOCKTIME_SIZE"

definition tx_total_size :: "'k Transaction \<Rightarrow> nat option" where
  "tx_total_size tx =
     (let uses_segwit = uses_segwit_serialization tx in
      map_option (\<lambda>ins. 4 + (if uses_segwit then 2 else 0) + size_of_len (length (tx_input tx)) + ins
          + size_of_len (length (tx_output tx)) + sum_list (map txout_size (tx_output tx)) + LOCKTIME_SIZE)
        (sum_sizes (\<lambda>i. if uses_segwit then txin_total_size i else Some (txin_base_size i)) (tx_input tx)))"

definition tx_weight :: "'k Transaction \<Rightarrow> weight option" where
  "tx_weight tx = map_option (\<lambda>t. from_wu_usize (tx_base_size tx * 3 + t)) (tx_total_size tx)"

definition tx_vsize :: "'k Transaction \<Rightarrow> nat option" where
  "tx_vsize tx = map_option (\<lambda>w. unat (to_vbytes_ceil w)) (tx_weight tx)"

section \<open>Queries\<close>

definition is_coinbase :: "'k Transaction \<Rightarrow> bool" where
  "is_coinbase tx \<longleftrightarrow> length (tx_input tx) = 1 \<and> is_null (previous_output (tx_input tx ! 0))"

definition is_explicitly_rbf :: "'k Transaction \<Rightarrow> bool" where
  "is_explicitly_rbf tx \<longleftrightarrow> list_ex (\<lambda>i. is_rbf (sequence i)) (tx_input tx)"

definition is_lock_time_enabled :: "'k Transaction \<Rightarrow> bool" where
  "is_lock_time_enabled tx \<longleftrightarrow> list_ex enables_lock_time (tx_input tx)"

definition is_absolute_timelock_satisfied :: "'k Transaction \<Rightarrow> u32 \<Rightarrow> u32 \<Rightarrow> bool" where
  "is_absolute_timelock_satisfied tx height time =
     (if \<not> is_lock_time_enabled tx then True else is_satisfied_by (lock_time tx) height time)"

definition script_pubkey_lens :: "'k Transaction \<Rightarrow> nat list" where
  "script_pubkey_lens tx = map (\<lambda>x. length (script_pubkey x)) (tx_output tx)"

datatype index_error = IndexOutOfBounds nat nat

definition tx_in :: "'k Transaction \<Rightarrow> nat \<Rightarrow> index_error + TxIn" where
  "tx_in tx i = (if i < length (tx_input tx) then Inr (tx_input tx ! i)
     else Inl (IndexOutOfBounds i (length (tx_input tx))))"

definition tx_out :: "'k Transaction \<Rightarrow> nat \<Rightarrow> index_error + TxOut" where
  "tx_out tx i = (if i < length (tx_output tx) then Inr (tx_output tx ! i)
     else Inl (IndexOutOfBounds i (length (tx_output tx))))"

section \<open>Signature operations\<close>

definition USIZE_MAX :: nat where "USIZE_MAX = 2 ^ 64 - 1"

definition saturating_add :: "nat \<Rightarrow> nat \<Rightarrow> nat" where
  "saturating_add a b = min (a + b) USIZE_MAX"

definition saturating_mul :: "nat \<Rightarrow> nat \<Rightarrow> nat" where
  "saturating_mul a b = min (a * b) USIZE_MAX"

definition count_p2pk_p2pkh_sigops :: "'k Transaction \<Rightarrow> nat" where
  "count_p2pk_p2pkh_sigops tx =
     foldl (\<lambda>count x. saturating_add count (count_sigops_legacy (script_pubkey x)))
       (foldl (\<lambda>count i. saturating_add count (count_sigops_legacy (script_sig i))) 0 (tx_input tx))
       (tx_output tx)"

definition p2sh_count_sigops :: "TxOut \<Rightarrow> TxIn \<Rightarrow> nat" where
  "p2sh_count_sigops prevout i =
     (if is_p2sh (script_pubkey prevout)
      then (case last_pushdata (script_sig i) of Some redeem \<Rightarrow> saturating_add 0 (count_sigops redeem) | None \<Rightarrow> 0)
      else 0)"

definition count_p2sh_sigops :: "'k Transaction \<Rightarrow> (OutPoint \<Rightarrow> TxOut option) \<Rightarrow> nat" where
  "count_p2sh_sigops tx spent =
     foldl (\<lambda>count i. case spent (previous_output i) of
         Some prevout \<Rightarrow> saturating_add count (p2sh_count_sigops prevout i) | None \<Rightarrow> count) 0 (tx_input tx)"

text \<open>\<open>Witness::last\<close> panics on a malformed buffer; the empty stack has no last element.\<close>

definition count_sigops_with_witness_program :: "witness \<Rightarrow> bytes \<Rightarrow> nat option" where
  "count_sigops_with_witness_program w program =
     (if is_p2wpkh program then Some 1
      else if is_p2wsh program
      then map_option (\<lambda>e. case e of Some s \<Rightarrow> count_sigops s | None \<Rightarrow> 0) (witness_last w)
      else Some 0)"

definition witness_count_sigops :: "TxOut \<Rightarrow> TxIn \<Rightarrow> nat option" where
  "witness_count_sigops prevout i =
     (if is_witness_program (script_pubkey prevout)
      then count_sigops_with_witness_program (txin_witness i) (script_pubkey prevout)
      else if is_p2sh (script_pubkey prevout) \<and> is_push_only (script_sig i)
      then (case last_pushdata (script_sig i) of
              Some push_bytes \<Rightarrow> count_sigops_with_witness_program (txin_witness i) push_bytes
            | None \<Rightarrow> Some 0)
      else Some 0)"

definition count_witness_sigops :: "'k Transaction \<Rightarrow> (OutPoint \<Rightarrow> TxOut option) \<Rightarrow> nat option" where
  "count_witness_sigops tx spent =
     foldl (\<lambda>count i. case spent (previous_output i) of
         Some prevout \<Rightarrow> Option.bind count (\<lambda>c. map_option (saturating_add c) (witness_count_sigops prevout i))
       | None \<Rightarrow> count) (Some 0) (tx_input tx)"

definition total_sigop_cost :: "'k Transaction \<Rightarrow> (OutPoint \<Rightarrow> TxOut option) \<Rightarrow> nat option" where
  "total_sigop_cost tx spent =
     (let cost = saturating_mul (count_p2pk_p2pkh_sigops tx) 4;
          cost = saturating_add cost (saturating_mul (count_p2sh_sigops tx spent) 4) in
      map_option (saturating_add cost) (count_witness_sigops tx spent))"

section \<open>Effective value and weight prediction\<close>

definition TXIN_BASE_WEIGHT :: weight where
  "TXIN_BASE_WEIGHT = of_nat (OUTPOINT_SIZE + SEQUENCE_SIZE) * WITNESS_SCALE_FACTOR"

definition result_ok :: "'e + 'a \<Rightarrow> 'a option" where
  "result_ok r = (case r of Inl _ \<Rightarrow> None | Inr x \<Rightarrow> Some x)"

definition effective_value :: "fee_rate \<Rightarrow> weight \<Rightarrow> u64 \<Rightarrow> int option" where
  "effective_value fee_rate satisfaction_weight value =
     Option.bind (checked_add satisfaction_weight TXIN_BASE_WEIGHT) (\<lambda>w.
     Option.bind (checked_mul_by_weight fee_rate w) (\<lambda>fee.
     Option.bind (result_ok (to_signed fee)) (\<lambda>signed_input_fee.
     Option.bind (result_ok (to_signed value)) (\<lambda>v. signed_checked_sub v signed_input_fee))))"

record prediction =
  script_size :: nat
  pred_witness_size :: nat

definition prediction_new :: "nat \<Rightarrow> nat list \<Rightarrow> prediction" where
  "prediction_new input_script_len witness_element_lengths =
     (let (count, total_size) = foldl (\<lambda>(count, total_size) elem_len.
            (count + 1, total_size + (elem_len + size_of_len elem_len))) (0, 0) witness_element_lengths in
      \<lparr> script_size = input_script_len + size_of_len input_script_len,
        pred_witness_size = (if count > 0 then total_size + size_of_len count else 0) \<rparr>)"

fun slice_total :: "nat \<Rightarrow> nat list \<Rightarrow> nat" where
  "slice_total total_size [] = total_size"
| "slice_total total_size (elem_len # ls) = slice_total (total_size + (elem_len + size_of_len elem_len)) ls"

definition prediction_from_slice :: "nat \<Rightarrow> nat list \<Rightarrow> prediction" where
  "prediction_from_slice input_script_len witness_element_lengths =
     \<lparr> script_size = input_script_len + size_of_len input_script_len,
       pred_witness_size = (if witness_element_lengths \<noteq> []
         then slice_total 0 witness_element_lengths + size_of_len (length witness_element_lengths) else 0) \<rparr>"

definition prediction_weight :: "prediction \<Rightarrow> nat" where
  "prediction_weight p = script_size p * 4 + pred_witness_size p"

text \<open>Debug builds panic when more than 62 bytes are to be ground.\<close>

definition ground_p2wpkh :: "nat \<Rightarrow> prediction option" where
  "ground_p2wpkh bytes_to_grind =
     (if 62 < bytes_to_grind then None else Some (prediction_from_slice 0 [10 + (62 - bytes_to_grind), 33]))"

definition ground_p2pkh_compressed :: "nat \<Rightarrow> prediction option" where
  "ground_p2pkh_compressed bytes_to_grind =
     (if 62 < bytes_to_grind then None
      else Some (prediction_from_slice (2 + 33 + (10 + (62 - bytes_to_grind))) []))"

definition predict_weight_internal :: "nat \<Rightarrow> nat \<Rightarrow> nat \<Rightarrow> nat \<Rightarrow> nat \<Rightarrow> weight" where
  "predict_weight_internal input_count partial_input_weight inputs_with_witnesses output_count output_scripts_size =
     (let input_weight = partial_input_weight + input_count * 4 * (32 + 4 + 4);
          output_size = 8 * output_count + output_scripts_size;
          non_input_size = 4 + size_of_len input_count + size_of_len output_count + output_size + 4 in
      of_nat (if inputs_with_witnesses = 0 then non_input_size * 4 + input_weight
        else non_input_size * 4 + input_weight + input_count - inputs_with_witnesses + 2))"

definition predict_weight :: "prediction list \<Rightarrow> nat list \<Rightarrow> weight" where
  "predict_weight inputs output_script_lens =
     (let (input_count, partial_input_weight, inputs_with_witnesses) =
            foldl (\<lambda>(count, partial, with_witnesses) p.
              (count + 1, partial + prediction_weight p,
               with_witnesses + (if pred_witness_size p > 0 then 1 else 0))) (0, 0, 0) inputs;
          (output_count, output_scripts_size) =
            foldl (\<lambda>(output_count, total_scripts_size) script_len.
              (output_count + 1, total_scripts_size + (script_len + size_of_len script_len))) (0, 0)
              output_script_lens in
      predict_weight_internal input_count partial_input_weight inputs_with_witnesses output_count
        output_scripts_size)"

fun slice_inputs :: "nat \<Rightarrow> nat \<Rightarrow> prediction list \<Rightarrow> nat \<times> nat" where
  "slice_inputs partial with_witnesses [] = (partial, with_witnesses)"
| "slice_inputs partial with_witnesses (p # ps) =
     slice_inputs (partial + prediction_weight p)
       (with_witnesses + (if pred_witness_size p > 0 then 1 else 0)) ps"

definition predict_weight_from_slices :: "prediction list \<Rightarrow> nat list \<Rightarrow> weight" where
  "predict_weight_from_slices inputs output_script_lens =
     (let (partial_input_weight, inputs_with_witnesses) = slice_inputs 0 0 inputs in
      predict_weight_internal (length inputs) partial_input_weight inputs_with_witnesses
        (length output_script_lens) (slice_total 0 output_script_lens))"

section \<open>Codecs of the parts\<close>

definition outpoint_ser :: "OutPoint \<Rightarrow> bytes" where
  "outpoint_ser p = txid p @ to_le_bytes (vout p)"

interpretation outpoint: canonical_codec outpoint_encode outpoint_decode "\<lambda>p. length (txid p) = 32" outpoint_ser
proof (rule canonical_codecI)
  fix r p r'
  show "outpoint_decode r = Inr (p, r') \<longleftrightarrow> length (txid p) = 32 \<and> r = outpoint_ser p @ r'"
    by (cases p) (auto simp: outpoint_decode_def outpoint_ser_def dbind_Inr_iff array_dec_iff base_dec_iff)
qed (simp add: outpoint_encode_def outpoint_ser_def)

text \<open>An input without its witness, which is written apart.\<close>

definition txin_base_wf :: "TxIn \<Rightarrow> bool" where
  "txin_base_wf i \<longleftrightarrow> length (txid (previous_output i)) = 32 \<and> bytes_wf (script_sig i)"

definition txin_wf :: "TxIn \<Rightarrow> bool" where
  "txin_wf i \<longleftrightarrow> txin_base_wf i \<and> txin_witness i = witness_new"

definition txin_ser :: "TxIn \<Rightarrow> bytes" where
  "txin_ser i = outpoint_ser (previous_output i) @ bytes_ser (script_sig i) @ to_le_bytes (sequence i)"

lemma txin_encode_wrote: "txin_base_wf i \<Longrightarrow> txin_encode i = wrote (txin_ser i)"
  by (simp add: txin_encode_def txin_ser_def txin_base_wf_def outpoint.enc_ser script_encode_def bytes_codec.enc_ser)

interpretation txin: canonical_codec txin_encode txin_decode txin_wf txin_ser
proof (rule canonical_codecI)
  fix r i r'
  show "txin_decode r = Inr (i, r') \<longleftrightarrow> txin_wf i \<and> r = txin_ser i @ r'"
    by (cases i) (auto simp: txin_decode_def txin_wf_def txin_base_wf_def txin_ser_def script_decode_def
        dbind_Inr_iff outpoint.dec_iff base_dec_iff)
qed (simp add: txin_wf_def txin_encode_wrote)

definition txout_wf :: "TxOut \<Rightarrow> bool" where
  "txout_wf x \<longleftrightarrow> bytes_wf (script_pubkey x)"

definition txout_ser :: "TxOut \<Rightarrow> bytes" where
  "txout_ser x = to_le_bytes (txout_value x) @ bytes_ser (script_pubkey x)"

interpretation txout: canonical_codec txout_encode txout_decode txout_wf txout_ser
proof (rule canonical_codecI)
  fix r x r'
  show "txout_decode r = Inr (x, r') \<longleftrightarrow> txout_wf x \<and> r = txout_ser x @ r'"
    by (cases x) (auto simp: txout_decode_def txout_wf_def txout_ser_def script_decode_def dbind_Inr_iff base_dec_iff)
qed (simp add: txout_encode_def txout_ser_def txout_wf_def script_encode_def bytes_codec.enc_ser)

interpretation vec_txin: canonical_codec "vec_encode txin_encode" "vec_decode txin_decode" "vec_wf txin_wf" "vec_ser txin_ser"
  by (rule txin.vec_canonical)

interpretation vec_txout: canonical_codec "vec_encode txout_encode" "vec_decode txout_decode"
  "vec_wf txout_wf" "vec_ser txout_ser"
  by (rule txout.vec_canonical)

section \<open>Witnesses apart from their inputs\<close>

abbreviation strip :: "TxIn \<Rightarrow> TxIn" where
  "strip i \<equiv> i \<lparr> txin_witness := witness_new \<rparr>"

abbreviation wser :: "TxIn \<Rightarrow> bytes" where
  "wser i \<equiv> vec_ser bytes_ser (witness_stack (txin_witness i))"

abbreviation wwf :: "TxIn \<Rightarrow> bool" where
  "wwf i \<equiv> witness_wf (txin_witness i)"

lemma witness_of_Nil: "witness_of [] = witness_new"
  by (simp add: witness_of_def witness_new_def elements_ser_def index_of_def)

lemma witness_new_wf [simp]: "witness_wf witness_new"
  using witness_wf_of [of "[]"] by (simp add: witness_of_Nil stack_wf_def elements_ser_def decodable_stack_def MAX_VEC_SIZE_def)

lemma witness_elements_0: "witness_wf w \<Longrightarrow> witness_elements w = 0 \<longleftrightarrow> w = witness_new"
  by (metis witness_wf_def witness_of_Nil witness_elements_of length_0_conv)

lemma txin_ser_strip [simp]: "txin_ser (strip i) = txin_ser i"
  by (simp add: txin_ser_def)

lemma vec_ser_strip [simp]: "vec_ser txin_ser (map strip js) = vec_ser txin_ser js"
  by (simp add: vec_ser_def comp_def)

lemma strip_id: "list_all txin_wf is \<Longrightarrow> map strip is = is"
  by (induction "is") (auto simp: txin_wf_def)

lemma strip_iff:
  "vec_wf txin_wf is \<and> map strip js = map strip is \<longleftrightarrow> vec_wf txin_base_wf js \<and> is = map strip js"
proof
  assume h: "vec_wf txin_wf is \<and> map strip js = map strip is"
  then have e: "is = map strip js" using strip_id by (simp add: vec_wf_def)
  have "list_all txin_wf (map strip js)" using h e by (simp add: vec_wf_def)
  then have "list_all txin_base_wf js" by (simp add: list_all_iff txin_wf_def txin_base_wf_def)
  with h e show "vec_wf txin_base_wf js \<and> is = map strip js" by (simp add: vec_wf_def)
next
  assume "vec_wf txin_base_wf js \<and> is = map strip js"
  then show "vec_wf txin_wf is \<and> map strip js = map strip is"
    by (auto simp: vec_wf_def list_all_iff txin_wf_def txin_base_wf_def)
qed

lemma unwitnessed_iff:
  "vec_wf txin_wf js \<longleftrightarrow> vec_wf txin_base_wf js \<and> list_all wwf js \<and> list_all witness_is_empty js"
  by (auto simp: vec_wf_def list_all_iff txin_wf_def witness_elements_0)

lemma decode_witnesses_iff:
  "decode_witnesses is r = Inr (js, r') \<longleftrightarrow>
     map strip js = map strip is \<and> list_all wwf js \<and> r = concat (map wser js) @ r'"
proof (induction "is" arbitrary: r js)
  case (Cons i "is")
  show ?case
  proof (cases js)
    case (Cons j ks)
    have "strip j = strip i \<Longrightarrow> i \<lparr> txin_witness := txin_witness j \<rparr> = j"
      by (cases i; cases j) auto
    then show ?thesis
      using Cons Cons.IH by (auto simp: dbind_Inr_iff witness_codec.dec_iff intro!: exI [of _ "txin_witness j"])
  qed (auto simp: dbind_Inr_iff)
qed auto

lemma segwit_part_iff:
  "decode_segwit_part flag is r = Inr (js, r') \<longleftrightarrow>
     (if flag AND FLAGS_SEGWIT \<noteq> 0
      then map strip js = map strip is \<and> list_all wwf js \<and> (js = [] \<or> \<not> list_all witness_is_empty js)
         \<and> r = concat (map wser js) @ r'
      else js = is \<and> r = r')"
proof (cases "flag AND FLAGS_SEGWIT \<noteq> 0")
  case True
  then have "decode_segwit_part flag is r = Inr (js, r') \<longleftrightarrow>
      decode_witnesses is r = Inr (js, r') \<and> (js = [] \<or> \<not> list_all witness_is_empty js)"
    unfolding decode_segwit_part_def if_P [OF True] dbind_Inr_iff if_dfail_iff dreturn_apply by auto
  then show ?thesis unfolding decode_witnesses_iff if_P [OF True] by blast
qed (auto simp: decode_segwit_part_def)

section \<open>The encoding of a transaction\<close>

abbreviation has_mweb :: "'k Transaction \<Rightarrow> bool" where
  "has_mweb tx \<equiv> mw_tx tx \<noteq> None \<or> is_hog_ex tx"

definition tx_wf :: "'k Transaction \<Rightarrow> bool" where
  "tx_wf tx \<longleftrightarrow> vec_wf txin_base_wf (tx_input tx) \<and> list_all wwf (tx_input tx) \<and> vec_wf txout_wf (tx_output tx)
     \<and> locktime_wf (lock_time tx)
     \<and> (case mw_tx tx of None \<Rightarrow> is_hog_ex tx \<longrightarrow> tx_output tx \<noteq> [] | Some m \<Rightarrow> mw_tx_wf m \<and> \<not> is_hog_ex tx)"

definition tx_flag :: "'k Transaction \<Rightarrow> u8" where
  "tx_flag tx =
     (if list_ex (\<lambda>i. \<not> witness_is_empty i) (tx_input tx) \<or> tx_input tx = [] \<and> \<not> has_mweb tx then 1 else 0)
     OR (if has_mweb tx then 8 else 0)"

definition mweb_ser :: "'k key_ops \<Rightarrow> u8 \<Rightarrow> 'k Transaction \<Rightarrow> bytes" where
  "mweb_ser K p tx = p # (case mw_tx tx of None \<Rightarrow> [] | Some m \<Rightarrow> mw_tx_ser K m)"

text \<open>The bytes of a transaction under a flag byte, and a presence byte for the extension-block part.\<close>

definition tx_wire :: "'k key_ops \<Rightarrow> u8 \<Rightarrow> u8 \<Rightarrow> 'k Transaction \<Rightarrow> bytes" where
  "tx_wire K flag p tx =
     to_le_bytes (version tx) @ (if flag = 0 then [] else [0, flag])
     @ vec_ser txin_ser (tx_input tx) @ vec_ser txout_ser (tx_output tx)
     @ (if flag AND 1 \<noteq> 0 then concat (map wser (tx_input tx)) else [])
     @ (if flag AND 8 \<noteq> 0 then mweb_ser K p tx else [])
     @ to_le_bytes (locktime_to_consensus (lock_time tx))"

definition tx_ser :: "'k key_ops \<Rightarrow> 'k Transaction \<Rightarrow> bytes" where
  "tx_ser K tx = tx_wire K (tx_flag tx) (if mw_tx tx = None then 0 else 1) tx"

text \<open>The other forms a reader accepts.\<close>

definition accepted_form :: "'k Transaction \<Rightarrow> u8 \<Rightarrow> u8 \<Rightarrow> bool" where
  "accepted_form tx flag p \<longleftrightarrow>
     (flag = tx_flag tx \<or> tx_input tx = [] \<and> has_mweb tx \<and> flag = 9) \<and> (p \<noteq> 0 \<longleftrightarrow> mw_tx tx \<noteq> None)"

lemma transaction_encode_wrote:
  fixes K :: "'k key_ops"
  assumes K: "key_laws K" and tx: "tx_wf tx"
  shows "transaction_encode K tx = wrote (tx_ser K tx)"
proof -
  have i: "vec_encode txin_encode (tx_input tx) = wrote (vec_ser txin_ser (tx_input tx))"
    using tx enc_list_wrote [of "tx_input tx" txin_encode txin_ser]
    by (auto simp: tx_wf_def vec_wf_def vec_encode_def vec_ser_def varint_encode_wrote list_all_iff txin_encode_wrote)
  have o: "vec_encode txout_encode (tx_output tx) = wrote (vec_ser txout_ser (tx_output tx))"
    using tx vec_txout.enc_ser by (simp add: tx_wf_def)
  have w: "enc_list (\<lambda>i. witness_encode (txin_witness i)) (tx_input tx) = wrote (concat (map wser (tx_input tx)))"
    using tx by (intro enc_list_wrote) (auto simp: tx_wf_def list_all_iff witness_codec.enc_ser)
  have m: "(case mw_tx tx of Some mw \<Rightarrow> enc_seq (emit_u8 1) (mw_tx_encode K mw) | None \<Rightarrow> emit_u8 0)
      = wrote (mweb_ser K (if mw_tx tx = None then 0 else 1) tx)"
    using tx codec.enc_ser [OF canonical_is_codec [OF mw_tx_codec [OF K]]]
    by (auto simp: tx_wf_def mweb_ser_def split: option.splits)
  show ?thesis
    unfolding transaction_encode_def Let_def i o w m tx_ser_def tx_wire_def tx_flag_def
    by (auto simp: locktime_encode_def FLAGS_SEGWIT_def FLAGS_MWEB_TX_def SEGWIT_MARKER_def)
qed

lemma mweb_part_iff:
  fixes K :: "'k key_ops"
  assumes K: "key_laws K"
  shows "decode_mweb_part K flag outs r = Inr (m, r') \<longleftrightarrow>
     (if flag AND FLAGS_MWEB_TX \<noteq> 0
      then (\<exists>p. (p \<noteq> 0 \<longleftrightarrow> fst m \<noteq> None)
         \<and> (case fst m of None \<Rightarrow> snd m \<and> outs \<noteq> [] | Some mw \<Rightarrow> mw_tx_wf mw \<and> \<not> snd m)
         \<and> r = p # (case fst m of None \<Rightarrow> [] | Some mw \<Rightarrow> mw_tx_ser K mw) @ r')
      else m = (None, False) \<and> r = r')"
proof (cases "flag AND FLAGS_MWEB_TX \<noteq> 0")
  case True
  have "(\<exists>p q. r = p # q \<and> (if p \<noteq> 0 then dmap (\<lambda>mw. (Some mw, False)) (mw_tx_decode K)
          else if outs = [] then dfail (ParseFailed ''HogEx transaction must have at least one output'')
          else dreturn (None, True)) q = Inr (m, r')) \<longleftrightarrow>
      (\<exists>p. (p \<noteq> 0 \<longleftrightarrow> fst m \<noteq> None)
         \<and> (case fst m of None \<Rightarrow> snd m \<and> outs \<noteq> [] | Some mw \<Rightarrow> mw_tx_wf mw \<and> \<not> snd m)
         \<and> r = p # (case fst m of None \<Rightarrow> [] | Some mw \<Rightarrow> mw_tx_ser K mw) @ r')"
    by (cases m) (auto simp: dmap_Inr_iff canonical_codec.dec_iff [OF mw_tx_codec [OF K]] split: option.splits if_splits)
  then show ?thesis
    unfolding decode_mweb_part_def if_P [OF True] dbind_Inr_iff base_dec_iff by simp
qed (auto simp: decode_mweb_part_def)

lemma flag_iff: "\<not> (flag AND (FLAGS_SEGWIT OR FLAGS_MWEB_TX) \<noteq> flag \<or> flag = 0) \<longleftrightarrow> flag = 1 \<or> flag = 8 \<or> flag = 9"
proof -
  have "list_all (\<lambda>f :: u8. (f AND 9 = f \<and> f \<noteq> 0) = (f = 1 \<or> f = 8 \<or> f = 9)) all_bytes" by code_simp
  from all_bytesI [OF this, of flag] show ?thesis by (simp add: FLAGS_SEGWIT_def FLAGS_MWEB_TX_def)
qed

text \<open>What is read after the flag, with the flag's bits as conditions.\<close>

lemma extended_body_iff:
  fixes K :: "'k key_ops"
  assumes K: "key_laws K"
  shows "dbind (vec_decode txin_decode) (\<lambda>input. dbind (vec_decode txout_decode) (\<lambda>output.
            dbind (decode_segwit_part flag input) (\<lambda>input.
            dbind (decode_mweb_part K flag output) (\<lambda>mweb.
            dbind locktime_decode (\<lambda>l.
              dreturn \<lparr> version = v, lock_time = l, tx_input = input, tx_output = output,
                        mw_tx = fst mweb, is_hog_ex = snd mweb \<rparr>))))) r = Inr (tx, r') \<longleftrightarrow>
     version tx = v \<and> tx_wf tx
     \<and> (if flag AND FLAGS_SEGWIT \<noteq> 0 then tx_input tx = [] \<or> \<not> list_all witness_is_empty (tx_input tx)
        else list_all witness_is_empty (tx_input tx))
     \<and> (if flag AND FLAGS_MWEB_TX \<noteq> 0 then has_mweb tx else \<not> has_mweb tx)
     \<and> (\<exists>p. (p \<noteq> 0 \<longleftrightarrow> mw_tx tx \<noteq> None) \<and>
          r = vec_ser txin_ser (tx_input tx) @ vec_ser txout_ser (tx_output tx)
             @ (if flag AND FLAGS_SEGWIT \<noteq> 0 then concat (map wser (tx_input tx)) else [])
             @ (if flag AND FLAGS_MWEB_TX \<noteq> 0 then mweb_ser K p tx else [])
             @ to_le_bytes (locktime_to_consensus (lock_time tx)) @ r')" (is "?L \<longleftrightarrow> ?R")
proof -
  let ?S = "flag AND FLAGS_SEGWIT \<noteq> 0" and ?M = "flag AND FLAGS_MWEB_TX \<noteq> 0"
  let ?js = "tx_input tx" and ?outs = "tx_output tx" and ?m = "(mw_tx tx, is_hog_ex tx)"
  have L: "?L \<longleftrightarrow> version tx = v \<and> (\<exists>r2 r3 r4. (\<exists>is. vec_wf txin_wf is
      \<and> decode_segwit_part flag is r2 = Inr (?js, r3) \<and> r = vec_ser txin_ser is @ vec_ser txout_ser ?outs @ r2)
      \<and> vec_wf txout_wf ?outs \<and> decode_mweb_part K flag ?outs r3 = Inr (?m, r4)
      \<and> locktime_wf (lock_time tx) \<and> r4 = to_le_bytes (locktime_to_consensus (lock_time tx)) @ r')"
    unfolding dbind_Inr_iff vec_txin.dec_iff vec_txout.dec_iff locktime_codec.dec_iff dreturn_apply
    by (cases tx, auto) blast
  have seg: "(\<exists>is. vec_wf txin_wf is \<and> decode_segwit_part flag is r2 = Inr (?js, r3) \<and> r = vec_ser txin_ser is @ X)
      \<longleftrightarrow> vec_wf txin_base_wf ?js \<and> list_all wwf ?js
        \<and> (if ?S then ?js = [] \<or> \<not> list_all witness_is_empty ?js else list_all witness_is_empty ?js)
        \<and> r2 = (if ?S then concat (map wser ?js) else []) @ r3 \<and> r = vec_ser txin_ser ?js @ X" for r2 r3 X
  proof (cases ?S)
    case True
    have "(\<exists>is. vec_wf txin_wf is \<and> decode_segwit_part flag is r2 = Inr (?js, r3) \<and> r = vec_ser txin_ser is @ X)
      \<longleftrightarrow> (\<exists>is. (vec_wf txin_wf is \<and> map strip ?js = map strip is) \<and> list_all wwf ?js
        \<and> (?js = [] \<or> \<not> list_all witness_is_empty ?js) \<and> r2 = concat (map wser ?js) @ r3
        \<and> r = vec_ser txin_ser is @ X)"
      unfolding segwit_part_iff if_P [OF True] by blast
    then show ?thesis unfolding strip_iff if_P [OF True] by auto
  next
    case False
    then show ?thesis unfolding segwit_part_iff if_not_P [OF False] by (auto simp: unwitnessed_iff)
  qed
  have mw: "decode_mweb_part K flag ?outs r3 = Inr (?m, r4) \<longleftrightarrow>
      (case mw_tx tx of None \<Rightarrow> is_hog_ex tx \<longrightarrow> ?outs \<noteq> [] | Some m \<Rightarrow> mw_tx_wf m \<and> \<not> is_hog_ex tx)
      \<and> (if ?M then has_mweb tx else \<not> has_mweb tx)
      \<and> (\<exists>p. (p \<noteq> 0 \<longleftrightarrow> mw_tx tx \<noteq> None) \<and> r3 = (if ?M then mweb_ser K p tx else []) @ r4)" for r3 r4
  proof (cases ?M)
    case True
    then show ?thesis unfolding mweb_part_iff [OF K] if_P [OF True] by (auto simp: mweb_ser_def split: option.splits)
  next
    case False
    have "\<exists>p :: u8. p \<noteq> 0 \<longleftrightarrow> mw_tx tx \<noteq> None" by (cases "mw_tx tx = None") (auto intro: exI [of _ 1])
    then show ?thesis
      unfolding mweb_part_iff [OF K] if_not_P [OF False] by (auto split: option.splits)
  qed
  show ?thesis unfolding L seg mw tx_wf_def by auto
qed

lemma not_all_empty: "\<not> list_all witness_is_empty js \<longleftrightarrow> list_ex (\<lambda>i. \<not> witness_is_empty i) js"
  by (induction js) auto

lemma form_iff:
  "(flag = 1 \<or> flag = 8 \<or> flag = 9)
     \<and> (if flag AND FLAGS_SEGWIT \<noteq> 0 then tx_input tx = [] \<or> \<not> list_all witness_is_empty (tx_input tx)
        else list_all witness_is_empty (tx_input tx))
     \<and> (if flag AND FLAGS_MWEB_TX \<noteq> 0 then has_mweb tx else \<not> has_mweb tx) \<longleftrightarrow>
   flag \<noteq> 0 \<and> (flag = tx_flag tx \<or> tx_input tx = [] \<and> has_mweb tx \<and> flag = 9)"
  unfolding tx_flag_def not_all_empty [symmetric]
  by (cases "list_all witness_is_empty (tx_input tx)"; cases "has_mweb tx"; cases "tx_input tx = []")
    (auto simp: FLAGS_SEGWIT_def FLAGS_MWEB_TX_def)

lemma decode_extended_iff:
  fixes K :: "'k key_ops"
  assumes K: "key_laws K"
  shows "decode_extended K v r = Inr (tx, r') \<longleftrightarrow>
     version tx = v \<and> tx_wf tx \<and> (\<exists>flag p. flag \<noteq> 0 \<and> accepted_form tx flag p
       \<and> to_le_bytes v @ 0 # r = tx_wire K flag p tx @ r')"
proof -
  let ?body = "\<lambda>flag p. vec_ser txin_ser (tx_input tx) @ vec_ser txout_ser (tx_output tx)
             @ (if flag AND FLAGS_SEGWIT \<noteq> 0 then concat (map wser (tx_input tx)) else [])
             @ (if flag AND FLAGS_MWEB_TX \<noteq> 0 then mweb_ser K p tx else [])
             @ to_le_bytes (locktime_to_consensus (lock_time tx)) @ r'"
  have "decode_extended K v r = Inr (tx, r') \<longleftrightarrow> (\<exists>flag q. r = flag # q \<and> (flag = 1 \<or> flag = 8 \<or> flag = 9)
      \<and> version tx = v \<and> tx_wf tx
      \<and> (if flag AND FLAGS_SEGWIT \<noteq> 0 then tx_input tx = [] \<or> \<not> list_all witness_is_empty (tx_input tx)
        else list_all witness_is_empty (tx_input tx))
     \<and> (if flag AND FLAGS_MWEB_TX \<noteq> 0 then has_mweb tx else \<not> has_mweb tx)
     \<and> (\<exists>p. (p \<noteq> 0 \<longleftrightarrow> mw_tx tx \<noteq> None) \<and> q = ?body flag p))"
    unfolding decode_extended_def dbind_Inr_iff [of read_u8] base_dec_iff if_dfail_iff flag_iff
      extended_body_iff [OF K] by auto
  also have "\<dots> \<longleftrightarrow> version tx = v \<and> tx_wf tx \<and> (\<exists>flag p. (flag \<noteq> 0
      \<and> (flag = tx_flag tx \<or> tx_input tx = [] \<and> has_mweb tx \<and> flag = 9))
      \<and> (p \<noteq> 0 \<longleftrightarrow> mw_tx tx \<noteq> None) \<and> r = flag # ?body flag p)"
    unfolding form_iff [symmetric] by blast
  also have "\<dots> \<longleftrightarrow> version tx = v \<and> tx_wf tx \<and> (\<exists>flag p. flag \<noteq> 0 \<and> accepted_form tx flag p
       \<and> to_le_bytes v @ 0 # r = tx_wire K flag p tx @ r')"
  proof -
    have "to_le_bytes v @ 0 # r = tx_wire K flag p tx @ r' \<longleftrightarrow> r = flag # ?body flag p"
      if "version tx = v" "flag \<noteq> 0" for flag p
      using that by (simp add: tx_wire_def FLAGS_SEGWIT_def FLAGS_MWEB_TX_def)
    then show ?thesis unfolding accepted_form_def by blast
  qed
  finally show ?thesis .
qed

lemma vec_ser_Nil: "vec_ser s [] = [0]"
proof -
  have "to_le_bytes (0 :: u8) = [0]" by code_simp
  then show ?thesis by (simp add: vec_ser_def varint_ser_def)
qed

text \<open>The two forms: without a flag, and after the marker.\<close>

definition decode_plain :: "'k Transaction \<Rightarrow> bytes \<Rightarrow> bytes \<Rightarrow> bool" where
  "decode_plain tx r r' \<longleftrightarrow> (\<exists>v is. is \<noteq> [] \<and> vec_wf txin_wf is \<and> (\<exists>outs l. vec_wf txout_wf outs \<and> locktime_wf l
     \<and> r = to_le_bytes v @ vec_ser txin_ser is @ vec_ser txout_ser outs @ to_le_bytes (locktime_to_consensus l) @ r'
     \<and> tx = \<lparr> version = v, lock_time = l, tx_input = is, tx_output = outs, mw_tx = None, is_hog_ex = False \<rparr>))"

lemma decode_plain_iff:
  "decode_plain tx r r' \<longleftrightarrow> tx_wf tx \<and> (\<exists>p. accepted_form tx 0 p \<and> r = tx_wire K 0 p tx @ r')"
proof -
  have "0 = tx_flag tx \<longleftrightarrow> list_all witness_is_empty (tx_input tx) \<and> tx_input tx \<noteq> [] \<and> \<not> has_mweb tx"
    unfolding tx_flag_def not_all_empty [symmetric] by auto
  then show ?thesis unfolding decode_plain_def accepted_form_def unwitnessed_iff tx_wf_def
    by (cases tx) (auto simp: tx_wire_def)
qed

lemma transaction_decode_forms:
  "transaction_decode K r = Inr (tx, r') \<longleftrightarrow>
     (\<exists>v q. r = to_le_bytes v @ 0 # q \<and> decode_extended K v q = Inr (tx, r')) \<or> decode_plain tx r r'"
    (is "_ \<longleftrightarrow> ?E \<or> _")
proof
  assume "transaction_decode K r = Inr (tx, r')"
  then obtain v "is" q where d: "r = to_le_bytes v @ vec_ser txin_ser is @ q" "vec_wf txin_wf is"
    "(if is = [] then decode_extended K v else dbind (vec_decode txout_decode) (\<lambda>output. dbind locktime_decode (\<lambda>l.
        dreturn \<lparr> version = v, lock_time = l, tx_input = is, tx_output = output, mw_tx = None, is_hog_ex = False \<rparr>))) q
      = Inr (tx, r')"
    unfolding transaction_decode_def dbind_Inr_iff [of read_int] dbind_Inr_iff [of "vec_decode txin_decode"]
      vec_txin.dec_iff base_dec_iff by blast
  show "?E \<or> decode_plain tx r r'"
  proof (cases "is = []")
    case True
    with d show ?thesis by (auto simp: vec_ser_Nil)
  next
    case False
    with d have "decode_plain tx r r'"
      by (auto simp: decode_plain_def dbind_Inr_iff vec_txout.dec_iff locktime_codec.dec_iff)
    then show ?thesis ..
  qed
next
  assume "?E \<or> decode_plain tx r r'"
  then show "transaction_decode K r = Inr (tx, r')"
  proof
    assume ?E
    then obtain v q where "r = to_le_bytes v @ vec_ser txin_ser [] @ q" "decode_extended K v q = Inr (tx, r')"
      by (auto simp: vec_ser_Nil)
    then show ?thesis
      unfolding transaction_decode_def by (simp add: dbind_Inr u32_codec.dec_ser vec_txin.dec_ser vec_wf_def)
  next
    assume "decode_plain tx r r'"
    then show ?thesis
      unfolding transaction_decode_def decode_plain_def
      by (auto simp: dbind_Inr u32_codec.dec_ser vec_txin.dec_ser vec_txout.dec_ser locktime_codec.dec_ser)
  qed
qed

lemma transaction_decode_iff:
  fixes K :: "'k key_ops"
  assumes K: "key_laws K"
  shows "transaction_decode K r = Inr (tx, r') \<longleftrightarrow>
     tx_wf tx \<and> (\<exists>flag p. accepted_form tx flag p \<and> r = tx_wire K flag p tx @ r')"
proof -
  have "\<exists>q. tx_wire K flag p tx @ r' = to_le_bytes (version tx) @ 0 # q" if "flag \<noteq> 0" for flag p
    using that by (simp add: tx_wire_def)
  then have "(\<exists>v q. r = to_le_bytes v @ 0 # q \<and> decode_extended K v q = Inr (tx, r')) \<longleftrightarrow>
      tx_wf tx \<and> (\<exists>flag p. flag \<noteq> 0 \<and> accepted_form tx flag p \<and> r = tx_wire K flag p tx @ r')"
    unfolding decode_extended_iff [OF K] by metis
  then show ?thesis
    unfolding transaction_decode_forms decode_plain_iff [of tx r r' K] by (metis (full_types))
qed

lemma transaction_codec:
  fixes K :: "'k key_ops"
  assumes K: "key_laws K"
  shows "codec (transaction_encode K) (transaction_decode K) tx_wf (tx_ser K)"
proof
  fix tx :: "'k Transaction" and r
  assume tx: "tx_wf tx"
  show "transaction_encode K tx = wrote (tx_ser K tx)" by (rule transaction_encode_wrote [OF K tx])
  have "accepted_form tx (tx_flag tx) (if mw_tx tx = None then 0 else 1)" by (simp add: accepted_form_def)
  then show "transaction_decode K (tx_ser K tx @ r) = Inr (tx, r)"
    unfolding transaction_decode_iff [OF K] tx_ser_def using tx by blast
qed

section \<open>Sizes\<close>

lemma length_vec_ser: "length (vec_ser s xs) = size_of_len (length xs) + sum_list (map (\<lambda>x. length (s x)) xs)"
  by (simp add: vec_ser_def length_varint_ser length_concat comp_def)

lemma length_txin_ser: "txin_base_wf i \<Longrightarrow> length (txin_ser i) = txin_base_size i"
  by (simp add: txin_ser_def outpoint_ser_def txin_base_wf_def txin_base_size_def OUTPOINT_SIZE_def SEQUENCE_SIZE_def
      length_bytes_ser length_to_le_bytes)

lemma length_txout_ser: "length (txout_ser x) = txout_size x"
  by (simp add: txout_ser_def txout_size_def size_from_script_pubkey_def AMOUNT_BYTES_def
      length_bytes_ser length_to_le_bytes)

lemma witness_size_wf: "witness_wf w \<Longrightarrow> witness_size w = Some (length (vec_ser bytes_ser (witness_stack w)))"
  by (metis witness_wf_def decodable_stack_wf witness_size_eq)

lemma sum_sizes_Some: "(\<And>x. x \<in> set xs \<Longrightarrow> f x = Some (g x)) \<Longrightarrow> sum_sizes f xs = Some (sum_list (map g xs))"
  by (induction xs) auto

lemma length_inputs:
  "vec_wf txin_base_wf is \<Longrightarrow> length (vec_ser txin_ser is) = size_of_len (length is) + sum_list (map txin_base_size is)"
proof -
  assume "vec_wf txin_base_wf is"
  then have "map (\<lambda>i. length (txin_ser i)) is = map txin_base_size is"
    by (auto simp: vec_wf_def list_all_iff length_txin_ser)
  then show ?thesis by (simp only: length_vec_ser)
qed

definition mweb_bytes :: "'k key_ops \<Rightarrow> 'k Transaction \<Rightarrow> nat" where
  "mweb_bytes K tx = (if has_mweb tx
     then length (mweb_ser K 0 tx) + (if uses_segwit_serialization tx then 0 else 2) else 0)"

lemma uses_segwit_iff:
  "uses_segwit_serialization tx \<longleftrightarrow> list_ex (\<lambda>i. \<not> witness_is_empty i) (tx_input tx) \<or> tx_input tx = []"
  by (simp add: uses_segwit_serialization_def)

lemma total_size_eq:
  assumes tx: "tx_wf tx"
  shows "tx_total_size tx = Some (tx_base_size tx + (if uses_segwit_serialization tx
     then 2 + sum_list (map (\<lambda>i. length (wser i)) (tx_input tx)) else 0))"
proof -
  have "sum_sizes (\<lambda>i. if uses_segwit_serialization tx then txin_total_size i else Some (txin_base_size i)) (tx_input tx)
      = Some (sum_list (map (\<lambda>i. txin_base_size i + (if uses_segwit_serialization tx then length (wser i) else 0)) (tx_input tx)))"
    using tx by (intro sum_sizes_Some) (auto simp: tx_wf_def list_all_iff txin_total_size_def witness_size_wf)
  then show ?thesis by (simp add: tx_total_size_def tx_base_size_def sum_list_addf)
qed

lemma length_tx_ser:
  assumes tx: "tx_wf tx"
  shows "tx_total_size tx = Some (length (tx_ser K tx) - mweb_bytes K tx)" and "mweb_bytes K tx \<le> length (tx_ser K tx)"
proof -
  let ?w = "sum_list (map (\<lambda>i. length (wser i)) (tx_input tx))"
  have i: "length (vec_ser txin_ser (tx_input tx)) + length (vec_ser txout_ser (tx_output tx)) + 8 = tx_base_size tx"
    using tx by (simp add: tx_wf_def length_inputs length_vec_ser [of txout_ser] length_txout_ser tx_base_size_def
        LOCKTIME_SIZE_def)
  have "length (tx_ser K tx) = tx_base_size tx
      + (if uses_segwit_serialization tx then 2 + ?w else 0) + mweb_bytes K tx"
    using i unfolding tx_ser_def tx_wire_def mweb_bytes_def tx_flag_def uses_segwit_iff
    by (auto simp: length_to_le_bytes length_concat comp_def mweb_ser_def)
  then show "tx_total_size tx = Some (length (tx_ser K tx) - mweb_bytes K tx)" and "mweb_bytes K tx \<le> length (tx_ser K tx)"
    by (simp_all add: total_size_eq [OF tx])
qed

section \<open>Weight prediction\<close>

lemma slice_total_eq: "slice_total n ls = n + sum_list (map (\<lambda>l. l + size_of_len l) ls)"
  by (induction ls arbitrary: n) simp_all

lemma count_fold_eq:
  "foldl (\<lambda>(count, total) l. (count + 1, total + (l + size_of_len l))) (c, t) ls =
     (c + length ls, t + sum_list (map (\<lambda>l. l + size_of_len l) ls))"
  by (induction ls arbitrary: c t) simp_all

lemma prediction_new_slice: "prediction_new n ls = prediction_from_slice n ls"
  unfolding prediction_new_def prediction_from_slice_def slice_total_eq count_fold_eq by simp

abbreviation with_witness :: "prediction list \<Rightarrow> nat" where
  "with_witness ps \<equiv> length (filter (\<lambda>p. pred_witness_size p > 0) ps)"

lemma inputs_fold_eq:
  "foldl (\<lambda>(count, partial, with_witnesses) p. (count + 1, partial + prediction_weight p,
       with_witnesses + (if pred_witness_size p > 0 then 1 else 0))) (c, q, w) ps =
     (c + length ps, q + sum_list (map prediction_weight ps), w + with_witness ps)"
  by (induction ps arbitrary: c q w) simp_all

lemma slice_inputs_eq: "slice_inputs q w ps = (q + sum_list (map prediction_weight ps), w + with_witness ps)"
  by (induction ps arbitrary: q w) simp_all

lemma predict_weight_eq:
  "predict_weight ps ls = predict_weight_internal (length ps) (sum_list (map prediction_weight ps)) (with_witness ps)
     (length ls) (sum_list (map (\<lambda>l. l + size_of_len l) ls))"
  unfolding predict_weight_def inputs_fold_eq count_fold_eq by simp

definition predicted :: "TxIn \<Rightarrow> prediction" where
  "predicted i = prediction_new (length (script_sig i)) (map length (witness_stack (txin_witness i)))"

lemma predicted_weight:
  "prediction_weight (predicted i) + (if pred_witness_size (predicted i) > 0 then 0 else 1) + 160
     = 4 * txin_base_size i + length (wser i)"
  "pred_witness_size (predicted i) > 0 \<longleftrightarrow> witness_stack (txin_witness i) \<noteq> []"
proof -
  let ?s = "witness_stack (txin_witness i)"
  have b: "sum_list (map ((\<lambda>l. l + size_of_len l) \<circ> length) ?s) = sum_list (map (\<lambda>e. length (bytes_ser e)) ?s)"
    by (simp add: length_bytes_ser comp_def add.commute)
  have "script_size (predicted i) + 40 = txin_base_size i"
    by (simp add: predicted_def prediction_new_slice prediction_from_slice_def txin_base_size_def OUTPOINT_SIZE_def
        SEQUENCE_SIZE_def)
  moreover have w: "pred_witness_size (predicted i) = (if ?s = [] then 0 else length (wser i))"
    unfolding predicted_def prediction_new_slice prediction_from_slice_def length_vec_ser b [symmetric]
    by (simp add: slice_total_eq b comp_def)
  moreover have "0 < length (wser i)" by (simp add: length_vec_ser varint_size_def)
  moreover have "?s = [] \<Longrightarrow> length (wser i) = 1" by (simp add: vec_ser_Nil)
  ultimately show "prediction_weight (predicted i) + (if pred_witness_size (predicted i) > 0 then 0 else 1) + 160
     = 4 * txin_base_size i + length (wser i)"
    by (auto simp: prediction_weight_def)
  show "pred_witness_size (predicted i) > 0 \<longleftrightarrow> ?s \<noteq> []"
    unfolding w using \<open>0 < length (wser i)\<close> by simp
qed

lemma predicted_sum:
  "sum_list (map (\<lambda>i. prediction_weight (predicted i)) is) + length is + length is * 160
     = 4 * sum_list (map txin_base_size is) + sum_list (map (\<lambda>i. length (wser i)) is) + with_witness (map predicted is)"
proof (induction "is")
  case (Cons i "is")
  then show ?case using predicted_weight(1) [of i] by (cases "pred_witness_size (predicted i) > 0") simp_all
qed simp

lemma witness_elements_wf: "witness_wf w \<Longrightarrow> witness_elements w = length (witness_stack w)"
  by (metis witness_wf_def witness_elements_of)

lemma with_witness_0: "with_witness ps = 0 \<longleftrightarrow> list_all (\<lambda>p. pred_witness_size p = 0) ps"
  by (induction ps) auto

lemma with_witness_predicted:
  assumes "list_all wwf is"
  shows "with_witness (map predicted is) = 0 \<longleftrightarrow> \<not> list_ex (\<lambda>i. \<not> witness_is_empty i) is"
proof -
  have "pred_witness_size (predicted i) = 0 \<longleftrightarrow> witness_is_empty i" if "wwf i" for i
    using predicted_weight(2) [of i] that by (auto simp: witness_elements_wf)
  with assms show ?thesis unfolding with_witness_0 not_all_empty [symmetric] by (auto simp: list_all_iff)
qed

lemma wser_all_empty:
  "with_witness (map predicted is) = 0 \<Longrightarrow> sum_list (map (\<lambda>i. length (wser i)) is) = length is"
  unfolding with_witness_0
proof (induction "is")
  case (Cons i "is")
  then show ?case using predicted_weight(2) [of i] by (simp add: vec_ser_Nil)
qed simp

lemma txout_sizes:
  "sum_list (map txout_size os) = 8 * length os
     + sum_list (map (\<lambda>x. length (script_pubkey x) + size_of_len (length (script_pubkey x))) os)"
  by (induction os) (simp_all add: txout_size_def size_from_script_pubkey_def AMOUNT_BYTES_def)

lemma tx_weight_predicted:
  assumes tx: "tx_wf tx"
  shows "tx_weight tx = Some (predict_weight (map predicted (tx_input tx)) (script_pubkey_lens tx)
     + (if tx_input tx = [] then 2 else 0))"
proof -
  let ?i = "tx_input tx" and ?o = "tx_output tx"
  let ?k = "with_witness (map predicted ?i)" and ?w = "sum_list (map (\<lambda>i. length (wser i)) ?i)"
  let ?p = "sum_list (map (\<lambda>i. prediction_weight (predicted i)) ?i)"
  let ?n = "4 + size_of_len (length ?i) + size_of_len (length ?o)
      + (8 * length ?o + sum_list (map (\<lambda>x. length (script_pubkey x) + size_of_len (length (script_pubkey x))) ?o)) + 4"
  have k: "?k \<le> length ?i" by (metis length_filter_le length_map)
  have k0: "?k = 0 \<longleftrightarrow> \<not> list_ex (\<lambda>i. \<not> witness_is_empty i) ?i"
    using tx by (intro with_witness_predicted) (simp add: tx_wf_def)
  have u: "uses_segwit_serialization tx \<longleftrightarrow> ?k \<noteq> 0 \<or> ?i = []" unfolding uses_segwit_iff k0 by blast
  have b: "tx_base_size tx = ?n + sum_list (map txin_base_size ?i)"
    by (simp add: tx_base_size_def LOCKTIME_SIZE_def txout_sizes)
  have p: "predict_weight (map predicted ?i) (script_pubkey_lens tx) =
      of_nat (if ?k = 0 then ?n * 4 + (?p + length ?i * 4 * 40) else ?n * 4 + (?p + length ?i * 4 * 40) + length ?i - ?k + 2)"
    by (simp add: predict_weight_eq predict_weight_internal_def script_pubkey_lens_def comp_def Let_def)
  have eq: "tx_base_size tx * 3 + (tx_base_size tx + (if uses_segwit_serialization tx then 2 + ?w else 0)) =
      (if ?k = 0 then ?n * 4 + (?p + length ?i * 4 * 40) else ?n * 4 + (?p + length ?i * 4 * 40) + length ?i - ?k + 2)
      + (if ?i = [] then 2 else 0)"
    using k predicted_sum [of ?i] wser_all_empty [of ?i] unfolding u b by (cases "?k = 0"; cases "?i = []") simp_all
  have c: "of_nat n + (if c then 2 else 0) = (of_nat (n + (if c then 2 else 0)) :: u64)" for n c by simp
  show ?thesis
    unfolding tx_weight_def total_size_eq [OF tx] p c by (simp only: option.map from_wu_usize_def eq)
qed

section \<open>Signature operations\<close>

lemma sat_add_min: "saturating_add (min a USIZE_MAX) b = min (a + b) USIZE_MAX"
  and sat_add_min2: "saturating_add (min a USIZE_MAX) (min b USIZE_MAX) = min (a + b) USIZE_MAX"
  and sat_mul_min: "saturating_mul (min a USIZE_MAX) 4 = min (a * 4) USIZE_MAX"
  by (simp_all add: saturating_add_def saturating_mul_def USIZE_MAX_def)

lemma sat_fold:
  "foldl (\<lambda>count x. saturating_add count (f x)) (min a USIZE_MAX) xs = min (a + sum_list (map f xs)) USIZE_MAX"
  by (induction xs arbitrary: a) (simp_all add: sat_add_min add.assoc)

text \<open>What each input costs, from the stack of its witness and the output it spends, without saturation.\<close>

definition p2sh_sigops :: "(OutPoint \<Rightarrow> TxOut option) \<Rightarrow> TxIn \<Rightarrow> nat" where
  "p2sh_sigops spent i = (case spent (previous_output i) of None \<Rightarrow> 0
     | Some prevout \<Rightarrow> if is_p2sh (script_pubkey prevout)
         then (case last_pushdata (script_sig i) of None \<Rightarrow> 0 | Some redeem \<Rightarrow> count_sigops redeem) else 0)"

definition program_sigops :: "bytes list \<Rightarrow> bytes \<Rightarrow> nat" where
  "program_sigops stack program =
     (if is_p2wpkh program then 1
      else if is_p2wsh program \<and> stack \<noteq> [] then count_sigops (last stack) else 0)"

definition witness_sigops :: "(OutPoint \<Rightarrow> TxOut option) \<Rightarrow> TxIn \<Rightarrow> nat" where
  "witness_sigops spent i = (case spent (previous_output i) of None \<Rightarrow> 0
     | Some prevout \<Rightarrow>
        let stack = witness_stack (txin_witness i) in
        if is_witness_program (script_pubkey prevout) then program_sigops stack (script_pubkey prevout)
        else if is_p2sh (script_pubkey prevout) \<and> is_push_only (script_sig i)
        then (case last_pushdata (script_sig i) of None \<Rightarrow> 0 | Some redeem \<Rightarrow> program_sigops stack redeem)
        else 0)"

lemma p2sh_fold:
  "foldl (\<lambda>count i. case spent (previous_output i) of
       Some prevout \<Rightarrow> saturating_add count (p2sh_count_sigops prevout i) | None \<Rightarrow> count) (min a USIZE_MAX) is
     = min (a + sum_list (map (p2sh_sigops spent) is)) USIZE_MAX"
proof (induction "is" arbitrary: a)
  case (Cons i "is")
  have "(case spent (previous_output i) of
      Some prevout \<Rightarrow> saturating_add (min a USIZE_MAX) (p2sh_count_sigops prevout i) | None \<Rightarrow> min a USIZE_MAX)
      = min (a + p2sh_sigops spent i) USIZE_MAX"
    by (auto simp: p2sh_count_sigops_def p2sh_sigops_def saturating_add_def split: option.splits)
  then show ?case using Cons.IH [of "a + p2sh_sigops spent i"] by (simp add: add.assoc)
qed simp

lemma witness_last_wf:
  assumes "witness_wf w"
  shows "witness_last w = Some (if witness_stack w = [] then None else Some (last (witness_stack w)))"
proof -
  have w: "w = witness_of (witness_stack w)" "stack_wf (witness_stack w)"
    using assms decodable_stack_wf by (auto simp: witness_wf_def)
  show ?thesis by (subst w(1)) (use w(2) in \<open>simp add: witness_from_end_eq\<close>)
qed

lemma program_sigops_eq:
  "witness_wf w \<Longrightarrow> count_sigops_with_witness_program w program = Some (program_sigops (witness_stack w) program)"
  by (auto simp: count_sigops_with_witness_program_def program_sigops_def witness_last_wf)

lemma witness_fold:
  "list_all wwf is \<Longrightarrow>
   foldl (\<lambda>count i. case spent (previous_output i) of
       Some prevout \<Rightarrow> Option.bind count (\<lambda>c. map_option (saturating_add c) (witness_count_sigops prevout i))
     | None \<Rightarrow> count) (Some (min a USIZE_MAX)) is
     = Some (min (a + sum_list (map (witness_sigops spent) is)) USIZE_MAX)"
proof (induction "is" arbitrary: a)
  case (Cons i "is")
  have "(case spent (previous_output i) of Some prevout \<Rightarrow>
        Option.bind (Some (min a USIZE_MAX)) (\<lambda>c. map_option (saturating_add c) (witness_count_sigops prevout i))
      | None \<Rightarrow> Some (min a USIZE_MAX)) = Some (min (a + witness_sigops spent i) USIZE_MAX)"
    using Cons.prems by (auto simp: witness_count_sigops_def witness_sigops_def program_sigops_eq sat_add_min Let_def
        split: option.splits)
  then show ?case using Cons.IH [of "a + witness_sigops spent i"] Cons.prems by (simp add: add.assoc)
qed simp

section \<open>Identifiers\<close>

definition base_ser :: "'k Transaction \<Rightarrow> bytes" where
  "base_ser tx = to_le_bytes (version tx) @ vec_ser txin_ser (tx_input tx) @ vec_ser txout_ser (tx_output tx)
     @ to_le_bytes (locktime_to_consensus (lock_time tx))"

lemma hash_encoded_wrote: "hash_encoded (wrote b) = Some (sha256d_hash b)"
  by (simp add: hash_encoded_def wrote_def)

lemma compute_txid_total: "compute_txid tx = Some (sha256d_hash (base_ser tx))"
proof -
  have i: "enc_list txin_encode is = wrote (concat (map txin_ser is))" for "is"
    by (rule enc_list_wrote) (simp add: txin_encode_def txin_ser_def outpoint_encode_def outpoint_ser_def script_encode_def
        consensus_encode_with_size_def varint_encode_wrote bytes_ser_def)
  have o: "enc_list txout_encode os = wrote (concat (map txout_ser os))" for os
    by (rule enc_list_wrote) (simp add: txout_encode_def txout_ser_def script_encode_def
        consensus_encode_with_size_def varint_encode_wrote bytes_ser_def)
  show ?thesis
    by (simp add: compute_txid_def base_ser_def vec_encode_def vec_ser_def varint_encode_wrote i o locktime_encode_def
        hash_encoded_wrote)
qed

lemma length_base_ser: "tx_wf tx \<Longrightarrow> length (base_ser tx) = tx_base_size tx"
  by (simp add: base_ser_def tx_wf_def length_inputs length_vec_ser [of txout_ser] length_txout_ser
      tx_base_size_def LOCKTIME_SIZE_def length_to_le_bytes)

lemma compute_wtxid_eq: "key_laws K \<Longrightarrow> tx_wf tx \<Longrightarrow> compute_wtxid K tx = Some (sha256d_hash (tx_ser K tx))"
  by (simp add: compute_wtxid_def transaction_encode_wrote hash_encoded_wrote)

lemma strip_wf: "vec_wf txin_base_wf is \<Longrightarrow> vec_wf txin_wf (map strip is)"
  by (auto simp: vec_wf_def list_all_iff txin_wf_def txin_base_wf_def)

lemma base_ser_inject:
  assumes "tx_wf a" and "tx_wf b"
  shows "base_ser a = base_ser b \<longleftrightarrow> version a = version b \<and> lock_time a = lock_time b
     \<and> map strip (tx_input a) = map strip (tx_input b) \<and> tx_output a = tx_output b"
proof
  assume e: "base_ser a = base_ser b"
  have v: "version a = version b" and e1: "vec_ser txin_ser (map strip (tx_input a)) @ vec_ser txout_ser (tx_output a)
        @ to_le_bytes (locktime_to_consensus (lock_time a))
      = vec_ser txin_ser (map strip (tx_input b)) @ vec_ser txout_ser (tx_output b)
        @ to_le_bytes (locktime_to_consensus (lock_time b))"
    using u32_codec.ser_prefix_free [where x = "version a" and y = "version b"] e by (auto simp: base_ser_def)
  have i: "map strip (tx_input a) = map strip (tx_input b)"
    and e2: "vec_ser txout_ser (tx_output a) @ to_le_bytes (locktime_to_consensus (lock_time a))
      = vec_ser txout_ser (tx_output b) @ to_le_bytes (locktime_to_consensus (lock_time b))"
    using vec_txin.ser_prefix_free [OF strip_wf strip_wf e1] assms by (simp_all add: tx_wf_def)
  have "tx_output a = tx_output b" "lock_time a = lock_time b"
    using vec_txout.ser_prefix_free [OF _ _ e2] locktime_codec.ser_inject assms by (auto simp: tx_wf_def)
  with v i show "version a = version b \<and> lock_time a = lock_time b
     \<and> map strip (tx_input a) = map strip (tx_input b) \<and> tx_output a = tx_output b" by blast
next
  assume "version a = version b \<and> lock_time a = lock_time b
     \<and> map strip (tx_input a) = map strip (tx_input b) \<and> tx_output a = tx_output b"
  then show "base_ser a = base_ser b" unfolding base_ser_def by (metis vec_ser_strip)
qed

lemma fee_in_range: "checked_mul_by_weight r t = Some f \<Longrightarrow> uint f < 2 ^ 63"
proof -
  assume "checked_mul_by_weight r t = Some f"
  then have "unat f < 2 ^ 63" by (simp add: checked_mul_by_weight_iff) linarith
  then show "uint f < 2 ^ 63" by (metis uint_nat of_nat_less_iff of_nat_numeral of_nat_power)
qed

lemma signed_sub_in_range:
  fixes a f :: u64
  assumes "uint a < 2 ^ 63" and "uint f < 2 ^ 63"
  shows "signed_checked_sub (uint a) (uint f) = Some e \<longleftrightarrow> e = uint a - int (unat f)"
proof -
  have "in_i64 (uint a - uint f)"
    using assms uint_nonnegative [of a] uint_nonnegative [of f] unfolding in_i64_def by linarith
  then show ?thesis unfolding signed_checked_sub_def checked_i64_def uint_nat [of f, symmetric] by auto
qed

section \<open>Properties\<close>

definition sample_tx :: "u8 Transaction" where
  "sample_tx = \<lparr> version = 2, lock_time = Blocks 100,
     tx_input = [\<lparr> previous_output = \<lparr> txid = replicate 32 7, vout = 1 \<rparr>, script_sig = [0x51],
                   sequence = 0xFFFFFFFD, txin_witness = witness_new \<rparr>],
     tx_output = [\<lparr> txout_value = 5000, script_pubkey = [0x51] \<rparr>], mw_tx = None, is_hog_ex = False \<rparr>"

definition sample_mweb_tx :: "u8 Transaction" where
  "sample_mweb_tx = \<lparr> version = 2, lock_time = Blocks 0, tx_input = [], tx_output = [], mw_tx = Some sample_mw_tx,
     is_hog_ex = False \<rparr>"

lemma sample_tx_wf: "tx_wf sample_tx"
  by (simp add: sample_tx_def tx_wf_def vec_wf_def txin_base_wf_def txout_wf_def bytes_wf_def locktime_wf_def
      is_block_height_value_def LOCK_TIME_THRESHOLD_def)

lemma sample_mweb_tx_wf: "tx_wf sample_mweb_tx"
  by (simp add: sample_mweb_tx_def tx_wf_def vec_wf_def locktime_wf_def is_block_height_value_def
      LOCK_TIME_THRESHOLD_def sample_mw_tx_wf)

text \<open>
  C1: Serialising a well-formed transaction and reading it back, with whatever follows, gives the transaction,
  for plain, segwit, extension-block and HogEx transactions alike. A transaction without an extension-block
  part is accepted from its serialisation only.
\<close>
theorem transaction_roundtrip:
  fixes K :: "'k key_ops"
  assumes "key_laws K" and "tx_wf tx"
  shows "\<exists>b. transaction_encode K tx = wrote b \<and> transaction_decode K (b @ r) = Inr (tx, r)
    \<and> (\<not> has_mweb tx \<longrightarrow> (\<forall>s. transaction_decode K s = Inr (tx, r) \<longleftrightarrow> s = b @ r))"
proof (intro exI conjI impI allI)
  show "transaction_encode K tx = wrote (tx_ser K tx)" by (rule transaction_encode_wrote [OF assms])
  show d: "transaction_decode K (tx_ser K tx @ r) = Inr (tx, r)"
    by (rule codec.dec_ser [OF transaction_codec [OF assms(1)] assms(2)])
  fix s assume m: "\<not> has_mweb tx"
  have "tx_wire K flag p tx = tx_ser K tx" if "accepted_form tx flag p" for flag p
    using that m by (auto simp: accepted_form_def tx_ser_def)
  with d show "transaction_decode K s = Inr (tx, r) \<longleftrightarrow> s = tx_ser K tx @ r"
    unfolding transaction_decode_iff [OF assms(1)] by metis
qed

theorem transaction_roundtrip_witness:
  "\<exists>b. transaction_encode byte_keys sample_tx = wrote b
     \<and> (\<forall>s. transaction_decode byte_keys s = Inr (sample_tx, [9]) \<longleftrightarrow> s = b @ [9])"
  using transaction_roundtrip [OF key_laws_byte_keys sample_tx_wf, of "[9]"] by (auto simp: sample_tx_def)

text \<open>
  A transaction that carries an extension-block part has several encodings. The flag that announces witnesses is
  accepted although there are no inputs, and every non-zero presence byte is accepted, while the encoder writes
  8 and 1: reading and writing again changes the bytes, and the hash of the bytes with them.
\<close>
theorem mweb_encoding_not_unique:
  fixes K :: "'k key_ops"
  assumes "key_laws K" and "tx_wf tx" and "mw_tx tx \<noteq> None" and "tx_input tx = []" and "p \<noteq> 0"
  shows "transaction_encode K tx = wrote (tx_wire K 8 1 tx)
    \<and> transaction_decode K (tx_wire K 8 p tx) = Inr (tx, []) \<and> transaction_decode K (tx_wire K 9 p tx) = Inr (tx, [])
    \<and> tx_wire K 9 p tx \<noteq> tx_wire K 8 1 tx \<and> (p \<noteq> 1 \<longrightarrow> tx_wire K 8 p tx \<noteq> tx_wire K 8 1 tx)"
proof -
  have f: "tx_flag tx = 8" using assms(3,4) by (simp add: tx_flag_def)
  then have "accepted_form tx 8 p" "accepted_form tx 9 p" using assms(3,4,5) by (simp_all add: accepted_form_def)
  then have "transaction_decode K (tx_wire K 8 p tx) = Inr (tx, []) \<and> transaction_decode K (tx_wire K 9 p tx) = Inr (tx, [])"
    unfolding transaction_decode_iff [OF assms(1)] append_Nil2 using assms(2) by blast
  moreover have "transaction_encode K tx = wrote (tx_wire K 8 1 tx)"
    using transaction_encode_wrote [OF assms(1,2)] f assms(3) by (simp add: tx_ser_def)
  moreover have "tx_wire K 9 p tx \<noteq> tx_wire K 8 1 tx" "p \<noteq> 1 \<Longrightarrow> tx_wire K 8 p tx \<noteq> tx_wire K 8 1 tx"
    by (simp_all add: tx_wire_def mweb_ser_def)
  ultimately show ?thesis by blast
qed

theorem mweb_encoding_not_unique_witness:
  "transaction_decode byte_keys (tx_wire byte_keys 9 200 sample_mweb_tx) = Inr (sample_mweb_tx, [])
   \<and> transaction_encode byte_keys sample_mweb_tx = wrote (tx_wire byte_keys 8 1 sample_mweb_tx)"
  using mweb_encoding_not_unique [OF key_laws_byte_keys sample_mweb_tx_wf, of 200] by (simp add: sample_mweb_tx_def)

text \<open>
  The size a transaction reports is the length of its serialisation exactly when it has no extension-block
  part; with one, the bytes of that part are not counted, nor are the marker and the flag unless a witness is
  present. The base size is the length of the serialisation that is hashed for the identifier.
\<close>
theorem transaction_size:
  assumes "key_laws K" and "tx_wf tx"
  shows "\<exists>b t. transaction_encode K tx = wrote b \<and> tx_total_size tx = Some t
    \<and> (if has_mweb tx then t + 1 + (case mw_tx tx of None \<Rightarrow> 0 | Some m \<Rightarrow> length (mw_tx_ser K m))
           + (if uses_segwit_serialization tx then 0 else 2) = length b
       else t = length b)
    \<and> tx_base_size tx = length (base_ser tx)"
proof -
  have "length (base_ser tx) = tx_base_size tx" by (rule length_base_ser [OF assms(2)])
  moreover have "mweb_bytes K tx = (if has_mweb tx then 1 + (case mw_tx tx of None \<Rightarrow> 0 | Some m \<Rightarrow> length (mw_tx_ser K m))
      + (if uses_segwit_serialization tx then 0 else 2) else 0)"
    by (simp add: mweb_bytes_def mweb_ser_def split: option.split)
  ultimately show ?thesis
    using length_tx_ser [OF assms(2), of K] transaction_encode_wrote [OF assms] by auto
qed

theorem transaction_size_witness:
  "\<exists>b t. transaction_encode byte_keys sample_mweb_tx = wrote b \<and> tx_total_size sample_mweb_tx = Some t \<and> t < length b"
  using transaction_size [OF key_laws_byte_keys sample_mweb_tx_wf] by (auto simp: sample_mweb_tx_def)

text \<open>
  C23: The weight predicted from the lengths of the scripts and witness elements is the weight of the transaction,
  whether it has witnesses or not, except that a transaction without inputs weighs two more; the constant
  version of the prediction agrees with the iterator version.
\<close>
theorem predict_weight_exact:
  assumes "tx_wf tx"
  shows "tx_weight tx = Some (predict_weight
      (map (\<lambda>i. prediction_new (length (script_sig i)) (map length (witness_stack (txin_witness i)))) (tx_input tx))
      (script_pubkey_lens tx) + (if tx_input tx = [] then 2 else 0))
    \<and> predict_weight ps ls = predict_weight_from_slices ps ls \<and> prediction_new n ls = prediction_from_slice n ls"
  using tx_weight_predicted [OF assms]
  by (simp add: predicted_def [abs_def] prediction_new_slice predict_weight_eq predict_weight_from_slices_def
      slice_inputs_eq slice_total_eq)

theorem predict_weight_exact_witness:
  "tx_weight sample_tx = Some (predict_weight [prediction_new 1 []] [1])"
proof -
  have "witness_stack witness_new = []" using witness_stack_of [of "[]"] by (simp add: witness_of_Nil stack_wf_def elements_ser_def)
  with predict_weight_exact [OF sample_tx_wf] show ?thesis by (simp add: sample_tx_def script_pubkey_lens_def)
qed

text \<open>
  C9: The identifier of a transaction is the double SHA-256 of its serialisation without witnesses and extension-block
  part (\<open>base_ser\<close>: version, inputs, outputs, lock time), and the witness identifier that of the bytes the transaction
  is encoded to. Both commit to what they cover and to nothing else. Two transactions with the same version, lock time,
  outputs and inputs up to their witnesses have the same identifier, and two with the same identifier agree in these
  or their two serialisations are distinct strings with the same double SHA-256; two with the same witness identifier
  are equal or their two encodings are such a collision. The identifiers coincide when there is neither a witness nor
  an extension-block part and there is an input.
\<close>
theorem identifiers_commit:
  fixes K :: "'k key_ops"
  assumes "key_laws K" and "tx_wf a" and "tx_wf b"
  shows "compute_txid a = Some (sha256d_hash (base_ser a))
    \<and> (base_ser a = base_ser b \<longleftrightarrow> version a = version b \<and> lock_time a = lock_time b \<and> tx_output a = tx_output b
         \<and> map (\<lambda>i. i \<lparr> txin_witness := witness_new \<rparr>) (tx_input a) = map (\<lambda>i. i \<lparr> txin_witness := witness_new \<rparr>) (tx_input b))
    \<and> (compute_txid a = compute_txid b \<longleftrightarrow>
         version a = version b \<and> lock_time a = lock_time b \<and> tx_output a = tx_output b
         \<and> map (\<lambda>i. i \<lparr> txin_witness := witness_new \<rparr>) (tx_input a) = map (\<lambda>i. i \<lparr> txin_witness := witness_new \<rparr>) (tx_input b)
         \<or> base_ser a \<noteq> base_ser b \<and> sha256d_hash (base_ser a) = sha256d_hash (base_ser b))
    \<and> compute_wtxid K a = Some (sha256d_hash (tx_ser K a))
    \<and> transaction_encode K a = wrote (tx_ser K a)
    \<and> (compute_wtxid K a = compute_wtxid K b \<longleftrightarrow>
         a = b \<or> tx_ser K a \<noteq> tx_ser K b \<and> sha256d_hash (tx_ser K a) = sha256d_hash (tx_ser K b))
    \<and> (\<not> uses_segwit_serialization a \<and> \<not> has_mweb a \<longrightarrow> compute_wtxid K a = compute_txid a)"
proof -
  have w: "tx_ser K a = base_ser a" if "\<not> uses_segwit_serialization a \<and> \<not> has_mweb a"
    using that by (simp add: tx_ser_def tx_wire_def tx_flag_def base_ser_def uses_segwit_iff)
  have i: "tx_ser K a = tx_ser K b \<longleftrightarrow> a = b"
    using codec.ser_inject [OF transaction_codec [OF assms(1)] assms(2,3)] by blast
  note b = base_ser_inject [OF assms(2,3)]
  show ?thesis
    unfolding compute_txid_total compute_wtxid_eq [OF assms(1,2)]
      compute_wtxid_eq [OF assms(1,3)] option.inject
  proof (intro conjI refl)
    show "\<not> uses_segwit_serialization a \<and> \<not> has_mweb a \<longrightarrow> sha256d_hash (tx_ser K a) = sha256d_hash (base_ser a)"
      using w by simp
    show "transaction_encode K a = wrote (tx_ser K a)" by (rule transaction_encode_wrote [OF assms(1,2)])
    show "sha256d_hash (tx_ser K a) = sha256d_hash (tx_ser K b) \<longleftrightarrow>
        a = b \<or> tx_ser K a \<noteq> tx_ser K b \<and> sha256d_hash (tx_ser K a) = sha256d_hash (tx_ser K b)" using i by metis
  qed (use b in metis)+
qed

theorem identifiers_commit_witness: "compute_wtxid byte_keys sample_tx = compute_txid sample_tx"
  using identifiers_commit [OF key_laws_byte_keys sample_tx_wf sample_tx_wf]
  by (auto simp: sample_tx_def uses_segwit_iff witness_new_def)

text \<open>
  C22: The cost of the signature operations of a transaction is four for each operation counted in its scripts and in
  the redeem scripts it uses, one for each operation of a witness program, summed over all inputs and outputs and
  clamped at the largest \<open>usize\<close>; the intermediate saturating operations lose nothing below that bound.
\<close>
theorem sigop_cost_exact:
  assumes "list_all (\<lambda>i. witness_wf (txin_witness i)) (tx_input tx)"
  shows "total_sigop_cost tx spent = Some (min
     (4 * (\<Sum>i\<leftarrow>tx_input tx. count_sigops_legacy (script_sig i))
      + 4 * (\<Sum>x\<leftarrow>tx_output tx. count_sigops_legacy (script_pubkey x))
      + 4 * (\<Sum>i\<leftarrow>tx_input tx. p2sh_sigops spent i) + (\<Sum>i\<leftarrow>tx_input tx. witness_sigops spent i)) USIZE_MAX)"
proof -
  have "count_p2pk_p2pkh_sigops tx = min ((\<Sum>i\<leftarrow>tx_input tx. count_sigops_legacy (script_sig i))
      + (\<Sum>x\<leftarrow>tx_output tx. count_sigops_legacy (script_pubkey x))) USIZE_MAX"
    unfolding count_p2pk_p2pkh_sigops_def using sat_fold [of _ 0 "tx_input tx"] by (simp add: sat_fold)
  moreover have "count_p2sh_sigops tx spent = min (\<Sum>i\<leftarrow>tx_input tx. p2sh_sigops spent i) USIZE_MAX"
    unfolding count_p2sh_sigops_def using p2sh_fold [of spent 0] by simp
  moreover have "count_witness_sigops tx spent = Some (min (\<Sum>i\<leftarrow>tx_input tx. witness_sigops spent i) USIZE_MAX)"
    unfolding count_witness_sigops_def using witness_fold [OF assms, of spent 0] by simp
  ultimately show ?thesis
    by (simp add: total_sigop_cost_def Let_def sat_mul_min sat_add_min2 add_mult_distrib mult.commute [of 4])
qed

theorem sigop_cost_exact_witness: "total_sigop_cost sample_tx (\<lambda>_. None) = Some 0"
proof -
  have "count_sigops_legacy [0x51] = 0" by code_simp
  moreover have "p2sh_sigops (\<lambda>_. None) i = 0" "witness_sigops (\<lambda>_. None) i = 0" for i
    by (simp_all add: p2sh_sigops_def witness_sigops_def)
  ultimately show ?thesis
    using sigop_cost_exact [of sample_tx "\<lambda>_. None"] by (simp add: sample_tx_def)
qed

text \<open>
  The effective value of an output is its value less the fee, rounded up, of an input that spends it with the
  given satisfaction weight (40 further bytes of input count four each); it is refused exactly when the weight
  or the fee leaves 64 bits or the value does not fit the signed type.
\<close>
theorem effective_value_exact:
  "effective_value r w a = Some e \<longleftrightarrow>
     unat w + 160 < 2 ^ 64 \<and> unat r * (unat w + 160) + 999 < 2 ^ 64 \<and> uint a < 2 ^ 63
     \<and> e = uint a - int ((unat r * (unat w + 160) + 999) div 1000)"
proof -
  have bw: "unat TXIN_BASE_WEIGHT = 160"
    by (simp add: TXIN_BASE_WEIGHT_def OUTPOINT_SIZE_def SEQUENCE_SIZE_def WITNESS_SCALE_FACTOR_def)
  have ok: "result_ok (to_signed x) = Some n \<longleftrightarrow> n = uint x \<and> n < 2 ^ 63" for x n
    using to_signed_iff [of x n] by (cases "to_signed x") (auto simp: result_ok_def)
  have "effective_value r w a = Some e \<longleftrightarrow> (\<exists>t f. unat t = unat w + 160 \<and> checked_mul_by_weight r t = Some f
      \<and> uint f < 2 ^ 63 \<and> uint a < 2 ^ 63 \<and> signed_checked_sub (uint a) (uint f) = Some e)"
    unfolding effective_value_def bind_eq_Some_conv ok checked_add_iff bw by blast
  also have "\<dots> \<longleftrightarrow> (\<exists>t f. unat t = unat w + 160 \<and> checked_mul_by_weight r t = Some f
      \<and> uint a < 2 ^ 63 \<and> e = uint a - int (unat f))"
    using fee_in_range [of r] signed_sub_in_range [of a _ e] by blast
  also have "\<dots> \<longleftrightarrow> unat w + 160 < 2 ^ 64 \<and> unat r * (unat w + 160) + 999 < 2 ^ 64 \<and> uint a < 2 ^ 63
     \<and> e = uint a - int ((unat r * (unat w + 160) + 999) div 1000)" (is "_ \<longleftrightarrow> ?R")
  proof
    assume "\<exists>t f. unat t = unat w + 160 \<and> checked_mul_by_weight r t = Some f \<and> uint a < 2 ^ 63 \<and> e = uint a - int (unat f)"
    then obtain t f where "unat t = unat w + 160" "checked_mul_by_weight r t = Some f" "uint a < 2 ^ 63"
      "e = uint a - int (unat f)" by blast
    then show ?R using u64_bound [of t] by (simp add: checked_mul_by_weight_iff)
  next
    assume R: ?R
    define t f :: u64 where "t = of_nat (unat w + 160)" and "f = of_nat ((unat r * (unat w + 160) + 999) div 1000)"
    have t: "unat t = unat w + 160" unfolding t_def using R by (intro unat_of_nat_u64_eq) simp
    have f: "unat f = (unat r * (unat w + 160) + 999) div 1000"
      unfolding f_def using R by (intro unat_of_nat_u64_eq) linarith
    show "\<exists>t f. unat t = unat w + 160 \<and> checked_mul_by_weight r t = Some f \<and> uint a < 2 ^ 63 \<and> e = uint a - int (unat f)"
      using R t f by (intro exI [of _ t] exI [of _ f]) (simp add: checked_mul_by_weight_iff)
  qed
  finally show ?thesis .
qed

end
