(* ===== verification/Uint256.thy ===== *)
theory Uint256
  imports Numerals
begin

text \<open>
  The 256-bit integers of \<open>src/litecoin/src/pow.rs\<close>: two limbs of 128 bits with their carries, wrapping shifts,
  limb-wise multiplication, bitwise long division, byte and text conversions. The value \<open>u256_val\<close> of the two limbs
  is the abstraction: every operation is proved against natural number arithmetic. Arithmetic that the source
  guards by \<open>debug_assert!\<close> is that of a release build; a division by zero is \<^const>\<open>None\<close>.
\<close>

type_synonym u128 = "128 word"

section \<open>The limbs\<close>

datatype U256 = U256 (high: u128) (low: u128)

definition u256_val :: "U256 \<Rightarrow> nat" where
  "u256_val x = unat (high x) * 2 ^ 128 + unat (low x)"

definition u256_MAX :: U256 where "u256_MAX = U256 (- 1) (- 1)"
definition u256_ZERO :: U256 where "u256_ZERO = U256 0 0"
definition u256_ONE :: U256 where "u256_ONE = U256 0 1"

definition u256_from :: "u128 \<Rightarrow> U256" where
  "u256_from x = U256 0 x"

text \<open>The derived order compares the high limbs first.\<close>

instantiation U256 :: linorder
begin

definition less_eq_U256 :: "U256 \<Rightarrow> U256 \<Rightarrow> bool" where
  "x \<le> y \<longleftrightarrow> high x < high y \<or> high x = high y \<and> low x \<le> low y"

definition less_U256 :: "U256 \<Rightarrow> U256 \<Rightarrow> bool" where
  "x < y \<longleftrightarrow> high x < high y \<or> high x = high y \<and> low x < low y"

instance
  by standard (auto simp: less_eq_U256_def less_U256_def intro: U256.expand)

end

definition is_zero :: "U256 \<Rightarrow> bool" where "is_zero x \<longleftrightarrow> high x = 0 \<and> low x = 0"
definition is_one :: "U256 \<Rightarrow> bool" where "is_one x \<longleftrightarrow> high x = 0 \<and> low x = 1"
definition is_max :: "U256 \<Rightarrow> bool" where "is_max x \<longleftrightarrow> high x = - 1 \<and> low x = - 1"

definition low_u32 :: "U256 \<Rightarrow> u32" where "low_u32 x = ucast (low x)"
definition low_u64 :: "U256 \<Rightarrow> u64" where "low_u64 x = ucast (low x)"
definition low_u128 :: "U256 \<Rightarrow> u128" where "low_u128 x = low x"

definition saturating_to_u128 :: "U256 \<Rightarrow> u128" where
  "saturating_to_u128 x = (if u256_from (- 1) < x then - 1 else low_u128 x)"

text \<open>\<open>leading_zeros\<close> of the standard library, from the number of bits of the value.\<close>

fun bit_length :: "nat \<Rightarrow> nat" where
  "bit_length n = (if n = 0 then 0 else Suc (bit_length (n div 2)))"

declare bit_length.simps [simp del]

definition leading_zeros :: "u128 \<Rightarrow> nat" where
  "leading_zeros w = 128 - bit_length (unat w)"

definition u256_bits :: "U256 \<Rightarrow> nat" where
  "u256_bits x = (if 0 < high x then 256 - leading_zeros (high x) else 128 - leading_zeros (low x))"

section \<open>Bytes\<close>

definition split_in_half :: "bytes \<Rightarrow> bytes \<times> bytes" where
  "split_in_half a = (take 16 a, drop 16 a)"

definition u256_from_be_bytes :: "bytes \<Rightarrow> U256" where
  "u256_from_be_bytes a = (let (h, l) = split_in_half a in U256 (from_be_bytes h) (from_be_bytes l))"

definition u256_from_le_bytes :: "bytes \<Rightarrow> U256" where
  "u256_from_le_bytes a =
     (let (h, l) = split_in_half a; little = from_le_bytes h; big = from_le_bytes l in U256 big little)"

definition u256_to_be_bytes :: "U256 \<Rightarrow> bytes" where
  "u256_to_be_bytes x = to_be_bytes (high x) @ to_be_bytes (low x)"

definition u256_to_le_bytes :: "U256 \<Rightarrow> bytes" where
  "u256_to_le_bytes x = to_le_bytes (low x) @ to_le_bytes (high x)"

section \<open>Addition, subtraction, shifts\<close>

definition overflowing_add_u128 :: "u128 \<Rightarrow> u128 \<Rightarrow> u128 \<times> bool" where
  "overflowing_add_u128 a b = (a + b, 2 ^ 128 \<le> unat a + unat b)"

definition overflowing_add :: "U256 \<Rightarrow> U256 \<Rightarrow> U256 \<times> bool" where
  "overflowing_add x y =
     (let (h, ret_overflow) = overflowing_add_u128 (high x) (high y);
          (l, overflow) = overflowing_add_u128 (low x) (low y) in
      if overflow
      then let (h, overflow) = overflowing_add_u128 h 1 in (U256 h l, ret_overflow \<or> overflow)
      else (U256 h l, ret_overflow))"

definition u256_wrapping_add :: "U256 \<Rightarrow> U256 \<Rightarrow> U256" where
  "u256_wrapping_add x y = fst (overflowing_add x y)"

definition u256_not :: "U256 \<Rightarrow> U256" where
  "u256_not x = U256 (NOT (high x)) (NOT (low x))"

definition overflowing_sub :: "U256 \<Rightarrow> U256 \<Rightarrow> U256 \<times> bool" where
  "overflowing_sub x y = (u256_wrapping_add (u256_wrapping_add x (u256_not y)) u256_ONE, x < y)"

definition u256_wrapping_sub :: "U256 \<Rightarrow> U256 \<Rightarrow> U256" where
  "u256_wrapping_sub x y = fst (overflowing_sub x y)"

definition wrapping_inc :: "U256 \<Rightarrow> U256" where
  "wrapping_inc x = (let l = low x + 1 in U256 (if l = 0 then high x + 1 else high x) l)"

text \<open>
  A shift keeps the low eight bits of its amount. \<open>wrapping_shl\<close> and \<open>wrapping_shr\<close> of a limb are called with
  an amount below 128, where they are the plain shifts.
\<close>

definition wrapping_shl :: "U256 \<Rightarrow> nat \<Rightarrow> U256" where
  "wrapping_shl x rhs =
     (let shift = rhs mod 256; word_shift = 128 \<le> shift; bit_shift = shift mod 128 in
      if word_shift then U256 (push_bit bit_shift (low x)) 0
      else U256 (if 0 < bit_shift then push_bit bit_shift (high x) + drop_bit (128 - bit_shift) (low x)
                 else push_bit bit_shift (high x))
             (push_bit bit_shift (low x)))"

definition wrapping_shr :: "U256 \<Rightarrow> nat \<Rightarrow> U256" where
  "wrapping_shr x rhs =
     (let shift = rhs mod 256; word_shift = 128 \<le> shift; bit_shift = shift mod 128 in
      if word_shift then U256 0 (drop_bit bit_shift (high x))
      else U256 (drop_bit bit_shift (high x))
             (if 0 < bit_shift then drop_bit bit_shift (low x) + push_bit (128 - bit_shift) (high x)
              else drop_bit bit_shift (low x)))"

section \<open>Multiplication and division\<close>

text \<open>The loop over the four 64-bit words, least significant first.\<close>

fun mul_words :: "u64 \<Rightarrow> u128 \<Rightarrow> u64 list \<Rightarrow> u64 list \<times> u128" where
  "mul_words rhs carry [] = ([], carry)"
| "mul_words rhs carry (word # ws) =
     (let n = carry + ucast rhs * ucast word;
          (ws', carry') = mul_words rhs (drop_bit 64 n) ws in
      (ucast n # ws', carry'))"

definition split_le :: "U256 \<Rightarrow> u64 list" where
  "split_le x = [ucast (low x), ucast (drop_bit 64 (low x)), ucast (high x), ucast (drop_bit 64 (high x))]"

definition mul_u64 :: "U256 \<Rightarrow> u64 \<Rightarrow> U256 \<times> bool" where
  "mul_u64 x rhs =
     (let (ws, carry) = mul_words rhs 0 (split_le x);
          l = ucast (ws ! 0) OR push_bit 64 (ucast (ws ! 1));
          h = ucast (ws ! 2) OR push_bit 64 (ucast (ws ! 3)) in
      (U256 h l, carry \<noteq> 0))"

definition overflowing_mul :: "U256 \<Rightarrow> U256 \<Rightarrow> U256 \<times> bool" where
  "overflowing_mul x y =
     (let ret = foldl (\<lambda>ret i.
            let to_mul = low_u64 (wrapping_shr y (64 * i));
                (mul_res, _) = mul_u64 x to_mul in
            u256_wrapping_add ret (wrapping_shl mul_res (64 * i))) u256_ZERO [0..<3];
          to_mul = low_u64 (wrapping_shr y 192);
          (mul_res, overflow) = mul_u64 x to_mul;
          (sum, overflow') = overflowing_add ret mul_res in
      (sum, overflow \<or> overflow'))"

text \<open>Bitwise long division; \<open>ret\<close> holds the quotient's limbs, high one first.\<close>

definition set_quotient_bit :: "nat \<Rightarrow> U256 \<Rightarrow> U256" where
  "set_quotient_bit shift ret =
     (if shift div 128 = 1 then U256 (high ret OR push_bit (shift mod 128) 1) (low ret)
      else U256 (high ret) (low ret OR push_bit (shift mod 128) 1))"

fun div_rem_loop :: "nat \<Rightarrow> U256 \<Rightarrow> U256 \<Rightarrow> U256 \<Rightarrow> U256 \<times> U256" where
  "div_rem_loop shift sub_copy shift_copy ret =
     (let (ret, sub_copy) = (if shift_copy \<le> sub_copy
            then (set_quotient_bit shift ret, u256_wrapping_sub sub_copy shift_copy) else (ret, sub_copy));
          shift_copy = wrapping_shr shift_copy 1 in
      case shift of 0 \<Rightarrow> (ret, sub_copy) | Suc n \<Rightarrow> div_rem_loop n sub_copy shift_copy ret)"

declare div_rem_loop.simps [simp del]

definition div_rem :: "U256 \<Rightarrow> U256 \<Rightarrow> (U256 \<times> U256) option" where
  "div_rem x y =
     (let my_bits = u256_bits x; your_bits = u256_bits y in
      if your_bits = 0 then None
      else if my_bits < your_bits then Some (u256_ZERO, x)
      else let shift = my_bits - your_bits in Some (div_rem_loop shift x (wrapping_shl y shift) u256_ZERO))"

text \<open>The operators, in a release build.\<close>

definition u256_add :: "U256 \<Rightarrow> U256 \<Rightarrow> U256" where "u256_add x y = fst (overflowing_add x y)"
definition u256_sub :: "U256 \<Rightarrow> U256 \<Rightarrow> U256" where "u256_sub x y = fst (overflowing_sub x y)"
definition u256_mul :: "U256 \<Rightarrow> U256 \<Rightarrow> U256" where "u256_mul x y = fst (overflowing_mul x y)"
definition u256_div :: "U256 \<Rightarrow> U256 \<Rightarrow> U256 option" where "u256_div x y = map_option fst (div_rem x y)"
definition u256_rem :: "U256 \<Rightarrow> U256 \<Rightarrow> U256 option" where "u256_rem x y = map_option snd (div_rem x y)"

definition u256_inverse :: "U256 \<Rightarrow> U256 option" where
  "u256_inverse x =
     (if is_zero x then Some u256_MAX
      else if is_one x then Some u256_MAX
      else if is_max x then Some u256_ONE
      else map_option wrapping_inc (u256_div (u256_not x) (wrapping_inc x)))"

section \<open>Text\<close>

text \<open>
  \<open>fmt_decimal\<close> fills a buffer of 78 digits from its end; an index below zero would panic. The string is what
  \<open>pad_integral\<close> prints without formatting options.
\<close>

definition DIGITS :: nat where "DIGITS = 78"

fun fmt_decimal_loop :: "nat \<Rightarrow> U256 \<Rightarrow> string \<Rightarrow> string option" where
  "fmt_decimal_loop i cur buf =
     Option.bind (u256_rem cur (U256 0 10)) (\<lambda>r.
       let buf = buf[i := digit_char (unat (ucast (low_u128 r) :: u8))] in
       Option.bind (u256_div cur (U256 0 10)) (\<lambda>cur.
         if is_zero cur then Some (drop i buf)
         else case i of 0 \<Rightarrow> None | Suc j \<Rightarrow> fmt_decimal_loop j cur buf))"

declare fmt_decimal_loop.simps [simp del]

definition u256_display :: "U256 \<Rightarrow> string option" where
  "u256_display x =
     (if is_zero x then Some ''0''
      else fmt_decimal_loop (DIGITS - 1) x (replicate DIGITS (char_of (0 :: nat))))"

section \<open>Auxiliary definitions of the proofs\<close>

text \<open>The value of 64-bit words, least significant first, and the sum of the first partial products.\<close>

fun words_val :: "u64 list \<Rightarrow> nat" where
  "words_val [] = 0"
| "words_val (w # ws) = unat w + 2 ^ 64 * words_val ws"

definition mul_upto :: "U256 \<Rightarrow> U256 \<Rightarrow> nat \<Rightarrow> U256" where
  "mul_upto x y k = foldl (\<lambda>ret i.
     let to_mul = low_u64 (wrapping_shr y (64 * i)); (mul_res, _) = mul_u64 x to_mul in
     u256_wrapping_add ret (wrapping_shl mul_res (64 * i))) u256_ZERO [0..<k]"

text \<open>One round of the division: the difference stays below the shifted divisor, the quotient gains the bit.\<close>

definition div_step :: "nat \<Rightarrow> U256 \<Rightarrow> U256 \<Rightarrow> U256 \<Rightarrow> U256 \<times> U256" where
  "div_step s sub sc ret = (if sc \<le> sub then (set_quotient_bit s ret, u256_wrapping_sub sub sc) else (ret, sub))"

declare u64_less [simp del]

section \<open>Limb arithmetic on natural numbers\<close>

lemma limbs_mod: "r < (b :: nat) \<Longrightarrow> (q * b + r) mod (b * c) = (q mod c) * b + r"
proof -
  assume r: "r < b"
  have "(q * b + r) mod (b * c) = b * ((q * b + r) div b mod c) + (q * b + r) mod b" by (rule mod_mult2_eq)
  also have "(q * b + r) div b = q" using r by simp
  also have "(q * b + r) mod b = r" using r by simp
  finally show ?thesis by (simp add: mult.commute)
qed

lemma shl_limbs:
  assumes n: "n \<le> k" and l: "l < (2 :: nat) ^ k"
  shows "(h * 2 ^ n) mod 2 ^ k + l div 2 ^ (k - n) < 2 ^ k"
    and "((h * 2 ^ n) mod 2 ^ k + l div 2 ^ (k - n)) * 2 ^ k + (l * 2 ^ n) mod 2 ^ k = ((h * 2 ^ k + l) * 2 ^ n) mod 2 ^ (k + k)"
proof -
  have k: "(2 :: nat) ^ k = 2 ^ n * 2 ^ (k - n)" using n by (simp flip: power_add)
  have q: "l div 2 ^ (k - n) < 2 ^ n" using l unfolding k by (simp add: less_mult_imp_div_less)
  have m: "(h * 2 ^ n) mod 2 ^ k = (h mod 2 ^ (k - n)) * 2 ^ n"
    unfolding k by (metis mult.commute mult_mod_right)
  have "h mod 2 ^ (k - n) + 1 \<le> (2 :: nat) ^ (k - n)" by (simp add: Suc_leI)
  then have "(h mod 2 ^ (k - n) + 1) * 2 ^ n \<le> (2 :: nat) ^ (k - n) * 2 ^ n" by (rule mult_le_mono1)
  then show s: "(h * 2 ^ n) mod 2 ^ k + l div 2 ^ (k - n) < 2 ^ k"
    unfolding m using q k by (simp add: mult.commute)
  have d: "l * 2 ^ n div 2 ^ k = l div 2 ^ (k - n)"
    unfolding k by (simp add: mult.commute)
  have "(h * 2 ^ k + l) * 2 ^ n = (h * 2 ^ n + l * 2 ^ n div 2 ^ k) * 2 ^ k + l * 2 ^ n mod 2 ^ k"
    by (simp add: algebra_simps)
  moreover have "(h * 2 ^ n + l div 2 ^ (k - n)) mod 2 ^ k = (h * 2 ^ n) mod 2 ^ k + l div 2 ^ (k - n)"
    using s by (metis mod_add_left_eq mod_less)
  ultimately show "((h * 2 ^ n) mod 2 ^ k + l div 2 ^ (k - n)) * 2 ^ k + (l * 2 ^ n) mod 2 ^ k = ((h * 2 ^ k + l) * 2 ^ n) mod 2 ^ (k + k)"
    using limbs_mod [of "l * 2 ^ n mod 2 ^ k" "2 ^ k" "h * 2 ^ n + l * 2 ^ n div 2 ^ k" "2 ^ k"]
    by (simp add: d power_add)
qed

lemma shr_limbs:
  assumes n: "n \<le> k" and l: "l < (2 :: nat) ^ k"
  shows "l div 2 ^ n + (h * 2 ^ (k - n)) mod 2 ^ k < 2 ^ k"
    and "(h div 2 ^ n) * 2 ^ k + (l div 2 ^ n + (h * 2 ^ (k - n)) mod 2 ^ k) = (h * 2 ^ k + l) div 2 ^ n"
proof -
  have k: "(2 :: nat) ^ k = 2 ^ (k - n) * 2 ^ n" using n by (simp flip: power_add)
  have q: "l div 2 ^ n < 2 ^ (k - n)" using l unfolding k by (simp add: less_mult_imp_div_less mult.commute)
  have m: "(h * 2 ^ (k - n)) mod 2 ^ k = (h mod 2 ^ n) * 2 ^ (k - n)"
    unfolding k by (metis mult.commute mult_mod_right)
  have "h mod 2 ^ n + 1 \<le> (2 :: nat) ^ n" by (simp add: Suc_leI)
  then have "(h mod 2 ^ n + 1) * 2 ^ (k - n) \<le> (2 :: nat) ^ n * 2 ^ (k - n)" by (rule mult_le_mono1)
  then show "l div 2 ^ n + (h * 2 ^ (k - n)) mod 2 ^ k < 2 ^ k"
    unfolding m using q k by (simp add: mult.commute)
  have "(h * 2 ^ k + l) div 2 ^ n = (l + h * 2 ^ (k - n) * 2 ^ n) div 2 ^ n" unfolding k by (simp add: ac_simps)
  also have "\<dots> = h * 2 ^ (k - n) + l div 2 ^ n" by simp
  finally have shifted: "(h * 2 ^ k + l) div 2 ^ n = h * 2 ^ (k - n) + l div 2 ^ n" .
  have regroup: "(q * a + r) * c = q * (c * a) + r * c" for q a r c :: nat by (simp add: algebra_simps)
  note shifted
  also have "h * 2 ^ (k - n) = (h div 2 ^ n * 2 ^ n + h mod 2 ^ n) * 2 ^ (k - n)" by (simp only: div_mult_mod_eq)
  also have "\<dots> = (h div 2 ^ n) * 2 ^ k + (h mod 2 ^ n) * 2 ^ (k - n)"
    unfolding k by (rule regroup)
  finally show "(h div 2 ^ n) * 2 ^ k + (l div 2 ^ n + (h * 2 ^ (k - n)) mod 2 ^ k) = (h * 2 ^ k + l) div 2 ^ n"
    unfolding m by simp
qed

lemma bit_length_0 [simp]: "bit_length 0 = 0"
  by (subst bit_length.simps) simp

lemma bit_length_Suc: "n \<noteq> 0 \<Longrightarrow> bit_length n = Suc (bit_length (n div 2))"
  by (subst bit_length.simps) simp

lemma bit_length_le: "bit_length n \<le> k \<longleftrightarrow> n < 2 ^ k"
proof (induction k arbitrary: n)
  case 0
  then show ?case by (cases "n = 0") (simp_all add: bit_length_Suc)
next
  case (Suc k)
  have "n div 2 < 2 ^ k \<longleftrightarrow> n < 2 ^ Suc k" by (simp add: div_less_iff_less_mult mult.commute)
  then show ?case using Suc [of "n div 2"] by (cases "n = 0") (simp_all add: bit_length_Suc)
qed

section \<open>Values\<close>

lemma u128_less: "unat (w :: u128) < 2 ^ 128"
  using unsigned_less [of w] by simp

lemma u256_val_less: "u256_val x < 2 ^ 256"
  using u128_less [of "high x"] u128_less [of "low x"] unfolding u256_val_def by simp

lemma u256_val_inject: "u256_val x = u256_val y \<longleftrightarrow> x = y"
proof
  assume e: "u256_val x = u256_val y"
  have "unat (high z) = u256_val z div 2 ^ 128" "unat (low z) = u256_val z mod 2 ^ 128" for z
    using u128_less [of "low z"] unfolding u256_val_def by simp_all
  with e show "x = y" by (intro U256.expand) (simp add: word_unat_eq_iff)
qed simp

lemma u256_le_iff: "x \<le> y \<longleftrightarrow> u256_val x \<le> u256_val y"
  using u128_less [of "low x"] u128_less [of "low y"]
  unfolding less_eq_U256_def u256_val_def word_less_nat_alt word_le_nat_alt word_unat_eq_iff by auto

lemma u256_less_iff: "x < y \<longleftrightarrow> u256_val x < u256_val y"
  using u256_le_iff [of y x] by (simp add: not_le [symmetric])

lemma u256_val_simps: "u256_val u256_ZERO = 0" "u256_val u256_ONE = 1" "u256_val u256_MAX = 2 ^ 256 - 1"
  "u256_val (u256_from w) = unat w"
  by (simp_all add: u256_val_def u256_ZERO_def u256_ONE_def u256_MAX_def u256_from_def unsigned_minus_1_eq_mask mask_eq_exp_minus_1)

lemma u256_is_iff: "is_zero x \<longleftrightarrow> u256_val x = 0" "is_one x \<longleftrightarrow> u256_val x = 1" "is_max x \<longleftrightarrow> u256_val x = 2 ^ 256 - 1"
proof -
  have "is_zero x \<longleftrightarrow> x = u256_ZERO" "is_one x \<longleftrightarrow> x = u256_ONE" "is_max x \<longleftrightarrow> x = u256_MAX"
    by (cases x; simp add: is_zero_def is_one_def is_max_def u256_ZERO_def u256_ONE_def u256_MAX_def)+
  then show "is_zero x \<longleftrightarrow> u256_val x = 0" "is_one x \<longleftrightarrow> u256_val x = 1" "is_max x \<longleftrightarrow> u256_val x = 2 ^ 256 - 1"
    by (simp_all only: u256_val_simps flip: u256_val_inject)
qed

lemma unat_add_128:
  "unat (a + b :: u128) = (if unat a + unat b < 2 ^ 128 then unat a + unat b else unat a + unat b - 2 ^ 128)"
  using u128_less [of a] u128_less [of b] by (simp add: unat_word_ariths mod_if)

lemma overflowing_add_eq:
  "u256_val (fst (overflowing_add x y)) = (u256_val x + u256_val y) mod 2 ^ 256"
  "snd (overflowing_add x y) \<longleftrightarrow> 2 ^ 256 \<le> u256_val x + u256_val y"
proof -
  note b = u128_less [of "high x"] u128_less [of "low x"] u128_less [of "high y"] u128_less [of "low y"]
  have m: "n mod 2 ^ 256 = (if n < 2 ^ 256 then n else n - 2 ^ 256)" if "n < 2 * 2 ^ 256" for n :: nat
    using that by (simp add: mod_if)
  have "u256_val x + u256_val y < 2 * 2 ^ 256" using u256_val_less [of x] u256_val_less [of y] by linarith
  note m = m [OF this]
  show "u256_val (fst (overflowing_add x y)) = (u256_val x + u256_val y) mod 2 ^ 256"
    unfolding m using b by (auto simp: overflowing_add_def overflowing_add_u128_def u256_val_def unat_add_128 Let_def)
  show "snd (overflowing_add x y) \<longleftrightarrow> 2 ^ 256 \<le> u256_val x + u256_val y"
    using b by (auto simp: overflowing_add_def overflowing_add_u128_def u256_val_def unat_add_128 Let_def)
qed

lemma u256_not_val: "u256_val (u256_not x) = 2 ^ 256 - 1 - u256_val x"
proof -
  have n: "unat (NOT w) = 2 ^ 128 - 1 - unat w" for w :: u128
  proof -
    have "NOT w = - 1 - w" by (simp add: not_eq_complement)
    moreover have m: "unat (- 1 :: u128) = 2 ^ 128 - 1" by (simp add: unsigned_minus_1_eq_mask mask_eq_exp_minus_1)
    moreover have "w \<le> - 1" by simp
    ultimately show ?thesis by (simp only: unat_sub)
  qed
  show ?thesis using u128_less [of "high x"] u128_less [of "low x"] by (simp add: u256_not_def u256_val_def n)
qed

lemma overflowing_sub_eq:
  "u256_val (fst (overflowing_sub x y)) = (if u256_val y \<le> u256_val x then u256_val x - u256_val y else 2 ^ 256 + u256_val x - u256_val y)"
  "snd (overflowing_sub x y) \<longleftrightarrow> u256_val x < u256_val y"
proof -
  have "u256_val (fst (overflowing_sub x y)) = ((u256_val x + (2 ^ 256 - 1 - u256_val y)) mod 2 ^ 256 + 1) mod 2 ^ 256"
    by (simp add: overflowing_sub_def u256_wrapping_add_def overflowing_add_eq u256_not_val u256_val_simps)
  also have "\<dots> = (u256_val x + (2 ^ 256 - u256_val y)) mod 2 ^ 256"
  proof -
    have "u256_val x + (2 ^ 256 - 1 - u256_val y) + 1 = u256_val x + (2 ^ 256 - u256_val y)"
      using u256_val_less [of y] by linarith
    then show ?thesis by (metis mod_add_left_eq)
  qed
  also have "\<dots> = (if u256_val y \<le> u256_val x then u256_val x - u256_val y else 2 ^ 256 + u256_val x - u256_val y)"
    using u256_val_less [of x] u256_val_less [of y] by (auto simp: mod_if)
  finally show "u256_val (fst (overflowing_sub x y)) = (if u256_val y \<le> u256_val x then u256_val x - u256_val y else 2 ^ 256 + u256_val x - u256_val y)" .
  show "snd (overflowing_sub x y) \<longleftrightarrow> u256_val x < u256_val y" by (simp add: overflowing_sub_def u256_less_iff)
qed

lemma wrapping_inc_eq: "u256_val (wrapping_inc x) = (u256_val x + 1) mod 2 ^ 256"
proof -
  have "wrapping_inc x = fst (overflowing_add x u256_ONE)"
    using u128_less [of "low x"]
    by (auto simp: wrapping_inc_def overflowing_add_def overflowing_add_u128_def u256_ONE_def Let_def word_unat_eq_iff unat_add_128)
  then show ?thesis by (simp add: overflowing_add_eq u256_val_simps)
qed


lemma unat_push_bit: "unat (push_bit n w :: 'a::len word) = unat w * 2 ^ n mod 2 ^ LENGTH('a)"
  unfolding unsigned_push_bit_eq by (simp add: take_bit_eq_mod push_bit_eq_mult)

lemma unat_drop_bit: "unat (drop_bit n w :: 'a::len word) = unat w div 2 ^ n"
  unfolding unsigned_drop_bit_eq by (simp add: drop_bit_eq_div take_bit_nat_eq_self)

lemma u256_limbs: "u256_val (U256 h l) = unat h * 2 ^ 128 + unat l"
  by (simp add: u256_val_def)

lemma wrapping_shl_val: "u256_val (wrapping_shl x s) = u256_val x * 2 ^ (s mod 256) mod 2 ^ 256"
proof -
  define n where "n = s mod 256"
  have n: "n < 256" by (simp add: n_def)
  note l = u128_less [of "low x"]
  have k: "(2 :: nat) ^ 256 = 2 ^ (128 + 128)" by simp
  show ?thesis
  proof (cases "128 \<le> n")
    case True
    define m where "m = n - 128"
    have m: "n mod 128 = m" "n = 128 + m" using True n by (simp_all add: m_def mod_if)
    have regroup: "(h * b + l) * (b * p) = l * p * b + h * p * (b * b)" for h b l p :: nat by (simp add: algebra_simps)
    have "u256_val x * 2 ^ n mod 2 ^ 256 =
        (unat (low x) * 2 ^ m * 2 ^ 128 + unat (high x) * 2 ^ m * (2 ^ 128 * 2 ^ 128)) mod (2 ^ 128 * 2 ^ 128)"
      unfolding u256_val_def m(2) power_add regroup by simp
    also have "\<dots> = (unat (low x) * 2 ^ m * 2 ^ 128) mod (2 ^ 128 * 2 ^ 128)" by (rule mod_mult_self1)
    also have "\<dots> = unat (low x) * 2 ^ m mod 2 ^ 128 * 2 ^ 128"
      using limbs_mod [of 0 "2 ^ 128" "unat (low x) * 2 ^ m" "2 ^ 128"] by simp
    finally show ?thesis
      using True by (simp add: wrapping_shl_def Let_def m(1) u256_limbs unat_push_bit flip: n_def)
  next
    case False
    then have m: "n mod 128 = n" by simp
    note s = shl_limbs [OF _ l, of n "unat (high x)"]
    have "unat (push_bit n (high x) + drop_bit (128 - n) (low x)) = unat (high x) * 2 ^ n mod 2 ^ 128 + unat (low x) div 2 ^ (128 - n)"
      using s(1) False by (simp add: unat_add_128 unat_push_bit unat_drop_bit)
    moreover have "n = 0 \<Longrightarrow> unat (low x) div 2 ^ (128 - n) = 0" using l by simp
    ultimately show ?thesis
      using s(2) False unfolding k u256_val_def [of x]
      by (auto simp: wrapping_shl_def Let_def m u256_limbs unat_push_bit simp flip: n_def)
  qed
qed

lemma wrapping_shr_val: "u256_val (wrapping_shr x s) = u256_val x div 2 ^ (s mod 256)"
proof -
  define n where "n = s mod 256"
  have n: "n < 256" by (simp add: n_def)
  note l = u128_less [of "low x"]
  show ?thesis
  proof (cases "128 \<le> n")
    case True
    define m where "m = n - 128"
    have m: "n mod 128 = m" "n = 128 + m" using True n by (simp_all add: m_def mod_if)
    have "u256_val x div 2 ^ n = u256_val x div 2 ^ 128 div 2 ^ m" unfolding m(2) power_add by (simp add: div_mult2_eq)
    also have "u256_val x div 2 ^ 128 = unat (high x)" unfolding u256_val_def using l by simp
    finally show ?thesis
      using True by (simp add: wrapping_shr_def Let_def m(1) u256_limbs unat_drop_bit flip: n_def)
  next
    case False
    then have m: "n mod 128 = n" by simp
    note s = shr_limbs [OF _ l, of n "unat (high x)"]
    have "unat (drop_bit n (low x) + push_bit (128 - n) (high x)) = unat (low x) div 2 ^ n + unat (high x) * 2 ^ (128 - n) mod 2 ^ 128"
      using s(1) False by (simp add: unat_add_128 unat_push_bit unat_drop_bit)
    then show ?thesis
      using s(2) False unfolding u256_val_def [of x]
      by (auto simp: wrapping_shr_def Let_def m u256_limbs unat_drop_bit simp flip: n_def)
  qed
qed

lemma u256_bits_eq: "u256_bits x = bit_length (u256_val x)"
proof (rule antisym)
  have b: "bit_length (unat w) \<le> 128" for w :: u128 unfolding bit_length_le by (rule u128_less)
  have bits: "u256_bits x = (if 0 < high x then 128 + bit_length (unat (high x)) else bit_length (unat (low x)))"
    using b [of "high x"] b [of "low x"] by (auto simp: u256_bits_def leading_zeros_def)
  have h: "0 < high x \<longleftrightarrow> 0 < unat (high x)" by (simp add: word_less_nat_alt)
  define j where "j = bit_length (unat (high x))"
  have "unat (high x) < 2 ^ j" unfolding j_def by (simp flip: bit_length_le)
  then have "(unat (high x) + 1) * 2 ^ 128 \<le> 2 ^ j * 2 ^ 128" by (intro mult_le_mono1) simp
  then have "u256_val x < 2 ^ (128 + j)" using u128_less [of "low x"] by (simp add: u256_val_def power_add)
  moreover have "u256_val x < 2 ^ bit_length (unat (low x))" if "high x = 0"
    using that by (simp add: u256_val_def flip: bit_length_le)
  ultimately show "bit_length (u256_val x) \<le> u256_bits x" unfolding bit_length_le bits by (auto simp: j_def word_gt_0)
  define i where "i = bit_length (u256_val x)"
  have i: "u256_val x < 2 ^ i" unfolding i_def by (simp flip: bit_length_le)
  show "u256_bits x \<le> bit_length (u256_val x)"
  proof (cases "0 < high x")
    case True
    have "\<not> u256_val x < 2 ^ 128" using True h unfolding u256_val_def by simp
    then have "128 \<le> i" using i by (metis less_le_trans nat_le_linear one_le_numeral power_increasing)
    then have "(2 :: nat) ^ i = 2 ^ (i - 128) * 2 ^ 128" by (metis le_add_diff_inverse2 power_add)
    then have "unat (high x) * 2 ^ 128 < 2 ^ (i - 128) * 2 ^ 128" using i unfolding u256_val_def by linarith
    then have "bit_length (unat (high x)) \<le> i - 128" unfolding bit_length_le by (simp only: mult_less_cancel2)
    then show ?thesis using True \<open>128 \<le> i\<close> by (simp add: bits i_def)
  next
    case False
    then show ?thesis by (simp add: bits u256_val_def word_gt_0)
  qed
qed


section \<open>Multiplication\<close>

lemma u64_lt: "unat (w :: u64) < 2 ^ 64"
  using unsigned_less [of w] by simp

lemma unat_ucast_u64: "unat (ucast (w :: u64) :: u128) = unat w"
proof -
  have "unat w < 2 ^ 128" using u64_lt [of w] by (rule less_trans) simp
  then show ?thesis by (simp add: unat_ucast)
qed

lemma mul_word:
  fixes rhs word :: u64 and carry :: u128
  assumes "unat carry < 2 ^ 64"
  defines "n \<equiv> carry + ucast rhs * ucast word"
  shows "unat n = unat carry + unat rhs * unat word" "unat (drop_bit 64 n) < 2 ^ 64"
    "unat (ucast n :: u64) + 2 ^ 64 * unat (drop_bit 64 n) = unat n"
proof -
  have "unat rhs * unat word \<le> (2 ^ 64 - 1) * (2 ^ 64 - 1)"
    using u64_lt [of rhs] u64_lt [of word] by (intro mult_le_mono) simp_all
  then have p: "unat rhs * unat word + 2 ^ 64 \<le> 2 ^ 128" by simp
  then have "unat (ucast rhs * ucast word :: u128) = unat rhs * unat word" by (simp add: unat_word_ariths unat_ucast_u64)
  then show n: "unat n = unat carry + unat rhs * unat word"
    unfolding n_def using p assms(1) by (simp add: unat_word_ariths)
  have "unat n < 2 ^ 64 * 2 ^ 64" using u128_less [of n] by simp
  then show "unat (drop_bit 64 n) < 2 ^ 64" unfolding unat_drop_bit by (rule less_mult_imp_div_less)
  show "unat (ucast n :: u64) + 2 ^ 64 * unat (drop_bit 64 n) = unat n"
    by (simp add: unat_ucast unat_drop_bit)
qed

lemma mul_words_val:
  "unat carry < 2 ^ 64 \<Longrightarrow> mul_words rhs carry ws = (ws', c) \<Longrightarrow>
     words_val ws' + 2 ^ (64 * length ws) * unat c = unat carry + unat rhs * words_val ws
     \<and> unat c < 2 ^ 64 \<and> length ws' = length ws"
proof (induction ws arbitrary: carry ws' c)
  case (Cons word ws)
  define n where "n = carry + ucast rhs * ucast word"
  obtain ws'' c' where m: "mul_words rhs (drop_bit 64 n) ws = (ws'', c')" by fastforce
  note step = mul_word [OF Cons.prems(1), of rhs word, folded n_def]
  from Cons.IH [OF step(2) m]
  have ih: "words_val ws'' + 2 ^ (64 * length ws) * unat c' = unat (drop_bit 64 n) + unat rhs * words_val ws"
    "unat c' < 2 ^ 64" "length ws'' = length ws" by simp_all
  have r: "ws' = ucast n # ws''" "c = c'" using Cons.prems(2) m by (simp_all add: n_def Let_def)
  have "words_val ws' + 2 ^ (64 * length (word # ws)) * unat c =
      unat (ucast n :: u64) + 2 ^ 64 * (words_val ws'' + 2 ^ (64 * length ws) * unat c')"
    by (simp add: r power_add algebra_simps)
  also have "\<dots> = unat (ucast n :: u64) + 2 ^ 64 * unat (drop_bit 64 n) + unat rhs * (2 ^ 64 * words_val ws)"
    unfolding ih(1) by (simp add: algebra_simps)
  also have "\<dots> = unat carry + unat rhs * words_val (word # ws)"
    unfolding step(3) step(1) by (simp add: algebra_simps)
  finally show ?case using ih r by simp
qed simp

lemma join_words:
  fixes a b :: u64
  shows "unat (ucast a OR push_bit 64 (ucast b) :: u128) = unat a + 2 ^ 64 * unat b"
proof -
  have "\<not> bit (ucast a :: u128) n \<or> \<not> bit (push_bit 64 (ucast b) :: u128) n" for n
    by (cases "n < 64") (auto simp: bit_simps dest: bit_imp_le_length)
  then have "(ucast a OR push_bit 64 (ucast b) :: u128) = ucast a + push_bit 64 (ucast b)"
    by (simp add: disjunctive_add)
  moreover have "unat a + unat b * 2 ^ 64 < 2 ^ 128" using u64_lt [of a] u64_lt [of b] by simp
  ultimately show ?thesis by (simp add: unat_word_ariths unat_push_bit unat_ucast_u64)
qed

lemma words_val_less: "words_val ws < 2 ^ (64 * length ws)"
proof (induction ws)
  case (Cons w ws)
  then have "2 ^ 64 * (words_val ws + 1) \<le> 2 ^ 64 * 2 ^ (64 * length ws)" by (intro mult_le_mono2) simp
  then show ?case using u64_lt [of w] by (simp add: power_add)
qed simp

lemma split_u128: "unat (ucast w :: u64) + 2 ^ 64 * unat (ucast (drop_bit 64 w) :: u64) = unat (w :: u128)"
proof -
  have "unat w < 2 ^ 64 * 2 ^ 64" using u128_less [of w] by simp
  then have "unat w div 2 ^ 64 < 2 ^ 64" by (rule less_mult_imp_div_less)
  then show ?thesis by (simp add: unat_ucast unat_drop_bit)
qed

lemma split_le_val: "words_val (split_le x) = u256_val x"
  using split_u128 [of "low x"] split_u128 [of "high x"] by (simp add: split_le_def u256_val_def algebra_simps)

lemma list_4: "length xs = 4 \<Longrightarrow> xs = [xs ! 0, xs ! 1, xs ! 2, xs ! 3]"
  by (auto simp: eval_nat_numeral length_Suc_conv)

lemma mul_u64_val:
  "u256_val (fst (mul_u64 x r)) = u256_val x * unat r mod 2 ^ 256"
  "snd (mul_u64 x r) \<longleftrightarrow> 2 ^ 256 \<le> u256_val x * unat r"
proof -
  obtain ws c where m: "mul_words r 0 (split_le x) = (ws, c)" by fastforce
  have len: "length (split_le x) = 4" by (simp add: split_le_def)
  from mul_words_val [OF _ m] have w: "words_val ws + 2 ^ 256 * unat c = u256_val x * unat r" "length ws = 4"
    by (simp_all add: len split_le_val mult.commute)
  have less: "words_val ws < 2 ^ 256" using words_val_less [of ws] w(2) by simp
  have "u256_val (fst (mul_u64 x r)) = words_val [ws ! 0, ws ! 1, ws ! 2, ws ! 3]"
    by (simp add: mul_u64_def m Let_def u256_limbs join_words)
  also have "\<dots> = words_val ws" using list_4 [OF w(2)] by simp
  finally have v: "u256_val (fst (mul_u64 x r)) = words_val ws" .
  show "u256_val (fst (mul_u64 x r)) = u256_val x * unat r mod 2 ^ 256"
    unfolding v w(1) [symmetric] using less by simp
  show "snd (mul_u64 x r) \<longleftrightarrow> 2 ^ 256 \<le> u256_val x * unat r"
  proof -
    have "snd (mul_u64 x r) \<longleftrightarrow> unat c \<noteq> 0" by (auto simp: mul_u64_def m Let_def unat_gt_0)
    then show ?thesis unfolding w(1) [symmetric] using less by (cases "unat c") auto
  qed
qed


lemma low_u64_shr: "i < 4 \<Longrightarrow> unat (low_u64 (wrapping_shr y (64 * i))) = u256_val y div 2 ^ (64 * i) mod 2 ^ 64"
proof -
  assume "i < 4"
  then have "(64 * i) mod 256 = 64 * i" by simp
  then have v: "u256_val (wrapping_shr y (64 * i)) = u256_val y div 2 ^ (64 * i)" by (simp add: wrapping_shr_val)
  have "unat (low_u64 z) = u256_val z mod 2 ^ 64" for z
  proof -
    have "u256_val z mod 2 ^ 64 = (unat (high z) * 2 ^ 64 * 2 ^ 64 + unat (low z)) mod 2 ^ 64"
      by (simp add: u256_val_def mult.commute)
    also have "\<dots> = unat (low z) mod 2 ^ 64" by (rule mod_mult_self3)
    finally show ?thesis by (simp add: low_u64_def unat_ucast)
  qed
  then show ?thesis by (simp add: v)
qed

lemma partial_product:
  assumes "i < 4"
  shows "u256_val (wrapping_shl (fst (mul_u64 x w)) (64 * i)) = u256_val x * (unat w * 2 ^ (64 * i)) mod 2 ^ 256"
proof -
  have "(64 * i) mod 256 = 64 * i" using assms by simp
  then have "u256_val (wrapping_shl (fst (mul_u64 x w)) (64 * i)) = (u256_val x * unat w mod 2 ^ 256) * 2 ^ (64 * i) mod 2 ^ 256"
    by (simp add: wrapping_shl_val mul_u64_val)
  also have "\<dots> = u256_val x * (unat w * 2 ^ (64 * i)) mod 2 ^ 256" by (simp add: mod_mult_left_eq mult.assoc)
  finally show ?thesis .
qed

lemma mul_upto_val: "k \<le> 4 \<Longrightarrow> u256_val (mul_upto x y k) = u256_val x * (u256_val y mod 2 ^ (64 * k)) mod 2 ^ 256"
proof (induction k)
  case 0
  then show ?case by (simp add: mul_upto_def u256_val_simps)
next
  case (Suc k)
  define w where "w = low_u64 (wrapping_shr y (64 * k))"
  have "mul_upto x y (Suc k) = u256_wrapping_add (mul_upto x y k) (wrapping_shl (fst (mul_u64 x w)) (64 * k))"
    by (simp add: mul_upto_def w_def Let_def split_beta)
  then have "u256_val (mul_upto x y (Suc k)) =
      (u256_val x * (u256_val y mod 2 ^ (64 * k)) mod 2 ^ 256 + u256_val x * (unat w * 2 ^ (64 * k)) mod 2 ^ 256) mod 2 ^ 256"
    using Suc partial_product [of k x w] by (simp add: u256_wrapping_add_def overflowing_add_eq)
  also have "\<dots> = u256_val x * (u256_val y mod 2 ^ (64 * k) + unat w * 2 ^ (64 * k)) mod 2 ^ 256"
    by (simp add: mod_add_eq distrib_left)
  also have "unat w = u256_val y div 2 ^ (64 * k) mod 2 ^ 64" using Suc.prems by (simp add: w_def low_u64_shr)
  also have "u256_val y mod 2 ^ (64 * k) + (u256_val y div 2 ^ (64 * k) mod 2 ^ 64) * 2 ^ (64 * k) = u256_val y mod 2 ^ (64 * Suc k)"
    by (simp add: power_add mod_mult2_eq mult.commute)
  finally show ?case .
qed

lemma overflowing_mul_val:
  "u256_val (fst (overflowing_mul x y)) = u256_val x * (u256_val y mod 2 ^ 192 + u256_val y div 2 ^ 192) mod 2 ^ 256"
proof -
  define w where "w = low_u64 (wrapping_shr y 192)"
  have "fst (overflowing_mul x y) = u256_wrapping_add (mul_upto x y 3) (fst (mul_u64 x w))"
    by (simp add: overflowing_mul_def mul_upto_def u256_wrapping_add_def w_def Let_def split_beta)
  then have "u256_val (fst (overflowing_mul x y)) =
      (u256_val x * (u256_val y mod 2 ^ 192) mod 2 ^ 256 + u256_val x * unat w mod 2 ^ 256) mod 2 ^ 256"
    using mul_upto_val [of 3 x y] by (simp add: u256_wrapping_add_def overflowing_add_eq mul_u64_val)
  moreover have "unat w = u256_val y div 2 ^ 192"
  proof -
    have "u256_val y < 2 ^ 64 * 2 ^ 192" using u256_val_less [of y] by simp
    then have "u256_val y div 2 ^ 192 < 2 ^ 64" by (rule less_mult_imp_div_less)
    then show ?thesis using low_u64_shr [of 3 y] by (simp add: w_def)
  qed
  ultimately show ?thesis by (simp add: mod_add_eq distrib_left)
qed

section \<open>Division\<close>

lemma or_fresh_bit:
  fixes w :: u128
  assumes "n < 128" and "2 ^ Suc n dvd unat w"
  shows "unat (w OR push_bit n 1) = unat w + 2 ^ n"
proof -
  from assms(2) obtain m where m: "unat w = 2 ^ Suc n * m" by (rule dvdE)
  have p: "(2 :: nat) ^ 128 = 2 ^ Suc n * 2 ^ (127 - n)" using assms(1) by (simp flip: power_Suc power_add)
  have "bit (unat w) n \<longleftrightarrow> odd (unat w div 2 ^ n)" by (simp add: bit_iff_odd)
  also have "unat w div 2 ^ n = 2 * m" unfolding m by simp
  finally have "\<not> bit w n" by (simp add: bit_unsigned_iff)
  then have "w OR push_bit n 1 = w + push_bit n 1"
    by (intro disjunctive_add [symmetric]) (auto simp: bit_simps)
  moreover have "(2 :: nat) ^ n < 2 ^ 128" using assms(1) by (intro power_strict_increasing) simp_all
  then have "unat (push_bit n 1 :: u128) = 2 ^ n" unfolding unat_push_bit by simp
  moreover have "m < 2 ^ (127 - n)" using u128_less [of w] unfolding m p by (simp only: mult_less_cancel1)
  then have "2 ^ Suc n * (m + 1) \<le> (2 :: nat) ^ Suc n * 2 ^ (127 - n)" by (intro mult_le_mono2) simp
  then have "2 ^ Suc n * m + 2 ^ Suc n \<le> (2 :: nat) ^ Suc n * 2 ^ (127 - n)" by (simp only: distrib_left mult_1_right)
  then have "unat w + 2 ^ n < 2 ^ 128" unfolding m p power_Suc by (rule less_le_trans [rotated]) simp
  ultimately show ?thesis by (simp add: unat_add_128)
qed

lemma set_quotient_bit_val:
  assumes s: "s < 256" and d: "2 ^ Suc s dvd u256_val q"
  shows "u256_val (set_quotient_bit s q) = u256_val q + 2 ^ s"
proof (cases "s < 128")
  case True
  then have "(2 :: nat) ^ Suc s dvd unat (high q) * 2 ^ 128" by (intro dvd_mult le_imp_power_dvd) simp
  then have "2 ^ Suc s dvd unat (low q)" using d unfolding u256_val_def by (simp add: dvd_add_right_iff)
  with True show ?thesis
    by (simp add: set_quotient_bit_def u256_limbs or_fresh_bit del: push_bit_of_1 power_Suc) (simp add: u256_val_def)
next
  case False
  define n where "n = s - 128"
  have n: "n < 128" "s = n + 128" using s False by (auto simp: n_def)
  from d obtain m where "u256_val q = 2 ^ Suc s * m" by (rule dvdE)
  then have "u256_val q = 2 ^ Suc n * m * 2 ^ 128" by (simp add: n(2) power_add)
  moreover have "unat (high q) = u256_val q div 2 ^ 128" unfolding u256_val_def using u128_less [of "low q"] by simp
  ultimately have "2 ^ Suc n dvd unat (high q)" by (metis dvd_triv_left nonzero_mult_div_cancel_right power_not_zero zero_neq_numeral)
  moreover have "s div 128 = 1" "s mod 128 = n" using n by simp_all
  ultimately show ?thesis
    using n by (simp add: set_quotient_bit_def u256_limbs or_fresh_bit power_add del: push_bit_of_1 power_Suc) (simp add: u256_val_def algebra_simps)
qed

lemma div_step_val:
  assumes "div_step s sub sc ret = (ret', sub')" "s < 256" "0 < D" "u256_val sc = D * 2 ^ s"
    "u256_val sub < D * 2 ^ Suc s" "2 ^ Suc s dvd u256_val ret"
  shows "u256_val sub' < D * 2 ^ s" "2 ^ s dvd u256_val ret'" "u256_val sub' mod D = u256_val sub mod D"
    "u256_val ret' + u256_val sub' div D = u256_val ret + u256_val sub div D"
proof -
  have d: "(2 :: nat) ^ s dvd 2 ^ Suc s" by (rule le_imp_power_dvd) simp
  have *: "u256_val sub' < D * 2 ^ s \<and> 2 ^ s dvd u256_val ret' \<and> u256_val sub' mod D = u256_val sub mod D
      \<and> u256_val ret' + u256_val sub' div D = u256_val ret + u256_val sub div D"
  proof (cases "sc \<le> sub")
    case True
    then have le: "D * 2 ^ s \<le> u256_val sub" using assms(4) by (simp add: u256_le_iff)
    have r: "ret' = set_quotient_bit s ret" "u256_val sub' = u256_val sub - D * 2 ^ s"
      using assms(1,4) True le by (auto simp: div_step_def u256_wrapping_sub_def overflowing_sub_eq)
    then have e: "u256_val sub = u256_val sub' + D * 2 ^ s" using le by simp
    have "u256_val sub div D = u256_val sub' div D + 2 ^ s" unfolding e using assms(3) by simp
    moreover have "u256_val ret' = u256_val ret + 2 ^ s" unfolding r(1) using assms(2,6) by (rule set_quotient_bit_val)
    moreover have "2 ^ s dvd u256_val ret" using d assms(6) by (rule dvd_trans)
    ultimately show ?thesis using assms(5) le unfolding e by simp
  next
    case False
    then have "ret' = ret" "sub' = sub" using assms(1) by (auto simp: div_step_def)
    moreover have "u256_val sub < D * 2 ^ s" using False assms(4) by (simp add: u256_le_iff)
    ultimately show ?thesis using d assms(6) by (auto intro: dvd_trans)
  qed
  then show "u256_val sub' < D * 2 ^ s" "2 ^ s dvd u256_val ret'" "u256_val sub' mod D = u256_val sub mod D"
    "u256_val ret' + u256_val sub' div D = u256_val ret + u256_val sub div D" by simp_all
qed

lemma div_rem_loop_step:
  "div_rem_loop s sub sc ret =
     (case div_step s sub sc ret of (ret, sub) \<Rightarrow>
       (case s of 0 \<Rightarrow> (ret, sub) | Suc n \<Rightarrow> div_rem_loop n sub (wrapping_shr sc 1) ret))"
  by (subst div_rem_loop.simps) (simp add: div_step_def Let_def split: nat.splits)

lemma div_rem_loop_val:
  assumes "s < 256" "0 < D" "u256_val sc = D * 2 ^ s" "u256_val sub < D * 2 ^ Suc s" "2 ^ Suc s dvd u256_val ret"
    "div_rem_loop s sub sc ret = (q, r)"
  shows "u256_val q = u256_val ret + u256_val sub div D \<and> u256_val r = u256_val sub mod D"
  using assms
proof (induction s arbitrary: sub sc ret)
  case 0
  obtain ret' sub' where st: "div_step 0 sub sc ret = (ret', sub')" by fastforce
  note v = div_step_val [OF st 0(1-5)]
  have "q = ret'" "r = sub'" using 0(6) by (simp_all add: div_rem_loop_step st)
  then show ?case using v by simp
next
  case (Suc s)
  obtain ret' sub' where st: "div_step (Suc s) sub sc ret = (ret', sub')" by fastforce
  note v = div_step_val [OF st Suc.prems(1-5)]
  have "div_rem_loop s sub' (wrapping_shr sc 1) ret' = (q, r)"
    using Suc.prems(6) by (subst (asm) div_rem_loop_step) (simp add: st)
  moreover have "u256_val (wrapping_shr sc 1) = D * 2 ^ s" using Suc.prems(3) by (simp add: wrapping_shr_val)
  ultimately show ?case using Suc.IH [of "wrapping_shr sc 1" sub' ret'] Suc.prems(1,2) v by simp
qed

lemma div_rem_val:
  "div_rem x y = Some (q, r) \<Longrightarrow> u256_val y \<noteq> 0 \<and> u256_val q = u256_val x div u256_val y \<and> u256_val r = u256_val x mod u256_val y"
  "div_rem x y = None \<longleftrightarrow> u256_val y = 0"
proof -
  show none: "div_rem x y = None \<longleftrightarrow> u256_val y = 0"
    using bit_length_le [of "u256_val y" 0] by (auto simp: div_rem_def Let_def u256_bits_eq)
  assume some: "div_rem x y = Some (q, r)"
  then have y: "u256_val y \<noteq> 0" using none by auto
  define a b where "a = bit_length (u256_val x)" and "b = bit_length (u256_val y)"
  have xa: "u256_val x < 2 ^ a" and yb: "u256_val y < 2 ^ b" unfolding a_def b_def by (simp_all flip: bit_length_le)
  have b0: "b \<noteq> 0" using y yb by (cases b) auto
  show "u256_val y \<noteq> 0 \<and> u256_val q = u256_val x div u256_val y \<and> u256_val r = u256_val x mod u256_val y"
  proof (cases "a < b")
    case True
    then have "\<not> u256_val y < 2 ^ a" unfolding b_def using bit_length_le [of "u256_val y" a] by simp
    then have "u256_val x < u256_val y" using xa by simp
    then show ?thesis using y some True b0 by (auto simp: div_rem_def Let_def u256_bits_eq a_def b_def u256_val_simps)
  next
    case False
    define s where "s = a - b"
    have a256: "a \<le> 256" unfolding a_def bit_length_le by (rule u256_val_less)
    have s: "s < 256" using a256 b0 False by (simp add: s_def)
    have "\<not> u256_val y < 2 ^ (b - 1)"
      using bit_length_le [of "u256_val y" "b - 1"] b0 unfolding b_def [symmetric] by linarith
    then have low: "2 ^ (b - 1) \<le> u256_val y" by simp
    have "u256_val y * 2 ^ s < 2 ^ b * 2 ^ s" using yb by simp
    also have "\<dots> = 2 ^ a" using False by (simp add: s_def flip: power_add)
    also have "\<dots> \<le> 2 ^ 256" using a256 by (intro power_increasing) simp_all
    finally have sc: "u256_val (wrapping_shl y s) = u256_val y * 2 ^ s" using s by (simp add: wrapping_shl_val)
    have "a = b - 1 + Suc s" using False b0 by (simp add: s_def)
    then have "(2 :: nat) ^ a = 2 ^ (b - 1) * 2 ^ Suc s" by (simp only: power_add)
    also have "\<dots> \<le> u256_val y * 2 ^ Suc s" using low by (rule mult_le_mono1)
    finally have sub: "u256_val x < u256_val y * 2 ^ Suc s" using xa by simp
    have "div_rem_loop s x (wrapping_shl y s) u256_ZERO = (q, r)"
      using some False b0 by (simp add: div_rem_def Let_def u256_bits_eq s_def a_def b_def)
    then show ?thesis
      using div_rem_loop_val [OF s _ sc sub, of u256_ZERO q r] y by (simp add: u256_val_simps)
  qed
qed


lemma u256_div_rem_Some:
  assumes "u256_val y \<noteq> 0"
  obtains q r where "u256_div x y = Some q" "u256_rem x y = Some r"
    "u256_val q = u256_val x div u256_val y" "u256_val r = u256_val x mod u256_val y"
proof -
  obtain q r where "div_rem x y = Some (q, r)" using assms div_rem_val(2) [of x y] by (cases "div_rem x y") auto
  with div_rem_val(1) [OF this] that show thesis by (simp add: u256_div_def u256_rem_def)
qed

lemma u256_inverse_val:
  "\<exists>y. u256_inverse x = Some y \<and> u256_val y = (if u256_val x \<le> 1 then 2 ^ 256 - 1 else 2 ^ 256 div (u256_val x + 1))"
proof (cases "u256_val x \<le> 1 \<or> u256_val x = 2 ^ 256 - 1")
  case True
  then show ?thesis by (auto simp: u256_inverse_def u256_is_iff u256_val_simps le_Suc_eq)
next
  case False
  define n where "n = u256_val x + 1"
  have n: "0 < n" "n < 2 ^ 256" using False u256_val_less [of x] by (auto simp: n_def)
  then have inc: "u256_val (wrapping_inc x) = n" by (simp add: wrapping_inc_eq n_def)
  obtain q where q: "u256_div (u256_not x) (wrapping_inc x) = Some q"
      "u256_val q = u256_val (u256_not x) div u256_val (wrapping_inc x)"
    using u256_div_rem_Some [of "wrapping_inc x" "u256_not x"] n inc by auto
  have "u256_val (u256_not x) = 2 ^ 256 - n" by (simp add: u256_not_val n_def)
  then have "u256_val q + 1 = 2 ^ 256 div n" using q(2) n inc by (simp add: le_div_geq)
  moreover have "2 ^ 256 div n < 2 ^ 256" using False n by (intro div_less_dividend) (simp_all add: n_def)
  ultimately have "u256_val (wrapping_inc q) = 2 ^ 256 div n" by (simp add: wrapping_inc_eq)
  moreover have "u256_inverse x = Some (wrapping_inc q)" using False q(1) by (simp add: u256_inverse_def u256_is_iff)
  ultimately show ?thesis using False by (simp add: n_def)
qed

lemma saturating_to_u128_val: "unat (saturating_to_u128 x) = min (u256_val x) (2 ^ 128 - 1)"
proof -
  have m: "unat (- 1 :: u128) = 2 ^ 128 - 1" by (simp add: unsigned_minus_1_eq_mask mask_eq_exp_minus_1)
  have "unat (low x) = u256_val x" if "u256_val x \<le> 2 ^ 128 - 1"
    using that unfolding u256_val_def by (cases "unat (high x)") auto
  then show ?thesis by (simp add: saturating_to_u128_def u256_less_iff u256_val_simps m low_u128_def)
qed

section \<open>Bytes and text\<close>

lemma u256_from_le_bytes_val: "length bs = 32 \<Longrightarrow> u256_val (u256_from_le_bytes bs) = le_value bs"
proof -
  assume l: "length bs = 32"
  have u: "unat (from_le_bytes a :: u128) = le_value a" if "length a = 16" for a
    using that le_value_less [of a] by (simp add: from_le_bytes_def unat_of_nat)
  have "le_value bs = le_value (take 16 bs @ drop 16 bs)" by simp
  also have "\<dots> = le_value (take 16 bs) + 2 ^ 128 * le_value (drop 16 bs)" unfolding le_value_append using l by simp
  finally show ?thesis using l by (simp add: u256_from_le_bytes_def split_in_half_def Let_def u256_limbs u)
qed

lemma u256_from_be_bytes_eq: "length bs = 32 \<Longrightarrow> u256_from_be_bytes bs = u256_from_le_bytes (rev bs)"
  by (simp add: u256_from_be_bytes_def u256_from_le_bytes_def split_in_half_def from_be_bytes_def rev_take rev_drop Let_def)

lemma u256_to_le_bytes_val: "u256_to_le_bytes x = le_digits 32 (u256_val x)"
proof -
  have "u256_val x div 256 ^ 16 = unat (high x)" "u256_val x mod 256 ^ 16 = unat (low x)"
    unfolding u256_val_def using u128_less [of "low x"] by simp_all
  moreover have "le_digits 16 n = le_digits 16 (n mod 256 ^ 16)" for n
    using le_digits_value [of "le_digits 16 n"] by (simp add: le_value_digits)
  ultimately have "le_digits 16 (u256_val x) = le_digits 16 (unat (low x))" by metis
  with \<open>u256_val x div 256 ^ 16 = unat (high x)\<close> show ?thesis
    using le_digits_add [of 16 16 "u256_val x"] by (simp add: u256_to_le_bytes_def to_le_bytes_def)
qed

lemma u256_to_be_bytes_eq: "u256_to_be_bytes x = rev (u256_to_le_bytes x)"
  by (simp add: u256_to_be_bytes_def u256_to_le_bytes_def to_be_bytes_def)

lemma ten_val: "u256_val (U256 0 10) = 10"
  by (simp add: u256_limbs)

lemma drop_update: "i < length xs \<Longrightarrow> drop i (xs[i := c]) = c # drop (Suc i) xs"
  by (simp add: drop_update_swap Cons_nth_drop_Suc [symmetric])

lemma fmt_decimal_step:
  obtains q where "u256_val q = u256_val cur div 10"
    "fmt_decimal_loop i cur buf =
       (let buf = buf[i := digit_char (u256_val cur mod 10)] in
        if u256_val cur < 10 then Some (drop i buf) else case i of 0 \<Rightarrow> None | Suc j \<Rightarrow> fmt_decimal_loop j q buf)"
proof -
  obtain q r where d: "u256_div cur (U256 0 10) = Some q" "u256_rem cur (U256 0 10) = Some r"
      "u256_val q = u256_val cur div 10" "u256_val r = u256_val cur mod 10"
    using u256_div_rem_Some [of "U256 0 10" cur] unfolding ten_val by auto
  have "unat (high r) = 0" "unat (low r) = u256_val cur mod 10"
  proof -
    have "u256_val r < 10" by (simp add: d(4))
    then show "unat (high r) = 0" unfolding u256_val_def by (cases "unat (high r)") auto
    then show "unat (low r) = u256_val cur mod 10" using d(4) unfolding u256_val_def by simp
  qed
  then have digit: "unat (ucast (low_u128 r) :: u8) = u256_val cur mod 10" by (simp add: low_u128_def unat_ucast)
  have "is_zero q \<longleftrightarrow> u256_val cur < 10" by (simp add: u256_is_iff d(3) div_eq_0_iff)
  with d digit show thesis
    by (intro that [OF d(3)]) (subst fmt_decimal_loop.simps, simp add: Let_def split: nat.splits)
qed

lemma fmt_decimal_loop_val:
  "length buf = 78 \<Longrightarrow> i < 78 \<Longrightarrow> u256_val cur < 10 ^ Suc i \<Longrightarrow>
     fmt_decimal_loop i cur buf = Some (dec_string (u256_val cur) @ drop (Suc i) buf)"
proof (induction i arbitrary: cur buf)
  case 0
  obtain q where "fmt_decimal_loop 0 cur buf =
       (let buf = buf[0 := digit_char (u256_val cur mod 10)] in
        if u256_val cur < 10 then Some (drop 0 buf) else case 0 of 0 \<Rightarrow> None | Suc j \<Rightarrow> fmt_decimal_loop j q buf)"
    by (rule fmt_decimal_step)
  then show ?case using 0 drop_update [of 0 buf] by (simp add: dec_string.simps [of "u256_val cur"])
next
  case (Suc i)
  obtain q where q: "u256_val q = u256_val cur div 10" "fmt_decimal_loop (Suc i) cur buf =
       (let buf = buf[Suc i := digit_char (u256_val cur mod 10)] in
        if u256_val cur < 10 then Some (drop (Suc i) buf) else case Suc i of 0 \<Rightarrow> None | Suc j \<Rightarrow> fmt_decimal_loop j q buf)"
    by (rule fmt_decimal_step)
  have "u256_val q < 10 ^ Suc i" unfolding q(1) using Suc.prems(3) by (simp add: less_mult_imp_div_less mult.commute)
  then show ?case
    using Suc q drop_update [of "Suc i" buf] by (simp add: dec_string.simps [of "u256_val cur"] Let_def)
qed

lemma u256_display_val: "u256_display x = Some (dec_string (u256_val x))"
proof (cases "is_zero x")
  case True
  then show ?thesis by (simp add: u256_display_def u256_is_iff dec_string_0)
next
  case False
  have "u256_val x < 10 ^ Suc 77" using u256_val_less [of x] by simp
  then show ?thesis using False fmt_decimal_loop_val by (simp add: u256_display_def DIGITS_def)
qed

section \<open>The interface of wrapping arithmetic\<close>

text \<open>
  What clients rely on: values are below a modulus and determine the integer, addition and subtraction wrap. The
  laws of a commutative group follow once and for all.
\<close>

locale wrapping =
  fixes val :: "'a \<Rightarrow> nat" and N :: nat and add :: "'a \<Rightarrow> 'a \<Rightarrow> 'a" and sub :: "'a \<Rightarrow> 'a \<Rightarrow> 'a"
  assumes val_inject: "val x = val y \<Longrightarrow> x = y"
    and val_less: "val x < N"
    and val_add: "val (add x y) = (val x + val y) mod N"
    and val_sub: "val (sub x y) = (N + val x - val y) mod N"
begin

lemma add_commute: "add x y = add y x"
  by (rule val_inject) (simp add: val_add add.commute)

lemma add_assoc: "add (add x y) z = add x (add y z)"
  by (rule val_inject) (simp add: val_add mod_add_left_eq mod_add_right_eq add.assoc)

lemma add_sub_cancel: "sub (add x y) y = x"
proof (rule val_inject)
  have "N + (val x + val y) mod N - val y = (val x + val y) mod N + (N - val y)" using val_less [of y] by simp
  then have "val (sub (add x y) y) = (val x + val y + (N - val y)) mod N"
    by (simp add: val_sub val_add mod_add_left_eq)
  also have "\<dots> = (val x + N) mod N" using val_less [of y] by simp
  finally show "val (sub (add x y) y) = val x" using val_less [of x] by simp
qed

lemma sub_add_cancel: "add (sub x y) y = x"
proof (rule val_inject)
  have "val (add (sub x y) y) = (N + val x - val y + val y) mod N" by (simp add: val_sub val_add mod_add_left_eq)
  also have "\<dots> = (N + val x) mod N" using val_less [of y] by simp
  finally show "val (add (sub x y) y) = val x" using val_less [of x] by simp
qed

end

lemma u256_add_val: "u256_val (u256_add x y) = (u256_val x + u256_val y) mod 2 ^ 256"
  by (simp add: u256_add_def overflowing_add_eq)

lemma u256_sub_val: "u256_val (u256_sub x y) = (2 ^ 256 + u256_val x - u256_val y) mod 2 ^ 256"
proof (cases "u256_val y \<le> u256_val x")
  case True
  then have e: "2 ^ 256 + u256_val x - u256_val y = 2 ^ 256 + (u256_val x - u256_val y)" by simp
  have "u256_val x - u256_val y < 2 ^ 256" using u256_val_less [of x] by linarith
  then have "(2 ^ 256 + (u256_val x - u256_val y)) mod 2 ^ 256 = u256_val x - u256_val y"
    by (simp only: mod_add_self1 mod_less)
  then show ?thesis unfolding e by (simp only: u256_sub_def overflowing_sub_eq True if_True)
next
  case False
  then show ?thesis using u256_val_less [of y] by (simp add: u256_sub_def overflowing_sub_eq)
qed

interpretation u256: wrapping u256_val "2 ^ 256" u256_add u256_sub
  by unfold_locales (auto simp: u256_val_inject u256_val_less u256_add_val u256_sub_val simp del: power_numeral)

lemma u256_mul_val: "u256_val y < 2 ^ 192 \<Longrightarrow> u256_val (u256_mul x y) = u256_val x * u256_val y mod 2 ^ 256"
  by (simp add: u256_mul_def overflowing_mul_val)

lemma overflowing_mul_flag: "u256_val y < 2 ^ 192 \<Longrightarrow> \<not> snd (overflowing_mul x y)"
proof -
  assume y: "u256_val y < 2 ^ 192"
  define w where "w = low_u64 (wrapping_shr y 192)"
  have "unat w = 0" using low_u64_shr [of 3 y] y by (simp add: w_def)
  then have m: "u256_val (fst (mul_u64 x w)) = 0" "\<not> snd (mul_u64 x w)" by (simp_all add: mul_u64_val)
  have "snd (overflowing_mul x y) \<longleftrightarrow> snd (mul_u64 x w) \<or> snd (overflowing_add (mul_upto x y 3) (fst (mul_u64 x w)))"
    by (simp add: overflowing_mul_def mul_upto_def w_def Let_def split_beta)
  then show ?thesis using m u256_val_less [of "mul_upto x y 3"] by (simp add: overflowing_add_eq)
qed

lemma u256_from_u64: "u256_val (u256_from (ucast (w :: u64))) = unat w"
  by (simp add: u256_val_simps unat_ucast_u64)

section \<open>Properties\<close>

text \<open>
  C24: The two-limb integers refine arithmetic modulo \<open>2 ^ 256\<close>: sums and differences wrap and their flags are set
  exactly on overflow, the increment wraps, the complement is the distance to the largest value, shifts by the low eight bits of the amount multiply and divide by powers of two, the order is
  that of the values, \<open>bits\<close> is the bit length, and long division returns quotient and remainder, refused exactly
  for a zero divisor.
\<close>

theorem u256_refines_arithmetic:
  "u256_val (u256_add x y) = (u256_val x + u256_val y) mod 2 ^ 256
   \<and> (snd (overflowing_add x y) \<longleftrightarrow> 2 ^ 256 \<le> u256_val x + u256_val y)
   \<and> u256_val (u256_sub x y) = (2 ^ 256 + u256_val x - u256_val y) mod 2 ^ 256
   \<and> (snd (overflowing_sub x y) \<longleftrightarrow> u256_val x < u256_val y)
   \<and> u256_val (wrapping_inc x) = (u256_val x + 1) mod 2 ^ 256
   \<and> u256_val (u256_not x) = 2 ^ 256 - 1 - u256_val x
   \<and> u256_val (wrapping_shl x s) = u256_val x * 2 ^ (s mod 256) mod 2 ^ 256
   \<and> u256_val (wrapping_shr x s) = u256_val x div 2 ^ (s mod 256)
   \<and> (x \<le> y \<longleftrightarrow> u256_val x \<le> u256_val y)
   \<and> u256_bits x = bit_length (u256_val x)
   \<and> map_option (\<lambda>(q, r). (u256_val q, u256_val r)) (div_rem x y) =
       (if u256_val y = 0 then None else Some (u256_val x div u256_val y, u256_val x mod u256_val y))"
proof (intro conjI)
  show "map_option (\<lambda>(q, r). (u256_val q, u256_val r)) (div_rem x y) =
       (if u256_val y = 0 then None else Some (u256_val x div u256_val y, u256_val x mod u256_val y))"
    using div_rem_val [of x y] by (cases "div_rem x y") auto
qed (rule u256_add_val overflowing_add_eq u256_sub_val overflowing_sub_eq wrapping_inc_eq u256_not_val
    wrapping_shl_val wrapping_shr_val u256_le_iff u256_bits_eq)+

text \<open>
  Multiplication by a factor below \<open>2 ^ 192\<close> is the product modulo \<open>2 ^ 256\<close>, and \<open>mul_u64\<close> reports overflow
  exactly.
\<close>

theorem u256_mul_exact:
  assumes "u256_val y < 2 ^ 192"
  shows "u256_val (u256_mul x y) = u256_val x * u256_val y mod 2 ^ 256
   \<and> u256_val (fst (mul_u64 x w)) = u256_val x * unat w mod 2 ^ 256
   \<and> (snd (mul_u64 x w) \<longleftrightarrow> 2 ^ 256 \<le> u256_val x * unat w)"
  using u256_mul_val [OF assms] mul_u64_val [of x w] by blast

theorem u256_mul_exact_witness: "u256_val (u256_mul (U256 5 7) (U256 0 3)) = 15 * 2 ^ 128 + 21"
  using u256_mul_exact [of "U256 0 3" "U256 5 7" 0] by (simp add: u256_limbs)

text \<open>
  With a factor of \<open>2 ^ 192\<close> or more the product is wrong, because the last partial product is not shifted: one
  times \<open>2 ^ 192\<close> is one. The overflow flag is wrong too: below \<open>2 ^ 192\<close> it is never set, so that \<open>2 ^ 192\<close> times
  \<open>2 ^ 64\<close> is zero without overflow.
\<close>

theorem u256_mul_last_word:
  "u256_val (u256_mul x y) = u256_val x * (u256_val y mod 2 ^ 192 + u256_val y div 2 ^ 192) mod 2 ^ 256
   \<and> u256_mul u256_ONE (wrapping_shl u256_ONE 192) = u256_ONE
   \<and> (if u256_val y < 2 ^ 192 then \<not> snd (overflowing_mul x y) else True)
   \<and> overflowing_mul (wrapping_shl u256_ONE 192) (wrapping_shl u256_ONE 64) = (u256_ZERO, False)"
proof (intro conjI)
  show "u256_val (u256_mul x y) = u256_val x * (u256_val y mod 2 ^ 192 + u256_val y div 2 ^ 192) mod 2 ^ 256"
    unfolding u256_mul_def by (rule overflowing_mul_val)
  have p: "u256_val (wrapping_shl u256_ONE 192) = 2 ^ 192" "u256_val (wrapping_shl u256_ONE 64) = 2 ^ 64"
    by (simp_all add: wrapping_shl_val u256_val_simps)
  show "u256_mul u256_ONE (wrapping_shl u256_ONE 192) = u256_ONE"
    unfolding u256_val_inject [symmetric] u256_mul_def overflowing_mul_val p by (simp add: u256_val_simps)
  show "if u256_val y < 2 ^ 192 then \<not> snd (overflowing_mul x y) else True" using overflowing_mul_flag by simp
  have "u256_val (fst (overflowing_mul (wrapping_shl u256_ONE 192) (wrapping_shl u256_ONE 64))) = u256_val u256_ZERO"
    unfolding overflowing_mul_val p by (simp add: u256_val_simps)
  moreover have "\<not> snd (overflowing_mul (wrapping_shl u256_ONE 192) (wrapping_shl u256_ONE 64))"
    by (rule overflowing_mul_flag) (simp add: p)
  ultimately show "overflowing_mul (wrapping_shl u256_ONE 192) (wrapping_shl u256_ONE 64) = (u256_ZERO, False)"
    by (simp add: u256_val_inject prod_eq_iff)
qed

text \<open>
  The inverse is \<open>2 ^ 256 / (x + 1)\<close> rounded down, except for zero and one, where it is the largest integer; the
  division inside never fails.
\<close>

theorem u256_inverse_exact:
  "map_option u256_val (u256_inverse x) =
     Some (if u256_val x \<le> 1 then 2 ^ 256 - 1 else 2 ^ 256 div (u256_val x + 1))"
  using u256_inverse_val [of x] by auto

text \<open>
  Text and bytes: the decimal digits always fit the buffer of 78 characters and are those of the value, and the
  two byte orders hold the 32 base-256 digits of the value and read back.
\<close>

theorem u256_text_and_bytes:
  "u256_display x = Some (dec_string (u256_val x))
   \<and> u256_to_le_bytes x = le_digits 32 (u256_val x) \<and> u256_to_be_bytes x = rev (u256_to_le_bytes x)
   \<and> u256_from_le_bytes (u256_to_le_bytes x) = x \<and> u256_from_be_bytes (u256_to_be_bytes x) = x"
proof -
  have l: "length (u256_to_le_bytes x) = 32" by (simp add: u256_to_le_bytes_val)
  have "u256_val (u256_from_le_bytes (u256_to_le_bytes x)) = le_value (le_digits 32 (u256_val x))"
    using u256_from_le_bytes_val [OF l] by (simp add: u256_to_le_bytes_val)
  also have "\<dots> = u256_val x" using u256_val_less [of x] by (simp add: le_value_digits)
  finally have "u256_from_le_bytes (u256_to_le_bytes x) = x" by (simp add: u256_val_inject)
  then show ?thesis
    using l by (simp add: u256_display_val u256_to_le_bytes_val u256_to_be_bytes_eq u256_from_be_bytes_eq)
qed

end
