(* ===== verification/Pow.thy ===== *)
theory Pow
  imports Uint256 Encode
begin

text \<open>
  Proof of work (\<open>src/litecoin/src/pow.rs\<close>): targets, work, the compact form of a target, difficulty and its
  adjustment with the parameters of the networks (\<open>src/litecoin/src/consensus/params.rs\<close>). \<open>Target\<close> and \<open>Work\<close>
  wrap a 256-bit integer and \<open>CompactTarget\<close> a 32-bit one; here they are those integers. A panic is \<^const>\<open>None\<close>.
\<close>

type_synonym target = U256
type_synonym pow_work = U256
type_synonym compact_target = u32

section \<open>Networks and their parameters\<close>

datatype Network = Bitcoin_net | Testnet4 | Signet | Regtest

definition target_ZERO :: target where "target_ZERO = u256_ZERO"
definition MAX_ATTAINABLE_MAINNET :: target where "MAX_ATTAINABLE_MAINNET = U256 (push_bit 88 0x0FFFF0) 0"
definition MAX_ATTAINABLE_TESTNET :: target where "MAX_ATTAINABLE_TESTNET = U256 (push_bit 88 0x0FFFFF) 0"
definition MAX_ATTAINABLE_REGTEST :: target where "MAX_ATTAINABLE_REGTEST = U256 (push_bit 96 0x7FFFFF00) 0"
definition MAX_ATTAINABLE_SIGNET :: target where "MAX_ATTAINABLE_SIGNET = U256 (push_bit 80 0x0377AE00) 0"

definition target_MAX :: target where "target_MAX = U256 (push_bit 88 0x0FFFF0) 0"

record pow_params =
  network :: Network
  bip16_time :: u32
  bip34_height :: u32
  bip65_height :: u32
  bip66_height :: u32
  rule_change_activation_threshold :: u32
  miner_confirmation_window :: u32
  max_attainable_target :: target
  pow_target_spacing :: u64
  pow_target_timespan :: u64
  allow_min_difficulty_blocks :: bool
  no_pow_retargeting :: bool

definition MAINNET :: pow_params where
  "MAINNET = \<lparr> network = Bitcoin_net, bip16_time = 1333238400, bip34_height = 710000, bip65_height = 918684,
     bip66_height = 811879, rule_change_activation_threshold = 6048, miner_confirmation_window = 8064,
     max_attainable_target = MAX_ATTAINABLE_MAINNET, pow_target_spacing = 150, pow_target_timespan = 150 * 2016,
     allow_min_difficulty_blocks = False, no_pow_retargeting = False \<rparr>"

definition TESTNET4 :: pow_params where
  "TESTNET4 = \<lparr> network = Testnet4, bip16_time = 1333238400, bip34_height = 76, bip65_height = 76, bip66_height = 76,
     rule_change_activation_threshold = 1512, miner_confirmation_window = 2016,
     max_attainable_target = MAX_ATTAINABLE_TESTNET, pow_target_spacing = 150, pow_target_timespan = 150 * 2016,
     allow_min_difficulty_blocks = True, no_pow_retargeting = False \<rparr>"

definition SIGNET :: pow_params where
  "SIGNET = \<lparr> network = Signet, bip16_time = 1333238400, bip34_height = 1, bip65_height = 1, bip66_height = 1,
     rule_change_activation_threshold = 1916, miner_confirmation_window = 2016,
     max_attainable_target = MAX_ATTAINABLE_SIGNET, pow_target_spacing = 10 * 60,
     pow_target_timespan = 14 * 24 * 60 * 60, allow_min_difficulty_blocks = False, no_pow_retargeting = False \<rparr>"

definition REGTEST :: pow_params where
  "REGTEST = \<lparr> network = Regtest, bip16_time = 1333238400, bip34_height = 100000000, bip65_height = 1351,
     bip66_height = 1251, rule_change_activation_threshold = 108, miner_confirmation_window = 144,
     max_attainable_target = MAX_ATTAINABLE_REGTEST, pow_target_spacing = 150, pow_target_timespan = 150 * 2016,
     allow_min_difficulty_blocks = True, no_pow_retargeting = True \<rparr>"

fun params_new :: "Network \<Rightarrow> pow_params" where
  "params_new Bitcoin_net = MAINNET"
| "params_new Testnet4 = TESTNET4"
| "params_new Signet = SIGNET"
| "params_new Regtest = REGTEST"

definition difficulty_adjustment_interval :: "pow_params \<Rightarrow> u64" where
  "difficulty_adjustment_interval p = pow_target_timespan p div pow_target_spacing p"

section \<open>Targets, work and difficulty\<close>

definition from_compact :: "compact_target \<Rightarrow> target" where
  "from_compact bits =
     (let unshifted_expt = drop_bit 24 bits;
          (mant, expt) = (if unshifted_expt \<le> 3
            then (drop_bit (8 * (3 - unat unshifted_expt)) (bits AND 0xFFFFFF), 0)
            else (bits AND 0xFFFFFF, 8 * (unat unshifted_expt - 3))) in
      if 0x7FFFFF < mant then target_ZERO else wrapping_shl (u256_from (ucast mant)) expt)"

definition to_compact_lossy :: "target \<Rightarrow> compact_target" where
  "to_compact_lossy t =
     (let size = (u256_bits t + 7) div 8;
          compact = (if size \<le> 3 then ucast (push_bit (8 * (3 - size)) (low_u64 t))
                     else low_u32 (wrapping_shr t (8 * (size - 3))));
          (compact, size) = (if compact AND 0x00800000 \<noteq> 0 then (drop_bit 8 compact, size + 1) else (compact, size)) in
      compact OR push_bit 24 (of_nat size))"

definition is_met_by :: "target \<Rightarrow> bytes \<Rightarrow> bool" where
  "is_met_by t hash \<longleftrightarrow> u256_from_le_bytes hash \<le> t"

definition to_work :: "target \<Rightarrow> pow_work option" where "to_work t = u256_inverse t"
definition to_target :: "pow_work \<Rightarrow> target option" where "to_target w = u256_inverse w"
definition work_add :: "pow_work \<Rightarrow> pow_work \<Rightarrow> pow_work" where "work_add a b = u256_add a b"
definition work_sub :: "pow_work \<Rightarrow> pow_work \<Rightarrow> pow_work" where "work_sub a b = u256_sub a b"

definition difficulty :: "target \<Rightarrow> pow_params \<Rightarrow> u128 option" where
  "difficulty t params =
     (if t = u256_ZERO then None
      else map_option saturating_to_u128 (u256_div (max_attainable_target params) t))"

definition min_transition_threshold :: "target \<Rightarrow> target" where
  "min_transition_threshold t = wrapping_shr t 2"

definition max_transition_threshold_unchecked :: "target \<Rightarrow> target" where
  "max_transition_threshold_unchecked t = wrapping_shl t 2"

definition max_transition_threshold :: "target \<Rightarrow> pow_params \<Rightarrow> target" where
  "max_transition_threshold t params =
     min (max_transition_threshold_unchecked t) (max_attainable_target params)"

text \<open>\<open>Ord::clamp\<close> panics when the bounds are crossed.\<close>

definition clamp_u64 :: "u64 \<Rightarrow> u64 \<Rightarrow> u64 \<Rightarrow> u64 option" where
  "clamp_u64 x lo hi = (if hi < lo then None else Some (if x < lo then lo else if hi < x then hi else x))"

definition from_next_work_required :: "compact_target \<Rightarrow> u64 \<Rightarrow> pow_params \<Rightarrow> compact_target option" where
  "from_next_work_required last_bits timespan params =
     (if no_pow_retargeting params then Some last_bits
      else let min_timespan = drop_bit 2 (pow_target_timespan params);
               max_timespan = push_bit 2 (pow_target_timespan params) in
        Option.bind (clamp_u64 timespan min_timespan max_timespan) (\<lambda>actual_timespan.
        let prev_target = from_compact last_bits;
            maximum_retarget = max_transition_threshold prev_target params;
            retarget = u256_mul prev_target (u256_from (ucast actual_timespan)) in
        Option.bind (u256_div retarget (u256_from (ucast (pow_target_timespan params)))) (\<lambda>retarget.
          Some (if maximum_retarget \<le> retarget then to_compact_lossy maximum_retarget else to_compact_lossy retarget))))"

definition compact_encode :: "compact_target \<Rightarrow> io_failure encoded" where "compact_encode c = int_encode c"
definition compact_decode :: "(encode_error, compact_target) decoder" where "compact_decode = read_int"

section \<open>Reference definitions\<close>

text \<open>The mantissa and size of the compact form of a number.\<close>

definition compact_size :: "nat \<Rightarrow> nat" where
  "compact_size n = (if n = 0 then 0 else bit_length n div 8 + 1)"

definition compact_mantissa :: "nat \<Rightarrow> nat" where
  "compact_mantissa n = (if 3 \<le> compact_size n then n div 256 ^ (compact_size n - 3) else n * 256 ^ (3 - compact_size n))"

abbreviation compact_drop :: "nat \<Rightarrow> nat" where
  "compact_drop n \<equiv> bit_length n div 8 - 2"

text \<open>The compact targets that a chain of adjustments can reach from the target of the first block.\<close>

inductive reachable_bits :: "pow_params \<Rightarrow> compact_target \<Rightarrow> compact_target \<Rightarrow> bool" for p g where
  first: "reachable_bits p g g"
| adjust: "reachable_bits p g c \<Longrightarrow> from_next_work_required c ts p = Some c' \<Longrightarrow> reachable_bits p g c'"

declare u64_less [simp del]

section \<open>Compact targets\<close>

lemma unat_u32_less: "unat (w :: u32) < 2 ^ 32"
  using unsigned_less [of w] by simp

lemma unat_and_mask: "unat (w AND mask n) = unat (w :: 'a::len word) mod 2 ^ n"
  unfolding take_bit_eq_mask [symmetric] unsigned_take_bit_eq by (rule take_bit_eq_mod)

lemma and_FFFFFF: "unat (w AND 0xFFFFFF) = unat (w :: u32) mod 2 ^ 24"
  using unat_and_mask [of w 24] by (simp add: mask_eq_exp_minus_1)

lemma u256_from_u32: "u256_val (u256_from (ucast (w :: u32))) = unat w"
proof -
  have "unat w < 2 ^ 128" using unat_u32_less [of w] by (rule less_trans) simp
  then show ?thesis by (simp add: u256_val_simps unat_ucast)
qed

lemma mantissa_shift:
  "u256_val (if 0x7FFFFF < w then target_ZERO else wrapping_shl (u256_from (ucast w)) k) =
     (if 2 ^ 23 \<le> unat (w :: u32) then 0 else unat w * 2 ^ (k mod 256) mod 2 ^ 256)"
proof -
  have "0x7FFFFF < w \<longleftrightarrow> 2 ^ 23 \<le> unat w" by (auto simp: word_less_nat_alt)
  then show ?thesis by (simp add: target_ZERO_def u256_val_simps(1) wrapping_shl_val u256_from_u32)
qed

lemma from_compact_val:
  "u256_val (from_compact c) =
     (let m = unat c mod 2 ^ 24; s = unat c div 2 ^ 24 in
      if s < 3 then m div 256 ^ (3 - s)
      else if 2 ^ 23 \<le> m then 0
      else m * 2 ^ (8 * (s - 3) mod 256) mod 2 ^ 256)"
proof -
  define m s where "m = unat c mod 2 ^ 24" and "s = unat c div 2 ^ 24"
  have sc: "unat (drop_bit 24 c) = s" by (simp add: s_def unat_drop_bit)
  have mc: "unat (c AND 0xFFFFFF) = m" by (simp add: m_def and_FFFFFF)
  have m24: "m < 2 ^ 24" by (simp add: m_def)
  have s3: "drop_bit 24 c \<le> 3 \<longleftrightarrow> s \<le> 3" by (simp add: word_le_nat_alt sc)
  show ?thesis
  proof (cases "s \<le> 3")
    case True
    define w where "w = drop_bit (8 * (3 - s)) (c AND 0xFFFFFF)"
    have w: "unat w = m div 256 ^ (3 - s)" unfolding w_def unat_drop_bit mc power_256 ..
    have "from_compact c = (if 0x7FFFFF < w then target_ZERO else wrapping_shl (u256_from (ucast w)) 0)"
      using True by (simp add: from_compact_def Let_def s3 sc w_def)
    then have v: "u256_val (from_compact c) = (if 2 ^ 23 \<le> unat w then 0 else unat w mod 2 ^ 256)"
      by (simp only: mantissa_shift) simp
    have "unat w < 2 ^ 32" by (rule unat_u32_less)
    then have "unat w mod 2 ^ 256 = unat w" by simp
    moreover have "unat w < 2 ^ 23" if "s < 3"
    proof -
      have "(256 :: nat) ^ 1 \<le> 256 ^ (3 - s)" using that by (intro power_increasing) simp_all
      then have "m div 256 ^ (3 - s) \<le> m div 256" by (intro div_le_mono2) simp_all
      also have "\<dots> < 2 ^ 23" using m24 by simp
      finally show ?thesis by (simp add: w)
    qed
    ultimately show ?thesis
      using True v w unfolding m_def [symmetric] s_def [symmetric] Let_def by (cases "s = 3") auto
  next
    case False
    then have "from_compact c = (if 0x7FFFFF < c AND 0xFFFFFF then target_ZERO
        else wrapping_shl (u256_from (ucast (c AND 0xFFFFFF))) (8 * (s - 3)))"
      by (simp add: from_compact_def Let_def s3 sc)
    then have "u256_val (from_compact c) = (if 2 ^ 23 \<le> m then 0 else m * 2 ^ (8 * (s - 3) mod 256) mod 2 ^ 256)"
      by (simp only: mantissa_shift mc)
    then show ?thesis using False unfolding m_def [symmetric] s_def [symmetric] Let_def by simp
  qed
qed

lemma compact_mantissa_less: "compact_mantissa n < 2 ^ 23"
proof -
  define s where "s = compact_size n"
  have n: "n < 2 ^ (8 * s - 1)"
  proof (cases "n = 0")
    case False
    have "bit_length n \<le> 8 * s - 1" using False by (simp add: s_def compact_size_def) 
    then show ?thesis by (simp only: bit_length_le)
  qed simp
  show ?thesis
  proof (cases "3 \<le> s")
    case True
    have "8 * s - 1 = 23 + 8 * (s - 3)" using True by simp
    then have "(2 :: nat) ^ (8 * s - 1) = 2 ^ 23 * 256 ^ (s - 3)" unfolding power_256 by (simp only: power_add)
    with n show ?thesis using True by (simp add: compact_mantissa_def s_def less_mult_imp_div_less)
  next
    case False
    show ?thesis
    proof (cases "n = 0")
      case n0: False
      then have "s \<noteq> 0" by (simp add: s_def compact_size_def)
      then have "8 * s - 1 + 8 * (3 - s) = 23" using False by simp
      then have "(2 :: nat) ^ (8 * s - 1) * 256 ^ (3 - s) = 2 ^ 23" unfolding power_256 by (simp only: power_add [symmetric])
      moreover have "n * 256 ^ (3 - s) < 2 ^ (8 * s - 1) * 256 ^ (3 - s)" using n by (intro mult_strict_right_mono) simp_all
      ultimately have "n * 256 ^ (3 - s) < 2 ^ 23" by (simp only:)
      then show ?thesis using False by (simp add: compact_mantissa_def flip: s_def)
    qed (simp add: compact_mantissa_def compact_size_def)
  qed
qed

lemma compact_join:
  assumes "m < 2 ^ 24" "s < 2 ^ 8"
  shows "unat (of_nat m OR push_bit 24 (of_nat s) :: u32) = m + s * 2 ^ 24"
proof -
  have "\<not> bit (of_nat m :: u32) n \<or> \<not> bit (push_bit 24 (of_nat s) :: u32) n" for n
  proof (cases "n < 24")
    case False
    then have "m < 2 ^ n" using assms(1) by (metis less_le_trans not_less one_le_numeral power_increasing)
    then have "\<not> bit m n" by (simp add: bit_iff_odd)
    then show ?thesis by (simp add: bit_simps)
  qed (simp add: bit_simps)
  then have "(of_nat m OR push_bit 24 (of_nat s) :: u32) = of_nat m + push_bit 24 (of_nat s)"
    by (simp add: disjunctive_add)
  moreover have "unat (of_nat m :: u32) = m" "unat (of_nat s :: u32) = s" using assms by (simp_all add: unat_of_nat)
  ultimately show ?thesis using assms by (simp add: unat_word_ariths unat_push_bit)
qed


lemma low_u32_val: "unat (low_u32 x) = u256_val x mod 2 ^ 32"
proof -
  have "u256_val x mod 2 ^ 32 = (unat (high x) * 2 ^ 96 * 2 ^ 32 + unat (low x)) mod 2 ^ 32"
    by (simp add: u256_val_def mult.commute)
  also have "\<dots> = unat (low x) mod 2 ^ 32" by (rule mod_mult_self3)
  finally show ?thesis by (simp add: low_u32_def unat_ucast)
qed

lemma low_u64_val: "unat (low_u64 x) = u256_val x mod 2 ^ 64"
  using low_u64_shr [of 0 x] wrapping_shr_val [of x 0] by (simp add: u256_val_inject)

lemma sign_bit: "unat w < 2 ^ 24 \<Longrightarrow> (w AND 0x00800000 \<noteq> 0) \<longleftrightarrow> 2 ^ 23 \<le> unat (w :: u32)"
proof -
  assume w: "unat w < 2 ^ 24"
  have "(w AND 0x00800000 \<noteq> 0) \<longleftrightarrow> bit w 23"
    using and_exp_eq_0_iff_not_bit [of w 23] by simp
  also have "\<dots> \<longleftrightarrow> bit (unat w) 23" by (simp add: bit_unsigned_iff)
  also have "\<dots> \<longleftrightarrow> odd (unat w div 2 ^ 23)" by (rule bit_iff_odd)
  also have "\<dots> \<longleftrightarrow> 2 ^ 23 \<le> unat w"
  proof -
    have "unat w div 2 ^ 23 < 2" using w by simp
    then have "unat w div 2 ^ 23 = 0 \<or> unat w div 2 ^ 23 = 1" by linarith
    then show ?thesis using w by (auto simp: div_eq_0_iff)
  qed
  finally show ?thesis .
qed

lemma to_compact_top:
  fixes t :: target
  defines "n \<equiv> u256_val t" and "z \<equiv> (bit_length (u256_val t) + 7) div 8"
  defines "c \<equiv> (if z \<le> 3 then ucast (push_bit (8 * (3 - z)) (low_u64 t)) else low_u32 (wrapping_shr t (8 * (z - 3)))) :: u32"
  shows "unat c = (if z \<le> 3 then n * 256 ^ (3 - z) else n div 256 ^ (z - 3))" "unat c < 2 ^ 24"
proof -
  have "bit_length n \<le> 8 * z" by (simp add: n_def z_def)
  then have nz: "n < 256 ^ z" unfolding bit_length_le power_256 .
  have z32: "z \<le> 32"
  proof -
    have "bit_length n \<le> 256" unfolding n_def bit_length_le by (rule u256_val_less)
    then show ?thesis by (simp add: n_def z_def)
  qed
  have *: "unat c = (if z \<le> 3 then n * 256 ^ (3 - z) else n div 256 ^ (z - 3)) \<and> unat c < 2 ^ 24"
  proof (cases "z \<le> 3")
    case True
    have "n * 256 ^ (3 - z) < 256 ^ z * 256 ^ (3 - z)" using nz by simp
    also have "\<dots> = 2 ^ 24" using True by (simp flip: power_add)
    finally have l: "n * 256 ^ (3 - z) < 2 ^ 24" .
    have "n \<le> n * 256 ^ (3 - z)" by simp
    with l have "n < 2 ^ 24" by linarith
    then have "unat (low_u64 t) = n" by (simp add: low_u64_val n_def)
    moreover have "unat (push_bit (8 * (3 - z)) (low_u64 t)) = n * 256 ^ (3 - z)"
      unfolding unat_push_bit power_256 [symmetric] calculation using l by simp
    ultimately have "unat c = n * 256 ^ (3 - z)" unfolding c_def if_P [OF True] unat_ucast using l by simp
    with True l show ?thesis by simp
  next
    case False
    then have "8 * (z - 3) mod 256 = 8 * (z - 3)" using z32 by simp
    then have v: "u256_val (wrapping_shr t (8 * (z - 3))) = n div 256 ^ (z - 3)"
      unfolding wrapping_shr_val n_def power_256 by simp
    have "8 * z = 24 + 8 * (z - 3)" using False by simp
    then have "(256 :: nat) ^ z = 2 ^ 24 * 256 ^ (z - 3)" unfolding power_256 by (simp only: power_add)
    then have "n div 256 ^ (z - 3) < 2 ^ 24" using nz by (simp add: less_mult_imp_div_less)
    then show ?thesis using False unfolding c_def by (simp add: low_u32_val v)
  qed
  then show "unat c = (if z \<le> 3 then n * 256 ^ (3 - z) else n div 256 ^ (z - 3))" "unat c < 2 ^ 24" by simp_all
qed


lemma top_bit:
  assumes "n \<noteq> 0" and z: "z = (bit_length n + 7) div 8"
  shows "2 ^ 23 \<le> (if z \<le> 3 then n * 256 ^ (3 - z) else n div 256 ^ (z - 3)) \<longleftrightarrow> bit_length n = 8 * z"
proof -
  have b0: "bit_length n \<noteq> 0" using assms(1) bit_length_le [of n 0] by auto
  have "bit_length n = 8 * z \<longleftrightarrow> \<not> bit_length n \<le> 8 * z - 1" using z b0 by auto
  also have "\<dots> \<longleftrightarrow> 2 ^ (8 * z - 1) \<le> n" by (simp add: bit_length_le not_less)
  also have "\<dots> \<longleftrightarrow> 2 ^ 23 \<le> (if z \<le> 3 then n * 256 ^ (3 - z) else n div 256 ^ (z - 3))"
  proof (cases "z \<le> 3")
    case True
    have "8 * z - 1 + 8 * (3 - z) = 23" using True z b0 by simp
    then have p: "(2 :: nat) ^ 23 = 2 ^ (8 * z - 1) * 256 ^ (3 - z)" unfolding power_256 by (simp only: power_add [symmetric])
    show ?thesis unfolding p if_P [OF True] by (simp only: mult_le_cancel2) simp
  next
    case False
    have "23 + 8 * (z - 3) = 8 * z - 1" using False by simp
    then have p: "2 ^ 23 * 256 ^ (z - 3) = (2 :: nat) ^ (8 * z - 1)" unfolding power_256 by (simp only: power_add [symmetric])
    show ?thesis unfolding if_not_P [OF False] p [symmetric] by (simp only: less_eq_div_iff_mult_less_eq zero_less_power zero_less_numeral)
  qed
  finally show ?thesis by blast
qed

lemma compact_parts:
  fixes n :: nat
  defines "z \<equiv> (bit_length n + 7) div 8"
  defines "c \<equiv> (if z \<le> 3 then n * 256 ^ (3 - z) else n div 256 ^ (z - 3))"
  shows "compact_size n = (if 2 ^ 23 \<le> c then z + 1 else z)"
    "compact_mantissa n = (if 2 ^ 23 \<le> c then c div 256 else c)"
proof -
  have *: "compact_size n = (if 2 ^ 23 \<le> c then z + 1 else z) \<and> compact_mantissa n = (if 2 ^ 23 \<le> c then c div 256 else c)"
  proof (cases "n = 0")
    case True
    then show ?thesis by (simp add: compact_size_def compact_mantissa_def c_def z_def)
  next
    case False
    have top: "2 ^ 23 \<le> c \<longleftrightarrow> bit_length n = 8 * z" unfolding c_def using False z_def by (intro top_bit) simp_all
    have b0: "bit_length n \<noteq> 0" using False bit_length_le [of n 0] by auto
    show ?thesis
    proof (cases "bit_length n = 8 * z")
      case True
      have size: "compact_size n = z + 1" using True False by (simp add: compact_size_def)
      consider "z \<le> 1" | "z = 2" | "3 \<le> z" by linarith
      then have "compact_mantissa n = c div 256"
      proof cases
        case 1
        then have "3 - z = Suc (2 - z)" by simp
        with 1 show ?thesis by (simp add: compact_mantissa_def size c_def)
      next
        case 2
        then show ?thesis by (simp add: compact_mantissa_def size c_def)
      next
        case 3
        then have "z + 1 - 3 = Suc (z - 3)" by simp
        with 3 show ?thesis by (auto simp: compact_mantissa_def size c_def simp flip: div_mult2_eq intro: arg_cong [where f = "(div) n"])
      qed
      with size top True show ?thesis by simp
    next
      case nz: False
      then have "bit_length n div 8 + 1 = z" using z_def b0 by simp
      then show ?thesis using top nz False by (auto simp: compact_size_def compact_mantissa_def c_def)
    qed
  qed
  then show "compact_size n = (if 2 ^ 23 \<le> c then z + 1 else z)"
    "compact_mantissa n = (if 2 ^ 23 \<le> c then c div 256 else c)" by simp_all
qed

lemma to_compact_lossy_eq:
  "unat (to_compact_lossy t) = compact_mantissa (u256_val t) + compact_size (u256_val t) * 2 ^ 24"
proof -
  define n z where "n = u256_val t" and "z = (bit_length n + 7) div 8"
  define c :: u32 where "c = (if z \<le> 3 then ucast (push_bit (8 * (3 - z)) (low_u64 t)) else low_u32 (wrapping_shr t (8 * (z - 3))))"
  have c: "unat c = (if z \<le> 3 then n * 256 ^ (3 - z) else n div 256 ^ (z - 3))" "unat c < 2 ^ 24"
    using to_compact_top [of t] unfolding n_def z_def c_def by simp_all
  have "bit_length n \<le> 256" unfolding n_def bit_length_le by (rule u256_val_less)
  then have z32: "z \<le> 32" by (simp add: z_def)
  have eq: "to_compact_lossy t =
      (if 2 ^ 23 \<le> unat c then drop_bit 8 c OR push_bit 24 (of_nat (z + 1)) else c OR push_bit 24 (of_nat z))"
    unfolding to_compact_lossy_def u256_bits_eq n_def [symmetric] z_def [symmetric] c_def [symmetric] Let_def sign_bit [OF c(2)]
    by simp
  have parts: "compact_size n = (if 2 ^ 23 \<le> unat c then z + 1 else z)"
    "compact_mantissa n = (if 2 ^ 23 \<le> unat c then unat c div 256 else unat c)"
    unfolding c(1) using compact_parts [of n] unfolding z_def by simp_all
  have "unat (drop_bit 8 c) = unat c div 256" by (simp add: unat_drop_bit)
  then have d: "drop_bit 8 c = of_nat (unat c div 256)" by (metis of_nat_unat ucast_id)
  have "unat c div 256 < 2 ^ 24" using c(2) by simp
  then have "unat (drop_bit 8 c OR push_bit 24 (of_nat (z + 1)) :: u32) = unat c div 256 + (z + 1) * 2 ^ 24"
    unfolding d using z32 by (intro compact_join) simp_all
  moreover have "unat (c OR push_bit 24 (of_nat z) :: u32) = unat c + z * 2 ^ 24"
    using compact_join [of "unat c" z] c(2) z32 by simp
  ultimately show ?thesis unfolding eq n_def [symmetric] parts by simp
qed


lemma compact_size_drop: "compact_size n - 3 = compact_drop n"
  by (simp add: compact_size_def)

lemma compact_value: "u256_val (from_compact (to_compact_lossy t)) = u256_val t div 256 ^ compact_drop (u256_val t) * 256 ^ compact_drop (u256_val t)"
proof -
  define n S M where "n = u256_val t" and "S = compact_size n" and "M = compact_mantissa n"
  have c: "unat (to_compact_lossy t) = M + S * 2 ^ 24" unfolding n_def S_def M_def by (rule to_compact_lossy_eq)
  have M: "M < 2 ^ 23" unfolding M_def by (rule compact_mantissa_less)
  have ms: "unat (to_compact_lossy t) mod 2 ^ 24 = M" "unat (to_compact_lossy t) div 2 ^ 24 = S"
    unfolding c using M by simp_all
  have e: "compact_drop n = S - 3" by (simp add: S_def compact_size_drop)
  show ?thesis
  proof (cases "S < 3")
    case True
    then have "M = n * 256 ^ (3 - S)" by (simp add: M_def compact_mantissa_def S_def)
    then show ?thesis unfolding from_compact_val ms Let_def n_def [symmetric] e using True by simp
  next
    case False
    have "bit_length n \<le> 256" unfolding n_def bit_length_le by (rule u256_val_less)
    then have S33: "S \<le> 33" using div_le_mono [of "bit_length n" 256 8] by (simp add: S_def compact_size_def)
    then have k: "8 * (S - 3) mod 256 = 8 * (S - 3)" by simp
    have "M = n div 256 ^ (S - 3)" using False by (simp add: M_def compact_mantissa_def S_def)
    moreover have "n div 256 ^ (S - 3) * 256 ^ (S - 3) \<le> n" by (rule div_times_less_eq_dividend)
    then have "n div 256 ^ (S - 3) * 256 ^ (S - 3) < 2 ^ 256" using u256_val_less [of t] unfolding n_def by (rule le_less_trans)
    ultimately show ?thesis
      unfolding from_compact_val ms Let_def k power_256 [symmetric] n_def [symmetric] e using False M by simp
  qed
qed

lemma compact_drop_stable:
  assumes "m = n div 256 ^ compact_drop n * 256 ^ compact_drop n"
  shows "bit_length m = bit_length n"
proof (cases "compact_drop n = 0")
  case False
  define b e where "b = bit_length n" and "e = compact_drop n"
  have b: "8 * e \<le> b - 1" "0 < b" using False by (auto simp: b_def e_def)
  have "m \<le> n" unfolding assms by (rule div_times_less_eq_dividend)
  also have "n < 2 ^ b" unfolding b_def by (simp flip: bit_length_le)
  finally have "bit_length m \<le> b" unfolding bit_length_le .
  have "\<not> n < 2 ^ (b - 1)" using bit_length_le [of n "b - 1"] b(2) unfolding b_def [symmetric] by linarith
  moreover have "b - 1 = b - 1 - 8 * e + 8 * e" using b by simp
  then have p: "(2 :: nat) ^ (b - 1) = 2 ^ (b - 1 - 8 * e) * 256 ^ e" unfolding power_256 by (metis power_add)
  ultimately have "2 ^ (b - 1 - 8 * e) \<le> n div 256 ^ e" by (simp add: less_eq_div_iff_mult_less_eq)
  then have "2 ^ (b - 1) \<le> m" unfolding p assms e_def [symmetric] by (rule mult_le_mono1)
  then have "\<not> bit_length m \<le> b - 1" by (simp add: bit_length_le)
  with \<open>bit_length m \<le> b\<close> show ?thesis by (simp add: b_def)
qed (simp add: assms)

lemma to_compact_stable: "to_compact_lossy (from_compact (to_compact_lossy t)) = to_compact_lossy t"
proof -
  define n m where "n = u256_val t" and "m = u256_val (from_compact (to_compact_lossy t))"
  have m: "m = n div 256 ^ compact_drop n * 256 ^ compact_drop n" unfolding m_def n_def by (rule compact_value)
  have b: "bit_length m = bit_length n" using m by (rule compact_drop_stable)
  have z: "k = 0 \<longleftrightarrow> bit_length k = 0" for k using bit_length_le [of k 0] by simp
  then have size: "compact_size m = compact_size n" unfolding compact_size_def b by (metis b)
  have "compact_mantissa m = compact_mantissa n"
  proof (cases "3 \<le> compact_size n")
    case True
    have "m div 256 ^ (compact_size n - 3) = n div 256 ^ (compact_size n - 3)" unfolding m compact_size_drop by simp
    then show ?thesis using True by (simp add: compact_mantissa_def size)
  next
    case False
    then have "compact_drop n = 0" using compact_size_drop [of n] by simp
    then have "m = n" using m by simp
    then show ?thesis by simp
  qed
  with size have "unat (to_compact_lossy (from_compact (to_compact_lossy t))) = unat (to_compact_lossy t)"
    unfolding to_compact_lossy_eq m_def [symmetric] n_def [symmetric] by simp
  then show ?thesis by (simp only: word_unat_eq_iff)
qed

lemma from_compact_le: "from_compact (to_compact_lossy t) \<le> t"
  unfolding u256_le_iff compact_value by (rule div_times_less_eq_dividend)

section \<open>Thresholds and adjustment\<close>

lemma max_transition_threshold_le: "max_transition_threshold t p \<le> max_attainable_target p"
  by (simp add: max_transition_threshold_def)

lemma u256_min_val: "u256_val (min x y) = min (u256_val x) (u256_val y)"
  by (simp add: min_def u256_le_iff)

lemma next_work_cases:
  assumes "\<not> no_pow_retargeting p"
  shows "from_next_work_required c ts p =
     Option.bind (clamp_u64 ts (drop_bit 2 (pow_target_timespan p)) (push_bit 2 (pow_target_timespan p))) (\<lambda>a.
       map_option (\<lambda>q. to_compact_lossy (min (max_transition_threshold (from_compact c) p) q))
         (u256_div (u256_mul (from_compact c) (u256_from (ucast a))) (u256_from (ucast (pow_target_timespan p)))))"
  using assms by (simp add: from_next_work_required_def Let_def map_option_bind min_def comp_def if_distrib [of to_compact_lossy] map_conv_bind_option)

lemma from_next_work_required_bound:
  assumes "from_next_work_required c ts p = Some c'" "\<not> no_pow_retargeting p"
  shows "from_compact c' \<le> max_attainable_target p"
proof -
  obtain q where "c' = to_compact_lossy (min (max_transition_threshold (from_compact c) p) q)"
    using assms by (auto simp: next_work_cases bind_eq_Some_conv)
  then have "from_compact c' \<le> min (max_transition_threshold (from_compact c) p) q" using from_compact_le by blast
  also have "\<dots> \<le> max_attainable_target p" using max_transition_threshold_le by (rule min.coboundedI1)
  finally show ?thesis .
qed

lemma clamp_timespan:
  assumes "4 * unat T < 2 ^ 64"
  obtains a where "clamp_u64 ts (drop_bit 2 T) (push_bit 2 T) = Some a"
    "unat a = min (max (unat ts) (unat T div 4)) (4 * unat T)"
proof -
  have u: "unat (drop_bit 2 T) = unat T div 4" "unat (push_bit 2 T) = 4 * unat T"
    using assms by (simp_all add: unat_drop_bit unat_push_bit mult.commute)
  have le: "unat T div 4 \<le> 4 * unat T" by linarith
  show thesis
    using that [of "if ts < drop_bit 2 T then drop_bit 2 T else if push_bit 2 T < ts then push_bit 2 T else ts"] le
    unfolding clamp_u64_def word_less_nat_alt u by (auto simp: u)
qed

lemma next_work_value:
  assumes p: "\<not> no_pow_retargeting p" and T: "0 < unat (pow_target_timespan p)" "4 * unat (pow_target_timespan p) < 2 ^ 64"
  obtains r where "from_next_work_required c ts p = Some (to_compact_lossy r)"
    "u256_val r = min (u256_val (max_transition_threshold (from_compact c) p))
       ((u256_val (from_compact c) * min (max (unat ts) (unat (pow_target_timespan p) div 4)) (4 * unat (pow_target_timespan p))
          mod 2 ^ 256) div unat (pow_target_timespan p))"
proof -
  obtain a where a: "clamp_u64 ts (drop_bit 2 (pow_target_timespan p)) (push_bit 2 (pow_target_timespan p)) = Some a"
      "unat a = min (max (unat ts) (unat (pow_target_timespan p) div 4)) (4 * unat (pow_target_timespan p))"
    using T(2) by (rule clamp_timespan)
  have small: "unat a < 2 ^ 192" using u64_lt [of a] by (rule less_trans) simp
  obtain q where q: "u256_div (u256_mul (from_compact c) (u256_from (ucast a))) (u256_from (ucast (pow_target_timespan p))) = Some q"
      "u256_val q = u256_val (from_compact c) * unat a mod 2 ^ 256 div unat (pow_target_timespan p)"
    using u256_div_rem_Some [of "u256_from (ucast (pow_target_timespan p))" "u256_mul (from_compact c) (u256_from (ucast a))"]
      T(1) u256_mul_val [of "u256_from (ucast a)" "from_compact c"] small by (auto simp: u256_from_u64)
  show thesis
    using that [of "min (max_transition_threshold (from_compact c) p) q"] a q p by (simp add: next_work_cases u256_min_val)
qed

lemma network_params:
  "0 < unat (pow_target_timespan (params_new net))" "4 * unat (pow_target_timespan (params_new net)) < 2 ^ 64"
  by (cases net; simp add: MAINNET_def TESTNET4_def SIGNET_def REGTEST_def)+


section \<open>Properties\<close>

text \<open>
  C25: The compact form keeps the leading bytes: decoding it clears the low \<open>b / 8 - 2\<close> bytes of a target of \<open>b\<close> bits,
  never rounds up, loses less than one part in \<open>2 ^ 15\<close>, and encoding the result again gives the same compact form.
\<close>

theorem compact_roundtrip:
  fixes t :: target
  defines "n \<equiv> u256_val t" and "e \<equiv> bit_length (u256_val t) div 8 - 2"
  shows "u256_val (from_compact (to_compact_lossy t)) = n div 256 ^ e * 256 ^ e
   \<and> from_compact (to_compact_lossy t) \<le> t
   \<and> (n - u256_val (from_compact (to_compact_lossy t))) * 2 ^ 15 \<le> n
   \<and> to_compact_lossy (from_compact (to_compact_lossy t)) = to_compact_lossy t"
proof (intro conjI)
  show v: "u256_val (from_compact (to_compact_lossy t)) = n div 256 ^ e * 256 ^ e"
    unfolding n_def e_def by (rule compact_value)
  show "from_compact (to_compact_lossy t) \<le> t" by (rule from_compact_le)
  show "to_compact_lossy (from_compact (to_compact_lossy t)) = to_compact_lossy t" by (rule to_compact_stable)
  have d: "n - n div 256 ^ e * 256 ^ e = n mod 256 ^ e" by (simp add: minus_div_mult_eq_mod)
  show "(n - u256_val (from_compact (to_compact_lossy t))) * 2 ^ 15 \<le> n"
  proof (cases "e = 0")
    case False
    then have "8 * e + 16 \<le> bit_length n" unfolding e_def n_def [symmetric] by presburger
    then have "\<not> n < 2 ^ (8 * e + 15)" using bit_length_le [of n "8 * e + 15"] by simp
    then have "256 ^ e * 2 ^ 15 \<le> n" unfolding power_256 by (simp only: power_add not_less)
    moreover have "n mod 256 ^ e \<le> 256 ^ e" by simp
    ultimately show ?thesis unfolding v d by (meson le_trans mult_le_mono1)
  qed (simp add: v)
qed

text \<open>
  Decoding a compact target, for every 32-bit pattern: exponents below three shift right, a mantissa with its sign
  bit set gives zero only from exponent three on, and the shift amount is taken modulo 256, so that exponents above
  34 decode to small targets instead of overflowing.
\<close>

theorem from_compact_exact:
  "u256_val (from_compact c) =
     (let m = unat c mod 2 ^ 24; s = unat c div 2 ^ 24 in
      if s < 3 then m div 256 ^ (3 - s)
      else if 2 ^ 23 \<le> m then 0
      else m * 2 ^ (8 * (s - 3) mod 256) mod 2 ^ 256)
   \<and> u256_val (from_compact 0x23000001) = 1 \<and> u256_val (from_compact 0x01FEDCBA) = 0xFE"
  using from_compact_val [of c] by (simp add: from_compact_val Let_def)

text \<open>
  Targets as numbers: a hash meets a target when its little-endian number is at most the target; the thresholds of
  an adjustment are a quarter and four times the target (modulo \<open>2 ^ 256\<close>), the latter never above the limit of the
  network; difficulty is the saturated quotient of limit and target, refused for zero; work is \<open>2 ^ 256 / (t + 1)\<close>.
\<close>

theorem target_measures:
  assumes "length hash = 32"
  shows "(is_met_by t hash \<longleftrightarrow> le_value hash \<le> u256_val t)
   \<and> u256_val (min_transition_threshold t) = u256_val t div 4
   \<and> u256_val (max_transition_threshold t p) = min (4 * u256_val t mod 2 ^ 256) (u256_val (max_attainable_target p))
   \<and> map_option unat (difficulty t p) =
       (if u256_val t = 0 then None else Some (min (u256_val (max_attainable_target p) div u256_val t) (2 ^ 128 - 1)))
   \<and> map_option u256_val (to_work t) = Some (if u256_val t \<le> 1 then 2 ^ 256 - 1 else 2 ^ 256 div (u256_val t + 1))"
proof (intro conjI)
  show "is_met_by t hash \<longleftrightarrow> le_value hash \<le> u256_val t"
    by (simp add: is_met_by_def u256_le_iff u256_from_le_bytes_val assms)
  show "u256_val (min_transition_threshold t) = u256_val t div 4"
    by (simp add: min_transition_threshold_def wrapping_shr_val)
  show "u256_val (max_transition_threshold t p) = min (4 * u256_val t mod 2 ^ 256) (u256_val (max_attainable_target p))"
    by (simp add: max_transition_threshold_def max_transition_threshold_unchecked_def u256_min_val wrapping_shl_val mult.commute)
  show "map_option unat (difficulty t p) =
       (if u256_val t = 0 then None else Some (min (u256_val (max_attainable_target p) div u256_val t) (2 ^ 128 - 1)))"
  proof (cases "u256_val t = 0")
    case True
    then have "t = u256_ZERO" by (simp add: u256_val_simps flip: u256_val_inject)
    then show ?thesis using True by (simp add: difficulty_def)
  next
    case False
    then have "t \<noteq> u256_ZERO" by (auto simp: u256_val_simps)
    moreover obtain q where "u256_div (max_attainable_target p) t = Some q"
        "u256_val q = u256_val (max_attainable_target p) div u256_val t"
      using False by (rule u256_div_rem_Some)
    ultimately show ?thesis using False by (simp add: difficulty_def saturating_to_u128_val)
  qed
  show "map_option u256_val (to_work t) = Some (if u256_val t \<le> 1 then 2 ^ 256 - 1 else 2 ^ 256 div (u256_val t + 1))"
    unfolding to_work_def using u256_inverse_val [of t] by auto
qed

theorem target_measures_witness:
  "is_met_by (U256 0 5) (3 # replicate 31 0) \<and> map_option unat (difficulty (U256 1 0) MAINNET) = Some (0xFFFF0 * 2 ^ 88)"
proof
  have "le_value (replicate k 0) = 0" for k by (induction k) simp_all
  then show "is_met_by (U256 0 5) (3 # replicate 31 0)"
    using target_measures [of "3 # replicate 31 0" "U256 0 5" MAINNET] by (simp add: u256_limbs)
  show "map_option unat (difficulty (U256 1 0) MAINNET) = Some (0xFFFF0 * 2 ^ 88)"
    using target_measures [of "3 # replicate 31 0" "U256 1 0" MAINNET]
    by (simp add: u256_limbs MAINNET_def MAX_ATTAINABLE_MAINNET_def unat_push_bit)
qed




text \<open>
  On the main network the product can exceed 256 bits: adjusting the easiest target after a span four times too
  long, where the exact result is above the limit and the limit is due, yields little more than half the limit, so
  that mining becomes harder after slow blocks.
\<close>

theorem retarget_overflow:
  "from_compact 0x1E0FFFF0 = max_attainable_target MAINNET
   \<and> from_next_work_required 0x1E0FFFF0 1209600 MAINNET = Some 0x1E0884D0
   \<and> u256_val (max_attainable_target MAINNET) \<le> u256_val (from_compact 0x1E0FFFF0) * 1209600 div 302400
   \<and> u256_val (from_compact 0x1E0884D0) * 18 < u256_val (max_attainable_target MAINNET) * 10"
proof -
  have prev: "u256_val (from_compact 0x1E0FFFF0) = 0xFFFF0 * 2 ^ 216" by (simp add: from_compact_val Let_def)
  have lim: "u256_val (max_attainable_target MAINNET) = 0xFFFF0 * 2 ^ 216"
    by (simp add: MAINNET_def MAX_ATTAINABLE_MAINNET_def u256_limbs unat_push_bit)
  have mt: "u256_val (max_transition_threshold (from_compact 0x1E0FFFF0) MAINNET) = 0xFFFF0 * 2 ^ 216"
    by (simp add: max_transition_threshold_def max_transition_threshold_unchecked_def u256_min_val wrapping_shl_val prev lim)
  have T: "unat (pow_target_timespan MAINNET) = 302400" "\<not> no_pow_retargeting MAINNET" by (simp_all add: MAINNET_def)
  obtain r where r: "from_next_work_required 0x1E0FFFF0 1209600 MAINNET = Some (to_compact_lossy r)"
      "u256_val r = min (0xFFFF0 * 2 ^ 216) ((0xFFFF0 * 2 ^ 216 * 1209600 mod 2 ^ 256) div 302400)"
    using next_work_value [OF T(2), of "0x1E0FFFF0" 1209600] unfolding T prev mt by auto
  have b: "bit_length (u256_val r) = 236"
  proof (rule antisym)
    show "bit_length (u256_val r) \<le> 236" unfolding bit_length_le r(2) by simp
    have "\<not> bit_length (u256_val r) \<le> 235" unfolding bit_length_le r(2) by simp
    then show "236 \<le> bit_length (u256_val r)" by simp
  qed
  have "u256_val r \<noteq> 0" unfolding r(2) by simp
  then have s: "compact_size (u256_val r) = 30" by (simp add: compact_size_def b)
  have "compact_mantissa (u256_val r) = u256_val r div 256 ^ 27" by (simp add: compact_mantissa_def s)
  also have "\<dots> = 0x0884D0" unfolding r(2) by simp
  finally have m: "compact_mantissa (u256_val r) = 0x0884D0" .
  have "unat (to_compact_lossy r) = unat (0x1E0884D0 :: u32)" unfolding to_compact_lossy_eq s m by simp
  then have "to_compact_lossy r = 0x1E0884D0" by (simp only: word_unat_eq_iff)
  moreover have "u256_val (from_compact 0x1E0884D0) = 0x0884D0 * 2 ^ 216" by (simp add: from_compact_val Let_def)
  ultimately show ?thesis using r(1) prev lim by (simp add: u256_val_inject [symmetric])
qed


text \<open>
  Every target that adjustments of a network reach from one within its limit is within the limit, and no adjustment
  gets stuck: the clamp and the division never panic.
\<close>

theorem adjustments_keep_limit:
  assumes "reachable_bits (params_new net) g c" and "from_compact g \<le> max_attainable_target (params_new net)"
  shows "from_compact c \<le> max_attainable_target (params_new net)
   \<and> (\<exists>c'. from_next_work_required c ts (params_new net) = Some c' \<and> reachable_bits (params_new net) g c')"
proof
  show "from_compact c \<le> max_attainable_target (params_new net)"
    using assms
  proof (induction rule: reachable_bits.induct)
    case (adjust c ts c')
    then show ?case
      using from_next_work_required_bound [of c ts "params_new net" c']
      by (cases "no_pow_retargeting (params_new net)") (auto simp: from_next_work_required_def)
  qed
  have "\<exists>c'. from_next_work_required c ts (params_new net) = Some c'"
  proof (cases "no_pow_retargeting (params_new net)")
    case False
    then show ?thesis using next_work_value [OF False network_params, of c ts] by metis
  qed (simp add: from_next_work_required_def)
  then show "\<exists>c'. from_next_work_required c ts (params_new net) = Some c' \<and> reachable_bits (params_new net) g c'"
    using assms(1) by (blast intro: reachable_bits.adjust)
qed

theorem adjustments_keep_limit_witness:
  "\<exists>c. from_next_work_required 0x1E0FFFF0 1209600 MAINNET = Some c \<and> reachable_bits MAINNET 0x1E0FFFF0 c"
proof -
  have "from_compact 0x1E0FFFF0 \<le> max_attainable_target MAINNET"
    unfolding u256_le_iff by (simp add: from_compact_val Let_def MAINNET_def MAX_ATTAINABLE_MAINNET_def u256_limbs unat_push_bit)
  then show ?thesis
    using adjustments_keep_limit [of Bitcoin_net "0x1E0FFFF0" "0x1E0FFFF0" 1209600] reachable_bits.first by simp
qed

end
