(* ===== verification/Pow_Format.thy ===== *)
theory Pow_Format
  imports Pow
begin

text \<open>
  Other forms of 256-bit integers and compact targets (\<open>src/litecoin/src/pow.rs\<close>, \<open>src/units/src/parse.rs\<close>):
  conversion to a floating-point number, of which the model has the bits that are passed to \<open>f64::from_bits\<close>, and
  hexadecimal text. The division and the logarithm of floating-point numbers are not modelled.
\<close>

section \<open>Floating point\<close>

definition to_f64_bits :: "U256 \<Rightarrow> u64" where
  "to_f64_bits x =
     (let leading_zeroes = 256 - u256_bits x;
          left_aligned = wrapping_shl x leading_zeroes;
          middle_aligned = wrapping_shr left_aligned 75;
          mantissa = high middle_aligned;
          dropped_bits = low middle_aligned OR (low left_aligned AND 0x7FFFFFFFFFFFFFFFFFF);
          mantissa = (ucast (mantissa + drop_bit 127 (dropped_bits - (drop_bit 127 dropped_bits AND NOT mantissa))) :: u64);
          exponent = (if x = u256_ZERO then 0 else 1277 - of_nat leading_zeroes) in
      push_bit 52 exponent + mantissa)"

section \<open>Hexadecimal text\<close>

text \<open>
  \<open>u128::from_str_radix\<close> and \<open>u32::from_str_radix\<close> at radix 16: at least one digit, after an optional plus sign,
  with a value in range. The kind of the error of the standard library is not kept.
\<close>

definition hex_digit :: "char \<Rightarrow> nat option" where
  "hex_digit c =
     (let n = of_char c :: nat in
      if 48 \<le> n \<and> n \<le> 57 then Some (n - 48)
      else if 97 \<le> n \<and> n \<le> 102 then Some (n - 87)
      else if 65 \<le> n \<and> n \<le> 70 then Some (n - 55) else None)"

fun hex_value :: "nat \<Rightarrow> string \<Rightarrow> nat option" where
  "hex_value acc [] = Some acc"
| "hex_value acc (c # s) = Option.bind (hex_digit c) (\<lambda>d. hex_value (acc * 16 + d) s)"

definition from_str_radix_16 :: "string \<Rightarrow> 'a::len word option" where
  "from_str_radix_16 s =
     (let ds = (if take 1 s = ''+'' then drop 1 s else s) in
      if ds = [] then None
      else Option.bind (hex_value 0 ds) (\<lambda>n. if n < 2 ^ LENGTH('a) then Some (of_nat n) else None))"

definition strip_hex_prefix :: "string \<Rightarrow> string" where
  "strip_hex_prefix s = (if take 2 s = ''0x'' then drop 2 s else if take 2 s = ''0X'' then drop 2 s else s)"

datatype hex_error = MissingPrefix string | ContainsPrefix string | ParseInt string

definition hex_word :: "string \<Rightarrow> hex_error + 'a::len word" where
  "hex_word s = (case from_str_radix_16 (strip_hex_prefix s) of Some w \<Rightarrow> Inr w | None \<Rightarrow> Inl (ParseInt s))"

abbreviation hex_u32 :: "string \<Rightarrow> hex_error + u32" where "hex_u32 \<equiv> hex_word"
abbreviation hex_u128 :: "string \<Rightarrow> hex_error + u128" where "hex_u128 \<equiv> hex_word"

definition from_hex_internal :: "string \<Rightarrow> hex_error + U256" where
  "from_hex_internal s =
     (if length s \<le> 32 then and_then (hex_u128 s) (\<lambda>l. Inr (U256 0 l))
      else let high_len = length s - 32 in
        and_then (hex_u128 (take high_len s)) (\<lambda>h.
          and_then (hex_u128 (drop high_len s)) (\<lambda>l. Inr (U256 h l))))"

definition u256_from_hex :: "string \<Rightarrow> hex_error + U256" where
  "u256_from_hex s =
     (if take 2 s = ''0x'' \<or> take 2 s = ''0X'' then from_hex_internal (drop 2 s) else Inl (MissingPrefix s))"

definition u256_from_unprefixed_hex :: "string \<Rightarrow> hex_error + U256" where
  "u256_from_unprefixed_hex s =
     (if take 2 s = ''0x'' \<or> take 2 s = ''0X'' then Inl (ContainsPrefix s) else from_hex_internal s)"

definition compact_from_hex :: "string \<Rightarrow> hex_error + compact_target" where
  "compact_from_hex s =
     (if take 2 s = ''0x'' \<or> take 2 s = ''0X'' then hex_u32 (drop 2 s) else Inl (MissingPrefix s))"

definition compact_from_unprefixed_hex :: "string \<Rightarrow> hex_error + compact_target" where
  "compact_from_unprefixed_hex s =
     (if take 2 s = ''0x'' \<or> take 2 s = ''0X'' then Inl (ContainsPrefix s) else hex_u32 s)"

section \<open>Rounding\<close>

lemma drop_127: "unat (drop_bit 127 (w :: u128)) = (if unat w < 2 ^ 127 then 0 else 1)"
proof -
  have "unat w div 2 ^ 127 < 2" using u128_less [of w] by simp
  then show ?thesis unfolding unat_drop_bit by (auto simp: div_eq_0_iff)
qed

lemma or_less_exp: "unat a < 2 ^ k \<Longrightarrow> unat b < 2 ^ k \<Longrightarrow> unat (a OR b :: 'a::len word) < 2 ^ k"
  by (simp add: unsigned_or_eq flip: take_bit_nat_eq_self_iff)

lemma or_top_bit:
  fixes a b :: u128
  assumes "2 ^ 127 \<le> unat a" "unat b < 2 ^ 127"
  shows "unat a \<le> unat (a OR b)" "unat (a OR b) = 2 ^ 127 \<longleftrightarrow> unat a = 2 ^ 127 \<and> unat b = 0"
proof -
  show le: "unat a \<le> unat (a OR b)" by (simp add: le_word_or2 flip: word_le_nat_alt)
  have "unat (a OR b) = 2 ^ 127 + unat b" if "unat a = 2 ^ 127"
  proof -
    have p: "unat (push_bit 127 1 :: u128) = 2 ^ 127" unfolding unat_push_bit by simp
    then have a: "a = push_bit 127 1" using that by (simp only: word_unat_eq_iff)
    have "\<not> bit (unat b) 127" using assms(2) by (simp add: bit_iff_odd)
    then have "\<not> bit b 127" by (simp add: bit_unsigned_iff)
    then have "\<not> bit a n \<or> \<not> bit b n" for n unfolding a by (cases "n = 127") (auto simp: bit_push_bit_iff bit_1_iff simp del: push_bit_of_1)
    then have "a OR b = a + b" by (simp add: disjunctive_add)
    then show ?thesis using assms(2) that by (simp add: unat_add_128)
  qed
  then show "unat (a OR b) = 2 ^ 127 \<longleftrightarrow> unat a = 2 ^ 127 \<and> unat b = 0" using le assms(1) by auto
qed

lemma rounding:
  fixes M R :: nat and a b m :: u128
  assumes a: "unat a = R div 2 ^ 75" and b: "unat b = R mod 2 ^ 75" and R: "R < 2 ^ 203"
    and m: "unat m = M" and M: "M < 2 ^ 53"
  shows "unat (m + drop_bit 127 ((a OR b) - (drop_bit 127 (a OR b) AND NOT m))) =
     M + (if 2 ^ 202 < R \<or> R = 2 ^ 202 \<and> odd M then 1 else 0)"
proof -
  define d where "d = a OR b"
  have b127: "unat b < 2 ^ 127" unfolding b by (rule less_trans [OF mod_less_divisor]) simp_all
  have split: "R = unat a * 2 ^ 75 + unat b" unfolding a b by (simp only: div_mult_mod_eq)
  have b75: "unat b < 2 ^ 75" unfolding b by simp
  have add: "unat (m + drop_bit 127 w) = M + unat (drop_bit 127 w)" for w
    using M drop_127 [of w] by (simp add: unat_add_128 m)
  show ?thesis
  proof (cases "unat a < 2 ^ 127")
    case True
    then have "unat d < 2 ^ 127" unfolding d_def using b127 by (intro or_less_exp)
    then have z: "drop_bit 127 d = 0" using drop_127 [of d] by (simp add: word_unat_eq_iff)
    have "R < 2 ^ 202" using True b75 split by simp
    then show ?thesis unfolding d_def [symmetric] z using add [of d] z by simp
  next
    case False
    then have ge: "2 ^ 127 \<le> unat a" by simp
    note top = or_top_bit [OF ge b127, folded d_def]
    have "unat (drop_bit 127 d) = 1" using top(1) ge by (simp add: drop_127)
    then have one: "drop_bit 127 d = 1" by (simp add: word_unat_eq_iff)
    have "bit (unat m) 0 \<longleftrightarrow> bit m 0" by (simp only: bit_unsigned_iff) simp
    then have "even m \<longleftrightarrow> even M" unfolding m [symmetric] by (simp add: bit_0)
    then have t: "drop_bit 127 d AND NOT m = of_bool (even M)"
      unfolding one one_and_eq mod_2_eq_odd by simp
    have "R = 2 ^ 202 \<longleftrightarrow> unat a = 2 ^ 127 \<and> unat b = 0" using split a b by auto
    moreover have "unat a * 2 ^ 75 \<le> R" using split by simp
    then have "2 ^ 202 \<le> R" using mult_le_mono1 [OF ge, of "2 ^ 75"] by simp
    ultimately have R1: "2 ^ 202 < R \<longleftrightarrow> unat d \<noteq> 2 ^ 127" "R = 2 ^ 202 \<longleftrightarrow> unat d = 2 ^ 127"
      unfolding top(2) by auto
    have gt: "2 ^ 127 \<le> unat d" using top(1) ge by simp
    show ?thesis
    proof (cases "even M")
      case True
      have "1 \<le> d" using gt by (simp add: word_le_nat_alt)
      then have "unat (d - 1) = unat d - 1" by (simp add: unat_sub)
      then have "unat (drop_bit 127 (d - 1)) = (if unat d = 2 ^ 127 then 0 else 1)" using gt by (auto simp: drop_127)
      then show ?thesis unfolding d_def [symmetric] t add using True R1 by auto
    next
      case odd: False
      then show ?thesis unfolding d_def [symmetric] t add using R1 gt \<open>unat (drop_bit 127 d) = 1\<close> by auto
    qed
  qed
qed


lemma to_f64_parts:
  assumes "x \<noteq> u256_ZERO"
  defines "n \<equiv> u256_val x" and "b \<equiv> bit_length (u256_val x)"
  defines "M \<equiv> n * 2 ^ (256 - b) div 2 ^ 203" and "R \<equiv> n * 2 ^ (256 - b) mod 2 ^ 203"
  shows "unat (to_f64_bits x) = (1021 + b) * 2 ^ 52 + M + (if 2 ^ 202 < R \<or> R = 2 ^ 202 \<and> odd M then 1 else 0)"
    "2 ^ 52 \<le> M" "M < 2 ^ 53" "0 < b" "b \<le> 256"
proof -
  have n0: "n \<noteq> 0" using assms(1) u256_val_simps(1) u256_val_inject [of x u256_ZERO] by (auto simp: n_def)
  show b: "b \<le> 256" unfolding b_def bit_length_le by (rule u256_val_less)
  show b0: "0 < b" using n0 bit_length_le [of n 0] by (auto simp: b_def n_def)
  define L where "L = n * 2 ^ (256 - b)"
  have "n < 2 ^ b" unfolding b_def n_def by (simp flip: bit_length_le)
  then have "L < 2 ^ b * 2 ^ (256 - b)" unfolding L_def by simp
  then have L1: "L < 2 ^ 256" using b by (simp flip: power_add)
  have "\<not> n < 2 ^ (b - 1)" using bit_length_le [of n "b - 1"] b0 unfolding b_def n_def [symmetric] by linarith
  then have "2 ^ (b - 1) * 2 ^ (256 - b) \<le> L" unfolding L_def by (intro mult_le_mono1) simp
  moreover have "b - 1 + (256 - b) = 255" using b b0 by simp
  ultimately have L0: "2 ^ 255 \<le> L" by (metis power_add)
  show M0: "2 ^ 52 \<le> M" and M1: "M < 2 ^ 53" unfolding M_def L_def [symmetric] using L0 L1 by simp_all
  define left where "left = wrapping_shl x (256 - b)"
  have left: "u256_val left = L"
  proof -
    have "(256 - b) mod 256 = 256 - b" using b0 by simp
    then show ?thesis using L1 by (simp add: left_def wrapping_shl_val L_def n_def)
  qed
  define mid where "mid = wrapping_shr left 75"
  have mid: "u256_val mid = L div 2 ^ 75" by (simp add: mid_def wrapping_shr_val left)
  have hl: "unat (high z) = u256_val z div 2 ^ 128" "unat (low z) = u256_val z mod 2 ^ 128" for z
    unfolding u256_val_def using u128_less [of "low z"] by simp_all
  have m: "unat (high mid) = M" unfolding hl mid M_def L_def [symmetric] by (simp flip: div_mult2_eq)
  have "R = 2 ^ 75 * (L div 2 ^ 75 mod 2 ^ 128) + L mod 2 ^ 75"
    unfolding R_def L_def [symmetric] using mod_mult2_eq [of L "2 ^ 75" "2 ^ 128"] by simp
  then have R: "R div 2 ^ 75 = L div 2 ^ 75 mod 2 ^ 128" "R mod 2 ^ 75 = L mod 2 ^ 75" by simp_all
  have a: "unat (low mid) = R div 2 ^ 75" unfolding hl mid R ..
  have "unat (low left AND mask 75) = L mod 2 ^ 128 mod 2 ^ 75" unfolding unat_and_mask hl left ..
  also have "\<dots> = L mod 2 ^ 75" by (rule mod_mod_cancel) (simp add: le_imp_power_dvd)
  finally have c: "unat (low left AND 0x7FFFFFFFFFFFFFFFFFF) = R mod 2 ^ 75"
    unfolding R by (simp add: mask_eq_exp_minus_1)
  have "R < 2 ^ 203" by (simp add: R_def)
  note r = rounding [OF a c this m M1]
  define \<delta> where "\<delta> = (if 2 ^ 202 < R \<or> R = 2 ^ 202 \<and> odd M then 1 else 0 :: nat)"
  define w where "w = high mid + drop_bit 127 ((low mid OR (low left AND 0x7FFFFFFFFFFFFFFFFFF)) -
      (drop_bit 127 (low mid OR (low left AND 0x7FFFFFFFFFFFFFFFFFF)) AND NOT (high mid)))"
  have w: "unat w = M + \<delta>" unfolding w_def \<delta>_def by (rule r)
  have d1: "\<delta> \<le> 1" by (simp add: \<delta>_def)
  have eq: "to_f64_bits x = push_bit 52 (1277 - of_nat (256 - b)) + ucast w"
    using assms(1) by (simp add: to_f64_bits_def Let_def u256_bits_eq b_def left_def mid_def w_def)
  have "unat (1277 - of_nat (256 - b) :: u64) = 1277 - (256 - b)"
    using b by (simp add: unat_word_ariths unat_of_nat of_nat_diff)
  then have "unat (push_bit 52 (1277 - of_nat (256 - b)) :: u64) = (1021 + b) * 2 ^ 52"
    unfolding unat_push_bit using b by simp
  moreover have "unat (ucast w :: u64) = M + \<delta>" using w M1 d1 by (simp add: unat_ucast)
  ultimately have "unat (to_f64_bits x) = (1021 + b) * 2 ^ 52 + (M + \<delta>)"
    unfolding eq unat_word_ariths using b M1 d1 by simp
  then show "unat (to_f64_bits x) = (1021 + b) * 2 ^ 52 + M + (if 2 ^ 202 < R \<or> R = 2 ^ 202 \<and> odd M then 1 else 0)"
    by (simp add: \<delta>_def)
qed


lemma f64_decode:
  assumes "2 ^ 52 \<le> (k :: nat)" "k \<le> 2 ^ 53"
  shows "(2 ^ 52 + ((1021 + b) * 2 ^ 52 + k) mod 2 ^ 52) * 2 ^ (((1021 + b) * 2 ^ 52 + k) div 2 ^ 52) = k * 2 ^ (1022 + b)"
proof (cases "k = 2 ^ 53")
  case True
  have "((1021 + b) * 2 ^ 52 + k) mod 2 ^ 52 = 0" "((1021 + b) * 2 ^ 52 + k) div 2 ^ 52 = Suc (1022 + b)"
    unfolding True by (simp_all add: algebra_simps)
  then show ?thesis by (simp only: True power_Suc) simp
next
  case False
  define f where "f = k - 2 ^ 52"
  have f: "k = 2 ^ 52 + f" "f < 2 ^ 52" using assms False by (auto simp: f_def)
  have e: "(1021 + b) * 2 ^ 52 + k = f + (1022 + b) * 2 ^ 52" unfolding f(1) by simp
  have "(f + q * 2 ^ 52) mod 2 ^ 52 = f" "(f + q * 2 ^ 52) div 2 ^ 52 = q" for q using f(2) by simp_all
  then have d: "((1021 + b) * 2 ^ 52 + k) mod 2 ^ 52 = f" "((1021 + b) * 2 ^ 52 + k) div 2 ^ 52 = 1022 + b"
    unfolding e by blast+
  show ?thesis unfolding d by (simp only: f(1))
qed

lemma nearest_even:
  fixes L M R k :: nat
  assumes "L = M * 2 ^ 203 + R" "R < 2 ^ 203" "k = M + (if 2 ^ 202 < R \<or> R = 2 ^ 202 \<and> odd M then 1 else 0)"
  shows "2 * \<bar>int L - int (k * 2 ^ 203)\<bar> \<le> 2 ^ 203" "2 * \<bar>int L - int (k * 2 ^ 203)\<bar> = 2 ^ 203 \<Longrightarrow> even k"
  unfolding assms(1,3) using assms(2) by (auto simp: algebra_simps split: if_splits)

lemma to_f64_nonzero:
  fixes x :: U256
  assumes "x \<noteq> u256_ZERO"
  defines "n \<equiv> u256_val x" and "b \<equiv> bit_length (u256_val x)"
    and "m \<equiv> 2 ^ 52 + unat (to_f64_bits x) mod 2 ^ 52" and "E \<equiv> unat (to_f64_bits x) div 2 ^ 52"
  shows "\<exists>k. m * 2 ^ E = k * 2 ^ (1022 + b) \<and> 2 ^ 52 \<le> k \<and> k \<le> 2 ^ 53
    \<and> 2 * \<bar>int (n * 2 ^ 53) - int (k * 2 ^ b)\<bar> \<le> 2 ^ b
    \<and> (2 * \<bar>int (n * 2 ^ 53) - int (k * 2 ^ b)\<bar> = 2 ^ b \<longrightarrow> even k)"
proof -
  define L where "L = n * 2 ^ (256 - b)"
  define M R where "M = L div 2 ^ 203" and "R = L mod 2 ^ 203"
  define k where "k = M + (if 2 ^ 202 < R \<or> R = 2 ^ 202 \<and> odd M then 1 else 0)"
  note parts = to_f64_parts [OF assms(1), folded n_def b_def, folded L_def, folded M_def R_def]
  have bits: "unat (to_f64_bits x) = (1021 + b) * 2 ^ 52 + k" using parts(1) by (simp add: k_def)
  have k: "2 ^ 52 \<le> k" "k \<le> 2 ^ 53" using parts(2,3) by (auto simp: k_def)
  have "L = M * 2 ^ 203 + R" "R < 2 ^ 203" by (simp_all only: M_def R_def div_mult_mod_eq) simp
  note near = nearest_even [OF this k_def]
  have "L * 2 ^ b = n * 2 ^ 53 * 2 ^ 203"
  proof -
    have "256 - b + b = 53 + 203" using parts(5) by simp
    then have "(2 :: nat) ^ (256 - b) * 2 ^ b = 2 ^ 53 * 2 ^ 203" by (simp only: power_add [symmetric])
    then show ?thesis unfolding L_def by (simp only: mult.assoc)
  qed
  then have "int L * 2 ^ b = int (n * 2 ^ 53) * 2 ^ 203" by (metis of_nat_mult of_nat_numeral of_nat_power)
  then have "(int L - int (k * 2 ^ 203)) * 2 ^ b = (int (n * 2 ^ 53) - int (k * 2 ^ b)) * 2 ^ 203"
    by (simp add: algebra_simps)
  then have "\<bar>(int L - int (k * 2 ^ 203)) * 2 ^ b\<bar> = \<bar>(int (n * 2 ^ 53) - int (k * 2 ^ b)) * 2 ^ 203\<bar>"
    by (rule arg_cong)
  then have "\<bar>int L - int (k * 2 ^ 203)\<bar> * 2 ^ b = \<bar>int (n * 2 ^ 53) - int (k * 2 ^ b)\<bar> * 2 ^ 203"
    by (simp only: abs_mult power_abs abs_numeral)
  then have scale: "2 * \<bar>int L - int (k * 2 ^ 203)\<bar> * 2 ^ b = 2 * \<bar>int (n * 2 ^ 53) - int (k * 2 ^ b)\<bar> * 2 ^ 203"
    by (simp only: mult.assoc)
  have "2 * \<bar>int L - int (k * 2 ^ 203)\<bar> * 2 ^ b \<le> 2 ^ 203 * 2 ^ b" using near(1) by (rule mult_right_mono) simp
  then have "2 * \<bar>int (n * 2 ^ 53) - int (k * 2 ^ b)\<bar> * 2 ^ 203 \<le> 2 ^ b * 2 ^ 203" unfolding scale by (simp only: mult.commute)
  then have le: "2 * \<bar>int (n * 2 ^ 53) - int (k * 2 ^ b)\<bar> \<le> 2 ^ b" by (simp only: mult_le_cancel_right) simp
  have "even k" if "2 * \<bar>int (n * 2 ^ 53) - int (k * 2 ^ b)\<bar> = 2 ^ b"
  proof -
    have "2 * \<bar>int L - int (k * 2 ^ 203)\<bar> * 2 ^ b = 2 ^ 203 * 2 ^ b" unfolding scale that by (rule mult.commute)
    then have "2 * \<bar>int L - int (k * 2 ^ 203)\<bar> = 2 ^ 203" by (simp only: mult_cancel_right) simp
    then show ?thesis by (rule near(2))
  qed
  moreover have "m * 2 ^ E = k * 2 ^ (1022 + b)" unfolding m_def E_def bits using k by (rule f64_decode)
  ultimately show ?thesis using le k by blast
qed

text \<open>
  C30: The conversion to a floating-point number rounds to nearest, ties to even: zero gives the bits of zero, and for a non-zero integer \<open>n\<close> of \<open>b\<close>
  bits the result is \<open>k * 2 ^ (b - 53)\<close> for an integer \<open>k\<close> of 53 bits (or \<open>2 ^ 53\<close>), at a distance of at most half
  a unit, and \<open>k\<close> is even when the distance is exactly half a unit; the bits are those of that number.
\<close>

theorem to_f64_nearest:
  fixes x :: U256
  defines "n \<equiv> u256_val x" and "b \<equiv> bit_length (u256_val x)"
    and "m \<equiv> 2 ^ 52 + unat (to_f64_bits x) mod 2 ^ 52" and "E \<equiv> unat (to_f64_bits x) div 2 ^ 52"
  shows "if n = 0 then to_f64_bits x = 0
    else \<exists>k. m * 2 ^ E = k * 2 ^ (1022 + b) \<and> 2 ^ 52 \<le> k \<and> k \<le> 2 ^ 53
      \<and> 2 * \<bar>int (n * 2 ^ 53) - int (k * 2 ^ b)\<bar> \<le> 2 ^ b
      \<and> (2 * \<bar>int (n * 2 ^ 53) - int (k * 2 ^ b)\<bar> = 2 ^ b \<longrightarrow> even k)"
proof (cases "n = 0")
  case True
  then have "x = u256_ZERO" by (simp add: n_def u256_val_inject [symmetric] u256_val_simps)
  moreover have "to_f64_bits u256_ZERO = 0" by code_simp
  ultimately show ?thesis using True by simp
next
  case False
  then have "x \<noteq> u256_ZERO" by (auto simp: n_def u256_val_simps)
  from to_f64_nonzero [OF this] show ?thesis
    unfolding n_def b_def m_def E_def using False by (simp only: n_def if_False)
qed

theorem to_f64_nearest_witness:
  "to_f64_bits u256_ZERO = 0 \<and> (\<exists>k. (2 ^ 52 + unat (to_f64_bits (U256 0 3)) mod 2 ^ 52) * 2 ^ (unat (to_f64_bits (U256 0 3)) div 2 ^ 52) = k * 2 ^ 1024
     \<and> 2 * \<bar>int (3 * 2 ^ 53) - int (k * 2 ^ 2)\<bar> \<le> 2 ^ 2)"
proof -
  have "bit_length (u256_val (U256 0 3)) = 2" "u256_val (U256 0 3) = 3"
    by (simp_all add: u256_limbs bit_length_Suc)
  then show ?thesis using to_f64_nearest [of "U256 0 3"] to_f64_nearest [of u256_ZERO] by (auto simp: u256_val_simps)
qed

section \<open>Hexadecimal numbers\<close>

lemma hex_digit_less: "hex_digit c = Some d \<Longrightarrow> d < 16"
  by (auto simp: hex_digit_def Let_def split: if_splits)

lemma hex_value_append: "hex_value a (s @ t) = Option.bind (hex_value a s) (\<lambda>v. hex_value v t)"
  by (induction s arbitrary: a) (auto simp: bind_eq_None_conv split: bind_splits)

lemma hex_value_acc: "list_all (\<lambda>c. hex_digit c \<noteq> None) s \<Longrightarrow> \<exists>v < 16 ^ length s. \<forall>a. hex_value a s = Some (a * 16 ^ length s + v)"
proof (induction s)
  case (Cons c s)
  then obtain v d where v: "v < 16 ^ length s" "\<forall>a. hex_value a s = Some (a * 16 ^ length s + v)"
      "hex_digit c = Some d" by auto
  have "d * 16 ^ length s + v < 16 * 16 ^ length s"
  proof -
    have "(d + 1) * 16 ^ length s \<le> 16 * 16 ^ length s" using hex_digit_less [OF v(3)] by (intro mult_le_mono1) simp
    then have "d * 16 ^ length s + 16 ^ length s \<le> 16 * 16 ^ length s" by (simp only: distrib_right mult_1)
    then show ?thesis using v(1) by linarith
  qed
  then show ?case using v by (intro exI [of _ "d * 16 ^ length s + v"]) (auto simp: algebra_simps)
qed simp

lemma not_hex: "hex_digit CHR ''x'' = None" "hex_digit CHR ''X'' = None" "hex_digit CHR ''+'' = None"
  by (simp_all add: hex_digit_def)

lemma hex_u128_digits:
  assumes "list_all (\<lambda>c. hex_digit c \<noteq> None) s" "s \<noteq> []" "length s \<le> 32" "hex_value 0 s = Some v"
  shows "hex_u128 s = Inr (of_nat v)" "v < 2 ^ 128"
proof -
  obtain w where "w < 16 ^ length s" "\<forall>a. hex_value a s = Some (a * 16 ^ length s + w)"
    using hex_value_acc [OF assms(1)] by blast
  then have "v < 16 ^ length s" using assms(4) by simp
  also have "(16 :: nat) ^ length s \<le> 16 ^ 32" using assms(3) by (rule power_increasing) simp
  finally show v: "v < 2 ^ 128" by simp
  have "take 2 s \<noteq> ''0x''" "take 2 s \<noteq> ''0X''" "take 1 s \<noteq> ''+''"
    using assms(1) not_hex by (cases s rule: list.exhaust; cases "tl s"; auto)+
  with v assms show "hex_u128 s = Inr (of_nat v)"
    by (simp add: hex_word_def strip_hex_prefix_def from_str_radix_16_def Let_def)
qed


lemma hex_value_all: "hex_value a s = Some v \<Longrightarrow> list_all (\<lambda>c. hex_digit c \<noteq> None) s"
  by (induction s arbitrary: a) (auto simp: bind_eq_Some_conv)

lemma from_hex_internal_digits:
  assumes "hex_value 0 s = Some v" "s \<noteq> []" "length s \<le> 64"
  shows "\<exists>x. from_hex_internal s = Inr x \<and> u256_val x = v"
proof -
  note ds = hex_value_all [OF assms(1)]
  have u: "unat (of_nat w :: u128) = w" if "w < 2 ^ 128" for w using that by (simp add: unat_of_nat)
  show ?thesis
  proof (cases "length s \<le> 32")
    case True
    note h = hex_u128_digits [OF ds assms(2) True assms(1)]
    then show ?thesis using True by (simp add: from_hex_internal_def u256_limbs u del: unat_of_nat)
  next
    case False
    define h l where "h = take (length s - 32) s" and "l = drop (length s - 32) s"
    have s: "s = h @ l" "length l = 32" "length h \<le> 32" "h \<noteq> []" using False assms(3) by (auto simp: h_def l_def)
    have hl: "list_all (\<lambda>c. hex_digit c \<noteq> None) h" "list_all (\<lambda>c. hex_digit c \<noteq> None) l" using ds s(1) by simp_all
    obtain vh where vh: "hex_value 0 h = Some vh" using hex_value_acc [OF hl(1)] by auto
    obtain vl where vl: "\<forall>a. hex_value a l = Some (a * 16 ^ 32 + vl)" using hex_value_acc [OF hl(2)] s(2) by auto
    have v: "v = vh * 2 ^ 128 + vl" using assms(1) vh vl unfolding s(1) by (simp add: hex_value_append)
    have "l \<noteq> []" using s(2) by auto
    note H = hex_u128_digits [OF hl(1) s(4,3) vh] and L = hex_u128_digits [OF hl(2) this _, of vl]
    have "from_hex_internal s = Inr (U256 (of_nat vh) (of_nat vl))"
      using False H L s vl by (simp add: from_hex_internal_def Let_def flip: h_def l_def)
    then show ?thesis using H(2) L(2) s(2) vl v by (auto simp: u256_limbs u simp del: unat_of_nat)
  qed
qed

text \<open>
  Hexadecimal text of one to 64 digits is read with its exact value, with and without the prefix, by the functions
  made for each; but the inner parser accepts a second prefix, and a plus sign in front of either half.
\<close>

theorem hex_reading:
  assumes "hex_value 0 s = Some v" "s \<noteq> []" "length s \<le> 64"
  shows "(\<exists>x. u256_val x = v \<and> u256_from_unprefixed_hex s = Inr x \<and> u256_from_hex (''0x'' @ s) = Inr x)
    \<and> u256_from_hex ''0x0xab'' = Inr (U256 0 0xAB) \<and> compact_from_hex ''0x0X1d'' = Inr 0x1D
    \<and> u256_from_unprefixed_hex (''1+'' @ replicate 31 CHR ''0'') = Inr (U256 1 0)"
proof (intro conjI)
  obtain x where x: "from_hex_internal s = Inr x" "u256_val x = v" using from_hex_internal_digits [OF assms] by blast
  have "take 2 s \<noteq> ''0x''" "take 2 s \<noteq> ''0X''"
    using hex_value_all [OF assms(1)] not_hex by (cases s rule: list.exhaust; cases "tl s"; auto)+
  with x show "\<exists>x. u256_val x = v \<and> u256_from_unprefixed_hex s = Inr x \<and> u256_from_hex (''0x'' @ s) = Inr x"
    by (auto simp: u256_from_unprefixed_hex_def u256_from_hex_def)
  show "u256_from_hex ''0x0xab'' = Inr (U256 0 0xAB)" "compact_from_hex ''0x0X1d'' = Inr 0x1D"
    by (simp_all add: u256_from_hex_def compact_from_hex_def from_hex_internal_def hex_word_def strip_hex_prefix_def
        from_str_radix_16_def hex_digit_def Let_def)
  have z: "hex_value 0 (replicate k CHR ''0'') = Some 0" for k by (induction k) (simp_all add: hex_digit_def)
  then show "u256_from_unprefixed_hex (''1+'' @ replicate 31 CHR ''0'') = Inr (U256 1 0)"
    by (simp add: u256_from_unprefixed_hex_def from_hex_internal_def hex_word_def strip_hex_prefix_def
        from_str_radix_16_def hex_digit_def Let_def)
qed

theorem hex_reading_witness: "\<exists>x. u256_val x = 255 \<and> u256_from_hex ''0xfF'' = Inr x"
  using hex_reading [of "''fF''" 255] by (auto simp: hex_digit_def)

end
