(* ===== verification/Merkle.thy ===== *)
theory Merkle
  imports Encode Units "HOL-Library.Sublist"
begin

text \<open>
  Merkle trees (\<open>src/litecoin/src/merkle_tree/mod.rs\<close>) and partial Merkle trees
  (\<open>src/litecoin/src/merkle_tree/block.rs\<close>): the in-place and the iterator computation of a root, and the
  proofs that some transactions of a block are in its tree, with their building, extraction and
  serialisation. The root functions are generic in the hash of the Rust type parameter; the hash of a
  pair of nodes is the argument \<open>P\<close>.
\<close>

section \<open>Roots\<close>

text \<open>One pass of the loop of \<open>merkle_root_r\<close> writes the parents over the front of the slice.\<close>

definition merkle_level :: "('a \<Rightarrow> 'a \<Rightarrow> 'a) \<Rightarrow> 'a list \<Rightarrow> 'a list" where
  "merkle_level P hashes = fold (\<lambda>idx hashes.
       let idx1 = 2 * idx; idx2 = min (idx1 + 1) (length hashes - 1) in
       hashes[idx := P (hashes ! idx1) (hashes ! idx2)]) [0..<(length hashes + 1) div 2] hashes"

text \<open>On an empty slice the code calls itself for ever; not returning is the value \<open>None\<close>.\<close>

partial_function (option) merkle_root_r :: "('a \<Rightarrow> 'a \<Rightarrow> 'a) \<Rightarrow> 'a list \<Rightarrow> 'a option" where
  "merkle_root_r P hashes =
     (if length hashes = 1 then Some (hashes ! 0)
      else let half_len = length hashes div 2 + length hashes mod 2 in
        merkle_root_r P (take half_len (merkle_level P hashes)))"

definition calculate_root_inline :: "('a \<Rightarrow> 'a \<Rightarrow> 'a) \<Rightarrow> 'a list \<Rightarrow> 'a option" where
  "calculate_root_inline P hashes =
     (if length hashes = 0 then None
      else if length hashes = 1 then Some (hashes ! 0)
      else merkle_root_r P hashes)"

text \<open>The \<open>while let\<close> loop of \<open>calculate_root\<close> takes two hashes at a time, the last one twice if need be.\<close>

fun pair_hashes :: "('a \<Rightarrow> 'a \<Rightarrow> 'a) \<Rightarrow> 'a list \<Rightarrow> 'a list" where
  "pair_hashes P [] = []"
| "pair_hashes P [hash1] = [P hash1 hash1]"
| "pair_hashes P (hash1 # hash2 # hashes) = P hash1 hash2 # pair_hashes P hashes"

definition calculate_root :: "('a \<Rightarrow> 'a \<Rightarrow> 'a) \<Rightarrow> 'a list \<Rightarrow> 'a option" where
  "calculate_root P hashes =
     (case hashes of [] \<Rightarrow> None
      | [first] \<Rightarrow> Some first
      | first # second # hashes \<Rightarrow> merkle_root_r P (pair_hashes P (first # second # hashes)))"

section \<open>Partial trees\<close>

type_synonym tx_merkle_node = bytes

text \<open>\<open>SHA256D(left + right)\<close>.\<close>

definition parent_hash :: "tx_merkle_node \<Rightarrow> tx_merkle_node \<Rightarrow> tx_merkle_node" where
  "parent_hash left right = sha256d_hash (left @ right)"

record partial_merkle_tree =
  num_transactions :: u32
  pmt_bits :: "bool list"
  pmt_hashes :: "tx_merkle_node list"

datatype merkle_error =
    MerkleRootMismatch | NoTransactions | TooManyTransactions | TooManyHashes | NotEnoughBits
  | NotAllBitsConsumed | NotAllHashesConsumed | BitsArrayOverflow | HashesArrayOverflow | IdenticalHashesFound

text \<open>
  Heights and positions are \<^typ>\<open>nat\<close>: a position at height \<open>h\<close> is below \<open>2 ^ 32 / 2 ^ h\<close>, so that
  \<open>idx * 2 + 1\<close> and \<open>idx << height\<close> stay in 32 bits. The sum of the width and the end of a range may
  not, and are reduced.
\<close>

definition calc_tree_width :: "u32 \<Rightarrow> nat \<Rightarrow> nat" where
  "calc_tree_width n height = ((unat n + 2 ^ height - 1) mod 2 ^ 32) div 2 ^ height"

function tree_height_from :: "u32 \<Rightarrow> nat \<Rightarrow> nat" where
  "tree_height_from n height =
     (if 1 < calc_tree_width n height then tree_height_from n (height + 1) else height)"
  by pat_completeness auto
termination
proof (relation "measure (\<lambda>(n, height). 31 - height)")
  fix n :: u32 and h :: nat
  assume w: "1 < calc_tree_width n h"
  have "h < 31"
  proof (rule ccontr)
    assume "\<not> h < 31"
    then have "(2 :: nat) ^ 31 \<le> 2 ^ h" by (intro power_increasing) simp_all
    moreover have "(unat n + 2 ^ h - 1) mod 2 ^ 32 < (2 :: nat) ^ 32" by simp
    ultimately have "(unat n + 2 ^ h - 1) mod 2 ^ 32 < 2 * (2 :: nat) ^ h" by simp
    then have "(unat n + 2 ^ h - 1) mod 2 ^ 32 div 2 ^ h < (2 :: nat)"
      by (metis less_mult_imp_div_less)
    with w show False by (simp add: calc_tree_width_def)
  qed
  then show "((n, h + 1), n, h) \<in> measure (\<lambda>(n, height). 31 - height)" by simp
qed simp

declare tree_height_from.simps [simp del]

definition calc_tree_height :: "u32 \<Rightarrow> nat" where
  "calc_tree_height n = tree_height_from n 0"

fun calc_hash :: "u32 \<Rightarrow> nat \<Rightarrow> nat \<Rightarrow> bytes list \<Rightarrow> tx_merkle_node" where
  "calc_hash n 0 idx txids = txids ! idx"
| "calc_hash n (Suc height) idx txids =
     (let left = calc_hash n height (idx * 2) txids;
          right = (if idx * 2 + 1 < calc_tree_width n height then calc_hash n height (idx * 2 + 1) txids else left) in
      parent_hash left right)"

text \<open>The loop that tells whether a node is above a matched transaction.\<close>

definition parent_of_match :: "u32 \<Rightarrow> nat \<Rightarrow> nat \<Rightarrow> bool list \<Rightarrow> bool" where
  "parent_of_match n height idx matches =
     fold (\<lambda>p m. m \<or> matches ! p) [idx * 2 ^ height ..< min (((idx + 1) * 2 ^ height) mod 2 ^ 32) (unat n)] False"

fun traverse_and_build :: "nat \<Rightarrow> nat \<Rightarrow> bytes list \<Rightarrow> bool list \<Rightarrow> partial_merkle_tree \<Rightarrow> partial_merkle_tree" where
  "traverse_and_build 0 idx txids matches t =
     (let m = parent_of_match (num_transactions t) 0 idx matches;
          t = t\<lparr>pmt_bits := pmt_bits t @ [m]\<rparr> in
      t\<lparr>pmt_hashes := pmt_hashes t @ [calc_hash (num_transactions t) 0 idx txids]\<rparr>)"
| "traverse_and_build (Suc height) idx txids matches t =
     (let m = parent_of_match (num_transactions t) (Suc height) idx matches;
          t = t\<lparr>pmt_bits := pmt_bits t @ [m]\<rparr> in
      if \<not> m then t\<lparr>pmt_hashes := pmt_hashes t @ [calc_hash (num_transactions t) (Suc height) idx txids]\<rparr>
      else let t = traverse_and_build height (idx * 2) txids matches t in
        if idx * 2 + 1 < calc_tree_width (num_transactions t) height
        then traverse_and_build height (idx * 2 + 1) txids matches t else t)"

text \<open>The assertions of \<open>from_txids\<close> panic.\<close>

definition from_txids :: "bytes list \<Rightarrow> bool list \<Rightarrow> partial_merkle_tree option" where
  "from_txids txids matches =
     (if length txids = 0 \<or> length txids \<noteq> length matches then None
      else let t = \<lparr> num_transactions = of_nat (length txids), pmt_bits = [], pmt_hashes = [] \<rparr> in
        Some (traverse_and_build (calc_tree_height (num_transactions t)) 0 txids matches t))"

text \<open>The mutable arguments of the extraction; they keep what was written before an error.\<close>

record extraction =
  bits_used :: nat
  hash_used :: nat
  ex_matches :: "bytes list"
  ex_indexes :: "nat list"

fun traverse_and_extract ::
  "partial_merkle_tree \<Rightarrow> nat \<Rightarrow> nat \<Rightarrow> extraction \<Rightarrow> (merkle_error + tx_merkle_node) \<times> extraction" where
  "traverse_and_extract t height idx s =
     (if length (pmt_bits t) \<le> bits_used s then (Inl BitsArrayOverflow, s)
      else let m = pmt_bits t ! bits_used s; s = s\<lparr>bits_used := bits_used s + 1\<rparr> in
      if height = 0 \<or> \<not> m then
        (if length (pmt_hashes t) \<le> hash_used s then (Inl HashesArrayOverflow, s)
         else let hash = pmt_hashes t ! hash_used s; s = s\<lparr>hash_used := hash_used s + 1\<rparr> in
           (Inr hash, if height = 0 \<and> m
              then s\<lparr>ex_matches := ex_matches s @ [hash], ex_indexes := ex_indexes s @ [idx]\<rparr> else s))
      else case traverse_and_extract t (height - 1) (idx * 2) s of
          (Inl e, s) \<Rightarrow> (Inl e, s)
        | (Inr left, s) \<Rightarrow>
          (if idx * 2 + 1 < calc_tree_width (num_transactions t) (height - 1)
           then case traverse_and_extract t (height - 1) (idx * 2 + 1) s of
               (Inl e, s) \<Rightarrow> (Inl e, s)
             | (Inr right, s) \<Rightarrow> if right = left then (Inl IdenticalHashesFound, s) else (Inr (parent_hash left right), s)
           else (Inr (parent_hash left left), s)))"

declare traverse_and_extract.simps [simp del]

definition MAX_BLOCK :: u64 where "MAX_BLOCK = 4000000"
definition MIN_TRANSACTION :: u64 where "MIN_TRANSACTION = 4 * 60"

text \<open>The result comes with the vectors of matches and indexes.\<close>

definition extract_matches :: "partial_merkle_tree \<Rightarrow> (merkle_error + tx_merkle_node) \<times> bytes list \<times> nat list" where
  "extract_matches t =
     (if num_transactions t = 0 then (Inl NoTransactions, [], [])
      else if MAX_BLOCK div MIN_TRANSACTION < ucast (num_transactions t) then (Inl TooManyTransactions, [], [])
      else if num_transactions t < of_nat (length (pmt_hashes t)) then (Inl TooManyHashes, [], [])
      else if length (pmt_bits t) < length (pmt_hashes t) then (Inl NotEnoughBits, [], [])
      else case traverse_and_extract t (calc_tree_height (num_transactions t)) 0
             \<lparr> bits_used = 0, hash_used = 0, ex_matches = [], ex_indexes = [] \<rparr> of
          (Inl e, s) \<Rightarrow> (Inl e, ex_matches s, ex_indexes s)
        | (Inr root, s) \<Rightarrow>
          (if (bits_used s + 7) div 8 \<noteq> unat (of_nat (length (pmt_bits t)) + 7 :: u32) div 8
           then Inl NotAllBitsConsumed
           else if hash_used s \<noteq> unat (of_nat (length (pmt_hashes t)) :: u32) then Inl NotAllHashesConsumed
           else Inr root, ex_matches s, ex_indexes s))"

text \<open>Eight flags to a byte, the least significant first.\<close>

definition pack_byte :: "bool list \<Rightarrow> u8" where
  "pack_byte chunk = fold (\<lambda>(i, bit) byte. byte OR push_bit i (if bit then 1 else 0)) (zip [0..<length chunk] chunk) 0"

fun chunks8 :: "'a list \<Rightarrow> 'a list list" where
  "chunks8 [] = []"
| "chunks8 xs = take 8 xs # chunks8 (drop 8 xs)"

definition pmt_encode :: "partial_merkle_tree \<Rightarrow> io_failure encoded" where
  "pmt_encode t =
     enc_seq (int_encode (num_transactions t)) (enc_seq (vec_encode array_encode (pmt_hashes t))
       (enc_seq (varint_encode (of_nat ((length (pmt_bits t) + 7) div 8)))
         (enc_list (\<lambda>chunk. emit_u8 (pack_byte chunk)) (chunks8 (pmt_bits t)))))"

definition unpack_byte :: "u8 \<Rightarrow> bool list" where
  "unpack_byte byte = map (\<lambda>i. byte AND push_bit i 1 \<noteq> 0) [0..<8]"

definition pmt_decode :: "(encode_error, partial_merkle_tree) decoder" where
  "pmt_decode = dbind read_int (\<lambda>n. dbind (limited (vec_decode (array_decode 32))) (\<lambda>hashes.
     dbind varint_decode (\<lambda>nb.
       if MAX_VEC_SIZE < unat nb then dfail (OversizedVectorAllocation (unat nb) MAX_VEC_SIZE)
       else dbind (drepeat (unat nb) read_u8) (\<lambda>bytes.
         dreturn \<lparr> num_transactions = n, pmt_bits = concat (map unpack_byte bytes), pmt_hashes = hashes \<rparr>))))"

section \<open>The levels of a tree\<close>

lemma length_pair_hashes [simp]: "length (pair_hashes P xs) = (length xs + 1) div 2"
  by (induction P xs rule: pair_hashes.induct) auto

lemma pair_hashes_nth:
  assumes "i < (length xs + 1) div 2"
  shows "pair_hashes P xs ! i = P (xs ! (2 * i)) (xs ! min (2 * i + 1) (length xs - 1))"
  using assms
proof (induction P xs arbitrary: i rule: pair_hashes.induct)
  case (3 P x y xs)
  show ?case
  proof (cases i)
    case (Suc j)
    then have "j < (length xs + 1) div 2" using 3(2) by simp
    moreover have "(x # y # xs) ! min (2 * Suc j + 1) (length (x # y # xs) - 1) = xs ! min (2 * j + 1) (length xs - 1)"
      using calculation by (cases "2 * j + 1 < length xs") (auto simp: min_def nth_Cons')
    ultimately show ?thesis using 3(1) Suc by simp
  qed simp
qed auto

text \<open>The in-place pass leaves the parents in front: position \<open>2 * idx\<close> has not been written before it is read.\<close>

lemma merkle_level_prefix:
  assumes "k \<le> (length xs + 1) div 2"
  shows "fold (\<lambda>idx hs. let idx1 = 2 * idx; idx2 = min (idx1 + 1) (length hs - 1) in
           hs[idx := P (hs ! idx1) (hs ! idx2)]) [0..<k] xs = take k (pair_hashes P xs) @ drop k xs"
  using assms
proof (induction k)
  case (Suc k)
  let ?hs = "take k (pair_hashes P xs) @ drop k xs"
  have k: "k < (length xs + 1) div 2" using Suc.prems by simp
  then have len: "length ?hs = length xs" "length (take k (pair_hashes P xs)) = k" "k < length xs" by auto
  have rd: "k \<le> j \<Longrightarrow> ?hs ! j = xs ! j" if "j < length xs" for j
    using len that by (simp add: nth_append)
  have "min (2 * k + 1) (length xs - 1) < length xs" "k \<le> min (2 * k + 1) (length xs - 1)" using len k by auto
  then have "?hs[k := P (?hs ! (2 * k)) (?hs ! min (2 * k + 1) (length ?hs - 1))] = ?hs[k := pair_hashes P xs ! k]"
    using rd k by (simp add: len(1) pair_hashes_nth)
  also have "\<dots> = take (Suc k) (pair_hashes P xs) @ drop (Suc k) xs"
    using len k by (simp add: list_update_append take_Suc_conv_app_nth flip: Cons_nth_drop_Suc)
  finally show ?case using Suc by (simp add: Let_def len(1))
qed simp

lemma take_merkle_level:
  "take (length xs div 2 + length xs mod 2) (merkle_level P xs) = pair_hashes P xs"
proof -
  have h: "length xs div 2 + length xs mod 2 = (length xs + 1) div 2" by presburger
  show ?thesis
    unfolding merkle_level_def h by (subst merkle_level_prefix) simp_all
qed

lemma merkle_root_r_rec:
  "merkle_root_r P xs = (if length xs = 1 then Some (xs ! 0) else merkle_root_r P (pair_hashes P xs))"
  by (subst merkle_root_r.simps) (simp add: take_merkle_level Let_def)

lemma merkle_root_r_single [simp]: "merkle_root_r P [x] = Some x"
  by (subst merkle_root_r_rec) simp

lemma merkle_root_r_returns:
  assumes "xs \<noteq> []"
  obtains r where "merkle_root_r P xs = Some r"
proof -
  have "\<exists>r. merkle_root_r P xs = Some r" using assms
  proof (induction "length xs" arbitrary: xs rule: less_induct)
    case less
    show ?case
    proof (cases "length xs = 1")
      case False
      then have "1 < length xs" using less(2) by (cases xs) auto
      then have "length (pair_hashes P xs) < length xs" "0 < length (pair_hashes P xs)" by simp_all
      then have "length (pair_hashes P xs) < length xs" "pair_hashes P xs \<noteq> []" by (blast, blast)
      then show ?thesis using less(1) False by (subst merkle_root_r_rec) simp
    qed (subst merkle_root_r_rec, simp)
  qed
  then show ?thesis using that by blast
qed


lemma merkle_root_r_empty: "merkle_root_r P [] = None"
proof -
  have "merkle_root_r P xs = Some y \<Longrightarrow> xs \<noteq> []" for xs y
    by (drule merkle_root_r.raw_induct [where Pa = "\<lambda>(_, xs) _. xs \<noteq> []", rotated])
      (auto simp: merkle_level_def split: if_splits, blast)
  then show ?thesis by (cases "merkle_root_r P []") auto
qed

lemma calculate_root_eq:
  "calculate_root P xs = (if xs = [] then None else merkle_root_r P xs)"
  "calculate_root_inline P xs = (if xs = [] then None else merkle_root_r P xs)"
proof -
  show "calculate_root P xs = (if xs = [] then None else merkle_root_r P xs)"
    by (cases "(P, xs)" rule: pair_hashes.cases)
      (auto simp: calculate_root_def merkle_root_r_rec [of P "_ # _ # _"] merkle_root_r_rec [of P "[_]"])
  show "calculate_root_inline P xs = (if xs = [] then None else merkle_root_r P xs)"
    by (auto simp: calculate_root_inline_def merkle_root_r_rec [of P xs])
qed

text \<open>
  The levels above a list of leaves and the pairs that are hashed in them. Two different lists of one
  length with the same root show two different pairs, at one place of one level, with the same hash.
\<close>

definition root_level :: "('a \<Rightarrow> 'a \<Rightarrow> 'a) \<Rightarrow> nat \<Rightarrow> 'a list \<Rightarrow> 'a list" where
  "root_level P k xs = (pair_hashes P ^^ k) xs"

definition pair_at :: "'a list \<Rightarrow> nat \<Rightarrow> 'a \<times> 'a" where
  "pair_at xs i = (xs ! (2 * i), xs ! min (2 * i + 1) (length xs - 1))"

lemma root_level_0 [simp]: "root_level P 0 xs = xs"
  by (simp add: root_level_def)

lemma root_level_Suc: "root_level P (Suc k) xs = root_level P k (pair_hashes P xs)"
  by (simp add: root_level_def funpow_swap1)

lemma pair_hashes_pair_at: "i < (length xs + 1) div 2 \<Longrightarrow> pair_hashes P xs ! i = case_prod P (pair_at xs i)"
  by (simp add: pair_hashes_nth pair_at_def)

lemma pair_at_inject:
  assumes "length xs = length ys" and "\<And>i. i < (length xs + 1) div 2 \<Longrightarrow> pair_at xs i = pair_at ys i"
  shows "xs = ys"
proof (rule nth_equalityI)
  fix j assume j: "j < length xs"
  then have "pair_at xs (j div 2) = pair_at ys (j div 2)" by (intro assms(2)) auto
  moreover have "j = 2 * (j div 2) \<or> j = min (2 * (j div 2) + 1) (length xs - 1)" using j by auto
  ultimately show "xs ! j = ys ! j" using assms(1) by (auto simp: pair_at_def)
qed (rule assms(1))

definition level_collision :: "('a \<Rightarrow> 'a \<Rightarrow> 'a) \<Rightarrow> 'a list \<Rightarrow> 'a list \<Rightarrow> bool" where
  "level_collision P xs ys \<longleftrightarrow> (\<exists>k i. i < length (root_level P (Suc k) xs) \<and>
     pair_at (root_level P k xs) i \<noteq> pair_at (root_level P k ys) i \<and>
     case_prod P (pair_at (root_level P k xs) i) = case_prod P (pair_at (root_level P k ys) i))"

lemma level_collision_step: "level_collision P (pair_hashes P xs) (pair_hashes P ys) \<Longrightarrow> level_collision P xs ys"
  unfolding level_collision_def root_level_Suc [symmetric] by blast

lemma merkle_root_r_inject:
  assumes "merkle_root_r P xs = merkle_root_r P ys" and "length xs = length ys" and "xs \<noteq> ys"
  shows "level_collision P xs ys"
  using assms
proof (induction "length xs" arbitrary: xs ys rule: less_induct)
  case less
  show ?case
  proof (cases "length xs = 1")
    case True
    then obtain x y where "xs = [x]" "ys = [y]" using less.prems(2) by (auto simp: length_Suc_conv)
    then show ?thesis using less.prems(1,3) by simp
  next
    case False
    moreover have "xs \<noteq> []" using less.prems(2,3) by auto
    ultimately have l: "length (pair_hashes P xs) < length xs" by (cases xs) simp_all
    have roots: "merkle_root_r P (pair_hashes P xs) = merkle_root_r P (pair_hashes P ys)"
      using less.prems False merkle_root_r_rec [of P xs] merkle_root_r_rec [of P ys] by simp
    show ?thesis
    proof (cases "pair_hashes P xs = pair_hashes P ys")
      case True
      obtain i where "i < (length xs + 1) div 2" "pair_at xs i \<noteq> pair_at ys i"
        using pair_at_inject less.prems(2,3) by blast
      then show ?thesis
        unfolding level_collision_def using True less.prems(2)
        by (intro exI [of _ 0] exI [of _ i]) (simp add: root_level_Suc flip: pair_hashes_pair_at)
    next
      case ne: False
      then show ?thesis using less.hyps [OF l roots] less.prems(2) level_collision_step by force
    qed
  qed
qed

lemma pair_hashes_dup_last:
  "\<lbrakk>odd (length xs); ys = xs @ [last xs]\<rbrakk> \<Longrightarrow> pair_hashes P ys = pair_hashes P xs"
  by (induction P xs arbitrary: ys rule: pair_hashes.induct) auto

section \<open>The shape of a tree\<close>

lemma calc_tree_width_ceil:
  assumes "unat n \<le> 2 ^ 31" and "h \<le> 31"
  shows "calc_tree_width n h = (unat n + 2 ^ h - 1) div 2 ^ h"
proof -
  have "(2 :: nat) ^ h \<le> 2 ^ 31" using assms(2) by (intro power_increasing) simp_all
  then have "unat n + 2 ^ h - 1 < 2 ^ 32" using assms(1) by simp
  then show ?thesis by (simp only: calc_tree_width_def mod_less)
qed

lemma calc_tree_width_0: "calc_tree_width n 0 = unat n"
  using unat_less_exp [of n] by (simp add: calc_tree_width_def)

lemma ceil_div_iff: "0 < d \<Longrightarrow> i < (n + d - 1) div d \<longleftrightarrow> i * d < (n :: nat)"
proof -
  assume d: "0 < d"
  have "i < (n + d - 1) div d \<longleftrightarrow> Suc i * d \<le> n + d - 1"
    using d by (simp only: less_eq_div_iff_mult_less_eq Suc_le_eq [symmetric])
  also have "\<dots> \<longleftrightarrow> i * d < n" using d by auto
  finally show ?thesis .
qed

lemma less_width_iff:
  assumes "unat n \<le> 2 ^ 31" and "h \<le> 31"
  shows "i < calc_tree_width n h \<longleftrightarrow> i * 2 ^ h < unat n"
  unfolding calc_tree_width_ceil [OF assms] by (rule ceil_div_iff) simp

lemma calc_tree_width_Suc:
  assumes "unat n \<le> 2 ^ 31" and "Suc h \<le> 31"
  shows "calc_tree_width n (Suc h) = (calc_tree_width n h + 1) div 2"
proof -
  have w: "i < calc_tree_width n (Suc h) \<longleftrightarrow> i < (calc_tree_width n h + 1) div 2" for i
  proof -
    have "i < (calc_tree_width n h + 1) div 2 \<longleftrightarrow> 2 * i < calc_tree_width n h" by presburger
    then show ?thesis using assms by (simp add: less_width_iff mult.assoc mult.left_commute)
  qed
  show ?thesis by (metis w less_irrefl linorder_neqE_nat)
qed

lemma tree_height_from_props:
  assumes "h \<le> 31"
  shows "h \<le> tree_height_from n h \<and> tree_height_from n h \<le> 31 \<and> calc_tree_width n (tree_height_from n h) \<le> 1 \<and>
    (\<forall>k. h \<le> k \<longrightarrow> k < tree_height_from n h \<longrightarrow> 1 < calc_tree_width n k)"
  using assms
proof (induction n h rule: tree_height_from.induct)
  case (1 n h)
  show ?case
  proof (cases "1 < calc_tree_width n h")
    case True
    have "h \<noteq> 31"
    proof
      assume h: "h = 31"
      have "(unat n + 2 ^ h - 1) mod 2 ^ 32 < (2 :: nat) * 2 ^ 31" by simp
      then have "calc_tree_width n 31 < 2" unfolding calc_tree_width_def h by (rule less_mult_imp_div_less)
      with True h show False by simp
    qed
    then have "h + 1 \<le> 31" using 1(2) by simp
    note IH = 1(1) [OF True this]
    have "tree_height_from n h = tree_height_from n (h + 1)" using True by (simp add: tree_height_from.simps [of n h])
    then show ?thesis using IH True by (metis Suc_eq_plus1 Suc_leD Suc_leI le_neq_implies_less)
  next
    case False
    then show ?thesis using 1(2) by (simp add: tree_height_from.simps [of n h])
  qed
qed

lemma calc_tree_height_props:
  "calc_tree_height n \<le> 31" "calc_tree_width n (calc_tree_height n) \<le> 1"
  "k < calc_tree_height n \<Longrightarrow> 1 < calc_tree_width n k"
  using tree_height_from_props [of 0 n] unfolding calc_tree_height_def by simp_all

lemma calc_tree_width_top:
  assumes "unat n \<le> 2 ^ 31" and "0 < unat n"
  shows "calc_tree_width n (calc_tree_height n) = 1"
  using calc_tree_height_props(2) [of n] less_width_iff [OF assms(1) calc_tree_height_props(1), of 0 n] assms(2)
  by (simp add: le_less_Suc_eq)

section \<open>Nodes by position and by level\<close>

definition level :: "u32 \<Rightarrow> nat \<Rightarrow> bytes list \<Rightarrow> bytes list" where
  "level n h txids = map (\<lambda>i. calc_hash n h i txids) [0..<calc_tree_width n h]"

lemma pair_hashes_level:
  assumes "unat n \<le> 2 ^ 31" and "Suc h \<le> 31"
  shows "pair_hashes parent_hash (level n h txids) = level n (Suc h) txids"
proof (rule nth_equalityI)
  show "length (pair_hashes parent_hash (level n h txids)) = length (level n (Suc h) txids)"
    using calc_tree_width_Suc [OF assms] by (simp add: level_def)
next
  fix i assume i: "i < length (pair_hashes parent_hash (level n h txids))"
  let ?w = "calc_tree_width n h"
  have iw: "i < calc_tree_width n (Suc h)" "2 * i < ?w"
    using i calc_tree_width_Suc [OF assms] by (simp_all add: level_def) 
  have "pair_hashes parent_hash (level n h txids) ! i =
      parent_hash (level n h txids ! (2 * i)) (level n h txids ! min (2 * i + 1) (?w - 1))"
    using pair_hashes_nth [of i "level n h txids" parent_hash] i by (simp only: length_pair_hashes) (simp add: level_def)
  also have "\<dots> = calc_hash n (Suc h) i txids"
  proof (cases "2 * i + 1 < ?w")
    case True
    then show ?thesis by (simp add: level_def Let_def mult.commute)
  next
    case False
    then have "min (2 * i + 1) (?w - 1) = 2 * i" using iw(2) by simp
    then show ?thesis using False iw(2) by (simp add: level_def Let_def mult.commute)
  qed
  finally show "pair_hashes parent_hash (level n h txids) ! i = level n (Suc h) txids ! i"
    using iw(1) by (simp add: level_def del: calc_hash.simps)
qed

lemma root_by_position:
  assumes "unat n = length txids" and "unat n \<le> 2 ^ 31" and "txids \<noteq> []"
  shows "merkle_root_r parent_hash txids = Some (calc_hash n (calc_tree_height n) 0 txids)"
proof -
  have "h \<le> calc_tree_height n \<Longrightarrow> merkle_root_r parent_hash txids = merkle_root_r parent_hash (level n h txids)" for h
  proof (induction h)
    case 0
    have "level n 0 txids = txids" using assms(1) by (simp add: level_def calc_tree_width_0 map_nth)
    then show ?case by simp
  next
    case (Suc h)
    have "length (level n h txids) \<noteq> 1" using calc_tree_height_props(3) [of h n] Suc.prems by (simp add: level_def)
    moreover have "Suc h \<le> 31" using Suc.prems calc_tree_height_props(1) [of n] by simp
    ultimately show ?case
      using Suc merkle_root_r_rec [of parent_hash "level n h txids"] pair_hashes_level [OF assms(2), of h txids]
      by simp
  qed
  from this [OF order_refl] show ?thesis
    using calc_tree_width_top [of n] assms by (simp add: level_def)
qed

section \<open>What a proof contains\<close>

text \<open>The transactions below a node, and the matched ones among them.\<close>

definition below :: "u32 \<Rightarrow> nat \<Rightarrow> nat \<Rightarrow> nat list" where
  "below n h idx = [idx * 2 ^ h ..< min ((idx + 1) * 2 ^ h) (unat n)]"

abbreviation matched :: "u32 \<Rightarrow> bool list \<Rightarrow> nat \<Rightarrow> nat \<Rightarrow> nat list" where
  "matched n matches h idx \<equiv> filter (\<lambda>p. matches ! p) (below n h idx)"

fun tree_bits :: "u32 \<Rightarrow> bool list \<Rightarrow> nat \<Rightarrow> nat \<Rightarrow> bool list" where
  "tree_bits n matches 0 idx = [matched n matches 0 idx \<noteq> []]"
| "tree_bits n matches (Suc h) idx =
     (if matched n matches (Suc h) idx = [] then [False]
      else True # tree_bits n matches h (idx * 2) @
        (if idx * 2 + 1 < calc_tree_width n h then tree_bits n matches h (idx * 2 + 1) else []))"

fun tree_hashes :: "u32 \<Rightarrow> bytes list \<Rightarrow> bool list \<Rightarrow> nat \<Rightarrow> nat \<Rightarrow> bytes list" where
  "tree_hashes n txids matches 0 idx = [calc_hash n 0 idx txids]"
| "tree_hashes n txids matches (Suc h) idx =
     (if matched n matches (Suc h) idx = [] then [calc_hash n (Suc h) idx txids]
      else tree_hashes n txids matches h (idx * 2) @
        (if idx * 2 + 1 < calc_tree_width n h then tree_hashes n txids matches h (idx * 2 + 1) else []))"

text \<open>The nodes of the tree, where nothing wraps.\<close>

definition node :: "u32 \<Rightarrow> nat \<Rightarrow> nat \<Rightarrow> bool" where
  "node n h idx \<longleftrightarrow> unat n \<le> 2 ^ 31 \<and> h \<le> 31 \<and> idx * 2 ^ h < unat n"

lemma node_left: "node n (Suc h) idx \<Longrightarrow> node n h (idx * 2)"
  by (simp add: node_def mult.assoc)

lemma node_right: "\<lbrakk>node n (Suc h) idx; idx * 2 + 1 < calc_tree_width n h\<rbrakk> \<Longrightarrow> node n h (idx * 2 + 1)"
  by (simp add: node_def less_width_iff)

lemma node_root: "\<lbrakk>unat n \<le> 2 ^ 31; 0 < unat n\<rbrakk> \<Longrightarrow> node n (calc_tree_height n) 0"
  by (simp add: node_def calc_tree_height_props)

lemma upt_split: "\<lbrakk>a \<le> b; b \<le> c\<rbrakk> \<Longrightarrow> [a..<c] = [a..<b] @ [b..<c]"
  by (metis le_add_diff_inverse upt_add_eq_append)

lemma below_Suc:
  assumes "node n (Suc h) idx"
  shows "below n (Suc h) idx = below n h (idx * 2) @
    (if idx * 2 + 1 < calc_tree_width n h then below n h (idx * 2 + 1) else [])"
proof -
  let ?a = "idx * 2 * 2 ^ h" and ?d = "2 ^ h :: nat"
  have a: "below n (Suc h) idx = [?a ..< min (?a + ?d + ?d) (unat n)]"
    "below n h (idx * 2) = [?a ..< min (?a + ?d) (unat n)]"
    "below n h (idx * 2 + 1) = [?a + ?d ..< min (?a + ?d + ?d) (unat n)]"
    by (simp_all add: below_def algebra_simps)
  have c: "idx * 2 + 1 < calc_tree_width n h \<longleftrightarrow> ?a + ?d < unat n"
    using assms by (simp add: less_width_iff node_def algebra_simps)
  show ?thesis
  proof (cases "?a + ?d < unat n")
    case True
    then show ?thesis unfolding a c using upt_split [of ?a "?a + ?d" "min (?a + ?d + ?d) (unat n)"] by simp
  next
    case False
    then show ?thesis unfolding a c by simp
  qed
qed

lemma fold_or: "fold (\<lambda>p m. m \<or> f p) xs b \<longleftrightarrow> b \<or> (\<exists>p\<in>set xs. f p)"
  by (induction xs arbitrary: b) auto

lemma parent_of_match_iff:
  assumes "node n h idx"
  shows "parent_of_match n h idx matches \<longleftrightarrow> matched n matches h idx \<noteq> []"
proof -
  have "(2 :: nat) ^ h \<le> 2 ^ 31" using assms by (intro power_increasing) (simp_all add: node_def)
  then have "(idx + 1) * 2 ^ h < 2 ^ 32" using assms by (simp add: node_def)
  then show ?thesis by (simp add: parent_of_match_def fold_or below_def filter_empty_conv)
qed

lemma traverse_and_build_eq:
  assumes "node (num_transactions t) h idx"
  shows "traverse_and_build h idx txids matches t =
    t\<lparr>pmt_bits := pmt_bits t @ tree_bits (num_transactions t) matches h idx,
      pmt_hashes := pmt_hashes t @ tree_hashes (num_transactions t) txids matches h idx\<rparr>"
  using assms
proof (induction h arbitrary: idx t)
  case 0
  then show ?case by (simp add: parent_of_match_iff Let_def)
next
  case (Suc h)
  note nl = node_left [OF Suc.prems] and nr = node_right [OF Suc.prems]
  show ?case
    using Suc.prems Suc.IH nl nr by (simp add: parent_of_match_iff Let_def del: calc_hash.simps)
qed

lemma below_0: "node n 0 idx \<Longrightarrow> below n 0 idx = [idx]"
  by (simp add: node_def below_def)

lemma length_below:
  assumes "node n (Suc h) idx"
  shows "length (below n (Suc h) idx) = length (below n h (idx * 2)) +
    (if idx * 2 + 1 < calc_tree_width n h then length (below n h (idx * 2 + 1)) else 0)"
  by (simp add: below_Suc [OF assms])

lemma below_pos: "node n h idx \<Longrightarrow> Suc 0 \<le> length (below n h idx)"
  by (auto simp: node_def below_def min_def)

lemma join_bound:
  fixes a b x y h :: nat
  shows "\<lbrakk>a \<le> 1 + x * h; b \<le> 1 + y * h; 1 \<le> x + y\<rbrakk> \<Longrightarrow> a + b \<le> 1 + (x + y) * Suc h"
  by (simp add: algebra_simps)

lemma tree_hashes_bounds:
  assumes "node n h idx"
  shows "0 < length (tree_hashes n txids matches h idx) \<and>
    length (tree_hashes n txids matches h idx) \<le> length (below n h idx) \<and>
    length (tree_hashes n txids matches h idx) \<le> length (tree_bits n matches h idx)"
  using assms
proof (induction h arbitrary: idx)
  case 0
  then show ?case by (simp add: below_0)
next
  case (Suc h)
  note l = Suc.IH [OF node_left [OF Suc.prems]] and r = Suc.IH [OF node_right [OF Suc.prems]]
  show ?case
  proof (cases "matched n matches (Suc h) idx = []")
    case True
    then show ?thesis using below_pos [OF Suc.prems] by simp
  next
    case False
    then show ?thesis using l r length_below [OF Suc.prems] by (cases "idx * 2 + 1 < calc_tree_width n h") auto
  qed
qed

lemma tree_hashes_matched:
  assumes "node n h idx"
  shows "length (tree_hashes n txids matches h idx) \<le> 1 + length (matched n matches h idx) * h"
  using assms
proof (induction h arbitrary: idx)
  case (Suc h)
  note l = Suc.IH [OF node_left [OF Suc.prems]] and r = Suc.IH [OF node_right [OF Suc.prems]]
  show ?case
  proof (cases "matched n matches (Suc h) idx = []")
    case False
    then have one: "1 \<le> length (matched n matches (Suc h) idx)" by (simp add: Suc_leI)
    show ?thesis
    proof (cases "idx * 2 + 1 < calc_tree_width n h")
      case True
      then show ?thesis using join_bound [OF l r] one False by (simp add: below_Suc [OF Suc.prems])
    next
      case r: False
      then show ?thesis using l False by (simp add: below_Suc [OF Suc.prems])
    qed
  qed simp
qed simp

text \<open>A node with one child costs a bit and no hash; there is at most one at each height.\<close>

lemma tree_bits_full:
  assumes "node n h idx" and "(idx + 1) * 2 ^ h \<le> unat n"
  shows "length (tree_bits n matches h idx) + 1 = 2 * length (tree_hashes n txids matches h idx)"
  using assms
proof (induction h arbitrary: idx)
  case (Suc h)
  have "(idx * 2 + 1 + 1) * 2 ^ h \<le> unat n" using Suc.prems(2) by (simp add: algebra_simps)
  moreover from this have "(idx * 2 + 1) * 2 ^ h < unat n"
    by (rule less_le_trans [rotated]) simp
  moreover from this have "idx * 2 + 1 < calc_tree_width n h" using Suc.prems(1) by (simp add: less_width_iff node_def)
  ultimately show ?case
    using Suc.IH [OF node_left [OF Suc.prems(1)]] Suc.IH [OF node_right [OF Suc.prems(1)]] by simp
qed simp

lemma tree_bits_bound:
  assumes "node n h idx"
  shows "length (tree_bits n matches h idx) + 1 \<le> 2 * length (tree_hashes n txids matches h idx) + h"
  using assms
proof (induction h arbitrary: idx)
  case (Suc h)
  note l = Suc.IH [OF node_left [OF Suc.prems]] and r = Suc.IH [OF node_right [OF Suc.prems]]
  show ?case
  proof (cases "idx * 2 + 1 < calc_tree_width n h")
    case True
    then have "(idx * 2 + 1) * 2 ^ h \<le> unat n" using Suc.prems by (simp add: less_width_iff node_def)
    then show ?thesis using tree_bits_full [OF node_left [OF Suc.prems]] r [OF True] True by auto
  next
    case False
    then show ?thesis using l by auto
  qed
qed simp

section \<open>Extraction\<close>

definition siblings_differ :: "u32 \<Rightarrow> bytes list \<Rightarrow> bool" where
  "siblings_differ n txids \<longleftrightarrow> (\<forall>h idx. idx * 2 + 1 < calc_tree_width n h \<longrightarrow>
     calc_hash n h (idx * 2) txids \<noteq> calc_hash n h (idx * 2 + 1) txids)"

lemma extract_built:
  assumes "node n h idx" and "num_transactions t = n" and "siblings_differ n txids"
    and "pmt_bits t = bp @ tree_bits n matches h idx @ bq" and "bits_used s = length bp"
    and "pmt_hashes t = hp @ tree_hashes n txids matches h idx @ hq" and "hash_used s = length hp"
  shows "traverse_and_extract t h idx s = (Inr (calc_hash n h idx txids),
     \<lparr> bits_used = length bp + length (tree_bits n matches h idx),
       hash_used = length hp + length (tree_hashes n txids matches h idx),
       ex_matches = ex_matches s @ map ((!) txids) (matched n matches h idx),
       ex_indexes = ex_indexes s @ matched n matches h idx \<rparr>)"
  using assms(1,4-7)
proof (induction h arbitrary: idx s bp bq hp hq)
  case 0
  then show ?case
    by (subst traverse_and_extract.simps) (simp add: below_0 Let_def nth_append)
next
  case (Suc h)
  note nl = node_left [OF Suc.prems(1)] and nr = node_right [OF Suc.prems(1)]
  let ?bl = "tree_bits n matches h (idx * 2)" and ?hl = "tree_hashes n txids matches h (idx * 2)"
  show ?case
  proof (cases "matched n matches (Suc h) idx = []")
    case True
    then show ?thesis
      using Suc.prems(2-5) by (subst traverse_and_extract.simps) (simp add: Let_def nth_append del: calc_hash.simps)
  next
    case False
    let ?r = "idx * 2 + 1 < calc_tree_width n h"
    let ?s1 = "s\<lparr>bits_used := bits_used s + 1\<rparr>"
    define br where "br = (if ?r then tree_bits n matches h (idx * 2 + 1) else [])"
    define hr where "hr = (if ?r then tree_hashes n txids matches h (idx * 2 + 1) else [])"
    have b: "pmt_bits t = (bp @ [True]) @ ?bl @ br @ bq" and h: "pmt_hashes t = hp @ ?hl @ hr @ hq"
      using Suc.prems(2,4) False by (simp_all add: br_def hr_def)
    define s2 where "s2 = \<lparr> bits_used = length bp + 1 + length ?bl, hash_used = length hp + length ?hl,
       ex_matches = ex_matches s @ map ((!) txids) (matched n matches h (idx * 2)),
       ex_indexes = ex_indexes s @ matched n matches h (idx * 2) \<rparr>"
    have l: "traverse_and_extract t h (idx * 2) ?s1 = (Inr (calc_hash n h (idx * 2) txids), s2)"
      using Suc.IH [OF nl b _ h, of ?s1] Suc.prems(3,5) by (simp add: s2_def)
    have m: "length bp < length (pmt_bits t)" "pmt_bits t ! length bp" using b by (simp_all add: nth_append)
    note step = traverse_and_extract.simps [of t "Suc h" idx s]
    show ?thesis
    proof (cases ?r)
      case True
      have "traverse_and_extract t h (idx * 2 + 1) s2 = (Inr (calc_hash n h (idx * 2 + 1) txids),
         \<lparr> bits_used = length bp + length (tree_bits n matches (Suc h) idx),
           hash_used = length hp + length (tree_hashes n txids matches (Suc h) idx),
           ex_matches = ex_matches s @ map ((!) txids) (matched n matches (Suc h) idx),
           ex_indexes = ex_indexes s @ matched n matches (Suc h) idx \<rparr>)"
        using Suc.IH [OF nr [OF True], of "bp @ [True] @ ?bl" bq s2 "hp @ ?hl" hq] b h True False
        by (auto simp: s2_def br_def hr_def below_Suc [OF Suc.prems(1)])
      then show ?thesis
        using step l m True False assms(2,3) Suc.prems(3)
        by (simp add: siblings_differ_def Let_def) (metis)
    next
      case False2: False
      then show ?thesis
        using step l m False assms(2) Suc.prems(3) by (simp add: s2_def Let_def below_Suc [OF Suc.prems(1)])
    qed
  qed
qed

lemma subseq_sorted_wrt: "\<lbrakk>subseq xs ys; sorted_wrt R ys\<rbrakk> \<Longrightarrow> sorted_wrt R xs"
  by (induction rule: list_emb.induct) (auto dest: list_emb_set)

text \<open>The two nodes that are hashed into a node.\<close>

definition children :: "u32 \<Rightarrow> nat \<Rightarrow> nat \<Rightarrow> bytes list \<Rightarrow> bytes \<times> bytes" where
  "children n h idx txids = (calc_hash n h (idx * 2) txids,
     if idx * 2 + 1 < calc_tree_width n h then calc_hash n h (idx * 2 + 1) txids else calc_hash n h (idx * 2) txids)"

lemma calc_hash_children: "calc_hash n (Suc h) idx txids = case_prod parent_hash (children n h idx txids)"
  by (simp add: children_def Let_def)

text \<open>Two nodes of the tree with different children and the same hash.\<close>

definition tree_collision :: "u32 \<Rightarrow> bytes list \<Rightarrow> bool" where
  "tree_collision n txids \<longleftrightarrow> (\<exists>h i j. node n (Suc h) i \<and> node n (Suc h) j \<and>
     children n h i txids \<noteq> children n h j txids \<and>
     case_prod parent_hash (children n h i txids) = case_prod parent_hash (children n h j txids))"

lemma calc_hash_first_leaf:
  "\<lbrakk>calc_hash n h i txids = calc_hash n h j txids; node n h i; node n h j; \<not> tree_collision n txids\<rbrakk>
    \<Longrightarrow> txids ! (i * 2 ^ h) = txids ! (j * 2 ^ h)"
proof (induction h arbitrary: i j)
  case (Suc h)
  then have "children n h i txids = children n h j txids"
    unfolding tree_collision_def calc_hash_children by blast
  then have "calc_hash n h (i * 2) txids = calc_hash n h (j * 2) txids" by (simp add: children_def)
  then show ?case using Suc.IH [of "i * 2" "j * 2"] Suc.prems by (simp add: node_left mult.assoc)
qed simp

lemma width_zero: "32 \<le> h \<Longrightarrow> calc_tree_width n h = 0"
proof -
  assume "32 \<le> h"
  then have "(2 :: nat) ^ 32 \<le> 2 ^ h" by (intro power_increasing) simp_all
  then have "(unat n + 2 ^ h - 1) mod 2 ^ 32 < (2 :: nat) ^ h"
    by (meson less_le_trans mod_less_divisor zero_less_numeral zero_less_power)
  then show ?thesis by (simp add: calc_tree_width_def)
qed

lemma distinct_siblings_differ:
  assumes "unat n = length txids" and "unat n \<le> 2 ^ 31" and "distinct txids" and "\<not> tree_collision n txids"
  shows "siblings_differ n txids"
  unfolding siblings_differ_def
proof (intro allI impI notI)
  fix h i
  assume i: "i * 2 + 1 < calc_tree_width n h"
    and eq: "calc_hash n h (i * 2) txids = calc_hash n h (i * 2 + 1) txids"
  have h: "h \<le> 31" using i width_zero [of h n] by (cases "32 \<le> h") simp_all
  have r: "(i * 2 + 1) * 2 ^ h < length txids" using i assms(1) less_width_iff [OF assms(2) h] by simp
  moreover from this have l: "i * 2 * 2 ^ h < length txids" by (rule le_less_trans [rotated]) simp
  ultimately have "i * 2 * 2 ^ h = (i * 2 + 1) * 2 ^ h"
    using calc_hash_first_leaf [OF eq _ _ assms(4)] assms(1-3) h nth_eq_iff_index_eq [OF assms(3) l r]
    by (simp add: node_def)
  then show False by simp
qed

text \<open>
  A forged node: the extraction has computed, for a node of the tree, two subtree hashes other than its
  children, with the same parent.
\<close>

definition forged_node :: "partial_merkle_tree \<Rightarrow> bytes list \<Rightarrow> bool" where
  "forged_node t txids \<longleftrightarrow> (\<exists>h idx left right s s1 s2. let n = num_transactions t in
     node n (Suc h) idx \<and> traverse_and_extract t h (idx * 2) s = (Inr left, s1) \<and>
     (if idx * 2 + 1 < calc_tree_width n h then traverse_and_extract t h (idx * 2 + 1) s1 = (Inr right, s2) else right = left) \<and>
     (left, right) \<noteq> children n h idx txids \<and> parent_hash left right = case_prod parent_hash (children n h idx txids))"

lemma extract_sound:
  assumes "num_transactions t = n" and "\<not> forged_node t txids"
    and "traverse_and_extract t h idx s = (Inr hash, s')" and "node n h idx" and "hash = calc_hash n h idx txids"
  shows "\<exists>is. subseq is (below n h idx) \<and> ex_indexes s' = ex_indexes s @ is \<and>
    ex_matches s' = ex_matches s @ map ((!) txids) is"
  using assms(3-5)
proof (induction h arbitrary: idx s s' hash)
  case 0
  then show ?case
    by (subst (asm) traverse_and_extract.simps)
      (auto simp: below_0 Let_def split: if_splits intro: exI [of _ "[idx]"] exI [of _ "[]"])
next
  case (Suc h)
  let ?s1 = "s\<lparr>bits_used := bits_used s + 1\<rparr>"
  note nl = node_left [OF Suc.prems(2)] and nr = node_right [OF Suc.prems(2)]
  note step = Suc.prems(1) [unfolded traverse_and_extract.simps [of t "Suc h"]]
  show ?case
  proof (cases "pmt_bits t ! bits_used s")
    case False
    then show ?thesis using step by (auto simp: Let_def split: if_splits intro: exI [of _ "[]"])
  next
    case True
    then obtain left s2 where l: "traverse_and_extract t h (idx * 2) ?s1 = (Inr left, s2)"
      using step by (auto simp: Let_def split: if_splits sum.splits prod.splits)
    show ?thesis
    proof (cases "idx * 2 + 1 < calc_tree_width n h")
      case r: True
      obtain right where rt: "traverse_and_extract t h (idx * 2 + 1) s2 = (Inr right, s')" "hash = parent_hash left right"
        using step True l r assms(1) by (auto simp: Let_def split: if_splits sum.splits prod.splits)
      have "(left, right) = children n h idx txids"
        using assms(2) l rt r Suc.prems(2,3) assms(1)
        unfolding forged_node_def Let_def calc_hash_children by (metis (no_types, lifting))
      then obtain ls rs where "subseq ls (below n h (idx * 2))" "subseq rs (below n h (idx * 2 + 1))"
        "ex_indexes s' = ex_indexes s @ ls @ rs" "ex_matches s' = ex_matches s @ map ((!) txids) (ls @ rs)"
        using Suc.IH [OF l nl] Suc.IH [OF rt(1) nr [OF r]] r by (auto simp: children_def)
      then show ?thesis using r by (auto simp: below_Suc [OF Suc.prems(2)] intro!: exI [of _ "ls @ rs"] list_emb_append_mono)
    next
      case r: False
      have e: "s' = s2" "hash = parent_hash left left"
        using step True l r assms(1) by (auto simp: Let_def split: if_splits)
      have "(left, left) = children n h idx txids"
        using assms(2) l e r Suc.prems(2,3) assms(1)
        unfolding forged_node_def Let_def calc_hash_children by (metis (no_types, lifting))
      then show ?thesis using Suc.IH [OF l nl] e r by (auto simp: below_Suc [OF Suc.prems(2)] children_def)
    qed
  qed
qed

text \<open>The whole extraction of a proof that was built, padded or not.\<close>

lemma transactions_limit: "MAX_BLOCK div MIN_TRANSACTION < (ucast (n :: u32) :: u64) \<longleftrightarrow> 16666 < unat n"
proof -
  have "MAX_BLOCK div MIN_TRANSACTION = 16666"
    by (simp add: MAX_BLOCK_def MIN_TRANSACTION_def word_eq_iff_unsigned unat_div)
  moreover have "unat (ucast n :: u64) = unat n" using unat_less_exp [of n] by (simp add: unat_ucast)
  ultimately show ?thesis by (simp add: word_less_nat_alt)
qed

abbreviation built_tree :: "u32 \<Rightarrow> bytes list \<Rightarrow> bool list \<Rightarrow> nat \<Rightarrow> partial_merkle_tree" where
  "built_tree n txids matches k \<equiv> \<lparr> num_transactions = n,
     pmt_bits = tree_bits n matches (calc_tree_height n) 0 @ replicate k False,
     pmt_hashes = tree_hashes n txids matches (calc_tree_height n) 0 \<rparr>"

lemma below_root:
  assumes "unat n \<le> 2 ^ 31" and "0 < unat n"
  shows "below n (calc_tree_height n) 0 = [0..<unat n]"
proof -
  have "\<not> 1 < calc_tree_width n (calc_tree_height n)" using calc_tree_height_props(2) [of n] by simp
  then have "unat n \<le> 2 ^ calc_tree_height n"
    using less_width_iff [OF assms(1) calc_tree_height_props(1), of 1 n] by simp
  then show ?thesis by (simp add: below_def)
qed

lemma extract_matches_built:
  assumes "unat n = length txids" and "txids \<noteq> []" and "length txids \<le> 16666" and "siblings_differ n txids"
    and "k < 8" and "(length (tree_bits n matches (calc_tree_height n) 0) + k + 7) div 8
       = (length (tree_bits n matches (calc_tree_height n) 0) + 7) div 8"
  shows "extract_matches (built_tree n txids matches k) =
    (Inr (calc_hash n (calc_tree_height n) 0 txids),
     map ((!) txids) (filter (\<lambda>p. matches ! p) [0..<length txids]), filter (\<lambda>p. matches ! p) [0..<length txids])"
proof -
  let ?h = "calc_tree_height n" and ?t = "built_tree n txids matches k"
  let ?b = "tree_bits n matches ?h 0" and ?hs = "tree_hashes n txids matches ?h 0"
  let ?s = "\<lparr> bits_used = 0, hash_used = 0, ex_matches = [], ex_indexes = [] \<rparr>"
  have n: "unat n \<le> 2 ^ 31" "0 < unat n" "unat n \<le> 16666" using assms(1-3) by simp_all
  note root = node_root [OF n(1,2)]
  have hb: "length ?hs \<le> unat n" "length ?hs \<le> length ?b"
    using tree_hashes_bounds [OF root] below_root [OF n(1,2)] by simp_all
  have "length ?b \<le> 2 * 16666 + 31"
    using tree_bits_bound [OF root, of matches txids] hb(1) n(3) calc_tree_height_props(1) [of n] by linarith
  then have u: "unat (of_nat (length ?b + k) + 7 :: u32) = length ?b + k + 7"
    using assms(5) by (simp add: unat_of_nat unat_word_ariths flip: of_nat_add)
  have hl: "unat (of_nat (length ?hs) :: u32) = length ?hs" using hb(1) n(3) by (simp add: unat_of_nat)
  have ex: "traverse_and_extract ?t ?h 0 ?s = (Inr (calc_hash n ?h 0 txids),
     \<lparr> bits_used = length ?b, hash_used = length ?hs,
       ex_matches = map ((!) txids) (filter (\<lambda>p. matches ! p) [0..<unat n]),
       ex_indexes = filter (\<lambda>p. matches ! p) [0..<unat n] \<rparr>)"
    using extract_built [OF root _ assms(4), of ?t "[]" matches "replicate k False" ?s "[]" "[]"]
    by (simp add: below_root [OF n(1,2)])
  have c: "n \<noteq> 0" "\<not> n < of_nat (length ?hs)" using n(2) hb(1) hl by (auto simp: word_less_nat_alt)
  show ?thesis
    using ex c u hl hb(2) n(3) assms(1,6) by (simp add: extract_matches_def transactions_limit)
qed

lemma from_txids_built:
  assumes "txids \<noteq> []" and "length matches = length txids" and "length txids \<le> 2 ^ 31"
  shows "from_txids txids matches = Some (built_tree (of_nat (length txids)) txids matches 0)"
proof -
  have n: "unat (of_nat (length txids) :: u32) = length txids" using assms(3) by (simp add: unat_of_nat)
  then show ?thesis
    using assms node_root [of "of_nat (length txids)"] by (simp add: from_txids_def Let_def traverse_and_build_eq)
qed

section \<open>Serialisation of proofs\<close>

lemma bit_fold_pack:
  "bit (fold (\<lambda>(i, b) byte. byte OR push_bit i (if b then 1 else 0)) (zip [m..<m + length xs] xs) (w :: u8)) j \<longleftrightarrow>
    bit w j \<or> m \<le> j \<and> j < m + length xs \<and> j < 8 \<and> xs ! (j - m)"
proof (induction xs arbitrary: m w)
  case (Cons x xs)
  have z: "zip [m..<m + length (x # xs)] (x # xs) = (m, x) # zip [Suc m..<Suc m + length xs] xs"
    by (simp add: upt_rec)
  have "bit (w OR push_bit m (if x then 1 else 0)) j \<longleftrightarrow> bit w j \<or> (j = m \<and> j < 8 \<and> x)"
    by (auto simp: bit_or_iff bit_push_bit_iff bit_1_iff)
  moreover have "m < j \<Longrightarrow> (x # xs) ! (j - m) = xs ! (j - Suc m)" by (simp add: nth_Cons')
  ultimately show ?case
    unfolding z fold_simps prod.case Cons.IH by (cases j m rule: linorder_cases) simp_all
qed auto

lemma bit_pack_byte: "bit (pack_byte chunk) j \<longleftrightarrow> j < length chunk \<and> j < 8 \<and> chunk ! j"
  using bit_fold_pack [of 0 chunk 0 j] by (simp add: pack_byte_def)

lemma unpack_byte_bits: "unpack_byte byte = map (bit byte) [0..<8]"
  by (simp add: unpack_byte_def push_bit_of_1 and_exp_eq_0_iff_not_bit)

lemma unpack_pack: "length chunk \<le> 8 \<Longrightarrow> unpack_byte (pack_byte chunk) = chunk @ replicate (8 - length chunk) False"
  by (rule nth_equalityI) (auto simp: unpack_byte_bits bit_pack_byte nth_append)

lemma pack_unpack: "pack_byte (unpack_byte byte) = byte"
  by (rule bit_eqI) (auto simp: bit_pack_byte unpack_byte_bits dest: bit_imp_le_length)

lemma length_unpack_byte [simp]: "length (unpack_byte byte) = 8"
  by (simp add: unpack_byte_def)

lemma chunks8_unpack: "chunks8 (concat (map unpack_byte bs)) = map unpack_byte bs"
proof (induction bs)
  case (Cons b bs)
  obtain x xs where "unpack_byte b = x # xs" using length_unpack_byte [of b] by (cases "unpack_byte b") auto
  then show ?case using Cons length_unpack_byte [of b] by simp
qed simp

definition padding8 :: "nat \<Rightarrow> nat" where
  "padding8 len = (if len mod 8 = 0 then 0 else 8 - len mod 8)"

lemma chunks8_padded:
  "concat (map (\<lambda>chunk. unpack_byte (pack_byte chunk)) (chunks8 bits)) = bits @ replicate (padding8 (length bits)) False"
proof (induction bits rule: chunks8.induct)
  case (2 x xs)
  let ?bs = "x # xs"
  have c: "chunks8 ?bs = take 8 ?bs # chunks8 (drop 8 ?bs)" by simp
  show ?case
  proof (cases "length ?bs < 8")
    case True
    then show ?thesis unfolding c by (simp add: unpack_pack padding8_def)
  next
    case False
    then have "padding8 (length (drop 8 ?bs)) = padding8 (length ?bs)" by (simp add: padding8_def le_mod_geq)
    moreover have "length (take 8 ?bs) = 8" using False by simp
    ultimately show ?thesis
      unfolding c using 2 unpack_pack [of "take 8 ?bs"] append_take_drop_id [of 8 ?bs]
      by (simp del: take_Suc_Cons drop_Suc_Cons append_take_drop_id add: append_assoc [symmetric])
  qed
qed (simp add: padding8_def)

lemma length_chunks8: "length (chunks8 xs) = (length xs + 7) div 8"
proof (induction xs rule: chunks8.induct)
  case (2 x xs)
  have "(length (drop 8 (x # xs)) + 7) div 8 + 1 = (length (x # xs) + 7) div 8"
    by (cases "8 \<le> length (x # xs)") auto
  then show ?case using 2 by simp
qed simp

lemma padding8_less: "padding8 len < 8"
  by (simp add: padding8_def)

lemma padding8_sum: "len + padding8 len = 8 * ((len + 7) div 8)"
proof -
  obtain q r where "len = 8 * q + r" "r < 8" by (metis mult_div_mod_eq mod_less_divisor zero_less_numeral)
  moreover have "0 < r \<Longrightarrow> r < 8 \<Longrightarrow> (8 * q + r + 7) div 8 = q + 1" by (rule div_nat_eqI) simp_all
  ultimately show ?thesis by (cases "r = 0") (simp_all add: padding8_def)
qed

lemma padding8_div: "(len + padding8 len + 7) div 8 = (len + 7) div 8"
  by (simp add: padding8_sum)

definition pmt_wf :: "partial_merkle_tree \<Rightarrow> bool" where
  "pmt_wf t \<longleftrightarrow> list_all (\<lambda>hash. length hash = 32) (pmt_hashes t) \<and>
     length (vec_ser (\<lambda>hash. hash) (pmt_hashes t)) \<le> MAX_VEC_SIZE \<and> (length (pmt_bits t) + 7) div 8 \<le> MAX_VEC_SIZE"

definition pmt_ser :: "partial_merkle_tree \<Rightarrow> bytes" where
  "pmt_ser t = to_le_bytes (num_transactions t) @ vec_ser (\<lambda>hash. hash) (pmt_hashes t) @
     varint_ser (of_nat ((length (pmt_bits t) + 7) div 8)) @ map pack_byte (chunks8 (pmt_bits t))"

lemma nodes_canonical:
  "canonical_codec (vec_encode array_encode) (limited (vec_decode (array_decode 32)))
    (\<lambda>hs. vec_wf (\<lambda>hash. length hash = 32) hs \<and> length (vec_ser (\<lambda>hash. hash) hs) \<le> MAX_VEC_SIZE) (vec_ser (\<lambda>hash. hash))"
  unfolding limited_def
  by (rule canonical_codec.limited_canonical) (rule canonical_codec.vec_canonical [OF array_canonical])

interpretation nodes: canonical_codec "vec_encode array_encode" "limited (vec_decode (array_decode 32))"
  "\<lambda>hs. vec_wf (\<lambda>hash. length hash = 32) hs \<and> length (vec_ser (\<lambda>hash. hash) hs) \<le> MAX_VEC_SIZE" "vec_ser (\<lambda>hash. hash)"
  by (rule nodes_canonical)

lemma pmt_wf_vec: "pmt_wf t \<Longrightarrow> vec_wf (\<lambda>hash. length hash = 32) (pmt_hashes t)"
proof -
  assume wf: "pmt_wf t"
  have "length xs \<le> length (concat xs)" if "list_all (\<lambda>hash. length hash = 32) xs" for xs :: "bytes list"
    using that by (induction xs) auto
  then have "length (pmt_hashes t) \<le> MAX_VEC_SIZE"
    using wf unfolding pmt_wf_def vec_ser_def by (fastforce dest: order_trans)
  then show ?thesis using wf by (simp add: vec_wf_def pmt_wf_def MAX_VEC_SIZE_def)
qed

lemma pmt_encode_ser: "pmt_wf t \<Longrightarrow> pmt_encode t = wrote (pmt_ser t)"
  using enc_list_wrote [of "chunks8 (pmt_bits t)" "\<lambda>chunk. emit_u8 (pack_byte chunk)" "\<lambda>chunk. [pack_byte chunk]"]
    nodes.enc_ser [of "pmt_hashes t"] pmt_wf_vec [of t]
  by (simp add: pmt_encode_def pmt_ser_def varint_encode_wrote pmt_wf_def)

text \<open>What the receiver gets: the same proof with its flags filled up to whole bytes.\<close>

definition pad_bits :: "partial_merkle_tree \<Rightarrow> partial_merkle_tree" where
  "pad_bits t = t\<lparr>pmt_bits := pmt_bits t @ replicate (padding8 (length (pmt_bits t))) False\<rparr>"

lemma drepeat_read_u8: "drepeat (length bs) read_u8 (bs @ r) = Inr (bs, r)"
  using u8_codec.drepeat_ser [of bs r] by (simp add: list_all_iff)

lemma pmt_decode_ser:
  assumes "pmt_wf t"
  shows "pmt_decode (pmt_ser t @ r) = Inr (pad_bits t, r)"
proof -
  let ?nb = "(length (pmt_bits t) + 7) div 8" and ?bs = "map pack_byte (chunks8 (pmt_bits t))"
  have nb: "?nb \<le> MAX_VEC_SIZE" "unat (of_nat ?nb :: u64) = ?nb"
    using assms by (simp_all add: pmt_wf_def MAX_VEC_SIZE_def unat_of_nat_u64)
  have rep: "drepeat ?nb read_u8 (?bs @ r) = Inr (?bs, r)"
    using drepeat_read_u8 [of ?bs r] by (simp add: length_chunks8)
  have un: "concat (map unpack_byte ?bs) = pmt_bits (pad_bits t)"
    by (simp add: pad_bits_def chunks8_padded comp_def)
  show ?thesis
    using assms pmt_wf_vec [OF assms] nb rep un
    by (simp add: pmt_decode_def pmt_ser_def dbind_Inr u32_codec.dec_ser nodes.dec_ser varint.dec_ser pmt_wf_def pad_bits_def)
qed

lemma pmt_decode_canonical:
  assumes "pmt_decode r = Inr (t, r')"
  shows "pmt_wf t \<and> 8 dvd length (pmt_bits t) \<and> r = pmt_ser t @ r'"
proof -
  obtain n hs nb bs q where d: "r = to_le_bytes n @ vec_ser (\<lambda>hash. hash) hs @ varint_ser nb @ q"
    "vec_wf (\<lambda>hash. length hash = 32) hs" "length (vec_ser (\<lambda>hash. hash) hs) \<le> MAX_VEC_SIZE" "unat nb \<le> MAX_VEC_SIZE"
    "drepeat (unat nb) read_u8 q = Inr (bs, r')"
    "t = \<lparr> num_transactions = n, pmt_bits = concat (map unpack_byte bs), pmt_hashes = hs \<rparr>"
    using assms unfolding pmt_decode_def
    by (auto simp: dbind_Inr_iff base_dec_iff nodes.dec_iff split: if_splits)
  have "length bs = unat nb" "q = bs @ r'"
    using u8_codec.drepeat_canonical [OF d(5)] by simp_all
  moreover have l: "length (concat (map unpack_byte bs)) = 8 * length bs" by (induction bs) simp_all
  ultimately show ?thesis
    using d by (simp add: pmt_wf_def pmt_ser_def vec_wf_def chunks8_unpack pack_unpack comp_def)
qed

interpretation pmt: canonical_codec pmt_encode pmt_decode "\<lambda>t. pmt_wf t \<and> 8 dvd length (pmt_bits t)" pmt_ser
proof (unfold_locales)
  fix t r assume wf: "pmt_wf t \<and> 8 dvd length (pmt_bits t)"
  then show "pmt_encode t = wrote (pmt_ser t)" by (simp add: pmt_encode_ser)
  have "pad_bits t = t" using wf by (simp add: pad_bits_def padding8_def dvd_eq_mod_eq_0)
  then show "pmt_decode (pmt_ser t @ r) = Inr (t, r)" using wf pmt_decode_ser by metis
qed (simp add: pmt_decode_canonical)

section \<open>Sizes\<close>

lemma calc_hash_length:
  "\<lbrakk>list_all (\<lambda>txid. length txid = 32) txids; unat n = length txids; node n h idx\<rbrakk>
    \<Longrightarrow> length (calc_hash n h idx txids) = 32"
  by (cases h) (simp_all add: Let_def parent_hash_def length_sha256d_hash node_def list_all_length)

lemma tree_hashes_length:
  assumes "list_all (\<lambda>txid. length txid = 32) txids" and "unat n = length txids" and "node n h idx"
  shows "list_all (\<lambda>hash. length hash = 32) (tree_hashes n txids matches h idx)"
  using assms(3)
proof (induction h arbitrary: idx)
  case 0
  then show ?case using calc_hash_length [OF assms(1,2) 0] by simp
next
  case (Suc h)
  then show ?case
    using calc_hash_length [OF assms(1,2) Suc.prems] node_left [OF Suc.prems] node_right [OF Suc.prems]
    by (auto simp del: calc_hash.simps)
qed

lemma length_concat_nodes: "list_all (\<lambda>hash. length hash = 32) hs \<Longrightarrow> length (concat hs) = 32 * length hs"
  by (induction hs) auto

lemma built_tree_wf:
  assumes "list_all (\<lambda>txid. length txid = 32) txids" and "unat n = length txids" and "txids \<noteq> []"
    and "length txids \<le> 16666"
  shows "pmt_wf (built_tree n txids matches 0)"
proof -
  have n: "unat n \<le> 2 ^ 31" "0 < unat n" "unat n \<le> 16666" using assms(2-4) by simp_all
  note root = node_root [OF n(1,2)]
  let ?hs = "tree_hashes n txids matches (calc_tree_height n) 0" and ?b = "tree_bits n matches (calc_tree_height n) 0"
  have h: "list_all (\<lambda>hash. length hash = 32) ?hs" by (rule tree_hashes_length [OF assms(1,2) root])
  have l: "length ?hs \<le> 16666"
    using tree_hashes_bounds [OF root, of txids matches] below_root [OF n(1,2)] n(3) by simp
  moreover have "length ?b \<le> 2 * length ?hs + 31"
    using tree_bits_bound [OF root, of matches txids] calc_tree_height_props(1) [of n] by linarith
  ultimately have "(length ?b + 7) div 8 \<le> MAX_VEC_SIZE" by (simp add: MAX_VEC_SIZE_def)
  moreover have "length (vec_ser (\<lambda>hash. hash) ?hs) \<le> 9 + 32 * length ?hs"
    using length_concat_nodes [OF h] by (simp add: vec_ser_def length_varint_ser varint_size_def)
  ultimately show ?thesis using h l by (simp add: pmt_wf_def MAX_VEC_SIZE_def)
qed

lemma length_built_ser:
  assumes "pmt_wf (built_tree n txids matches 0)" and "length txids \<le> 16666" and "unat n = length txids" and "txids \<noteq> []"
  shows "length (pmt_ser (pad_bits (built_tree n txids matches 0))) \<le> MAX_VEC_SIZE"
proof -
  have n: "unat n \<le> 2 ^ 31" "0 < unat n" "unat n \<le> 16666" using assms(2-4) by simp_all
  note root = node_root [OF n(1,2)]
  let ?hs = "tree_hashes n txids matches (calc_tree_height n) 0" and ?b = "tree_bits n matches (calc_tree_height n) 0"
  let ?nb = "(length ?b + padding8 (length ?b) + 7) div 8"
  have h: "list_all (\<lambda>hash. length hash = 32) ?hs" using assms(1) by (simp add: pmt_wf_def)
  have l: "length ?hs \<le> 16666"
    using tree_hashes_bounds [OF root, of txids matches] below_root [OF n(1,2)] n(3) by simp
  have "length ?b \<le> 2 * length ?hs + 31"
    using tree_bits_bound [OF root, of matches txids] calc_tree_height_props(1) [of n] by linarith
  then have "?nb \<le> 40000" using l padding8_less [of "length ?b"] by simp
  moreover have "length (vec_ser (\<lambda>hash. hash) ?hs) \<le> 9 + 32 * length ?hs"
    using length_concat_nodes [OF h] by (simp add: vec_ser_def length_varint_ser varint_size_def)
  moreover have "varint_size (of_nat ?nb) \<le> 9" by (simp add: varint_size_def)
  ultimately show ?thesis
    using l by (simp add: pmt_ser_def pad_bits_def length_to_le_bytes length_varint_ser length_chunks8 MAX_VEC_SIZE_def)
qed

text \<open>A proof that was built, before and after its transfer.\<close>

lemma built_roundtrip:
  assumes "txids \<noteq> []" and "length txids \<le> 16666" and "length matches = length txids"
    and "list_all (\<lambda>txid. length txid = 32) txids" and "distinct txids"
    and "\<not> tree_collision (of_nat (length txids)) txids"
  defines "t \<equiv> built_tree (of_nat (length txids)) txids matches 0"
    and "root \<equiv> calc_hash (of_nat (length txids)) (calc_tree_height (of_nat (length txids))) 0 txids"
    and "sel \<equiv> filter ((!) matches) [0..<length txids]"
  shows "from_txids txids matches = Some t \<and> pmt_wf t \<and> calculate_root parent_hash txids = Some root \<and>
    extract_matches t = (Inr root, map ((!) txids) sel, sel) \<and>
    extract_matches (pad_bits t) = (Inr root, map ((!) txids) sel, sel) \<and>
    length (pmt_ser (pad_bits t)) \<le> MAX_VEC_SIZE"
proof -
  define n :: u32 where "n = of_nat (length txids)"
  let ?b = "length (tree_bits n matches (calc_tree_height n) 0)"
  have n: "unat n = length txids" "unat n \<le> 2 ^ 31" using assms(2) by (simp_all add: n_def unat_of_nat)
  have sib: "siblings_differ n txids" using distinct_siblings_differ [OF n assms(5)] assms(6) by (simp add: n_def)
  have t: "from_txids txids matches = Some t" using from_txids_built [of txids matches] assms(1-3) by (simp add: t_def)
  have wf: "pmt_wf t" using built_tree_wf [OF assms(4) n(1) assms(1,2)] by (simp add: t_def n_def)
  have pad: "pad_bits t = built_tree n txids matches (padding8 ?b)" by (simp add: pad_bits_def t_def n_def)
  have "calculate_root parent_hash txids = Some root"
    using root_by_position [OF n assms(1)] assms(1) by (simp add: calculate_root_eq root_def n_def)
  moreover have "extract_matches t = (Inr root, map ((!) txids) sel, sel)"
    using extract_matches_built [OF n(1) assms(1,2) sib, of 0 matches] by (simp add: t_def root_def sel_def n_def)
  moreover have "extract_matches (pad_bits t) = (Inr root, map ((!) txids) sel, sel)"
    using extract_matches_built [OF n(1) assms(1,2) sib padding8_less padding8_div, of matches]
    by (simp add: pad root_def sel_def n_def)
  moreover have "length (pmt_ser (pad_bits t)) \<le> MAX_VEC_SIZE"
    using length_built_ser [OF wf [unfolded t_def] assms(2) n(1) [unfolded n_def] assms(1)] by (simp add: t_def)
  ultimately show ?thesis using t wf by blast
qed

section \<open>Properties\<close>

text \<open>
  Both root computations, in place and over an iterator, agree for every hash of pairs. They return for
  every list of leaves and give no root exactly for the empty one, although the inner recursion never
  returns on an empty slice.
\<close>

theorem roots_agree:
  "calculate_root P hashes = calculate_root_inline P hashes \<and>
   (calculate_root P hashes = None \<longleftrightarrow> hashes = []) \<and> merkle_root_r P [] = None"
  using merkle_root_r_returns [of hashes P] by (auto simp: calculate_root_eq merkle_root_r_empty)

text \<open>
  The root of up to \<open>2 ^ 31\<close> transactions is the node that the partial tree computes by position, at the
  height found by its loop.
\<close>

theorem root_is_top_node:
  assumes "txids \<noteq> []" and "length txids \<le> 2 ^ 31" and "n = of_nat (length txids)"
  shows "calculate_root parent_hash txids = Some (calc_hash n (calc_tree_height n) 0 txids)"
proof -
  have "unat n = length txids" using assms(2,3) by (simp add: unat_of_nat)
  then show ?thesis using root_by_position [of n txids] assms(1,2) by (simp add: calculate_root_eq)
qed

theorem root_is_top_node_witness:
  "calculate_root parent_hash [[1], [2], [3]] =
    Some (calc_hash (of_nat 3) (calc_tree_height (of_nat 3)) 0 [[1], [2], [3]])"
  using root_is_top_node [of "[[1], [2], [3]]" "of_nat 3"] by simp

text \<open>
  A root commits to the leaves: two different lists of one length with the same root show, at one place
  of one level, two different pairs of nodes with the same hash.
\<close>

theorem root_commits:
  assumes "calculate_root P xs = calculate_root P ys" and "length xs = length ys" and "xs \<noteq> ys"
  shows "\<exists>k i. i < length (root_level P (Suc k) xs) \<and>
     pair_at (root_level P k xs) i \<noteq> pair_at (root_level P k ys) i \<and>
     case_prod P (pair_at (root_level P k xs) i) = case_prod P (pair_at (root_level P k ys) i)"
proof -
  have "merkle_root_r P xs = merkle_root_r P ys"
    using assms by (auto simp: calculate_root_eq split: if_splits)
  then show ?thesis using merkle_root_r_inject assms(2,3) unfolding level_collision_def by blast
qed

theorem root_commits_witness:
  "\<exists>k i. i < length (root_level (+) (Suc k) [1, 2, 3 :: nat]) \<and>
     pair_at (root_level (+) k [1, 2, 3]) i \<noteq> pair_at (root_level (+) k [2, 1, 3 :: nat]) i \<and>
     case_prod (+) (pair_at (root_level (+) k [1, 2, 3]) i) = case_prod (+) (pair_at (root_level (+) k [2, 1, 3 :: nat]) i)"
proof (rule root_commits)
  show "calculate_root (+) [1, 2, 3] = calculate_root (+) [2, 1, 3 :: nat]"
    by (simp add: calculate_root_def merkle_root_r_rec [of _ "[_, _]"])
qed simp_all

text \<open>
  The root does not commit to the number of leaves: an odd list of three or more has the root of the
  list with its last leaf repeated.
\<close>

theorem root_ignores_repeated_last:
  assumes "odd (length xs)" and "3 \<le> length xs"
  shows "calculate_root P (xs @ [last xs]) = calculate_root P xs"
proof -
  have "pair_hashes P (xs @ [last xs]) = pair_hashes P xs" by (rule pair_hashes_dup_last [OF assms(1) refl])
  then show ?thesis
    using assms merkle_root_r_rec [of P xs] merkle_root_r_rec [of P "xs @ [last xs]"] by (auto simp: calculate_root_eq)
qed

theorem root_ignores_repeated_last_witness:
  "calculate_root parent_hash [[1], [2], [3], [3]] = calculate_root parent_hash [[1], [2], [3]]"
  using root_ignores_repeated_last [of "[[1], [2], [3]]" parent_hash] by simp

text \<open>
  A proof built for any selection of the transactions of a block, of at most 16666 transactions, survives
  serialisation up to the padding of its flags, and both it and what the receiver decodes give the Merkle
  root and exactly the selected transactions with their positions, in order, unless two nodes of the
  tree collide.
\<close>

theorem proof_roundtrip:
  assumes "txids \<noteq> []" and "length txids \<le> 16666" and "length matches = length txids"
    and "list_all (\<lambda>txid. length txid = 32) txids" and "distinct txids"
  shows "tree_collision (of_nat (length txids)) txids \<or>
    (\<exists>t b t' root. from_txids txids matches = Some t \<and> serialize pmt_encode t = Inr b \<and>
       deserialize pmt_decode b = Inr t' \<and> calculate_root parent_hash txids = Some root \<and>
       extract_matches t = extract_matches t' \<and>
       extract_matches t' = (Inr root, map ((!) txids) (filter ((!) matches) [0..<length txids]),
         filter ((!) matches) [0..<length txids]))"
proof (cases "tree_collision (of_nat (length txids)) txids")
  case False
  let ?t = "built_tree (of_nat (length txids)) txids matches 0"
  note built = built_roundtrip [OF assms False]
  have wf: "pmt_wf ?t" using built by simp
  have "serialize pmt_encode ?t = Inr (pmt_ser ?t)"
    using pmt_encode_ser [OF wf] by (simp add: serialize_def) (simp add: wrote_def)
  moreover have "deserialize pmt_decode (pmt_ser ?t) = Inr (pad_bits ?t)"
    using pmt_decode_ser [OF wf, of "[]"] by (simp add: deserialize_def deserialize_partial_def)
  ultimately show ?thesis
    using built by (intro disjI2 exI [of _ ?t] exI [of _ "pmt_ser ?t"] exI [of _ "pad_bits ?t"] exI conjI) simp_all
qed simp

theorem proof_roundtrip_witness:
  "tree_collision (of_nat 3) (map (replicate 32) [1, 2, 3]) \<or>
    (\<exists>t b t' root. from_txids (map (replicate 32) [1, 2, 3]) [False, False, True] = Some t \<and> serialize pmt_encode t = Inr b \<and>
       deserialize pmt_decode b = Inr t' \<and> calculate_root parent_hash (map (replicate 32) [1, 2, 3]) = Some root \<and>
       extract_matches t = extract_matches t' \<and> extract_matches t' = (Inr root, [replicate 32 3], [2]))"
  using proof_roundtrip [of "map (replicate 32) [1, 2, 3]" "[False, False, True]"]
  by (simp add: upt_rec replicate_eq_replicate numeral_2_eq_2)

text \<open>
  A proof cannot claim a transaction that is not in the block: when the count of transactions is right
  and the extracted root is the root of the block, the extracted transactions stand in the block at the
  extracted positions, which are strictly increasing, unless a forged pair of nodes was hashed.
\<close>

theorem proof_sound:
  assumes "extract_matches t = (Inr root, ms, is)" and "num_transactions t = of_nat (length txids)"
    and "length txids < 2 ^ 32" and "calculate_root parent_hash txids = Some root"
  shows "forged_node t txids \<or> (sorted_wrt (<) is \<and> set is \<subseteq> {..<length txids} \<and> ms = map ((!) txids) is)"
proof (cases "forged_node t txids")
  case False
  let ?n = "num_transactions t"
  let ?s = "\<lparr> bits_used = 0, hash_used = 0, ex_matches = [], ex_indexes = [] \<rparr>"
  obtain s' where ex: "traverse_and_extract t (calc_tree_height ?n) 0 ?s = (Inr root, s')"
    "ms = ex_matches s'" "is = ex_indexes s'" "?n \<noteq> 0" "unat ?n \<le> 16666"
    using assms(1) by (auto simp: extract_matches_def transactions_limit split: if_splits sum.splits prod.splits)
  have n: "unat ?n = length txids" using assms(2,3) by (simp add: unat_of_nat)
  have b: "unat ?n \<le> 2 ^ 31" "0 < unat ?n" using ex(4,5) by (simp_all add: word_neq_0_conv unat_gt_0)
  have "root = calc_hash ?n (calc_tree_height ?n) 0 txids"
    using root_by_position [OF n b(1)] assms(4) by (auto simp: calculate_root_eq split: if_splits)
  from extract_sound [OF refl False ex(1) node_root [OF b] this] obtain js
    where js: "subseq js [0..<length txids]" "is = js" "ms = map ((!) txids) js"
    using ex(2,3) by (auto simp: below_root [OF b] n)
  have "sorted_wrt (<) js" using subseq_sorted_wrt [OF js(1), of "(<)"] by simp
  moreover have "j < length txids" if "j \<in> set js" for j using list_emb_set [OF js(1) that] by auto
  ultimately show ?thesis using js(2,3) by (simp add: subset_iff)
qed simp

theorem proof_sound_witness:
  "let t = \<lparr> num_transactions = 2, pmt_bits = [True, False, True], pmt_hashes = [[1], [2]] \<rparr> in
   forged_node t [[1], [2]] \<or> (sorted_wrt (<) [1 :: nat] \<and> set [1] \<subseteq> {..<length [[1], [2 :: u8]]} \<and> [[2]] = map ((!) [[1], [2 :: u8]]) [1])"
  unfolding Let_def
proof (rule proof_sound [of _ "parent_hash [1] [2]"])
  have w: "calc_tree_width 2 0 = 2" "calc_tree_width 2 (Suc 0) = 1" by (simp_all add: calc_tree_width_def)
  have h: "calc_tree_height 2 = 1"
    unfolding calc_tree_height_def by (subst tree_height_from.simps) (subst tree_height_from.simps, simp add: w)
  show "extract_matches \<lparr> num_transactions = 2, pmt_bits = [True, False, True], pmt_hashes = [[1], [2]] \<rparr> =
    (Inr (parent_hash [1] [2]), [[2]], [1])"
    using transactions_limit [of 2] by (simp add: extract_matches_def h traverse_and_extract.simps w Let_def)
  show "calculate_root parent_hash [[1], [2]] = Some (parent_hash [1] [2])" by (simp add: calculate_root_def)
qed simp_all

text \<open>
  The size of a proof: as documented there are at most as many hashes as transactions and at most one
  more than the height for each matched transaction. There may be more flags than the documented
  \<open>2 * N - 1\<close> for \<open>N\<close> hashes, but at most one more for each level; a block of three transactions with the
  last one selected has four flags and two hashes.
\<close>

theorem proof_size:
  assumes "from_txids txids matches = Some t" and "length txids \<le> 2 ^ 31"
  shows "0 < length (pmt_hashes t) \<and> length (pmt_hashes t) \<le> length txids \<and>
    length (pmt_hashes t) \<le> 1 + length (filter (\<lambda>m. m) matches) * calc_tree_height (num_transactions t) \<and>
    length (pmt_hashes t) \<le> length (pmt_bits t) \<and>
    length (pmt_bits t) \<le> 2 * length (pmt_hashes t) - 1 + calc_tree_height (num_transactions t)"
proof -
  define n :: u32 where "n = of_nat (length txids)"
  have a: "txids \<noteq> []" "length matches = length txids" using assms(1) by (auto simp: from_txids_def split: if_splits)
  have t: "t = built_tree n txids matches 0" using from_txids_built [OF a assms(2)] assms(1) by (simp add: n_def)
  have n: "unat n = length txids" "unat n \<le> 2 ^ 31" "0 < unat n" using assms(2) a by (simp_all add: n_def unat_of_nat)
  note root = node_root [OF n(2,3)] and all = below_root [OF n(2,3)]
  have "length (filter (\<lambda>m. m) matches) = length (filter ((!) matches) [0..<unat n])"
    using n(1) a(2) by (subst (1) map_nth [of matches, symmetric]) (simp add: filter_map comp_def)
  then show ?thesis
    using tree_hashes_bounds [OF root, of txids matches] tree_hashes_matched [OF root, of txids matches]
      tree_bits_bound [OF root, of matches txids] n(1) by (simp add: t all)
qed

theorem proof_size_witness:
  "\<exists>t. from_txids [[1], [2], [3]] [False, False, True] = Some t \<and> length (pmt_bits t) = 4 \<and> length (pmt_hashes t) = 2 \<and>
    length (pmt_bits t) \<le> 2 * length (pmt_hashes t) - 1 + calc_tree_height (num_transactions t)"
proof -
  have w: "calc_tree_width 3 0 = 3" "calc_tree_width 3 (Suc 0) = 2" "calc_tree_width 3 (Suc (Suc 0)) = 1"
    by (simp_all add: calc_tree_width_def)
  have h: "calc_tree_height 3 = 2"
    unfolding calc_tree_height_def
    by (subst tree_height_from.simps, subst tree_height_from.simps, subst tree_height_from.simps) (simp add: w)
  have m: "parent_of_match 3 (Suc (Suc 0)) 0 [False, False, True]" "\<not> parent_of_match 3 (Suc 0) 0 [False, False, True]"
    "parent_of_match 3 (Suc 0) (Suc 0) [False, False, True]"
    by (simp_all add: parent_of_match_def upt_conv_Cons)
  have "\<exists>t. from_txids [[1], [2], [3]] [False, False, True] = Some t \<and> length (pmt_bits t) = 4 \<and> length (pmt_hashes t) = 2"
    by (simp add: from_txids_def h numeral_2_eq_2 m w Let_def del: calc_hash.simps)
  then show ?thesis using proof_size [of "[[1], [2], [3]]" "[False, False, True]"] by auto
qed

end
