(* ===== verification/Block.thy ===== *)
theory Block
  imports Transaction Merkle Pow
begin

text \<open>
  Blocks (\<open>src/litecoin/src/blockdata/block.rs\<close>): headers and their hash, version bits, the extension block and
  its header, the encoding of blocks, the checks of the Merkle root and of the witness commitment, sizes and
  weight, the height of the coinbase, the genesis blocks (\<open>constants.rs\<close>), the retargeting between two headers
  (\<open>pow.rs\<close>) and Merkle blocks (\<open>merkle_tree/block.rs\<close>). \<^term>\<open>None\<close> is a panic of the code.
\<close>

section \<open>Headers\<close>

text \<open>The version is an \<open>i32\<close>, kept as its 32 bits.\<close>

record Header =
  block_version :: u32
  prev_blockhash :: bytes
  merkle_root :: bytes
  block_time :: u32
  block_bits :: compact_target
  nonce :: u32

definition header_encode :: "Header \<Rightarrow> io_failure encoded" where
  "header_encode h =
     enc_seq (int_encode (block_version h))
    (enc_seq (array_encode (prev_blockhash h))
    (enc_seq (array_encode (merkle_root h))
    (enc_seq (int_encode (block_time h))
    (enc_seq (compact_encode (block_bits h)) (int_encode (nonce h))))))"

definition header_decode :: "(encode_error, Header) decoder" where
  "header_decode =
     dbind read_int (\<lambda>v. dbind (array_decode 32) (\<lambda>prev. dbind (array_decode 32) (\<lambda>root.
     dbind read_int (\<lambda>t. dbind compact_decode (\<lambda>b. dbind read_int (\<lambda>n.
       dreturn \<lparr> block_version = v, prev_blockhash = prev, merkle_root = root, block_time = t,
                 block_bits = b, nonce = n \<rparr>))))))"

definition HEADER_SIZE :: nat where "HEADER_SIZE = 4 + 32 + 32 + 4 + 4 + 4"

definition block_hash :: "Header \<Rightarrow> bytes option" where
  "block_hash h = hash_encoded (header_encode h)"

definition header_target :: "Header \<Rightarrow> target" where
  "header_target h = from_compact (block_bits h)"

definition header_difficulty :: "Header \<Rightarrow> pow_params \<Rightarrow> u128 option" where
  "header_difficulty h params = difficulty (header_target h) params"

definition header_work :: "Header \<Rightarrow> pow_work option" where
  "header_work h = to_work (header_target h)"

datatype validation_error = BadProofOfWork | BadTarget

definition validate_pow :: "Header \<Rightarrow> target \<Rightarrow> (validation_error + bytes) option" where
  "validate_pow h required_target =
     (let t = header_target h in
      if t \<noteq> required_target then Some (Inl BadTarget)
      else map_option (\<lambda>hash. if is_met_by t hash then Inr hash else Inl BadProofOfWork) (block_hash h))"

text \<open>The difference of the times is a subtraction of \<open>u32\<close>, which wraps in a release build.\<close>

definition from_header_difficulty_adjustment :: "Header \<Rightarrow> Header \<Rightarrow> pow_params \<Rightarrow> compact_target option" where
  "from_header_difficulty_adjustment last_epoch_boundary current params =
     (let timespan = block_time current - block_time last_epoch_boundary in
      from_next_work_required (block_bits current) (ucast timespan) params)"

section \<open>Versions\<close>

definition VERSION_BITS_MASK :: u32 where "VERSION_BITS_MASK = 0x1FFFFFFF"
definition USE_VERSION_BITS :: u32 where "USE_VERSION_BITS = 0x20000000"

definition is_signalling_soft_fork :: "u32 \<Rightarrow> u8 \<Rightarrow> bool" where
  "is_signalling_soft_fork v n =
     (if 28 < n then False
      else if v AND NOT VERSION_BITS_MASK \<noteq> USE_VERSION_BITS then False
      else 0 < (v AND VERSION_BITS_MASK) AND push_bit (unat n) 1)"

section \<open>Extension blocks\<close>

record mweb_header =
  mweb_height :: u32
  output_root :: bytes
  kernel_root :: bytes
  leafset_root :: bytes
  hdr_kernel_offset :: bytes
  hdr_stealth_offset :: bytes
  output_mmr_size :: u64
  kernel_mmr_size :: u64

record 'k mweb_block =
  mb_header :: mweb_header
  mb_tx_body :: "'k tx_body"

definition mweb_header_encode :: "mweb_header \<Rightarrow> io_failure encoded" where
  "mweb_header_encode h =
     enc_seq (write_compact_varint (ucast (mweb_height h)))
    (enc_seq (array_encode (output_root h))
    (enc_seq (array_encode (kernel_root h))
    (enc_seq (array_encode (leafset_root h))
    (enc_seq (array_encode (hdr_kernel_offset h))
    (enc_seq (array_encode (hdr_stealth_offset h))
    (enc_seq (write_compact_varint (output_mmr_size h))
             (write_compact_varint (kernel_mmr_size h))))))))"

definition mweb_header_decode :: "(encode_error, mweb_header) decoder" where
  "mweb_header_decode =
     dbind read_compact_varint (\<lambda>raw_height.
       if 0xFFFFFFFF < raw_height then dfail (ParseFailed ''MwebBlockHeader height out of range'')
       else dbind (array_decode 32) (\<lambda>o_root. dbind (array_decode 32) (\<lambda>k_root. dbind (array_decode 32) (\<lambda>l_root.
            dbind (array_decode 32) (\<lambda>k_off. dbind (array_decode 32) (\<lambda>s_off.
            dbind read_compact_varint (\<lambda>o_size. dbind read_compact_varint (\<lambda>k_size.
              dreturn \<lparr> mweb_height = ucast raw_height, output_root = o_root, kernel_root = k_root,
                leafset_root = l_root, hdr_kernel_offset = k_off, hdr_stealth_offset = s_off,
                output_mmr_size = o_size, kernel_mmr_size = k_size \<rparr>))))))))"

definition mweb_block_encode :: "'k key_ops \<Rightarrow> 'k mweb_block \<Rightarrow> io_failure encoded" where
  "mweb_block_encode K b = enc_seq (mweb_header_encode (mb_header b)) (tx_body_encode K (mb_tx_body b))"

definition mweb_block_decode :: "'k key_ops \<Rightarrow> (encode_error, 'k mweb_block) decoder" where
  "mweb_block_decode K = dbind mweb_header_decode (\<lambda>h. dbind (tx_body_decode K) (\<lambda>body.
     dreturn \<lparr> mb_header = h, mb_tx_body = body \<rparr>))"

section \<open>Blocks\<close>

record 'k Block =
  header :: Header
  txdata :: "'k Transaction list"
  ext_block :: "'k mweb_block option"

definition MWEB_VERSION_BIT :: u32 where "MWEB_VERSION_BIT = 0x20000000"

definition block_carries_mweb :: "u32 \<Rightarrow> 'k Transaction list \<Rightarrow> bool" where
  "block_carries_mweb v txs \<longleftrightarrow> 2 \<le> length txs \<and> v AND MWEB_VERSION_BIT \<noteq> 0 \<and> is_hog_ex (last txs)"

definition block_encode :: "'k key_ops \<Rightarrow> 'k Block \<Rightarrow> io_failure encoded" where
  "block_encode K b =
     enc_seq (header_encode (header b)) (enc_seq (vec_encode (transaction_encode K) (txdata b))
       (if block_carries_mweb (block_version (header b)) (txdata b)
        then (case ext_block b of Some mw \<Rightarrow> enc_seq (emit_u8 1) (mweb_block_encode K mw) | None \<Rightarrow> emit_u8 0)
        else enc_nothing))"

definition block_decode :: "'k key_ops \<Rightarrow> (encode_error, 'k Block) decoder" where
  "block_decode K =
     dbind header_decode (\<lambda>h. dbind (vec_decode (transaction_decode K)) (\<lambda>txs.
       if list_ex is_hog_ex (take (length txs - 1) txs) then dfail (ParseFailed ''HogEx must be the last transaction'')
       else dbind
         (if block_carries_mweb (block_version h) txs
          then dbind read_u8 (\<lambda>present. if present \<noteq> 0 then dmap Some (mweb_block_decode K) else dreturn None)
          else dreturn None)
         (\<lambda>mw. dreturn \<lparr> header = h, txdata = txs, ext_block = mw \<rparr>)))"

section \<open>Checks\<close>

definition compute_merkle_root :: "'k Block \<Rightarrow> bytes option option" where
  "compute_merkle_root b = map_option (calculate_root parent_hash) (those (map compute_txid (txdata b)))"

definition check_merkle_root :: "'k Block \<Rightarrow> bool option" where
  "check_merkle_root b = map_option (\<lambda>r. case r of Some root \<Rightarrow> merkle_root (header b) = root | None \<Rightarrow> False)
     (compute_merkle_root b)"

definition compute_witness_commitment :: "bytes \<Rightarrow> bytes \<Rightarrow> bytes" where
  "compute_witness_commitment witness_root witness_reserved_value = sha256d_hash (witness_root @ witness_reserved_value)"

definition witness_leaves :: "'k key_ops \<Rightarrow> 'k Transaction list \<Rightarrow> bytes option list" where
  "witness_leaves K txs = map (\<lambda>(i, t). if i = 0 then Some (replicate 32 0) else compute_wtxid K t)
     (zip [0..<length txs] txs)"

definition witness_root :: "'k key_ops \<Rightarrow> 'k Block \<Rightarrow> bytes option option" where
  "witness_root K b = map_option (calculate_root parent_hash) (those (witness_leaves K (txdata b)))"

definition WITNESS_MAGIC :: bytes where
  "WITNESS_MAGIC = [0x6a, 0x24, 0xaa, 0x21, 0xa9, 0xed]"

text \<open>\<open>Iterator::rposition\<close>, for an output that starts with the magic bytes.\<close>

definition commitment_position :: "TxOut list \<Rightarrow> nat option" where
  "commitment_position outs =
     (case filter (\<lambda>i. 38 \<le> length (script_pubkey (outs ! i)) \<and> take 6 (script_pubkey (outs ! i)) = WITNESS_MAGIC)
             [0..<length outs] of
        [] \<Rightarrow> None | is \<Rightarrow> Some (last is))"

definition check_witness_commitment :: "'k key_ops \<Rightarrow> 'k Block \<Rightarrow> bool option" where
  "check_witness_commitment K b =
     (if list_all (\<lambda>t. list_all witness_is_empty (tx_input t)) (txdata b) then Some True
      else if txdata b = [] then Some False
      else let coinbase = txdata b ! 0 in
        if \<not> is_coinbase coinbase then Some False
        else case commitment_position (tx_output coinbase) of None \<Rightarrow> Some False
        | Some p \<Rightarrow>
          let commitment = take 32 (drop 6 (script_pubkey (tx_output coinbase ! p))) in
          Option.bind (to_vec (txin_witness (tx_input coinbase ! 0))) (\<lambda>witness_vec.
            if length witness_vec = 1 \<and> length (witness_vec ! 0) = 32
            then Option.bind (witness_root K b) (\<lambda>r.
              case r of Some root \<Rightarrow> Some (commitment = compute_witness_commitment root (witness_vec ! 0))
              | None \<Rightarrow> Some False)
            else Some False))"

definition block_base_size :: "'k Block \<Rightarrow> nat" where
  "block_base_size b = HEADER_SIZE + size_of_len (length (txdata b)) + sum_list (map tx_base_size (txdata b))"

definition block_total_size :: "'k Block \<Rightarrow> nat option" where
  "block_total_size b = map_option (\<lambda>n. HEADER_SIZE + size_of_len (length (txdata b)) + n)
     (sum_sizes tx_total_size (txdata b))"

definition block_weight :: "'k Block \<Rightarrow> weight option" where
  "block_weight b = map_option (\<lambda>t. from_wu_usize (block_base_size b * 3 + t)) (block_total_size b)"

definition block_coinbase :: "'k Block \<Rightarrow> 'k Transaction option" where
  "block_coinbase b = (case txdata b of [] \<Rightarrow> None | tx # _ \<Rightarrow> Some tx)"

datatype bip34_error = Unsupported | NotPresent | UnexpectedPush bytes | NegativeHeight

definition bip34_block_height :: "'k Block \<Rightarrow> bip34_error + u64" where
  "bip34_block_height b =
     (if sint (block_version (header b)) < 2 then Inl Unsupported
      else case block_coinbase b of None \<Rightarrow> Inl NotPresent
      | Some cb \<Rightarrow>
        case tx_input cb of [] \<Rightarrow> Inl NotPresent
        | input # _ \<Rightarrow>
          case instructions True (script_sig input) of [] \<Rightarrow> Inl NotPresent
          | push # _ \<Rightarrow>
            (case push of Inl _ \<Rightarrow> Inl NotPresent
             | Inr (PushBytes bs) \<Rightarrow>
                (case read_scriptint bs of Inl _ \<Rightarrow> Inl (UnexpectedPush bs)
                 | Inr h \<Rightarrow> if h < 0 then Inl NegativeHeight else Inr (word_of_int h))
             | Inr (Op _) \<Rightarrow> Inl NotPresent))"

section \<open>Merkle blocks\<close>

record merkle_block =
  mk_header :: Header
  mk_txn :: partial_merkle_tree

definition from_header_txids_with_predicate :: "Header \<Rightarrow> bytes list \<Rightarrow> (bytes \<Rightarrow> bool) \<Rightarrow> merkle_block option" where
  "from_header_txids_with_predicate h block_txids match_txids =
     map_option (\<lambda>t. \<lparr> mk_header = h, mk_txn = t \<rparr>) (from_txids block_txids (map match_txids block_txids))"

definition from_block_with_predicate :: "'k Block \<Rightarrow> (bytes \<Rightarrow> bool) \<Rightarrow> merkle_block option" where
  "from_block_with_predicate b match_txids =
     Option.bind (those (map compute_txid (txdata b)))
       (\<lambda>block_txids. from_header_txids_with_predicate (header b) block_txids match_txids)"

definition merkle_block_extract_matches :: "merkle_block \<Rightarrow> (merkle_error + unit) \<times> bytes list \<times> nat list" where
  "merkle_block_extract_matches m =
     (case extract_matches (mk_txn m) of
        (Inl e, ms, is) \<Rightarrow> (Inl e, ms, is)
      | (Inr root, ms, is) \<Rightarrow> (if root = merkle_root (mk_header m) then Inr () else Inl MerkleRootMismatch, ms, is))"

definition merkle_block_encode :: "merkle_block \<Rightarrow> io_failure encoded" where
  "merkle_block_encode m = enc_seq (header_encode (mk_header m)) (pmt_encode (mk_txn m))"

definition merkle_block_decode :: "(encode_error, merkle_block) decoder" where
  "merkle_block_decode = dbind (limited header_decode) (\<lambda>h. dbind (limited pmt_decode) (\<lambda>t.
     dreturn \<lparr> mk_header = h, mk_txn = t \<rparr>))"

section \<open>Genesis blocks\<close>

definition GENESIS_OUTPUT_PK :: bytes where
  "GENESIS_OUTPUT_PK = [0x04,
     0x01, 0x84, 0x71, 0x0f, 0xa6, 0x89, 0xad, 0x50, 0x23, 0x69, 0x0c, 0x80, 0xf3, 0xa4, 0x9c, 0x8f,
     0x13, 0xf8, 0xd4, 0x5b, 0x8c, 0x85, 0x7f, 0xbc, 0xbc, 0x8b, 0xc4, 0xa8, 0xe4, 0xd3, 0xeb, 0x4b,
     0x10, 0xf4, 0xd4, 0x60, 0x4f, 0xa0, 0x8d, 0xce, 0x60, 0x1a, 0xaf, 0x0f, 0x47, 0x02, 0x16, 0xfe,
     0x1b, 0x51, 0x85, 0x0b, 0x4a, 0xcf, 0x21, 0xb1, 0x79, 0xc4, 0x50, 0x70, 0xac, 0x7b, 0x03, 0xa9]"

definition genesis_headline :: bytes where
  "genesis_headline = map of_char ''NY Times 05/Oct/2011 Steve Jobs, Apple'' @ [0xe2, 0x80, 0x99]
     @ map of_char ''s Visionary, Dies at 56''"

definition genesis_tx :: "'k Transaction option" where
  "genesis_tx =
     Option.bind (push_int builder_new 486604799) (\<lambda>b. Option.bind (push_int_non_minimal b 4) (\<lambda>b.
     Option.bind (push_slice b genesis_headline) (\<lambda>in_script.
     Option.bind (push_slice builder_new GENESIS_OUTPUT_PK) (\<lambda>b. let out_script = push_opcode b OP_CHECKSIG in
       Some \<lparr> version = 1, lock_time = Blocks 0,
         tx_input = [\<lparr> previous_output = outpoint_null, script_sig = b_script in_script, sequence = SEQUENCE_MAX,
                       txin_witness = witness_new \<rparr>],
         tx_output = [\<lparr> txout_value = 50 * 100000000, script_pubkey = b_script out_script \<rparr>],
         mw_tx = None, is_hog_ex = False \<rparr>))))"

fun genesis_fields :: "Network \<Rightarrow> u32 \<times> compact_target \<times> u32" where
  "genesis_fields Bitcoin_net = (1317972665, 0x1e0ffff0, 2084524493)"
| "genesis_fields Testnet4 = (1486949366, 0x1e0ffff0, 293345)"
| "genesis_fields Signet = (1598918400, 0x1e0377ae, 52613770)"
| "genesis_fields Regtest = (1296688602, 0x207fffff, 0)"

definition genesis_block :: "pow_params \<Rightarrow> 'k Block option" where
  "genesis_block params =
     Option.bind genesis_tx (\<lambda>tx. Option.bind (compute_txid tx) (\<lambda>root.
       let (t, b, n) = genesis_fields (network params) in
       Some \<lparr> header = \<lparr> block_version = 1, prev_blockhash = replicate 32 0, merkle_root = root, block_time = t,
                block_bits = b, nonce = n \<rparr>,
              txdata = [tx], ext_block = None \<rparr>))"

section \<open>Codecs\<close>

definition header_wf :: "Header \<Rightarrow> bool" where
  "header_wf h \<longleftrightarrow> length (prev_blockhash h) = 32 \<and> length (merkle_root h) = 32"

definition header_ser :: "Header \<Rightarrow> bytes" where
  "header_ser h = to_le_bytes (block_version h) @ prev_blockhash h @ merkle_root h @ to_le_bytes (block_time h)
     @ to_le_bytes (block_bits h) @ to_le_bytes (nonce h)"

lemma header_encode_wrote: "header_encode h = wrote (header_ser h)"
  by (simp add: header_encode_def header_ser_def compact_encode_def)

lemma block_hash_eq: "block_hash h = Some (sha256d_hash (header_ser h))"
  by (simp add: block_hash_def header_encode_wrote hash_encoded_wrote)

interpretation header: canonical_codec header_encode header_decode header_wf header_ser
proof (rule canonical_codecI)
  show "header_encode h = wrote (header_ser h)" for h by (rule header_encode_wrote)
  show "header_decode r = Inr (h, r') \<longleftrightarrow> header_wf h \<and> r = header_ser h @ r'" for r h r'
    unfolding header_decode_def compact_decode_def dbind_Inr_iff base_dec_iff array_dec_iff dreturn_apply
      header_wf_def header_ser_def
    by (cases h) auto
qed

lemma length_header_ser: "header_wf h \<Longrightarrow> length (header_ser h) = HEADER_SIZE"
  by (simp add: header_wf_def header_ser_def length_to_le_bytes HEADER_SIZE_def)

definition mweb_header_wf :: "mweb_header \<Rightarrow> bool" where
  "mweb_header_wf h \<longleftrightarrow> length (output_root h) = 32 \<and> length (kernel_root h) = 32 \<and> length (leafset_root h) = 32
     \<and> length (hdr_kernel_offset h) = 32 \<and> length (hdr_stealth_offset h) = 32"

abbreviation varint_bytes :: "u64 \<Rightarrow> bytes" where
  "varint_bytes n \<equiv> amount_ser (uint n)"

definition mweb_header_ser :: "mweb_header \<Rightarrow> bytes" where
  "mweb_header_ser h = varint_bytes (ucast (mweb_height h)) @ output_root h @ kernel_root h @ leafset_root h
     @ hdr_kernel_offset h @ hdr_stealth_offset h @ varint_bytes (output_mmr_size h) @ varint_bytes (kernel_mmr_size h)"

lemma height_range: "(raw :: u64) \<le> 0xFFFFFFFF \<and> (ucast raw :: u32) = h \<longleftrightarrow> raw = ucast h"
proof
  assume a: "raw \<le> 0xFFFFFFFF \<and> (ucast raw :: u32) = h"
  then have "unat raw < 2 ^ 32" by (simp add: word_le_nat_alt)
  then have "unat raw = unat (ucast h :: u64)" using a by (auto simp: unat_ucast)
  then show "raw = ucast h" by (simp only: word_unat_eq_iff)
next
  assume "raw = ucast h"
  moreover have "unat (ucast h :: u64) = unat h" using unat_less_exp [of h] by (simp add: unat_ucast)
  ultimately show "raw \<le> 0xFFFFFFFF \<and> (ucast raw :: u32) = h"
    using unat_less_exp [of h] by (auto simp: word_le_nat_alt word_unat_eq_iff unat_ucast)
qed

interpretation mweb_header: canonical_codec mweb_header_encode mweb_header_decode mweb_header_wf mweb_header_ser
proof (rule canonical_codecI)
  show "mweb_header_encode h = wrote (mweb_header_ser h)" for h
    by (simp add: mweb_header_encode_def mweb_header_ser_def compact_varint.enc_ser)
  fix r h r'
  have "mweb_header_decode r = Inr (h, r') \<longleftrightarrow> (\<exists>raw. (raw \<le> 0xFFFFFFFF \<and> (ucast raw :: u32) = mweb_height h) \<and>
      mweb_header_wf h \<and> r = varint_bytes raw @ output_root h @ kernel_root h @ leafset_root h
     @ hdr_kernel_offset h @ hdr_stealth_offset h @ varint_bytes (output_mmr_size h) @ varint_bytes (kernel_mmr_size h) @ r')"
    unfolding mweb_header_decode_def dbind_Inr_iff compact_varint.dec_iff array_dec_iff dreturn_apply
      mweb_header_wf_def if_dfail_iff
    by (cases h) (auto simp: not_less)
  then show "mweb_header_decode r = Inr (h, r') \<longleftrightarrow> mweb_header_wf h \<and> r = mweb_header_ser h @ r'"
    unfolding mweb_header_ser_def height_range by simp
qed

definition mweb_block_wf :: "'k mweb_block \<Rightarrow> bool" where
  "mweb_block_wf b \<longleftrightarrow> mweb_header_wf (mb_header b) \<and> tx_body_wf (mb_tx_body b)"

definition mweb_block_ser :: "'k key_ops \<Rightarrow> 'k mweb_block \<Rightarrow> bytes" where
  "mweb_block_ser K b = mweb_header_ser (mb_header b) @ tx_body_ser K (mb_tx_body b)"

lemma mweb_block_codec:
  fixes K :: "'k key_ops"
  assumes K: "key_laws K"
  shows "canonical_codec (mweb_block_encode K) (mweb_block_decode K) mweb_block_wf (mweb_block_ser K)"
proof (rule canonical_codecI)
  note body = tx_body_codec [OF K]
  show "mweb_block_encode K b = wrote (mweb_block_ser K b)" if "mweb_block_wf b" for b
    using that codec.enc_ser [OF canonical_is_codec [OF body]] mweb_header.enc_ser
    by (simp add: mweb_block_encode_def mweb_block_ser_def mweb_block_wf_def)
  show "mweb_block_decode K r = Inr (b, r') \<longleftrightarrow> mweb_block_wf b \<and> r = mweb_block_ser K b @ r'" for r b r'
    unfolding mweb_block_decode_def dbind_Inr_iff mweb_header.dec_iff canonical_codec.dec_iff [OF body] dreturn_apply
      mweb_block_wf_def mweb_block_ser_def
    by (cases b) auto
qed

text \<open>
  Well-formed blocks: a HogEx transaction stands last, and there is an extension block only where the
  version and a last HogEx transaction announce one.
\<close>

definition block_wf :: "'k Block \<Rightarrow> bool" where
  "block_wf b \<longleftrightarrow> header_wf (header b) \<and> vec_wf tx_wf (txdata b) \<and> \<not> list_ex is_hog_ex (butlast (txdata b)) \<and>
     (case ext_block b of None \<Rightarrow> True
      | Some mw \<Rightarrow> block_carries_mweb (block_version (header b)) (txdata b) \<and> mweb_block_wf mw)"

text \<open>The presence byte and the extension block.\<close>

definition extension_ser :: "'k key_ops \<Rightarrow> u8 \<Rightarrow> 'k Block \<Rightarrow> bytes" where
  "extension_ser K p b = (if block_carries_mweb (block_version (header b)) (txdata b)
     then (case ext_block b of None \<Rightarrow> [0] | Some mw \<Rightarrow> p # mweb_block_ser K mw) else [])"

definition block_ser :: "'k key_ops \<Rightarrow> u8 \<Rightarrow> 'k Block \<Rightarrow> bytes" where
  "block_ser K p b = header_ser (header b) @ vec_ser (tx_ser K) (txdata b) @ extension_ser K p b"

lemma block_encode_wrote:
  assumes "key_laws K" and "block_wf b"
  shows "block_encode K b = wrote (block_ser K 1 b)"
  using assms codec.enc_ser [OF codec.vec_codec [OF transaction_codec [OF assms(1)]], of "txdata b"]
    codec.enc_ser [OF canonical_is_codec [OF mweb_block_codec [OF assms(1)]]]
  by (auto simp: block_encode_def block_ser_def extension_ser_def block_wf_def header.enc_ser split: option.splits)

lemma block_decode_ser:
  assumes "key_laws K" and "block_wf b" and "p \<noteq> 0"
  shows "block_decode K (block_ser K p b @ r) = Inr (b, r)"
proof -
  note vec = codec.dec_ser [OF codec.vec_codec [OF transaction_codec [OF assms(1)]], of "txdata b"]
    and mw = codec.dec_ser [OF canonical_is_codec [OF mweb_block_codec [OF assms(1)]]]
  have h: "\<not> list_ex is_hog_ex (take (length (txdata b) - 1) (txdata b))"
    using assms(2) by (simp add: block_wf_def butlast_conv_take)
  show ?thesis
    using assms(2,3) h vec
    by (cases "ext_block b"; cases b)
      (auto simp: block_decode_def block_ser_def extension_ser_def block_wf_def dbind_Inr header.dec_ser read_u8_append
        dmap_Inr mw)
qed

text \<open>Blocks without extension-block data have one encoding.\<close>

lemma plain_transactions:
  assumes "key_laws K" and "drepeat n (transaction_decode K) r = Inr (txs, r')" and "list_all (\<lambda>tx. \<not> has_mweb tx) txs"
  shows "length txs = n \<and> list_all tx_wf txs \<and> r = concat (map (tx_ser K) txs) @ r'"
  using assms(2,3)
proof (induction n arbitrary: r txs)
  case (Suc n)
  from Suc.prems(1) obtain tx q ys where "transaction_decode K r = Inr (tx, q)"
    and q: "drepeat n (transaction_decode K) q = Inr (ys, r')" "txs = tx # ys"
    by (auto elim!: dbind_InrE)
  moreover from this obtain flag p where "tx_wf tx" "accepted_form tx flag p" "r = tx_wire K flag p tx @ q"
    unfolding transaction_decode_iff [OF assms(1)] by blast
  ultimately show ?case
    using Suc.IH [OF q(1)] Suc.prems(2) by (auto simp: accepted_form_def tx_ser_def)
qed simp

lemma plain_block_canonical:
  assumes "key_laws K" and "list_all (\<lambda>tx. \<not> has_mweb tx) (txdata b)" and "block_decode K s = Inr (b, r)"
  shows "block_wf b \<and> s = block_ser K 1 b @ r"
proof -
  obtain h txs q q' mw where d: "header_wf h" "s = header_ser h @ q" "vec_decode (transaction_decode K) q = Inr (txs, q')"
    "\<not> list_ex is_hog_ex (take (length txs - 1) txs)"
    "(if block_carries_mweb (block_version h) txs
      then dbind read_u8 (\<lambda>present. if present \<noteq> 0 then dmap Some (mweb_block_decode K) else dreturn None)
      else dreturn None) q' = Inr (mw, r)" "b = \<lparr> header = h, txdata = txs, ext_block = mw \<rparr>"
    using assms(3) unfolding block_decode_def dbind_Inr_iff [of header_decode] header.dec_iff
      dbind_Inr_iff [of "vec_decode _"] if_dfail_iff dbind_Inr_iff dreturn_apply by blast
  have "\<not> block_carries_mweb (block_version h) txs"
    using assms(2) d(6) last_in_set [of txs] by (cases txs) (auto simp: block_carries_mweb_def list_all_iff)
  then have e: "q' = r" "mw = None" "\<not> block_carries_mweb (block_version h) txs" using d(5) by auto
  obtain n q'' where n: "q = varint_ser n @ q''" "drepeat (unat n) (transaction_decode K) q'' = Inr (txs, r)"
    using d(3) e(1) unfolding vec_decode_def dbind_Inr_iff varint.dec_iff by blast
  have m: "list_all (\<lambda>tx. \<not> has_mweb tx) txs" using assms(2) d(6) by simp
  note p = plain_transactions [OF assms(1) n(2) m]
  have "length txs = unat n" using p by simp
  then have "of_nat (length txs) = n" by simp
  moreover have "length txs < 2 ^ 64" using p unat_less_exp [of n] by simp
  ultimately show ?thesis
    using p d n(1) e by (simp add: block_wf_def vec_wf_def block_ser_def extension_ser_def vec_ser_def butlast_conv_take)
qed

section \<open>Sizes\<close>

lemma sum_length_tx:
  "list_all tx_wf txs \<Longrightarrow> sum_sizes tx_total_size txs = Some (sum_list (map (\<lambda>tx. length (tx_ser K tx) - mweb_bytes K tx) txs))"
  using length_tx_ser(1) [of _ K] by (intro sum_sizes_Some) (auto simp: list_all_iff)

lemma those_map_Some: "(\<And>x. x \<in> set xs \<Longrightarrow> f x = Some (g x)) \<Longrightarrow> those (map f xs) = Some (map g xs)"
  by (induction xs) auto

lemma those_Some_iff: "those xs = Some ys \<longleftrightarrow> xs = map Some ys"
proof (induction xs arbitrary: ys)
  case (Cons x xs)
  have "those (x # xs) = Some ys \<longleftrightarrow> (\<exists>y zs. x = Some y \<and> those xs = Some zs \<and> ys = y # zs)"
    by (auto split: option.splits)
  then show ?case unfolding Cons.IH by (auto simp: Cons_eq_map_conv)
qed auto

lemma compute_merkle_root_eq:
  "compute_merkle_root b = Some (calculate_root parent_hash (map (\<lambda>tx. sha256d_hash (base_ser tx)) (txdata b)))"
  by (simp add: compute_merkle_root_def those_map_Some [of _ compute_txid] compute_txid_total)

section \<open>Properties of headers\<close>

definition sample_header :: Header where
  "sample_header = \<lparr> block_version = 0x20000000, prev_blockhash = replicate 32 1, merkle_root = replicate 32 2,
     block_time = 1317972665, block_bits = 0x1e0ffff0, nonce = 7 \<rparr>"

lemma sample_header_wf: "header_wf sample_header"
  by (simp add: sample_header_def header_wf_def)

text \<open>
  A header is 80 bytes, written and read back, and nothing else reads as it; its hash commits to all of its
  fields, and the proof of work is accepted exactly when the expanded bits are the required target and the
  hash, as a little-endian number, does not exceed it.
\<close>

theorem header_proof_of_work:
  assumes "header_wf h"
  shows "\<exists>b. header_encode h = wrote b \<and> length b = 80 \<and> (\<forall>s r. header_decode s = Inr (h, r) \<longleftrightarrow> s = b @ r) \<and>
    block_hash h = Some (sha256d_hash b) \<and>
    validate_pow h t = Some (if from_compact (block_bits h) \<noteq> t then Inl BadTarget
      else if le_value (sha256d_hash b) \<le> u256_val t then Inr (sha256d_hash b) else Inl BadProofOfWork)"
proof (intro exI [of _ "header_ser h"] conjI allI)
  show "length (header_ser h) = 80" using length_header_ser [OF assms] by (simp add: HEADER_SIZE_def)
  show "header_decode s = Inr (h, r) \<longleftrightarrow> s = header_ser h @ r" for s r using header.dec_iff assms by blast
  have "is_met_by t (sha256d_hash (header_ser h)) \<longleftrightarrow> le_value (sha256d_hash (header_ser h)) \<le> u256_val t"
    by (simp add: is_met_by_def u256_le_iff u256_from_le_bytes_val length_sha256d_hash)
  then show "validate_pow h t = Some (if from_compact (block_bits h) \<noteq> t then Inl BadTarget
      else if le_value (sha256d_hash (header_ser h)) \<le> u256_val t then Inr (sha256d_hash (header_ser h)) else Inl BadProofOfWork)"
    by (auto simp: validate_pow_def header_target_def block_hash_eq)
qed (simp_all add: header_encode_wrote block_hash_eq)

theorem header_proof_of_work_witness:
  "validate_pow sample_header u256_MAX = Some (Inl BadTarget)"
proof -
  have "from_compact (block_bits sample_header) \<noteq> u256_MAX"
    by (simp add: sample_header_def from_compact_def u256_MAX_def wrapping_shl_def u256_from_def Let_def)
  then show ?thesis using header_proof_of_work [OF sample_header_wf, of u256_MAX] by auto
qed

lemma clamp_above: "\<lbrakk>lo \<le> hi; hi \<le> x\<rbrakk> \<Longrightarrow> clamp_u64 x lo hi = clamp_u64 hi lo hi"
  by (auto simp: clamp_u64_def)

text \<open>
  Times that run backwards: when the current header is earlier than the one that opened the period, by up to
  the whole range of the clock less the longest period, the wrapped difference counts as the longest period,
  so that the target rises as far as the rules allow instead of falling.
\<close>

theorem backwards_time_lowers_difficulty:
  assumes "block_time current < block_time first" and "unat (block_time first - block_time current) \<le> 2 ^ 32 - 1209600"
  shows "from_header_difficulty_adjustment first current MAINNET = from_next_work_required (block_bits current) 1209600 MAINNET"
proof -
  have "unat (block_time current - block_time first) = 2 ^ 32 - unat (block_time first - block_time current)"
    using assms(1) unat_less_exp [of "block_time first"] by (simp add: unat_sub_if' word_less_nat_alt)
  then have "1209600 \<le> unat (ucast (block_time current - block_time first) :: u64)"
    using assms(2) by (simp add: unat_ucast)
  then have t: "(1209600 :: u64) \<le> ucast (block_time current - block_time first)" by (simp add: word_le_nat_alt)
  show ?thesis
    using clamp_above [of 75600 1209600, OF _ t]
    by (simp add: from_header_difficulty_adjustment_def from_next_work_required_def MAINNET_def)
qed

theorem backwards_time_witness:
  "from_header_difficulty_adjustment (sample_header\<lparr>block_time := 1317972666\<rparr>) sample_header MAINNET
    = from_next_work_required 0x1e0ffff0 1209600 MAINNET"
  using backwards_time_lowers_difficulty [of sample_header "sample_header\<lparr>block_time := 1317972666\<rparr>"]
  by (simp add: sample_header_def)

text \<open>
  A version signals for a soft fork at a bit exactly when the bit is one of the lowest 29, is set, and the top
  three bits of the version are \<open>001\<close>.
\<close>

theorem soft_fork_signalling:
  "is_signalling_soft_fork v n \<longleftrightarrow> unat n \<le> 28 \<and> bit v (unat n) \<and> drop_bit 29 v = 1"
proof -
  have k: "VERSION_BITS_MASK = mask 29" by (simp add: VERSION_BITS_MASK_def mask_eq_exp_minus_1)
  have p: "v AND NOT (mask 29) = push_bit 29 (drop_bit 29 v)" by (rule bit_eqI) (auto simp: bit_simps)
  have q: "drop_bit 29 (v AND NOT (mask 29)) = drop_bit 29 v"
    by (rule bit_eqI) (auto simp: bit_simps dest: bit_imp_le_length)
  have "v AND NOT (mask 29) = USE_VERSION_BITS \<longleftrightarrow> drop_bit 29 v = 1"
  proof
    assume "v AND NOT (mask 29) = USE_VERSION_BITS"
    then show "drop_bit 29 v = 1" using q by (simp add: USE_VERSION_BITS_def)
  qed (simp add: p USE_VERSION_BITS_def)
  moreover have "0 < (v AND mask 29) AND push_bit j 1 \<longleftrightarrow> bit v j" if "j \<le> 28" for j
    using that by (auto simp: word_gt_0 push_bit_of_1 and_exp_eq_0_iff_not_bit bit_simps)
  moreover have "28 < n \<longleftrightarrow> \<not> unat n \<le> 28" by (auto simp: word_less_nat_alt)
  ultimately show ?thesis unfolding is_signalling_soft_fork_def k by auto
qed

section \<open>Properties of blocks\<close>

definition sample_block :: "u8 Block" where
  "sample_block = \<lparr> header = sample_header, txdata = [sample_tx], ext_block = None \<rparr>"

lemma sample_block_wf: "block_wf sample_block"
  by (simp add: sample_block_def block_wf_def sample_header_wf vec_wf_def sample_tx_wf)

text \<open>
  C2: A well-formed block, with an extension block or without, is written and read back with whatever follows. A
  block without extension-block data is accepted from its serialisation only.
\<close>

theorem block_roundtrip:
  fixes K :: "'k key_ops"
  assumes "key_laws K" and "block_wf b"
  shows "\<exists>bs. block_encode K b = wrote bs \<and> block_decode K (bs @ r) = Inr (b, r) \<and>
    (list_all (\<lambda>tx. \<not> has_mweb tx) (txdata b) \<longrightarrow> (\<forall>s. block_decode K s = Inr (b, r) \<longleftrightarrow> s = bs @ r))"
proof (intro exI conjI impI allI)
  show "block_encode K b = wrote (block_ser K 1 b)" by (rule block_encode_wrote [OF assms])
  show d: "block_decode K (block_ser K 1 b @ r) = Inr (b, r)" by (rule block_decode_ser [OF assms]) simp
  fix s assume "list_all (\<lambda>tx. \<not> has_mweb tx) (txdata b)"
  then show "block_decode K s = Inr (b, r) \<longleftrightarrow> s = block_ser K 1 b @ r"
    using plain_block_canonical [OF assms(1)] d by blast
qed

theorem block_roundtrip_witness:
  "\<exists>bs. block_encode byte_keys sample_block = wrote bs \<and> (\<forall>s. block_decode byte_keys s = Inr (sample_block, []) \<longleftrightarrow> s = bs)"
  using block_roundtrip [OF key_laws_byte_keys sample_block_wf, of "[]"]
  by (auto simp: sample_block_def sample_tx_def)

text \<open>
  The extension block is written only where the version bit and a last HogEx transaction announce it; a block
  that holds one elsewhere loses it, and on reading any non-zero presence byte announces one.
\<close>

theorem extension_block_encoding:
  fixes K :: "'k key_ops"
  assumes "key_laws K"
  shows "(if block_carries_mweb (block_version (header b)) (txdata b) then True
      else block_encode K b = block_encode K (b\<lparr>ext_block := None\<rparr>)) \<and>
    (block_wf b \<longrightarrow> p \<noteq> 0 \<longrightarrow> block_decode K (block_ser K p b) = Inr (b, []))"
  using block_decode_ser [OF assms, of b p "[]"] by (auto simp: block_encode_def)

definition sample_mweb_block :: "u8 Block" where
  "sample_mweb_block = \<lparr> header = sample_header, txdata = [sample_tx, sample_tx\<lparr>is_hog_ex := True\<rparr>],
     ext_block = Some \<lparr> mb_header = \<lparr> mweb_height = 5, output_root = replicate 32 1, kernel_root = replicate 32 2,
         leafset_root = replicate 32 3, hdr_kernel_offset = replicate 32 4, hdr_stealth_offset = replicate 32 5,
         output_mmr_size = 6, kernel_mmr_size = 7 \<rparr>,
       mb_tx_body = \<lparr> body_inputs = [], body_outputs = [], body_kernels = [] \<rparr> \<rparr> \<rparr>"

lemma sample_mweb_block_wf: "block_wf sample_mweb_block"
proof -
  have "tx_wf (sample_tx\<lparr>is_hog_ex := True\<rparr>)"
    using sample_tx_wf by (simp add: sample_tx_def tx_wf_def)
  then show ?thesis
    by (simp add: sample_mweb_block_def block_wf_def sample_header_wf vec_wf_def sample_tx_wf mweb_block_wf_def
        mweb_header_wf_def tx_body_wf_def block_carries_mweb_def MWEB_VERSION_BIT_def sample_header_def)
      (simp add: sample_tx_def sample_header_wf [unfolded sample_header_def])
qed

theorem extension_block_encoding_witness:
  "block_decode byte_keys (block_ser byte_keys 200 sample_mweb_block) = Inr (sample_mweb_block, [])"
  using extension_block_encoding [OF key_laws_byte_keys, of sample_mweb_block 200] sample_mweb_block_wf by simp

text \<open>
  C10: The Merkle root commits a header to the transactions: two blocks that pass the check under headers with the
  same root and have the same number of transactions hold the same transaction identifiers in the same order,
  or two different pairs of nodes of their trees have the same hash.
\<close>

theorem block_commits_to_transactions:
  fixes a b :: "'k Block"
  assumes "check_merkle_root a = Some True" and "check_merkle_root b = Some True"
    and "merkle_root (header a) = merkle_root (header b)" and "length (txdata a) = length (txdata b)"
  shows "map compute_txid (txdata a) = map compute_txid (txdata b) \<or>
    (\<exists>xs ys. map Some xs = map compute_txid (txdata a) \<and> map Some ys = map compute_txid (txdata b) \<and>
       level_collision parent_hash xs ys)"
proof -
  let ?ids = "\<lambda>c. map (\<lambda>tx. sha256d_hash (base_ser tx)) (txdata c)"
  have "calculate_root parent_hash (?ids c) = Some (merkle_root (header c))" if "check_merkle_root c = Some True" for c :: "'k Block"
    using that by (auto simp: check_merkle_root_def compute_merkle_root_eq split: option.splits)
  then have "calculate_root parent_hash (?ids a) = calculate_root parent_hash (?ids b)" using assms(1-3) by metis
  then have "merkle_root_r parent_hash (?ids a) = merkle_root_r parent_hash (?ids b)"
    using assms(4) by (cases "txdata a"; cases "txdata b") (simp_all add: calculate_root_eq)
  then have "?ids a = ?ids b \<or> level_collision parent_hash (?ids a) (?ids b)"
    using merkle_root_r_inject [of parent_hash "?ids a" "?ids b"] assms(4) by fastforce
  moreover have ids: "map compute_txid (txdata c) = map Some (?ids c)" for c :: "'k Block" by (simp add: compute_txid_total)
  ultimately show ?thesis unfolding ids by (elim disjE) (rule disjI1, simp, intro disjI2 exI conjI refl)
qed

theorem block_commits_witness:
  "let b = sample_block\<lparr>header := sample_header\<lparr>merkle_root := sha256d_hash (base_ser sample_tx)\<rparr>\<rparr> in
    map compute_txid (txdata b) = map compute_txid (txdata b) \<or>
    (\<exists>xs ys. map Some xs = map compute_txid (txdata b) \<and> map Some ys = map compute_txid (txdata b) \<and>
       level_collision parent_hash xs ys)"
proof -
  let ?b = "sample_block\<lparr>header := sample_header\<lparr>merkle_root := sha256d_hash (base_ser sample_tx)\<rparr>\<rparr>"
  have "check_merkle_root ?b = Some True"
    by (simp add: check_merkle_root_def compute_merkle_root_eq sample_block_def calculate_root_def)
  then show ?thesis using block_commits_to_transactions [of ?b ?b] by simp
qed

text \<open>
  The sizes of a block are sums over its transactions. The total size is the length of the serialisation of a
  block without extension-block data; the extension block, its presence byte and the extension data of
  transactions are not counted. The weight counts the base size three times more.
\<close>

theorem block_sizes:
  fixes K :: "'k key_ops"
  assumes "key_laws K" and "block_wf b"
  shows "\<exists>bs t. block_encode K b = wrote bs \<and> block_total_size b = Some t \<and>
    t + sum_list (map (mweb_bytes K) (txdata b)) + length (extension_ser K 1 b) = length bs \<and>
    (list_all (\<lambda>tx. \<not> has_mweb tx) (txdata b) \<longrightarrow> t = length bs) \<and>
    block_base_size b = 80 + size_of_len (length (txdata b)) + sum_list (map (\<lambda>tx. length (base_ser tx)) (txdata b)) \<and>
    block_weight b = Some (of_nat (3 * block_base_size b + t))"
proof -
  let ?txs = "txdata b" and ?bs = "block_ser K 1 b"
  have wf: "list_all tx_wf ?txs" "header_wf (header b)" using assms(2) by (auto simp: block_wf_def vec_wf_def)
  define t where "t = HEADER_SIZE + size_of_len (length ?txs) + sum_list (map (\<lambda>tx. length (tx_ser K tx) - mweb_bytes K tx) ?txs)"
  have t: "block_total_size b = Some t" by (simp add: block_total_size_def sum_length_tx [OF wf(1), of K] t_def)
  have "sum_list (map (\<lambda>tx. length (tx_ser K tx) - mweb_bytes K tx) ?txs) + sum_list (map (mweb_bytes K) ?txs)
      = sum_list (map (\<lambda>tx. length (tx_ser K tx)) ?txs)"
    using wf(1) length_tx_ser(2) [of _ K] by (induction ?txs) (auto simp: sum_list_addf [symmetric] list_all_iff intro!: arg_cong [of _ _ sum_list])
  then have len: "t + sum_list (map (mweb_bytes K) ?txs) + length (extension_ser K 1 b) = length ?bs"
    by (simp add: t_def block_ser_def length_header_ser [OF wf(2)] length_vec_ser)
  moreover have "t = length ?bs" if plain: "list_all (\<lambda>tx. \<not> has_mweb tx) ?txs"
  proof -
    have "sum_list (map (mweb_bytes K) ?txs) = 0" using plain by (auto simp: list_all_iff mweb_bytes_def)
    moreover have "length (extension_ser K 1 b) = 0"
      using plain last_in_set [of ?txs]
      by (cases ?txs) (auto simp: extension_ser_def block_carries_mweb_def list_all_iff)
    ultimately show ?thesis using len by linarith
  qed
  moreover have "sum_list (map tx_base_size ?txs) = sum_list (map (\<lambda>tx. length (base_ser tx)) ?txs)"
    using wf(1) by (intro arg_cong [of _ _ sum_list]) (auto simp: list_all_iff length_base_ser)
  ultimately show ?thesis
    using block_encode_wrote [OF assms] t
    by (auto simp: block_base_size_def HEADER_SIZE_def block_weight_def from_wu_usize_def mult.commute)
qed

theorem block_sizes_witness: "\<exists>bs. block_encode byte_keys sample_block = wrote bs \<and> block_total_size sample_block = Some (length bs)"
  using block_sizes [OF key_laws_byte_keys sample_block_wf] by (auto simp: sample_block_def sample_tx_def)

text \<open>
  The height of a block is read back from a coinbase script that starts with what \<open>push_int\<close> writes for it,
  except for the heights 1 to 16, which \<open>push_int\<close> writes as a single opcode: the block is then reported to
  have no height.
\<close>

theorem bip34_reads_height:
  assumes "0 \<le> h" and "h < 2 ^ 31" and "push_int builder_new h = Some pushed"
    and "2 \<le> sint (block_version (header b))" and "txdata b = cb # txs" and "tx_input cb = i # is"
    and "script_sig i = b_script pushed @ rest'"
  shows "bip34_block_height b = (if 1 \<le> h \<and> h \<le> 16 then Inl NotPresent else Inr (word_of_int h))"
proof -
  have h: "\<bar>h\<bar> < 2 ^ 31" using assms(1,2) by simp
  have p: "b_script pushed = instr_ser (int_instruction h)"
    using push_int_ser [OF h, of builder_new] assms(3) by (auto simp: builder_new_def)
  have "instructions True (instr_ser (int_instruction h)) = [Inr (int_instruction h)]"
    using instructions_ser [of True "[int_instruction h]"] int_instruction_wf [OF h] by simp
  then have s: "instructions True (script_sig i) = Inr (int_instruction h) # instructions True rest'"
    using instructions_append [of True _ "[int_instruction h]"] assms(7) p by simp
  obtain d where d: "write_scriptint h = Some d" "read_scriptint d = Inr h" using write_scriptint_short [OF h] .
  show ?thesis
    using assms(1,4-6) s d by (auto simp: bip34_block_height_def block_coinbase_def int_instruction_def has_opcode_def)
qed

theorem bip34_reads_height_witness:
  "bip34_block_height (sample_block\<lparr>txdata := [sample_tx\<lparr>tx_input :=
     [hd (tx_input sample_tx)\<lparr>script_sig := [0x03, 0xa0, 0x86, 0x01, 0x51]\<rparr>]\<rparr>]\<rparr>) = Inr 100000"
proof -
  have "read_scriptint [0xa0, 0x86, 0x01] = Inr 100000" by (simp add: read_scriptint_def scriptint_parse_def)
  then have p: "push_int builder_new 100000 = Some \<lparr> b_script = [0x03, 0xa0, 0x86, 0x01], b_last = None \<rparr>"
    by (simp add: read_scriptint_write push_int_def push_int_non_minimal_def push_slice_def push_slice_no_opt_def builder_new_def)
  show ?thesis
    using bip34_reads_height [OF _ _ p, of "sample_block\<lparr>txdata := [sample_tx\<lparr>tx_input :=
     [hd (tx_input sample_tx)\<lparr>script_sig := [0x03, 0xa0, 0x86, 0x01, 0x51]\<rparr>]\<rparr>]\<rparr>" _ _ _ _ "[0x51]"]
    by (simp add: sample_block_def sample_header_def)
qed

lemma witness_leaves_Cons: "witness_leaves K (tx # txs) = Some (replicate 32 0) # map (compute_wtxid K) txs"
proof -
  have later: "map (\<lambda>(i, t). if i = 0 then Some (replicate 32 0) else compute_wtxid K t) (zip [Suc k..<Suc k + length ts] ts)
      = map (compute_wtxid K) ts" for k and ts
  proof (induction ts arbitrary: k)
    case (Cons t ts)
    have "[Suc k..<Suc k + length (t # ts)] = Suc k # [Suc (Suc k)..<Suc (Suc k) + length ts]"
      by (simp add: upt_conv_Cons del: upt_Suc)
    then show ?case using Cons.IH [of "Suc k"] by (simp del: upt_Suc)
  qed simp
  have "[0..<length (tx # txs)] = 0 # [Suc 0..<Suc 0 + length txs]" by (simp add: upt_conv_Cons del: upt_Suc)
  then show ?thesis using later [of 0 txs] by (simp add: witness_leaves_def del: upt_Suc)
qed

abbreviation has_witness :: "'k Block \<Rightarrow> bool" where
  "has_witness b \<equiv> \<not> list_all (\<lambda>t. list_all witness_is_empty (tx_input t)) (txdata b)"

lemma witness_check_parts:
  assumes "check_witness_commitment K b = Some True" and "has_witness b"
  obtains p reserved root where "commitment_position (tx_output (txdata b ! 0)) = Some p"
    "to_vec (txin_witness (tx_input (txdata b ! 0) ! 0)) = Some [reserved]" "witness_root K b = Some (Some root)"
    "take 32 (drop 6 (script_pubkey (tx_output (txdata b ! 0) ! p))) = compute_witness_commitment root reserved"
    "txdata b \<noteq> []"
  using assms unfolding check_witness_commitment_def Let_def
  by (auto simp: bind_eq_Some_conv length_Suc_conv split: if_splits option.splits)

text \<open>
  C11: The witness commitment: when two blocks that both contain a witness, with the same coinbase and the same number
  of transactions, pass the check, their other transactions have the same witness identifiers in the same order,
  unless two different witness roots have the same commitment or two pairs of nodes of the trees collide. A block
  without any witness passes the check whatever its coinbase says.
\<close>

theorem witness_commitment_commits:
  fixes a b :: "'k Block"
  assumes "check_witness_commitment K a = Some True" and "check_witness_commitment K b = Some True"
    and "has_witness a" and "has_witness b" and "txdata a ! 0 = txdata b ! 0" and "length (txdata a) = length (txdata b)"
  shows "(map (compute_wtxid K) (tl (txdata a)) = map (compute_wtxid K) (tl (txdata b)) \<or>
    (\<exists>ra rb reserved. ra \<noteq> rb \<and> witness_root K a = Some (Some ra) \<and> witness_root K b = Some (Some rb) \<and>
       compute_witness_commitment ra reserved = compute_witness_commitment rb reserved) \<or>
    (\<exists>xs ys. map Some xs = witness_leaves K (txdata a) \<and> map Some ys = witness_leaves K (txdata b) \<and>
       level_collision parent_hash xs ys))
   \<and> (has_witness c \<or> check_witness_commitment K c = Some True)" (is "?commits \<and> ?free")
proof
  show ?free by (auto simp: check_witness_commitment_def)
  obtain p r ra where a: "commitment_position (tx_output (txdata a ! 0)) = Some p"
    "to_vec (txin_witness (tx_input (txdata a ! 0) ! 0)) = Some [r]" "witness_root K a = Some (Some ra)"
    "take 32 (drop 6 (script_pubkey (tx_output (txdata a ! 0) ! p))) = compute_witness_commitment ra r" "txdata a \<noteq> []"
    using witness_check_parts [OF assms(1,3)] .
  obtain q s rb where b: "commitment_position (tx_output (txdata b ! 0)) = Some q"
    "to_vec (txin_witness (tx_input (txdata b ! 0) ! 0)) = Some [s]" "witness_root K b = Some (Some rb)"
    "take 32 (drop 6 (script_pubkey (tx_output (txdata b ! 0) ! q))) = compute_witness_commitment rb s" "txdata b \<noteq> []"
    using witness_check_parts [OF assms(2,4)] .
  have c: "compute_witness_commitment ra r = compute_witness_commitment rb r" using a b assms(5) by simp
  show ?commits
  proof (cases "ra = rb")
    case True
    obtain xs ys where l: "map Some xs = witness_leaves K (txdata a)" "calculate_root parent_hash xs = Some ra"
      "map Some ys = witness_leaves K (txdata b)" "calculate_root parent_hash ys = Some ra"
      using a(3) b(3) True by (auto simp: witness_root_def those_Some_iff)
    have "length xs = length (witness_leaves K (txdata a))" "length ys = length (witness_leaves K (txdata b))"
      unfolding l(1,3) [symmetric] by simp_all
    then have "length xs = length ys" using assms(6) by (simp add: witness_leaves_def)
    moreover have "merkle_root_r parent_hash xs = merkle_root_r parent_hash ys"
      using l(2,4) by (auto simp: calculate_root_eq split: if_splits)
    ultimately have "xs = ys \<or> level_collision parent_hash xs ys" using merkle_root_r_inject by blast
    moreover have "map (compute_wtxid K) (tl (txdata a)) = map (compute_wtxid K) (tl (txdata b))" if "xs = ys"
      using l(1,3) that a(5) b(5) by (cases "txdata a"; cases "txdata b") (auto simp: witness_leaves_Cons)
    ultimately show ?commits using l(1,3) by blast
  next
    case False
    then show ?commits using a(3) b(3) c by blast
  qed
qed

definition committed_coinbase :: "u8 Transaction" where
  "committed_coinbase = sample_tx\<lparr>tx_input := [\<lparr> previous_output = outpoint_null, script_sig = [0x51], sequence = 0,
       txin_witness = witness_of [replicate 32 0] \<rparr>],
     tx_output := [\<lparr> txout_value = 0,
       script_pubkey = WITNESS_MAGIC @ compute_witness_commitment (replicate 32 0) (replicate 32 0) \<rparr>]\<rparr>"

theorem witness_commitment_commits_witness:
  "let b = \<lparr> header = sample_header, txdata = [committed_coinbase], ext_block = None \<rparr> in
    check_witness_commitment byte_keys b = Some True \<and>
    (map (compute_wtxid byte_keys) (tl (txdata b)) = map (compute_wtxid byte_keys) (tl (txdata b)) \<or>
    (\<exists>ra rb reserved. ra \<noteq> rb \<and> witness_root byte_keys b = Some (Some ra) \<and> witness_root byte_keys b = Some (Some rb) \<and>
       compute_witness_commitment ra reserved = compute_witness_commitment rb reserved) \<or>
    (\<exists>xs ys. map Some xs = witness_leaves byte_keys (txdata b) \<and> map Some ys = witness_leaves byte_keys (txdata b) \<and>
       level_collision parent_hash xs ys))"
proof -
  let ?b = "\<lparr> header = sample_header, txdata = [committed_coinbase], ext_block = None \<rparr>"
  let ?s = "WITNESS_MAGIC @ compute_witness_commitment (replicate 32 0) (replicate 32 0)"
  have wr: "witness_root byte_keys ?b = Some (Some (replicate 32 0))"
    by (simp add: witness_root_def witness_leaves_Cons calculate_root_def)
  have st: "stack_wf [replicate 32 0]" by (simp add: stack_wf_def length_bytes_ser varint_size_def)
  have w: "to_vec (txin_witness (tx_input committed_coinbase ! 0)) = Some [replicate 32 0]"
    using to_vec_eq [OF st] by (simp add: committed_coinbase_def)
  have e: "has_witness ?b" by (simp add: committed_coinbase_def witness_of_def)
  have s: "38 \<le> length ?s" "take 6 ?s = WITNESS_MAGIC" "take 32 (drop 6 ?s) = compute_witness_commitment (replicate 32 0) (replicate 32 0)"
    by (simp_all add: WITNESS_MAGIC_def compute_witness_commitment_def length_sha256d_hash)
  then have p: "commitment_position (tx_output committed_coinbase) = Some 0"
    by (simp add: commitment_position_def committed_coinbase_def)
  have "check_witness_commitment byte_keys ?b = Some True"
    using e p w wr s by (simp add: check_witness_commitment_def Let_def)
      (simp add: committed_coinbase_def is_coinbase_def is_null_def)
  then show ?thesis using witness_commitment_commits [of byte_keys ?b ?b] e by (simp add: Let_def)
qed

section \<open>Properties of the genesis blocks\<close>

definition genesis_script_sig :: bytes where
  "genesis_script_sig = [
     0x04, 0xff, 0xff, 0x00, 0x1d, 0x01, 0x04, 0x40, 0x4e, 0x59, 0x20, 0x54, 0x69, 0x6d, 0x65, 0x73, 0x20,
     0x30, 0x35, 0x2f, 0x4f, 0x63, 0x74, 0x2f, 0x32, 0x30, 0x31, 0x31, 0x20, 0x53, 0x74, 0x65, 0x76, 0x65,
     0x20, 0x4a, 0x6f, 0x62, 0x73, 0x2c, 0x20, 0x41, 0x70, 0x70, 0x6c, 0x65, 0xe2, 0x80, 0x99, 0x73, 0x20,
     0x56, 0x69, 0x73, 0x69, 0x6f, 0x6e, 0x61, 0x72, 0x79, 0x2c, 0x20, 0x44, 0x69, 0x65, 0x73, 0x20, 0x61,
     0x74, 0x20, 0x35, 0x36]"

lemma genesis_in_script:
  "Option.bind (push_int builder_new 486604799) (\<lambda>b. Option.bind (push_int_non_minimal b 4) (\<lambda>b. push_slice b genesis_headline))
    = Some \<lparr> b_script = genesis_script_sig, b_last = None \<rparr>"
proof -
  have "read_scriptint [0xff, 0xff, 0x00, 0x1d] = Inr 486604799" "read_scriptint [0x04] = Inr 4"
    by (simp_all add: read_scriptint_def scriptint_parse_def)
  then show ?thesis
    by (simp add: read_scriptint_write push_int_def push_int_non_minimal_def push_slice_def push_slice_no_opt_def builder_new_def
        genesis_headline_def genesis_script_sig_def)
qed

lemma genesis_out_script:
  "push_slice builder_new GENESIS_OUTPUT_PK = Some \<lparr> b_script = 0x41 # GENESIS_OUTPUT_PK, b_last = None \<rparr>"
  by (simp add: push_slice_def push_slice_no_opt_def builder_new_def GENESIS_OUTPUT_PK_def)

definition genesis_transaction :: "'k Transaction" where
  "genesis_transaction = \<lparr> version = 1, lock_time = Blocks 0,
     tx_input = [\<lparr> previous_output = outpoint_null, script_sig = genesis_script_sig, sequence = SEQUENCE_MAX,
                   txin_witness = witness_new \<rparr>],
     tx_output = [\<lparr> txout_value = 5000000000, script_pubkey = (0x41 # GENESIS_OUTPUT_PK) @ [OP_CHECKSIG] \<rparr>],
     mw_tx = None, is_hog_ex = False \<rparr>"

lemma genesis_tx_eq: "genesis_tx = Some genesis_transaction"
proof -
  obtain b1 b2 where "push_int builder_new 486604799 = Some b1" "push_int_non_minimal b1 4 = Some b2"
    "push_slice b2 genesis_headline = Some \<lparr> b_script = genesis_script_sig, b_last = None \<rparr>"
    using genesis_in_script by (auto simp: bind_eq_Some_conv)
  then show ?thesis
    by (simp add: genesis_tx_def genesis_out_script push_opcode_def genesis_transaction_def Let_def)
qed

lemma genesis_transaction_wf: "tx_wf genesis_transaction"
  by (simp add: genesis_transaction_def tx_wf_def vec_wf_def txin_base_wf_def txout_wf_def bytes_wf_def locktime_wf_def
      is_block_height_value_def LOCK_TIME_THRESHOLD_def outpoint_null_def genesis_script_sig_def GENESIS_OUTPUT_PK_def)

lemma genesis_targets:
  "from_compact (fst (snd (genesis_fields net))) \<le> max_attainable_target (params_new net)"
  by (cases net) (simp_all add: from_compact_def Let_def wrapping_shl_def u256_from_def less_eq_U256_def MAINNET_def
      TESTNET4_def SIGNET_def REGTEST_def MAX_ATTAINABLE_MAINNET_def MAX_ATTAINABLE_TESTNET_def
      MAX_ATTAINABLE_REGTEST_def MAX_ATTAINABLE_SIGNET_def)

text \<open>
  The genesis block of every network is built, is well formed, so that it is written and read back, passes the
  checks of its Merkle root and witness commitment, and has a target within the limit of its network.
\<close>

theorem genesis_blocks_valid:
  "\<exists>b :: 'k Block. genesis_block (params_new net) = Some b \<and> block_wf b \<and> check_merkle_root b = Some True \<and>
     check_witness_commitment K b = Some True \<and> map is_coinbase (txdata b) = [True] \<and>
     header_target (header b) \<le> max_attainable_target (params_new net)"
proof -
  obtain t bits n where f: "genesis_fields net = (t, bits, n)" by (cases "genesis_fields net")
  have net: "network (params_new net) = net"
    by (cases net) (simp_all add: MAINNET_def TESTNET4_def SIGNET_def REGTEST_def)
  let ?tx = "genesis_transaction :: 'k Transaction"
  let ?b = "\<lparr> header = \<lparr> block_version = 1, prev_blockhash = replicate 32 0, merkle_root = sha256d_hash (base_ser ?tx),
       block_time = t, block_bits = bits, nonce = n \<rparr>, txdata = [?tx], ext_block = None \<rparr>"
  have "genesis_block (params_new net) = Some ?b" by (simp add: genesis_block_def genesis_tx_eq compute_txid_total f net)
  moreover have "block_wf ?b"
    by (simp add: block_wf_def header_wf_def length_sha256d_hash vec_wf_def genesis_transaction_wf)
  moreover have "check_merkle_root ?b = Some True"
    by (simp add: check_merkle_root_def compute_merkle_root_eq calculate_root_def)
  moreover have "check_witness_commitment K ?b = Some True" "is_coinbase ?tx"
    by (simp_all add: check_witness_commitment_def genesis_transaction_def witness_new_def is_coinbase_def is_null_def)
  moreover have "header_target (header ?b) \<le> max_attainable_target (params_new net)"
    using genesis_targets [of net] f by (simp add: header_target_def)
  ultimately show ?thesis by (intro exI [of _ ?b]) simp
qed

section \<open>Properties of Merkle blocks\<close>

definition merkle_block_wf :: "merkle_block \<Rightarrow> bool" where
  "merkle_block_wf m \<longleftrightarrow> header_wf (mk_header m) \<and> pmt_wf (mk_txn m) \<and> 8 dvd length (pmt_bits (mk_txn m)) \<and>
     length (pmt_ser (mk_txn m)) \<le> MAX_VEC_SIZE"

definition merkle_block_ser :: "merkle_block \<Rightarrow> bytes" where
  "merkle_block_ser m = header_ser (mk_header m) @ pmt_ser (mk_txn m)"

interpretation merkle_block: canonical_codec merkle_block_encode merkle_block_decode merkle_block_wf merkle_block_ser
proof (rule canonical_codecI)
  show "merkle_block_encode m = wrote (merkle_block_ser m)" if "merkle_block_wf m" for m
    using that by (simp add: merkle_block_encode_def merkle_block_ser_def merkle_block_wf_def header_encode_wrote pmt_encode_ser)
  show "merkle_block_decode r = Inr (m, r') \<longleftrightarrow> merkle_block_wf m \<and> r = merkle_block_ser m @ r'" for r m r'
    unfolding merkle_block_decode_def limited_def dbind_Inr_iff canonical_codec.dec_iff [OF header.limited_canonical]
      canonical_codec.dec_iff [OF pmt.limited_canonical] dreturn_apply merkle_block_wf_def merkle_block_ser_def
    by (cases m) (auto simp: length_header_ser HEADER_SIZE_def MAX_VEC_SIZE_def)
qed

lemma pmt_ser_pad: "pmt_wf t \<Longrightarrow> pmt_wf (pad_bits t) \<and> 8 dvd length (pmt_bits (pad_bits t)) \<and> pmt_ser (pad_bits t) = pmt_ser t"
  using pmt_decode_canonical [OF pmt_decode_ser [of t "[]"]] by simp

text \<open>
  C4: The journey of a Merkle block: for a block of at most 16666 transactions whose header is well formed and carries
  its Merkle root and whose transaction identifiers are distinct, the Merkle block for any predicate is built, written, read back, and gives exactly
  the transaction identifiers that satisfy the predicate, with their positions and without an error, unless two
  nodes of the tree collide.
\<close>

theorem merkle_block_roundtrip:
  fixes b :: "'k Block"
  assumes "header_wf (header b)" and "check_merkle_root b = Some True" and "map Some txids = map compute_txid (txdata b)"
    and "length txids \<le> 16666" and "distinct txids"
  shows "tree_collision (of_nat (length txids)) txids \<or>
    (\<exists>m bs m'. from_block_with_predicate b f = Some m \<and> serialize merkle_block_encode m = Inr bs \<and>
       deserialize merkle_block_decode bs = Inr m' \<and>
       merkle_block_extract_matches m' = (Inr (), filter f txids, filter (\<lambda>i. f (txids ! i)) [0..<length txids]))"
proof (cases "tree_collision (of_nat (length txids)) txids")
  case False
  let ?t = "built_tree (of_nat (length txids)) txids (map f txids) 0"
  let ?m = "\<lparr> mk_header = header b, mk_txn = ?t \<rparr>" and ?m' = "\<lparr> mk_header = header b, mk_txn = pad_bits ?t \<rparr>"
  have ids: "txids = map (\<lambda>tx. sha256d_hash (base_ser tx)) (txdata b)"
  proof -
    have "map Some txids = map Some (map (\<lambda>tx. sha256d_hash (base_ser tx)) (txdata b))"
      using assms(3) by (simp add: compute_txid_total)
    then show ?thesis by (simp only: inj_map_eq_map [of Some] inj_Some)
  qed
  have root: "calculate_root parent_hash txids = Some (merkle_root (header b))"
    using assms(2) by (auto simp: check_merkle_root_def compute_merkle_root_eq ids split: option.splits)
  then have ne: "txids \<noteq> []" by (auto simp: calculate_root_def)
  have "list_all (\<lambda>txid. length txid = 32) txids" by (simp add: ids list_all_iff length_sha256d_hash)
  note built = built_roundtrip [OF ne assms(4) length_map this assms(5) False, of f]
  have sel: "filter ((!) (map f txids)) [0..<length txids] = filter (\<lambda>i. f (txids ! i)) [0..<length txids]"
    by (rule filter_cong) auto
  have "map ((!) txids) (filter (\<lambda>i. f (txids ! i)) [0..<length txids]) = filter f (map ((!) txids) [0..<length txids])"
    by (simp add: filter_map comp_def)
  then have mt: "map ((!) txids) (filter (\<lambda>i. f (txids ! i)) [0..<length txids]) = filter f txids" by (simp add: map_nth)
  have wf: "merkle_block_wf ?m'" using built pmt_ser_pad [of ?t] assms(1) by (simp add: merkle_block_wf_def)
  have "from_block_with_predicate b f = Some ?m"
    using built those_Some_iff [THEN iffD2, OF assms(3) [symmetric]]
    by (simp add: from_block_with_predicate_def from_header_txids_with_predicate_def)
  moreover have "merkle_block_encode ?m = wrote (merkle_block_ser ?m')"
    using built pmt_ser_pad [of ?t]
    by (simp add: merkle_block_encode_def merkle_block_ser_def header_encode_wrote pmt_encode_ser)
  then have "serialize merkle_block_encode ?m = Inr (merkle_block_ser ?m')"
    by (simp add: serialize_def) (simp add: wrote_def)
  moreover have "deserialize merkle_block_decode (merkle_block_ser ?m') = Inr ?m'" by (rule merkle_block.deserialize_ser [OF wf])
  moreover have "merkle_block_extract_matches ?m' =
      (Inr (), filter f txids, filter (\<lambda>i. f (txids ! i)) [0..<length txids])"
    using built root by (simp add: merkle_block_extract_matches_def sel mt)
  ultimately show ?thesis by blast
qed simp

definition rooted_block :: "u8 Block" where
  "rooted_block = sample_block\<lparr>header := sample_header\<lparr>merkle_root := sha256d_hash (base_ser sample_tx)\<rparr>\<rparr>"

lemma rooted_block_ok: "check_merkle_root rooted_block = Some True" "header_wf (header rooted_block)"
  "map compute_txid (txdata rooted_block) = [Some (sha256d_hash (base_ser sample_tx))]"
  by (simp_all add: rooted_block_def check_merkle_root_def compute_merkle_root_eq sample_block_def calculate_root_def
      header_wf_def sample_header_def length_sha256d_hash compute_txid_total)

theorem merkle_block_roundtrip_witness:
  "let id = sha256d_hash (base_ser sample_tx) in tree_collision 1 [id] \<or>
    (\<exists>m bs m'. from_block_with_predicate rooted_block (\<lambda>x. x = id) = Some m \<and> serialize merkle_block_encode m = Inr bs \<and>
       deserialize merkle_block_decode bs = Inr m' \<and> merkle_block_extract_matches m' = (Inr (), [id], [0]))"
  using merkle_block_roundtrip [OF rooted_block_ok(2,1), of "[sha256d_hash (base_ser sample_tx)]" "\<lambda>x. x = sha256d_hash (base_ser sample_tx)"]
  by (simp add: rooted_block_ok(3) Let_def)

text \<open>
  C3: A Merkle block that is accepted shows only transactions of the block: when its header has the Merkle root of
  the block and the count of transactions is right, the extracted identifiers stand in the block at the
  extracted, increasing, positions, unless a forged pair of nodes was hashed.
\<close>

theorem merkle_block_sound:
  fixes b :: "'k Block"
  assumes "merkle_block_extract_matches m = (Inr (), ms, is)" and "check_merkle_root b = Some True"
    and "merkle_root (mk_header m) = merkle_root (header b)" and "map Some txids = map compute_txid (txdata b)"
    and "num_transactions (mk_txn m) = of_nat (length txids)" and "length txids < 2 ^ 32"
  shows "forged_node (mk_txn m) txids \<or> (sorted_wrt (<) is \<and> set is \<subseteq> {..<length txids} \<and> ms = map ((!) txids) is)"
proof -
  have "those (map compute_txid (txdata b)) = Some txids" using assms(4) by (simp add: those_Some_iff)
  then have "calculate_root parent_hash txids = Some (merkle_root (header b))"
    using assms(2) by (auto simp: check_merkle_root_def compute_merkle_root_def split: option.splits)
  moreover have "extract_matches (mk_txn m) = (Inr (merkle_root (header b)), ms, is)"
    using assms(1,3) by (auto simp: merkle_block_extract_matches_def split: prod.splits sum.splits if_splits)
  ultimately show ?thesis using proof_sound assms(5,6) by blast
qed

theorem merkle_block_sound_witness:
  "let id = sha256d_hash (base_ser sample_tx); t = \<lparr> num_transactions = 1, pmt_bits = [True], pmt_hashes = [id] \<rparr> in
    forged_node t [id] \<or> (sorted_wrt (<) [0 :: nat] \<and> set [0] \<subseteq> {..<length [id]} \<and> [id] = map ((!) [id]) [0])"
proof -
  let ?id = "sha256d_hash (base_ser sample_tx)"
  let ?t = "\<lparr> num_transactions = 1, pmt_bits = [True], pmt_hashes = [?id] \<rparr>"
  let ?m = "\<lparr> mk_header = header rooted_block, mk_txn = ?t \<rparr>"
  have h: "calc_tree_height 1 = 0"
    by (simp add: calc_tree_height_def tree_height_from.simps [of 1 0] calc_tree_width_def)
  have "extract_matches ?t = (Inr ?id, [?id], [0])"
    using transactions_limit [of 1] by (simp add: extract_matches_def h traverse_and_extract.simps Let_def)
  then have "merkle_block_extract_matches ?m = (Inr (), [?id], [0])"
    by (simp add: merkle_block_extract_matches_def rooted_block_def)
  from merkle_block_sound [OF this rooted_block_ok(1), of "[?id]"] show ?thesis
    by (simp add: rooted_block_ok(3) Let_def)
qed

end
