(* ===== verification/Sighash.thy ===== *)
theory Sighash
  imports Transaction Script Sha256
begin

text \<open>
  Signature hashes (\<open>src/litecoin/src/crypto/sighash.rs\<close>): the sighash types and their numbers and names, the
  previous outputs a caller supplies, the cache of intermediate digests, and the data signed for legacy, segwit
  version 0 and taproot inputs. An operation of \<open>SighashCache\<close> is a function on the cache and the bytes written
  so far, with the errors of the code as values; \<open>Io Panic\<close> is a panic of \<open>unwrap\<close> or \<open>unreachable\<close>.
\<close>

section \<open>Sighash types\<close>

datatype EcdsaSighashType =
  EcdsaAll | EcdsaNone | EcdsaSingle
| EcdsaAllPlusAnyoneCanPay | EcdsaNonePlusAnyoneCanPay | EcdsaSinglePlusAnyoneCanPay

datatype TapSighashType =
  TapDefault | TapAll | TapNone | TapSingle
| TapAllPlusAnyoneCanPay | TapNonePlusAnyoneCanPay | TapSinglePlusAnyoneCanPay

fun ecdsa_display :: "EcdsaSighashType \<Rightarrow> string" where
  "ecdsa_display EcdsaAll = ''SIGHASH_ALL''"
| "ecdsa_display EcdsaNone = ''SIGHASH_NONE''"
| "ecdsa_display EcdsaSingle = ''SIGHASH_SINGLE''"
| "ecdsa_display EcdsaAllPlusAnyoneCanPay = ''SIGHASH_ALL|SIGHASH_ANYONECANPAY''"
| "ecdsa_display EcdsaNonePlusAnyoneCanPay = ''SIGHASH_NONE|SIGHASH_ANYONECANPAY''"
| "ecdsa_display EcdsaSinglePlusAnyoneCanPay = ''SIGHASH_SINGLE|SIGHASH_ANYONECANPAY''"

fun tap_display :: "TapSighashType \<Rightarrow> string" where
  "tap_display TapDefault = ''SIGHASH_DEFAULT''"
| "tap_display TapAll = ''SIGHASH_ALL''"
| "tap_display TapNone = ''SIGHASH_NONE''"
| "tap_display TapSingle = ''SIGHASH_SINGLE''"
| "tap_display TapAllPlusAnyoneCanPay = ''SIGHASH_ALL|SIGHASH_ANYONECANPAY''"
| "tap_display TapNonePlusAnyoneCanPay = ''SIGHASH_NONE|SIGHASH_ANYONECANPAY''"
| "tap_display TapSinglePlusAnyoneCanPay = ''SIGHASH_SINGLE|SIGHASH_ANYONECANPAY''"

datatype sighash_type_parse_error = Unrecognized string

definition ecdsa_from_str :: "string \<Rightarrow> sighash_type_parse_error + EcdsaSighashType" where
  "ecdsa_from_str s =
     (if s = ''SIGHASH_ALL'' then Inr EcdsaAll
      else if s = ''SIGHASH_NONE'' then Inr EcdsaNone
      else if s = ''SIGHASH_SINGLE'' then Inr EcdsaSingle
      else if s = ''SIGHASH_ALL|SIGHASH_ANYONECANPAY'' then Inr EcdsaAllPlusAnyoneCanPay
      else if s = ''SIGHASH_NONE|SIGHASH_ANYONECANPAY'' then Inr EcdsaNonePlusAnyoneCanPay
      else if s = ''SIGHASH_SINGLE|SIGHASH_ANYONECANPAY'' then Inr EcdsaSinglePlusAnyoneCanPay
      else Inl (Unrecognized s))"

definition tap_from_str :: "string \<Rightarrow> sighash_type_parse_error + TapSighashType" where
  "tap_from_str s =
     (if s = ''SIGHASH_DEFAULT'' then Inr TapDefault
      else if s = ''SIGHASH_ALL'' then Inr TapAll
      else if s = ''SIGHASH_NONE'' then Inr TapNone
      else if s = ''SIGHASH_SINGLE'' then Inr TapSingle
      else if s = ''SIGHASH_ALL|SIGHASH_ANYONECANPAY'' then Inr TapAllPlusAnyoneCanPay
      else if s = ''SIGHASH_NONE|SIGHASH_ANYONECANPAY'' then Inr TapNonePlusAnyoneCanPay
      else if s = ''SIGHASH_SINGLE|SIGHASH_ANYONECANPAY'' then Inr TapSinglePlusAnyoneCanPay
      else Inl (Unrecognized s))"

fun ecdsa_split_anyonecanpay_flag :: "EcdsaSighashType \<Rightarrow> EcdsaSighashType \<times> bool" where
  "ecdsa_split_anyonecanpay_flag EcdsaAll = (EcdsaAll, False)"
| "ecdsa_split_anyonecanpay_flag EcdsaNone = (EcdsaNone, False)"
| "ecdsa_split_anyonecanpay_flag EcdsaSingle = (EcdsaSingle, False)"
| "ecdsa_split_anyonecanpay_flag EcdsaAllPlusAnyoneCanPay = (EcdsaAll, True)"
| "ecdsa_split_anyonecanpay_flag EcdsaNonePlusAnyoneCanPay = (EcdsaNone, True)"
| "ecdsa_split_anyonecanpay_flag EcdsaSinglePlusAnyoneCanPay = (EcdsaSingle, True)"

fun is_single :: "EcdsaSighashType \<Rightarrow> bool" where
  "is_single EcdsaSingle = True"
| "is_single EcdsaSinglePlusAnyoneCanPay = True"
| "is_single _ = False"

definition ecdsa_from_consensus :: "u32 \<Rightarrow> EcdsaSighashType" where
  "ecdsa_from_consensus n =
     (let x = n AND (0x1f OR 0x80) in
      if x = 0x01 then EcdsaAll else if x = 0x02 then EcdsaNone else if x = 0x03 then EcdsaSingle
      else if x = 0x81 then EcdsaAllPlusAnyoneCanPay else if x = 0x82 then EcdsaNonePlusAnyoneCanPay
      else if x = 0x83 then EcdsaSinglePlusAnyoneCanPay
      else if x AND 0x80 = 0x80 then EcdsaAllPlusAnyoneCanPay else EcdsaAll)"

datatype sighash_type_error = NonStandardSighashType u32 | InvalidSighashType u32

definition ecdsa_from_standard :: "u32 \<Rightarrow> sighash_type_error + EcdsaSighashType" where
  "ecdsa_from_standard n =
     (if n = 0x01 then Inr EcdsaAll else if n = 0x02 then Inr EcdsaNone else if n = 0x03 then Inr EcdsaSingle
      else if n = 0x81 then Inr EcdsaAllPlusAnyoneCanPay else if n = 0x82 then Inr EcdsaNonePlusAnyoneCanPay
      else if n = 0x83 then Inr EcdsaSinglePlusAnyoneCanPay else Inl (NonStandardSighashType n))"

fun ecdsa_to_u32 :: "EcdsaSighashType \<Rightarrow> u32" where
  "ecdsa_to_u32 EcdsaAll = 0x01"
| "ecdsa_to_u32 EcdsaNone = 0x02"
| "ecdsa_to_u32 EcdsaSingle = 0x03"
| "ecdsa_to_u32 EcdsaAllPlusAnyoneCanPay = 0x81"
| "ecdsa_to_u32 EcdsaNonePlusAnyoneCanPay = 0x82"
| "ecdsa_to_u32 EcdsaSinglePlusAnyoneCanPay = 0x83"

fun tap_from_ecdsa :: "EcdsaSighashType \<Rightarrow> TapSighashType" where
  "tap_from_ecdsa EcdsaAll = TapAll"
| "tap_from_ecdsa EcdsaNone = TapNone"
| "tap_from_ecdsa EcdsaSingle = TapSingle"
| "tap_from_ecdsa EcdsaAllPlusAnyoneCanPay = TapAllPlusAnyoneCanPay"
| "tap_from_ecdsa EcdsaNonePlusAnyoneCanPay = TapNonePlusAnyoneCanPay"
| "tap_from_ecdsa EcdsaSinglePlusAnyoneCanPay = TapSinglePlusAnyoneCanPay"

fun tap_split_anyonecanpay_flag :: "TapSighashType \<Rightarrow> TapSighashType \<times> bool" where
  "tap_split_anyonecanpay_flag TapDefault = (TapDefault, False)"
| "tap_split_anyonecanpay_flag TapAll = (TapAll, False)"
| "tap_split_anyonecanpay_flag TapNone = (TapNone, False)"
| "tap_split_anyonecanpay_flag TapSingle = (TapSingle, False)"
| "tap_split_anyonecanpay_flag TapAllPlusAnyoneCanPay = (TapAll, True)"
| "tap_split_anyonecanpay_flag TapNonePlusAnyoneCanPay = (TapNone, True)"
| "tap_split_anyonecanpay_flag TapSinglePlusAnyoneCanPay = (TapSingle, True)"

fun tap_to_u8 :: "TapSighashType \<Rightarrow> u8" where
  "tap_to_u8 TapDefault = 0x00"
| "tap_to_u8 TapAll = 0x01"
| "tap_to_u8 TapNone = 0x02"
| "tap_to_u8 TapSingle = 0x03"
| "tap_to_u8 TapAllPlusAnyoneCanPay = 0x81"
| "tap_to_u8 TapNonePlusAnyoneCanPay = 0x82"
| "tap_to_u8 TapSinglePlusAnyoneCanPay = 0x83"

definition from_consensus_u8 :: "u8 \<Rightarrow> sighash_type_error + TapSighashType" where
  "from_consensus_u8 x =
     (if x = 0x00 then Inr TapDefault else if x = 0x01 then Inr TapAll else if x = 0x02 then Inr TapNone
      else if x = 0x03 then Inr TapSingle else if x = 0x81 then Inr TapAllPlusAnyoneCanPay
      else if x = 0x82 then Inr TapNonePlusAnyoneCanPay else if x = 0x83 then Inr TapSinglePlusAnyoneCanPay
      else Inl (InvalidSighashType (ucast x)))"

section \<open>Previous outputs, annexes and script paths\<close>

datatype Prevouts = PrevoutsOne nat TxOut | PrevoutsAll "TxOut list"

datatype taproot_sighash_error =
  InputsIndex index_error
| SingleMissingOutput nat nat
| PrevoutsSizeError
| InvalidOneIndex
| InvalidAllIndex
| PrevoutsKindError

definition check_all :: "Prevouts \<Rightarrow> 'k Transaction \<Rightarrow> taproot_sighash_error + unit" where
  "check_all prevouts tx =
     (case prevouts of
        PrevoutsAll ps \<Rightarrow> if length ps \<noteq> length (tx_input tx) then Inl PrevoutsSizeError else Inr ()
      | PrevoutsOne _ _ \<Rightarrow> Inr ())"

fun get_all :: "Prevouts \<Rightarrow> taproot_sighash_error + TxOut list" where
  "get_all (PrevoutsAll ps) = Inr ps"
| "get_all (PrevoutsOne _ _) = Inl PrevoutsKindError"

fun prevouts_get :: "Prevouts \<Rightarrow> nat \<Rightarrow> taproot_sighash_error + TxOut" where
  "prevouts_get (PrevoutsOne index prevout) input_index =
     (if input_index = index then Inr prevout else Inl InvalidOneIndex)"
| "prevouts_get (PrevoutsAll ps) input_index =
     (if input_index < length ps then Inr (ps ! input_index) else Inl InvalidAllIndex)"

datatype annex = Annex bytes

datatype annex_error = AnnexEmpty | IncorrectPrefix u8

definition annex_new :: "bytes \<Rightarrow> annex_error + annex" where
  "annex_new annex_bytes =
     (case annex_bytes of
        [] \<Rightarrow> Inl AnnexEmpty
      | b # _ \<Rightarrow> if b = TAPROOT_ANNEX_PREFIX then Inr (Annex annex_bytes) else Inl (IncorrectPrefix b))"

fun annex_as_bytes :: "annex \<Rightarrow> bytes" where
  "annex_as_bytes (Annex b) = b"

definition annex_encode :: "annex \<Rightarrow> io_failure encoded" where
  "annex_encode a = consensus_encode_with_size (annex_as_bytes a)"

record ScriptPath =
  path_script :: bytes
  path_leaf_version :: leaf_version

definition script_path_with_defaults :: "bytes \<Rightarrow> ScriptPath" where
  "script_path_with_defaults s = \<lparr> path_script = s, path_leaf_version = LeafTapScript \<rparr>"

text \<open>The digest of a tagged engine after a successful encoding; \<^term>\<open>None\<close> where the code panics.\<close>

definition tagged_digest :: "string \<Rightarrow> io_failure encoded \<Rightarrow> bytes option" where
  "tagged_digest tag e =
     (case e of
        Inl _ \<Rightarrow> None
      | Inr (b, _) \<Rightarrow> map_option (\<lambda>eng. sha256t_from_engine (sha256_input eng b)) (tag_engine (map of_char tag)))"

definition leaf_hash :: "ScriptPath \<Rightarrow> bytes option" where
  "leaf_hash p = tagged_digest ''TapLeaf''
     (enc_seq (emit_u8 (leaf_version_to_consensus (path_leaf_version p))) (script_encode (path_script p)))"

section \<open>The cache\<close>

record CommonCache =
  common_prevouts :: bytes
  common_sequences :: bytes
  common_outputs :: bytes

record SegwitCache =
  segwit_prevouts :: bytes
  segwit_sequences :: bytes
  segwit_outputs :: bytes

record TaprootCache =
  amounts :: bytes
  script_pubkeys :: bytes

record 'k SighashCache =
  cache_tx :: "'k Transaction"
  common_slot :: "CommonCache option"
  segwit_slot :: "SegwitCache option"
  taproot_slot :: "TaprootCache option"

definition sighash_cache_new :: "'k Transaction \<Rightarrow> 'k SighashCache" where
  "sighash_cache_new tx = \<lparr> cache_tx = tx, common_slot = None, segwit_slot = None, taproot_slot = None \<rparr>"

definition witness_mut :: "'k SighashCache \<Rightarrow> nat \<Rightarrow> witness \<Rightarrow> 'k SighashCache option" where
  "witness_mut c input_index w =
     (let ins = tx_input (cache_tx c) in
      if input_index < length ins
      then Some (c \<lparr> cache_tx := (cache_tx c)
             \<lparr> tx_input := ins [input_index := (ins ! input_index) \<lparr> txin_witness := w \<rparr>] \<rparr> \<rparr>)
      else None)"

text \<open>
  An operation gets the cache and what the writer holds, and returns both with its result. The writers are
  memory buffers and hash engines, which accept everything.
\<close>

datatype 'e signing_data_error = SigningIo io_failure | SigningSighash 'e

type_synonym ('k, 'e, 'a) signing =
  "'k SighashCache \<times> bytes \<Rightarrow> ('e signing_data_error + 'a) \<times> 'k SighashCache \<times> bytes"

definition sreturn :: "'a \<Rightarrow> ('k, 'e, 'a) signing" where
  "sreturn x = (\<lambda>s. (Inr x, s))"

definition sbind :: "('k, 'e, 'a) signing \<Rightarrow> ('a \<Rightarrow> ('k, 'e, 'b) signing) \<Rightarrow> ('k, 'e, 'b) signing" where
  "sbind m f = (\<lambda>s. case m s of (Inl e, s') \<Rightarrow> (Inl e, s') | (Inr x, s') \<Rightarrow> f x s')"

primrec steps :: "('k, 'e, unit) signing list \<Rightarrow> ('k, 'e, unit) signing" where
  "steps [] = sreturn ()"
| "steps (m # ms) = sbind m (\<lambda>_. steps ms)"

definition swhen :: "bool \<Rightarrow> ('k, 'e, unit) signing \<Rightarrow> ('k, 'e, unit) signing" where
  "swhen b m = (if b then m else sreturn ())"

definition sresult :: "'e + 'a \<Rightarrow> ('k, 'e, 'a) signing" where
  "sresult r = (\<lambda>s. (map_err SigningSighash r, s))"

definition swrite :: "io_failure encoded \<Rightarrow> ('k, 'e, unit) signing" where
  "swrite e = (\<lambda>(c, w). case e of Inl f \<Rightarrow> (Inl (SigningIo f), c, w) | Inr (b, _) \<Rightarrow> (Inr (), c, w @ b))"

text \<open>An engine filled by an encoder.\<close>

definition sengine :: "(bytes \<Rightarrow> bytes) \<Rightarrow> io_failure encoded \<Rightarrow> ('k, 'e, bytes) signing" where
  "sengine h e = (\<lambda>s. case e of Inl f \<Rightarrow> (Inl (SigningIo f), s) | Inr (b, _) \<Rightarrow> (Inr (h b), s))"

definition spanic :: "('k, 'e, 'a) signing" where
  "spanic = (\<lambda>s. (Inl (SigningIo Panic), s))"

definition digest_of :: "io_failure encoded \<Rightarrow> bytes option" where
  "digest_of e = (case e of Inl _ \<Rightarrow> None | Inr (b, _) \<Rightarrow> Some (sha256_hash b))"

definition common_cache_init :: "'k Transaction \<Rightarrow> CommonCache option" where
  "common_cache_init tx =
     Option.bind (digest_of (enc_list (\<lambda>i. outpoint_encode (previous_output i)) (tx_input tx))) (\<lambda>p.
     Option.bind (digest_of (enc_list (\<lambda>i. int_encode (sequence i)) (tx_input tx))) (\<lambda>q.
     Option.bind (digest_of (enc_list txout_encode (tx_output tx))) (\<lambda>r.
       Some \<lparr> common_prevouts = p, common_sequences = q, common_outputs = r \<rparr>)))"

definition common_cache :: "('k, 'e, CommonCache) signing" where
  "common_cache = (\<lambda>(c, w).
     case common_slot c of
       Some v \<Rightarrow> (Inr v, c, w)
     | None \<Rightarrow> (case common_cache_init (cache_tx c) of
           None \<Rightarrow> spanic (c, w)
         | Some v \<Rightarrow> (Inr v, c \<lparr> common_slot := Some v \<rparr>, w)))"

definition segwit_cache :: "('k, 'e, SegwitCache) signing" where
  "segwit_cache = (\<lambda>(c, w).
     case segwit_slot c of
       Some v \<Rightarrow> (Inr v, c, w)
     | None \<Rightarrow> sbind common_cache (\<lambda>common (c, w).
         let v = \<lparr> segwit_prevouts = hash_again (common_prevouts common),
                   segwit_sequences = hash_again (common_sequences common),
                   segwit_outputs = hash_again (common_outputs common) \<rparr>
         in (Inr v, c \<lparr> segwit_slot := Some v \<rparr>, w)) (c, w))"

definition taproot_cache_init :: "TxOut list \<Rightarrow> TaprootCache option" where
  "taproot_cache_init prevouts =
     Option.bind (digest_of (enc_list (\<lambda>x. int_encode (txout_value x)) prevouts)) (\<lambda>a.
     Option.bind (digest_of (enc_list (\<lambda>x. script_encode (script_pubkey x)) prevouts)) (\<lambda>s.
       Some \<lparr> amounts = a, script_pubkeys = s \<rparr>))"

definition taproot_cache :: "TxOut list \<Rightarrow> ('k, 'e, TaprootCache) signing" where
  "taproot_cache prevouts = (\<lambda>(c, w).
     case taproot_slot c of
       Some v \<Rightarrow> (Inr v, c, w)
     | None \<Rightarrow> (case taproot_cache_init prevouts of
           None \<Rightarrow> spanic (c, w)
         | Some v \<Rightarrow> (Inr v, c \<lparr> taproot_slot := Some v \<rparr>, w)))"

section \<open>Taproot\<close>

definition KEY_VERSION_0 :: u8 where "KEY_VERSION_0 = 0"

definition tap_single_output ::
    "'k Transaction \<Rightarrow> nat \<Rightarrow> taproot_sighash_error + TxOut" where
  "tap_single_output tx input_index =
     (if input_index < length (tx_output tx) then Inr (tx_output tx ! input_index)
      else Inl (SingleMissingOutput input_index (length (tx_output tx))))"

definition taproot_encode_signing_data_to ::
    "nat \<Rightarrow> Prevouts \<Rightarrow> annex option \<Rightarrow> (bytes \<times> u32) option \<Rightarrow> TapSighashType
     \<Rightarrow> ('k, taproot_sighash_error, unit) signing" where
  "taproot_encode_signing_data_to input_index prevouts annex leaf_hash_code_separator sighash_type = (\<lambda>(c, w).
     let tx = cache_tx c;
         (sighash, anyone_can_pay) = tap_split_anyonecanpay_flag sighash_type in
     steps [
       sresult (check_all prevouts tx),
       swrite (emit_u8 0),
       swrite (emit_u8 (tap_to_u8 sighash_type)),
       swrite (int_encode (version tx)),
       swrite (locktime_encode (lock_time tx)),
       swhen (\<not> anyone_can_pay) (steps [
         sbind common_cache (\<lambda>v. swrite (array_encode (common_prevouts v))),
         sbind (sresult (get_all prevouts)) (\<lambda>ps. sbind (taproot_cache ps) (\<lambda>v. swrite (array_encode (amounts v)))),
         sbind (sresult (get_all prevouts)) (\<lambda>ps. sbind (taproot_cache ps) (\<lambda>v. swrite (array_encode (script_pubkeys v)))),
         sbind common_cache (\<lambda>v. swrite (array_encode (common_sequences v)))]),
       swhen (sighash \<noteq> TapNone \<and> sighash \<noteq> TapSingle)
         (sbind common_cache (\<lambda>v. swrite (array_encode (common_outputs v)))),
       swrite (emit_u8 ((if annex \<noteq> None then 1 else 0) OR (if leaf_hash_code_separator \<noteq> None then 2 else 0))),
       (if anyone_can_pay
        then sbind (sresult (map_err InputsIndex (tx_in tx input_index))) (\<lambda>txin.
             sbind (sresult (prevouts_get prevouts input_index)) (\<lambda>previous_out.
             steps [
               swrite (outpoint_encode (previous_output txin)),
               swrite (int_encode (txout_value previous_out)),
               swrite (script_encode (script_pubkey previous_out)),
               swrite (int_encode (sequence txin))]))
        else swrite (int_encode (of_nat input_index :: u32))),
       (case annex of
          None \<Rightarrow> sreturn ()
        | Some a \<Rightarrow> sbind (sengine sha256_hash (annex_encode a)) (\<lambda>h. swrite (array_encode h))),
       swhen (sighash = TapSingle)
         (sbind (sresult (tap_single_output tx input_index)) (\<lambda>out.
          sbind (sengine sha256_hash (txout_encode out)) (\<lambda>h. swrite (array_encode h)))),
       (case leaf_hash_code_separator of
          None \<Rightarrow> sreturn ()
        | Some (h, code_separator_pos) \<Rightarrow> steps [
            swrite (array_encode h), swrite (emit_u8 KEY_VERSION_0), swrite (int_encode code_separator_pos)])] (c, w))"

text \<open>
  The \<open>*_signature_hash\<close> functions write to a fresh engine: the result is \<^term>\<open>None\<close> where \<open>unwrap_sighash\<close>
  panics, and otherwise the error or the digest.
\<close>

fun unwrap_sighash :: "'e signing_data_error \<Rightarrow> 'e option" where
  "unwrap_sighash (SigningSighash e) = Some e"
| "unwrap_sighash (SigningIo _) = None"

definition signing_hash ::
    "(bytes \<Rightarrow> bytes option) \<Rightarrow> ('k, 'e, unit) signing \<Rightarrow> 'k SighashCache \<Rightarrow> ('e + bytes) option \<times> 'k SighashCache" where
  "signing_hash digest m c =
     (case m (c, []) of
        (Inl e, c', _) \<Rightarrow> (map_option Inl (unwrap_sighash e), c')
      | (Inr _, c', w) \<Rightarrow> (map_option Inr (digest w), c'))"

definition tap_sighash_digest :: "bytes \<Rightarrow> bytes option" where
  "tap_sighash_digest b =
     map_option (\<lambda>eng. sha256t_from_engine (sha256_input eng b)) (tag_engine (map of_char ''TapSighash''))"

definition taproot_signature_hash ::
    "nat \<Rightarrow> Prevouts \<Rightarrow> annex option \<Rightarrow> (bytes \<times> u32) option \<Rightarrow> TapSighashType \<Rightarrow> 'k SighashCache
     \<Rightarrow> (taproot_sighash_error + bytes) option \<times> 'k SighashCache" where
  "taproot_signature_hash input_index prevouts annex leaf_hash_code_separator sighash_type =
     signing_hash tap_sighash_digest
       (taproot_encode_signing_data_to input_index prevouts annex leaf_hash_code_separator sighash_type)"

definition taproot_key_spend_signature_hash ::
    "nat \<Rightarrow> Prevouts \<Rightarrow> TapSighashType \<Rightarrow> 'k SighashCache \<Rightarrow> (taproot_sighash_error + bytes) option \<times> 'k SighashCache" where
  "taproot_key_spend_signature_hash input_index prevouts sighash_type =
     signing_hash tap_sighash_digest (taproot_encode_signing_data_to input_index prevouts None None sighash_type)"

definition taproot_script_spend_signature_hash ::
    "nat \<Rightarrow> Prevouts \<Rightarrow> bytes \<Rightarrow> TapSighashType \<Rightarrow> 'k SighashCache
     \<Rightarrow> (taproot_sighash_error + bytes) option \<times> 'k SighashCache" where
  "taproot_script_spend_signature_hash input_index prevouts leaf sighash_type =
     signing_hash tap_sighash_digest
       (taproot_encode_signing_data_to input_index prevouts None (Some (leaf, 0xFFFFFFFF)) sighash_type)"

section \<open>Segwit version 0\<close>

abbreviation zero_hash :: bytes where
  "zero_hash \<equiv> replicate 32 0"

definition segwit_v0_encode_signing_data_to ::
    "nat \<Rightarrow> bytes \<Rightarrow> u64 \<Rightarrow> EcdsaSighashType \<Rightarrow> ('k, index_error, unit) signing" where
  "segwit_v0_encode_signing_data_to input_index script_code value sighash_type = (\<lambda>(c, w).
     let tx = cache_tx c;
         (sighash, anyone_can_pay) = ecdsa_split_anyonecanpay_flag sighash_type in
     steps [
       swrite (int_encode (version tx)),
       (if \<not> anyone_can_pay then sbind segwit_cache (\<lambda>v. swrite (array_encode (segwit_prevouts v)))
        else swrite (array_encode zero_hash)),
       (if \<not> anyone_can_pay \<and> sighash \<noteq> EcdsaSingle \<and> sighash \<noteq> EcdsaNone
        then sbind segwit_cache (\<lambda>v. swrite (array_encode (segwit_sequences v)))
        else swrite (array_encode zero_hash)),
       sbind (sresult (tx_in tx input_index)) (\<lambda>txin. steps [
         swrite (outpoint_encode (previous_output txin)),
         swrite (script_encode script_code),
         swrite (int_encode value),
         swrite (int_encode (sequence txin))]),
       (if sighash \<noteq> EcdsaSingle \<and> sighash \<noteq> EcdsaNone
        then sbind segwit_cache (\<lambda>v. swrite (array_encode (segwit_outputs v)))
        else if sighash = EcdsaSingle \<and> input_index < length (tx_output tx)
        then sbind (sengine sha256d_hash (txout_encode (tx_output tx ! input_index))) (\<lambda>h. swrite (array_encode h))
        else swrite (array_encode zero_hash)),
       swrite (locktime_encode (lock_time tx)),
       swrite (int_encode (ecdsa_to_u32 sighash_type))] (c, w))"

datatype P2wpkhError = P2wpkhSighash index_error | NotP2wpkhScript

definition p2wpkh_signature_hash ::
    "nat \<Rightarrow> bytes \<Rightarrow> u64 \<Rightarrow> EcdsaSighashType \<Rightarrow> 'k SighashCache \<Rightarrow> (P2wpkhError + bytes) option \<times> 'k SighashCache" where
  "p2wpkh_signature_hash input_index spk value sighash_type c =
     (case p2wpkh_script_code spk of
        None \<Rightarrow> (Some (Inl NotP2wpkhScript), c)
      | Some script_code \<Rightarrow>
          apfst (map_option (map_err P2wpkhSighash))
            (signing_hash (Some \<circ> sha256d_hash)
              (segwit_v0_encode_signing_data_to input_index script_code value sighash_type) c))"

definition p2wsh_signature_hash ::
    "nat \<Rightarrow> bytes \<Rightarrow> u64 \<Rightarrow> EcdsaSighashType \<Rightarrow> 'k SighashCache \<Rightarrow> (index_error + bytes) option \<times> 'k SighashCache" where
  "p2wsh_signature_hash input_index script value sighash_type =
     signing_hash (Some \<circ> sha256d_hash)
       (segwit_v0_encode_signing_data_to input_index script value sighash_type)"

section \<open>Legacy\<close>

definition UINT256_ONE :: bytes where
  "UINT256_ONE = [1, 0, 0, 0, 0, 0, 0, 0,
                  0, 0, 0, 0, 0, 0, 0, 0,
                  0, 0, 0, 0, 0, 0, 0, 0,
                  0, 0, 0, 0, 0, 0, 0, 0]"

definition txout_null :: TxOut where
  "txout_null = \<lparr> txout_value = 0xffffffffffffffff, script_pubkey = [] \<rparr>"

definition is_invalid_use_of_sighash_single :: "u32 \<Rightarrow> nat \<Rightarrow> nat \<Rightarrow> bool" where
  "is_invalid_use_of_sighash_single sighash input_index outputs_len \<longleftrightarrow>
     is_single (ecdsa_from_consensus sighash) \<and> input_index \<ge> outputs_len"

datatype 'e encode_signing_data_result = SighashSingleBug | WriteResult "'e + unit"

fun is_sighash_single_bug :: "'e encode_signing_data_result \<Rightarrow> 'e + bool" where
  "is_sighash_single_bug SighashSingleBug = Inr True"
| "is_sighash_single_bug (WriteResult (Inr _)) = Inr False"
| "is_sighash_single_bug (WriteResult (Inl e)) = Inl e"

fun encode_result_map_err :: "('e \<Rightarrow> 'f) \<Rightarrow> 'e encode_signing_data_result \<Rightarrow> 'f encode_signing_data_result" where
  "encode_result_map_err f SighashSingleBug = SighashSingleBug"
| "encode_result_map_err f (WriteResult (Inl e)) = WriteResult (Inl (f e))"
| "encode_result_map_err f (WriteResult (Inr x)) = WriteResult (Inr x)"

definition legacy_inputs :: "'k Transaction \<Rightarrow> nat \<Rightarrow> bytes \<Rightarrow> EcdsaSighashType \<Rightarrow> bool \<Rightarrow> TxIn list option" where
  "legacy_inputs tx input_index script sighash anyone_can_pay =
     (if anyone_can_pay
      then (if input_index < length (tx_input tx)
            then Some [\<lparr> previous_output = previous_output (tx_input tx ! input_index), script_sig = script,
                         sequence = sequence (tx_input tx ! input_index), txin_witness = witness_new \<rparr>]
            else None)
      else Some (map (\<lambda>(n, i).
        \<lparr> previous_output = previous_output i,
          script_sig = (if n = input_index then script else []),
          sequence = (if n \<noteq> input_index \<and> (sighash = EcdsaSingle \<or> sighash = EcdsaNone) then 0 else sequence i),
          txin_witness = witness_new \<rparr>) (enumerate 0 (tx_input tx))))"

definition legacy_outputs :: "'k Transaction \<Rightarrow> nat \<Rightarrow> EcdsaSighashType \<Rightarrow> TxOut list option" where
  "legacy_outputs tx input_index sighash =
     (case sighash of
        EcdsaAll \<Rightarrow> Some (tx_output tx)
      | EcdsaSingle \<Rightarrow> Some (map (\<lambda>(n, out). if n = input_index then out else txout_null)
            (enumerate 0 (take (input_index + 1) (tx_output tx))))
      | EcdsaNone \<Rightarrow> Some []
      | _ \<Rightarrow> None)"

definition legacy_encode_inner :: "'k key_ops \<Rightarrow> 'k Transaction \<Rightarrow> nat \<Rightarrow> bytes \<Rightarrow> u32 \<Rightarrow> io_failure encoded" where
  "legacy_encode_inner K self input_index script sighash_type =
     (let (sighash, anyone_can_pay) = ecdsa_split_anyonecanpay_flag (ecdsa_from_consensus sighash_type) in
      case legacy_inputs self input_index script sighash anyone_can_pay of
        None \<Rightarrow> Inl Panic
      | Some ins \<Rightarrow> (case legacy_outputs self input_index sighash of
            None \<Rightarrow> Inl Panic
          | Some outs \<Rightarrow>
              enc_seq (transaction_encode K \<lparr> version = version self, lock_time = lock_time self, tx_input = ins,
                         tx_output = outs, mw_tx = None, is_hog_ex = False \<rparr>)
                (array_encode (to_le_bytes sighash_type))))"

definition legacy_encode_signing_data_to ::
    "'k key_ops \<Rightarrow> 'k SighashCache \<Rightarrow> bytes \<Rightarrow> nat \<Rightarrow> bytes \<Rightarrow> u32
     \<Rightarrow> index_error signing_data_error encode_signing_data_result \<times> bytes" where
  "legacy_encode_signing_data_to K c w input_index script sighash_type =
     (let tx = cache_tx c in
      case tx_in tx input_index of
        Inl e \<Rightarrow> (WriteResult (Inl (SigningSighash e)), w)
      | Inr _ \<Rightarrow>
          if is_invalid_use_of_sighash_single sighash_type input_index (length (tx_output tx))
          then (SighashSingleBug, w)
          else (case legacy_encode_inner K tx input_index script sighash_type of
                  Inl f \<Rightarrow> (WriteResult (Inl (SigningIo f)), w)
                | Inr (b, _) \<Rightarrow> (WriteResult (Inr ()), w @ b)))"

definition legacy_signature_hash ::
    "'k key_ops \<Rightarrow> 'k SighashCache \<Rightarrow> nat \<Rightarrow> bytes \<Rightarrow> u32 \<Rightarrow> (index_error + bytes) option" where
  "legacy_signature_hash K c input_index script sighash_type =
     (let (r, w) = legacy_encode_signing_data_to K c [] input_index script sighash_type in
      case is_sighash_single_bug r of
        Inr True \<Rightarrow> Some (Inr UINT256_ONE)
      | Inr False \<Rightarrow> Some (Inr (sha256d_hash w))
      | Inl e \<Rightarrow> map_option Inl (unwrap_sighash e))"

section \<open>The messages of the proposals\<close>

text \<open>
  What is signed, by the bits of the hash type and without a cache: BIP 341 for taproot, BIP 143 for segwit
  version 0, and the serialisation of the reference node for legacy inputs.
\<close>

definition outpoints_ser :: "'k Transaction \<Rightarrow> bytes" where
  "outpoints_ser tx = concat (map (\<lambda>i. outpoint_ser (previous_output i)) (tx_input tx))"

definition sequences_ser :: "'k Transaction \<Rightarrow> bytes" where
  "sequences_ser tx = concat (map (\<lambda>i. to_le_bytes (sequence i)) (tx_input tx))"

definition outputs_ser :: "'k Transaction \<Rightarrow> bytes" where
  "outputs_ser tx = concat (map txout_ser (tx_output tx))"

definition amounts_ser :: "TxOut list \<Rightarrow> bytes" where
  "amounts_ser ps = concat (map (\<lambda>x. to_le_bytes (txout_value x)) ps)"

definition scripts_ser :: "TxOut list \<Rightarrow> bytes" where
  "scripts_ser ps = concat (map (\<lambda>x. bytes_ser (script_pubkey x)) ps)"

definition locktime_ser :: "'k Transaction \<Rightarrow> bytes" where
  "locktime_ser tx = to_le_bytes (locktime_to_consensus (lock_time tx))"

definition bip341_prevouts :: "'k Transaction \<Rightarrow> TxOut list \<Rightarrow> bytes" where
  "bip341_prevouts tx ps = sha256_hash (outpoints_ser tx) @ sha256_hash (amounts_ser ps)
     @ sha256_hash (scripts_ser ps) @ sha256_hash (sequences_ser tx)"

definition bip341_input :: "'k Transaction \<Rightarrow> Prevouts \<Rightarrow> nat \<Rightarrow> taproot_sighash_error + bytes" where
  "bip341_input tx prevouts i =
     and_then (map_err InputsIndex (tx_in tx i)) (\<lambda>txin. and_then (prevouts_get prevouts i) (\<lambda>p.
       Inr (outpoint_ser (previous_output txin) @ txout_ser p @ to_le_bytes (sequence txin))))"

definition bip341_message ::
    "'k Transaction \<Rightarrow> Prevouts \<Rightarrow> nat \<Rightarrow> annex option \<Rightarrow> (bytes \<times> u32) option \<Rightarrow> u8 \<Rightarrow> taproot_sighash_error + bytes" where
  "bip341_message tx prevouts i annex leaf hash_type =
     (let anyone_can_pay = (hash_type AND 0x80 = 0x80);
          sign_none = (hash_type AND 3 = 2);
          sign_single = (hash_type AND 3 = 3) in
      and_then (check_all prevouts tx) (\<lambda>_.
      and_then (if anyone_can_pay then Inr [] else and_then (get_all prevouts) (\<lambda>ps. Inr (bip341_prevouts tx ps))) (\<lambda>all.
      and_then (if anyone_can_pay then bip341_input tx prevouts i else Inr (to_le_bytes (of_nat i :: u32))) (\<lambda>own.
      and_then (if sign_single then and_then (tap_single_output tx i) (\<lambda>x. Inr (sha256_hash (txout_ser x))) else Inr []) (\<lambda>single.
        Inr ([0, hash_type] @ to_le_bytes (version tx) @ locktime_ser tx @ all
          @ (if sign_none \<or> sign_single then [] else sha256_hash (outputs_ser tx))
          @ [(if leaf = None then 0 else 2) + (if annex = None then 0 else 1)] @ own
          @ (case annex of None \<Rightarrow> [] | Some a \<Rightarrow> sha256_hash (bytes_ser (annex_as_bytes a)))
          @ single
          @ (case leaf of None \<Rightarrow> [] | Some (h, code_pos) \<Rightarrow> h @ [0] @ to_le_bytes code_pos)))))))"

definition bip143_message :: "'k Transaction \<Rightarrow> nat \<Rightarrow> bytes \<Rightarrow> u64 \<Rightarrow> u32 \<Rightarrow> index_error + bytes" where
  "bip143_message tx i script_code value hash_type =
     (let anyone_can_pay = (hash_type AND 0x80 = 0x80);
          sign_none = (hash_type AND 0x1f = 2);
          sign_single = (hash_type AND 0x1f = 3) in
      and_then (tx_in tx i) (\<lambda>txin.
        Inr (to_le_bytes (version tx)
          @ (if anyone_can_pay then zero_hash else sha256d_hash (outpoints_ser tx))
          @ (if anyone_can_pay \<or> sign_none \<or> sign_single then zero_hash else sha256d_hash (sequences_ser tx))
          @ outpoint_ser (previous_output txin) @ bytes_ser script_code @ to_le_bytes value @ to_le_bytes (sequence txin)
          @ (if sign_none then zero_hash
             else if sign_single
             then (if i < length (tx_output tx) then sha256d_hash (txout_ser (tx_output tx ! i)) else zero_hash)
             else sha256d_hash (outputs_ser tx))
          @ locktime_ser tx @ to_le_bytes hash_type)))"

text \<open>
  The serialiser of the reference node (\<open>CTransactionSignatureSerializer\<close>), which visits inputs and outputs by position.
  The script code of the signed input is given as it is written.
\<close>

definition core_input :: "'k Transaction \<Rightarrow> nat \<Rightarrow> bytes \<Rightarrow> u32 \<Rightarrow> nat \<Rightarrow> bytes" where
  "core_input tx i code n k =
     (let k = (if n AND 0x80 \<noteq> 0 then i else k) in
      outpoint_ser (previous_output (tx_input tx ! k))
      @ (if k \<noteq> i then bytes_ser [] else code)
      @ to_le_bytes (if k \<noteq> i \<and> (n AND 0x1f = 3 \<or> n AND 0x1f = 2) then 0 else sequence (tx_input tx ! k)))"

definition core_output :: "'k Transaction \<Rightarrow> nat \<Rightarrow> u32 \<Rightarrow> nat \<Rightarrow> bytes" where
  "core_output tx i n k =
     (if n AND 0x1f = 3 \<and> k \<noteq> i then txout_ser \<lparr> txout_value = - 1, script_pubkey = [] \<rparr>
      else txout_ser (tx_output tx ! k))"

definition core_message :: "'k Transaction \<Rightarrow> nat \<Rightarrow> bytes \<Rightarrow> u32 \<Rightarrow> bytes" where
  "core_message tx i code n =
     (let n_inputs = (if n AND 0x80 \<noteq> 0 then 1 else length (tx_input tx));
          n_outputs = (if n AND 0x1f = 2 then 0 else if n AND 0x1f = 3 then i + 1 else length (tx_output tx)) in
      to_le_bytes (version tx)
      @ varint_ser (of_nat n_inputs) @ concat (map (core_input tx i code n) [0..<n_inputs])
      @ varint_ser (of_nat n_outputs) @ concat (map (core_output tx i n) [0..<n_outputs])
      @ locktime_ser tx @ to_le_bytes n)"

text \<open>
  The script code as the node writes it (\<open>SerializeScriptCode\<close>): a walk over the operations that leaves out every
  \<open>OP_CODESEPARATOR\<close> (\<open>0xab\<close>), behind the length of the script less the number of separators. \<open>get_op\<close> is the node's
  \<open>GetOp\<close>: how far the position moves, also when a push is cut short, and the opcode unless it fails.
\<close>

definition get_op :: "bytes \<Rightarrow> nat \<times> u8 option" where
  "get_op s = (case s of [] \<Rightarrow> (0, None)
     | b # r \<Rightarrow>
       (let k = (if b = 0x4c then 1 else if b = 0x4d then 2 else if b = 0x4e then 4 else 0);
            size = (if b < 0x4c then unat b else le_value (take k r)) in
        if b > 0x4e then (1, Some b)
        else if length r < k then (1, None)
        else if length r < k + size then (1 + k, None)
        else (1 + k + size, Some b)))"

lemma get_op_advances: "snd (get_op s) = Some b \<Longrightarrow> length s - fst (get_op s) < length s"
  by (auto simp: get_op_def Let_def split: list.splits if_splits)

function code_separators :: "bytes \<Rightarrow> nat" where
  "code_separators s =
     (if snd (get_op s) = None then 0
      else (if snd (get_op s) = Some 0xab then 1 else 0) + code_separators (drop (fst (get_op s)) s))"
  by pat_completeness auto
termination
  by (relation "measure length") (auto intro: get_op_advances)

function without_separators :: "bytes \<Rightarrow> bytes" where
  "without_separators s =
     (if snd (get_op s) = None then take (fst (get_op s)) s
      else (if snd (get_op s) = Some 0xab then [] else take (fst (get_op s)) s)
         @ without_separators (drop (fst (get_op s)) s))"
  by pat_completeness auto
termination
  by (relation "measure length") (auto intro: get_op_advances)

definition script_code_ser :: "bytes \<Rightarrow> bytes" where
  "script_code_ser s = varint_ser (of_nat (length s - code_separators s)) @ without_separators s"

text \<open>The scripts that the walk reads to their end without meeting a separator.\<close>

function no_separator :: "bytes \<Rightarrow> bool" where
  "no_separator s \<longleftrightarrow>
     (if snd (get_op s) = None then s = []
      else snd (get_op s) \<noteq> Some 0xab \<and> no_separator (drop (fst (get_op s)) s))"
  by pat_completeness auto
termination
  by (relation "measure length") (auto intro: get_op_advances)

declare code_separators.simps [simp del] without_separators.simps [simp del] no_separator.simps [simp del]

lemma no_separator_walk: "no_separator s \<Longrightarrow> code_separators s = 0 \<and> without_separators s = s"
proof (induction s rule: no_separator.induct)
  case (1 s)
  note unfold = code_separators.simps [of s] without_separators.simps [of s]
  show ?case
  proof (cases "snd (get_op s) = None")
    case True
    then have "s = []" using "1.prems" no_separator.simps [of s] by simp
    then show ?thesis using unfold True by simp
  next
    case False
    then have op: "snd (get_op s) \<noteq> Some 0xab" "no_separator (drop (fst (get_op s)) s)"
      using "1.prems" no_separator.simps [of s] by simp_all
    from "1.IH" [OF False op(2)] op(1) False show ?thesis using unfold by (simp del: not_None_eq)
  qed
qed

lemma script_code_ser_plain: "no_separator s \<Longrightarrow> script_code_ser s = bytes_ser s"
  by (simp add: script_code_ser_def bytes_ser_def no_separator_walk)

section \<open>Hash types\<close>

lemma and_one_bit: "(n :: 'a::len word) AND 2 ^ k = (if bit n k then 2 ^ k else 0)"
  by (rule bit_word_eqI) (auto simp: bit_simps)

lemma split_0x9f:
  fixes n :: u32
  shows "n AND 0x9f = (n AND 0x1f) + (n AND 0x80)" and "n AND 0x80 = 0 \<or> n AND 0x80 = 0x80"
    and "n AND 0x1f < 0x20"
proof -
  have "n AND 0x9f = (n AND 0x1f) OR (n AND 0x80)" by (simp flip: bit.conj_disj_distrib)
  moreover have "(n AND 0x1f) AND (n AND 0x80) = 0" by (simp add: ac_simps)
  ultimately show "n AND 0x9f = (n AND 0x1f) + (n AND 0x80)" by (simp add: disjunctive_add_eq_or)
  show "n AND 0x80 = 0 \<or> n AND 0x80 = 0x80"
    using and_one_bit [of n 7] by (simp split: if_splits)
  show "n AND 0x1f < 0x20"
    using word_and_le1 [of n "0x1f"] by (rule le_less_trans) simp
qed

lemma ecdsa_from_consensus_split:
  "ecdsa_split_anyonecanpay_flag (ecdsa_from_consensus n) =
     (if n AND 0x1f = 2 then EcdsaNone else if n AND 0x1f = 3 then EcdsaSingle else EcdsaAll, n AND 0x80 \<noteq> 0)"
proof -
  define lo where "lo = n AND 0x1f"
  have lo: "unat lo < 32" using split_0x9f(3) [of n] by (simp add: lo_def word_less_nat_alt)
  have u: "unat (lo + 0x80) = unat lo + 128" using lo by (simp add: unat_word_ariths)
  have x: "n AND (0x1f OR 0x80) = lo + (n AND 0x80)" using split_0x9f(1) [of n] by (simp add: lo_def)
  have acp: "(lo + (n AND 0x80)) AND 0x80 = n AND 0x80" unfolding x [symmetric] by (simp add: and.assoc)
  from split_0x9f(2) [of n] show ?thesis
  proof
    assume h: "n AND 0x80 = 0"
    show ?thesis
      unfolding ecdsa_from_consensus_def Let_def x acp lo_def [symmetric] unfolding h
      using lo by (auto simp: word_unat_eq_iff)
  next
    assume h: "n AND 0x80 = 0x80"
    show ?thesis
      unfolding ecdsa_from_consensus_def Let_def x acp lo_def [symmetric] unfolding h
      using lo u by (auto simp: word_unat_eq_iff)
  qed
qed

lemma ecdsa_bits:
  "ecdsa_split_anyonecanpay_flag ty =
     (if ecdsa_to_u32 ty AND 0x1f = 2 then EcdsaNone else if ecdsa_to_u32 ty AND 0x1f = 3 then EcdsaSingle else EcdsaAll,
      ecdsa_to_u32 ty AND 0x80 = 0x80)"
  by (cases ty) simp_all

lemma tap_bits:
  "snd (tap_split_anyonecanpay_flag ty) \<longleftrightarrow> tap_to_u8 ty AND 0x80 = 0x80"
  "fst (tap_split_anyonecanpay_flag ty) = TapNone \<longleftrightarrow> tap_to_u8 ty AND 3 = 2"
  "fst (tap_split_anyonecanpay_flag ty) = TapSingle \<longleftrightarrow> tap_to_u8 ty AND 3 = 3"
  by (cases ty; simp)+

section \<open>Encoders never fail\<close>

lemma script_encode_total [simp]: "script_encode b = wrote (bytes_ser b)"
  by (simp add: script_encode_def consensus_encode_with_size_def varint_encode_wrote bytes_ser_def)

lemma outpoint_encode_total [simp]: "outpoint_encode p = wrote (outpoint_ser p)"
  by (simp add: outpoint_encode_def outpoint_ser_def)

lemma txout_encode_total [simp]: "txout_encode x = wrote (txout_ser x)"
  by (simp add: txout_encode_def txout_ser_def)

lemma txin_encode_total [simp]: "txin_encode i = wrote (txin_ser i)"
  by (simp add: txin_encode_def txin_ser_def)

lemma annex_encode_total [simp]: "annex_encode a = wrote (bytes_ser (annex_as_bytes a))"
  unfolding annex_encode_def script_encode_def [symmetric] by simp

lemma locktime_encode_total [simp]: "locktime_encode (lock_time tx) = wrote (locktime_ser tx)"
  by (simp add: locktime_encode_def locktime_ser_def)

lemma enc_list_total: "enc_list (\<lambda>x. wrote (f x)) xs = wrote (concat (map f xs))"
  by (rule enc_list_wrote) simp

lemma enc_list_txout: "enc_list txout_encode xs = wrote (concat (map txout_ser xs))"
  by (rule enc_list_wrote) simp

lemma digest_of_wrote [simp]: "digest_of (wrote b) = Some (sha256_hash b)"
  by (simp add: digest_of_def wrote_def)

section \<open>The cache holds what it would compute\<close>

definition common_of :: "'k Transaction \<Rightarrow> CommonCache" where
  "common_of tx = \<lparr> common_prevouts = sha256_hash (outpoints_ser tx),
     common_sequences = sha256_hash (sequences_ser tx), common_outputs = sha256_hash (outputs_ser tx) \<rparr>"

definition segwit_of :: "'k Transaction \<Rightarrow> SegwitCache" where
  "segwit_of tx = \<lparr> segwit_prevouts = sha256d_hash (outpoints_ser tx),
     segwit_sequences = sha256d_hash (sequences_ser tx), segwit_outputs = sha256d_hash (outputs_ser tx) \<rparr>"

definition taproot_of :: "TxOut list \<Rightarrow> TaprootCache" where
  "taproot_of ps = \<lparr> amounts = sha256_hash (amounts_ser ps), script_pubkeys = sha256_hash (scripts_ser ps) \<rparr>"

definition cache_ok :: "TxOut list \<Rightarrow> 'k Transaction \<Rightarrow> 'k SighashCache \<Rightarrow> bool" where
  "cache_ok ps tx c \<longleftrightarrow> cache_tx c = tx
     \<and> common_slot c \<in> {None, Some (common_of tx)}
     \<and> segwit_slot c \<in> {None, Some (segwit_of tx)}
     \<and> taproot_slot c \<in> {None, Some (taproot_of ps)}"

lemma cache_ok_new: "cache_ok ps tx (sighash_cache_new tx)"
  by (simp add: cache_ok_def sighash_cache_new_def)

lemma common_cache_init_eq: "common_cache_init tx = Some (common_of tx)"
  by (simp add: common_cache_init_def common_of_def enc_list_total enc_list_txout outpoints_ser_def sequences_ser_def outputs_ser_def)

lemma taproot_cache_init_eq: "taproot_cache_init ps = Some (taproot_of ps)"
  by (simp add: taproot_cache_init_def taproot_of_def enc_list_total amounts_ser_def scripts_ser_def)

text \<open>
  \<open>performs\<close>: from every good cache, an operation gives the error or writes the bytes it should, and leaves
  a good cache.
\<close>

definition performs :: "TxOut list \<Rightarrow> 'k Transaction \<Rightarrow> ('k, 'e, unit) signing \<Rightarrow> 'e + bytes \<Rightarrow> bool" where
  "performs ps tx m r \<longleftrightarrow> (\<forall>c w. cache_ok ps tx c \<longrightarrow> (\<exists>c' w'. cache_ok ps tx c'
     \<and> m (c, w) = (case r of Inl e \<Rightarrow> (Inl (SigningSighash e), c', w') | Inr b \<Rightarrow> (Inr (), c', w @ b))))"

lemma performs_wrote: "performs ps tx (swrite (wrote b)) (Inr b)"
  by (auto simp: performs_def swrite_def wrote_def)

lemma performs_nothing: "performs ps tx (sreturn ()) (Inr [])"
  by (auto simp: performs_def sreturn_def)

lemma performs_Cons:
  assumes "performs ps tx m r" and "performs ps tx (steps ms) q"
  shows "performs ps tx (steps (m # ms)) (and_then r (\<lambda>a. and_then q (\<lambda>b. Inr (a @ b))))"
  unfolding performs_def
proof (intro allI impI)
  fix c w assume "cache_ok ps tx c"
  with assms(1) obtain c' w' where m: "cache_ok ps tx c'"
    "m (c, w) = (case r of Inl e \<Rightarrow> (Inl (SigningSighash e), c', w') | Inr b \<Rightarrow> (Inr (), c', w @ b))"
    unfolding performs_def by blast
  show "\<exists>c' w'. cache_ok ps tx c' \<and> steps (m # ms) (c, w) =
      (case and_then r (\<lambda>a. and_then q (\<lambda>b. Inr (a @ b))) of
         Inl e \<Rightarrow> (Inl (SigningSighash e), c', w') | Inr b \<Rightarrow> (Inr (), c', w @ b))"
  proof (cases r)
    case (Inl e)
    with m show ?thesis by (auto simp: sbind_def)
  next
    case (Inr a)
    from assms(2) m(1) obtain d v where "cache_ok ps tx d" "steps ms (c', w @ a) =
        (case q of Inl e \<Rightarrow> (Inl (SigningSighash e), d, v) | Inr b \<Rightarrow> (Inr (), d, (w @ a) @ b))"
      unfolding performs_def by blast
    with m Inr show ?thesis by (cases q) (auto simp: sbind_def)
  qed
qed

lemma performs_steps_Nil: "performs ps tx (steps []) (Inr [])"
  by (simp add: performs_nothing)

lemma performs_swhen: "(b \<Longrightarrow> performs ps tx m r) \<Longrightarrow> performs ps tx (swhen b m) (if b then r else Inr [])"
  by (simp add: swhen_def performs_nothing)

lemma performs_if:
  "(b \<Longrightarrow> performs ps tx m r) \<Longrightarrow> (\<not> b \<Longrightarrow> performs ps tx n q) \<Longrightarrow> performs ps tx (if b then m else n) (if b then r else q)"
  by simp

lemma performs_sresult:
  "(\<And>x. r = Inr x \<Longrightarrow> performs ps tx (f x) (g x)) \<Longrightarrow> performs ps tx (sbind (sresult r) f) (and_then r g)"
  by (cases r) (auto simp: performs_def sbind_def sresult_def)

lemma performs_check: "performs ps tx (sresult r) (and_then r (\<lambda>_. Inr []))"
  by (cases r) (auto simp: performs_def sresult_def)

lemma performs_sengine: "performs ps tx (sbind (sengine h (wrote b)) (\<lambda>x. swrite (wrote (f x)))) (Inr (f (h b)))"
  by (auto simp: performs_def sbind_def sengine_def swrite_def wrote_def)

lemma performs_common: "performs ps tx (sbind common_cache (\<lambda>v. swrite (wrote (f v)))) (Inr (f (common_of tx)))"
  by (auto simp: performs_def sbind_def common_cache_def swrite_def cache_ok_def common_cache_init_eq
      wrote_def split: option.splits)

lemma performs_taproot: "performs ps tx (sbind (taproot_cache ps) (\<lambda>v. swrite (wrote (f v)))) (Inr (f (taproot_of ps)))"
  by (auto simp: performs_def sbind_def taproot_cache_def swrite_def cache_ok_def taproot_cache_init_eq
      wrote_def split: option.splits)

lemma segwit_from_common: "\<lparr> segwit_prevouts = hash_again (common_prevouts (common_of tx)),
    segwit_sequences = hash_again (common_sequences (common_of tx)),
    segwit_outputs = hash_again (common_outputs (common_of tx)) \<rparr> = segwit_of tx"
  by (simp add: common_of_def segwit_of_def hash_again_def sha256d_hash_eq)

lemma performs_segwit: "performs ps tx (sbind segwit_cache (\<lambda>v. swrite (wrote (f v)))) (Inr (f (segwit_of tx)))"
  by (auto simp: performs_def sbind_def segwit_cache_def common_cache_def swrite_def cache_ok_def common_cache_init_eq
      wrote_def segwit_from_common Let_def split: option.splits)

lemmas performs_intros =
  performs_wrote performs_nothing performs_steps_Nil performs_check performs_sengine performs_common
  performs_segwit performs_Cons performs_swhen performs_if performs_sresult

lemma and_then_assoc: "and_then (and_then m f) g = and_then m (\<lambda>x. and_then (f x) g)"
  by (cases m) simp_all

lemma and_then_if: "and_then (if b then m else n) f = (if b then and_then m f else and_then n f)"
  by simp

section \<open>The code writes the messages\<close>

definition agrees :: "TxOut list \<Rightarrow> Prevouts \<Rightarrow> TapSighashType \<Rightarrow> bool" where
  "agrees ps prevouts ty \<longleftrightarrow>
     (case prevouts of PrevoutsAll qs \<Rightarrow> qs = ps \<or> snd (tap_split_anyonecanpay_flag ty) | PrevoutsOne _ _ \<Rightarrow> True)"

lemma performs_get_all:
  assumes "agrees ps prevouts ty" and "\<not> snd (tap_split_anyonecanpay_flag ty)"
  shows "performs ps tx (sbind (sresult (get_all prevouts)) (\<lambda>qs. sbind (taproot_cache qs) (\<lambda>v. swrite (wrote (f v)))))
    (and_then (get_all prevouts) (\<lambda>qs. Inr (f (taproot_of qs))))"
proof (rule performs_sresult)
  fix qs assume "get_all prevouts = Inr qs"
  with assms have "qs = ps" by (cases prevouts) (auto simp: agrees_def)
  then show "performs ps tx (sbind (taproot_cache qs) (\<lambda>v. swrite (wrote (f v)))) (Inr (f (taproot_of qs)))"
    by (simp add: performs_taproot)
qed

lemma performs_tx: "performs ps tx (F tx) r \<Longrightarrow> performs ps tx (\<lambda>(c, w). F (cache_tx c) (c, w)) r"
  by (auto simp: performs_def cache_ok_def)

lemma performs_eq: "performs ps tx m r \<Longrightarrow> r = r' \<Longrightarrow> performs ps tx m r'"
  by simp

lemma spend_type_eq: "((if a then 1 else 0) OR (if b then 2 else 0) :: u8) = (if b then 2 else 0) + (if a then 1 else 0)"
  by simp

lemma performs_annex:
  "performs ps tx (case annex of None \<Rightarrow> sreturn ()
      | Some a \<Rightarrow> sbind (sengine sha256_hash (wrote (bytes_ser (annex_as_bytes a)))) (\<lambda>h. swrite (wrote h)))
    (Inr (case annex of None \<Rightarrow> [] | Some a \<Rightarrow> sha256_hash (bytes_ser (annex_as_bytes a))))"
  by (cases annex) (auto simp: performs_nothing intro: performs_sengine [where f = "\<lambda>x. x"])

lemma performs_leaf:
  "performs ps tx (case leaf of None \<Rightarrow> sreturn ()
      | Some (h, p) \<Rightarrow> steps [swrite (wrote h), swrite (wrote [KEY_VERSION_0]), swrite (wrote (to_le_bytes p))])
    (Inr (case leaf of None \<Rightarrow> [] | Some (h, p) \<Rightarrow> h @ [0] @ to_le_bytes (p :: u32)))"
proof (cases leaf)
  case (Some l)
  show ?thesis
    unfolding Some option.case case_prod_beta
    by (rule performs_eq, (rule performs_intros)+) (simp add: KEY_VERSION_0_def)
qed (simp add: performs_nothing)

lemma taproot_performs:
  assumes "agrees ps prevouts ty"
  shows "performs ps tx (taproot_encode_signing_data_to i prevouts annex leaf ty)
    (bip341_message tx prevouts i annex leaf (tap_to_u8 ty))"
proof -
  obtain sighash acp where ty: "tap_split_anyonecanpay_flag ty = (sighash, acp)" by fastforce
  have g: "\<not> acp \<Longrightarrow> \<not> snd (tap_split_anyonecanpay_flag ty)" by (simp add: ty)
  show ?thesis
    unfolding taproot_encode_signing_data_to_def Let_def ty prod.case spend_type_eq
    by (rule performs_tx,
        simp only: array_encode_wrote int_encode_wrote emit_u8_wrote outpoint_encode_total script_encode_total
          txout_encode_total locktime_encode_total annex_encode_total,
        rule performs_eq,
        (rule performs_annex performs_leaf performs_get_all [OF assms g] performs_intros | assumption)+,
        insert ty,
        cases "check_all prevouts tx"; cases "get_all prevouts"; cases "tx_in tx i"; cases "prevouts_get prevouts i";
        cases "tap_single_output tx i"; cases ty;
        simp add: bip341_message_def bip341_prevouts_def bip341_input_def common_of_def taproot_of_def txout_ser_def)
qed

lemma segwit_performs:
  "performs ps tx (segwit_v0_encode_signing_data_to i script v ty) (bip143_message tx i script v (ecdsa_to_u32 ty))"
proof -
  obtain sighash acp where ty: "ecdsa_split_anyonecanpay_flag ty = (sighash, acp)" by fastforce
  show ?thesis
    unfolding segwit_v0_encode_signing_data_to_def Let_def ty prod.case
    by (rule performs_tx,
        simp only: array_encode_wrote int_encode_wrote emit_u8_wrote outpoint_encode_total script_encode_total
          txout_encode_total locktime_encode_total,
        rule performs_eq, (rule performs_intros)+,
        insert ty,
        cases "tx_in tx i"; cases ty; simp add: bip143_message_def segwit_of_def)
qed

text \<open>The digest of a whole operation, from a good cache.\<close>

lemma signing_hash_performs:
  assumes "performs ps tx m r" and "cache_ok ps tx c"
  shows "\<exists>c'. cache_ok ps tx c' \<and>
    signing_hash digest m c = (case r of Inl e \<Rightarrow> Some (Inl e) | Inr b \<Rightarrow> map_option Inr (digest b), c')"
proof -
  from assms obtain c' w' where "cache_ok ps tx c'"
    "m (c, []) = (case r of Inl e \<Rightarrow> (Inl (SigningSighash e), c', w') | Inr b \<Rightarrow> (Inr (), c', [] @ b))"
    unfolding performs_def by blast
  then show ?thesis by (cases r) (auto simp: signing_hash_def)
qed

lemma tagged_engine_digest:
  "map_option (\<lambda>eng. sha256t_from_engine (sha256_input eng b)) (tag_engine tag)
   = Some (sha256_hash (sha256_hash tag @ sha256_hash tag @ b))"
  using tagged_hash_correct [of tag b] by auto

text \<open>Tagged hashes as BIP 340 writes them.\<close>

definition tagged_hash :: "string \<Rightarrow> bytes \<Rightarrow> bytes" where
  "tagged_hash tag b = (let t = sha256_hash (map of_char tag) in sha256_hash (t @ t @ b))"

lemma tap_sighash_digest_eq: "tap_sighash_digest b = Some (tagged_hash ''TapSighash'' b)"
  by (simp add: tap_sighash_digest_def tagged_engine_digest tagged_hash_def Let_def)

lemma tagged_digest_wrote: "tagged_digest tag (wrote b) = Some (tagged_hash tag b)"
  by (simp add: tagged_digest_def wrote_def tagged_engine_digest tagged_hash_def Let_def)

lemma leaf_hash_eq:
  "leaf_hash p = Some (tagged_hash ''TapLeaf''
     (leaf_version_to_consensus (path_leaf_version p) # bytes_ser (path_script p)))"
  by (simp add: leaf_hash_def tagged_digest_wrote)

section \<open>Legacy signing data\<close>

lemma transaction_encode_legacy:
  assumes "tx_input tx \<noteq> []" and "list_all witness_is_empty (tx_input tx)" and "mw_tx tx = None" and "\<not> is_hog_ex tx"
  shows "transaction_encode K tx = wrote (base_ser tx)"
proof -
  have "enc_list txin_encode is = wrote (concat (map txin_ser is))" for "is"
    by (rule enc_list_wrote) simp
  moreover have "\<not> list_ex (\<lambda>i. \<not> witness_is_empty i) (tx_input tx)"
    using assms(2) by (simp add: list_ex_iff list_all_iff)
  ultimately show ?thesis
    using assms by (simp add: transaction_encode_def base_ser_def vec_encode_def vec_ser_def varint_encode_wrote
        enc_list_txout locktime_ser_def)
qed

lemma map_enumerate: "map (\<lambda>(n, x). f n x) (enumerate 0 xs) = map (\<lambda>k. f k (xs ! k)) [0..<length xs]"
  by (rule nth_equalityI) (simp_all add: nth_enumerate_eq)

lemma is_single_split: "is_single ty \<longleftrightarrow> fst (ecdsa_split_anyonecanpay_flag ty) = EcdsaSingle"
  by (cases ty) simp_all

lemma legacy_inputs_core:
  assumes "i < length (tx_input tx)" and "ecdsa_split_anyonecanpay_flag (ecdsa_from_consensus n) = (sighash, acp)"
  obtains ins where "legacy_inputs tx i script sighash acp = Some ins" and "ins \<noteq> []"
    and "list_all witness_is_empty ins" and "length ins = (if n AND 0x80 \<noteq> 0 then 1 else length (tx_input tx))"
    and "map txin_ser ins = map (core_input tx i (bytes_ser script) n) [0..<length ins]"
proof (cases acp)
  case True
  show ?thesis
    by (rule that) (use assms True in \<open>auto simp: legacy_inputs_def ecdsa_from_consensus_split core_input_def
        txin_ser_def witness_new_def\<close>)
next
  case False
  have bits: "sighash = EcdsaSingle \<or> sighash = EcdsaNone \<longleftrightarrow> n AND 0x1f = 3 \<or> n AND 0x1f = 2" "n AND 0x80 = 0"
    using assms(2) False by (auto simp: ecdsa_from_consensus_split split: if_splits)
  have ins: "legacy_inputs tx i script sighash acp = Some (map (\<lambda>k.
      \<lparr> previous_output = previous_output (tx_input tx ! k), script_sig = (if k = i then script else []),
        sequence = (if k \<noteq> i \<and> (n AND 0x1f = 3 \<or> n AND 0x1f = 2) then 0 else sequence (tx_input tx ! k)),
        txin_witness = witness_new \<rparr>) [0..<length (tx_input tx)])"
    using False by (simp add: legacy_inputs_def map_enumerate bits(1))
  show ?thesis
    by (rule that [OF ins]) (use assms(1) bits(2) in
        \<open>auto simp: core_input_def txin_ser_def witness_new_def list_all_iff Let_def\<close>)
qed

lemma legacy_outputs_core:
  assumes "ecdsa_split_anyonecanpay_flag (ecdsa_from_consensus n) = (sighash, acp)"
    and "sighash = EcdsaSingle \<Longrightarrow> i < length (tx_output tx)"
  obtains outs where "legacy_outputs tx i sighash = Some outs"
    and "length outs = (if n AND 0x1f = 2 then 0 else if n AND 0x1f = 3 then i + 1 else length (tx_output tx))"
    and "map txout_ser outs = map (core_output tx i n) [0..<length outs]"
proof -
  consider (none) "n AND 0x1f = 2" "sighash = EcdsaNone" | (single) "n AND 0x1f = 3" "sighash = EcdsaSingle"
    | (all) "n AND 0x1f \<noteq> 2" "n AND 0x1f \<noteq> 3" "sighash = EcdsaAll"
    using assms(1) by (auto simp: ecdsa_from_consensus_split split: if_splits)
  then show ?thesis
  proof cases
    case none
    then show ?thesis by (intro that) (auto simp: legacy_outputs_def)
  next
    case single
    have "txout_null = \<lparr> txout_value = - 1, script_pubkey = [] \<rparr>" by (simp add: txout_null_def)
    with single show ?thesis using assms(2)
      by (intro that) (auto simp: legacy_outputs_def map_enumerate core_output_def)
  next
    case all
    then show ?thesis
      by (intro that [of "tx_output tx"]) (auto simp: legacy_outputs_def core_output_def intro: nth_equalityI)
  qed
qed

lemma legacy_inner_core:
  fixes tx :: "'k Transaction"
  assumes i: "i < length (tx_input tx)"
    and s: "\<not> is_invalid_use_of_sighash_single n i (length (tx_output tx))"
  shows "legacy_encode_inner K tx i script n = wrote (core_message tx i (bytes_ser script) n)"
proof -
  obtain sighash acp where ty: "ecdsa_split_anyonecanpay_flag (ecdsa_from_consensus n) = (sighash, acp)" by fastforce
  have single: "sighash = EcdsaSingle \<Longrightarrow> i < length (tx_output tx)"
    using s ty by (auto simp: is_invalid_use_of_sighash_single_def is_single_split)
  obtain ins where ins: "legacy_inputs tx i script sighash acp = Some ins" "ins \<noteq> []" "list_all witness_is_empty ins"
    "length ins = (if n AND 0x80 \<noteq> 0 then 1 else length (tx_input tx))"
    "map txin_ser ins = map (core_input tx i (bytes_ser script) n) [0..<length ins]"
    by (rule legacy_inputs_core [OF i ty])
  obtain outs where outs: "legacy_outputs tx i sighash = Some outs"
    "length outs = (if n AND 0x1f = 2 then 0 else if n AND 0x1f = 3 then i + 1 else length (tx_output tx))"
    "map txout_ser outs = map (core_output tx i n) [0..<length outs]"
    by (rule legacy_outputs_core [OF ty single])
  have "core_message tx i (bytes_ser script) n = to_le_bytes (version tx) @ varint_ser (of_nat (length ins)) @ concat (map txin_ser ins)
      @ varint_ser (of_nat (length outs)) @ concat (map txout_ser outs) @ locktime_ser tx @ to_le_bytes n"
    unfolding core_message_def Let_def ins(5) outs(3) unfolding ins(4) outs(2) by simp
  then show ?thesis
    using ins(2,3)
    by (simp add: legacy_encode_inner_def ty ins(1) outs(1) transaction_encode_legacy base_ser_def vec_ser_def locktime_ser_def)
qed

text \<open>
  The legacy digest: the error, the number one of the \<open>SIGHASH_SINGLE\<close> bug, or the hash of the message with the script code
  as it is passed.
\<close>

definition core_signature_hash :: "'k Transaction \<Rightarrow> nat \<Rightarrow> bytes \<Rightarrow> u32 \<Rightarrow> index_error + bytes" where
  "core_signature_hash tx i script n =
     (if i \<ge> length (tx_input tx) then Inl (IndexOutOfBounds i (length (tx_input tx)))
      else if n AND 0x1f = 3 \<and> i \<ge> length (tx_output tx) then Inr (1 # replicate 31 0)
      else Inr (sha256d_hash (core_message tx i (bytes_ser script) n)))"

lemma invalid_single_iff:
  "is_invalid_use_of_sighash_single n i k \<longleftrightarrow> n AND 0x1f = 3 \<and> i \<ge> k"
  by (auto simp: is_invalid_use_of_sighash_single_def is_single_split ecdsa_from_consensus_split)

lemma legacy_signature_hash_core:
  "legacy_signature_hash K c i script n = Some (core_signature_hash (cache_tx c) i script n)"
proof -
  have "UINT256_ONE = 1 # replicate 31 0" by (simp add: UINT256_ONE_def numeral_eq_Suc)
  then show ?thesis
    by (auto simp: legacy_signature_hash_def legacy_encode_signing_data_to_def core_signature_hash_def tx_in_def Let_def
        legacy_inner_core invalid_single_iff wrote_def)
qed

section \<open>What a digest depends on\<close>

definition signed_part :: "'k Transaction \<Rightarrow> u32 \<times> LockTime \<times> (OutPoint \<times> u32) list \<times> TxOut list" where
  "signed_part tx = (version tx, lock_time tx, map (\<lambda>i. (previous_output i, sequence i)) (tx_input tx), tx_output tx)"

lemma signed_partD:
  assumes "signed_part a = signed_part b"
  shows "version a = version b" "lock_time a = lock_time b" "tx_output a = tx_output b"
    "length (tx_input a) = length (tx_input b)"
    "outpoints_ser a = outpoints_ser b" "sequences_ser a = sequences_ser b" "outputs_ser a = outputs_ser b"
    "locktime_ser a = locktime_ser b"
    "k < length (tx_input b) \<Longrightarrow> previous_output (tx_input a ! k) = previous_output (tx_input b ! k)"
    "k < length (tx_input b) \<Longrightarrow> sequence (tx_input a ! k) = sequence (tx_input b ! k)"
proof -
  have e: "map (\<lambda>i. (previous_output i, sequence i)) (tx_input a) = map (\<lambda>i. (previous_output i, sequence i)) (tx_input b)"
    and o: "version a = version b" "lock_time a = lock_time b" "tx_output a = tx_output b"
    using assms by (simp_all add: signed_part_def)
  from o show "version a = version b" "lock_time a = lock_time b" "tx_output a = tx_output b"
    "outputs_ser a = outputs_ser b" "locktime_ser a = locktime_ser b"
    by (simp_all add: outputs_ser_def locktime_ser_def)
  from e show l: "length (tx_input a) = length (tx_input b)" by (rule map_eq_imp_length_eq)
  have ser: "outpoints_ser t = concat (map (outpoint_ser \<circ> fst) (map (\<lambda>i. (previous_output i, sequence i)) (tx_input t)))"
    "sequences_ser t = concat (map (to_le_bytes \<circ> snd) (map (\<lambda>i. (previous_output i, sequence i)) (tx_input t)))"
    for t :: "'k Transaction" by (simp_all add: outpoints_ser_def sequences_ser_def o_def)
  show "outpoints_ser a = outpoints_ser b" "sequences_ser a = sequences_ser b" unfolding ser e by (rule refl)+
  assume "k < length (tx_input b)"
  then show "previous_output (tx_input a ! k) = previous_output (tx_input b ! k)"
    "sequence (tx_input a ! k) = sequence (tx_input b ! k)"
    using arg_cong [OF e, of "\<lambda>xs. xs ! k"] l by simp_all
qed

lemma messages_signed_part:
  assumes "signed_part a = signed_part b"
  shows "bip341_message a prevouts i annex leaf t = bip341_message b prevouts i annex leaf t"
    and "bip143_message a i script v n = bip143_message b i script v n"
    and "core_signature_hash a i script n = core_signature_hash b i script n"
proof -
  note e = signed_partD [OF assms]
  have i: "tx_in a i = Inr x \<Longrightarrow> \<exists>y. tx_in b i = Inr y \<and> previous_output y = previous_output x \<and> sequence y = sequence x"
    and n: "tx_in a i = Inl f \<Longrightarrow> tx_in b i = Inl f" for x f
    using e(4) e(9,10) [of i] by (auto simp: tx_in_def split: if_splits)
  have c: "check_all prevouts a = check_all prevouts b" by (simp add: check_all_def e split: Prevouts.splits)
  have o: "tap_single_output a i = tap_single_output b i" by (simp add: tap_single_output_def e)
  have p: "bip341_prevouts a = bip341_prevouts b" by (rule ext) (simp add: bip341_prevouts_def e)
  have q: "bip341_input a prevouts i = bip341_input b prevouts i"
    by (cases "tx_in a i") (use i n in \<open>fastforce simp: bip341_input_def\<close>)+
  show "bip341_message a prevouts i annex leaf t = bip341_message b prevouts i annex leaf t"
    by (simp only: bip341_message_def e c o p q)
  show "bip143_message a i script v n = bip143_message b i script v n"
    by (cases "tx_in a i") (use i n in \<open>fastforce simp: bip143_message_def Let_def e\<close>)+
  have "core_input a i code n k = core_input b i code n k"
    if "k < length (tx_input b)" "i < length (tx_input b)" for k code
    using that by (simp add: core_input_def Let_def e)
  moreover have "core_output a i n = core_output b i n" by (rule ext) (simp add: core_output_def e)
  ultimately have "core_message a i (bytes_ser script) n = core_message b i (bytes_ser script) n" if "i < length (tx_input b)"
    using that less_le_trans [of 0 "Suc i" "length (tx_input b)"]
    by (auto simp: core_message_def Let_def e intro!: arg_cong [where f = concat])
  then show "core_signature_hash a i script n = core_signature_hash b i script n"
    by (simp add: core_signature_hash_def e)
qed

section \<open>Sequences of calls\<close>

datatype sighash_call =
  CallTaproot nat Prevouts "annex option" "(bytes \<times> u32) option" TapSighashType
| CallP2wpkh nat bytes u64 EcdsaSighashType
| CallP2wsh nat bytes u64 EcdsaSighashType
| CallLegacy nat bytes u32
| CallWitnessMut nat witness

datatype sighash_outcome =
  TaprootDigest "(taproot_sighash_error + bytes) option"
| P2wpkhDigest "(P2wpkhError + bytes) option"
| ScriptDigest "(index_error + bytes) option"
| WitnessSet bool

fun sighash_call_step ::
    "'k key_ops \<Rightarrow> 'k SighashCache \<Rightarrow> sighash_call \<Rightarrow> sighash_outcome \<times> 'k SighashCache" where
  "sighash_call_step K c (CallTaproot i prevouts annex leaf ty) =
     apfst TaprootDigest (taproot_signature_hash i prevouts annex leaf ty c)"
| "sighash_call_step K c (CallP2wpkh i spk v ty) = apfst P2wpkhDigest (p2wpkh_signature_hash i spk v ty c)"
| "sighash_call_step K c (CallP2wsh i script v ty) = apfst ScriptDigest (p2wsh_signature_hash i script v ty c)"
| "sighash_call_step K c (CallLegacy i script n) = (ScriptDigest (legacy_signature_hash K c i script n), c)"
| "sighash_call_step K c (CallWitnessMut i w) =
     (case witness_mut c i w of None \<Rightarrow> (WitnessSet False, c) | Some c' \<Rightarrow> (WitnessSet True, c'))"

primrec sighash_run :: "'k key_ops \<Rightarrow> 'k SighashCache \<Rightarrow> sighash_call list \<Rightarrow> sighash_outcome list" where
  "sighash_run K c [] = []"
| "sighash_run K c (call # calls) =
     (let (r, c') = sighash_call_step K c call in r # sighash_run K c' calls)"

text \<open>What each call should return, from the transaction alone.\<close>

abbreviation digest_ok :: "(bytes \<Rightarrow> bytes) \<Rightarrow> 'e + bytes \<Rightarrow> 'e + bytes" where
  "digest_ok h r \<equiv> and_then r (\<lambda>b. Inr (h b))"

fun sighash_expected :: "'k Transaction \<Rightarrow> sighash_call \<Rightarrow> sighash_outcome" where
  "sighash_expected tx (CallTaproot i prevouts annex leaf ty) =
     TaprootDigest (Some (digest_ok (tagged_hash ''TapSighash'') (bip341_message tx prevouts i annex leaf (tap_to_u8 ty))))"
| "sighash_expected tx (CallP2wpkh i spk v ty) = P2wpkhDigest (Some
     (case p2wpkh_script_code spk of
        None \<Rightarrow> Inl NotP2wpkhScript
      | Some script \<Rightarrow> map_err P2wpkhSighash (digest_ok sha256d_hash (bip143_message tx i script v (ecdsa_to_u32 ty)))))"
| "sighash_expected tx (CallP2wsh i script v ty) =
     ScriptDigest (Some (digest_ok sha256d_hash (bip143_message tx i script v (ecdsa_to_u32 ty))))"
| "sighash_expected tx (CallLegacy i script n) = ScriptDigest (Some (core_signature_hash tx i script n))"
| "sighash_expected tx (CallWitnessMut i w) = WitnessSet (i < length (tx_input tx))"

fun call_agrees :: "TxOut list \<Rightarrow> sighash_call \<Rightarrow> bool" where
  "call_agrees ps (CallTaproot i prevouts annex leaf ty) = agrees ps prevouts ty"
| "call_agrees ps _ = True"

lemma taproot_hash_expected:
  assumes "cache_ok ps tx c" and "agrees ps prevouts ty"
  shows "\<exists>c'. cache_ok ps tx c' \<and> taproot_signature_hash i prevouts annex leaf ty c =
    (Some (digest_ok (tagged_hash ''TapSighash'') (bip341_message tx prevouts i annex leaf (tap_to_u8 ty))), c')"
proof -
  from signing_hash_performs [OF taproot_performs [OF assms(2)] assms(1)]
  obtain c' where "cache_ok ps tx c'" "signing_hash tap_sighash_digest (taproot_encode_signing_data_to i prevouts annex leaf ty) c
      = (case bip341_message tx prevouts i annex leaf (tap_to_u8 ty) of Inl e \<Rightarrow> Some (Inl e)
         | Inr b \<Rightarrow> map_option Inr (tap_sighash_digest b), c')" by blast
  then show ?thesis
    by (cases "bip341_message tx prevouts i annex leaf (tap_to_u8 ty)")
       (auto simp: taproot_signature_hash_def tap_sighash_digest_eq)
qed

lemma segwit_hash_expected:
  assumes "cache_ok ps tx c"
  shows "\<exists>c'. cache_ok ps tx c' \<and> p2wsh_signature_hash i script v ty c =
    (Some (digest_ok sha256d_hash (bip143_message tx i script v (ecdsa_to_u32 ty))), c')"
proof -
  from signing_hash_performs [OF segwit_performs assms]
  obtain c' where "cache_ok ps tx c'"
    "signing_hash (Some \<circ> sha256d_hash) (segwit_v0_encode_signing_data_to i script v ty) c
      = (case bip143_message tx i script v (ecdsa_to_u32 ty) of Inl e \<Rightarrow> Some (Inl e)
         | Inr b \<Rightarrow> map_option Inr ((Some \<circ> sha256d_hash) b), c')" by blast
  then show ?thesis
    by (cases "bip143_message tx i script v (ecdsa_to_u32 ty)") (auto simp: p2wsh_signature_hash_def)
qed

lemma p2wpkh_via_p2wsh:
  "p2wpkh_signature_hash i spk v ty c = (case p2wpkh_script_code spk of None \<Rightarrow> (Some (Inl NotP2wpkhScript), c)
    | Some script \<Rightarrow> apfst (map_option (map_err P2wpkhSighash)) (p2wsh_signature_hash i script v ty c))"
  by (simp add: p2wpkh_signature_hash_def p2wsh_signature_hash_def split: option.split)

lemma witness_mut_ok:
  assumes "cache_ok ps t c" and "witness_mut c i w = Some c'"
  obtains t' where "cache_ok ps t' c'" and "signed_part t' = signed_part t"
proof -
  let ?is = "(tx_input t) [i := (tx_input t ! i) \<lparr> txin_witness := w \<rparr>]"
  let ?t = "t \<lparr> tx_input := ?is \<rparr>"
  have c': "i < length (tx_input t)" "c' = c \<lparr> cache_tx := ?t \<rparr>"
    using assms by (auto simp: witness_mut_def cache_ok_def Let_def split: if_splits)
  have same: "signed_part ?t = signed_part t"
    using c'(1) by (auto simp: signed_part_def intro!: nth_equalityI) (auto simp: nth_list_update)
  have "common_of ?t = common_of t" "segwit_of ?t = segwit_of t"
    by (simp_all add: common_of_def segwit_of_def signed_partD [OF same])
  with assms(1) c'(2) have "cache_ok ps ?t c'" by (simp add: cache_ok_def)
  then show ?thesis using same by (rule that)
qed

lemma sighash_step_expected:
  assumes c: "cache_ok ps t c" and t: "signed_part t = signed_part tx" and a: "call_agrees ps call"
  obtains c' t' where "sighash_call_step K c call = (sighash_expected tx call, c')" and "cache_ok ps t' c'"
    and "signed_part t' = signed_part tx"
proof (cases call)
  case (CallTaproot i prevouts annex leaf ty)
  then show ?thesis
    using taproot_hash_expected [OF c, of prevouts ty i annex leaf] a t that
    by (auto simp: messages_signed_part [OF t])
next
  case (CallP2wpkh i spk v ty)
  show ?thesis
  proof (cases "p2wpkh_script_code spk")
    case None
    with CallP2wpkh c t show ?thesis by (intro that) (simp_all add: p2wpkh_via_p2wsh)
  next
    case (Some script)
    with CallP2wpkh show ?thesis
      using segwit_hash_expected [OF c, of i script v ty] t that
      by (auto simp: messages_signed_part [OF t] p2wpkh_via_p2wsh)
  qed
next
  case (CallP2wsh i script v ty)
  then show ?thesis
    using segwit_hash_expected [OF c, of i script v ty] t that by (auto simp: messages_signed_part [OF t])
next
  case (CallLegacy i script n)
  have "cache_tx c = t" using c by (simp add: cache_ok_def)
  with CallLegacy c t show ?thesis
    by (intro that) (simp_all add: legacy_signature_hash_core messages_signed_part [OF t])
next
  case (CallWitnessMut i w)
  have tx: "cache_tx c = t" "length (tx_input t) = length (tx_input tx)"
    using c signed_partD(4) [OF t] by (simp_all add: cache_ok_def)
  show ?thesis
  proof (cases "witness_mut c i w")
    case None
    with CallWitnessMut c t tx show ?thesis
      by (intro that) (auto simp: witness_mut_def Let_def split: if_splits)
  next
    case (Some c')
    then have "i < length (tx_input tx)" using tx by (auto simp: witness_mut_def Let_def split: if_splits)
    moreover obtain t' where "cache_ok ps t' c'" "signed_part t' = signed_part t" by (rule witness_mut_ok [OF c Some])
    ultimately show ?thesis using Some CallWitnessMut t by (intro that) simp_all
  qed
qed

lemma sighash_run_expected:
  assumes "cache_ok ps t c" and "signed_part t = signed_part tx" and "list_all (call_agrees ps) calls"
  shows "sighash_run K c calls = map (sighash_expected tx) calls"
  using assms
proof (induction calls arbitrary: c t)
  case (Cons call calls)
  then have "call_agrees ps call" by simp
  then obtain c' t' where "sighash_call_step K c call = (sighash_expected tx call, c')" "cache_ok ps t' c'"
    "signed_part t' = signed_part tx" by (rule sighash_step_expected [OF Cons.prems(1,2)])
  with Cons show ?case by simp
qed simp

section \<open>Encodings of lists without a count\<close>

context codec
begin

lemma concat_ser_inject:
  assumes "\<And>x. wf x \<Longrightarrow> ser x \<noteq> []"
    and "list_all wf xs" and "list_all wf ys" and "concat (map ser xs) = concat (map ser ys)"
  shows "xs = ys"
  using assms(2-)
proof (induction xs arbitrary: ys)
  case Nil
  then show ?case using assms(1) by (cases ys) auto
next
  case (Cons x xs)
  then obtain y zs where ys: "ys = y # zs" using assms(1) by (cases ys) auto
  with Cons.prems ser_prefix_free [of x y "concat (map ser xs)" "concat (map ser zs)"]
  have "x = y" "concat (map ser xs) = concat (map ser zs)" by simp_all
  with Cons ys show ?case by simp
qed

end

definition sha256_collision :: "bytes \<Rightarrow> bytes \<Rightarrow> bool" where
  "sha256_collision x y \<longleftrightarrow> x \<noteq> y \<and> sha256_hash x = sha256_hash y"

lemma collision_or_same: "sha256_hash x = sha256_hash y \<Longrightarrow> sha256_collision x y \<or> x = y"
  by (simp add: sha256_collision_def)

text \<open>Two different byte strings among those hashed for two key-path digests that have the same SHA-256 hash.\<close>

definition taproot_collision ::
    "'k Transaction \<Rightarrow> TxOut list \<Rightarrow> nat \<Rightarrow> TapSighashType \<Rightarrow> 'k Transaction \<Rightarrow> TxOut list \<Rightarrow> nat \<Rightarrow> TapSighashType \<Rightarrow> bool" where
  "taproot_collision a ps i s b qs j t \<longleftrightarrow>
     (\<exists>m n. bip341_message a (PrevoutsAll ps) i None None (tap_to_u8 s) = Inr m
          \<and> bip341_message b (PrevoutsAll qs) j None None (tap_to_u8 t) = Inr n
          \<and> (let h = sha256_hash (map of_char ''TapSighash'') in sha256_collision (h @ h @ m) (h @ h @ n)))
     \<or> sha256_collision (outpoints_ser a) (outpoints_ser b) \<or> sha256_collision (sequences_ser a) (sequences_ser b)
     \<or> sha256_collision (outputs_ser a) (outputs_ser b) \<or> sha256_collision (amounts_ser ps) (amounts_ser qs)
     \<or> sha256_collision (scripts_ser ps) (scripts_ser qs)"

lemma outpoints_ser_inject:
  assumes "vec_wf txin_base_wf (tx_input a)" "vec_wf txin_base_wf (tx_input b)" "outpoints_ser a = outpoints_ser b"
  shows "map previous_output (tx_input a) = map previous_output (tx_input b)"
proof (rule outpoint.concat_ser_inject)
  show "outpoint_ser p \<noteq> []" if "length (txid p) = 32" for p using that by (auto simp: outpoint_ser_def)
qed (use assms in \<open>auto simp: outpoints_ser_def vec_wf_def list_all_iff txin_base_wf_def o_def\<close>)

lemma le_bytes_nonempty: "8 \<le> LENGTH('a) \<Longrightarrow> to_le_bytes (w :: 'a::len word) \<noteq> []"
  using length_to_le_bytes [of w] by (metis div_greater_zero_iff list.size(3) less_numeral_extra(3) zero_less_numeral)

lemma varint_ser_nonempty: "varint_ser n \<noteq> []"
  by (simp add: varint_ser_def le_bytes_nonempty)

lemma sequences_ser_inject:
  "sequences_ser a = sequences_ser b \<Longrightarrow> map sequence (tx_input a) = map sequence (tx_input b)"
  by (rule u32_codec.concat_ser_inject)
    (auto simp: sequences_ser_def le_bytes_nonempty o_def list_all_iff)

lemma outputs_ser_inject:
  "\<lbrakk>vec_wf txout_wf (tx_output a); vec_wf txout_wf (tx_output b); outputs_ser a = outputs_ser b\<rbrakk> \<Longrightarrow> tx_output a = tx_output b"
  by (rule txout.concat_ser_inject) (auto simp: outputs_ser_def vec_wf_def txout_ser_def le_bytes_nonempty)

lemma amounts_ser_inject: "amounts_ser ps = amounts_ser qs \<Longrightarrow> map txout_value ps = map txout_value qs"
  by (rule u64_codec.concat_ser_inject) (auto simp: amounts_ser_def le_bytes_nonempty o_def list_all_iff)

lemma scripts_ser_inject:
  "\<lbrakk>list_all txout_wf ps; list_all txout_wf qs; scripts_ser ps = scripts_ser qs\<rbrakk>
    \<Longrightarrow> map script_pubkey ps = map script_pubkey qs"
  by (rule bytes_codec.concat_ser_inject)
    (auto simp: scripts_ser_def o_def list_all_iff txout_wf_def bytes_ser_def varint_ser_nonempty)

lemma txouts_eqI: "map txout_value ps = map txout_value qs \<Longrightarrow> map script_pubkey ps = map script_pubkey qs \<Longrightarrow> ps = (qs :: TxOut list)"
  by (auto simp: list_eq_iff_nth_eq)

lemma tap_to_u8_inject: "tap_to_u8 s = tap_to_u8 t \<longleftrightarrow> s = t"
  by (cases s; cases t) simp_all

text \<open>Key-path messages that sign all inputs and outputs.\<close>

lemma bip341_all_parts:
  assumes "bip341_message a (PrevoutsAll ps) i None None (tap_to_u8 s) = Inr m"
    and "bip341_message b (PrevoutsAll qs) j None None (tap_to_u8 t) = Inr m" and "s \<in> {TapDefault, TapAll}"
  shows "t = s" "length ps = length (tx_input a)" "length qs = length (tx_input b)"
    "version a = version b" "locktime_ser a = locktime_ser b"
    "sha256_hash (outpoints_ser a) = sha256_hash (outpoints_ser b)" "sha256_hash (amounts_ser ps) = sha256_hash (amounts_ser qs)"
    "sha256_hash (scripts_ser ps) = sha256_hash (scripts_ser qs)" "sha256_hash (sequences_ser a) = sha256_hash (sequences_ser b)"
    "sha256_hash (outputs_ser a) = sha256_hash (outputs_ser b)" "(of_nat i :: u32) = of_nat j"
proof -
  let ?tail = "\<lambda>tx rs k. to_le_bytes (version tx) @ locktime_ser tx @ bip341_prevouts tx rs
     @ sha256_hash (outputs_ser tx) @ [0] @ to_le_bytes (of_nat k :: u32)"
  have m: "bip341_message tx (PrevoutsAll rs) k None None (tap_to_u8 u) = Inr m \<Longrightarrow> m ! 1 = tap_to_u8 u" for tx rs k u
    by (auto simp: bip341_message_def Let_def and_then_Inr_iff)
  show t: "t = s" using m [OF assms(1)] m [OF assms(2)] by (simp add: tap_to_u8_inject)
  have r: "bip341_message tx (PrevoutsAll rs) k None None (tap_to_u8 s) = Inr m
      \<longleftrightarrow> length rs = length (tx_input tx) \<and> m = [0, tap_to_u8 s] @ ?tail tx rs k" for tx rs k
    using assms(3) by (auto simp: bip341_message_def Let_def check_all_def)
  note a = assms(1) [unfolded r] and b = assms(2) [unfolded t r]
  from a b show "length ps = length (tx_input a)" "length qs = length (tx_input b)" by simp_all
  from a b have "?tail a ps i = ?tail b qs j" by simp
  then show "version a = version b" "locktime_ser a = locktime_ser b"
    "sha256_hash (outpoints_ser a) = sha256_hash (outpoints_ser b)" "sha256_hash (amounts_ser ps) = sha256_hash (amounts_ser qs)"
    "sha256_hash (scripts_ser ps) = sha256_hash (scripts_ser qs)" "sha256_hash (sequences_ser a) = sha256_hash (sequences_ser b)"
    "sha256_hash (outputs_ser a) = sha256_hash (outputs_ser b)" "(of_nat i :: u32) = of_nat j"
    by (auto simp: bip341_prevouts_def locktime_ser_def append_eq_append_conv length_to_le_bytes length_sha256_hash
        dest: u32_codec.ser_inject [OF TrueI TrueI])
qed

section \<open>A filled cache\<close>

text \<open>A filled taproot slot is used whatever previous outputs the caller passes.\<close>

lemma taproot_filled_ignores_prevouts:
  assumes "taproot_slot c = Some v" and "\<not> snd (tap_split_anyonecanpay_flag ty)"
    and "length ps = length (tx_input (cache_tx c))" and "length qs = length (tx_input (cache_tx c))"
  shows "taproot_encode_signing_data_to i (PrevoutsAll qs) annex leaf ty (c, w)
       = taproot_encode_signing_data_to i (PrevoutsAll ps) annex leaf ty (c, w)"
  using assms
  by (cases ty; cases "common_slot c")
     (simp_all add: taproot_encode_signing_data_to_def check_all_def sbind_def sresult_def swrite_def swhen_def
       common_cache_def taproot_cache_def common_cache_init_eq wrote_def sreturn_def)

lemma taproot_call_fills:
  assumes "\<not> snd (tap_split_anyonecanpay_flag ty)" and "length ps = length (tx_input tx)"
    and "taproot_signature_hash i (PrevoutsAll ps) annex leaf ty (sighash_cache_new tx) = (r, c)"
  shows "taproot_slot c = Some (taproot_of ps)"
  using assms
  by (cases ty) (auto simp: taproot_signature_hash_def signing_hash_def taproot_encode_signing_data_to_def check_all_def sbind_def
       sresult_def swrite_def swhen_def sighash_cache_new_def
       common_cache_def taproot_cache_def common_cache_init_eq taproot_cache_init_eq wrote_def sreturn_def sengine_def
       split: option.splits sum.splits prod.splits if_splits)

section \<open>Properties\<close>

text \<open>
  C12: Through any sequence of calls on one cache, in any order and of any kinds, with witnesses set in between,
  every call returns what it would return on its own: the tagged hash of the BIP 341 message, the double hash of
  the BIP 143 message, the legacy digest with the script as it is passed, or the error. No call panics. The one
  condition is that the calls that use the list of all previous outputs pass the same list.
\<close>

theorem sighash_cache_transparent:
  assumes "list_all (call_agrees ps) calls"
  shows "sighash_run K (sighash_cache_new tx) calls = map (sighash_expected tx) calls"
  using cache_ok_new refl assms by (rule sighash_run_expected)

theorem sighash_cache_transparent_witness:
  "sighash_run byte_keys (sighash_cache_new sample_tx)
     [CallLegacy 7 [] 1, CallWitnessMut 0 witness_new,
      CallTaproot 0 (PrevoutsAll (tx_output sample_tx)) None None TapDefault] =
   [ScriptDigest (Some (Inl (IndexOutOfBounds 7 1))), WitnessSet True,
    sighash_expected sample_tx (CallTaproot 0 (PrevoutsAll (tx_output sample_tx)) None None TapDefault)]"
  by (subst sighash_cache_transparent [of "tx_output sample_tx"])
     (simp_all add: agrees_def core_signature_hash_def sample_tx_def)

text \<open>
  C14: For a script whose operations can all be read and none of which is \<open>OP_CODESEPARATOR\<close>, the legacy digest is the
  one of the reference node, which visits inputs and outputs by position, masks the hash type with \<open>0x1f\<close> and \<open>0x80\<close> and
  leaves separators out of the script code; this for every 32-bit hash type, standard or not. It is the index error, the
  number one for \<open>SIGHASH_SINGLE\<close> without a matching output, or the double hash of the node's data.
\<close>

theorem legacy_hash_reference:
  assumes "no_separator script"
  shows "legacy_signature_hash K (sighash_cache_new tx) i script n = Some
     (if length (tx_input tx) \<le> i then Inl (IndexOutOfBounds i (length (tx_input tx)))
      else if n AND 0x1f = 3 \<and> length (tx_output tx) \<le> i then Inr (1 # replicate 31 0)
      else Inr (sha256d_hash (core_message tx i (script_code_ser script) n)))"
  using assms by (simp add: legacy_signature_hash_core core_signature_hash_def sighash_cache_new_def script_code_ser_plain)

theorem legacy_hash_reference_witness:
  "no_separator [0x76, 0x02, 0xab, 0xab, 0x88]
   \<and> legacy_signature_hash byte_keys (sighash_cache_new sample_tx) 0 [0x76, 0x02, 0xab, 0xab, 0x88] 0x81
       = Some (Inr (sha256d_hash (core_message sample_tx 0 (script_code_ser [0x76, 0x02, 0xab, 0xab, 0x88]) 0x81)))"
proof -
  have s: "no_separator [0x76, 0x02, 0xab, 0xab, 0x88]"
    by code_simp
  from legacy_hash_reference [OF s, of byte_keys sample_tx 0 "0x81"] s show ?thesis by (simp add: sample_tx_def)
qed

text \<open>
  The separator itself, which the code documents as unsupported: the node signs \<open>OP_CODESEPARATOR OP_CHECKSIG\<close> as
  \<open>OP_CHECKSIG\<close>, while the message of the code has the script with its separator.
\<close>

theorem separator_not_removed:
  "script_code_ser [0xab, 0xac] = bytes_ser [0xac]
   \<and> legacy_encode_inner K sample_tx 0 [0xab, 0xac] 1 = wrote (core_message sample_tx 0 (bytes_ser [0xab, 0xac]) 1)
   \<and> core_message sample_tx 0 (bytes_ser [0xab, 0xac]) 1 \<noteq> core_message sample_tx 0 (script_code_ser [0xab, 0xac]) 1"
proof -
  have "code_separators [0xab, 0xac] = 1" "without_separators [0xab, 0xac] = [0xac]" by code_simp+
  then have c: "script_code_ser [0xab, 0xac] = bytes_ser [0xac]" by (simp add: script_code_ser_def bytes_ser_def)
  have "length (core_message sample_tx 0 (bytes_ser [0xab, 0xac]) 1) \<noteq> length (core_message sample_tx 0 (bytes_ser [0xac]) 1)"
    by (simp add: core_message_def core_input_def sample_tx_def length_bytes_ser varint_size_def)
  then have "core_message sample_tx 0 (bytes_ser [0xab, 0xac]) 1 \<noteq> core_message sample_tx 0 (bytes_ser [0xac]) 1" by metis
  moreover have "legacy_encode_inner K sample_tx 0 [0xab, 0xac] 1 = wrote (core_message sample_tx 0 (bytes_ser [0xab, 0xac]) 1)"
    by (rule legacy_inner_core) (simp_all add: sample_tx_def invalid_single_iff)
  ultimately show ?thesis unfolding c by blast
qed

text \<open>
  C13: A taproot key-path digest with \<open>SIGHASH_DEFAULT\<close> or \<open>SIGHASH_ALL\<close> commits to the whole signed part of the
  transaction and to the spent outputs: a digest that two calls share comes with the same hash type, version, lock
  time, out-points, sequences, outputs, spent outputs and input index modulo \<open>2^32\<close>, or shows two byte strings
  among those hashed that collide under SHA-256.
\<close>

theorem taproot_key_spend_commits:
  assumes wf: "tx_wf a" "tx_wf b" "list_all txout_wf ps" "list_all txout_wf qs" and ty: "s \<in> {TapDefault, TapAll}"
    and da: "fst (taproot_key_spend_signature_hash i (PrevoutsAll ps) s (sighash_cache_new a)) = Some (Inr d)"
    and db: "fst (taproot_key_spend_signature_hash j (PrevoutsAll qs) t (sighash_cache_new b)) = Some (Inr d)"
  shows "taproot_collision a ps i s b qs j t
     \<or> t = s \<and> signed_part a = signed_part b \<and> ps = qs \<and> (of_nat i :: u32) = of_nat j"
proof -
  have hash: "\<exists>m. bip341_message x (PrevoutsAll rs) k None None (tap_to_u8 u) = Inr m \<and> d = tagged_hash ''TapSighash'' m"
    if "fst (taproot_key_spend_signature_hash k (PrevoutsAll rs) u (sighash_cache_new x)) = Some (Inr d)" for x k rs u
    using that taproot_hash_expected [OF cache_ok_new, of rs "PrevoutsAll rs" u x k None None]
    by (auto simp: agrees_def and_then_Inr_iff taproot_key_spend_signature_hash_def taproot_signature_hash_def)
  obtain m n where m: "bip341_message a (PrevoutsAll ps) i None None (tap_to_u8 s) = Inr m" "d = tagged_hash ''TapSighash'' m"
    and n: "bip341_message b (PrevoutsAll qs) j None None (tap_to_u8 t) = Inr n" "d = tagged_hash ''TapSighash'' n"
    using hash [OF da] hash [OF db] by blast
  show ?thesis
  proof (cases "m = n")
    case False
    then have "let h = sha256_hash (map of_char ''TapSighash'') in sha256_collision (h @ h @ m) (h @ h @ n)"
      using m(2) n(2) by (simp add: sha256_collision_def tagged_hash_def Let_def)
    with m(1) n(1) show ?thesis unfolding taproot_collision_def by blast
  next
    case True
    note parts = bip341_all_parts [OF m(1) n(1) [folded True] ty]
    have "signed_part a = signed_part b \<and> ps = qs"
      if "outpoints_ser a = outpoints_ser b" "sequences_ser a = sequences_ser b" "outputs_ser a = outputs_ser b"
        "amounts_ser ps = amounts_ser qs" "scripts_ser ps = scripts_ser qs"
    proof
      have "lock_time a = lock_time b"
        using locktime_codec.ser_inject parts(5) wf(1,2) by (auto simp: tx_wf_def locktime_ser_def)
      moreover have "map (\<lambda>i. (previous_output i, sequence i)) (tx_input a)
          = map (\<lambda>i. (previous_output i, sequence i)) (tx_input b)"
        using outpoints_ser_inject [of a b] sequences_ser_inject [of a b] that wf(1,2)
        by (auto simp: tx_wf_def list_eq_iff_nth_eq)
      ultimately show "signed_part a = signed_part b"
        using outputs_ser_inject [of a b] that wf(1,2) parts(4) by (simp add: signed_part_def tx_wf_def)
      show "ps = qs" using amounts_ser_inject scripts_ser_inject that wf(3,4) by (blast intro: txouts_eqI)
    qed
    then show ?thesis
      using parts(1,11) collision_or_same [OF parts(6)] collision_or_same [OF parts(7)] collision_or_same [OF parts(8)]
        collision_or_same [OF parts(9)] collision_or_same [OF parts(10)] unfolding taproot_collision_def by blast
  qed
qed

theorem taproot_key_spend_commits_witness:
  "\<exists>d. let ps = tx_output sample_tx in
     fst (taproot_key_spend_signature_hash 0 (PrevoutsAll ps) TapAll (sighash_cache_new sample_tx)) = Some (Inr d)
     \<and> (taproot_collision sample_tx ps 0 TapAll sample_tx ps 0 TapAll
        \<or> TapAll = TapAll \<and> signed_part sample_tx = signed_part sample_tx \<and> ps = ps \<and> (of_nat 0 :: u32) = of_nat 0)"
proof -
  let ?ps = "tx_output sample_tx"
  have ps: "length ?ps = length (tx_input sample_tx)" "list_all txout_wf ?ps"
    by (simp_all add: sample_tx_def txout_wf_def bytes_wf_def)
  then obtain d where d: "fst (taproot_key_spend_signature_hash 0 (PrevoutsAll ?ps) TapAll
      (sighash_cache_new sample_tx)) = Some (Inr d)"
    using taproot_hash_expected [OF cache_ok_new, of ?ps "PrevoutsAll ?ps" TapAll sample_tx 0 None None]
    by (auto simp: agrees_def taproot_key_spend_signature_hash_def taproot_signature_hash_def bip341_message_def check_all_def)
  show ?thesis
    unfolding Let_def
    using d taproot_key_spend_commits [OF sample_tx_wf sample_tx_wf ps(2) ps(2) _ d d] by blast
qed

text \<open>
  The digests of previous outputs are computed once per cache: after a taproot call that signs all inputs, a
  later call with other previous outputs gives the digest for the earlier ones, without an error.
\<close>

theorem taproot_cache_keeps_first_prevouts:
  assumes "\<not> snd (tap_split_anyonecanpay_flag s)" "\<not> snd (tap_split_anyonecanpay_flag t)"
    and "length ps = length (tx_input tx)" "length qs = length (tx_input tx)"
  shows "fst (taproot_signature_hash j (PrevoutsAll qs) annex' leaf' t
               (snd (taproot_signature_hash i (PrevoutsAll ps) annex leaf s (sighash_cache_new tx))))
       = fst (taproot_signature_hash j (PrevoutsAll ps) annex' leaf' t (sighash_cache_new tx))"
proof -
  obtain r c where call: "taproot_signature_hash i (PrevoutsAll ps) annex leaf s (sighash_cache_new tx) = (r, c)"
    by fastforce
  have slot: "taproot_slot c = Some (taproot_of ps)" by (rule taproot_call_fills [OF assms(1,3) call])
  have ps: "agrees ps (PrevoutsAll ps) u" for u by (simp add: agrees_def)
  have c: "cache_ok ps tx c" using taproot_hash_expected [OF cache_ok_new ps, of tx i annex leaf s] call by auto
  then have "cache_tx c = tx" by (simp add: cache_ok_def)
  then have "taproot_signature_hash j (PrevoutsAll qs) annex' leaf' t c
      = taproot_signature_hash j (PrevoutsAll ps) annex' leaf' t c"
    using taproot_filled_ignores_prevouts [OF slot assms(2), of ps qs j annex' leaf' "[]"] assms(3,4)
    by (simp add: taproot_signature_hash_def signing_hash_def)
  then show ?thesis
    using taproot_hash_expected [OF c ps, of j annex' leaf' t]
      taproot_hash_expected [OF cache_ok_new ps, of tx j annex' leaf' t] call by auto
qed

theorem taproot_cache_keeps_first_prevouts_witness:
  "fst (taproot_signature_hash 0 (PrevoutsAll [txout_null]) None None TapDefault
      (snd (taproot_signature_hash 0 (PrevoutsAll (tx_output sample_tx)) None None TapDefault (sighash_cache_new sample_tx))))
   = fst (taproot_signature_hash 0 (PrevoutsAll (tx_output sample_tx)) None None TapDefault (sighash_cache_new sample_tx))"
  by (rule taproot_cache_keeps_first_prevouts) (simp_all add: sample_tx_def)

text \<open>
  A taproot call without \<open>ANYONECANPAY\<close> and without \<open>SIGHASH_SINGLE\<close> never looks the input up: the index is
  not checked against the inputs, and indices that agree modulo \<open>2^32\<close> have the same digest.
\<close>

theorem taproot_index_unchecked:
  assumes "s \<in> {TapDefault, TapAll, TapNone}" and "length ps = length (tx_input tx)"
  shows "\<exists>d. fst (taproot_signature_hash i (PrevoutsAll ps) annex leaf s (sighash_cache_new tx)) = Some (Inr d)
     \<and> fst (taproot_signature_hash (i + 2 ^ 32) (PrevoutsAll ps) annex leaf s (sighash_cache_new tx)) = Some (Inr d)"
proof -
  have ps: "agrees ps (PrevoutsAll ps) s" by (simp add: agrees_def)
  have index: "(of_nat (i + 2 ^ 32) :: u32) = of_nat i" by (simp only: word_unat_eq_iff unat_of_nat) simp
  obtain m where "bip341_message tx (PrevoutsAll ps) i annex leaf (tap_to_u8 s) = Inr m"
    "bip341_message tx (PrevoutsAll ps) (i + 2 ^ 32) annex leaf (tap_to_u8 s) = Inr m"
    using assms unfolding bip341_message_def Let_def index by (auto simp: check_all_def)
  then show ?thesis
    using taproot_hash_expected [OF cache_ok_new ps, of tx i annex leaf]
      taproot_hash_expected [OF cache_ok_new ps, of tx "i + 2 ^ 32" annex leaf] by auto
qed

theorem taproot_index_unchecked_witness:
  "\<exists>d. fst (taproot_signature_hash 5 (PrevoutsAll (tx_output sample_tx)) None None TapAll (sighash_cache_new sample_tx)) = Some (Inr d)
     \<and> fst (taproot_signature_hash (5 + 2 ^ 32) (PrevoutsAll (tx_output sample_tx)) None None TapAll
              (sighash_cache_new sample_tx)) = Some (Inr d)"
  by (rule taproot_index_unchecked) (simp_all add: sample_tx_def)

text \<open>
  The numbers and names of sighash types: standard numbers, consensus numbers and texts are read back as the type
  they were printed from, only printed texts are read, a number is standard exactly if it is printed by a type,
  and a consensus reading splits into the reference's masks.
\<close>

theorem sighash_types_roundtrip:
  "ecdsa_from_standard (ecdsa_to_u32 e) = Inr e" "ecdsa_from_consensus (ecdsa_to_u32 e) = e"
  "ecdsa_from_str (ecdsa_display e) = Inr e" "tap_from_str (tap_display t) = Inr t" "from_consensus_u8 (tap_to_u8 t) = Inr t"
  "is_ok (ecdsa_from_standard n) \<longleftrightarrow> n \<in> range ecdsa_to_u32" "is_ok (from_consensus_u8 b) \<longleftrightarrow> b \<in> range tap_to_u8"
  "is_ok (ecdsa_from_str x) \<longleftrightarrow> x \<in> range ecdsa_display" "is_ok (tap_from_str x) \<longleftrightarrow> x \<in> range tap_display"
  "ecdsa_split_anyonecanpay_flag (ecdsa_from_consensus n) =
     (if n AND 0x1f = 2 then EcdsaNone else if n AND 0x1f = 3 then EcdsaSingle else EcdsaAll, n AND 0x80 \<noteq> 0)"
  "tap_split_anyonecanpay_flag (tap_from_ecdsa e) = apfst tap_from_ecdsa (ecdsa_split_anyonecanpay_flag e)"
proof -
  show a: "ecdsa_from_standard (ecdsa_to_u32 e) = Inr e" for e by (cases e) (simp_all add: ecdsa_from_standard_def)
  show "ecdsa_from_consensus (ecdsa_to_u32 e) = e" by (cases e) (simp_all add: ecdsa_from_consensus_def)
  show b: "ecdsa_from_str (ecdsa_display e) = Inr e" for e by (cases e) (simp_all add: ecdsa_from_str_def)
  show c: "tap_from_str (tap_display t) = Inr t" for t by (cases t) (simp_all add: tap_from_str_def)
  show d: "from_consensus_u8 (tap_to_u8 t) = Inr t" for t by (cases t) (simp_all add: from_consensus_u8_def)
  have "ecdsa_from_standard n = Inr e \<Longrightarrow> n = ecdsa_to_u32 e" for e
    by (auto simp: ecdsa_from_standard_def split: if_splits)
  with a show "is_ok (ecdsa_from_standard n) \<longleftrightarrow> n \<in> range ecdsa_to_u32" by (cases "ecdsa_from_standard n") force+
  have "from_consensus_u8 b = Inr t \<Longrightarrow> b = tap_to_u8 t" for t by (auto simp: from_consensus_u8_def split: if_splits)
  with d show "is_ok (from_consensus_u8 b) \<longleftrightarrow> b \<in> range tap_to_u8" by (cases "from_consensus_u8 b") force+
  have "ecdsa_from_str x = Inr e \<Longrightarrow> x = ecdsa_display e" for e by (auto simp: ecdsa_from_str_def split: if_splits)
  with b show "is_ok (ecdsa_from_str x) \<longleftrightarrow> x \<in> range ecdsa_display" by (cases "ecdsa_from_str x") force+
  have "tap_from_str x = Inr t \<Longrightarrow> x = tap_display t" for t by (auto simp: tap_from_str_def split: if_splits)
  with c show "is_ok (tap_from_str x) \<longleftrightarrow> x \<in> range tap_display" by (cases "tap_from_str x") force+
  show "ecdsa_split_anyonecanpay_flag (ecdsa_from_consensus n) =
     (if n AND 0x1f = 2 then EcdsaNone else if n AND 0x1f = 3 then EcdsaSingle else EcdsaAll, n AND 0x80 \<noteq> 0)"
    by (rule ecdsa_from_consensus_split)
  show "tap_split_anyonecanpay_flag (tap_from_ecdsa e) = apfst tap_from_ecdsa (ecdsa_split_anyonecanpay_flag e)"
    by (cases e) simp_all
qed

end
