(* ===== verification/Base58.thy ===== *)
theory Base58
  imports Sha256
begin

text \<open>
  Base58 (\<open>src/base58/src/lib.rs\<close>): the two conversions between base 256 and base 58 with their in-place carry
  loops, leading zeros, the vector that starts on the stack, and the checksummed variants. Text is the list of its
  bytes. \<^term>\<open>None\<close> is a failed assertion or an index out of range; both are shown never to happen.
\<close>

section \<open>The alphabet\<close>

definition BASE58_CHARS :: bytes where
  "BASE58_CHARS = map of_char ''123456789ABCDEFGHJKLMNPQRSTUVWXYZabcdefghijkmnopqrstuvwxyz''"

definition BASE58_DIGITS :: "u8 option list" where
  "BASE58_DIGITS = [
     None, None, None, None, None, None, None, None,
     None, None, None, None, None, None, None, None,
     None, None, None, None, None, None, None, None,
     None, None, None, None, None, None, None, None,
     None, None, None, None, None, None, None, None,
     None, None, None, None, None, None, None, None,
     None, Some 0, Some 1, Some 2, Some 3, Some 4, Some 5, Some 6,
     Some 7, Some 8, None, None, None, None, None, None,
     None, Some 9, Some 10, Some 11, Some 12, Some 13, Some 14, Some 15,
     Some 16, None, Some 17, Some 18, Some 19, Some 20, Some 21, None,
     Some 22, Some 23, Some 24, Some 25, Some 26, Some 27, Some 28, Some 29,
     Some 30, Some 31, Some 32, None, None, None, None, None,
     None, Some 33, Some 34, Some 35, Some 36, Some 37, Some 38, Some 39,
     Some 40, Some 41, Some 42, Some 43, None, Some 44, Some 45, Some 46,
     Some 47, Some 48, Some 49, Some 50, Some 51, Some 52, Some 53, Some 54,
     Some 55, Some 56, Some 57, None, None, None, None, None
   ]"

datatype base58_error = InvalidCharacter u8 | IncorrectChecksum u32 u32 | TooShort nat

section \<open>Decoding\<close>

text \<open>The loop over the scratch space from its end: multiply by 58 and add. The list is the scratch space reversed.\<close>

fun mul58_add :: "u32 \<Rightarrow> bytes \<Rightarrow> bytes \<times> u32" where
  "mul58_add carry [] = ([], carry)"
| "mul58_add carry (d256 # ds) =
     (let carry = carry + ucast d256 * 58;
          (ds', carry') = mul58_add (carry div 256) ds in
      (ucast carry # ds', carry'))"

fun decode_digits :: "bytes \<Rightarrow> bytes \<Rightarrow> (base58_error + bytes) option" where
  "decode_digits scratch [] = Some (Inr scratch)"
| "decode_digits scratch (d58 # data) =
     (if unat d58 \<ge> length BASE58_DIGITS then Some (Inl (InvalidCharacter d58))
      else case BASE58_DIGITS ! unat d58 of
        None \<Rightarrow> Some (Inl (InvalidCharacter d58))
      | Some d \<Rightarrow>
          (let (ds, carry) = mul58_add (ucast d) (rev scratch) in
           if carry = 0 then decode_digits (rev ds) data else None))"

definition base58_decode :: "bytes \<Rightarrow> (base58_error + bytes) option" where
  "base58_decode data =
     map_option (\<lambda>r. and_then r (\<lambda>scratch.
         Inr (map (\<lambda>_. 0) (takeWhile (\<lambda>x. x = BASE58_CHARS ! 0) data) @ dropWhile (\<lambda>x. x = 0) scratch)))
       (decode_digits (replicate (1 + length data * 11 div 15) 0) data)"

definition base58_decode_check :: "bytes \<Rightarrow> (base58_error + bytes) option" where
  "base58_decode_check data =
     map_option (\<lambda>r. and_then r (\<lambda>ret.
       if length ret < 4 then Inl (TooShort (length ret))
       else (let check_start = length ret - 4;
                 expected = from_le_bytes (take 4 (sha256d_hash (take check_start ret)));
                 actual = from_le_bytes (drop check_start ret) in
             if actual \<noteq> expected then Inl (IncorrectChecksum actual expected)
             else Inr (take check_start ret)))) (base58_decode data)"

section \<open>A vector whose first 100 elements are on the stack\<close>

record small_vec =
  small_len :: nat
  stack :: bytes
  heap :: bytes

definition small_new :: small_vec where
  "small_new = \<lparr> small_len = 0, stack = replicate 100 0, heap = [] \<rparr>"

definition small_push :: "small_vec \<Rightarrow> u8 \<Rightarrow> small_vec" where
  "small_push v x =
     (if small_len v < 100 then v \<lparr> stack := (stack v)[small_len v := x], small_len := small_len v + 1 \<rparr>
      else v \<lparr> heap := heap v @ [x] \<rparr>)"

definition small_iter :: "small_vec \<Rightarrow> bytes" where
  "small_iter v = take (small_len v) (stack v) @ heap v"

text \<open>\<open>iter_mut\<close> with a loop body that carries a value from element to element.\<close>

definition small_iter_mut :: "('c \<Rightarrow> bytes \<Rightarrow> bytes \<times> 'c) \<Rightarrow> 'c \<Rightarrow> small_vec \<Rightarrow> small_vec \<times> 'c" where
  "small_iter_mut body c v =
     (let (s, c1) = body c (take (small_len v) (stack v));
          (h, c2) = body c1 (heap v) in
      (v \<lparr> stack := s @ drop (small_len v) (stack v), heap := h \<rparr>, c2))"

section \<open>Encoding\<close>

fun mul256_add :: "nat \<Rightarrow> bytes \<Rightarrow> bytes \<times> nat" where
  "mul256_add carry [] = ([], carry)"
| "mul256_add carry (ch # chs) =
     (let new_ch = unat ch * 256 + carry;
          (chs', carry') = mul256_add (new_ch div 58) chs in
      (of_nat (new_ch mod 58) # chs', carry'))"

fun push_carry :: "small_vec \<Rightarrow> nat \<Rightarrow> small_vec" where
  "push_carry ret carry = (if carry > 0 then push_carry (small_push ret (of_nat (carry mod 58))) (carry div 58) else ret)"

declare push_carry.simps [simp del]

fun format_digits :: "small_vec \<Rightarrow> nat \<Rightarrow> bool \<Rightarrow> bytes \<Rightarrow> small_vec \<times> nat" where
  "format_digits ret leading_zero_count leading_zeroes [] = (ret, leading_zero_count)"
| "format_digits ret leading_zero_count leading_zeroes (d256 # data) =
     (let carry = unat d256;
          (leading_zero_count, leading_zeroes) =
            (if leading_zeroes \<and> carry = 0 then (leading_zero_count + 1, leading_zeroes) else (leading_zero_count, False));
          (ret, carry) = small_iter_mut mul256_add carry ret in
      format_digits (push_carry ret carry) leading_zero_count leading_zeroes data)"

definition format_iter :: "bytes \<Rightarrow> bytes option" where
  "format_iter data =
     (let (ret, leading_zero_count) = format_digits small_new 0 True data;
          ret = ((\<lambda>v. small_push v 0) ^^ leading_zero_count) ret in
      if list_all (\<lambda>ch. unat ch < length BASE58_CHARS) (small_iter ret)
      then Some (map (\<lambda>ch. BASE58_CHARS ! unat ch) (rev (small_iter ret))) else None)"

text \<open>A formatter and a \<open>String\<close> hold the text written so far; writing to them does not fail.\<close>

definition encode_iter :: "bytes \<Rightarrow> bytes option" where
  "encode_iter data = map_option (\<lambda>s. [] @ s) (format_iter data)"

definition base58_encode :: "bytes \<Rightarrow> bytes option" where
  "base58_encode data = encode_iter data"

definition base58_encode_check :: "bytes \<Rightarrow> bytes option" where
  "base58_encode_check data = (let checksum = sha256d_hash data in encode_iter (data @ take 4 checksum))"

definition encode_check_to_fmt :: "bytes \<Rightarrow> bytes \<Rightarrow> bytes option" where
  "encode_check_to_fmt fmt data =
     (let checksum = sha256d_hash data in map_option (\<lambda>s. fmt @ s) (format_iter (data @ take 4 checksum)))"

lemma encode_iter_format: "encode_iter data = format_iter data"
  by (simp add: encode_iter_def option.map_ident)

section \<open>Positional numerals\<close>

text \<open>The value of a list of digits, least significant first, and lists without a superfluous zero at the end.\<close>

primrec radix :: "nat \<Rightarrow> bytes \<Rightarrow> nat" where
  "radix b [] = 0"
| "radix b (d # ds) = unat d + b * radix b ds"

abbreviation digits_below :: "nat \<Rightarrow> bytes \<Rightarrow> bool" where
  "digits_below b ds \<equiv> list_all (\<lambda>d. unat d < b) ds"

definition canon :: "nat \<Rightarrow> bytes \<Rightarrow> bool" where
  "canon b ds \<longleftrightarrow> digits_below b ds \<and> (ds \<noteq> [] \<longrightarrow> last ds \<noteq> 0)"

lemma radix_append: "radix b (xs @ ys) = radix b xs + b ^ length xs * radix b ys"
  by (induction xs) (simp_all add: algebra_simps)

lemma radix_less: "digits_below b ds \<Longrightarrow> radix b ds < b ^ length ds"
proof (induction ds)
  case (Cons d ds)
  then have "unat d + b * radix b ds < b * Suc (radix b ds)" by simp
  also have "\<dots> \<le> b * b ^ length ds" using Cons by (intro mult_le_mono2 Suc_leI) simp
  finally show ?case by simp
qed simp

lemma bytes_below_256: "digits_below 256 ds"
  by (simp add: list_all_iff)

lemma canon_Cons: "canon b (d # ds) \<longleftrightarrow> unat d < b \<and> canon b ds \<and> (ds = [] \<longrightarrow> d \<noteq> 0)"
  by (auto simp: canon_def)

lemma canon_zero: "canon b ds \<Longrightarrow> 0 < b \<Longrightarrow> radix b ds = 0 \<longleftrightarrow> ds = []"
proof (induction ds)
  case (Cons d ds)
  then show ?case by (cases "ds = []") (auto simp: canon_Cons word_unat_eq_iff)
qed simp

lemma canon_unique:
  assumes "canon b xs" "canon b ys" "radix b xs = radix b ys" "0 < b"
  shows "xs = ys"
  using assms
proof (induction xs arbitrary: ys)
  case Nil
  then show ?case using canon_zero [of b ys] by simp
next
  case (Cons x xs)
  then obtain y zs where ys: "ys = y # zs" using canon_zero [of b "x # xs"] by (cases ys) auto
  have "unat x < b" "unat y < b" using Cons.prems ys by (auto simp: canon_Cons)
  then have "(unat x + b * radix b xs) mod b = unat x" "(unat x + b * radix b xs) div b = radix b xs"
    "(unat y + b * radix b zs) mod b = unat y" "(unat y + b * radix b zs) div b = radix b zs" by simp_all
  moreover have "unat x + b * radix b xs = unat y + b * radix b zs" using Cons.prems ys by simp
  ultimately have "unat x = unat y" "radix b xs = radix b zs" by metis+
  then show ?case using Cons ys by (simp add: canon_Cons word_unat_eq_iff)
qed

text \<open>Digits with the most significant first: dropping leading zeros.\<close>

lemma radix_zeros: "radix b (replicate n 0) = 0"
  by (induction n) simp_all

lemma radix_rev_dropWhile: "radix b (rev (dropWhile (\<lambda>x. x = 0) ds)) = radix b (rev ds)"
  by (induction ds) (simp_all add: radix_append)

lemma canon_rev_dropWhile: "digits_below b ds \<Longrightarrow> canon b (rev (dropWhile (\<lambda>x. x = 0) ds))"
  by (induction ds) (auto simp: canon_def)

lemma canon_rev_iff: "digits_below b ds \<Longrightarrow> canon b (rev ds) \<longleftrightarrow> ds = [] \<or> hd ds \<noteq> 0"
  by (cases ds) (auto simp: canon_def)

lemma canon_top:
  assumes "digits_below b ds" "b ^ (length ds - 1) \<le> radix b ds" "0 < b"
  shows "canon b ds"
proof (cases ds rule: rev_cases)
  case (snoc xs x)
  have "x \<noteq> 0"
  proof
    assume "x = 0"
    then have "radix b ds < b ^ length xs" using radix_less [of b xs] assms(1) snoc by (simp add: radix_append)
    with assms(2) snoc show False by simp
  qed
  with assms(1) snoc show ?thesis by (simp add: canon_def)
qed (simp add: canon_def)

lemma canon_lower:
  assumes "canon b ds" "ds \<noteq> []"
  shows "b ^ (length ds - 1) \<le> radix b ds"
proof -
  obtain xs x where "ds = xs @ [x]" "x \<noteq> 0" using assms by (cases ds rule: rev_cases) (auto simp: canon_def)
  moreover from this have "1 \<le> unat x" by (simp add: word_unat_eq_iff)
  then have "b ^ length xs * 1 \<le> b ^ length xs * unat x" by (rule mult_le_mono2)
  ultimately show ?thesis by (simp add: radix_append trans_le_add2)
qed

section \<open>Decoding computes a value\<close>

lemma carry_step: "\<lbrakk>t = c + d * k; t = m + b * q; b * r' + b * p = k * (b * r) + b * q\<rbrakk>
    \<Longrightarrow> m + b * r' + b * p = k * (d + b * r) + (c :: nat)"
  by (simp add: algebra_simps)

lemma mul58_add_value:
  assumes "unat c \<le> 57"
  shows "\<exists>ds' c'. mul58_add c ds = (ds', c') \<and> length ds' = length ds \<and> unat c' \<le> 57
    \<and> radix 256 ds' + 256 ^ length ds * unat c' = 58 * radix 256 ds + unat c"
  using assms
proof (induction ds arbitrary: c)
  case (Cons d ds)
  let ?c = "c + ucast d * 58 :: u32"
  have d: "unat d \<le> 255" using u8_less_256 [of d] by linarith
  have "unat (ucast d * 58 :: u32) = unat d * 58" using d by (simp add: unat_word_ariths unat_ucast)
  then have u: "unat ?c = unat c + unat d * 58" using d Cons.prems by (simp add: unat_word_ariths)
  then have q: "unat (?c div 256) = (unat c + unat d * 58) div 256" by (simp add: unat_div)
  then have "unat (?c div 256) \<le> 57" using d Cons.prems by simp
  then obtain ds' c' where ih: "mul58_add (?c div 256) ds = (ds', c')" "length ds' = length ds" "unat c' \<le> 57"
    "radix 256 ds' + 256 ^ length ds * unat c' = 58 * radix 256 ds + unat (?c div 256)"
    using Cons.IH by blast
  have "unat ?c = unat (ucast ?c :: u8) + 256 * unat (?c div 256)" using u q by (simp add: unat_ucast)
  moreover have "256 * radix 256 ds' + 256 * (256 ^ length ds * unat c') = 58 * (256 * radix 256 ds) + 256 * unat (?c div 256)"
    using arg_cong [OF ih(4), of "\<lambda>n. 256 * n"] by (simp add: algebra_simps)
  ultimately have "unat (ucast ?c :: u8) + 256 * radix 256 ds' + 256 * (256 ^ length ds * unat c')
      = 58 * (unat d + 256 * radix 256 ds) + unat c"
    by (rule carry_step [OF u])
  then show ?case using ih by (simp add: Let_def mult.assoc)
qed simp

definition digit58 :: "u8 \<Rightarrow> u8 option" where
  "digit58 c = (if unat c < 128 then BASE58_DIGITS ! unat c else None)"

lemma length_digits_table: "length BASE58_DIGITS = 128"
  by (simp add: BASE58_DIGITS_def)

lemma decode_digits_Cons:
  "decode_digits scratch (c # cs) =
     (case digit58 c of None \<Rightarrow> Some (Inl (InvalidCharacter c))
      | Some d \<Rightarrow> (let (ds, carry) = mul58_add (ucast d) (rev scratch) in
           if carry = 0 then decode_digits (rev ds) cs else None))"
  by (simp add: digit58_def length_digits_table)

declare decode_digits.simps(2) [simp del]

text \<open>The loop of the decoder, where the scratch space has room for the result.\<close>

lemma decode_digits_value:
  assumes "Suc (radix 256 (rev scratch)) * 58 ^ length cs \<le> 256 ^ length scratch" and "map digit58 cs = map Some ds"
    and "digits_below 58 ds"
  shows "\<exists>out. decode_digits scratch cs = Some (Inr out) \<and> length out = length scratch
    \<and> radix 256 (rev out) = radix 256 (rev scratch) * 58 ^ length cs + radix 58 (rev ds)"
  using assms
proof (induction cs arbitrary: scratch ds)
  case (Cons c cs)
  from Cons.prems(2) obtain d es where ds: "ds = d # es" "digit58 c = Some d" "map digit58 cs = map Some es"
    by (cases ds) auto
  have d: "unat d \<le> 57" using Cons.prems(3) ds(1) by simp
  then have u: "unat (ucast d :: u32) = unat d" by (simp add: unat_ucast)
  obtain xs c' where m: "mul58_add (ucast d) (rev scratch) = (xs, c')" "length xs = length scratch"
    "radix 256 xs + 256 ^ length scratch * unat c' = 58 * radix 256 (rev scratch) + unat d"
    using mul58_add_value [of "ucast d" "rev scratch"] d u by auto
  have room: "Suc (58 * radix 256 (rev scratch) + unat d) * 58 ^ length cs \<le> 256 ^ length scratch"
  proof -
    have "Suc (58 * radix 256 (rev scratch) + unat d) * 58 ^ length cs \<le> (Suc (radix 256 (rev scratch)) * 58) * 58 ^ length cs"
      using d by (intro mult_le_mono1) simp
    also have "\<dots> \<le> 256 ^ length scratch" using Cons.prems(1) by (simp add: algebra_simps)
    finally show ?thesis .
  qed
  have "Suc (58 * radix 256 (rev scratch) + unat d) * 1 \<le> Suc (58 * radix 256 (rev scratch) + unat d) * 58 ^ length cs"
    by (rule mult_le_mono2) simp
  also note room
  finally have "58 * radix 256 (rev scratch) + unat d < 256 ^ length scratch" by simp
  then have "unat c' = 0"
    using m(3) by (metis add.commute mult.right_neutral mult_le_mono2 not_less trans_le_add1 less_one linorder_not_le)
  then have c': "c' = 0" and x: "radix 256 xs = 58 * radix 256 (rev scratch) + unat d"
    using m(3) by (simp_all add: word_unat_eq_iff)
  obtain out where out: "decode_digits (rev xs) cs = Some (Inr out)" "length out = length (rev xs)"
    "radix 256 (rev out) = radix 256 (rev (rev xs)) * 58 ^ length cs + radix 58 (rev es)"
    using Cons.IH [of "rev xs" es] room ds(3) Cons.prems(3) ds(1) x m(2) by auto
  have "length es = length cs" using ds(3) by (metis length_map)
  then have "radix 256 (rev out) = radix 256 (rev scratch) * 58 ^ Suc (length cs) + radix 58 (rev (d # es))"
    using out(3) x by (simp add: radix_append algebra_simps)
  then show ?case using out(1,2) ds(1,2) m(1,2) c' by (simp add: decode_digits_Cons)
qed simp

lemma scratch_room: "(58::nat) ^ n \<le> 256 ^ (1 + n * 11 div 15)"
proof (rule power_le_imp_le_base)
  have "((58::nat) ^ n) ^ Suc 14 = (58 ^ Suc 14) ^ n" by (simp only: power_mult [symmetric] mult.commute)
  also have "\<dots> \<le> (256 ^ 11) ^ n" by (rule power_mono) simp_all
  also have "\<dots> = (256::nat) ^ (n * 11)" by (simp only: power_mult [symmetric] mult.commute)
  also have "\<dots> \<le> 256 ^ ((1 + n * 11 div 15) * Suc 14)" by (rule power_increasing) simp_all
  finally show "((58::nat) ^ n) ^ Suc 14 \<le> (256 ^ (1 + n * 11 div 15)) ^ Suc 14" by (simp only: power_mult)
qed simp

lemma decode_digits_append:
  "decode_digits scratch (cs @ rest) =
     (case decode_digits scratch cs of Some (Inr out) \<Rightarrow> decode_digits out rest | r \<Rightarrow> r)"
  by (induction cs arbitrary: scratch) (auto simp: decode_digits_Cons Let_def split: option.splits prod.splits)

lemma digit_table_forward:
  "list_all2 (\<lambda>n x. case x of None \<Rightarrow> True | Some d \<Rightarrow> unat d < 58 \<and> unat (BASE58_CHARS ! unat d) = n) [0..<128] BASE58_DIGITS"
  by (simp add: BASE58_DIGITS_def BASE58_CHARS_def upt_conv_Cons del: upt_Suc)

lemma digit_table_backward: "map (\<lambda>c. BASE58_DIGITS ! unat c) BASE58_CHARS = map (\<lambda>n. Some (of_nat n)) [0..<58]"
  by (simp add: BASE58_DIGITS_def BASE58_CHARS_def upt_conv_Cons del: upt_Suc)

lemma chars_ascii: "list_all (\<lambda>c. unat c < 128) BASE58_CHARS"
  by (simp add: BASE58_CHARS_def)

lemma digit58_iff: "digit58 c = Some d \<longleftrightarrow> unat d < 58 \<and> BASE58_CHARS ! unat d = c"
proof
  assume c: "digit58 c = Some d"
  then have "unat c < 128" by (auto simp: digit58_def split: if_splits)
  with c list_all2_nthD [OF digit_table_forward, of "unat c"]
  show "unat d < 58 \<and> BASE58_CHARS ! unat d = c" by (simp add: digit58_def word_unat_eq_iff)
next
  assume d: "unat d < 58 \<and> BASE58_CHARS ! unat d = c"
  have l: "length BASE58_CHARS = 58" by (simp add: BASE58_CHARS_def)
  have "BASE58_DIGITS ! unat c = Some d"
    using arg_cong [OF digit_table_backward, of "\<lambda>xs. xs ! unat d"] d l by simp
  moreover have "unat c < 128" using chars_ascii d l by (auto simp: list_all_length)
  ultimately show "digit58 c = Some d" by (simp add: digit58_def)
qed

lemma digits58_iff: "map digit58 cs = map Some ds \<longleftrightarrow> digits_below 58 ds \<and> cs = map (\<lambda>d. BASE58_CHARS ! unat d) ds"
proof (induction cs arbitrary: ds)
  case (Cons c cs)
  then show ?case by (cases ds) (auto simp: digit58_iff)
qed auto

section \<open>Encoding computes a value\<close>

lemma mul256_add_value:
  assumes "digits_below 58 ds"
  shows "\<exists>ds' c'. mul256_add c ds = (ds', c') \<and> length ds' = length ds \<and> digits_below 58 ds'
    \<and> radix 58 ds' + 58 ^ length ds * c' = 256 * radix 58 ds + c"
  using assms
proof (induction ds arbitrary: c)
  case (Cons d ds)
  let ?n = "unat d * 256 + c"
  obtain ds' c' where ih: "mul256_add (?n div 58) ds = (ds', c')" "length ds' = length ds" "digits_below 58 ds'"
    "radix 58 ds' + 58 ^ length ds * c' = 256 * radix 58 ds + ?n div 58"
    using Cons by force
  have "?n mod 58 < 256" by (rule less_trans [of _ 58]) simp_all
  then have u: "unat (of_nat (?n mod 58) :: u8) = ?n mod 58" by (simp add: unat_u8_of_nat)
  have t: "?n = c + unat d * 256" by simp
  have "?n = ?n mod 58 + 58 * (?n div 58)" by simp
  moreover have "58 * radix 58 ds' + 58 * (58 ^ length ds * c') = 256 * (58 * radix 58 ds) + 58 * (?n div 58)"
    using arg_cong [OF ih(4), of "\<lambda>n. 58 * n"] by (simp add: algebra_simps)
  ultimately have "?n mod 58 + 58 * radix 58 ds' + 58 * (58 ^ length ds * c') = 256 * (unat d + 58 * radix 58 ds) + c"
    by (rule carry_step [OF t])
  then show ?case using ih u by (simp add: Let_def mult.assoc)
qed simp

lemma mul256_add_append:
  "mul256_add c (xs @ ys) = (let (xs', c1) = mul256_add c xs; (ys', c2) = mul256_add c1 ys in (xs' @ ys', c2))"
  by (induction xs arbitrary: c) (auto simp: Let_def split: prod.splits)

lemma length_mul256_add: "mul256_add c xs = (ys, c') \<Longrightarrow> length ys = length xs"
  by (induction xs arbitrary: c ys) (auto simp: Let_def split: prod.splits)

text \<open>The vector on the stack is a list.\<close>

definition small_wf :: "small_vec \<Rightarrow> bool" where
  "small_wf v \<longleftrightarrow> length (stack v) = 100 \<and> small_len v \<le> 100 \<and> (small_len v < 100 \<longrightarrow> heap v = [])"

lemma small_new_list: "small_wf small_new" "small_iter small_new = []"
  by (simp_all add: small_wf_def small_new_def small_iter_def)

lemma small_push_list:
  assumes "small_wf v"
  shows "small_wf (small_push v x)" "small_iter (small_push v x) = small_iter v @ [x]"
  using assms by (auto simp: small_wf_def small_push_def small_iter_def take_Suc_conv_app_nth)

lemma small_push_zeros:
  assumes "small_wf v"
  shows "small_wf (((\<lambda>v. small_push v 0) ^^ n) v) \<and> small_iter (((\<lambda>v. small_push v 0) ^^ n) v) = small_iter v @ replicate n 0"
  by (induction n) (simp_all add: assms small_push_list replicate_append_same)

lemma small_iter_mut_list:
  assumes "small_wf v" "small_iter_mut mul256_add c v = (v', c')"
  shows "small_wf v'" "mul256_add c (small_iter v) = (small_iter v', c')"
proof -
  obtain s c1 h where b: "mul256_add c (take (small_len v) (stack v)) = (s, c1)" "mul256_add c1 (heap v) = (h, c')"
    "v' = v \<lparr> stack := s @ drop (small_len v) (stack v), heap := h \<rparr>"
    using assms(2) by (auto simp: small_iter_mut_def Let_def split: prod.splits)
  have l: "length s = small_len v" "length h = length (heap v)"
    using length_mul256_add [OF b(1)] length_mul256_add [OF b(2)] assms(1) by (simp_all add: small_wf_def)
  then show "small_wf v'" using assms(1) b(3) by (auto simp: small_wf_def)
  show "mul256_add c (small_iter v) = (small_iter v', c')"
    using b l by (simp add: small_iter_def mul256_add_append)
qed

fun digits58 :: "nat \<Rightarrow> bytes" where
  "digits58 c = (if c > 0 then of_nat (c mod 58) # digits58 (c div 58) else [])"

declare digits58.simps [simp del]

lemma digits58_canon: "canon 58 (digits58 c) \<and> radix 58 (digits58 c) = c"
proof (induction c rule: digits58.induct)
  case (1 c)
  have "c mod 58 < 256" by (rule less_trans [of _ 58]) simp_all
  then have u: "unat (of_nat (c mod 58) :: u8) = c mod 58" by (simp add: unat_u8_of_nat)
  show ?case
  proof (cases "c = 0")
    case False
    then have ih: "canon 58 (digits58 (c div 58))" "radix 58 (digits58 (c div 58)) = c div 58" using 1 by simp_all
    have "digits58 (c div 58) = [] \<Longrightarrow> c mod 58 \<noteq> 0" using ih(2) False by (cases "c mod 58 = 0") auto
    then show ?thesis using False ih u by (subst (1 2) digits58.simps) (simp add: canon_Cons word_unat_eq_iff)
  qed (simp add: digits58.simps canon_def)
qed

lemma push_carry_list: "small_wf v \<Longrightarrow> small_wf (push_carry v c) \<and> small_iter (push_carry v c) = small_iter v @ digits58 c"
proof (induction v c rule: push_carry.induct)
  case (1 v c)
  then show ?case
    by (subst push_carry.simps, subst (2) push_carry.simps, subst digits58.simps) (simp add: small_push_list)
qed

definition holds_value :: "small_vec \<Rightarrow> nat \<Rightarrow> bool" where
  "holds_value v n \<longleftrightarrow> small_wf v \<and> canon 58 (small_iter v) \<and> radix 58 (small_iter v) = n"

lemma holds_value_step:
  assumes "holds_value v n" "small_iter_mut mul256_add d v = (v', c)"
  shows "holds_value (push_carry v' c) (256 * n + d)"
proof -
  let ?ds = "small_iter v" and ?es = "small_iter v'"
  have v: "small_wf v" "canon 58 ?ds" "radix 58 ?ds = n" using assms(1) by (simp_all add: holds_value_def)
  note m = small_iter_mut_list [OF v(1) assms(2)]
  have es: "length ?es = length ?ds" "digits_below 58 ?es" "radix 58 ?es + 58 ^ length ?ds * c = 256 * n + d"
    using mul256_add_value [of ?ds d] v m(2) by (auto simp: canon_def)
  have "canon 58 (?es @ digits58 c)"
  proof (cases "c = 0")
    case True
    have "58 ^ (length ?es - 1) \<le> radix 58 ?es" if "?es \<noteq> []"
    proof -
      have "?ds \<noteq> []" using es(1) that by auto
      then have "58 ^ (length ?ds - 1) \<le> n" using canon_lower [OF v(2)] v(3) by simp
      then show ?thesis using es True by simp
    qed
    then have "canon 58 ?es" using canon_top [OF es(2)] by (cases "?es = []") (simp_all add: canon_def)
    then show ?thesis using True by (simp add: digits58.simps)
  next
    case False
    then have "digits58 c \<noteq> []" by (simp add: digits58.simps)
    then show ?thesis using digits58_canon [of c] es(2) by (simp add: canon_def)
  qed
  then show ?thesis
    using push_carry_list [OF m(1), of c] es digits58_canon [of c] by (simp add: holds_value_def radix_append)
qed

lemma format_digits_value:
  assumes "holds_value v n"
  shows "\<exists>v'. format_digits v z lz data = (v', z + (if lz then length (takeWhile (\<lambda>x. x = 0) data) else 0))
    \<and> holds_value v' (n * 256 ^ length data + radix 256 (rev data))"
  using assms
proof (induction data arbitrary: v n z lz)
  case (Cons d data)
  obtain v' c where m: "small_iter_mut mul256_add (unat d) v = (v', c)" by fastforce
  let ?z = "z + (if lz \<and> d = 0 then 1 else 0)" and ?lz = "lz \<and> d = 0"
  obtain w where w: "format_digits (push_carry v' c) ?z ?lz data
      = (w, ?z + (if ?lz then length (takeWhile (\<lambda>x. x = 0) data) else 0))"
    "holds_value w ((256 * n + unat d) * 256 ^ length data + radix 256 (rev data))"
    using Cons.IH [OF holds_value_step [OF Cons.prems m]] by blast
  have "format_digits v z lz (d # data) = format_digits (push_carry v' c) ?z ?lz data"
    using m by (cases "lz \<and> d = 0") (auto simp: Let_def word_unat_eq_iff)
  then show ?case using w by (auto simp: radix_append algebra_simps)
qed simp

section \<open>Corresponding numerals\<close>

abbreviation zeros :: "bytes \<Rightarrow> nat" where
  "zeros ds \<equiv> length (takeWhile (\<lambda>x. x = 0) ds)"

text \<open>A text and its data have as many leading zeros and the same value.\<close>

definition corresponds :: "bytes \<Rightarrow> bytes \<Rightarrow> bool" where
  "corresponds ds data \<longleftrightarrow> zeros ds = zeros data \<and> radix 58 (rev ds) = radix 256 (rev data)"

lemma takeWhile_zeros: "takeWhile (\<lambda>x. x = 0) ds = replicate (zeros ds) (0 :: u8)"
  by (induction ds) simp_all

lemma numeral_unique:
  assumes "digits_below b xs" "digits_below b ys" "zeros xs = zeros ys" "radix b (rev xs) = radix b (rev ys)" "0 < b"
  shows "xs = ys"
proof -
  let ?d = "dropWhile (\<lambda>x. x = 0)"
  have "rev (?d xs) = rev (?d ys)"
    using assms canon_rev_dropWhile [of b xs] canon_rev_dropWhile [of b ys]
    by (intro canon_unique [of b]) (simp_all add: radix_rev_dropWhile)
  moreover have "takeWhile (\<lambda>x. x = 0) xs = takeWhile (\<lambda>x. x = 0) ys" using assms(3) by (metis takeWhile_zeros)
  ultimately have "takeWhile (\<lambda>x. x = 0) xs @ ?d xs = takeWhile (\<lambda>x. x = 0) ys @ ?d ys" by simp
  then show ?thesis by (simp only: takeWhile_dropWhile_id)
qed

lemma zeros_leading: "canon b (rev ds) \<Longrightarrow> zeros (replicate n 0 @ ds) = n"
  by (induction n) (cases ds; auto simp: canon_def)+

lemma format_iter_corresponds:
  "\<exists>ds. format_iter data = Some (map (\<lambda>d. BASE58_CHARS ! unat d) ds) \<and> digits_below 58 ds \<and> corresponds ds data"
proof -
  have "holds_value small_new 0" by (simp add: holds_value_def small_new_list canon_def)
  from format_digits_value [OF this, of 0 True data] obtain v where
    v: "format_digits small_new 0 True data = (v, zeros data)" "holds_value v (radix 256 (rev data))" by auto
  let ?v = "((\<lambda>v. small_push v 0) ^^ zeros data) v" and ?ds = "replicate (zeros data) 0 @ rev (small_iter v)"
  have wf: "small_wf v" "canon 58 (small_iter v)" "radix 58 (small_iter v) = radix 256 (rev data)"
    using v(2) by (simp_all add: holds_value_def)
  have r: "rev (small_iter ?v) = ?ds" using small_push_zeros [OF wf(1), of "zeros data"] by simp
  have below: "digits_below 58 ?ds" using wf(2) by (auto simp: canon_def list_all_iff)
  then have "digits_below 58 (small_iter ?v)" using r by (metis list_all_rev)
  moreover have "length BASE58_CHARS = 58" by (simp add: BASE58_CHARS_def)
  ultimately have "format_iter data = Some (map (\<lambda>d. BASE58_CHARS ! unat d) ?ds)"
    unfolding format_iter_def v(1) Let_def prod.case r by simp
  moreover have "corresponds ?ds data"
    using zeros_leading [of 58 "rev (small_iter v)"] wf by (simp add: corresponds_def radix_append radix_zeros)
  ultimately show ?thesis using below by blast
qed

lemma encode_iff: "format_iter data = Some s \<longleftrightarrow>
    (\<exists>ds. digits_below 58 ds \<and> corresponds ds data \<and> s = map (\<lambda>d. BASE58_CHARS ! unat d) ds)"
proof -
  obtain ds where ds: "format_iter data = Some (map (\<lambda>d. BASE58_CHARS ! unat d) ds)" "digits_below 58 ds" "corresponds ds data"
    using format_iter_corresponds by blast
  have same: "es = ds" if "digits_below 58 es" "corresponds es data" for es
    using numeral_unique [of 58 es ds] that ds(2,3) by (simp add: corresponds_def)
  show ?thesis
  proof
    assume "format_iter data = Some s"
    with ds show "\<exists>ds. digits_below 58 ds \<and> corresponds ds data \<and> s = map (\<lambda>d. BASE58_CHARS ! unat d) ds" by auto
  next
    assume "\<exists>ds. digits_below 58 ds \<and> corresponds ds data \<and> s = map (\<lambda>d. BASE58_CHARS ! unat d) ds"
    then obtain es where "digits_below 58 es" "corresponds es data" "s = map (\<lambda>d. BASE58_CHARS ! unat d) es" by blast
    with same [of es] ds(1) show "format_iter data = Some s" by simp
  qed
qed

lemma decode_corresponds:
  assumes "map digit58 cs = map Some ds"
  shows "\<exists>data. base58_decode cs = Some (Inr data) \<and> corresponds ds data"
proof -
  have below: "digits_below 58 ds" and cs: "cs = map (\<lambda>d. BASE58_CHARS ! unat d) ds" using assms by (simp_all add: digits58_iff)
  let ?scratch = "replicate (1 + length cs * 11 div 15) 0 :: bytes"
  have zero: "radix 256 (rev ?scratch) = 0" by (simp only: rev_replicate radix_zeros)
  then obtain out where out: "decode_digits ?scratch cs = Some (Inr out)" "radix 256 (rev out) = radix 58 (rev ds)"
    using decode_digits_value [OF _ assms below, of ?scratch] scratch_room [of "length cs"] by auto
  have one: "BASE58_CHARS ! unat d = BASE58_CHARS ! 0 \<longleftrightarrow> d = 0" if "unat d < 58" for d :: u8
    using that digit58_iff [of "BASE58_CHARS ! 0" d] digit58_iff [of "BASE58_CHARS ! 0" 0] by auto
  have "map (\<lambda>_. 0 :: u8) (takeWhile (\<lambda>x. x = BASE58_CHARS ! 0) cs) = replicate (zeros ds) 0"
    unfolding cs using below by (induction ds) (auto simp: one)
  moreover have "canon 256 (rev (dropWhile (\<lambda>x. x = 0) out))" by (rule canon_rev_dropWhile [OF bytes_below_256])
  ultimately show ?thesis
    using out zeros_leading [of 256 "dropWhile (\<lambda>x. x = 0) out" "zeros ds"]
    by (simp add: base58_decode_def corresponds_def radix_append radix_rev_dropWhile radix_zeros)
qed

lemma decode_iff: "base58_decode cs = Some (Inr data) \<longleftrightarrow> (\<exists>ds. map digit58 cs = map Some ds \<and> corresponds ds data)"
proof (cases "\<exists>ds. map digit58 cs = map Some ds")
  case True
  then obtain ds where ds: "map digit58 cs = map Some ds" by blast
  have only: "es = ds" if "map digit58 cs = map Some es" for es
    using that ds by (metis inj_map_eq_map inj_Some)
  obtain out where out: "base58_decode cs = Some (Inr out)" "corresponds ds out"
    using decode_corresponds [OF ds] by blast
  have "data = out" if "corresponds ds data"
    using that out(2) numeral_unique [OF bytes_below_256 bytes_below_256, of data out] by (simp add: corresponds_def)
  then show ?thesis using ds only [of _] out(1,2) by (metis Inr_inject option.inject)
next
  case False
  then have "list_ex (\<lambda>c. digit58 c = None) cs"
  proof (induction cs)
    case (Cons c cs)
    show ?case
    proof (rule ccontr)
      assume n: "\<not> list_ex (\<lambda>c. digit58 c = None) (c # cs)"
      then obtain d ds where "digit58 c = Some d" "map digit58 cs = map Some ds" using Cons.IH by auto
      then have "map digit58 (c # cs) = map Some (d # ds)" by simp
      with Cons.prems show False by blast
    qed
  qed simp
  then have "\<nexists>out. decode_digits scratch cs = Some (Inr out)" for scratch
    by (induction cs arbitrary: scratch) (auto simp: decode_digits_Cons Let_def split: option.splits prod.splits)
  then show ?thesis using False by (auto simp: base58_decode_def and_then_Inr_iff)
qed

lemma decode_invalid:
  assumes "map digit58 cs = map Some ds" and "digit58 c = None"
  shows "base58_decode (cs @ c # rest) = Some (Inl (InvalidCharacter c))"
proof -
  have below: "digits_below 58 ds" using assms(1) by (simp add: digits58_iff)
  let ?all = "cs @ c # rest"
  let ?scratch = "replicate (1 + length ?all * 11 div 15) 0 :: bytes"
  have "radix 256 (rev ?scratch) = 0" by (simp only: rev_replicate radix_zeros)
  moreover have "(58::nat) ^ length cs \<le> 256 ^ (1 + length ?all * 11 div 15)"
    by (rule order.trans [OF power_increasing scratch_room]) simp_all
  ultimately obtain out where "decode_digits ?scratch cs = Some (Inr out)"
    using decode_digits_value [OF _ assms(1) below, of ?scratch] by auto
  then have "decode_digits ?scratch ?all = Some (Inl (InvalidCharacter c))"
    using assms(2) by (simp add: decode_digits_append decode_digits_Cons)
  then show ?thesis unfolding base58_decode_def by simp
qed

lemma decode_encode_iff: "base58_decode s = Some (Inr data) \<longleftrightarrow> format_iter data = Some s"
  unfolding decode_iff encode_iff digits58_iff by blast

lemma format_iter_total: "\<exists>s. format_iter data = Some s"
  using format_iter_corresponds by blast

section \<open>Properties\<close>

text \<open>
  C39: Base58 is a bijection: every byte string has a text, no index of the encoder is out of range, and a text is
  decoded to a byte string exactly if it is the text of that byte string.
\<close>

theorem base58_bijection:
  "(\<exists>s. base58_encode data = Some s) \<and> (base58_decode s = Some (Inr data) \<longleftrightarrow> base58_encode data = Some s)"
  by (simp add: base58_encode_def encode_iter_format decode_encode_iff format_iter_total)

text \<open>
  Decoding always returns: the assertion on the carry holds for every text, since the scratch space of
  \<open>1 + 11 n div 15\<close> bytes has room for \<open>n\<close> digits, and a text with a byte outside the alphabet is refused with the
  first such byte.
\<close>

theorem base58_decode_total:
  "(\<exists>data. base58_decode s = Some (Inr data)) \<or>
   (\<exists>cs c rest. s = cs @ c # rest \<and> list_all (\<lambda>x. x \<in> set BASE58_CHARS) cs \<and> c \<notin> set BASE58_CHARS
      \<and> base58_decode s = Some (Inl (InvalidCharacter c)))"
proof -
  have l: "length BASE58_CHARS = 58" by (simp add: BASE58_CHARS_def)
  have char: "(\<exists>d. digit58 x = Some d) \<longleftrightarrow> x \<in> set BASE58_CHARS" for x
  proof
    assume "x \<in> set BASE58_CHARS"
    then obtain i where i: "i < 58" "BASE58_CHARS ! i = x" using l by (auto simp: in_set_conv_nth)
    then have "unat (of_nat i :: u8) = i" by (simp add: unat_u8_of_nat)
    with i digit58_iff [of x "of_nat i"] show "\<exists>d. digit58 x = Some d" by auto
  qed (use l in \<open>auto simp: digit58_iff\<close>)
  show ?thesis
  proof (cases "list_all (\<lambda>x. x \<in> set BASE58_CHARS) s")
    case True
    then have "\<forall>x \<in> set s. \<exists>d. digit58 x = Some d" by (simp add: char list_all_iff)
    then obtain f where "\<forall>x \<in> set s. digit58 x = Some (f x)" by metis
    then have "map digit58 s = map Some (map f s)" by simp
    then show ?thesis using decode_corresponds by blast
  next
    case False
    then have "\<exists>x \<in> set s. \<not> x \<in> set BASE58_CHARS" by (auto simp: list_all_iff)
    from split_list_first_prop [OF this] obtain cs c rest where s: "s = cs @ c # rest" "c \<notin> set BASE58_CHARS"
      "\<forall>x \<in> set cs. x \<in> set BASE58_CHARS" by auto
    then have "\<forall>x \<in> set cs. \<exists>d. digit58 x = Some d" by (simp add: char)
    then obtain f where "\<forall>x \<in> set cs. digit58 x = Some (f x)" by metis
    then have "map digit58 cs = map Some (map f cs)" by simp
    moreover have "digit58 c = None" using s(2) char [of c] by (cases "digit58 c") auto
    ultimately have "base58_decode s = Some (Inl (InvalidCharacter c))" unfolding s(1) by (rule decode_invalid)
    then show ?thesis using s by (auto simp: list_all_iff)
  qed
qed

text \<open>
  A text with a checksum is read exactly if it is the one that is written, whether it is returned as a string or
  appended to a formatter.
\<close>

theorem base58_check_exact:
  "(base58_decode_check s = Some (Inr data) \<longleftrightarrow> base58_encode_check data = Some s)
   \<and> (base58_decode_check s = Some (Inr data) \<longleftrightarrow> encode_check_to_fmt fmt data = Some (fmt @ s))"
proof -
  let ?sum = "take 4 (sha256d_hash data)"
  have l: "length ?sum = 4" by (simp add: length_sha256d_hash)
  have eq: "(from_le_bytes a :: u32) = from_le_bytes b \<longleftrightarrow> a = b" if "length a = 4" "length b = 4" for a b
  proof
    assume "(from_le_bytes a :: u32) = from_le_bytes b"
    then have "to_le_bytes (from_le_bytes a :: u32) = to_le_bytes (from_le_bytes b :: u32)" by simp
    then show "a = b" using that by (simp add: to_from_le_bytes)
  qed simp
  have "base58_decode_check s = Some (Inr data) \<longleftrightarrow> base58_encode_check data = Some s"
  proof
    assume "base58_decode_check s = Some (Inr data)"
    then obtain ret where ret: "base58_decode s = Some (Inr ret)" "4 \<le> length ret" "data = take (length ret - 4) ret"
      "(from_le_bytes (drop (length ret - 4) ret) :: u32) = from_le_bytes (take 4 (sha256d_hash (take (length ret - 4) ret)))"
      by (auto simp: base58_decode_check_def and_then_Inr_iff Let_def split: if_splits)
    then have "drop (length ret - 4) ret = ?sum" using eq l by simp
    then have "ret = data @ ?sum" using ret(3) append_take_drop_id [of "length ret - 4" ret] by simp
    with ret(1) show "base58_encode_check data = Some s" by (simp add: decode_encode_iff base58_encode_check_def encode_iter_format)
  next
    assume "base58_encode_check data = Some s"
    then have "base58_decode s = Some (Inr (data @ ?sum))" by (simp add: decode_encode_iff base58_encode_check_def encode_iter_format)
    then show "base58_decode_check s = Some (Inr data)" using l by (simp add: base58_decode_check_def)
  qed
  then show ?thesis by (auto simp: base58_encode_check_def encode_check_to_fmt_def encode_iter_format)
qed

end
