(* ===== verification/Taproot.thy ===== *)
theory Taproot
  imports Sighash "HOL-Library.List_Lexorder" "HOL-Library.Multiset"
begin

text \<open>
  Taproot script trees (\<open>src/litecoin/src/taproot/mod.rs\<close>, \<open>taproot/merkle_branch.rs\<close>): tagged node hashes, Merkle
  branches, the builder that takes leaves in depth-first order, the spending information with its map from scripts to
  branches, and control blocks. Points and scalars belong to the library \<open>secp256k1\<close>: a record \<open>X\<close> gives the functions
  the code calls, and \<open>xonly_laws\<close> and \<open>tweak_laws\<close> state what is documented of them. The order on hashes and branches
  is the derived one, lexicographic by bytes. The Huffman construction is in \<open>Taproot_Huffman\<close>.
\<close>

section \<open>Hashes of nodes\<close>

type_synonym tap_node_hash = bytes

text \<open>
  The engine of a tag. Its midstate is a constant that the macro \<open>sha256t_hash_newtype\<close> computes when the program is
  compiled; the second case never arises.
\<close>

definition tap_engine :: "string \<Rightarrow> sha256_engine" where
  "tap_engine tag = (case tag_engine (map of_char tag) of Some e \<Rightarrow> e | None \<Rightarrow> sha256_engine_default)"

text \<open>Encoding into an engine does not fail: \<open>tap_leaf_hash_eq\<close> shows that the first case never arises.\<close>

definition tap_leaf_hash :: "bytes \<Rightarrow> leaf_version \<Rightarrow> bytes" where
  "tap_leaf_hash script ver =
     (case enc_seq (emit_u8 (leaf_version_to_consensus ver)) (script_encode script) of
        Inl e \<Rightarrow> []
      | Inr (b, _) \<Rightarrow> sha256t_from_engine (sha256_input (tap_engine ''TapLeaf'') b))"

definition combine_node_hashes :: "tap_node_hash \<Rightarrow> tap_node_hash \<Rightarrow> tap_node_hash \<times> bool" where
  "combine_node_hashes a b =
     (let eng = tap_engine ''TapBranch'';
          eng = (if a < b then sha256_input (sha256_input eng a) b else sha256_input (sha256_input eng b) a) in
      (sha256t_from_engine eng, a < b))"

definition from_node_hashes :: "tap_node_hash \<Rightarrow> tap_node_hash \<Rightarrow> tap_node_hash" where
  "from_node_hashes a b = fst (combine_node_hashes a b)"

section \<open>Merkle branches\<close>

definition TAPROOT_CONTROL_MAX_NODE_COUNT :: nat where "TAPROOT_CONTROL_MAX_NODE_COUNT = 128"
definition TAPROOT_CONTROL_NODE_SIZE :: nat where "TAPROOT_CONTROL_NODE_SIZE = 32"
definition TAPROOT_LEAF_MASK :: u8 where "TAPROOT_LEAF_MASK = 0xfe"
definition TAPROOT_CONTROL_MAX_SIZE :: nat where
  "TAPROOT_CONTROL_MAX_SIZE = TAPROOT_CONTROL_BASE_SIZE + TAPROOT_CONTROL_NODE_SIZE * TAPROOT_CONTROL_MAX_NODE_COUNT"

datatype taproot_error =
  InvalidMerkleBranchSize nat
| InvalidMerkleTreeDepth nat
| InvalidTaprootLeafVersion u8
| InvalidControlBlockSize nat
| InvalidInternalKey
| TaprootEmptyTree

datatype taproot_builder_error =
  BuilderInvalidMerkleTreeDepth nat
| NodeNotInDfsOrder
| OverCompleteTree
| BuilderInvalidInternalKey
| BuilderEmptyTree

type_synonym taproot_merkle_branch = "tap_node_hash list"

definition branch_decode :: "bytes \<Rightarrow> taproot_error + taproot_merkle_branch" where
  "branch_decode sl =
     (if length sl mod TAPROOT_CONTROL_NODE_SIZE \<noteq> 0 then Inl (InvalidMerkleBranchSize (length sl))
      else if length sl > TAPROOT_CONTROL_NODE_SIZE * TAPROOT_CONTROL_MAX_NODE_COUNT
      then Inl (InvalidMerkleTreeDepth (length sl div TAPROOT_CONTROL_NODE_SIZE))
      else Inr (chunks_exact TAPROOT_CONTROL_NODE_SIZE sl))"

definition branch_from_collection :: "tap_node_hash list \<Rightarrow> taproot_error + taproot_merkle_branch" where
  "branch_from_collection c =
     (if length c > TAPROOT_CONTROL_MAX_NODE_COUNT then Inl (InvalidMerkleTreeDepth (length c)) else Inr c)"

text \<open>What is written, and the count that is returned.\<close>

definition branch_encode :: "taproot_merkle_branch \<Rightarrow> bytes \<times> nat" where
  "branch_encode p = (fold (\<lambda>h w. w @ h) p [], length p * 32)"

definition branch_serialize :: "taproot_merkle_branch \<Rightarrow> bytes" where
  "branch_serialize p = concat p"

definition branch_push :: "taproot_merkle_branch \<Rightarrow> tap_node_hash \<Rightarrow> taproot_builder_error + taproot_merkle_branch" where
  "branch_push p h =
     (if length p \<ge> TAPROOT_CONTROL_MAX_NODE_COUNT then Inl (BuilderInvalidMerkleTreeDepth (length p)) else Inr (p @ [h]))"

section \<open>Leaves and nodes\<close>

datatype tap_leaf = TapLeafScript bytes leaf_version | TapLeafHidden tap_node_hash

fun as_hidden :: "tap_leaf \<Rightarrow> tap_node_hash option" where
  "as_hidden (TapLeafHidden v) = Some v"
| "as_hidden (TapLeafScript _ _) = None"

fun as_script :: "tap_leaf \<Rightarrow> (bytes \<times> leaf_version) option" where
  "as_script (TapLeafScript script ver) = Some (script, ver)"
| "as_script (TapLeafHidden _) = None"

record leaf_node =
  leaf :: tap_leaf
  merkle_branch :: taproot_merkle_branch

definition leaf_new_script :: "bytes \<Rightarrow> leaf_version \<Rightarrow> leaf_node" where
  "leaf_new_script script ver = \<lparr> leaf = TapLeafScript script ver, merkle_branch = [] \<rparr>"

definition leaf_new_hidden :: "tap_node_hash \<Rightarrow> leaf_node" where
  "leaf_new_hidden hash = \<lparr> leaf = TapLeafHidden hash, merkle_branch = [] \<rparr>"

text \<open>\<^term>\<open>None\<close> is the panic of \<open>expect\<close>.\<close>

definition leaf_depth :: "leaf_node \<Rightarrow> u8 option" where
  "leaf_depth l = (if length (merkle_branch l) < 256 then Some (of_nat (length (merkle_branch l))) else None)"

definition leaf_leaf_hash :: "leaf_node \<Rightarrow> bytes option" where
  "leaf_leaf_hash l = map_option (\<lambda>(script, ver). tap_leaf_hash script ver) (as_script (leaf l))"

definition leaf_node_hash :: "leaf_node \<Rightarrow> tap_node_hash" where
  "leaf_node_hash l = (case leaf l of TapLeafScript script ver \<Rightarrow> tap_leaf_hash script ver | TapLeafHidden hash \<Rightarrow> hash)"

definition leaf_script :: "leaf_node \<Rightarrow> bytes option" where
  "leaf_script l = map_option fst (as_script (leaf l))"

definition leaf_leaf_version :: "leaf_node \<Rightarrow> leaf_version option" where
  "leaf_leaf_version l = map_option snd (as_script (leaf l))"

record node_info =
  node_hash :: tap_node_hash
  node_leaves :: "leaf_node list"
  has_hidden_nodes :: bool

definition new_hidden_node :: "tap_node_hash \<Rightarrow> node_info" where
  "new_hidden_node hash = \<lparr> node_hash = hash, node_leaves = [], has_hidden_nodes = True \<rparr>"

definition new_leaf_with_ver :: "bytes \<Rightarrow> leaf_version \<Rightarrow> node_info" where
  "new_leaf_with_ver script ver =
     \<lparr> node_hash = tap_leaf_hash script ver, node_leaves = [leaf_new_script script ver], has_hidden_nodes = False \<rparr>"

fun push_all :: "tap_node_hash \<Rightarrow> leaf_node list \<Rightarrow> taproot_builder_error + leaf_node list" where
  "push_all h [] = Inr []"
| "push_all h (l # ls) =
     and_then (branch_push (merkle_branch l) h) (\<lambda>p.
     and_then (push_all h ls) (\<lambda>ls'. Inr (l \<lparr> merkle_branch := p \<rparr> # ls')))"

definition node_combine :: "node_info \<Rightarrow> node_info \<Rightarrow> taproot_builder_error + node_info" where
  "node_combine a b =
     (let (hash, left_first) = combine_node_hashes (node_hash a) (node_hash b);
          (a, b) = (if left_first then (a, b) else (b, a)) in
      and_then (push_all (node_hash b) (node_leaves a)) (\<lambda>a_leaves.
      and_then (push_all (node_hash a) (node_leaves b)) (\<lambda>b_leaves.
        Inr \<lparr> node_hash = hash, node_leaves = a_leaves @ b_leaves,
              has_hidden_nodes = has_hidden_nodes a \<or> has_hidden_nodes b \<rparr>)))"

section \<open>The builder\<close>

text \<open>The field \<open>branch\<close> of \<open>TaprootBuilder\<close>: for each level at most one finished subtree.\<close>

type_synonym taproot_builder = "node_info option list"

definition tap_builder_new :: taproot_builder where
  "tap_builder_new = []"

function insert_loop ::
    "taproot_builder \<Rightarrow> node_info \<Rightarrow> u8 \<Rightarrow> taproot_builder_error + (taproot_builder \<times> node_info \<times> u8)" where
  "insert_loop b node depth =
     (if length b = unat depth + 1
      then (case last b of
          None \<Rightarrow> Inr (butlast b @ [None], node, depth)
        | Some child \<Rightarrow>
            if depth = 0 then Inl OverCompleteTree
            else and_then (node_combine node child) (\<lambda>node. insert_loop (butlast b) node (depth - 1)))
      else Inr (b, node, depth))"
  by pat_completeness auto
termination by (relation "measure (\<lambda>(b, _, _). length b)") auto

declare insert_loop.simps [simp del]

definition builder_insert :: "taproot_builder \<Rightarrow> node_info \<Rightarrow> u8 \<Rightarrow> taproot_builder_error + taproot_builder" where
  "builder_insert b node depth =
     (if unat depth > TAPROOT_CONTROL_MAX_NODE_COUNT then Inl (BuilderInvalidMerkleTreeDepth (unat depth))
      else if unat depth + 1 < length b then Inl NodeNotInDfsOrder
      else and_then (insert_loop b node depth) (\<lambda>(b, node, depth).
        let b = (if length b < unat depth + 1 then b @ replicate (unat depth + 1 - length b) None else b) in
        Inr (b[unat depth := Some node])))"

definition add_leaf_with_ver :: "taproot_builder \<Rightarrow> u8 \<Rightarrow> bytes \<Rightarrow> leaf_version \<Rightarrow> taproot_builder_error + taproot_builder" where
  "add_leaf_with_ver b depth script ver = builder_insert b (new_leaf_with_ver script ver) depth"

definition add_leaf :: "taproot_builder \<Rightarrow> u8 \<Rightarrow> bytes \<Rightarrow> taproot_builder_error + taproot_builder" where
  "add_leaf b depth script = add_leaf_with_ver b depth script LeafTapScript"

definition add_hidden_node :: "taproot_builder \<Rightarrow> u8 \<Rightarrow> tap_node_hash \<Rightarrow> taproot_builder_error + taproot_builder" where
  "add_hidden_node b depth hash = builder_insert b (new_hidden_node hash) depth"

definition is_finalizable :: "taproot_builder \<Rightarrow> bool" where
  "is_finalizable b \<longleftrightarrow> length b = 1 \<and> b ! 0 \<noteq> None"

definition builder_has_hidden_nodes :: "taproot_builder \<Rightarrow> bool" where
  "builder_has_hidden_nodes b = list_ex (\<lambda>n. case n of Some node \<Rightarrow> has_hidden_nodes node | None \<Rightarrow> False) b"

datatype incomplete_builder_error = NotFinalized taproot_builder | BuilderHiddenParts taproot_builder

fun into_builder :: "incomplete_builder_error \<Rightarrow> taproot_builder" where
  "into_builder (NotFinalized b) = b"
| "into_builder (BuilderHiddenParts b) = b"

definition try_into_node_info :: "taproot_builder \<Rightarrow> (incomplete_builder_error + node_info) option" where
  "try_into_node_info b =
     (if length b \<noteq> 1 then Some (Inl (NotFinalized b)) else map_option Inr (last b))"

text \<open>A complete tree without hidden nodes.\<close>

datatype tap_tree = TapTree (tree_node_info: node_info)

definition try_into_taptree :: "taproot_builder \<Rightarrow> (incomplete_builder_error + tap_tree) option" where
  "try_into_taptree b =
     map_option (\<lambda>r. and_then r (\<lambda>node.
       if has_hidden_nodes node then Inl (BuilderHiddenParts [Some node]) else Inr (TapTree node))) (try_into_node_info b)"

datatype hidden_nodes_error = HiddenParts (into_node_info: node_info)

definition taptree_from_node_info :: "node_info \<Rightarrow> hidden_nodes_error + tap_tree" where
  "taptree_from_node_info node = (if has_hidden_nodes node then Inl (HiddenParts node) else Inr (TapTree node))"

definition root_hash :: "tap_tree \<Rightarrow> tap_node_hash" where
  "root_hash t = node_hash (tree_node_info t)"

record ScriptLeaf =
  sl_version :: leaf_version
  sl_script :: bytes
  sl_branch :: taproot_merkle_branch

definition from_leaf_node :: "leaf_node \<Rightarrow> ScriptLeaf option" where
  "from_leaf_node l =
     map_option (\<lambda>(script, ver). \<lparr> sl_version = ver, sl_script = script, sl_branch = merkle_branch l \<rparr>) (as_script (leaf l))"

text \<open>The iterator \<open>ScriptLeaves\<close>, which ends where \<open>next\<close> gives \<open>None\<close>.\<close>

fun script_leaves_from :: "leaf_node list \<Rightarrow> ScriptLeaf list" where
  "script_leaves_from [] = []"
| "script_leaves_from (l # ls) = (case from_leaf_node l of None \<Rightarrow> [] | Some s \<Rightarrow> s # script_leaves_from ls)"

definition script_leaves :: "tap_tree \<Rightarrow> ScriptLeaf list" where
  "script_leaves t = script_leaves_from (node_leaves (tree_node_info t))"

section \<open>Keys\<close>

datatype parity = ParityEven | ParityOdd

record ('k, 's) xonly_ops =
  xonly_from_slice :: "bytes \<Rightarrow> 'k option"
  xonly_serialize :: "'k \<Rightarrow> bytes"
  scalar_from_be_bytes :: "bytes \<Rightarrow> 's option"
  add_tweak :: "'k \<Rightarrow> 's \<Rightarrow> ('k \<times> parity) option"
  tweak_add_check :: "'k \<Rightarrow> 'k \<Rightarrow> parity \<Rightarrow> 's \<Rightarrow> bool"

definition from_key_and_tweak :: "('k, 's) xonly_ops \<Rightarrow> 'k \<Rightarrow> tap_node_hash option \<Rightarrow> bytes" where
  "from_key_and_tweak X internal_key merkle_root =
     (let eng = sha256_input (tap_engine ''TapTweak'') (xonly_serialize X internal_key);
          eng = (case merkle_root of Some h \<Rightarrow> sha256_input eng h | None \<Rightarrow> eng) in
      sha256t_from_engine eng)"

text \<open>\<^term>\<open>None\<close> is the panic of \<open>expect\<close>.\<close>

definition to_scalar :: "('k, 's) xonly_ops \<Rightarrow> bytes \<Rightarrow> 's option" where
  "to_scalar X hash = scalar_from_be_bytes X hash"

definition tap_tweak :: "('k, 's) xonly_ops \<Rightarrow> 'k \<Rightarrow> tap_node_hash option \<Rightarrow> ('k \<times> parity) option" where
  "tap_tweak X internal_key merkle_root =
     Option.bind (to_scalar X (from_key_and_tweak X internal_key merkle_root)) (add_tweak X internal_key)"

section \<open>Spending information\<close>

type_synonym script_merkle_proof_map = "bytes \<times> leaf_version \<rightharpoonup> taproot_merkle_branch list"

record 'k TaprootSpendInfo =
  internal_key :: 'k
  tap_root :: "tap_node_hash option"
  output_key_parity :: parity
  output_key :: 'k
  script_map :: script_merkle_proof_map

definition new_key_spend :: "('k, 's) xonly_ops \<Rightarrow> 'k \<Rightarrow> tap_node_hash option \<Rightarrow> 'k TaprootSpendInfo option" where
  "new_key_spend X key root =
     map_option (\<lambda>(out, parity). \<lparr> internal_key = key, tap_root = root, output_key_parity = parity,
         output_key = out, script_map = Map.empty \<rparr>) (tap_tweak X key root)"

definition spend_info_tap_tweak :: "('k, 's) xonly_ops \<Rightarrow> 'k TaprootSpendInfo \<Rightarrow> bytes" where
  "spend_info_tap_tweak X info = from_key_and_tweak X (internal_key info) (tap_root info)"

text \<open>A \<open>BTreeSet\<close> is the sorted list of its elements.\<close>

definition map_leaf :: "leaf_node \<Rightarrow> script_merkle_proof_map \<Rightarrow> script_merkle_proof_map" where
  "map_leaf l m =
     (case leaf l of
        TapLeafHidden _ \<Rightarrow> m
      | TapLeafScript script ver \<Rightarrow>
          (case m (script, ver) of
             None \<Rightarrow> m((script, ver) \<mapsto> [merkle_branch l])
           | Some ps \<Rightarrow> m((script, ver) \<mapsto> insort_insert (merkle_branch l) ps)))"

definition from_node_info :: "('k, 's) xonly_ops \<Rightarrow> 'k \<Rightarrow> node_info \<Rightarrow> 'k TaprootSpendInfo option" where
  "from_node_info X key node =
     map_option (\<lambda>info. info \<lparr> script_map := fold map_leaf (node_leaves node) (script_map info) \<rparr>)
       (new_key_spend X key (Some (node_hash node)))"

text \<open>The outer \<^term>\<open>None\<close> is a panic; a builder that is not complete is given back.\<close>

definition builder_finalize :: "('k, 's) xonly_ops \<Rightarrow> 'k \<Rightarrow> taproot_builder \<Rightarrow> (taproot_builder + 'k TaprootSpendInfo) option" where
  "builder_finalize X key b =
     (if length b = 0 then map_option Inr (new_key_spend X key None)
      else if length b = 1
      then (case last b of Some node \<Rightarrow> map_option Inr (from_node_info X key node) | None \<Rightarrow> None)
      else Some (Inl b))"

section \<open>Control blocks\<close>

record 'k ControlBlock =
  cb_leaf_version :: leaf_version
  cb_parity :: parity
  cb_internal_key :: 'k
  cb_branch :: taproot_merkle_branch

text \<open>\<open>min_by\<close> on the lengths: the first of the shortest.\<close>

fun min_by_len :: "'a list list \<Rightarrow> 'a list option" where
  "min_by_len [] = None"
| "min_by_len (x # xs) = Some (fold (\<lambda>y m. if length m \<le> length y then m else y) xs x)"

text \<open>The outer \<^term>\<open>None\<close> is the panic of \<open>expect\<close> on an empty set.\<close>

definition control_block :: "'k TaprootSpendInfo \<Rightarrow> bytes \<times> leaf_version \<Rightarrow> 'k ControlBlock option option" where
  "control_block info script_ver =
     (case script_map info script_ver of
        None \<Rightarrow> Some None
      | Some ps \<Rightarrow> map_option (\<lambda>smallest.
          Some \<lparr> cb_leaf_version = snd script_ver, cb_parity = output_key_parity info,
                 cb_internal_key = internal_key info, cb_branch = smallest \<rparr>) (min_by_len ps))"

definition control_block_decode :: "('k, 's) xonly_ops \<Rightarrow> bytes \<Rightarrow> taproot_error + 'k ControlBlock" where
  "control_block_decode X sl =
     (if length sl < TAPROOT_CONTROL_BASE_SIZE \<or> (length sl - TAPROOT_CONTROL_BASE_SIZE) mod TAPROOT_CONTROL_NODE_SIZE \<noteq> 0
      then Inl (InvalidControlBlockSize (length sl))
      else
        let parity = (if sl ! 0 AND 1 = 0 then ParityEven else ParityOdd) in
        and_then (map_err InvalidTaprootLeafVersion (leaf_version_from_consensus (sl ! 0 AND TAPROOT_LEAF_MASK))) (\<lambda>ver.
        and_then (case xonly_from_slice X (take (TAPROOT_CONTROL_BASE_SIZE - 1) (drop 1 sl)) of
            None \<Rightarrow> Inl InvalidInternalKey | Some key \<Rightarrow> Inr key) (\<lambda>key.
        and_then (branch_decode (drop TAPROOT_CONTROL_BASE_SIZE sl)) (\<lambda>p.
          Inr \<lparr> cb_leaf_version = ver, cb_parity = parity, cb_internal_key = key, cb_branch = p \<rparr>))))"

definition control_block_size :: "'k ControlBlock \<Rightarrow> nat" where
  "control_block_size cb = TAPROOT_CONTROL_BASE_SIZE + TAPROOT_CONTROL_NODE_SIZE * length (cb_branch cb)"

definition control_block_encode :: "('k, 's) xonly_ops \<Rightarrow> 'k ControlBlock \<Rightarrow> bytes \<times> nat" where
  "control_block_encode X cb =
     (let first_byte = (case cb_parity cb of ParityEven \<Rightarrow> 0 | ParityOdd \<Rightarrow> 1) OR leaf_version_to_consensus (cb_leaf_version cb) in
      ([first_byte] @ xonly_serialize X (cb_internal_key cb) @ fst (branch_encode (cb_branch cb)), control_block_size cb))"

definition control_block_serialize :: "('k, 's) xonly_ops \<Rightarrow> 'k ControlBlock \<Rightarrow> bytes" where
  "control_block_serialize X cb = fst (control_block_encode X cb)"

text \<open>\<^term>\<open>None\<close> is the panic of \<open>to_scalar\<close>.\<close>

definition verify_taproot_commitment :: "('k, 's) xonly_ops \<Rightarrow> 'k ControlBlock \<Rightarrow> 'k \<Rightarrow> bytes \<Rightarrow> bool option" where
  "verify_taproot_commitment X cb out script =
     (let curr_hash = fold (\<lambda>elem curr_hash. from_node_hashes curr_hash elem) (cb_branch cb)
                        (tap_leaf_hash script (cb_leaf_version cb)) in
      map_option (\<lambda>tweak. tweak_add_check X (cb_internal_key cb) out (cb_parity cb) tweak)
        (to_scalar X (from_key_and_tweak X (cb_internal_key cb) (Some curr_hash))))"

section \<open>Tagged hashes of data given in pieces\<close>

lemma tap_engine_inputs:
  "sha256t_from_engine (fold (\<lambda>x e. sha256_input e x) xs (tap_engine tag)) = tagged_hash tag (concat xs)"
proof -
  let ?t = "sha256_hash (map of_char tag)"
  obtain e where e: "tag_engine (map of_char tag) = Some e" "nbytes e = 64"
    "holds 64 software_process_block sha256_iv (?t @ ?t) e" by (rule tag_engine_holds)
  have "nbytes (fold (\<lambda>x e. sha256_input e x) xs d) = nbytes d + length (concat xs)
      \<and> (holds 64 software_process_block sha256_iv m d \<longrightarrow>
         holds 64 software_process_block sha256_iv (m @ concat xs) (fold (\<lambda>x e. sha256_input e x) xs d))" for d m
    using sha256_blocks.holds_input
    by (induction xs arbitrary: d m) (fastforce simp: sha256_input_def nbytes_input)+
  from this [of e "?t @ ?t"] e have "nbytes (fold (\<lambda>x e. sha256_input e x) xs e) = length ((?t @ ?t) @ concat xs)"
    and "holds 64 software_process_block sha256_iv ((?t @ ?t) @ concat xs) (fold (\<lambda>x e. sha256_input e x) xs e)"
    by (simp_all add: length_sha256_hash)
  then have "sha256t_from_engine (fold (\<lambda>x e. sha256_input e x) xs e) = fips_sha256 ((?t @ ?t) @ concat xs)"
    using sha256_blocks.finish_absorbs
    by (simp add: sha256t_from_engine_def sha256_from_engine_def sha256_midstate_def fips_sha256_code)
  then show ?thesis by (simp add: tap_engine_def e(1) tagged_hash_def Let_def sha256_hash_fips)
qed

lemma tap_leaf_hash_eq: "tap_leaf_hash script ver = tagged_hash ''TapLeaf'' (leaf_version_to_consensus ver # bytes_ser script)"
  using tap_engine_inputs [of "[leaf_version_to_consensus ver # bytes_ser script]"]
  by (simp add: tap_leaf_hash_def wrote_def [symmetric]) (simp add: wrote_def)

lemma combine_node_hashes_eq:
  "combine_node_hashes a b = (tagged_hash ''TapBranch'' (min a b @ max a b), a < b)"
  using tap_engine_inputs [of "[a, b]" "''TapBranch''"] tap_engine_inputs [of "[b, a]" "''TapBranch''"]
  by (cases rule: linorder_cases [of a b])
    (auto simp: combine_node_hashes_def Let_def min_def max_def dest: less_asym less_imp_le)

lemma from_node_hashes_eq: "from_node_hashes a b = tagged_hash ''TapBranch'' (min a b @ max a b)"
  by (simp add: from_node_hashes_def combine_node_hashes_eq)

lemma from_node_hashes_commute: "from_node_hashes a b = from_node_hashes b a"
  by (simp add: from_node_hashes_eq min.commute max.commute)

lemma from_key_and_tweak_eq:
  "from_key_and_tweak X key root = tagged_hash ''TapTweak'' (xonly_serialize X key @ (case root of None \<Rightarrow> [] | Some h \<Rightarrow> h))"
  using tap_engine_inputs [of "[xonly_serialize X key]" "''TapTweak''"]
    tap_engine_inputs [of "[xonly_serialize X key, the root]" "''TapTweak''"]
  by (cases root) (simp_all add: from_key_and_tweak_def)

section \<open>Script trees\<close>

text \<open>
  The trees of BIP 341 as a datatype: their root, their known leaves with the hashing partners on the way to the root,
  and the calls that list them in depth-first order.
\<close>

datatype script_tree = Tip bytes leaf_version | Hidden tap_node_hash | Fork script_tree script_tree

primrec tree_hash :: "script_tree \<Rightarrow> tap_node_hash" where
  "tree_hash (Tip script ver) = tap_leaf_hash script ver"
| "tree_hash (Hidden h) = h"
| "tree_hash (Fork l r) = from_node_hashes (tree_hash l) (tree_hash r)"

primrec tree_hidden :: "script_tree \<Rightarrow> bool" where
  "tree_hidden (Tip script ver) = False"
| "tree_hidden (Hidden h) = True"
| "tree_hidden (Fork l r) = (tree_hidden l \<or> tree_hidden r)"

primrec tree_height :: "script_tree \<Rightarrow> nat" where
  "tree_height (Tip script ver) = 0"
| "tree_height (Hidden h) = 0"
| "tree_height (Fork l r) = Suc (max (tree_height l) (tree_height r))"

definition partner :: "tap_node_hash \<Rightarrow> (bytes \<times> leaf_version) \<times> taproot_merkle_branch \<Rightarrow> (bytes \<times> leaf_version) \<times> taproot_merkle_branch" where
  "partner h = (\<lambda>(k, p). (k, p @ [h]))"

primrec tree_leaves :: "script_tree \<Rightarrow> ((bytes \<times> leaf_version) \<times> taproot_merkle_branch) list" where
  "tree_leaves (Tip script ver) = [((script, ver), [])]"
| "tree_leaves (Hidden h) = []"
| "tree_leaves (Fork l r) = map (partner (tree_hash r)) (tree_leaves l) @ map (partner (tree_hash l)) (tree_leaves r)"

primrec tree_calls :: "nat \<Rightarrow> script_tree \<Rightarrow> (u8 \<times> tap_leaf) list" where
  "tree_calls d (Tip script ver) = [(of_nat d, TapLeafScript script ver)]"
| "tree_calls d (Hidden h) = [(of_nat d, TapLeafHidden h)]"
| "tree_calls d (Fork l r) = tree_calls (Suc d) l @ tree_calls (Suc d) r"

definition add_call :: "taproot_builder \<Rightarrow> u8 \<times> tap_leaf \<Rightarrow> taproot_builder_error + taproot_builder" where
  "add_call b = (\<lambda>(depth, l). case l of
     TapLeafScript script ver \<Rightarrow> add_leaf_with_ver b depth script ver | TapLeafHidden hash \<Rightarrow> add_hidden_node b depth hash)"

fun add_calls :: "taproot_builder \<Rightarrow> (u8 \<times> tap_leaf) list \<Rightarrow> taproot_builder_error + taproot_builder" where
  "add_calls b [] = Inr b"
| "add_calls b (c # cs) = and_then (add_call b c) (\<lambda>b'. add_calls b' cs)"

text \<open>The node of a tree, combined from its subtrees as the builder combines them.\<close>

primrec node_of :: "script_tree \<Rightarrow> taproot_builder_error + node_info" where
  "node_of (Tip script ver) = Inr (new_leaf_with_ver script ver)"
| "node_of (Hidden h) = Inr (new_hidden_node h)"
| "node_of (Fork l r) = and_then (node_of r) (\<lambda>n. and_then (node_of l) (\<lambda>child. node_combine n child))"

section \<open>Combining nodes\<close>

lemma push_all_iff:
  "push_all h ls = Inr ls' \<longleftrightarrow> list_all (\<lambda>l. length (merkle_branch l) < 128) ls
     \<and> ls' = map (\<lambda>l. l \<lparr> merkle_branch := merkle_branch l @ [h] \<rparr>) ls"
  by (induction ls arbitrary: ls')
    (auto simp: branch_push_def TAPROOT_CONTROL_MAX_NODE_COUNT_def and_then_Inr_iff split: if_splits)

lemma and_then_Inl_iff: "and_then m f = Inl e \<longleftrightarrow> m = Inl e \<or> (\<exists>x. m = Inr x \<and> f x = Inl e)"
  by (cases m) auto

lemma push_all_error: "push_all h ls = Inl e \<Longrightarrow> list_all (\<lambda>l. length (merkle_branch l) \<le> 128) ls \<Longrightarrow> e = BuilderInvalidMerkleTreeDepth 128"
  by (induction ls) (force simp: branch_push_def TAPROOT_CONTROL_MAX_NODE_COUNT_def and_then_Inl_iff split: if_splits)+

definition leaf_pair :: "leaf_node \<Rightarrow> tap_leaf \<times> taproot_merkle_branch" where
  "leaf_pair l = (leaf l, merkle_branch l)"

definition known_leaf :: "(bytes \<times> leaf_version) \<times> taproot_merkle_branch \<Rightarrow> tap_leaf \<times> taproot_merkle_branch" where
  "known_leaf = (\<lambda>((script, ver), p). (TapLeafScript script ver, p))"

definition represents :: "node_info \<Rightarrow> script_tree \<Rightarrow> bool" where
  "represents n t \<longleftrightarrow> node_hash n = tree_hash t \<and> has_hidden_nodes n = tree_hidden t
     \<and> image_mset leaf_pair (mset (node_leaves n)) = image_mset known_leaf (mset (tree_leaves t))"

lemma tree_leaves_height: "x \<in> set (tree_leaves t) \<Longrightarrow> length (snd x) \<le> tree_height t"
  by (induction t arbitrary: x) (fastforce simp: partner_def)+

lemma represents_branches: "\<lbrakk>represents n t; tree_height t \<le> k\<rbrakk> \<Longrightarrow> list_all (\<lambda>l. length (merkle_branch l) \<le> k) (node_leaves n)"
proof (unfold list_all_iff, intro ballI)
  fix l assume "represents n t" "tree_height t \<le> k" "l \<in> set (node_leaves n)"
  then have "leaf_pair l \<in># image_mset known_leaf (mset (tree_leaves t))"
    by (metis imageI represents_def set_image_mset set_mset_mset)
  then obtain x where "x \<in> set (tree_leaves t)" "leaf_pair l = known_leaf x" by auto
  with \<open>tree_height t \<le> k\<close> tree_leaves_height [of x t] show "length (merkle_branch l) \<le> k"
    by (auto simp: leaf_pair_def known_leaf_def split: prod.splits)
qed

lemma image_leaf_pair_push:
  "image_mset leaf_pair (mset ls) = image_mset known_leaf (mset xs) \<Longrightarrow>
   image_mset leaf_pair (mset (map (\<lambda>l. l \<lparr> merkle_branch := merkle_branch l @ [h] \<rparr>) ls))
     = image_mset known_leaf (mset (map (partner h) xs))"
proof -
  assume eq: "image_mset leaf_pair (mset ls) = image_mset known_leaf (mset xs)"
  let ?f = "\<lambda>(k, p). (k :: tap_leaf, p @ [h])"
  have "image_mset ?f (image_mset leaf_pair (mset ls)) = image_mset ?f (image_mset known_leaf (mset xs))" by (simp only: eq)
  moreover have "?f \<circ> leaf_pair = (\<lambda>l. leaf_pair (l \<lparr> merkle_branch := merkle_branch l @ [h] \<rparr>))"
    by (auto simp: leaf_pair_def)
  moreover have "?f \<circ> known_leaf = known_leaf \<circ> partner h" by (auto simp: known_leaf_def partner_def)
  ultimately show ?thesis by (simp add: multiset.map_comp comp_def)
qed

lemma combine_represents:
  assumes "represents a ta" "represents b tb" "tree_height ta < 128" "tree_height tb < 128"
  shows "\<exists>n. node_combine a b = Inr n \<and> represents n (Fork tb ta)"
proof -
  have le: "list_all (\<lambda>l. length (merkle_branch l) < 128) (node_leaves a)" "list_all (\<lambda>l. length (merkle_branch l) < 128) (node_leaves b)"
    using represents_branches [OF assms(1), of 127] represents_branches [OF assms(2), of 127] assms(3,4)
    by (auto simp: list_all_iff)
  let ?push = "\<lambda>h. map (\<lambda>l. l \<lparr> merkle_branch := merkle_branch l @ [h] \<rparr>)"
  have p: "push_all (node_hash b) (node_leaves a) = Inr (?push (node_hash b) (node_leaves a))"
    "push_all (node_hash a) (node_leaves b) = Inr (?push (node_hash a) (node_leaves b))"
    using le by (simp_all add: push_all_iff)
  have h: "node_hash a = tree_hash ta" "node_hash b = tree_hash tb" using assms(1,2) by (simp_all add: represents_def)
  have eq: "image_mset leaf_pair (mset (?push (node_hash b) (node_leaves a)))
      = image_mset known_leaf (mset (map (partner (tree_hash tb)) (tree_leaves ta)))"
    "image_mset leaf_pair (mset (?push (node_hash a) (node_leaves b)))
      = image_mset known_leaf (mset (map (partner (tree_hash ta)) (tree_leaves tb)))"
    using image_leaf_pair_push [of "node_leaves a" "tree_leaves ta" "tree_hash tb"]
      image_leaf_pair_push [of "node_leaves b" "tree_leaves tb" "tree_hash ta"] assms(1,2) h
    by (simp_all add: represents_def)
  obtain hash lf where c: "combine_node_hashes (node_hash a) (node_hash b) = (hash, lf)" by fastforce
  then have hash: "hash = tree_hash (Fork tb ta)"
    using h from_node_hashes_commute [of "tree_hash tb"] by (simp add: from_node_hashes_def)
  let ?pa = "?push (node_hash b) (node_leaves a)" and ?pb = "?push (node_hash a) (node_leaves b)"
  let ?n = "\<lparr> node_hash = hash, node_leaves = (if lf then ?pa @ ?pb else ?pb @ ?pa),
      has_hidden_nodes = has_hidden_nodes a \<or> has_hidden_nodes b \<rparr>"
  have "node_combine a b = Inr ?n" unfolding node_combine_def c using p by (cases lf) auto
  moreover have "represents ?n (Fork tb ta)"
    using assms(1,2) eq hash by (cases lf) (simp_all add: represents_def add.commute disj_commute)
  ultimately show ?thesis by blast
qed

lemma node_of_represents: "tree_height t \<le> 128 \<Longrightarrow> \<exists>n. node_of t = Inr n \<and> represents n t"
proof (induction t)
  case (Fork l r)
  then obtain nl nr where n: "node_of l = Inr nl" "represents nl l" "node_of r = Inr nr" "represents nr r" by auto
  have "tree_height r < 128" "tree_height l < 128" using Fork.prems by simp_all
  from combine_represents [OF n(4,2) this] obtain n where "node_combine nr nl = Inr n" "represents n (Fork l r)" by blast
  then show ?case using n by simp
qed (simp_all add: represents_def new_leaf_with_ver_def new_hidden_node_def leaf_pair_def known_leaf_def leaf_new_script_def)

section \<open>The builder holds a forest\<close>

text \<open>Placing a tree at a depth, and the calls that a forest with one tree per level stands for.\<close>

function place :: "nat \<Rightarrow> script_tree \<Rightarrow> script_tree option list \<Rightarrow> script_tree option list option" where
  "place d t ts =
     (if length ts = Suc d
      then (case last ts of
          None \<Rightarrow> Some (butlast ts @ [Some t])
        | Some s \<Rightarrow> if d = 0 then None else place (d - 1) (Fork s t) (butlast ts))
      else Some (ts @ replicate (d - length ts) None @ [Some t]))"
  by pat_completeness auto
termination by (relation "measure fst") auto

declare place.simps [simp del]

fun tip_of :: "tap_leaf \<Rightarrow> script_tree" where
  "tip_of (TapLeafScript script ver) = Tip script ver"
| "tip_of (TapLeafHidden h) = Hidden h"

fun places :: "script_tree option list \<Rightarrow> (u8 \<times> tap_leaf) list \<Rightarrow> script_tree option list option" where
  "places ts [] = Some ts"
| "places ts ((depth, l) # cs) =
     (if unat depth \<le> 128 \<and> length ts \<le> Suc (unat depth)
      then Option.bind (place (unat depth) (tip_of l) ts) (\<lambda>ts'. places ts' cs) else None)"

definition holds_forest :: "taproot_builder \<Rightarrow> script_tree option list \<Rightarrow> bool" where
  "holds_forest = list_all2 (rel_option (\<lambda>n t. node_of t = Inr n))"

fun forest_ok :: "nat \<Rightarrow> script_tree option list \<Rightarrow> bool" where
  "forest_ok d [] = True"
| "forest_ok d (None # ts) = forest_ok (Suc d) ts"
| "forest_ok d (Some t # ts) = (d + tree_height t \<le> 128 \<and> forest_ok (Suc d) ts)"

fun forest_calls :: "nat \<Rightarrow> script_tree option list \<Rightarrow> (u8 \<times> tap_leaf) list" where
  "forest_calls d [] = []"
| "forest_calls d (None # ts) = forest_calls (Suc d) ts"
| "forest_calls d (Some t # ts) = tree_calls d t @ forest_calls (Suc d) ts"

lemma forest_snoc:
  "forest_ok d (ts @ [None]) = forest_ok d ts"
  "forest_ok d (ts @ [Some t]) \<longleftrightarrow> forest_ok d ts \<and> d + length ts + tree_height t \<le> 128"
  "forest_calls d (ts @ [None]) = forest_calls d ts"
  "forest_calls d (ts @ [Some t]) = forest_calls d ts @ tree_calls (d + length ts) t"
  by (induction ts arbitrary: d rule: list.induct; case_tac x1 rule: option.exhaust; auto)+

lemma forest_padded:
  "forest_ok d (ts @ replicate k None) = forest_ok d ts"
  "forest_calls d (ts @ replicate k None) = forest_calls d ts"
  by (induction k arbitrary: ts) (auto simp: replicate_append_same [symmetric] forest_snoc simp flip: append_assoc)

lemma holds_forest_None: "holds_forest (replicate k None) (replicate k None)"
  by (induction k) (simp_all add: holds_forest_def)

lemma holds_forest_append: "\<lbrakk>holds_forest b ts; holds_forest c us\<rbrakk> \<Longrightarrow> holds_forest (b @ c) (ts @ us)"
  unfolding holds_forest_def by (rule list_all2_appendI)

lemma holds_forest_single: "holds_forest [Some n] [Some t] \<longleftrightarrow> node_of t = Inr n"
  by (simp add: holds_forest_def)

text \<open>A level of the loop: the nodes that are combined stay within the permitted depth.\<close>

lemma insert_loop_place:
  assumes "holds_forest b ts" "node_of t = Inr n" "forest_ok 0 ts" "d + tree_height t \<le> 128" "length ts \<le> Suc d"
  shows "case place d t ts of
      None \<Rightarrow> insert_loop b n (of_nat d) = Inl OverCompleteTree
    | Some ts' \<Rightarrow> \<exists>b' n' d'. insert_loop b n (of_nat d) = Inr (b', n', of_nat d') \<and> d' \<le> d \<and> length b' \<le> Suc d'
        \<and> holds_forest ((b' @ replicate (Suc d' - length b') None)[d' := Some n']) ts'"
  using assms
proof (induction d t ts arbitrary: b n rule: place.induct)
  case (1 d t ts)
  have len: "length b = length ts" using "1.prems"(1) by (auto simp: holds_forest_def dest: list_all2_lengthD)
  have u: "unat (of_nat d :: u8) = d" using "1.prems"(4) by (simp add: unat_u8_of_nat)
  show ?case
  proof (cases "length ts = Suc d")
    case False
    then have "length ts \<le> d" using "1.prems"(5) by simp
    then have "(b @ replicate (Suc d - length b) None)[d := Some n] = b @ replicate (d - length ts) None @ [Some n]"
      using len by (simp add: Suc_diff_le replicate_append_same [symmetric] list_update_append)
    moreover have "holds_forest (b @ replicate (d - length ts) None @ [Some n]) (ts @ replicate (d - length ts) None @ [Some t])"
      using "1.prems"(1,2) by (intro holds_forest_append holds_forest_None) (simp_all add: holds_forest_single)
    ultimately show ?thesis
      using False len u "1.prems"(5) by (subst place.simps, subst insert_loop.simps) (auto intro!: exI [of _ d])
  next
    case True
    then obtain ts0 x where ts: "ts = ts0 @ [x]" by (cases ts rule: rev_cases) auto
    with "1.prems"(1) obtain b0 m where b: "b = b0 @ [m]" "holds_forest b0 ts0" "rel_option (\<lambda>n t. node_of t = Inr n) m x"
      by (auto simp: holds_forest_def list_all2_append2 list_all2_Cons2)
    have d: "length ts0 = d" "length b0 = d" using True ts b len by simp_all
    show ?thesis
    proof (cases x)
      case None
      then have "m = None" using b(3) by simp
      then show ?thesis
        using None True u d ts b "1.prems"(2)
        by (subst place.simps, subst insert_loop.simps)
          (auto simp: holds_forest_def list_update_append intro!: exI [of _ d] list_all2_appendI)
    next
      case (Some s)
      then obtain child where m: "m = Some child" "node_of s = Inr child" using b(3) by (cases m) auto
      show ?thesis
      proof (cases "d = 0")
        case True
        then show ?thesis using Some ts b m d by (subst place.simps, subst insert_loop.simps) simp
      next
        case False
        then obtain k where k: "d = Suc k" by (cases d) auto
        have s: "Suc k + tree_height s \<le> 128" "forest_ok 0 ts0"
          using "1.prems"(3) ts Some d k by (simp_all add: forest_snoc)
        have "tree_height (Fork s t) \<le> 128" using s(1) "1.prems"(4) k by simp
        then obtain n' where n': "node_of (Fork s t) = Inr n'" using node_of_represents by blast
        then have c: "node_combine n child = Inr n'" using m(2) "1.prems"(2) by simp
        have "insert_loop b n (of_nat d) = insert_loop b0 n' (of_nat k)"
          using True u b m c d k by (subst insert_loop.simps) (simp add: unat_u8_of_nat word_unat_eq_iff)
        moreover have "place d t ts = place k (Fork s t) ts0" using True ts Some k by (subst place.simps) simp
        moreover have "k + tree_height (Fork s t) \<le> 128" using s(1) "1.prems"(4) k by simp
        ultimately show ?thesis
          using "1.IH" [of s b0 n'] True False ts Some k b(2) n' s(2) d
          by (auto split: option.splits) (blast intro: le_SucI)
      qed
    qed
  qed
qed

lemma add_call_place:
  assumes "holds_forest b ts" "forest_ok 0 ts"
  shows "case places ts [(depth, l)] of None \<Rightarrow> \<exists>e. add_call b (depth, l) = Inl e
    | Some ts' \<Rightarrow> \<exists>b'. add_call b (depth, l) = Inr b' \<and> holds_forest b' ts'"
proof -
  have len: "length b = length ts" using assms(1) by (auto simp: holds_forest_def dest: list_all2_lengthD)
  obtain n where n: "node_of (tip_of l) = Inr n" "add_call b (depth, l) = builder_insert b n depth"
    by (cases l) (simp_all add: add_call_def add_leaf_with_ver_def add_hidden_node_def)
  show ?thesis
  proof (cases "unat depth \<le> 128 \<and> length ts \<le> Suc (unat depth)")
    case True
    moreover have "tree_height (tip_of l) = 0" by (cases l) simp_all
    ultimately have loop: "case place (unat depth) (tip_of l) ts of
        None \<Rightarrow> insert_loop b n depth = Inl OverCompleteTree
      | Some ts' \<Rightarrow> \<exists>b' n' d'. insert_loop b n depth = Inr (b', n', of_nat d') \<and> d' \<le> unat depth \<and> length b' \<le> Suc d'
          \<and> holds_forest ((b' @ replicate (Suc d' - length b') None)[d' := Some n']) ts'"
      using insert_loop_place [OF assms(1) n(1) assms(2), of "unat depth"] by (simp cong: option.case_cong)
    show ?thesis
    proof (cases "place (unat depth) (tip_of l) ts")
      case None
      then show ?thesis using loop n(2) True len by (simp add: builder_insert_def TAPROOT_CONTROL_MAX_NODE_COUNT_def)
    next
      case (Some ts')
      then obtain b' n' d' where b': "insert_loop b n depth = Inr (b', n', of_nat d')" "d' \<le> unat depth" "length b' \<le> Suc d'"
        "holds_forest ((b' @ replicate (Suc d' - length b') None)[d' := Some n']) ts'" using loop by auto
      have "unat (of_nat d' :: u8) = d'" using b'(2) True by (simp add: unat_u8_of_nat)
      then have "builder_insert b n depth = Inr ((b' @ replicate (Suc d' - length b') None)[d' := Some n'])"
        using b' True len by (cases "length b' = Suc d'") (simp_all add: builder_insert_def TAPROOT_CONTROL_MAX_NODE_COUNT_def Let_def)
      then show ?thesis using Some True n(2) b'(4) by simp
    qed
  next
    case False
    then show ?thesis using n(2) len by (auto simp: builder_insert_def TAPROOT_CONTROL_MAX_NODE_COUNT_def)
  qed
qed

text \<open>What a placed tree adds to the calls, and that heights stay within the limit.\<close>

definition forest_inv :: "script_tree option list \<Rightarrow> bool" where
  "forest_inv ts \<longleftrightarrow> forest_ok 0 ts \<and> (ts \<noteq> [] \<longrightarrow> last ts \<noteq> None)"

lemma place_inv:
  assumes "place d t ts = Some ts'" "forest_ok 0 ts" "d + tree_height t \<le> 128" "length ts \<le> Suc d"
  shows "forest_inv ts' \<and> forest_calls 0 ts' = forest_calls 0 ts @ tree_calls d t"
  using assms
proof (induction d t ts arbitrary: ts' rule: place.induct)
  case (1 d t ts)
  show ?case
  proof (cases "length ts = Suc d")
    case False
    then have ts': "ts' = (ts @ replicate (d - length ts) None) @ [Some t]" "length ts \<le> d"
      using "1.prems" by (simp_all add: place.simps [of d t ts])
    with "1.prems" show ?thesis by (simp only: forest_inv_def forest_snoc forest_padded) simp
  next
    case True
    then obtain ts0 x where ts: "ts = ts0 @ [x]" by (cases ts rule: rev_cases) auto
    show ?thesis
    proof (cases x)
      case None
      then have "ts' = ts0 @ [Some t]" using True "1.prems"(1) ts by (simp add: place.simps [of d t "ts0 @ [None]"])
      with "1.prems" True ts None show ?thesis by (simp add: forest_inv_def forest_snoc)
    next
      case (Some s)
      then obtain k where k: "d = Suc k" "place k (Fork s t) ts0 = Some ts'"
        using True "1.prems"(1) ts
        by (cases d) (simp_all add: place.simps [of 0 t "[Some s]"] place.simps [of "Suc k" t "ts0 @ [Some s]" for k])
      then show ?thesis
        using "1.IH" [of s ts'] True ts Some "1.prems"(2,3) by (simp add: forest_snoc max_def split: if_splits)
    qed
  qed
qed

lemma places_inv:
  "\<lbrakk>places ts cs = Some ts'; forest_inv ts\<rbrakk> \<Longrightarrow> forest_inv ts' \<and> forest_calls 0 ts' = forest_calls 0 ts @ cs"
proof (induction ts cs rule: places.induct)
  case (2 ts depth l cs)
  then obtain us where us: "place (unat depth) (tip_of l) ts = Some us" "places us cs = Some ts'"
    and ok: "unat depth \<le> 128" "length ts \<le> Suc (unat depth)"
    by (auto simp: Option.bind_eq_Some_conv split: if_splits)
  have "tree_height (tip_of l) = 0" "tree_calls (unat depth) (tip_of l) = [(depth, l)]" by (cases l; simp)+
  then have "forest_inv us \<and> forest_calls 0 us = forest_calls 0 ts @ [(depth, l)]"
    using place_inv [OF us(1)] "2.prems"(2) ok by (simp add: forest_inv_def)
  with "2.IH" [OF _ us(1)] us(2) ok show ?case by simp
qed simp

lemma add_calls_places:
  "\<lbrakk>holds_forest b ts; forest_inv ts\<rbrakk> \<Longrightarrow>
   case places ts cs of None \<Rightarrow> \<exists>e. add_calls b cs = Inl e
   | Some ts' \<Rightarrow> \<exists>b'. add_calls b cs = Inr b' \<and> holds_forest b' ts'"
proof (induction cs arbitrary: b ts)
  case (Cons c cs)
  obtain depth l where c: "c = (depth, l)" by fastforce
  have ok: "forest_ok 0 ts" using Cons.prems(2) by (simp add: forest_inv_def)
  have step: "places ts ((depth, l) # cs) = Option.bind (places ts [(depth, l)]) (\<lambda>ts'. places ts' cs)"
    by (cases "place (unat depth) (tip_of l) ts") simp_all
  show ?case
  proof (cases "places ts [(depth, l)]")
    case None
    then show ?thesis using add_call_place [OF Cons.prems(1) ok, of depth l] step c by (auto simp del: places.simps)
  next
    case (Some us)
    then obtain b' where "add_call b (depth, l) = Inr b'" "holds_forest b' us"
      using add_call_place [OF Cons.prems(1) ok, of depth l] by (auto simp del: places.simps)
    with Cons.IH [of b' us] places_inv [OF Some Cons.prems(2)] Some step c show ?thesis
      by (simp del: places.simps cong: option.case_cong)
  qed
qed simp

text \<open>The calls of a tree place it; all but the last of them always succeed.\<close>

lemma places_append: "places ts (cs @ ds) = Option.bind (places ts cs) (\<lambda>ts'. places ts' ds)"
  by (induction ts cs rule: places.induct) (simp_all add: Option.bind_assoc split: Option.bind_split)

lemma place_fork:
  assumes "length ts \<le> Suc d"
  shows "\<exists>us. place (Suc d) l ts = Some us \<and> length us = Suc (Suc d) \<and> place (Suc d) r us = place d (Fork l r) ts"
proof (intro exI conjI)
  let ?us = "(ts @ replicate (Suc d - length ts) None) @ [Some l]"
  show "place (Suc d) l ts = Some ?us" using assms by (subst place.simps) simp
  show len: "length ?us = Suc (Suc d)" using assms by simp
  have "place (Suc d) r ?us = place d (Fork l r) (ts @ replicate (Suc d - length ts) None)"
    using len by (subst place.simps) (simp del: append_assoc)
  also have "\<dots> = place d (Fork l r) ts"
  proof (cases "length ts = Suc d")
    case False
    then have "Suc d - length ts = Suc (d - length ts)" using assms by simp
    then have "ts @ replicate (Suc d - length ts) None = (ts @ replicate (d - length ts) None) @ [None]"
      by (simp add: replicate_append_same [symmetric])
    then show ?thesis using False assms by (simp add: place.simps [of d "Fork l r"] butlast_append)
  qed simp
  finally show "place (Suc d) r ?us = place d (Fork l r) ts" .
qed

lemma places_tree:
  "\<lbrakk>d + tree_height t \<le> 128; length ts \<le> Suc d\<rbrakk> \<Longrightarrow> places ts (tree_calls d t) = place d t ts"
proof (induction t arbitrary: d ts)
  case (Fork l r)
  obtain us where us: "place (Suc d) l ts = Some us" "length us = Suc (Suc d)" "place (Suc d) r us = place d (Fork l r) ts"
    using place_fork [OF Fork.prems(2)] by blast
  then show ?case using Fork by (simp add: places_append)
qed (simp_all add: unat_u8_of_nat)

lemma places_proper_prefix:
  "\<lbrakk>d + tree_height t \<le> 128; length ts \<le> Suc d; tree_calls d t = cs @ later; later \<noteq> []\<rbrakk> \<Longrightarrow> places ts cs \<noteq> None"
proof (induction t arbitrary: d ts cs later)
  case (Fork l r)
  obtain us where us: "place (Suc d) l ts = Some us" "length us = Suc (Suc d)" using place_fork [OF Fork.prems(2)] by blast
  from Fork.prems(3) consider zs where "cs = tree_calls (Suc d) l @ zs" "tree_calls (Suc d) r = zs @ later"
    | zs where "tree_calls (Suc d) l = cs @ zs" "zs \<noteq> []"
    by (cases "length cs < length (tree_calls (Suc d) l)") (auto simp: append_eq_append_conv2)
  then show ?case
  proof cases
    case 1
    have "places ts (tree_calls (Suc d) l) = Some us" using us(1) Fork.prems(1,2) by (simp add: places_tree)
    then show ?thesis using Fork.IH(2) [of "Suc d" us zs later] 1 us(2) Fork.prems(1,4) by (simp add: places_append)
  next
    case 2
    then show ?thesis using Fork.IH(1) [of "Suc d" ts cs zs] Fork.prems(1,2) by simp
  qed
qed (auto simp: Cons_eq_append_conv)

text \<open>A forest whose level zero is free can be completed.\<close>

lemma place_shrinks:
  "\<lbrakk>length ts = Suc d; hd ts = None\<rbrakk> \<Longrightarrow> \<exists>ts'. place d t ts = Some ts' \<and> ts' \<noteq> [] \<and> length ts' \<le> Suc d \<and> (length ts' > 1 \<longrightarrow> hd ts' = None)"
proof (induction d arbitrary: t ts)
  case 0
  then have "ts = [None]" by (cases ts) simp_all
  then show ?case by (simp add: place.simps [of 0 t "[None]"])
next
  case (Suc d)
  then obtain ts0 x where ts: "ts = ts0 @ [x]" "length ts0 = Suc d" by (cases ts rule: rev_cases) auto
  then have hd0: "hd ts0 = None" using Suc.prems(2) by (cases ts0) auto
  show ?case
  proof (cases x)
    case None
    then show ?thesis using ts hd0 by (subst place.simps) (auto simp: hd_append)
  next
    case (Some s)
    then have "place (Suc d) t ts = place d (Fork s t) ts0" using ts by (subst place.simps) simp
    then show ?thesis using Suc.IH [OF ts(2) hd0, of "Fork s t"] by auto
  qed
qed

lemma forest_ok_length: "\<lbrakk>forest_ok d ts; ts \<noteq> []; last ts \<noteq> None\<rbrakk> \<Longrightarrow> d + length ts \<le> 129"
  by (cases ts rule: rev_cases) (auto simp: forest_snoc)

lemma completion:
  "\<lbrakk>forest_inv ts; ts \<noteq> []; length ts > 1 \<longrightarrow> hd ts = None\<rbrakk> \<Longrightarrow>
   \<exists>t later. places ts later = Some [Some t] \<and> (length ts > 1 \<longrightarrow> later \<noteq> [])"
proof (induction "length ts" arbitrary: ts rule: less_induct)
  case less
  show ?case
  proof (cases "length ts = 1")
    case True
    then have "places ts [] = Some [Some (the (hd ts))]" using less.prems(1) by (cases ts) (auto simp: forest_inv_def)
    then show ?thesis using True by (metis less_irrefl)
  next
    case False
    then have len: "length ts > 1" using less.prems(2) by (cases ts rule: rev_cases) (auto simp: neq_Nil_conv)
    then obtain ts0 s k where ts: "ts = ts0 @ [Some s]" "length ts0 = Suc k" "hd ts0 = None"
      using less.prems by (cases ts rule: rev_cases; cases "length (butlast ts)") (auto simp: forest_inv_def hd_append split: if_splits)
    let ?c = "(of_nat (Suc k), TapLeafHidden [])" and ?t = "Fork s (Hidden [])"
    have d: "Suc k \<le> 128" using forest_ok_length [of 0 ts] less.prems(1) ts by (simp add: forest_inv_def)
    then have u: "unat (of_nat (Suc k) :: u8) = Suc k" by (simp add: unat_u8_of_nat del: of_nat_Suc)
    obtain ts' where ts': "place k ?t ts0 = Some ts'" "ts' \<noteq> []" "length ts' \<le> Suc k" "length ts' > 1 \<longrightarrow> hd ts' = None"
      using place_shrinks [OF ts(2,3), of ?t] by blast
    have step: "places ts [?c] = Some ts'"
      using u ts d ts'(1) by (simp add: place.simps [of "Suc k" "Hidden []"] del: of_nat_Suc)
    have "forest_inv ts'" using places_inv [OF step less.prems(1)] by simp
    then obtain t later where "places ts' later = Some [Some t]"
      using less.hyps [of ts'] ts' ts by auto
    then have "places ts (?c # later) = Some [Some t]"
      using step places_append [of ts "[?c]" later] by (simp del: places.simps)
    then show ?thesis by blast
  qed
qed

lemma completed_calls:
  assumes "forest_inv ts" "ts \<noteq> []" "length ts > 1 \<longrightarrow> hd ts = None"
  shows "\<exists>t later. tree_height t \<le> 128 \<and> tree_calls 0 t = forest_calls 0 ts @ later \<and> (length ts > 1 \<longrightarrow> later \<noteq> [])"
proof -
  obtain t later where "places ts later = Some [Some t]" "length ts > 1 \<longrightarrow> later \<noteq> []"
    using completion [OF assms] by blast
  with places_inv [of ts later "[Some t]"] assms(1) show ?thesis by (auto simp: forest_inv_def)
qed

lemma tree_calls_nonempty [simp]: "tree_calls d t \<noteq> []"
  by (induction t arbitrary: d) simp_all

lemma holds_forest_length: "holds_forest b ts \<Longrightarrow> length b = length ts"
  by (auto simp: holds_forest_def dest: list_all2_lengthD)

lemma forest_inv_Nil: "forest_inv []" and holds_forest_Nil: "holds_forest [] []"
  by (simp_all add: forest_inv_def holds_forest_def)

lemma add_calls_new_iff: "(\<exists>b. add_calls tap_builder_new calls = Inr b) \<longleftrightarrow> places [] calls \<noteq> None"
  using add_calls_places [OF holds_forest_Nil forest_inv_Nil, of calls]
  by (cases "places [] calls") (auto simp: tap_builder_new_def)

lemma builder_of_tree:
  assumes "tree_height t \<le> 128"
  shows "\<exists>n. add_calls tap_builder_new (tree_calls 0 t) = Inr [Some n] \<and> node_of t = Inr n \<and> represents n t"
proof -
  obtain n where n: "node_of t = Inr n" "represents n t" using node_of_represents [OF assms] by blast
  have "places [] (tree_calls 0 t) = Some [Some t]" using assms by (simp add: places_tree place.simps [of 0 t "[]"])
  then obtain b where "add_calls tap_builder_new (tree_calls 0 t) = Inr b" "holds_forest b [Some t]"
    using add_calls_places [OF holds_forest_Nil forest_inv_Nil, of "tree_calls 0 t"] by (auto simp: tap_builder_new_def)
  moreover from this n have "b = [Some n]" by (auto simp: holds_forest_def list_all2_Cons2 option_rel_Some2)
  ultimately show ?thesis using n by blast
qed

lemma finalizable_tree:
  assumes "add_calls tap_builder_new calls = Inr b" "length b = 1"
  shows "\<exists>t. tree_height t \<le> 128 \<and> calls = tree_calls 0 t"
proof -
  obtain ts where ts: "places [] calls = Some ts" "holds_forest b ts"
    using assms(1) add_calls_places [OF holds_forest_Nil forest_inv_Nil, of calls]
    by (cases "places [] calls") (auto simp: tap_builder_new_def)
  then have inv: "forest_inv ts" "forest_calls 0 ts = calls" using places_inv [OF ts(1) forest_inv_Nil] by simp_all
  have "length ts = 1" using ts(2) assms(2) holds_forest_length by metis
  with inv obtain t where "ts = [Some t]" by (cases ts) (auto simp: forest_inv_def)
  with inv show ?thesis by (auto simp: forest_inv_def)
qed

lemma extra_calls:
  assumes "places [] calls = Some ts" "length ts > 1" "hd ts \<noteq> None"
  shows "\<exists>t u extra later. tree_height t \<le> 128 \<and> tree_height u \<le> 128 \<and> calls = tree_calls 0 t @ extra
    \<and> tree_calls 0 u = extra @ later \<and> extra \<noteq> [] \<and> later \<noteq> []"
proof -
  have inv: "forest_inv ts" "forest_calls 0 ts = calls" using places_inv [OF assms(1) forest_inv_Nil] by simp_all
  obtain t us where ts: "ts = Some t # us" "us \<noteq> []" using assms(2,3) by (cases ts) auto
  have "forest_inv (None # us)" using inv(1) ts by (simp add: forest_inv_def)
  then obtain u later where u: "tree_height u \<le> 128" "tree_calls 0 u = forest_calls 1 us @ later" "later \<noteq> []"
    using completed_calls [of "None # us"] ts(2) by auto
  moreover obtain vs v where "us = vs @ [Some v]" using inv(1) ts by (cases us rule: rev_cases) (auto simp: forest_inv_def)
  then have "forest_calls 1 us \<noteq> []" by (simp add: forest_snoc)
  moreover have "tree_height t \<le> 128" using inv(1) ts(1) by (simp add: forest_inv_def)
  moreover have "calls = tree_calls 0 t @ forest_calls 1 us" using inv(2) ts(1) by simp
  ultimately show ?thesis by blast
qed

lemma walk_accepted:
  assumes "tree_height t \<le> 128" "tree_calls 0 t = calls @ later"
  shows "places [] calls \<noteq> None"
proof (cases "later = []")
  case True
  then have "calls = tree_calls 0 t" using assms(2) by simp
  with assms(1) show ?thesis by (simp add: places_tree place.simps [of 0 t "[]"])
next
  case False
  then show ?thesis using places_proper_prefix [of 0 t "[]" calls later] assms by simp
qed

lemma walk_and_more_accepted:
  assumes "tree_height t \<le> 128" "tree_height u \<le> 128" "tree_calls 0 u = extra @ later" "later \<noteq> []"
  shows "places [] (tree_calls 0 t @ extra) \<noteq> None"
proof -
  have "places [] (tree_calls 0 t) = Some [Some t]" using assms(1) by (simp add: places_tree place.simps [of 0 t "[]"])
  moreover have "places [Some t] extra \<noteq> None" using places_proper_prefix [of 0 u "[Some t]" extra later] assms by simp
  ultimately show ?thesis by (simp add: places_append)
qed

lemma accepted_walk:
  assumes "places [] calls = Some ts" "\<not> (length ts > 1 \<and> hd ts \<noteq> None)"
  shows "\<exists>t later. tree_height t \<le> 128 \<and> tree_calls 0 t = calls @ later"
proof -
  have inv: "forest_inv ts" "forest_calls 0 ts = calls" using places_inv [OF assms(1) forest_inv_Nil] by simp_all
  show ?thesis
  proof (cases "ts = []")
    case True
    then have "tree_calls 0 (Hidden []) = calls @ tree_calls 0 (Hidden [])" using inv(2) by simp
    moreover have "tree_height (Hidden []) \<le> 128" by simp
    ultimately show ?thesis by blast
  next
    case False
    then show ?thesis using completed_calls [OF inv(1) False] assms(2) inv(2) by metis
  qed
qed


section \<open>Branches lead to the root\<close>

abbreviation climb :: "taproot_merkle_branch \<Rightarrow> tap_node_hash \<Rightarrow> tap_node_hash" where
  "climb p h \<equiv> fold (\<lambda>elem curr_hash. from_node_hashes curr_hash elem) p h"

lemma tree_leaf_climbs: "((script, ver), p) \<in> set (tree_leaves t) \<Longrightarrow> climb p (tap_leaf_hash script ver) = tree_hash t"
proof (induction t arbitrary: p)
  case (Fork l r)
  then show ?case using from_node_hashes_commute [of "tree_hash r" "tree_hash l"] by (auto simp: partner_def)
qed auto

definition branches :: "script_merkle_proof_map \<Rightarrow> bytes \<times> leaf_version \<Rightarrow> taproot_merkle_branch set" where
  "branches m k = (case m k of None \<Rightarrow> {} | Some ps \<Rightarrow> set ps)"

lemma map_leaf_branches:
  "branches (map_leaf l m) (s, v) = branches m (s, v) \<union> {p. leaf_pair l = (TapLeafScript s v, p)}"
  by (cases "leaf l"; cases "m (s, v)") (auto simp: map_leaf_def branches_def leaf_pair_def set_insort_insert split: option.splits)

lemma map_leaf_nonempty: "\<forall>k. m k \<noteq> Some [] \<Longrightarrow> \<forall>k. map_leaf l m k \<noteq> Some []"
  by (cases "leaf l") (auto simp: map_leaf_def set_insort_insert simp flip: set_empty split: option.splits)

lemma fold_map_leaf:
  "\<forall>k. m k \<noteq> Some [] \<Longrightarrow>
   (\<forall>k. fold map_leaf ls m k \<noteq> Some []) \<and>
   branches (fold map_leaf ls m) (s, v) = branches m (s, v) \<union> {p. (TapLeafScript s v, p) \<in> leaf_pair ` set ls}"
proof (induction ls arbitrary: m)
  case (Cons l ls)
  have "(\<forall>k. fold map_leaf ls (map_leaf l m) k \<noteq> Some []) \<and>
   branches (fold map_leaf ls (map_leaf l m)) (s, v)
     = branches (map_leaf l m) (s, v) \<union> {p. (TapLeafScript s v, p) \<in> leaf_pair ` set ls}"
    by (rule Cons.IH [OF map_leaf_nonempty [OF Cons.prems]])
  then show ?case by (auto simp: map_leaf_branches eq_commute)
qed simp

lemma represents_leaf_pairs:
  "represents n t \<Longrightarrow> (TapLeafScript s v, p) \<in> leaf_pair ` set (node_leaves n) \<longleftrightarrow> ((s, v), p) \<in> set (tree_leaves t)"
proof -
  assume "represents n t"
  then have "leaf_pair ` set (node_leaves n) = known_leaf ` set (tree_leaves t)"
    by (metis represents_def set_image_mset set_mset_mset)
  then show ?thesis by (auto simp: known_leaf_def image_iff) (force split: prod.splits)+
qed

lemma min_by_len_min:
  "xs \<noteq> [] \<Longrightarrow> \<exists>m. min_by_len xs = Some m \<and> m \<in> set xs \<and> (\<forall>y \<in> set xs. length m \<le> length y)"
proof -
  have "fold (\<lambda>y m. if length m \<le> length y then m else y) ys x \<in> set (x # ys)
      \<and> (\<forall>y \<in> set (x # ys). length (fold (\<lambda>y m. if length m \<le> length y then m else y) ys x) \<le> length y)" for ys and x :: "'a list"
    by (induction ys arbitrary: x) (simp, fastforce)
  moreover assume "xs \<noteq> []"
  then obtain x ys where "xs = x # ys" by (cases xs) auto
  ultimately show ?thesis by simp
qed

lemma spend_info_of_node:
  assumes "from_node_info X key n = Some info" "represents n t"
  shows "tap_root info = Some (tree_hash t) \<and> internal_key info = key
    \<and> tap_tweak X key (Some (tree_hash t)) = Some (output_key info, output_key_parity info)
    \<and> (\<forall>k. script_map info k \<noteq> Some []) \<and> branches (script_map info) (s, v) = {p. ((s, v), p) \<in> set (tree_leaves t)}"
proof -
  obtain out par where tw: "tap_tweak X key (Some (tree_hash t)) = Some (out, par)"
    and info: "info = \<lparr> internal_key = key, tap_root = Some (tree_hash t), output_key_parity = par, output_key = out,
        script_map = fold map_leaf (node_leaves n) Map.empty \<rparr>"
    using assms by (auto simp: from_node_info_def new_key_spend_def represents_def)
  have "(\<forall>k. script_map info k \<noteq> Some []) \<and> branches (script_map info) (s, v) = {p. ((s, v), p) \<in> set (tree_leaves t)}"
    using fold_map_leaf [of Map.empty "node_leaves n" s v] represents_leaf_pairs [OF assms(2)] info
    by (simp add: branches_def)
  then show ?thesis using tw info by simp
qed

lemma control_block_none: "branches (script_map info) k = {} \<Longrightarrow> \<forall>k. script_map info k \<noteq> Some [] \<Longrightarrow> control_block info k = Some None"
  by (cases k; cases "script_map info k") (auto simp: branches_def control_block_def)

lemma control_block_shortest:
  assumes "branches (script_map info) k \<noteq> {}"
  shows "\<exists>cb. control_block info k = Some (Some cb) \<and> cb_branch cb \<in> branches (script_map info) k
    \<and> (\<forall>q \<in> branches (script_map info) k. length (cb_branch cb) \<le> length q)
    \<and> cb_leaf_version cb = snd k \<and> cb_internal_key cb = internal_key info \<and> cb_parity cb = output_key_parity info"
proof (cases "script_map info k")
  case (Some ps)
  then have "ps \<noteq> []" using assms by (auto simp: branches_def)
  with min_by_len_min [OF this] Some show ?thesis by (auto simp: branches_def control_block_def)
qed (use assms in \<open>simp add: branches_def\<close>)

section \<open>What is documented of keys and scalars\<close>

definition xonly_laws :: "('k, 's) xonly_ops \<Rightarrow> bool" where
  "xonly_laws X \<longleftrightarrow>
     (\<forall>k. length (xonly_serialize X k) = 32 \<and> xonly_from_slice X (xonly_serialize X k) = Some k)
     \<and> (\<forall>b k. xonly_from_slice X b = Some k \<longrightarrow> b = xonly_serialize X k)
     \<and> (\<forall>k t q p. add_tweak X k t = Some (q, p) \<longrightarrow> tweak_add_check X k q p t)"

text \<open>A scalar determines its 32 bytes, and a key and its tweaked key determine the scalar.\<close>

definition tweak_laws :: "('k, 's) xonly_ops \<Rightarrow> bool" where
  "tweak_laws X \<longleftrightarrow>
     (\<forall>a b s. length a = 32 \<and> length b = 32 \<and> scalar_from_be_bytes X a = Some s \<and> scalar_from_be_bytes X b = Some s \<longrightarrow> a = b)
     \<and> (\<forall>k q p s t. tweak_add_check X k q p s \<and> tweak_add_check X k q p t \<longrightarrow> s = t)"

text \<open>A group in which the laws hold: numbers modulo \<open>2 ^ 256\<close>.\<close>

definition word_keys :: "(256 word, 256 word) xonly_ops" where
  "word_keys = \<lparr> xonly_from_slice = (\<lambda>b. if length b = 32 then Some (from_be_bytes b) else None),
     xonly_serialize = to_be_bytes, scalar_from_be_bytes = (\<lambda>b. Some (from_be_bytes b)),
     add_tweak = (\<lambda>k t. Some (k + t, ParityEven)), tweak_add_check = (\<lambda>k q p t. q = k + t \<and> p = ParityEven) \<rparr>"

lemma from_be_bytes_256: "length b = 32 \<Longrightarrow> to_be_bytes (from_be_bytes b :: 256 word) = b"
  by (simp add: to_be_bytes_def from_be_bytes_def to_from_le_bytes)

lemma word_keys_laws: "xonly_laws word_keys" and word_keys_tweak_laws: "tweak_laws word_keys"
proof -
  show "xonly_laws word_keys"
    by (auto simp: xonly_laws_def word_keys_def length_to_be_bytes length_to_le_bytes from_be_bytes_256 from_be_bytes_def to_be_bytes_def
        from_to_le_bytes to_from_le_bytes split: if_splits)
  show "tweak_laws word_keys"
    using from_be_bytes_256 by (auto simp: tweak_laws_def word_keys_def) metis
qed

section \<open>Control blocks and their bytes\<close>

definition control_block_wf :: "'k ControlBlock \<Rightarrow> bool" where
  "control_block_wf cb \<longleftrightarrow>
     leaf_version_from_consensus (leaf_version_to_consensus (cb_leaf_version cb)) = Inr (cb_leaf_version cb)
     \<and> length (cb_branch cb) \<le> 128 \<and> list_all (\<lambda>h. length h = 32) (cb_branch cb)"

lemma branch_encode_concat: "branch_encode p = (concat p, length p * 32)"
proof -
  have "fold (\<lambda>h w. w @ h) p w = w @ concat p" for w :: bytes by (induction p arbitrary: w) simp_all
  then show ?thesis by (simp add: branch_encode_def)
qed

lemma concat_chunks_exact: "length b = 32 * k \<Longrightarrow>
   concat (chunks_exact 32 b) = b \<and> length (chunks_exact 32 b) = k \<and> list_all (\<lambda>h. length h = 32) (chunks_exact 32 b)"
proof (induction k arbitrary: b)
  case (Suc k)
  then have "length (drop 32 b) = 32 * k" by simp
  with Suc show ?case by (subst (1 2 3) chunks_exact.simps) simp
qed (simp add: chunks_exact.simps)

lemma length_concat_32: "list_all (\<lambda>h. length h = 32) p \<Longrightarrow> length (concat p) = 32 * length p"
  by (induction p) simp_all

lemma branch_decode_iff:
  "branch_decode b = Inr p \<longleftrightarrow> b = concat p \<and> length p \<le> 128 \<and> list_all (\<lambda>h. length h = 32) p"
proof
  assume d: "branch_decode b = Inr p"
  then obtain k where "length b = 32 * k" "k \<le> 128" "p = chunks_exact 32 b"
    by (auto simp: branch_decode_def TAPROOT_CONTROL_NODE_SIZE_def TAPROOT_CONTROL_MAX_NODE_COUNT_def mod_eq_0_iff_dvd
        elim!: dvdE split: if_splits)
  with concat_chunks_exact [of b k] show "b = concat p \<and> length p \<le> 128 \<and> list_all (\<lambda>h. length h = 32) p" by simp
qed (auto simp: branch_decode_def TAPROOT_CONTROL_NODE_SIZE_def TAPROOT_CONTROL_MAX_NODE_COUNT_def length_concat_32 list_all_iff chunks_exact_concat)

lemma mask_version: "(0xFE :: u8) = NOT 1"
  by simp

lemma parity_version_byte:
  fixes p v :: u8
  assumes "v AND 0xFE = v" "p = 0 \<or> p = 1"
  shows "(p OR v) AND 0xFE = v" "(p OR v) AND 1 = p"
proof -
  have v: "v AND NOT 1 = v" using assms(1) by (simp only: mask_version)
  then have "v AND 1 = (v AND NOT 1) AND 1" by simp
  then have "v AND 1 = 0" by (simp add: and.assoc)
  with v assms(2) show "(p OR v) AND 0xFE = v" "(p OR v) AND 1 = p"
    unfolding mask_version by (auto simp: bit.conj_disj_distrib2)
qed

lemma split_version_byte: "(x AND 1) OR (x AND 0xFE) = (x :: u8)"
  unfolding mask_version by (metis and.right_neutral bit.conj_disj_distrib bit.disj_cancel_right)

lemma and_one_cases: "x AND 1 = 0 \<or> x AND 1 = (1 :: u8)"
  by (simp add: and_one_eq) (metis odd_iff_mod_2_eq_one parity_cases)

lemma version_even: "leaf_version_from_consensus (leaf_version_to_consensus v) = Inr v \<Longrightarrow> leaf_version_to_consensus v AND 0xFE = leaf_version_to_consensus v"
  by (cases v) (auto simp: leaf_version_from_consensus_def split: if_splits)

definition parity_byte :: "parity \<Rightarrow> u8" where
  "parity_byte p = (case p of ParityEven \<Rightarrow> 0 | ParityOdd \<Rightarrow> 1)"

lemma serialize_eq: "control_block_serialize X cb =
   (parity_byte (cb_parity cb) OR leaf_version_to_consensus (cb_leaf_version cb)) # xonly_serialize X (cb_internal_key cb) @ concat (cb_branch cb)"
  by (simp add: control_block_serialize_def control_block_encode_def branch_encode_concat parity_byte_def)

lemma map_err_Inr_iff: "map_err g m = Inr x \<longleftrightarrow> m = Inr x"
  by (cases m) simp_all

lemma control_block_decode_iff:
  assumes "xonly_laws X"
  shows "control_block_decode X b = Inr cb \<longleftrightarrow> control_block_wf cb \<and> b = control_block_serialize X cb"
proof
  let ?v = "leaf_version_to_consensus (cb_leaf_version cb)"
  assume d: "control_block_decode X b = Inr cb"
  then have len: "33 \<le> length b"
    by (auto simp: control_block_decode_def TAPROOT_CONTROL_BASE_SIZE_def split: if_splits)
  obtain x key where b: "b = x # key @ drop 33 b" "length key = 32" "take 32 (drop 1 b) = key" "b ! 0 = x"
  proof
    show "b = b ! 0 # take 32 (drop 1 b) @ drop 33 b"
      using len append_take_drop_id [of 32 "drop 1 b"] by (cases b) (simp_all add: drop_drop [symmetric] del: append_take_drop_id)
  qed (use len in simp_all)
  from d have parts: "leaf_version_from_consensus (x AND 0xFE) = Inr (cb_leaf_version cb)"
    "xonly_from_slice X key = Some (cb_internal_key cb)" "branch_decode (drop 33 b) = Inr (cb_branch cb)"
    "cb_parity cb = (if x AND 1 = 0 then ParityEven else ParityOdd)"
    using b by (auto simp: control_block_decode_def TAPROOT_CONTROL_BASE_SIZE_def TAPROOT_LEAF_MASK_def and_then_Inr_iff
        map_err_Inr_iff Let_def split: if_splits option.splits)
  have v: "x AND 0xFE = ?v" using parts(1) by (simp add: leaf_version_roundtrip)
  moreover have "parity_byte (cb_parity cb) = x AND 1" using parts(4) and_one_cases [of x] by (auto simp: parity_byte_def)
  ultimately have "parity_byte (cb_parity cb) OR ?v = x" using split_version_byte by metis
  moreover have "key = xonly_serialize X (cb_internal_key cb)" using parts(2) assms by (simp add: xonly_laws_def)
  ultimately have "b = control_block_serialize X cb" using b(1) parts(3) by (metis serialize_eq branch_decode_iff)
  then show "control_block_wf cb \<and> b = control_block_serialize X cb"
    using parts(1,3) v by (simp add: control_block_wf_def branch_decode_iff)
next
  let ?v = "leaf_version_to_consensus (cb_leaf_version cb)" and ?p = "parity_byte (cb_parity cb)"
  assume w: "control_block_wf cb \<and> b = control_block_serialize X cb"
  have byte: "(?p OR ?v) AND 0xFE = ?v" "(?p OR ?v) AND 1 = ?p"
    using w version_even [of "cb_leaf_version cb"] parity_version_byte [of ?v ?p]
    by (auto simp: control_block_wf_def parity_byte_def split: parity.splits)
  have key: "length (xonly_serialize X (cb_internal_key cb)) = 32"
    "xonly_from_slice X (xonly_serialize X (cb_internal_key cb)) = Some (cb_internal_key cb)"
    using assms by (simp_all add: xonly_laws_def)
  have p: "(if ?p = 0 then ParityEven else ParityOdd) = cb_parity cb" by (simp add: parity_byte_def split: parity.splits)
  have "branch_decode (concat (cb_branch cb)) = Inr (cb_branch cb)" using w by (simp add: branch_decode_iff control_block_wf_def)
  then show "control_block_decode X b = Inr cb"
    using w byte key p length_concat_32 [of "cb_branch cb"]
    by (simp add: control_block_wf_def control_block_decode_def serialize_eq TAPROOT_CONTROL_BASE_SIZE_def TAPROOT_LEAF_MASK_def
        TAPROOT_CONTROL_NODE_SIZE_def)
qed

lemma control_block_length:
  assumes "xonly_laws X" "control_block_wf cb"
  shows "length (control_block_serialize X cb) = control_block_size cb \<and> control_block_size cb \<le> TAPROOT_CONTROL_MAX_SIZE
    \<and> control_block_encode X cb = (control_block_serialize X cb, length (control_block_serialize X cb))"
  using assms length_concat_32 [of "cb_branch cb"]
  by (auto simp: serialize_eq control_block_size_def xonly_laws_def control_block_wf_def TAPROOT_CONTROL_MAX_SIZE_def
      TAPROOT_CONTROL_BASE_SIZE_def TAPROOT_CONTROL_NODE_SIZE_def TAPROOT_CONTROL_MAX_NODE_COUNT_def
      control_block_encode_def branch_encode_concat parity_byte_def)

section \<open>A branch that leads to the root of a tree is one of the tree\<close>

text \<open>What SHA-256 is applied to for a tagged hash, for a tree, and on the way up a branch.\<close>

definition tagged_message :: "string \<Rightarrow> bytes \<Rightarrow> bytes" where
  "tagged_message tag b = sha256_hash (map of_char tag) @ sha256_hash (map of_char tag) @ b"

definition leaf_message :: "bytes \<Rightarrow> leaf_version \<Rightarrow> bytes" where
  "leaf_message script ver = tagged_message ''TapLeaf'' (leaf_version_to_consensus ver # bytes_ser script)"

definition branch_message :: "tap_node_hash \<Rightarrow> tap_node_hash \<Rightarrow> bytes" where
  "branch_message a b = tagged_message ''TapBranch'' (min a b @ max a b)"

primrec tree_messages :: "script_tree \<Rightarrow> bytes set" where
  "tree_messages (Tip script ver) = {leaf_message script ver}"
| "tree_messages (Hidden h) = {}"
| "tree_messages (Fork l r) = insert (branch_message (tree_hash l) (tree_hash r)) (tree_messages l \<union> tree_messages r)"

primrec climb_trace :: "taproot_merkle_branch \<Rightarrow> tap_node_hash \<Rightarrow> bytes set" where
  "climb_trace [] h = {}"
| "climb_trace (e # p) h = insert (branch_message h e) (climb_trace p (from_node_hashes h e))"

definition climb_messages :: "taproot_merkle_branch \<Rightarrow> bytes \<Rightarrow> leaf_version \<Rightarrow> bytes set" where
  "climb_messages p script ver = insert (leaf_message script ver) (climb_trace p (tap_leaf_hash script ver))"

definition tag_names :: "bytes set" where
  "tag_names = {map of_char ''TapLeaf'', map of_char ''TapBranch''}"

lemma tagged_hash_message: "tagged_hash tag b = sha256_hash (tagged_message tag b)"
  by (simp add: tagged_hash_def tagged_message_def Let_def)

lemma tap_hash_messages:
  "tap_leaf_hash script ver = sha256_hash (leaf_message script ver)"
  "from_node_hashes a b = sha256_hash (branch_message a b)"
  by (simp_all add: tap_leaf_hash_eq from_node_hashes_eq leaf_message_def branch_message_def tagged_hash_message)

lemma length_tap_hashes [simp]: "length (tap_leaf_hash script ver) = 32" "length (from_node_hashes a b) = 32"
  by (simp_all add: tap_hash_messages length_sha256_hash)

lemma tags_differ:
  "(\<exists>x \<in> tag_names. \<exists>y \<in> tag_names. sha256_collision x y) \<or> leaf_message script ver \<noteq> branch_message a b"
proof (cases "sha256_hash (map of_char ''TapLeaf'') = sha256_hash (map of_char ''TapBranch'')")
  case True
  then have "sha256_collision (map of_char ''TapLeaf'') (map of_char ''TapBranch'')" by (simp add: sha256_collision_def)
  then show ?thesis by (auto simp: tag_names_def)
next
  case False
  then show ?thesis by (auto simp: leaf_message_def branch_message_def tagged_message_def length_sha256_hash)
qed

lemma bytes_ser_inject:
  assumes "bytes_ser a = bytes_ser b"
  shows "a = b"
proof -
  have "varint_decode (bytes_ser c) = Inr (of_nat (length c), c)" for c by (simp only: bytes_ser_def varint_decode_ser)
  with assms show ?thesis by (metis Inr_inject prod.inject)
qed

lemma leaf_message_inject:
  assumes "leaf_message s v = leaf_message s' v'"
    and "leaf_version_from_consensus (leaf_version_to_consensus v) = Inr v"
    and "leaf_version_from_consensus (leaf_version_to_consensus v') = Inr v'"
  shows "s = s' \<and> v = v'"
proof -
  have "leaf_version_to_consensus v = leaf_version_to_consensus v'" "bytes_ser s = bytes_ser s'"
    using assms(1) by (simp_all add: leaf_message_def tagged_message_def)
  then show ?thesis using assms(2,3) bytes_ser_inject [of s s'] by (metis Inr_inject)
qed

lemma branch_message_inject:
  assumes "branch_message a b = branch_message c d" "length a = 32" "length b = 32" "length c = 32" "length d = 32"
  shows "a = c \<and> b = d \<or> a = d \<and> b = c"
proof -
  have l: "length (min a b) = 32" "length (min c d) = 32" using assms(2-5) by (simp_all add: min_def)
  have "min a b @ max a b = min c d @ max c d" using assms(1) by (simp add: branch_message_def tagged_message_def)
  then have "min a b = min c d" "max a b = max c d" using l by (simp_all add: append_eq_append_conv)
  then show ?thesis by (auto simp: min_def max_def split: if_splits)
qed

text \<open>A hash that two messages have: they are the same, or collide.\<close>

abbreviation collide :: "bytes set \<Rightarrow> bytes set \<Rightarrow> bool" where
  "collide A B \<equiv> \<exists>x \<in> A. \<exists>y \<in> B. sha256_collision x y"

lemma climb_trace_snoc: "climb_trace (p @ [e]) h = insert (branch_message (climb p h) e) (climb_trace p h)"
  by (induction p arbitrary: h) (simp_all add: insert_commute)

lemma climb_messages_snoc:
  "climb_messages (p @ [e]) s v = insert (branch_message (climb p (tap_leaf_hash s v)) e) (climb_messages p s v)"
  by (simp add: climb_messages_def climb_trace_snoc insert_commute)

abbreviation version_ok :: "leaf_version \<Rightarrow> bool" where
  "version_ok v \<equiv> leaf_version_from_consensus (leaf_version_to_consensus v) = Inr v"

primrec versions_ok :: "script_tree \<Rightarrow> bool" where
  "versions_ok (Tip s v) = version_ok v"
| "versions_ok (Hidden h) = True"
| "versions_ok (Fork l r) = (versions_ok l \<and> versions_ok r)"

lemma climb_to_root:
  assumes "climb p (tap_leaf_hash s v) = tree_hash t" "\<not> tree_hidden t" "versions_ok t"
    and "version_ok v" "list_all (\<lambda>h. length h = 32) p"
  shows "((s, v), p) \<in> set (tree_leaves t) \<or> collide (climb_messages p s v) (tree_messages t) \<or> collide tag_names tag_names"
  using assms
proof (induction t arbitrary: p)
  case (Tip s' v')
  show ?case
  proof (cases p rule: rev_cases)
    case Nil
    then have "sha256_hash (leaf_message s v) = sha256_hash (leaf_message s' v')" using Tip.prems(1) by (simp add: tap_hash_messages)
    from collision_or_same [OF this] show ?thesis
      using leaf_message_inject [of s v s' v'] Tip.prems(3,4) Nil
      by (auto simp: climb_messages_def)
  next
    case (snoc q e)
    then have "sha256_hash (branch_message (climb q (tap_leaf_hash s v)) e) = sha256_hash (leaf_message s' v')"
      using Tip.prems(1) by (simp add: tap_hash_messages)
    from collision_or_same [OF this] show ?thesis
      using tags_differ [of s' v' "climb q (tap_leaf_hash s v)" e] snoc by (auto simp: climb_messages_snoc)
  qed
next
  case (Fork l r)
  have hl: "length (tree_hash l) = 32" "length (tree_hash r) = 32" using Fork.prems(2) by (cases l; cases r; simp)+
  show ?case
  proof (cases p rule: rev_cases)
    case Nil
    then have "sha256_hash (leaf_message s v) = sha256_hash (branch_message (tree_hash l) (tree_hash r))"
      using Fork.prems(1) by (simp add: tap_hash_messages)
    from collision_or_same [OF this] show ?thesis
      using tags_differ [of s v "tree_hash l" "tree_hash r"] by (auto simp: climb_messages_def)
  next
    case (snoc q e)
    let ?c = "climb q (tap_leaf_hash s v)"
    have "length ?c = 32" by (cases q rule: rev_cases) simp_all
    have e: "length e = 32" "list_all (\<lambda>h. length h = 32) q" using Fork.prems(5) snoc by simp_all
    have "sha256_hash (branch_message ?c e) = sha256_hash (branch_message (tree_hash l) (tree_hash r))"
      using Fork.prems(1) snoc by (simp add: tap_hash_messages)
    then consider (collision) "sha256_collision (branch_message ?c e) (branch_message (tree_hash l) (tree_hash r))"
      | (left) "?c = tree_hash l" "e = tree_hash r" | (right) "?c = tree_hash r" "e = tree_hash l"
      using collision_or_same branch_message_inject [OF _ \<open>length ?c = 32\<close> e(1) hl] by blast
    then show ?thesis
    proof cases
      case collision
      then show ?thesis using snoc by (auto simp: climb_messages_snoc)
    next
      case left
      then have "((s, v), q) \<in> set (tree_leaves l) \<or> collide (climb_messages q s v) (tree_messages l) \<or> collide tag_names tag_names"
        using Fork.IH(1) [of q] Fork.prems e(2) by simp
      then show ?thesis using snoc left by (auto simp: climb_messages_snoc partner_def image_iff)
    next
      case right
      then have "((s, v), q) \<in> set (tree_leaves r) \<or> collide (climb_messages q s v) (tree_messages r) \<or> collide tag_names tag_names"
        using Fork.IH(2) [of q] Fork.prems e(2) by simp
      then show ?thesis using snoc right by (auto simp: climb_messages_snoc partner_def image_iff)
    qed
  qed
qed simp

lemma verify_climb:
  assumes "xonly_laws X" "tap_tweak X key (Some root) = Some (out, par)" "climb (cb_branch cb) (tap_leaf_hash s (cb_leaf_version cb)) = root"
    and "cb_internal_key cb = key" "cb_parity cb = par"
  shows "verify_taproot_commitment X cb out s = Some True"
  using assms by (auto simp: verify_taproot_commitment_def tap_tweak_def xonly_laws_def Let_def bind_eq_Some_conv)

lemma verified_root:
  assumes "xonly_laws X" "tweak_laws X" "tap_tweak X key (Some root) = Some (out, par)" "verify_taproot_commitment X cb out s = Some True"
    and "cb_internal_key cb = key" "cb_parity cb = par"
  shows "from_key_and_tweak X key (Some (climb (cb_branch cb) (tap_leaf_hash s (cb_leaf_version cb)))) = from_key_and_tweak X key (Some root)"
proof -
  let ?c = "climb (cb_branch cb) (tap_leaf_hash s (cb_leaf_version cb))"
  have len: "length (from_key_and_tweak X key r) = 32" for r by (simp add: from_key_and_tweak_eq tagged_hash_message length_sha256_hash)
  obtain a where a: "to_scalar X (from_key_and_tweak X key (Some root)) = Some a" "add_tweak X key a = Some (out, par)"
    using assms(3) by (auto simp: tap_tweak_def bind_eq_Some_conv)
  obtain b where b: "to_scalar X (from_key_and_tweak X key (Some ?c)) = Some b" "tweak_add_check X key out par b"
    using assms(4-6) by (auto simp: verify_taproot_commitment_def Let_def)
  have "tweak_add_check X key out par a" using a(2) assms(1) by (simp add: xonly_laws_def)
  with b(2) have "a = b" using assms(2) unfolding tweak_laws_def by blast
  with a(1) b(1) len show ?thesis using assms(2) unfolding tweak_laws_def to_scalar_def by metis
qed

definition tweak_message :: "('k, 's) xonly_ops \<Rightarrow> 'k \<Rightarrow> tap_node_hash \<Rightarrow> bytes" where
  "tweak_message X key root = tagged_message ''TapTweak'' (xonly_serialize X key @ root)"

lemma finalized_tree:
  assumes "tree_height t \<le> 128" "add_calls tap_builder_new (tree_calls 0 t) = Inr b" "builder_finalize X key b = Some (Inr info)"
  obtains n where "represents n t" "from_node_info X key n = Some info"
  using assms builder_of_tree [OF assms(1)] by (auto simp: builder_finalize_def)

section \<open>Properties\<close>

text \<open>
  C15: The builder accepts a sequence of leaves and hidden nodes with depths exactly if it is the beginning of a
  depth-first walk over a tree of height at most 128, or such a walk in full followed by a proper beginning of another
  one; and it can be finalized exactly after a complete walk, when it holds the node combined from that tree.
\<close>

theorem builder_refines_trees:
  "((\<exists>b. add_calls tap_builder_new calls = Inr b) \<longleftrightarrow>
      (\<exists>t later. tree_height t \<le> 128 \<and> tree_calls 0 t = calls @ later)
      \<or> (\<exists>t u extra later. tree_height t \<le> 128 \<and> tree_height u \<le> 128 \<and> calls = tree_calls 0 t @ extra
           \<and> tree_calls 0 u = extra @ later \<and> extra \<noteq> [] \<and> later \<noteq> []))
   \<and> (add_calls tap_builder_new calls = Inr b \<and> is_finalizable b \<longleftrightarrow>
      (\<exists>t n. tree_height t \<le> 128 \<and> calls = tree_calls 0 t \<and> node_of t = Inr n \<and> b = [Some n]))"
    (is "(?ok \<longleftrightarrow> ?walk \<or> ?extra) \<and> (?final \<longleftrightarrow> ?tree)")
proof
  show "?ok \<longleftrightarrow> ?walk \<or> ?extra"
  proof
    assume ?ok
    then obtain ts where "places [] calls = Some ts" unfolding add_calls_new_iff by blast
    then show "?walk \<or> ?extra" using extra_calls [of calls ts] accepted_walk [of calls ts] by blast
  next
    assume "?walk \<or> ?extra"
    then show ?ok unfolding add_calls_new_iff using walk_accepted walk_and_more_accepted by metis
  qed
  show "?final \<longleftrightarrow> ?tree"
  proof
    assume final: ?final
    then obtain t where t: "tree_height t \<le> 128" "calls = tree_calls 0 t"
      using finalizable_tree [of calls b] by (auto simp: is_finalizable_def)
    with final builder_of_tree [OF t(1)] show ?tree by auto
  next
    assume ?tree
    then show ?final using builder_of_tree by (fastforce simp: is_finalizable_def)
  qed
qed

text \<open>
  C17: The spending information of a complete builder commits to the tree: for a script in the tree it gives a control
  block with a shortest of its branches, which verifies against the output key, and no control block for another script.
\<close>

theorem spend_info_proofs:
  assumes "xonly_laws X" and "tree_height t \<le> 128" and "add_calls tap_builder_new (tree_calls 0 t) = Inr b"
    and "builder_finalize X key b = Some (Inr info)"
  shows "tap_root info = Some (tree_hash t) \<and>
    (if (s, v) \<in> fst ` set (tree_leaves t)
     then \<exists>cb. control_block info (s, v) = Some (Some cb) \<and> verify_taproot_commitment X cb (output_key info) s = Some True
       \<and> ((s, v), cb_branch cb) \<in> set (tree_leaves t) \<and> (\<forall>q. ((s, v), q) \<in> set (tree_leaves t) \<longrightarrow> length (cb_branch cb) \<le> length q)
     else control_block info (s, v) = Some None)"
proof -
  obtain n where n: "represents n t" "from_node_info X key n = Some info" by (rule finalized_tree [OF assms(2-4)])
  note i = spend_info_of_node [OF n(2,1), of s v]
  then have br: "branches (script_map info) (s, v) = {p. ((s, v), p) \<in> set (tree_leaves t)}" by simp
  show ?thesis
  proof (cases "(s, v) \<in> fst ` set (tree_leaves t)")
    case True
    then have "branches (script_map info) (s, v) \<noteq> {}" unfolding br by force
    from control_block_shortest [OF this] br obtain c where c: "control_block info (s, v) = Some (Some c)" "((s, v), cb_branch c) \<in> set (tree_leaves t)"
      "\<forall>q. ((s, v), q) \<in> set (tree_leaves t) \<longrightarrow> length (cb_branch c) \<le> length q"
      "cb_leaf_version c = v" "cb_internal_key c = key" "cb_parity c = output_key_parity info" using i by auto
    have "verify_taproot_commitment X c (output_key info) s = Some True"
      using verify_climb [OF assms(1), of key "tree_hash t"] i c tree_leaf_climbs [OF c(2)] by simp
    then show ?thesis using True c i by auto
  next
    case False
    then have "branches (script_map info) (s, v) = {}" unfolding br by force
    then have "control_block info (s, v) = Some None" by (rule control_block_none) (use i in simp)
    then show ?thesis using False i by simp
  qed
qed

theorem spend_info_proofs_witness:
  "\<exists>b info cb. add_calls tap_builder_new [(1, TapLeafScript [0x51] LeafTapScript), (1, TapLeafHidden (replicate 32 7))] = Inr b
     \<and> builder_finalize word_keys 5 b = Some (Inr info)
     \<and> control_block info ([0x51], LeafTapScript) = Some (Some cb)
     \<and> verify_taproot_commitment word_keys cb (output_key info) [0x51] = Some True"
proof -
  let ?t = "Fork (Tip [0x51] LeafTapScript) (Hidden (replicate 32 7))"
  obtain n where n: "add_calls tap_builder_new (tree_calls 0 ?t) = Inr [Some n]" using builder_of_tree [of ?t] by auto
  obtain info where "builder_finalize word_keys 5 [Some n] = Some (Inr info)"
    by (simp add: builder_finalize_def from_node_info_def new_key_spend_def tap_tweak_def to_scalar_def word_keys_def)
  with spend_info_proofs [OF word_keys_laws _ n this, of "[0x51]" LeafTapScript] n show ?thesis
    by (simp add: partner_def) blast
qed

text \<open>
  C16: For an output built from a tree without hidden nodes, with leaf versions that can be encoded and of height at most
  128, a well-formed control block with the internal key and the parity of the output proves only scripts of the tree: if
  it verifies for a script, the script is a leaf of the tree with that version and branch, or two of the byte strings
  hashed for the proof, the tree, the tweaks or the tags collide under SHA-256.
\<close>

theorem commitment_binding:
  assumes "xonly_laws X" and "tweak_laws X" and "tree_height t \<le> 128" and "add_calls tap_builder_new (tree_calls 0 t) = Inr b"
    and "builder_finalize X key b = Some (Inr info)" and "\<not> tree_hidden t" and "versions_ok t"
    and "control_block_wf cb" and "cb_internal_key cb = key" and "cb_parity cb = output_key_parity info"
    and "verify_taproot_commitment X cb (output_key info) script = Some True"
  shows "((script, cb_leaf_version cb), cb_branch cb) \<in> set (tree_leaves t)
    \<or> collide (climb_messages (cb_branch cb) script (cb_leaf_version cb)) (tree_messages t)
    \<or> sha256_collision (tweak_message X key (climb (cb_branch cb) (tap_leaf_hash script (cb_leaf_version cb)))) (tweak_message X key (tree_hash t))
    \<or> collide tag_names tag_names"
proof -
  let ?c = "climb (cb_branch cb) (tap_leaf_hash script (cb_leaf_version cb))"
  obtain n where n: "represents n t" "from_node_info X key n = Some info" by (rule finalized_tree [OF assms(3-5)])
  then have tw: "tap_tweak X key (Some (tree_hash t)) = Some (output_key info, output_key_parity info)"
    using spend_info_of_node [OF n(2,1), of script undefined] by simp
  have "sha256_hash (tweak_message X key ?c) = sha256_hash (tweak_message X key (tree_hash t))"
    using verified_root [OF assms(1,2) tw assms(11,9,10)]
    by (simp add: from_key_and_tweak_eq tagged_hash_message tweak_message_def)
  then consider "sha256_collision (tweak_message X key ?c) (tweak_message X key (tree_hash t))" | "?c = tree_hash t"
    using collision_or_same by (fastforce simp: tweak_message_def tagged_message_def)
  then show ?thesis
  proof cases
    case 2
    then show ?thesis
      using climb_to_root [OF 2 assms(6,7)] assms(8) by (auto simp: control_block_wf_def)
  qed blast
qed

theorem commitment_binding_witness:
  "\<exists>b info cb. builder_finalize word_keys 5 b = Some (Inr info) \<and> verify_taproot_commitment word_keys cb (output_key info) [0x51] = Some True
     \<and> (((([0x51], cb_leaf_version cb), cb_branch cb) \<in> set (tree_leaves (Tip [0x51] LeafTapScript)))
        \<or> collide (climb_messages (cb_branch cb) [0x51] (cb_leaf_version cb)) (tree_messages (Tip [0x51] LeafTapScript))
        \<or> sha256_collision (tweak_message word_keys 5 (climb (cb_branch cb) (tap_leaf_hash [0x51] (cb_leaf_version cb))))
             (tweak_message word_keys 5 (tree_hash (Tip [0x51] LeafTapScript)))
        \<or> collide tag_names tag_names)"
proof -
  let ?t = "Tip [0x51] LeafTapScript"
  obtain n where n: "add_calls tap_builder_new (tree_calls 0 ?t) = Inr [Some n]" "represents n ?t" using builder_of_tree [of ?t] by auto
  obtain info where info: "from_node_info word_keys 5 n = Some info" "builder_finalize word_keys 5 [Some n] = Some (Inr info)"
    by (simp add: builder_finalize_def from_node_info_def new_key_spend_def tap_tweak_def to_scalar_def word_keys_def)
  let ?cb = "\<lparr> cb_leaf_version = LeafTapScript, cb_parity = output_key_parity info, cb_internal_key = 5, cb_branch = [] \<rparr>"
  have wf: "control_block_wf ?cb" by (simp add: control_block_wf_def leaf_version_from_consensus_def)
  have v: "verify_taproot_commitment word_keys ?cb (output_key info) [0x51] = Some True"
    using verify_climb [OF word_keys_laws, of 5 "tree_hash ?t"] spend_info_of_node [OF info(1) n(2)] by simp
  from commitment_binding [OF word_keys_laws word_keys_tweak_laws _ n(1) info(2) _ _ wf _ _ v]
  have "(([0x51], LeafTapScript), []) \<in> set (tree_leaves ?t)
    \<or> collide (climb_messages [] [0x51] LeafTapScript) (tree_messages ?t)
    \<or> sha256_collision (tweak_message word_keys 5 (climb [] (tap_leaf_hash [0x51] LeafTapScript))) (tweak_message word_keys 5 (tree_hash ?t))
    \<or> collide tag_names tag_names"
    by (simp add: leaf_version_from_consensus_def)
  with info(2) v show ?thesis by (intro exI [of _ "[Some n]"] exI [of _ info] exI [of _ ?cb]) simp
qed

text \<open>
  C19: Control blocks and their bytes determine each other: a byte string is decoded exactly if it is the serialisation
  of a control block with a valid version and at most 128 hashes, and the size that is computed without serialising, the
  count that \<open>encode\<close> returns and the length of the bytes agree.
\<close>

theorem control_block_exact:
  assumes "xonly_laws X"
  shows "(control_block_decode X sl = Inr cb \<longleftrightarrow> control_block_wf cb \<and> sl = control_block_serialize X cb)
    \<and> (control_block_decode X sl = Inr cb \<longrightarrow> length sl = control_block_size cb
         \<and> control_block_encode X cb = (sl, length sl) \<and> length sl \<le> TAPROOT_CONTROL_MAX_SIZE)"
  using control_block_decode_iff [OF assms] control_block_length [OF assms] by auto

theorem control_block_exact_witness:
  "control_block_decode word_keys (0xc1 # to_be_bytes (5 :: 256 word) @ replicate 32 9)
     = Inr \<lparr> cb_leaf_version = LeafTapScript, cb_parity = ParityOdd, cb_internal_key = 5, cb_branch = [replicate 32 9] \<rparr>"
proof -
  let ?cb = "\<lparr> cb_leaf_version = LeafTapScript, cb_parity = ParityOdd, cb_internal_key = 5 :: 256 word, cb_branch = [replicate 32 9] \<rparr>"
  have "control_block_wf ?cb" by (simp add: control_block_wf_def leaf_version_from_consensus_def)
  moreover have "control_block_serialize word_keys ?cb = 0xc1 # to_be_bytes (5 :: 256 word) @ replicate 32 9"
    by (simp add: serialize_eq parity_byte_def word_keys_def)
  ultimately show ?thesis using control_block_exact [OF word_keys_laws, of _ ?cb] by simp
qed

end
