(* ===== verification/Taproot_Huffman.thy ===== *)
theory Taproot_Huffman
  imports Taproot "HOL-Library.Product_Lexorder"
begin

text \<open>
  The Huffman construction of taproot trees (\<open>with_huffman_tree\<close> in \<open>src/litecoin/src/taproot/mod.rs\<close>), and that the
  tree it builds has the least expected depth. The priority queue is \<open>BinaryHeap\<close> of the standard library: a list from
  which the greatest element of the derived order is taken. The proof is by the sum of the powers of two of the depths.
\<close>

section \<open>The order of the queue\<close>

text \<open>\<open>derive(PartialOrd, Ord)\<close>: variants in the order of their declaration, then their fields.\<close>

fun version_key :: "leaf_version \<Rightarrow> nat \<times> u8" where
  "version_key LeafTapScript = (0, 0)"
| "version_key (Future v) = (1, v)"

lemma version_key_inject: "version_key a = version_key b \<longleftrightarrow> a = b"
  by (cases a; cases b) auto

instantiation leaf_version :: linorder
begin

definition less_eq_leaf_version :: "leaf_version \<Rightarrow> leaf_version \<Rightarrow> bool" where
  "less_eq_leaf_version a b \<longleftrightarrow> version_key a \<le> version_key b"

definition less_leaf_version :: "leaf_version \<Rightarrow> leaf_version \<Rightarrow> bool" where
  "less_leaf_version a b \<longleftrightarrow> version_key a < version_key b"

lemmas leaf_version_orders = less_eq_leaf_version_def less_leaf_version_def

instance
proof
  fix x y z :: leaf_version
  show "x < y \<longleftrightarrow> x \<le> y \<and> \<not> y \<le> x" by (simp only: leaf_version_orders less_le_not_le)
  show "x \<le> x" by (simp only: leaf_version_orders order_refl)
  show "x \<le> y \<Longrightarrow> y \<le> z \<Longrightarrow> x \<le> z" by (simp only: leaf_version_orders)
  show "x \<le> y \<Longrightarrow> y \<le> x \<Longrightarrow> x = y" by (simp only: leaf_version_orders version_key_inject [symmetric] order_antisym)
  show "x \<le> y \<or> y \<le> x" by (simp only: leaf_version_orders linear)
qed

end

fun tap_leaf_key :: "tap_leaf \<Rightarrow> nat \<times> bytes \<times> leaf_version" where
  "tap_leaf_key (TapLeafScript script ver) = (0, script, ver)"
| "tap_leaf_key (TapLeafHidden h) = (1, h, LeafTapScript)"

lemma tap_leaf_key_inject: "tap_leaf_key a = tap_leaf_key b \<longleftrightarrow> a = b"
  by (cases a; cases b) auto

instantiation tap_leaf :: linorder
begin

definition less_eq_tap_leaf :: "tap_leaf \<Rightarrow> tap_leaf \<Rightarrow> bool" where
  "less_eq_tap_leaf a b \<longleftrightarrow> tap_leaf_key a \<le> tap_leaf_key b"

definition less_tap_leaf :: "tap_leaf \<Rightarrow> tap_leaf \<Rightarrow> bool" where
  "less_tap_leaf a b \<longleftrightarrow> tap_leaf_key a < tap_leaf_key b"

lemmas tap_leaf_orders = less_eq_tap_leaf_def less_tap_leaf_def

instance
proof
  fix x y z :: tap_leaf
  show "x < y \<longleftrightarrow> x \<le> y \<and> \<not> y \<le> x" by (simp only: tap_leaf_orders less_le_not_le)
  show "x \<le> x" by (simp only: tap_leaf_orders order_refl)
  show "x \<le> y \<Longrightarrow> y \<le> z \<Longrightarrow> x \<le> z" by (simp only: tap_leaf_orders)
  show "x \<le> y \<Longrightarrow> y \<le> x \<Longrightarrow> x = y" by (simp only: tap_leaf_orders tap_leaf_key_inject [symmetric] order_antisym)
  show "x \<le> y \<or> y \<le> x" by (simp only: tap_leaf_orders linear)
qed

end

definition node_key :: "node_info \<Rightarrow> bytes \<times> (tap_leaf \<times> taproot_merkle_branch) list \<times> bool" where
  "node_key n = (node_hash n, map leaf_pair (node_leaves n), has_hidden_nodes n)"

type_synonym weighted_node = "u32 \<times> node_info"

text \<open>The first component is a \<open>Reverse\<close>.\<close>

definition heap_le :: "weighted_node \<Rightarrow> weighted_node \<Rightarrow> bool" where
  "heap_le x y \<longleftrightarrow> fst y < fst x \<or> fst x = fst y \<and> node_key (snd x) \<le> node_key (snd y)"

fun heap_peek :: "weighted_node \<Rightarrow> weighted_node list \<Rightarrow> weighted_node" where
  "heap_peek x [] = x"
| "heap_peek x (y # ys) = heap_peek (if heap_le x y then y else x) ys"

definition heap_push :: "weighted_node \<Rightarrow> weighted_node list \<Rightarrow> weighted_node list" where
  "heap_push x xs = x # xs"

definition heap_pop :: "weighted_node list \<Rightarrow> (weighted_node \<times> weighted_node list) option" where
  "heap_pop xs = (case xs of [] \<Rightarrow> None | y # ys \<Rightarrow> (let m = heap_peek y ys in Some (m, remove1 m xs)))"

lemma heap_peek_in: "heap_peek x ys \<in> set (x # ys)"
  by (induction x ys rule: heap_peek.induct) auto

lemma heap_pop_length: "heap_pop xs = Some (x, ys) \<Longrightarrow> length xs = Suc (length ys)"
proof (cases xs)
  case (Cons y zs)
  assume "heap_pop xs = Some (x, ys)"
  then have "ys = remove1 (heap_peek y zs) xs" using Cons by (auto simp: heap_pop_def Let_def simp del: remove1.simps)
  moreover have "heap_peek y zs \<in> set xs" using Cons heap_peek_in by simp
  moreover have "length xs \<noteq> 0" using Cons by simp
  ultimately show ?thesis by (simp add: length_remove1)
qed (simp add: heap_pop_def)

section \<open>The construction\<close>

definition saturating_add_u32 :: "u32 \<Rightarrow> u32 \<Rightarrow> u32" where
  "saturating_add_u32 a b = (if unat a + unat b \<ge> 2 ^ 32 then - 1 else a + b)"

text \<open>The outer \<^term>\<open>None\<close> is a panic of \<open>expect\<close>.\<close>

function huffman_loop :: "weighted_node list \<Rightarrow> (taproot_builder_error + taproot_builder) option" where
  "huffman_loop node_weights =
     (if length node_weights > 1
      then (case heap_pop node_weights of
          None \<Rightarrow> None
        | Some ((p1, s1), rest1) \<Rightarrow>
            (case heap_pop rest1 of
               None \<Rightarrow> None
             | Some ((p2, s2), rest2) \<Rightarrow>
                 (case node_combine s1 s2 of
                    Inl e \<Rightarrow> Some (Inl e)
                  | Inr node \<Rightarrow> huffman_loop (heap_push (saturating_add_u32 p1 p2, node) rest2))))
      else map_option (\<lambda>((_, node), _). Inr [Some node]) (heap_pop node_weights))"
  by pat_completeness auto
termination by (relation "measure length") (auto simp: heap_push_def dest!: heap_pop_length)

declare huffman_loop.simps [simp del]

definition with_huffman_tree :: "(u32 \<times> bytes) list \<Rightarrow> (taproot_builder_error + taproot_builder) option" where
  "with_huffman_tree script_weights =
     (let node_weights = fold (\<lambda>(p, leaf). heap_push (p, new_leaf_with_ver leaf LeafTapScript)) script_weights [] in
      if node_weights = [] then Some (Inl BuilderEmptyTree) else huffman_loop node_weights)"

definition spend_info_with_huffman_tree ::
    "('k, 's) xonly_ops \<Rightarrow> 'k \<Rightarrow> (u32 \<times> bytes) list \<Rightarrow> (taproot_builder_error + 'k TaprootSpendInfo) option" where
  "spend_info_with_huffman_tree X key script_weights =
     Option.bind (with_huffman_tree script_weights) (\<lambda>r. case r of
         Inl e \<Rightarrow> Some (Inl e)
       | Inr builder \<Rightarrow> Option.bind (builder_finalize X key builder) (\<lambda>f. case f of Inl b \<Rightarrow> None | Inr info \<Rightarrow> Some (Inr info)))"

section \<open>Trees with weights\<close>

datatype weighted_tree = WTip nat bytes | WFork weighted_tree weighted_tree

primrec weight :: "weighted_tree \<Rightarrow> nat" where
  "weight (WTip w s) = w"
| "weight (WFork l r) = weight l + weight r"

primrec weighted_leaves :: "weighted_tree \<Rightarrow> (nat \<times> bytes) multiset" where
  "weighted_leaves (WTip w s) = {#(w, s)#}"
| "weighted_leaves (WFork l r) = weighted_leaves l + weighted_leaves r"

text \<open>The leaves with their depths, and the sum of weight times depth.\<close>

primrec depths :: "nat \<Rightarrow> weighted_tree \<Rightarrow> (weighted_tree \<times> nat) multiset" where
  "depths d (WTip w s) = {#(WTip w s, d)#}"
| "depths d (WFork l r) = depths (Suc d) l + depths (Suc d) r"

definition tree_cost :: "weighted_tree \<Rightarrow> nat" where
  "tree_cost t = (\<Sum>(x, d) \<in># depths 0 t. weight x * d)"

primrec plain :: "weighted_tree \<Rightarrow> script_tree" where
  "plain (WTip w s) = Tip s LeafTapScript"
| "plain (WFork l r) = Fork (plain l) (plain r)"

primrec fork_cost :: "weighted_tree \<Rightarrow> nat" where
  "fork_cost (WTip w s) = 0"
| "fork_cost (WFork l r) = fork_cost l + fork_cost r + weight l + weight r"

lemma depths_cost: "(\<Sum>(x, d) \<in># depths k t. weight x * d) = fork_cost t + weight t * k"
  by (induction t arbitrary: k) (simp_all add: algebra_simps)

lemma tree_cost_fork: "tree_cost t = fork_cost t"
  using depths_cost [of 0 t] by (simp add: tree_cost_def)

section \<open>Depths and powers of two\<close>

definition kraft :: "nat \<Rightarrow> nat multiset \<Rightarrow> bool" where
  "kraft k ds \<longleftrightarrow> (\<forall>d \<in># ds. d \<le> k) \<and> (\<Sum>d \<in># ds. 2 ^ (k - d)) = (2 ^ k :: nat)"

lemma depths_sum:
  "d + tree_height (plain t) \<le> k \<Longrightarrow> (\<Sum>(x, e) \<in># depths d t. 2 ^ (k - e)) = (2 ^ (k - d) :: nat)
     \<and> (\<forall>(x, e) \<in># depths d t. e \<le> k)"
proof (induction t arbitrary: d)
  case (WFork l r)
  have "k - d = Suc (k - Suc d)" using WFork.prems by simp
  then have "(2 ^ (k - d) :: nat) = 2 ^ (k - Suc d) + 2 ^ (k - Suc d)" by simp
  moreover have "Suc d + tree_height (plain l) \<le> k" "Suc d + tree_height (plain r) \<le> k" using WFork.prems by simp_all
  ultimately show ?case using WFork.IH(1) [of "Suc d"] WFork.IH(2) [of "Suc d"] by auto
qed simp

lemma depths_kraft: "kraft (tree_height (plain t)) (image_mset snd (depths 0 t))"
  using depths_sum [of 0 t "tree_height (plain t)"]
  by (auto simp: kraft_def multiset.map_comp comp_def case_prod_unfold)

lemma sum_mset_even: "(\<forall>x \<in># M. even (f x)) \<Longrightarrow> even (\<Sum>x \<in># M. f x :: nat)"
  by (induction M) auto

lemma kraft_level:
  assumes "kraft k ds" "\<forall>d \<in># ds. d \<le> m" "m \<le> k"
  shows "kraft m ds"
proof -
  have "(2 ^ (k - d) :: nat) = 2 ^ (k - m) * 2 ^ (m - d)" if "d \<in># ds" for d
    using that assms(2,3) by (simp add: power_add [symmetric])
  then have "(\<Sum>d \<in># ds. 2 ^ (k - d)) = (\<Sum>d \<in># ds. 2 ^ (k - m) * 2 ^ (m - d) :: nat)"
    by (intro arg_cong [of _ _ sum_mset] image_mset_cong) simp
  also have "\<dots> = 2 ^ (k - m) * (\<Sum>d \<in># ds. 2 ^ (m - d))" by (simp add: sum_mset_distrib_left)
  finally have "2 ^ (k - m) * (\<Sum>d \<in># ds. 2 ^ (m - d)) = (2 ^ (k - m) * 2 ^ m :: nat)"
    using assms(1,3) by (simp add: kraft_def power_add [symmetric])
  then show ?thesis using assms(2) by (simp add: kraft_def)
qed

text \<open>The greatest depth occurs twice, and two of its leaves can be replaced by their parent.\<close>

lemma deepest_twice:
  assumes "kraft k ds" "size ds > 1"
  shows "\<exists>m ds0. 0 < m \<and> ds = add_mset m (add_mset m ds0) \<and> kraft m ds"
proof -
  have ne: "ds \<noteq> {#}" using assms(2) by auto
  define m where "m = Max (set_mset ds)"
  have m: "m \<in># ds" "\<forall>d \<in># ds. d \<le> m" using ne by (simp_all add: m_def)
  then have "m \<le> k" using assms(1) by (simp add: kraft_def)
  with m assms(1) have kr: "kraft m ds" using kraft_level by blast
  obtain R where R: "ds = add_mset m R" using m(1) by (metis insert_DiffM)
  have sum: "1 + (\<Sum>d \<in># R. 2 ^ (m - d)) = (2 ^ m :: nat)" using kr by (simp add: kraft_def R)
  have "R \<noteq> {#}" using assms(2) R by auto
  then obtain x where "x \<in># R" by blast
  then obtain R' where "R = add_mset x R'" by (metis insert_DiffM)
  then have "0 < (\<Sum>d \<in># R. 2 ^ (m - d) :: nat)" by simp
  then have "0 < m" using sum by (cases m) simp_all
  moreover have "m \<in># R"
  proof (rule ccontr)
    assume "m \<notin># R"
    then have "\<forall>d \<in># R. d < m" using m(2) R by (metis add_mset_add_single le_neq_implies_less union_iff)
    then have "even (\<Sum>d \<in># R. 2 ^ (m - d) :: nat)" by (intro sum_mset_even) auto
    moreover have "even (1 + (\<Sum>d \<in># R. 2 ^ (m - d)) :: nat)" unfolding sum using \<open>0 < m\<close> by simp
    ultimately show False by simp
  qed
  ultimately show ?thesis using R kr by (metis insert_DiffM)
qed

lemma kraft_merge: "\<lbrakk>kraft m (add_mset m (add_mset m ds0)); 0 < m\<rbrakk> \<Longrightarrow> kraft m (add_mset (m - 1) ds0)"
  by (cases m) (auto simp: kraft_def)

section \<open>The lightest trees are deepest\<close>

text \<open>A forest whose trees are hung at depths, and its cost.\<close>

definition hung_cost :: "(weighted_tree \<times> nat) multiset \<Rightarrow> nat" where
  "hung_cost Z = (\<Sum>(t, d) \<in># Z. fork_cost t + weight t * d)"

lemma hung_cost_add [simp]: "hung_cost (add_mset (t, d) Z) = fork_cost t + weight t * d + hung_cost Z"
  by (simp add: hung_cost_def)

lemma exchange_weights:
  assumes "wa \<le> wx" "da \<le> (m :: nat)"
  shows "wa * m + wx * da \<le> wa * da + wx * m"
proof -
  obtain i j where "wx = wa + i" "m = da + j" using assms by (auto simp: le_iff_add)
  then show ?thesis by (simp add: algebra_simps)
qed

lemma swap_deepest:
  assumes "\<forall>x \<in># image_mset fst Y. weight a \<le> weight x" "da \<le> m" "da = m \<or> m \<in># image_mset snd Y"
  shows "\<exists>Y'. image_mset fst Y' = image_mset fst Y \<and> add_mset m (image_mset snd Y') = add_mset da (image_mset snd Y)
    \<and> hung_cost (add_mset (a, m) Y') \<le> hung_cost (add_mset (a, da) Y)"
proof (cases "da = m")
  case False
  then obtain x where "(x, m) \<in># Y" using assms(3) by auto
  then obtain R where R: "Y = add_mset (x, m) R" by (metis insert_DiffM)
  have "weight a * m + weight x * da \<le> weight a * da + weight x * m"
    using assms(1,2) R by (intro exchange_weights) simp_all
  then have "hung_cost (add_mset (a, m) (add_mset (x, da) R)) \<le> hung_cost (add_mset (a, da) Y)" by (simp add: R)
  moreover have "add_mset m (image_mset snd (add_mset (x, da) R)) = add_mset da (image_mset snd Y)"
    by (simp add: R add_mset_commute)
  ultimately show ?thesis using R by (intro exI [of _ "add_mset (x, da) R"]) simp
qed auto

lemma bring_down:
  assumes "kraft k (image_mset snd Z)" "image_mset fst Z = add_mset a (add_mset b F)"
    and "\<forall>x \<in># add_mset b F. weight a \<le> weight x" "\<forall>x \<in># F. weight b \<le> weight x"
  shows "\<exists>m Y. 0 < m \<and> image_mset fst Y = F \<and> kraft m (add_mset m (add_mset m (image_mset snd Y)))
    \<and> hung_cost (add_mset (a, m) (add_mset (b, m) Y)) \<le> hung_cost Z"
proof -
  have "a \<in># image_mset fst Z" using assms(2) by simp
  then obtain da Z1 where Z: "Z = add_mset (a, da) Z1" by (auto simp: image_iff) (metis insert_DiffM)
  have Z1: "image_mset fst Z1 = add_mset b F" using assms(2) Z by simp
  have "size (image_mset snd Z) = size (image_mset fst Z)" by simp
  then have "size (image_mset snd Z) > 1" unfolding assms(2) by simp
  from deepest_twice [OF assms(1) this] obtain m R where
    m: "0 < m" "image_mset snd Z = add_mset m (add_mset m R)" "kraft m (image_mset snd Z)" by blast
  have le: "\<forall>d \<in># image_mset snd Z. d \<le> m" using m(3) by (simp add: kraft_def)
  have "da = m \<or> m \<in># image_mset snd Z1"
    using m(2) Z by (metis add_eq_conv_ex add_mset_add_single image_mset_add_mset insert_noteq_member snd_conv union_single_eq_member)
  moreover have "da \<le> m" using le Z by simp
  ultimately obtain Y1 where Y1: "image_mset fst Y1 = add_mset b F" "add_mset m (image_mset snd Y1) = add_mset da (image_mset snd Z1)"
    "hung_cost (add_mset (a, m) Y1) \<le> hung_cost Z"
    using swap_deepest [of Z1 a da m] assms(3) Z Z1 by auto
  then have s1: "image_mset snd Y1 = add_mset m R" using m(2) Z by simp
  have "b \<in># image_mset fst Y1" using Y1(1) by simp
  then obtain db Y2 where Y2: "Y1 = add_mset (b, db) Y2" by (auto simp: image_iff) (metis insert_DiffM)
  have f2: "image_mset fst Y2 = F" using Y1(1) Y2 by simp
  have "db \<in># image_mset snd Z" using s1 m(2) Y2 by (metis image_mset_add_mset insertCI set_mset_add_mset_insert snd_conv)
  then have "db \<le> m" using le by blast
  moreover have "db = m \<or> m \<in># image_mset snd Y2" using s1 Y2 by (metis image_mset_add_mset insertE set_mset_add_mset_insert snd_conv union_single_eq_member)
  ultimately obtain Y where Y: "image_mset fst Y = F" "add_mset m (image_mset snd Y) = add_mset db (image_mset snd Y2)"
    "hung_cost (add_mset (b, m) Y) \<le> hung_cost (add_mset (b, db) Y2)"
    using swap_deepest [of Y2 b db m] assms(4) f2 by auto
  have "image_mset snd Y = R" using Y(2) s1 Y2 by simp
  then have "kraft m (add_mset m (add_mset m (image_mset snd Y)))" using m(2,3) by simp
  moreover have "hung_cost (add_mset (a, m) (add_mset (b, m) Y)) \<le> hung_cost Z" using Y(3) Y1(3) Y2 by simp
  ultimately show ?thesis using m(1) Y(1) by blast
qed

text \<open>Repeatedly joining two lightest trees.\<close>

inductive huffman_tree :: "weighted_tree multiset \<Rightarrow> weighted_tree \<Rightarrow> bool" where
  single: "huffman_tree {#t#} t"
| join: "\<lbrakk>\<forall>x \<in># add_mset b F. weight a \<le> weight x; \<forall>x \<in># F. weight b \<le> weight x; huffman_tree (add_mset (WFork b a) F) t\<rbrakk>
    \<Longrightarrow> huffman_tree (add_mset a (add_mset b F)) t"

lemma huffman_tree_least:
  "\<lbrakk>huffman_tree F t; image_mset fst Z = F; kraft k (image_mset snd Z)\<rbrakk> \<Longrightarrow> fork_cost t \<le> hung_cost Z"
proof (induction F t arbitrary: Z k rule: huffman_tree.induct)
  case (single t)
  then obtain d where "Z = {#(t, d)#}" by (cases Z) auto
  then show ?case by simp
next
  case (join b F a t)
  obtain m Y where Y: "0 < m" "image_mset fst Y = F" "kraft m (add_mset m (add_mset m (image_mset snd Y)))"
    "hung_cost (add_mset (a, m) (add_mset (b, m) Y)) \<le> hung_cost Z"
    using bring_down [OF join.prems(2,1) join.hyps(1,2)] by blast
  let ?Y = "add_mset (WFork b a, m - 1) Y"
  have "kraft m (image_mset snd ?Y)" using kraft_merge [OF Y(3,1)] by simp
  then have "fork_cost t \<le> hung_cost ?Y" using join.IH [of ?Y m] Y(2) by simp
  also have "\<dots> = hung_cost (add_mset (a, m) (add_mset (b, m) Y))"
    using Y(1) by (cases m) (simp_all add: algebra_simps)
  finally show ?case using Y(4) by simp
qed

definition tips :: "(nat \<times> bytes) multiset \<Rightarrow> weighted_tree multiset" where
  "tips = image_mset (\<lambda>(w, s). WTip w s)"

lemma depths_tips: "image_mset fst (depths d t) = tips (weighted_leaves t)"
  by (induction t arbitrary: d) (simp_all add: tips_def)

lemma hung_cost_depths: "hung_cost (depths d t) = fork_cost t + weight t * d"
proof -
  have "hung_cost (depths d t) = (\<Sum>(x, e) \<in># depths d t. weight x * e)"
    by (induction t arbitrary: d) (simp_all add: hung_cost_def)
  then show ?thesis by (simp add: depths_cost)
qed

lemma huffman_tree_optimal:
  assumes "huffman_tree (tips (weighted_leaves u)) t"
  shows "tree_cost t \<le> tree_cost u"
  using huffman_tree_least [OF assms depths_tips [of 0] depths_kraft] hung_cost_depths [of 0 u] by (simp add: tree_cost_fork)

section \<open>The queue holds a forest\<close>

text \<open>
  The queue as a multiset of nodes paired with the trees they stand for. If \<open>exact\<close> holds, the weights are those of the
  trees, which is the case as long as no sum saturates.
\<close>

definition queue_ok :: "bool \<Rightarrow> weighted_node \<times> weighted_tree \<Rightarrow> bool" where
  "queue_ok exact = (\<lambda>((p, n), t). (exact \<longrightarrow> unat p = weight t) \<and> represents n (plain t) \<and> tree_height (plain t) \<le> 128)"

definition queue_holds :: "bool \<Rightarrow> weighted_node list \<Rightarrow> (weighted_node \<times> weighted_tree) multiset \<Rightarrow> bool" where
  "queue_holds exact xs Z \<longleftrightarrow> mset xs = image_mset fst Z \<and> (\<forall>z \<in># Z. queue_ok exact z)"

lemma heap_peek_least:
  "(\<forall>y \<in> set (x # ys). fst (heap_peek x ys) \<le> fst y)"
proof (induction x ys rule: heap_peek.induct)
  case (2 x y ys)
  then show ?case by (cases "heap_le x y") (auto simp: heap_le_def)
qed simp

lemma queue_pop:
  assumes "queue_holds exact xs Z" "xs \<noteq> []"
  shows "\<exists>p n ys t Y. heap_pop xs = Some ((p, n), ys) \<and> Z = add_mset ((p, n), t) Y \<and> queue_holds exact ys Y
    \<and> queue_ok exact ((p, n), t) \<and> (exact \<longrightarrow> (\<forall>x \<in># image_mset snd Y. weight t \<le> weight x))"
proof -
  obtain y zs where xs: "xs = y # zs" using assms(2) by (cases xs) auto
  obtain p n where m: "heap_peek y zs = (p, n)" by fastforce
  have pn: "(p, n) \<in> set xs" using heap_peek_in [of y zs] m xs by simp
  then have "(p, n) \<in># image_mset fst Z" using assms(1) by (metis queue_holds_def set_mset_mset)
  then obtain t Y where Z: "Z = add_mset ((p, n), t) Y" by (auto simp: image_iff) (metis insert_DiffM)
  have Y: "queue_holds exact (remove1 (p, n) xs) Y" using assms(1) Z by (simp add: queue_holds_def)
  have ok: "queue_ok exact ((p, n), t)" using assms(1) Z by (simp add: queue_holds_def)
  have "weight t \<le> weight x" if ex: "exact" and x: "x \<in># image_mset snd Y" for x
  proof -
    obtain q k where "((q, k), x) \<in># Y" using x by auto
    then have "queue_ok exact ((q, k), x)" and "fst ((q, k), x) \<in># image_mset fst Z"
      using assms(1) Z by (auto simp: queue_holds_def simp del: fst_conv)
    then have "queue_ok exact ((q, k), x)" "(q, k) \<in># mset xs" using assms(1) by (simp_all add: queue_holds_def)
    then have "unat q = weight x" "p \<le> q"
      using ex heap_peek_least [of y zs] m xs by (auto simp: queue_ok_def)
    then show ?thesis using ok ex by (simp add: queue_ok_def word_le_nat_alt)
  qed
  moreover have "heap_pop xs = Some ((p, n), remove1 (p, n) xs)" using m xs by (simp add: heap_pop_def Let_def)
  ultimately show ?thesis using Z Y ok by blast
qed

lemma plain_facts:
  "\<not> tree_hidden (plain t)" "tree_height (plain t) < size (weighted_leaves t)"
  "\<exists>s v p. ((s, v), p) \<in> set (tree_leaves (plain t)) \<and> length p = tree_height (plain t)"
proof -
  show "\<not> tree_hidden (plain t)" by (induction t) simp_all
  show "tree_height (plain t) < size (weighted_leaves t)" by (induction t) auto
  show "\<exists>s v p. ((s, v), p) \<in> set (tree_leaves (plain t)) \<and> length p = tree_height (plain t)"
  proof (induction t)
    case (WFork l r)
    then obtain s v p s' v' p' where l: "((s, v), p) \<in> set (tree_leaves (plain l))" "length p = tree_height (plain l)"
      and r: "((s', v'), p') \<in> set (tree_leaves (plain r))" "length p' = tree_height (plain r)" by blast
    have "((s, v), p @ [tree_hash (plain r)]) \<in> set (tree_leaves (plain (WFork l r)))"
      "((s', v'), p' @ [tree_hash (plain l)]) \<in> set (tree_leaves (plain (WFork l r)))"
      using l(1) r(1) by (force simp: partner_def)+
    with l(2) r(2) show ?case
      by (cases "tree_height (plain r) \<le> tree_height (plain l)") (force simp: max_def)+
  qed auto
qed

lemma deep_push_fails:
  assumes "represents n (plain t)" "128 \<le> tree_height (plain t)"
  shows "\<not> list_all (\<lambda>l. length (merkle_branch l) < 128) (node_leaves n)"
proof -
  obtain s v p where "((s, v), p) \<in> set (tree_leaves (plain t))" "128 \<le> length p" using plain_facts(3) [of t] assms(2) by auto
  then have "(TapLeafScript s v, p) \<in> leaf_pair ` set (node_leaves n)" using represents_leaf_pairs [OF assms(1)] by simp
  with \<open>128 \<le> length p\<close> show ?thesis by (force simp: leaf_pair_def list_all_iff not_less)
qed

lemma node_combine_ok_short:
  "node_combine a b = Inr n \<Longrightarrow> list_all (\<lambda>l. length (merkle_branch l) < 128) (node_leaves a)
     \<and> list_all (\<lambda>l. length (merkle_branch l) < 128) (node_leaves b)"
  by (auto simp: node_combine_def Let_def and_then_Inr_iff push_all_iff split: prod.splits if_splits)

lemma node_combine_error:
  "\<lbrakk>node_combine a b = Inl e; list_all (\<lambda>l. length (merkle_branch l) \<le> 128) (node_leaves a);
    list_all (\<lambda>l. length (merkle_branch l) \<le> 128) (node_leaves b)\<rbrakk> \<Longrightarrow> e = BuilderInvalidMerkleTreeDepth 128"
  by (auto simp: node_combine_def Let_def and_then_Inl_iff dest: push_all_error split: prod.splits if_splits)

lemma combine_weighted:
  assumes "queue_ok exact ((p1, s1), a)" "queue_ok exact ((p2, s2), b)"
  shows "case node_combine s1 s2 of
      Inl e \<Rightarrow> e = BuilderInvalidMerkleTreeDepth 128 \<and> 129 < size (weighted_leaves (WFork b a))
    | Inr n \<Rightarrow> represents n (plain (WFork b a)) \<and> tree_height (plain (WFork b a)) \<le> 128"
proof (cases "tree_height (plain a) < 128 \<and> tree_height (plain b) < 128")
  case True
  then show ?thesis using combine_represents [of s1 "plain a" s2 "plain b"] assms by (auto simp: queue_ok_def)
next
  case False
  have r: "represents s1 (plain a)" "represents s2 (plain b)" "tree_height (plain a) \<le> 128" "tree_height (plain b) \<le> 128"
    using assms by (auto simp: queue_ok_def)
  obtain e where e: "node_combine s1 s2 = Inl e"
    using node_combine_ok_short [of s1 s2] deep_push_fails r(1,2) False by (cases "node_combine s1 s2") (auto simp: not_less)
  have "e = BuilderInvalidMerkleTreeDepth 128"
    using node_combine_error [OF e] represents_branches [OF r(1,3)] represents_branches [OF r(2,4)] by simp
  moreover have "129 < size (weighted_leaves (WFork b a))" using plain_facts(2) [of a] plain_facts(2) [of b] False by auto
  ultimately show ?thesis by (simp add: e)
qed

abbreviation queue_leaves :: "(weighted_node \<times> weighted_tree) multiset \<Rightarrow> (nat \<times> bytes) multiset" where
  "queue_leaves Z \<equiv> \<Sum>z \<in># Z. weighted_leaves (snd z)"

abbreviation queue_weight :: "(weighted_node \<times> weighted_tree) multiset \<Rightarrow> nat" where
  "queue_weight Z \<equiv> \<Sum>z \<in># Z. weight (snd z)"

lemma huffman_loop_tree:
  assumes "queue_holds exact xs Z" "xs \<noteq> []" "exact \<longrightarrow> queue_weight Z < 2 ^ 32"
  shows "\<exists>r. huffman_loop xs = Some r \<and> (case r of
      Inl e \<Rightarrow> e = BuilderInvalidMerkleTreeDepth 128 \<and> 129 < size (queue_leaves Z)
    | Inr b \<Rightarrow> \<exists>T n. b = [Some n] \<and> represents n (plain T) \<and> tree_height (plain T) \<le> 128
        \<and> weighted_leaves T = queue_leaves Z \<and> (exact \<longrightarrow> huffman_tree (image_mset snd Z) T))"
  using assms
proof (induction xs arbitrary: Z rule: huffman_loop.induct)
  case (1 xs)
  obtain p1 s1 ys a Y where pop1: "heap_pop xs = Some ((p1, s1), ys)" and Z: "Z = add_mset ((p1, s1), a) Y"
    and Y: "queue_holds exact ys Y" and a: "queue_ok exact ((p1, s1), a)" "exact \<longrightarrow> (\<forall>x \<in># image_mset snd Y. weight a \<le> weight x)"
    using queue_pop [OF "1.prems"(1,2)] by blast
  show ?case
  proof (cases "length xs > 1")
    case False
    then have "ys = []" using heap_pop_length [OF pop1] by simp
    then have "Y = {#}" using Y by (simp add: queue_holds_def)
    then show ?thesis using False pop1 Z a(1)
      by (auto simp: huffman_loop.simps [of xs] queue_ok_def intro!: exI [of _ a] huffman_tree.single)
  next
    case True
    then have "ys \<noteq> []" using heap_pop_length [OF pop1] by auto
    then obtain p2 s2 zs b W where pop2: "heap_pop ys = Some ((p2, s2), zs)" and Y': "Y = add_mset ((p2, s2), b) W"
      and W: "queue_holds exact zs W" and b: "queue_ok exact ((p2, s2), b)" "exact \<longrightarrow> (\<forall>x \<in># image_mset snd W. weight b \<le> weight x)"
      using queue_pop [OF Y] by blast
    note c = combine_weighted [OF a(1) b(1)]
    show ?thesis
    proof (cases "node_combine s1 s2")
      case (Inl e)
      then have "huffman_loop xs = Some (Inl e)" using True pop1 pop2 by (simp add: huffman_loop.simps [of xs])
      then show ?thesis using c Inl Z Y' by simp
    next
      case (Inr n)
      let ?p = "saturating_add_u32 p1 p2"
      let ?Z = "add_mset ((?p, n), WFork b a) W" and ?xs = "heap_push (?p, n) zs"
      have "unat ?p = weight (WFork b a)" if exact
        using that a(1) b(1) "1.prems"(3) Z Y' by (simp add: saturating_add_u32_def queue_ok_def unat_word_ariths)
      then have "queue_holds exact ?xs ?Z" using W c Inr by (simp add: queue_holds_def queue_ok_def heap_push_def)
      moreover have "exact \<longrightarrow> queue_weight ?Z < 2 ^ 32" using "1.prems"(3) Z Y' by (simp add: ac_simps)
      moreover have "?xs \<noteq> []" by (simp add: heap_push_def)
      ultimately obtain r where r: "huffman_loop ?xs = Some r" "case r of
          Inl e \<Rightarrow> e = BuilderInvalidMerkleTreeDepth 128 \<and> 129 < size (queue_leaves ?Z)
        | Inr b \<Rightarrow> \<exists>T n. b = [Some n] \<and> represents n (plain T) \<and> tree_height (plain T) \<le> 128
            \<and> weighted_leaves T = queue_leaves ?Z \<and> (exact \<longrightarrow> huffman_tree (image_mset snd ?Z) T)"
        using "1.IH" [OF True pop1 refl refl pop2 refl refl Inr, of ?Z] by blast
      have "huffman_loop xs = Some r" using True pop1 pop2 Inr r(1) by (simp add: huffman_loop.simps [of xs])
      moreover have "queue_leaves ?Z = queue_leaves Z" using Z Y' by (simp add: ac_simps)
      moreover have "exact \<longrightarrow> huffman_tree (image_mset snd ?Z) T \<longrightarrow> huffman_tree (image_mset snd Z) T" for T
        using a(2) b(2) Z Y' by (auto intro!: huffman_tree.join)
      ultimately show ?thesis using r(2) by (cases r) auto
    qed
  qed
qed

definition entry :: "u32 \<times> bytes \<Rightarrow> weighted_node \<times> weighted_tree" where
  "entry = (\<lambda>(p, s). ((p, new_leaf_with_ver s LeafTapScript), WTip (unat p) s))"

lemma initial_queue:
  "queue_holds exact (fold (\<lambda>(p, leaf). heap_push (p, new_leaf_with_ver leaf LeafTapScript)) ws []) (image_mset entry (mset ws))"
proof -
  have "mset (fold (\<lambda>(p, leaf). heap_push (p, new_leaf_with_ver leaf LeafTapScript)) ws xs)
      = mset xs + image_mset (fst \<circ> entry) (mset ws)" for xs
    by (induction ws arbitrary: xs) (auto simp: heap_push_def entry_def)
  moreover have "queue_ok exact (entry w)" for w
    by (auto simp: entry_def queue_ok_def represents_def new_leaf_with_ver_def leaf_pair_def known_leaf_def leaf_new_script_def
        split: prod.splits)
  ultimately show ?thesis by (auto simp: queue_holds_def multiset.map_comp)
qed

definition numbered :: "(u32 \<times> bytes) list \<Rightarrow> (nat \<times> bytes) multiset" where
  "numbered ws = image_mset (\<lambda>(w, s). (unat w, s)) (mset ws)"

lemma entry_facts:
  "queue_leaves (image_mset entry (mset ws)) = numbered ws"
  "image_mset snd (image_mset entry (mset ws)) = tips (numbered ws)"
  "queue_weight (image_mset entry (mset ws)) = (\<Sum>w \<leftarrow> ws. unat (fst w))"
  by (induction ws) (auto simp: entry_def numbered_def tips_def)

lemma with_huffman_tree_result:
  assumes "ws \<noteq> []" "exact \<longrightarrow> (\<Sum>w \<leftarrow> ws. unat (fst w)) < 2 ^ 32"
  shows "\<exists>r. with_huffman_tree ws = Some r \<and> (case r of
      Inl e \<Rightarrow> e = BuilderInvalidMerkleTreeDepth 128 \<and> 129 < length ws
    | Inr b \<Rightarrow> \<exists>T n. b = [Some n] \<and> represents n (plain T) \<and> tree_height (plain T) \<le> 128
        \<and> weighted_leaves T = numbered ws \<and> (exact \<longrightarrow> huffman_tree (tips (numbered ws)) T))"
proof -
  let ?xs = "fold (\<lambda>(p, leaf). heap_push (p, new_leaf_with_ver leaf LeafTapScript)) ws []"
  have q: "queue_holds exact ?xs (image_mset entry (mset ws))" by (rule initial_queue)
  then have "mset ?xs = image_mset fst (image_mset entry (mset ws))" by (simp only: queue_holds_def)
  from arg_cong [OF this, of size] have "length ?xs = length ws" by (simp only: size_image_mset size_mset)
  then have ne: "?xs \<noteq> []" using assms(1) by auto
  have sz: "size (numbered ws) = length ws" by (simp add: numbered_def)
  have w: "with_huffman_tree ws = huffman_loop ?xs" using ne by (simp add: with_huffman_tree_def Let_def)
  have "exact \<longrightarrow> queue_weight (image_mset entry (mset ws)) < 2 ^ 32" using assms(2) by (simp only: entry_facts)
  from huffman_loop_tree [OF q ne this] show ?thesis unfolding entry_facts sz w .
qed

lemma with_huffman_tree_short:
  assumes "ws \<noteq> []" "length ws \<le> 129"
  obtains b where "with_huffman_tree ws = Some (Inr b)"
proof -
  have "\<exists>r. with_huffman_tree ws = Some r \<and> (\<forall>e. r = Inl e \<longrightarrow> 129 < length ws)"
    using with_huffman_tree_result [OF assms(1), of False] by (auto split: sum.splits) (metis sum.exhaust)
  with assms(2) that show ?thesis by (metis not_le sum.exhaust)
qed

section \<open>Properties\<close>

text \<open>
  C40: The Huffman construction never panics and returns for every list of weighted scripts: an error for the empty list,
  a builder that can be finalized for at most 129 scripts, and otherwise such a builder or the depth error.
\<close>

theorem huffman_returns:
  "with_huffman_tree [] = Some (Inl BuilderEmptyTree)
   \<and> (\<exists>r. with_huffman_tree (w # ws) = Some r
       \<and> (r = Inl (BuilderInvalidMerkleTreeDepth 128) \<and> length ws \<ge> 129 \<or> (\<exists>b. r = Inr b \<and> is_finalizable b)))"
proof
  show "with_huffman_tree [] = Some (Inl BuilderEmptyTree)" by (simp add: with_huffman_tree_def)
  obtain r where r: "with_huffman_tree (w # ws) = Some r" "case r of
      Inl e \<Rightarrow> e = BuilderInvalidMerkleTreeDepth 128 \<and> 129 < length (w # ws)
    | Inr b \<Rightarrow> \<exists>T n. b = [Some n] \<and> represents n (plain T) \<and> tree_height (plain T) \<le> 128
        \<and> weighted_leaves T = numbered (w # ws) \<and> (False \<longrightarrow> huffman_tree (tips (numbered (w # ws))) T)"
    using with_huffman_tree_result [of "w # ws" False] by blast
  then show "\<exists>r. with_huffman_tree (w # ws) = Some r
       \<and> (r = Inl (BuilderInvalidMerkleTreeDepth 128) \<and> length ws \<ge> 129 \<or> (\<exists>b. r = Inr b \<and> is_finalizable b))"
    by (cases r) (auto simp: is_finalizable_def)
qed

text \<open>
  C18: If the weights add up to less than \<open>2 ^ 32\<close>, the tree that the Huffman construction returns has the given scripts
  with their weights as leaves, and no binary tree with these leaves has a smaller sum of weight times depth.
\<close>

theorem huffman_optimal:
  assumes "with_huffman_tree ws = Some (Inr b)" and "(\<Sum>w \<leftarrow> ws. unat (fst w)) < 2 ^ 32"
  shows "\<exists>T n. b = [Some n] \<and> represents n (plain T) \<and> weighted_leaves T = numbered ws
    \<and> (\<forall>U. weighted_leaves U = numbered ws \<longrightarrow> tree_cost T \<le> tree_cost U)"
proof -
  have "ws \<noteq> []" using assms(1) by (auto simp: with_huffman_tree_def)
  then obtain T n where "b = [Some n]" "represents n (plain T)" "weighted_leaves T = numbered ws" "huffman_tree (tips (numbered ws)) T"
    using with_huffman_tree_result [of ws True] assms by auto
  then show ?thesis using huffman_tree_optimal by metis
qed

theorem huffman_optimal_witness:
  "\<exists>b T n. with_huffman_tree [(3, [0x51]), (2, [0x52]), (5, [0x53])] = Some (Inr b) \<and> b = [Some n] \<and> represents n (plain T)
     \<and> weighted_leaves T = {#(3, [0x51]), (2, [0x52]), (5, [0x53])#} \<and> tree_cost T \<le> 15"
proof -
  let ?ws = "[(3, [0x51]), (2, [0x52]), (5, [0x53])] :: (u32 \<times> bytes) list"
  obtain b where b: "with_huffman_tree ?ws = Some (Inr b)"
    by (rule with_huffman_tree_short [of ?ws]) simp_all
  let ?U = "WFork (WTip 5 [0x53]) (WFork (WTip 3 [0x51]) (WTip 2 [0x52]))"
  have n: "numbered ?ws = {#(3, [0x51]), (2, [0x52]), (5, [0x53])#}" by (simp add: numbered_def)
  have "weighted_leaves ?U = numbered ?ws" by (simp add: n add_mset_commute)
  moreover have "tree_cost ?U = 15" by (simp add: tree_cost_fork)
  moreover have "(\<Sum>w \<leftarrow> ?ws. unat (fst w)) < 2 ^ 32" by simp
  from huffman_optimal [OF b this] obtain T k where "b = [Some k]" "represents k (plain T)" "weighted_leaves T = numbered ?ws"
    "\<forall>U. weighted_leaves U = numbered ?ws \<longrightarrow> tree_cost T \<le> tree_cost U" by blast
  ultimately show ?thesis using b n by metis
qed

end
