(* ===== verification/Sha1.thy ===== *)
theory Sha1
  imports Sha2_Rounds
begin

text \<open>
  SHA-1 (\<open>src/hashes/src/sha1.rs\<close>): the schedule of eighty words filled in place, the loop over its words with the match
  on the index, and the engine of theory Hash_Engine. The reference is FIPS 180-4.
\<close>

section \<open>The code\<close>

definition sha1_schedule :: "bytes \<Rightarrow> u32 list" where
  "sha1_schedule buf =
     fold (\<lambda>i w. w[i := word_rotl 1 (w ! (i - 3) XOR w ! (i - 8) XOR w ! (i - 14) XOR w ! (i - 16))]) [16..<80]
       (overwrite (replicate 80 0) 0 (be_words buf))"

text \<open>The function and the constant of a step, and one turn of the loop.\<close>

definition sha1_choose :: "nat \<Rightarrow> u32 \<Rightarrow> u32 \<Rightarrow> u32 \<Rightarrow> u32 \<times> u32" where
  "sha1_choose i b c d =
     (if i \<le> 19 then ((b AND c) OR (NOT b AND d), 0x5a827999)
      else if i \<le> 39 then (b XOR c XOR d, 0x6ed9eba1)
      else if i \<le> 59 then ((b AND c) OR (b AND d) OR (c AND d), 0x8f1bbcdc)
      else (b XOR c XOR d, 0xca62c1d6))"

type_synonym sha1_regs = "u32 \<times> u32 \<times> u32 \<times> u32 \<times> u32"

fun sha1_turn :: "nat \<times> u32 \<Rightarrow> sha1_regs \<Rightarrow> sha1_regs" where
  "sha1_turn (i, wi) (a, b, c, d, e) =
     (let (f, k) = sha1_choose i b c d;
          new_a = word_rotl 5 a + f + e + k + wi in
      (new_a, a, word_rotl 30 b, c, d))"

definition sha1_process_block :: "u32 list \<Rightarrow> bytes \<Rightarrow> u32 list" where
  "sha1_process_block h buf =
     (let (a, b, c, d, e) = fold sha1_turn (enumerate 0 (sha1_schedule buf)) (h ! 0, h ! 1, h ! 2, h ! 3, h ! 4) in
      h[0 := h ! 0 + a, 1 := h ! 1 + b, 2 := h ! 2 + c, 3 := h ! 3 + d, 4 := h ! 4 + e])"

definition sha1_iv :: "u32 list" where
  "sha1_iv = [0x67452301, 0xefcdab89, 0x98badcfe, 0x10325476, 0xc3d2e1f0]"

type_synonym sha1_engine = "u32 list engine"

definition sha1_engine_default :: sha1_engine where
  "sha1_engine_default = new_engine 64 sha1_iv"

definition sha1_input :: "sha1_engine \<Rightarrow> bytes \<Rightarrow> sha1_engine" where
  "sha1_input = engine_input 64 sha1_process_block"

definition sha1_midstate :: "sha1_engine \<Rightarrow> bytes" where
  "sha1_midstate e = concat (map to_be_bytes (hstate e))"

definition sha1_len_field :: "nat \<Rightarrow> bytes list" where
  "sha1_len_field data_len = [to_be_bytes (8 * of_nat data_len :: u64)]"

definition sha1_from_engine :: "sha1_engine \<Rightarrow> bytes" where
  "sha1_from_engine e = sha1_midstate (engine_finish 64 8 sha1_len_field sha1_process_block e)"

definition sha1_hash :: "bytes \<Rightarrow> bytes" where
  "sha1_hash = hash_trait_hash sha1_input sha1_from_engine sha1_engine_default"

section \<open>The reference\<close>

fun fips1_schedule :: "u32 list \<Rightarrow> nat \<Rightarrow> u32" where
  "fips1_schedule M t =
     (if t < 16 then M ! t
      else word_rotl 1 (fips1_schedule M (t - 3) XOR fips1_schedule M (t - 8) XOR fips1_schedule M (t - 14) XOR fips1_schedule M (t - 16)))"

declare fips1_schedule.simps [simp del]

definition fips1_f :: "nat \<Rightarrow> u32 \<Rightarrow> u32 \<Rightarrow> u32 \<Rightarrow> u32" where
  "fips1_f t x y z =
     (if t < 20 then (x AND y) XOR (NOT x AND z)
      else if 40 \<le> t \<and> t < 60 then (x AND y) XOR (x AND z) XOR (y AND z)
      else x XOR y XOR z)"

definition fips1_K :: "u32 list" where
  "fips1_K = [0x5a827999, 0x6ed9eba1, 0x8f1bbcdc, 0xca62c1d6]"

definition fips1_step :: "u32 \<Rightarrow> nat \<Rightarrow> u32 list \<Rightarrow> u32 list" where
  "fips1_step w t S =
     [word_rotl 5 (S ! 0) + fips1_f t (S ! 1) (S ! 2) (S ! 3) + S ! 4 + fips1_K ! (t div 20) + w, S ! 0, word_rotl 30 (S ! 1), S ! 2, S ! 3]"

definition fips1_block :: "u32 list \<Rightarrow> bytes \<Rightarrow> u32 list" where
  "fips1_block h b = map2 (+) h (fold (\<lambda>t. fips1_step (fips1_schedule (fips_words b) t) t) [0..<80] h)"

definition fips1_iv :: "u32 list" where
  "fips1_iv = [0x67452301, 0xEFCDAB89, 0x98BADCFE, 0x10325476, 0xC3D2E1F0]"

definition fips_sha1 :: "bytes \<Rightarrow> bytes" where
  "fips_sha1 m = concat (map to_be_bytes (absorb 64 fips1_block fips1_iv (md_pad 64 8 (\<lambda>n. [to_be_bytes (of_nat (8 * n) :: u64)]) (length m) m)))"

section \<open>The code computes the reference\<close>

definition sha1_expand :: "nat \<Rightarrow> u32 list \<Rightarrow> u32 list" where
  "sha1_expand i w = w[i := word_rotl 1 (w ! (i - 3) XOR w ! (i - 8) XOR w ! (i - 14) XOR w ! (i - 16))]"

lemma sha1_schedule_prefix:
  assumes M: "length (M :: u32 list) = 16" and n: "16 \<le> n" "n \<le> 80"
  shows "length (fold sha1_expand [16..<n] (overwrite (replicate 80 0) 0 M)) = 80
    \<and> (\<forall>t<n. fold sha1_expand [16..<n] (overwrite (replicate 80 0) 0 M) ! t = fips1_schedule M t)"
  using n
proof (induction n rule: nat_induct_at_least)
  case base
  have "overwrite (replicate 80 0) 0 M = M @ replicate 64 0" using M by (simp add: overwrite_def)
  then show ?case using M by (simp add: fips1_schedule.simps nth_append)
next
  case (Suc n)
  then show ?case
    by (auto simp: less_Suc_eq nth_list_update sha1_expand_def fips1_schedule.simps [of M n])
qed

lemma sha1_schedule_fips:
  assumes "length b = 64"
  shows "sha1_schedule b = map (fips1_schedule (fips_words b)) [0..<80]"
proof -
  have words: "be_words b = (fips_words b :: u32 list)" using assms by (intro be_words_places) simp_all
  have len: "length (be_words b :: u32 list) = 16" using assms by (simp add: be_words_def length_chunks_exact)
  have "sha1_schedule b = fold sha1_expand [16..<80] (overwrite (replicate 80 0) 0 (be_words b))"
    by (simp only: sha1_schedule_def sha1_expand_def [abs_def])
  then have "length (sha1_schedule b) = 80 \<and> (\<forall>t<80. sha1_schedule b ! t = fips1_schedule (be_words b) t)"
    using sha1_schedule_prefix [OF len, of 80, OF _ order.refl] by (simp only:) simp
  then show ?thesis by (intro nth_equalityI) (simp_all add: words del: upt_rec_numeral)
qed

lemma fips1_K_at: "fips1_K ! 0 = 0x5a827999" "fips1_K ! 1 = 0x6ed9eba1" "fips1_K ! 2 = 0x8f1bbcdc" "fips1_K ! 3 = 0xca62c1d6"
  by (simp_all add: fips1_K_def)

lemma sha1_turn_step:
  assumes "i < 80"
  shows "let (a, b, c, d, e) = sha1_turn (i, w) (S ! 0, S ! 1, S ! 2, S ! 3, S ! 4) in fips1_step w i S = [a, b, c, d, e]"
proof -
  have f: "(x AND y) OR (NOT x AND z) = (x AND y) XOR (NOT x AND z)" "(x AND y) OR (x AND z) OR (y AND z) = (x AND y) XOR (x AND z) XOR (y AND z)" for x y z :: u32
    by (rule bit_word_eqI; auto simp: bit_simps)+
  consider "i < 20" "i div 20 = 0" | "20 \<le> i" "i < 40" "i div 20 = 1" | "40 \<le> i" "i < 60" "i div 20 = 2" | "60 \<le> i" "i div 20 = 3"
    using assms by linarith
  then show ?thesis
    by cases (simp_all add: f sha1_choose_def fips1_step_def fips1_f_def fips1_K_at del: One_nat_def)
qed

lemma length_fips1_step [simp]: "length (fips1_step w t S) = 5"
  by (simp add: fips1_step_def)

lemma list_of_5:
  assumes "length S = 5"
  shows "[S ! 0, S ! 1, S ! 2, S ! 3, S ! 4] = S"
proof -
  from assms obtain a b c d e where "S = [a, b, c, d, e]" by (auto simp: length_Suc_conv eval_nat_numeral)
  then show ?thesis by simp
qed

lemma sha1_loop:
  assumes "list_all (\<lambda>(i, w). i < 80) iws" and "length S = 5"
  shows "let (a, b, c, d, e) = fold sha1_turn iws (S ! 0, S ! 1, S ! 2, S ! 3, S ! 4) in
    [a, b, c, d, e] = fold (\<lambda>(t, w). fips1_step w t) iws S"
  using assms
proof (induction iws arbitrary: S)
  case Nil
  then show ?case by (simp add: list_of_5 del: One_nat_def)
next
  case (Cons x iws)
  obtain i w where x: "x = (i, w)" by force
  let ?S = "fips1_step w i S"
  from Cons.prems have "sha1_turn (i, w) (S ! 0, S ! 1, S ! 2, S ! 3, S ! 4) = (?S ! 0, ?S ! 1, ?S ! 2, ?S ! 3, ?S ! 4)"
    using sha1_turn_step [of i w S] by (auto simp: x Let_def split: prod.splits)
  with Cons show ?case by (simp add: x)
qed

lemma fold_enumerate_map:
  "fold f (enumerate 0 (map g [0..<n])) s = fold (\<lambda>t. f (t, g t)) [0..<n] s"
proof -
  have "enumerate 0 (map g [0..<n]) = map (\<lambda>t. (t, g t)) [0..<n]"
    by (rule nth_equalityI) (simp_all add: nth_enumerate_eq)
  then show ?thesis by (simp add: fold_map comp_def)
qed

lemma sha1_block_agrees:
  assumes "length h = 5" "length b = 64"
  shows "sha1_process_block h b = fips1_block h b \<and> length (fips1_block h b) = 5"
proof -
  let ?iws = "enumerate 0 (sha1_schedule b)"
  obtain a b' c d e where r: "fold sha1_turn ?iws (h ! 0, h ! 1, h ! 2, h ! 3, h ! 4) = (a, b', c, d, e)" by (metis prod_cases5)
  have "list_all (\<lambda>(i, w). i < 80) ?iws" using assms(2)
    by (auto simp: list_all_iff in_set_enumerate_eq sha1_schedule_fips)
  from sha1_loop [OF this assms(1)] r have "[a, b', c, d, e] = fold (\<lambda>(t, w). fips1_step w t) ?iws h" by simp
  then have F: "fold (\<lambda>t. fips1_step (fips1_schedule (fips_words b) t) t) [0..<80] h = [a, b', c, d, e]"
    by (simp only: sha1_schedule_fips [OF assms(2)] fold_enumerate_map prod.case)
  obtain h0 h1 h2 h3 h4 where h: "h = [h0, h1, h2, h3, h4]" using list_of_5 [OF assms(1)] by metis
  have "fips1_block h b = [h0 + a, h1 + b', h2 + c, h3 + d, h4 + e]" unfolding fips1_block_def F by (simp add: h)
  moreover have "sha1_process_block h b = [h0 + a, h1 + b', h2 + c, h3 + d, h4 + e]" unfolding sha1_process_block_def r by (simp add: h)
  ultimately show ?thesis by simp
qed

interpretation sha1_blocks: block_hash 64 8 sha1_len_field sha1_process_block
  by unfold_locales (simp_all add: sha1_len_field_def length_to_be_bytes)

lemma sha1_iv_fips: "sha1_iv = fips1_iv"
  by (simp add: sha1_iv_def fips1_iv_def)

lemma absorb_sha1:
  "absorb 64 sha1_process_block sha1_iv m = absorb 64 fips1_block fips1_iv m \<and> length (absorb 64 fips1_block fips1_iv m) = 5"
  by (unfold sha1_iv_fips, rule absorb_agree [of 5 64, OF sha1_block_agrees]) (simp_all add: fips1_iv_def)

lemma sha1_chunks: "hash_byte_chunks sha1_input sha1_from_engine sha1_engine_default cs = fips_sha1 (concat cs)"
  using sha1_blocks.hash_chunks_absorbs [of cs sha1_iv]
  by (simp add: hash_byte_chunks_def sha1_input_def sha1_from_engine_def sha1_midstate_def
      sha1_engine_default_def fips_sha1_def absorb_sha1 sha1_len_field_def [abs_def])

text \<open>The SHA-1 engine, with the data split over calls of \<open>input\<close> in any way, gives the digest of FIPS 180-4.\<close>

theorem sha1_engine_correct:
  "hash_byte_chunks sha1_input sha1_from_engine sha1_engine_default cs = fips_sha1 (concat cs)
   \<and> sha1_hash (concat cs) = fips_sha1 (concat cs)"
proof
  show "sha1_hash (concat cs) = fips_sha1 (concat cs)"
    using sha1_chunks [of "[concat cs]"] by (simp add: sha1_hash_def hash_trait_hash_def hash_byte_chunks_def)
qed (rule sha1_chunks)

end
