(* ===== verification/Sha512.thy ===== *)
theory Sha512
  imports Sha2_Rounds
begin

text \<open>
  SHA-512 (\<open>src/hashes/src/sha512.rs\<close>) and the two truncations of it, SHA-384 (\<open>sha384.rs\<close>) and SHA-512/256
  (\<open>sha512_256.rs\<close>), on the engine of \<open>Hash_Engine\<close> and the rounds of \<open>Sha2_Rounds\<close>. The length field has sixteen
  bytes, of which the code fills the last eight with the bit count modulo \<open>2 ^ 64\<close>.
\<close>

section \<open>The functions of the rounds\<close>

definition Ch_64 :: "u64 \<Rightarrow> u64 \<Rightarrow> u64 \<Rightarrow> u64" where
  "Ch_64 x y z = z XOR (x AND (y XOR z))"

definition Maj_64 :: "u64 \<Rightarrow> u64 \<Rightarrow> u64 \<Rightarrow> u64" where
  "Maj_64 x y z = (x AND y) OR (z AND (x OR y))"

definition Sigma0_64 :: "u64 \<Rightarrow> u64" where
  "Sigma0_64 x = word_rotl 36 x XOR word_rotl 30 x XOR word_rotl 25 x"

definition Sigma1_64 :: "u64 \<Rightarrow> u64" where
  "Sigma1_64 x = word_rotl 50 x XOR word_rotl 46 x XOR word_rotl 23 x"

definition sigma0_64 :: "u64 \<Rightarrow> u64" where
  "sigma0_64 x = word_rotl 63 x XOR word_rotl 56 x XOR drop_bit 7 x"

definition sigma1_64 :: "u64 \<Rightarrow> u64" where
  "sigma1_64 x = word_rotl 45 x XOR word_rotl 3 x XOR drop_bit 6 x"

definition sha512_funs :: "u64 sha2_funs" where
  "sha512_funs = \<lparr> f_Ch = Ch_64, f_Maj = Maj_64, f_Sigma0 = Sigma0_64, f_Sigma1 = Sigma1_64,
                   f_sigma0 = sigma0_64, f_sigma1 = sigma1_64 \<rparr>"

text \<open>The calls of \<open>round!\<close>, registers \<open>a, ..., h\<close> numbered from 0.\<close>

definition sha512_calls :: "u64 round_call list" where
  "sha512_calls =
    [Round [0, 1, 2, 3, 4, 5, 6, 7] 0x428a2f98d728ae22 0,
     Round [7, 0, 1, 2, 3, 4, 5, 6] 0x7137449123ef65cd 1,
     Round [6, 7, 0, 1, 2, 3, 4, 5] 0xb5c0fbcfec4d3b2f 2,
     Round [5, 6, 7, 0, 1, 2, 3, 4] 0xe9b5dba58189dbbc 3,
     Round [4, 5, 6, 7, 0, 1, 2, 3] 0x3956c25bf348b538 4,
     Round [3, 4, 5, 6, 7, 0, 1, 2] 0x59f111f1b605d019 5,
     Round [2, 3, 4, 5, 6, 7, 0, 1] 0x923f82a4af194f9b 6,
     Round [1, 2, 3, 4, 5, 6, 7, 0] 0xab1c5ed5da6d8118 7,
     Round [0, 1, 2, 3, 4, 5, 6, 7] 0xd807aa98a3030242 8,
     Round [7, 0, 1, 2, 3, 4, 5, 6] 0x12835b0145706fbe 9,
     Round [6, 7, 0, 1, 2, 3, 4, 5] 0x243185be4ee4b28c 10,
     Round [5, 6, 7, 0, 1, 2, 3, 4] 0x550c7dc3d5ffb4e2 11,
     Round [4, 5, 6, 7, 0, 1, 2, 3] 0x72be5d74f27b896f 12,
     Round [3, 4, 5, 6, 7, 0, 1, 2] 0x80deb1fe3b1696b1 13,
     Round [2, 3, 4, 5, 6, 7, 0, 1] 0x9bdc06a725c71235 14,
     Round [1, 2, 3, 4, 5, 6, 7, 0] 0xc19bf174cf692694 15,
     LaterRound [0, 1, 2, 3, 4, 5, 6, 7] 0xe49b69c19ef14ad2 0 14 9 1,
     LaterRound [7, 0, 1, 2, 3, 4, 5, 6] 0xefbe4786384f25e3 1 15 10 2,
     LaterRound [6, 7, 0, 1, 2, 3, 4, 5] 0x0fc19dc68b8cd5b5 2 0 11 3,
     LaterRound [5, 6, 7, 0, 1, 2, 3, 4] 0x240ca1cc77ac9c65 3 1 12 4,
     LaterRound [4, 5, 6, 7, 0, 1, 2, 3] 0x2de92c6f592b0275 4 2 13 5,
     LaterRound [3, 4, 5, 6, 7, 0, 1, 2] 0x4a7484aa6ea6e483 5 3 14 6,
     LaterRound [2, 3, 4, 5, 6, 7, 0, 1] 0x5cb0a9dcbd41fbd4 6 4 15 7,
     LaterRound [1, 2, 3, 4, 5, 6, 7, 0] 0x76f988da831153b5 7 5 0 8,
     LaterRound [0, 1, 2, 3, 4, 5, 6, 7] 0x983e5152ee66dfab 8 6 1 9,
     LaterRound [7, 0, 1, 2, 3, 4, 5, 6] 0xa831c66d2db43210 9 7 2 10,
     LaterRound [6, 7, 0, 1, 2, 3, 4, 5] 0xb00327c898fb213f 10 8 3 11,
     LaterRound [5, 6, 7, 0, 1, 2, 3, 4] 0xbf597fc7beef0ee4 11 9 4 12,
     LaterRound [4, 5, 6, 7, 0, 1, 2, 3] 0xc6e00bf33da88fc2 12 10 5 13,
     LaterRound [3, 4, 5, 6, 7, 0, 1, 2] 0xd5a79147930aa725 13 11 6 14,
     LaterRound [2, 3, 4, 5, 6, 7, 0, 1] 0x06ca6351e003826f 14 12 7 15,
     LaterRound [1, 2, 3, 4, 5, 6, 7, 0] 0x142929670a0e6e70 15 13 8 0,
     LaterRound [0, 1, 2, 3, 4, 5, 6, 7] 0x27b70a8546d22ffc 0 14 9 1,
     LaterRound [7, 0, 1, 2, 3, 4, 5, 6] 0x2e1b21385c26c926 1 15 10 2,
     LaterRound [6, 7, 0, 1, 2, 3, 4, 5] 0x4d2c6dfc5ac42aed 2 0 11 3,
     LaterRound [5, 6, 7, 0, 1, 2, 3, 4] 0x53380d139d95b3df 3 1 12 4,
     LaterRound [4, 5, 6, 7, 0, 1, 2, 3] 0x650a73548baf63de 4 2 13 5,
     LaterRound [3, 4, 5, 6, 7, 0, 1, 2] 0x766a0abb3c77b2a8 5 3 14 6,
     LaterRound [2, 3, 4, 5, 6, 7, 0, 1] 0x81c2c92e47edaee6 6 4 15 7,
     LaterRound [1, 2, 3, 4, 5, 6, 7, 0] 0x92722c851482353b 7 5 0 8,
     LaterRound [0, 1, 2, 3, 4, 5, 6, 7] 0xa2bfe8a14cf10364 8 6 1 9,
     LaterRound [7, 0, 1, 2, 3, 4, 5, 6] 0xa81a664bbc423001 9 7 2 10,
     LaterRound [6, 7, 0, 1, 2, 3, 4, 5] 0xc24b8b70d0f89791 10 8 3 11,
     LaterRound [5, 6, 7, 0, 1, 2, 3, 4] 0xc76c51a30654be30 11 9 4 12,
     LaterRound [4, 5, 6, 7, 0, 1, 2, 3] 0xd192e819d6ef5218 12 10 5 13,
     LaterRound [3, 4, 5, 6, 7, 0, 1, 2] 0xd69906245565a910 13 11 6 14,
     LaterRound [2, 3, 4, 5, 6, 7, 0, 1] 0xf40e35855771202a 14 12 7 15,
     LaterRound [1, 2, 3, 4, 5, 6, 7, 0] 0x106aa07032bbd1b8 15 13 8 0,
     LaterRound [0, 1, 2, 3, 4, 5, 6, 7] 0x19a4c116b8d2d0c8 0 14 9 1,
     LaterRound [7, 0, 1, 2, 3, 4, 5, 6] 0x1e376c085141ab53 1 15 10 2,
     LaterRound [6, 7, 0, 1, 2, 3, 4, 5] 0x2748774cdf8eeb99 2 0 11 3,
     LaterRound [5, 6, 7, 0, 1, 2, 3, 4] 0x34b0bcb5e19b48a8 3 1 12 4,
     LaterRound [4, 5, 6, 7, 0, 1, 2, 3] 0x391c0cb3c5c95a63 4 2 13 5,
     LaterRound [3, 4, 5, 6, 7, 0, 1, 2] 0x4ed8aa4ae3418acb 5 3 14 6,
     LaterRound [2, 3, 4, 5, 6, 7, 0, 1] 0x5b9cca4f7763e373 6 4 15 7,
     LaterRound [1, 2, 3, 4, 5, 6, 7, 0] 0x682e6ff3d6b2b8a3 7 5 0 8,
     LaterRound [0, 1, 2, 3, 4, 5, 6, 7] 0x748f82ee5defb2fc 8 6 1 9,
     LaterRound [7, 0, 1, 2, 3, 4, 5, 6] 0x78a5636f43172f60 9 7 2 10,
     LaterRound [6, 7, 0, 1, 2, 3, 4, 5] 0x84c87814a1f0ab72 10 8 3 11,
     LaterRound [5, 6, 7, 0, 1, 2, 3, 4] 0x8cc702081a6439ec 11 9 4 12,
     LaterRound [4, 5, 6, 7, 0, 1, 2, 3] 0x90befffa23631e28 12 10 5 13,
     LaterRound [3, 4, 5, 6, 7, 0, 1, 2] 0xa4506cebde82bde9 13 11 6 14,
     LaterRound [2, 3, 4, 5, 6, 7, 0, 1] 0xbef9a3f7b2c67915 14 12 7 15,
     LaterRound [1, 2, 3, 4, 5, 6, 7, 0] 0xc67178f2e372532b 15 13 8 0,
     LaterRound [0, 1, 2, 3, 4, 5, 6, 7] 0xca273eceea26619c 0 14 9 1,
     LaterRound [7, 0, 1, 2, 3, 4, 5, 6] 0xd186b8c721c0c207 1 15 10 2,
     LaterRound [6, 7, 0, 1, 2, 3, 4, 5] 0xeada7dd6cde0eb1e 2 0 11 3,
     LaterRound [5, 6, 7, 0, 1, 2, 3, 4] 0xf57d4f7fee6ed178 3 1 12 4,
     LaterRound [4, 5, 6, 7, 0, 1, 2, 3] 0x06f067aa72176fba 4 2 13 5,
     LaterRound [3, 4, 5, 6, 7, 0, 1, 2] 0x0a637dc5a2c898a6 5 3 14 6,
     LaterRound [2, 3, 4, 5, 6, 7, 0, 1] 0x113f9804bef90dae 6 4 15 7,
     LaterRound [1, 2, 3, 4, 5, 6, 7, 0] 0x1b710b35131c471b 7 5 0 8,
     LaterRound [0, 1, 2, 3, 4, 5, 6, 7] 0x28db77f523047d84 8 6 1 9,
     LaterRound [7, 0, 1, 2, 3, 4, 5, 6] 0x32caab7b40c72493 9 7 2 10,
     LaterRound [6, 7, 0, 1, 2, 3, 4, 5] 0x3c9ebe0a15c9bebc 10 8 3 11,
     LaterRound [5, 6, 7, 0, 1, 2, 3, 4] 0x431d67c49c100d4c 11 9 4 12,
     LaterRound [4, 5, 6, 7, 0, 1, 2, 3] 0x4cc5d4becb3e42b6 12 10 5 13,
     LaterRound [3, 4, 5, 6, 7, 0, 1, 2] 0x597f299cfc657e2a 13 11 6 14,
     LaterRound [2, 3, 4, 5, 6, 7, 0, 1] 0x5fcb6fab3ad6faec 14 12 7 15,
     LaterRound [1, 2, 3, 4, 5, 6, 7, 0] 0x6c44198c4a475817 15 13 8 0]"

section \<open>The engines\<close>

definition sha512_process_block :: "u64 list \<Rightarrow> bytes \<Rightarrow> u64 list" where
  "sha512_process_block h buf = sha2_compress sha512_funs sha512_calls h (be_words buf)"

definition sha512_iv :: "u64 list" where
  "sha512_iv = [0x6a09e667f3bcc908, 0xbb67ae8584caa73b, 0x3c6ef372fe94f82b, 0xa54ff53a5f1d36f1,
                0x510e527fade682d1, 0x9b05688c2b3e6c1f, 0x1f83d9abfb41bd6b, 0x5be0cd19137e2179]"

definition sha512_256_iv :: "u64 list" where
  "sha512_256_iv = [0x22312194fc2bf72c, 0x9f555fa3c84c64c2, 0x2393b86b6f53b151, 0x963877195940eabd,
                    0x96283ee2a88effe3, 0xbe5e1e2553863992, 0x2b0199fc2c85b8aa, 0x0eb72ddc81c52ca2]"

definition sha384_iv :: "u64 list" where
  "sha384_iv = [0xcbbb9d5dc1059ed8, 0x629a292a367cd507, 0x9159015a3070dd17, 0x152fecd8f70e5939,
                0x67332667ffc00b31, 0x8eb44a8768581511, 0xdb0c2e0d64f98fa7, 0x47b5481dbefa4fa4]"

type_synonym sha512_engine = "u64 list engine"

definition sha512_engine_default :: sha512_engine where
  "sha512_engine_default = new_engine 128 sha512_iv"

definition sha512_256_engine_default :: sha512_engine where
  "sha512_256_engine_default = new_engine 128 sha512_256_iv"

definition sha384_engine_default :: sha512_engine where
  "sha384_engine_default = new_engine 128 sha384_iv"

definition sha512_input :: "sha512_engine \<Rightarrow> bytes \<Rightarrow> sha512_engine" where
  "sha512_input = engine_input 128 sha512_process_block"

definition sha512_midstate :: "sha512_engine \<Rightarrow> bytes" where
  "sha512_midstate e = concat (map to_be_bytes (hstate e))"

definition sha512_len_field :: "nat \<Rightarrow> bytes list" where
  "sha512_len_field data_len = [replicate 8 0, to_be_bytes (8 * of_nat data_len :: u64)]"

definition sha512_from_engine :: "sha512_engine \<Rightarrow> bytes" where
  "sha512_from_engine e = sha512_midstate (engine_finish 128 16 sha512_len_field sha512_process_block e)"

definition sha384_from_engine :: "sha512_engine \<Rightarrow> bytes" where
  "sha384_from_engine e = take 48 (sha512_from_engine e)"

definition sha512_256_from_engine :: "sha512_engine \<Rightarrow> bytes" where
  "sha512_256_from_engine e = take 32 (sha512_from_engine e)"

definition sha512_hash :: "bytes \<Rightarrow> bytes" where
  "sha512_hash = hash_trait_hash sha512_input sha512_from_engine sha512_engine_default"

definition sha384_hash :: "bytes \<Rightarrow> bytes" where
  "sha384_hash = hash_trait_hash sha512_input sha384_from_engine sha384_engine_default"

definition sha512_256_hash :: "bytes \<Rightarrow> bytes" where
  "sha512_256_hash = hash_trait_hash sha512_input sha512_256_from_engine sha512_256_engine_default"

section \<open>The reference\<close>

text \<open>
  SHA-512 and its truncations written down from FIPS 180-4 alone. The initial value of SHA-512/256, which the
  standard lists in section 5.3.6.2, is the only one given as a table.
\<close>

definition fips512_K :: "u64 list" where
  "fips512_K = map (root_frac 3) (take 80 first_primes)"

definition fips512_iv :: "u64 list" where
  "fips512_iv = map (root_frac 2) (take 8 first_primes)"

definition fips384_iv :: "u64 list" where
  "fips384_iv = map (root_frac 2) (take 8 (drop 8 first_primes))"

definition fips512_funs :: "u64 sha2_funs" where
  "fips512_funs = \<lparr>
     f_Ch = (\<lambda>x y z. (x AND y) XOR (NOT x AND z)),
     f_Maj = (\<lambda>x y z. (x AND y) XOR (x AND z) XOR (y AND z)),
     f_Sigma0 = (\<lambda>x. word_rotr 28 x XOR word_rotr 34 x XOR word_rotr 39 x),
     f_Sigma1 = (\<lambda>x. word_rotr 14 x XOR word_rotr 18 x XOR word_rotr 41 x),
     f_sigma0 = (\<lambda>x. word_rotr 1 x XOR word_rotr 8 x XOR drop_bit 7 x),
     f_sigma1 = (\<lambda>x. word_rotr 19 x XOR word_rotr 61 x XOR drop_bit 6 x) \<rparr>"

definition fips_sha512_block :: "u64 list \<Rightarrow> bytes \<Rightarrow> u64 list" where
  "fips_sha512_block h b = fips_compress fips512_funs fips512_K h (fips_words b)"

definition fips512_256_iv :: "u64 list" where
  "fips512_256_iv = [0x22312194FC2BF72C, 0x9F555FA3C84C64C2, 0x2393B86B6F53B151, 0x963877195940EABD,
                     0x96283EE2A88EFFE3, 0xBE5E1E2553863992, 0x2B0199FC2C85B8AA, 0x0EB72DDC81C52CA2]"

text \<open>The length of the message in bits as a number of 128 bits.\<close>

definition fips_len_field_128 :: "nat \<Rightarrow> bytes list" where
  "fips_len_field_128 n = [to_be_bytes (of_nat (8 * n) :: 128 word)]"

definition fips_sha512 :: "u64 list \<Rightarrow> nat \<Rightarrow> bytes \<Rightarrow> bytes" where
  "fips_sha512 iv digest_len m = take digest_len (concat (map to_be_bytes
     (absorb 128 fips_sha512_block iv (md_pad 128 16 fips_len_field_128 (length m) m))))"

section \<open>The code computes the reference\<close>

lemma fips512_funs_eq: "sha512_funs = fips512_funs"
proof -
  have "Ch_64 x y z = (x AND y) XOR (NOT x AND z)" for x y z
    by (rule bit_word_eqI) (auto simp: Ch_64_def bit_simps)
  moreover have "Maj_64 x y z = (x AND y) XOR (x AND z) XOR (y AND z)" for x y z
    by (rule bit_word_eqI) (auto simp: Maj_64_def bit_simps)
  ultimately show ?thesis
    by (simp add: sha512_funs_def fips512_funs_def fun_eq_iff Sigma0_64_def Sigma1_64_def sigma0_64_def
        sigma1_64_def word_rotl_eq_word_rotr)
qed

lemma sha512_K_fips: "map round_const sha512_calls = fips512_K"
proof -
  have "list_all2 (\<lambda>p k. root_digits 3 64 p (uint k)) (take 80 first_primes) (map round_const sha512_calls)"
    by code_simp
  then show ?thesis unfolding fips512_K_def by (intro root_fracs [symmetric]) simp
qed

lemma sha512_iv_fips: "sha512_iv = fips512_iv"
proof -
  have "list_all2 (\<lambda>p k. root_digits 2 64 p (uint k)) (take 8 first_primes) sha512_iv"
    by code_simp
  then show ?thesis unfolding fips512_iv_def by (intro root_fracs [symmetric]) simp
qed

lemma sha384_iv_fips: "sha384_iv = fips384_iv"
proof -
  have "list_all2 (\<lambda>p k. root_digits 2 64 p (uint k)) (take 8 (drop 8 first_primes)) sha384_iv"
    by code_simp
  then show ?thesis unfolding fips384_iv_def by (intro root_fracs [symmetric]) simp
qed

lemma sha512_calls_regular: "sha512_calls = regular_calls fips512_K"
proof -
  have "sha512_calls = regular_calls (map round_const sha512_calls)" by code_simp
  then show ?thesis by (simp only: sha512_K_fips)
qed

lemma length_fips512_K: "length fips512_K = 80"
  by (simp add: fips512_K_def first_primes_def)

lemma sha512_process_block_fips:
  assumes "length h = 8" "length b = 128"
  shows "sha512_process_block h b = fips_sha512_block h b"
proof -
  have "be_words b = (fips_words b :: u64 list)" using assms by (intro be_words_places) simp_all
  moreover have "length (fips_words b :: u64 list) = 16" by (simp add: fips_words_def)
  ultimately show ?thesis
    using assms
    by (simp add: sha512_process_block_def fips_sha512_block_def sha512_calls_regular regular_compress
        fips512_funs_eq length_fips512_K)
qed

lemma fips_sha512_block_agrees:
  "\<lbrakk>length h = 8; length b = 128\<rbrakk> \<Longrightarrow> sha512_process_block h b = fips_sha512_block h b \<and> length (fips_sha512_block h b) = 8"
  using sha512_process_block_fips by (simp add: fips_sha512_block_def length_fips_compress)

lemma absorb_fips_512: "length h = 8 \<Longrightarrow> absorb 128 sha512_process_block h m = absorb 128 fips_sha512_block h m"
  and length_absorb_512: "length h = 8 \<Longrightarrow> length (absorb 128 fips_sha512_block h m) = 8"
  using absorb_agree [of 8 128, OF fips_sha512_block_agrees] by simp_all

interpretation sha512_blocks: block_hash 128 16 sha512_len_field sha512_process_block
  by unfold_locales (simp_all add: sha512_len_field_def length_to_be_bytes)

lemma length_ivs: "length sha512_iv = 8" "length sha384_iv = 8" "length sha512_256_iv = 8"
  by (simp_all add: sha512_iv_def sha384_iv_def sha512_256_iv_def)

lemma le_digits_zero: "le_digits k 0 = replicate k 0"
  by (induction k) simp_all

lemma len_field_128:
  assumes "n < 2 ^ 61"
  shows "concat (fips_len_field_128 n) = concat (sha512_len_field n)"
proof -
  have "8 * n < 2 ^ 64" using assms by simp
  then have "8 * n < 2 ^ 128" by (rule less_trans) simp
  then have "unat (of_nat (8 * n) :: 128 word) = 8 * n" unfolding unat_of_nat by (intro mod_less) simp
  moreover have "unat (of_nat (8 * n) :: u64) = 8 * n" unfolding unat_of_nat using \<open>8 * n < 2 ^ 64\<close> by (intro mod_less) simp
  then have "unat (8 * of_nat n :: u64) = 8 * n" by simp
  moreover have "8 * n div 2 ^ (8 * 8) = 0" using \<open>8 * n < 2 ^ 64\<close> by simp
  then have "le_digits (8 + 8) (8 * n) = le_digits 8 (8 * n) @ le_digits 8 0"
    by (simp only: le_digits_add power_256)
  ultimately show ?thesis
    by (simp add: fips_len_field_128_def sha512_len_field_def to_be_bytes_def to_le_bytes_def le_digits_zero)
qed

lemma md_pad_512: "n < 2 ^ 61 \<Longrightarrow> md_pad 128 16 sha512_len_field n m = md_pad 128 16 fips_len_field_128 n m"
  by (simp add: md_pad_def len_field_128)

lemma sha512_engine_fips:
  assumes "length iv = 8" "length (concat cs) < 2 ^ 61"
  shows "take k (sha512_from_engine (fold (\<lambda>c e. sha512_input e c) cs (new_engine 128 iv))) = fips_sha512 iv k (concat cs)"
  using sha512_blocks.hash_chunks_absorbs [of cs iv] md_pad_512 [OF assms(2), of "concat cs"] assms(1)
  by (simp add: sha512_from_engine_def sha512_midstate_def sha512_input_def fips_sha512_def absorb_fips_512)

lemma length_sha512_midstate: "length (hstate e) = 8 \<Longrightarrow> length (sha512_midstate e) = 64"
  by (auto simp: sha512_midstate_def length_concat comp_def length_to_be_bytes sum_list_triv)

lemma length_sha512_from_engine:
  assumes "length iv = 8"
  shows "length (sha512_from_engine (fold (\<lambda>c e. sha512_input e c) cs (new_engine 128 iv))) = 64"
proof -
  have "length (hstate (engine_finish 128 16 sha512_len_field sha512_process_block (fold (\<lambda>c e. sha512_input e c) cs (new_engine 128 iv)))) = 8"
    unfolding sha512_input_def sha512_blocks.hash_chunks_absorbs using assms by (simp add: absorb_fips_512 length_absorb_512)
  then show ?thesis by (simp add: sha512_from_engine_def length_sha512_midstate)
qed

lemma sha512_256_iv_fips: "sha512_256_iv = fips512_256_iv"
  by (simp add: sha512_256_iv_def fips512_256_iv_def)

section \<open>Properties\<close>

text \<open>
  C37: For messages of less than \<open>2 ^ 61\<close> bytes the engines of SHA-512, SHA-384 and SHA-512/256, with the data split over
  calls of \<open>input\<close> in any way, give the digests of FIPS 180-4, whose constants and initial values the reference
  has for itself: fractional parts of roots of primes, and the listed initial value of SHA-512/256.
\<close>

theorem sha512_engine_correct:
  assumes "length (concat cs) < 2 ^ 61"
  shows "hash_byte_chunks sha512_input sha512_from_engine sha512_engine_default cs = fips_sha512 fips512_iv 64 (concat cs)
    \<and> hash_byte_chunks sha512_input sha384_from_engine sha384_engine_default cs = fips_sha512 fips384_iv 48 (concat cs)
    \<and> hash_byte_chunks sha512_input sha512_256_from_engine sha512_256_engine_default cs = fips_sha512 fips512_256_iv 32 (concat cs)
    \<and> sha512_hash (concat cs) = fips_sha512 fips512_iv 64 (concat cs)"
proof -
  note fips = sha512_engine_fips [OF length_ivs(1) assms, of 64] sha512_engine_fips [OF length_ivs(2) assms, of 48]
    sha512_engine_fips [OF length_ivs(3) assms, of 32] sha512_engine_fips [OF length_ivs(1), of "[concat cs]" 64]
  note lens = length_sha512_from_engine [OF length_ivs(1), of cs] length_sha512_from_engine [OF length_ivs(1), of "[concat cs]"]
  show ?thesis
    using fips lens assms
    by (simp add: sha512_iv_fips sha384_iv_fips sha512_256_iv_fips hash_byte_chunks_def
        sha512_engine_default_def sha384_engine_default_def sha512_256_engine_default_def
        sha384_from_engine_def sha512_256_from_engine_def sha512_hash_def hash_trait_hash_def)
qed

theorem sha512_engine_correct_witness:
  "hash_byte_chunks sha512_input sha512_from_engine sha512_engine_default [[97], [98, 99]] = fips_sha512 fips512_iv 64 [97, 98, 99]"
  using sha512_engine_correct [of "[[97], [98, 99]]"] by simp

end
