(* ===== verification/Ripemd160.thy ===== *)
theory Ripemd160
  imports Sha256
begin

text \<open>
  RIPEMD-160 (\<open>src/hashes/src/ripemd160.rs\<close>) and HASH160 (\<open>hash160.rs\<close>). The arguments of the macro \<open>process_block!\<close>
  are data: for each of the two lines eighty calls of \<open>round!\<close> with the order of the registers, the index of the message
  word and the rotation. The reference is the algorithm of its authors: shifting registers, word orders generated by two
  permutations, one table of rotations for both lines, and constants from the roots of the first four primes.
\<close>

section \<open>The code\<close>

text \<open>The macro \<open>round!\<close>: registers by their places, the word, the rotation, the constant and the value of the function.\<close>

definition rmd_round :: "nat list \<Rightarrow> u32 \<Rightarrow> nat \<Rightarrow> u32 \<Rightarrow> u32 \<Rightarrow> u32 list \<Rightarrow> u32 list" where
  "rmd_round v x bits add f R =
     (let R = R[v ! 0 := R ! (v ! 0) + f + x + add];
          R = R[v ! 0 := word_rotl bits (R ! (v ! 0)) + R ! (v ! 4)] in
      R[v ! 2 := word_rotl 10 (R ! (v ! 2))])"

text \<open>The functions of rounds 1 to 5, numbered from 0, and the constants of the two lines.\<close>

definition rmd_fun :: "nat \<Rightarrow> u32 \<Rightarrow> u32 \<Rightarrow> u32 \<Rightarrow> u32" where
  "rmd_fun r x y z =
     (if r = 0 then x XOR y XOR z
      else if r = 1 then (x AND y) OR (NOT x AND z)
      else if r = 2 then (x OR NOT y) XOR z
      else if r = 3 then (x AND z) OR (y AND NOT z)
      else x XOR (y OR NOT z))"

definition rmd_adds :: "u32 list" where
  "rmd_adds = [0x00000000, 0x5a827999, 0x6ed9eba1, 0x8f1bbcdc, 0xa953fd4e]"

definition rmd_par_adds :: "u32 list" where
  "rmd_par_adds = [0x50a28be6, 0x5c4dd124, 0x6d703ef3, 0x7a6d76e9, 0x00000000]"

type_synonym rmd_call = "nat \<times> nat list \<times> nat \<times> nat"

text \<open>Round, order of the registers, message word and rotation.\<close>

definition rmd_calls :: "rmd_call list" where
  "rmd_calls =
    [(0, [0, 1, 2, 3, 4], 0, 11),
     (0, [4, 0, 1, 2, 3], 1, 14),
     (0, [3, 4, 0, 1, 2], 2, 15),
     (0, [2, 3, 4, 0, 1], 3, 12),
     (0, [1, 2, 3, 4, 0], 4, 5),
     (0, [0, 1, 2, 3, 4], 5, 8),
     (0, [4, 0, 1, 2, 3], 6, 7),
     (0, [3, 4, 0, 1, 2], 7, 9),
     (0, [2, 3, 4, 0, 1], 8, 11),
     (0, [1, 2, 3, 4, 0], 9, 13),
     (0, [0, 1, 2, 3, 4], 10, 14),
     (0, [4, 0, 1, 2, 3], 11, 15),
     (0, [3, 4, 0, 1, 2], 12, 6),
     (0, [2, 3, 4, 0, 1], 13, 7),
     (0, [1, 2, 3, 4, 0], 14, 9),
     (0, [0, 1, 2, 3, 4], 15, 8),
     (1, [4, 0, 1, 2, 3], 7, 7),
     (1, [3, 4, 0, 1, 2], 4, 6),
     (1, [2, 3, 4, 0, 1], 13, 8),
     (1, [1, 2, 3, 4, 0], 1, 13),
     (1, [0, 1, 2, 3, 4], 10, 11),
     (1, [4, 0, 1, 2, 3], 6, 9),
     (1, [3, 4, 0, 1, 2], 15, 7),
     (1, [2, 3, 4, 0, 1], 3, 15),
     (1, [1, 2, 3, 4, 0], 12, 7),
     (1, [0, 1, 2, 3, 4], 0, 12),
     (1, [4, 0, 1, 2, 3], 9, 15),
     (1, [3, 4, 0, 1, 2], 5, 9),
     (1, [2, 3, 4, 0, 1], 2, 11),
     (1, [1, 2, 3, 4, 0], 14, 7),
     (1, [0, 1, 2, 3, 4], 11, 13),
     (1, [4, 0, 1, 2, 3], 8, 12),
     (2, [3, 4, 0, 1, 2], 3, 11),
     (2, [2, 3, 4, 0, 1], 10, 13),
     (2, [1, 2, 3, 4, 0], 14, 6),
     (2, [0, 1, 2, 3, 4], 4, 7),
     (2, [4, 0, 1, 2, 3], 9, 14),
     (2, [3, 4, 0, 1, 2], 15, 9),
     (2, [2, 3, 4, 0, 1], 8, 13),
     (2, [1, 2, 3, 4, 0], 1, 15),
     (2, [0, 1, 2, 3, 4], 2, 14),
     (2, [4, 0, 1, 2, 3], 7, 8),
     (2, [3, 4, 0, 1, 2], 0, 13),
     (2, [2, 3, 4, 0, 1], 6, 6),
     (2, [1, 2, 3, 4, 0], 13, 5),
     (2, [0, 1, 2, 3, 4], 11, 12),
     (2, [4, 0, 1, 2, 3], 5, 7),
     (2, [3, 4, 0, 1, 2], 12, 5),
     (3, [2, 3, 4, 0, 1], 1, 11),
     (3, [1, 2, 3, 4, 0], 9, 12),
     (3, [0, 1, 2, 3, 4], 11, 14),
     (3, [4, 0, 1, 2, 3], 10, 15),
     (3, [3, 4, 0, 1, 2], 0, 14),
     (3, [2, 3, 4, 0, 1], 8, 15),
     (3, [1, 2, 3, 4, 0], 12, 9),
     (3, [0, 1, 2, 3, 4], 4, 8),
     (3, [4, 0, 1, 2, 3], 13, 9),
     (3, [3, 4, 0, 1, 2], 3, 14),
     (3, [2, 3, 4, 0, 1], 7, 5),
     (3, [1, 2, 3, 4, 0], 15, 6),
     (3, [0, 1, 2, 3, 4], 14, 8),
     (3, [4, 0, 1, 2, 3], 5, 6),
     (3, [3, 4, 0, 1, 2], 6, 5),
     (3, [2, 3, 4, 0, 1], 2, 12),
     (4, [1, 2, 3, 4, 0], 4, 9),
     (4, [0, 1, 2, 3, 4], 0, 15),
     (4, [4, 0, 1, 2, 3], 5, 5),
     (4, [3, 4, 0, 1, 2], 9, 11),
     (4, [2, 3, 4, 0, 1], 7, 6),
     (4, [1, 2, 3, 4, 0], 12, 8),
     (4, [0, 1, 2, 3, 4], 2, 13),
     (4, [4, 0, 1, 2, 3], 10, 12),
     (4, [3, 4, 0, 1, 2], 14, 5),
     (4, [2, 3, 4, 0, 1], 1, 12),
     (4, [1, 2, 3, 4, 0], 3, 13),
     (4, [0, 1, 2, 3, 4], 8, 14),
     (4, [4, 0, 1, 2, 3], 11, 11),
     (4, [3, 4, 0, 1, 2], 6, 8),
     (4, [2, 3, 4, 0, 1], 15, 5),
     (4, [1, 2, 3, 4, 0], 13, 6)]"

definition rmd_par_calls :: "rmd_call list" where
  "rmd_par_calls =
    [(0, [0, 1, 2, 3, 4], 5, 8),
     (0, [4, 0, 1, 2, 3], 14, 9),
     (0, [3, 4, 0, 1, 2], 7, 9),
     (0, [2, 3, 4, 0, 1], 0, 11),
     (0, [1, 2, 3, 4, 0], 9, 13),
     (0, [0, 1, 2, 3, 4], 2, 15),
     (0, [4, 0, 1, 2, 3], 11, 15),
     (0, [3, 4, 0, 1, 2], 4, 5),
     (0, [2, 3, 4, 0, 1], 13, 7),
     (0, [1, 2, 3, 4, 0], 6, 7),
     (0, [0, 1, 2, 3, 4], 15, 8),
     (0, [4, 0, 1, 2, 3], 8, 11),
     (0, [3, 4, 0, 1, 2], 1, 14),
     (0, [2, 3, 4, 0, 1], 10, 14),
     (0, [1, 2, 3, 4, 0], 3, 12),
     (0, [0, 1, 2, 3, 4], 12, 6),
     (1, [4, 0, 1, 2, 3], 6, 9),
     (1, [3, 4, 0, 1, 2], 11, 13),
     (1, [2, 3, 4, 0, 1], 3, 15),
     (1, [1, 2, 3, 4, 0], 7, 7),
     (1, [0, 1, 2, 3, 4], 0, 12),
     (1, [4, 0, 1, 2, 3], 13, 8),
     (1, [3, 4, 0, 1, 2], 5, 9),
     (1, [2, 3, 4, 0, 1], 10, 11),
     (1, [1, 2, 3, 4, 0], 14, 7),
     (1, [0, 1, 2, 3, 4], 15, 7),
     (1, [4, 0, 1, 2, 3], 8, 12),
     (1, [3, 4, 0, 1, 2], 12, 7),
     (1, [2, 3, 4, 0, 1], 4, 6),
     (1, [1, 2, 3, 4, 0], 9, 15),
     (1, [0, 1, 2, 3, 4], 1, 13),
     (1, [4, 0, 1, 2, 3], 2, 11),
     (2, [3, 4, 0, 1, 2], 15, 9),
     (2, [2, 3, 4, 0, 1], 5, 7),
     (2, [1, 2, 3, 4, 0], 1, 15),
     (2, [0, 1, 2, 3, 4], 3, 11),
     (2, [4, 0, 1, 2, 3], 7, 8),
     (2, [3, 4, 0, 1, 2], 14, 6),
     (2, [2, 3, 4, 0, 1], 6, 6),
     (2, [1, 2, 3, 4, 0], 9, 14),
     (2, [0, 1, 2, 3, 4], 11, 12),
     (2, [4, 0, 1, 2, 3], 8, 13),
     (2, [3, 4, 0, 1, 2], 12, 5),
     (2, [2, 3, 4, 0, 1], 2, 14),
     (2, [1, 2, 3, 4, 0], 10, 13),
     (2, [0, 1, 2, 3, 4], 0, 13),
     (2, [4, 0, 1, 2, 3], 4, 7),
     (2, [3, 4, 0, 1, 2], 13, 5),
     (3, [2, 3, 4, 0, 1], 8, 15),
     (3, [1, 2, 3, 4, 0], 6, 5),
     (3, [0, 1, 2, 3, 4], 4, 8),
     (3, [4, 0, 1, 2, 3], 1, 11),
     (3, [3, 4, 0, 1, 2], 3, 14),
     (3, [2, 3, 4, 0, 1], 11, 14),
     (3, [1, 2, 3, 4, 0], 15, 6),
     (3, [0, 1, 2, 3, 4], 0, 14),
     (3, [4, 0, 1, 2, 3], 5, 6),
     (3, [3, 4, 0, 1, 2], 12, 9),
     (3, [2, 3, 4, 0, 1], 2, 12),
     (3, [1, 2, 3, 4, 0], 13, 9),
     (3, [0, 1, 2, 3, 4], 9, 12),
     (3, [4, 0, 1, 2, 3], 7, 5),
     (3, [3, 4, 0, 1, 2], 10, 15),
     (3, [2, 3, 4, 0, 1], 14, 8),
     (4, [1, 2, 3, 4, 0], 12, 8),
     (4, [0, 1, 2, 3, 4], 15, 5),
     (4, [4, 0, 1, 2, 3], 10, 12),
     (4, [3, 4, 0, 1, 2], 4, 9),
     (4, [2, 3, 4, 0, 1], 1, 12),
     (4, [1, 2, 3, 4, 0], 5, 5),
     (4, [0, 1, 2, 3, 4], 8, 14),
     (4, [4, 0, 1, 2, 3], 7, 6),
     (4, [3, 4, 0, 1, 2], 6, 8),
     (4, [2, 3, 4, 0, 1], 2, 13),
     (4, [1, 2, 3, 4, 0], 13, 6),
     (4, [0, 1, 2, 3, 4], 14, 5),
     (4, [4, 0, 1, 2, 3], 0, 15),
     (4, [3, 4, 0, 1, 2], 3, 13),
     (4, [2, 3, 4, 0, 1], 9, 11),
     (4, [1, 2, 3, 4, 0], 11, 11)]"

definition rmd_left_call :: "u32 list \<Rightarrow> rmd_call \<Rightarrow> u32 list \<Rightarrow> u32 list" where
  "rmd_left_call w = (\<lambda>(r, v, i, bits) bb.
     rmd_round v (w ! i) bits (rmd_adds ! r) (rmd_fun r (bb ! (v ! 1)) (bb ! (v ! 2)) (bb ! (v ! 3))) bb)"

definition rmd_right_call :: "u32 list \<Rightarrow> rmd_call \<Rightarrow> u32 list \<Rightarrow> u32 list" where
  "rmd_right_call w = (\<lambda>(r, v, i, bits) bbb.
     rmd_round v (w ! i) bits (rmd_par_adds ! r) (rmd_fun (4 - r) (bbb ! (v ! 1)) (bbb ! (v ! 2)) (bbb ! (v ! 3))) bbb)"

definition rmd_combine :: "u32 list \<Rightarrow> u32 list \<Rightarrow> u32 list \<Rightarrow> u32 list" where
  "rmd_combine h bb bbb =
     (let bbb = bbb[3 := bbb ! 3 + h ! 1 + bb ! 2];
          h = h[1 := h ! 2 + bb ! 3 + bbb ! 4];
          h = h[2 := h ! 3 + bb ! 4 + bbb ! 0];
          h = h[3 := h ! 4 + bb ! 0 + bbb ! 1];
          h = h[4 := h ! 0 + bb ! 1 + bbb ! 2] in
      h[0 := bbb ! 3])"

definition le_words :: "bytes \<Rightarrow> u32 list" where
  "le_words bs = map from_le_bytes (chunks_exact 4 bs)"

definition rmd_process_block :: "u32 list \<Rightarrow> bytes \<Rightarrow> u32 list" where
  "rmd_process_block h buf =
     (let w = le_words buf in
      rmd_combine h (fold (rmd_left_call w) rmd_calls h) (fold (rmd_right_call w) rmd_par_calls h))"

definition rmd_iv :: "u32 list" where
  "rmd_iv = [0x67452301, 0xefcdab89, 0x98badcfe, 0x10325476, 0xc3d2e1f0]"

type_synonym ripemd160_engine = "u32 list engine"

definition ripemd160_engine_default :: ripemd160_engine where
  "ripemd160_engine_default = new_engine 64 rmd_iv"

definition ripemd160_input :: "ripemd160_engine \<Rightarrow> bytes \<Rightarrow> ripemd160_engine" where
  "ripemd160_input = engine_input 64 rmd_process_block"

definition ripemd160_midstate :: "ripemd160_engine \<Rightarrow> bytes" where
  "ripemd160_midstate e = concat (map to_le_bytes (hstate e))"

definition ripemd160_len_field :: "nat \<Rightarrow> bytes list" where
  "ripemd160_len_field data_len = [to_le_bytes (8 * of_nat data_len :: u64)]"

definition ripemd160_from_engine :: "ripemd160_engine \<Rightarrow> bytes" where
  "ripemd160_from_engine e = ripemd160_midstate (engine_finish 64 8 ripemd160_len_field rmd_process_block e)"

definition ripemd160_hash :: "bytes \<Rightarrow> bytes" where
  "ripemd160_hash = hash_trait_hash ripemd160_input ripemd160_from_engine ripemd160_engine_default"

text \<open>The engine of HASH160 is that of SHA-256.\<close>

definition hash160_from_engine :: "sha256_engine \<Rightarrow> bytes" where
  "hash160_from_engine e = (let sha2 = sha256_from_engine e in ripemd160_hash sha2)"

definition hash160_hash :: "bytes \<Rightarrow> bytes" where
  "hash160_hash = hash_trait_hash sha256_input hash160_from_engine sha256_engine_default"

section \<open>The reference\<close>

definition rho :: "nat list" where
  "rho = [7, 4, 13, 1, 10, 6, 15, 3, 12, 0, 9, 5, 2, 14, 11, 8]"

text \<open>The word of step \<open>j\<close>: in round \<open>r\<close> the \<open>r\<close>-th power of \<open>rho\<close>, on the right line after \<open>i \<mapsto> 9 i + 5\<close>.\<close>

definition left_word :: "nat \<Rightarrow> nat" where
  "left_word j = ((\<lambda>i. rho ! i) ^^ (j div 16)) (j mod 16)"

definition right_word :: "nat \<Rightarrow> nat" where
  "right_word j = ((\<lambda>i. rho ! i) ^^ (j div 16)) ((9 * (j mod 16) + 5) mod 16)"

text \<open>Rotations, by round and word.\<close>

definition rotations :: "nat list list" where
  "rotations =
    [[11, 14, 15, 12, 5, 8, 7, 9, 11, 13, 14, 15, 6, 7, 9, 8],
     [12, 13, 11, 15, 6, 9, 9, 7, 12, 15, 11, 13, 7, 8, 7, 7],
     [13, 15, 14, 11, 7, 7, 6, 8, 13, 14, 13, 12, 5, 5, 6, 9],
     [14, 11, 12, 14, 8, 6, 5, 5, 15, 12, 15, 14, 9, 9, 8, 6],
     [15, 12, 13, 13, 9, 5, 8, 6, 14, 11, 12, 11, 8, 6, 5, 5]]"

definition rmd_step :: "(u32 \<Rightarrow> u32 \<Rightarrow> u32 \<Rightarrow> u32) \<Rightarrow> u32 \<Rightarrow> u32 \<Rightarrow> nat \<Rightarrow> u32 list \<Rightarrow> u32 list" where
  "rmd_step f k x s S =
     [S ! 4, word_rotl s (S ! 0 + f (S ! 1) (S ! 2) (S ! 3) + x + k) + S ! 4, S ! 1, word_rotl 10 (S ! 2), S ! 3]"

text \<open>The boolean functions of the five rounds; the right line takes them in the opposite order.\<close>

definition ref_functions :: "(u32 \<Rightarrow> u32 \<Rightarrow> u32 \<Rightarrow> u32) list" where
  "ref_functions =
    [\<lambda>x y z. x XOR y XOR z,
     \<lambda>x y z. (x AND y) OR (NOT x AND z),
     \<lambda>x y z. (x OR NOT y) XOR z,
     \<lambda>x y z. (x AND z) OR (y AND NOT z),
     \<lambda>x y z. x XOR (y OR NOT z)]"

text \<open>The integral part of the \<open>e\<close>-th root of \<open>p\<close> times \<open>2 ^ 30\<close>.\<close>

definition root_int :: "nat \<Rightarrow> int \<Rightarrow> u32" where
  "root_int e p = of_int (GREATEST r. 0 \<le> r \<and> r ^ e \<le> p * 2 ^ (30 * e))"

definition ref_left_adds :: "u32 list" where
  "ref_left_adds = [0, root_int 2 2, root_int 2 3, root_int 2 5, root_int 2 7]"

definition ref_right_adds :: "u32 list" where
  "ref_right_adds = [root_int 3 2, root_int 3 3, root_int 3 5, root_int 3 7, 0]"

definition ref_words :: "bytes \<Rightarrow> u32 list" where
  "ref_words b = map (\<lambda>i. from_le_bytes (take 4 (drop (4 * i) b))) [0..<16]"

definition rmd_reference :: "u32 list \<Rightarrow> bytes \<Rightarrow> u32 list" where
  "rmd_reference h b =
     (let w = ref_words b;
          L = fold (\<lambda>j. rmd_step (ref_functions ! (j div 16)) (ref_left_adds ! (j div 16)) (w ! left_word j)
                (rotations ! (j div 16) ! left_word j)) [0..<80] h;
          R = fold (\<lambda>j. rmd_step (ref_functions ! (4 - j div 16)) (ref_right_adds ! (j div 16)) (w ! right_word j)
                (rotations ! (j div 16) ! right_word j)) [0..<80] h in
      [h ! 1 + L ! 2 + R ! 3, h ! 2 + L ! 3 + R ! 4, h ! 3 + L ! 4 + R ! 0, h ! 4 + L ! 0 + R ! 1, h ! 0 + L ! 1 + R ! 2])"

text \<open>The initial value: the bytes \<open>01 23 45 67\<close>, ..., read little endian as the authors print them.\<close>

definition ref_iv :: "u32 list" where
  "ref_iv = [0x67452301, 0xEFCDAB89, 0x98BADCFE, 0x10325476, 0xC3D2E1F0]"

definition ref_len_field :: "nat \<Rightarrow> bytes list" where
  "ref_len_field n = [to_le_bytes (of_nat (8 * n) :: u64)]"

definition ripemd160_reference :: "bytes \<Rightarrow> bytes" where
  "ripemd160_reference m =
     concat (map to_le_bytes (absorb 64 rmd_reference ref_iv (md_pad 64 8 ref_len_field (length m) m)))"

section \<open>The constants of the code\<close>

lemma root_int_eq:
  fixes k :: u32
  assumes "uint k ^ e \<le> p * 2 ^ (30 * e)" "p * 2 ^ (30 * e) < (uint k + 1) ^ e"
  shows "root_int e p = k"
proof -
  have "(GREATEST r. 0 \<le> r \<and> r ^ e \<le> p * 2 ^ (30 * e)) = uint k"
    using assms by (intro greatest_root) simp_all
  then show ?thesis by (simp add: root_int_def)
qed

lemma rmd_adds_reference: "rmd_adds = ref_left_adds" "rmd_par_adds = ref_right_adds"
proof -
  have "root_int 2 2 = 0x5a827999" "root_int 2 3 = 0x6ed9eba1" "root_int 2 5 = 0x8f1bbcdc" "root_int 2 7 = 0xa953fd4e"
    "root_int 3 2 = 0x50a28be6" "root_int 3 3 = 0x5c4dd124" "root_int 3 5 = 0x6d703ef3" "root_int 3 7 = 0x7a6d76e9"
    by (rule root_int_eq; simp)+
  then show "rmd_adds = ref_left_adds" "rmd_par_adds = ref_right_adds"
    by (simp_all add: rmd_adds_def ref_left_adds_def rmd_par_adds_def ref_right_adds_def)
qed

lemma rmd_fun_reference: "r < 5 \<Longrightarrow> rmd_fun r = ref_functions ! r"
proof -
  assume "r < 5"
  then consider "r = 0" | "r = 1" | "r = 2" | "r = 3" | "r = 4" by linarith
  then show "rmd_fun r = ref_functions ! r"
    by cases (simp_all add: fun_eq_iff rmd_fun_def ref_functions_def)
qed

lemma le_words_reference: "length b = 64 \<Longrightarrow> le_words b = ref_words b"
  using chunks_exact_places [of 4 b 16] by (simp add: le_words_def ref_words_def comp_def)

section \<open>The lines compute the reference\<close>

definition role5 :: "nat \<Rightarrow> nat \<Rightarrow> nat" where
  "role5 i j = (j + (5 - i mod 5)) mod 5"

definition regular_line :: "(nat \<Rightarrow> nat) \<Rightarrow> nat \<Rightarrow> rmd_call" where
  "regular_line word j = (j div 16, map (role5 j) [0..<5], word j, rotations ! (j div 16) ! word j)"

lemma rmd_calls_regular: "rmd_calls = map (regular_line left_word) [0..<80]"
  by code_simp

lemma rmd_par_calls_regular: "rmd_par_calls = map (regular_line right_word) [0..<80]"
  by code_simp

lemma upt_5: "[0..<5] = [0, 1, 2, 3, 4::nat]"
  by (simp add: upt_rec)

lemma list_5: "length R = 5 \<Longrightarrow> \<exists>a b c d e. R = [a, b, c, d, e]"
  by (auto simp: length_Suc_conv eval_nat_numeral)

lemma mod_5_cases: "(i::nat) mod 5 \<in> {0, 1, 2, 3, 4}"
  by (simp only: insert_iff empty_iff) presburger

lemma role5_list: "map (role5 i) [0..<5] ! 1 = role5 i 1" "map (role5 i) [0..<5] ! 2 = role5 i 2" "map (role5 i) [0..<5] ! 3 = role5 i 3"
  by (simp_all add: upt_5)

lemma rmd_round_is_step:
  assumes "length R = 5"
  shows "map (\<lambda>j. rmd_round (map (role5 i) [0..<5]) x s k (f (R ! role5 i 1) (R ! role5 i 2) (R ! role5 i 3)) R ! role5 (Suc i) j) [0..<5]
      = rmd_step f k x s (map (\<lambda>j. R ! role5 i j) [0..<5])"
proof -
  from list_5 [OF assms] obtain a b c d e where R: "R = [a, b, c, d, e]" by blast
  from mod_5_cases [of i] show ?thesis
    by (elim insertE emptyE) (simp_all add: R role5_def upt_5 rmd_round_def rmd_step_def Let_def mod_Suc)
qed

lemma length_rmd_round [simp]: "length (rmd_round v x s k f R) = length R"
  by (simp add: rmd_round_def Let_def)

lemma rmd_line:
  assumes "length h = 5"
  shows "fold (\<lambda>(r, v, i, s) R. rmd_round v (w ! i) s (ks r) (fs r (R ! (v ! 1)) (R ! (v ! 2)) (R ! (v ! 3))) R)
      (map (regular_line word) [0..<80]) h
    = fold (\<lambda>j. rmd_step (fs (j div 16)) (ks (j div 16)) (w ! word j) (rotations ! (j div 16) ! word j)) [0..<80] h"
proof -
  let ?call = "\<lambda>(r, v, i, s) R. rmd_round v (w ! i) s (ks r) (fs r (R ! (v ! 1)) (R ! (v ! 2)) (R ! (v ! 3))) R"
  let ?step = "\<lambda>j. rmd_step (fs (j div 16)) (ks (j div 16)) (w ! word j) (rotations ! (j div 16) ! word j)"
  let ?R = "\<lambda>n. fold ?call (map (regular_line word) [0..<n]) h"
  have "length (?R n) = 5 \<and> map (\<lambda>j. ?R n ! role5 n j) [0..<5] = fold ?step [0..<n] h" for n
  proof (induction n)
    case 0
    then show ?case using assms by (auto simp: role5_def intro!: nth_equalityI)
  next
    case (Suc n)
    have "?R (Suc n) = rmd_round (map (role5 n) [0..<5]) (w ! word n) (rotations ! (n div 16) ! word n) (ks (n div 16))
        (fs (n div 16) (?R n ! role5 n 1) (?R n ! role5 n 2) (?R n ! role5 n 3)) (?R n)"
      by (simp only: upt_Suc map_append list.map fold_append fold.simps regular_line_def le0 if_True prod.case role5_list comp_apply id_apply)
    moreover have "fold ?step [0..<Suc n] h = ?step n (fold ?step [0..<n] h)" by simp
    ultimately show ?case using Suc by (simp only: rmd_round_is_step length_rmd_round)
  qed
  from this [of 80] have l: "length (?R 80) = 5" and eq: "map (\<lambda>j. ?R 80 ! role5 80 j) [0..<5] = fold ?step [0..<80] h" by blast+
  have "map (\<lambda>j. ?R 80 ! role5 80 j) [0..<5] = ?R 80" using l by (intro nth_equalityI) (simp_all add: role5_def)
  with eq show ?thesis by simp
qed

lemma length_rmd_fold: "length h = 5 \<Longrightarrow> length (fold (\<lambda>j. rmd_step (f j) (k j) (x j) (s j)) js h) = 5"
  by (induction js arbitrary: h) (simp_all add: rmd_step_def)

lemma rmd_block_agrees:
  assumes "length h = 5" "length b = 64"
  shows "rmd_process_block h b = rmd_reference h b \<and> length (rmd_reference h b) = 5"
proof -
  let ?w = "ref_words b"
  let ?L = "fold (\<lambda>j. rmd_step (ref_functions ! (j div 16)) (ref_left_adds ! (j div 16)) (?w ! left_word j) (rotations ! (j div 16) ! left_word j)) [0..<80] h"
  let ?R = "fold (\<lambda>j. rmd_step (ref_functions ! (4 - j div 16)) (ref_right_adds ! (j div 16)) (?w ! right_word j) (rotations ! (j div 16) ! right_word j)) [0..<80] h"
  have lens: "length ?L = 5" "length ?R = 5" by (rule length_rmd_fold [OF assms(1)])+
  have L: "?L = fold (\<lambda>j. rmd_step (rmd_fun (j div 16)) (rmd_adds ! (j div 16)) (?w ! left_word j) (rotations ! (j div 16) ! left_word j)) [0..<80] h"
    and R: "?R = fold (\<lambda>j. rmd_step (rmd_fun (4 - j div 16)) (rmd_par_adds ! (j div 16)) (?w ! right_word j) (rotations ! (j div 16) ! right_word j)) [0..<80] h"
    by (rule fold_cong; simp add: rmd_fun_reference rmd_adds_reference del: upt_rec_numeral)+
  have "fold (rmd_left_call ?w) rmd_calls h = ?L" "fold (rmd_right_call ?w) rmd_par_calls h = ?R"
    unfolding rmd_calls_regular rmd_par_calls_regular L R rmd_left_call_def rmd_right_call_def
    using rmd_line [OF assms(1), of ?w "(!) rmd_adds" rmd_fun left_word]
      rmd_line [OF assms(1), of ?w "(!) rmd_par_adds" "\<lambda>r. rmd_fun (4 - r)" right_word]
    by simp_all
  moreover from list_5 [OF assms(1)] obtain a c d e f where h: "h = [a, c, d, e, f]" by blast
  moreover obtain l0 l1 l2 l3 l4 where L: "?L = [l0, l1, l2, l3, l4]" using list_5 [OF lens(1)] by blast
  moreover obtain r0 r1 r2 r3 r4 where R: "?R = [r0, r1, r2, r3, r4]" using list_5 [OF lens(2)] by blast
  ultimately show ?thesis
    using le_words_reference [OF assms(2)]
    by (simp add: rmd_process_block_def rmd_reference_def rmd_combine_def Let_def add.commute add.left_commute)
qed

interpretation ripemd160_blocks: block_hash 64 8 ripemd160_len_field rmd_process_block
  by unfold_locales (simp_all add: ripemd160_len_field_def length_to_le_bytes)

lemma rmd_iv_reference: "rmd_iv = ref_iv"
  by (simp add: rmd_iv_def ref_iv_def)

lemma ripemd160_len_field_reference: "ripemd160_len_field = ref_len_field"
  by (simp add: fun_eq_iff ripemd160_len_field_def ref_len_field_def)

lemma absorb_rmd:
  "absorb 64 rmd_process_block rmd_iv m = absorb 64 rmd_reference ref_iv m \<and> length (absorb 64 rmd_reference ref_iv m) = 5"
  by (unfold rmd_iv_reference, rule absorb_agree [of 5 64, OF rmd_block_agrees]) (simp_all add: ref_iv_def)

lemma ripemd160_chunks: "hash_byte_chunks ripemd160_input ripemd160_from_engine ripemd160_engine_default cs = ripemd160_reference (concat cs)"
  using ripemd160_blocks.hash_chunks_absorbs [of cs rmd_iv]
  by (simp add: hash_byte_chunks_def ripemd160_input_def ripemd160_from_engine_def ripemd160_midstate_def
      ripemd160_engine_default_def ripemd160_reference_def absorb_rmd
      ripemd160_len_field_reference)

lemma ripemd160_hash_reference: "ripemd160_hash m = ripemd160_reference m"
  using ripemd160_chunks [of "[m]"] by (simp add: ripemd160_hash_def hash_trait_hash_def hash_byte_chunks_def)

lemma length_ripemd160_hash [byte_simps]: "length (ripemd160_hash m) = 20"
proof -
  have "length (concat (map to_le_bytes ws)) = 4 * length ws" for ws :: "u32 list"
    by (induction ws) (simp_all add: length_to_le_bytes)
  then show ?thesis by (simp add: ripemd160_hash_reference ripemd160_reference_def absorb_rmd)
qed

section \<open>Properties\<close>

text \<open>
  C38: The RIPEMD-160 engine, with the data split over calls of \<open>input\<close> in any way, computes the algorithm of its authors
  (functions, constants, initial value and padding of its own) on the concatenated data, and HASH160 is RIPEMD-160 of SHA-256.
\<close>

theorem ripemd160_engine_correct:
  "hash_byte_chunks ripemd160_input ripemd160_from_engine ripemd160_engine_default cs = ripemd160_reference (concat cs)
   \<and> ripemd160_hash (concat cs) = ripemd160_reference (concat cs)
   \<and> hash_byte_chunks sha256_input hash160_from_engine sha256_engine_default cs = ripemd160_reference (fips_sha256 (concat cs))"
proof (intro conjI)
  show "hash_byte_chunks sha256_input hash160_from_engine sha256_engine_default cs = ripemd160_reference (fips_sha256 (concat cs))"
    using sha256_chunks_fips [of cs]
    by (simp add: hash_byte_chunks_def hash160_from_engine_def sha256_hash_byte_chunks_def ripemd160_hash_reference)
qed (simp_all only: ripemd160_chunks ripemd160_hash_reference)

end
