(* ===== verification/Hmac.thy ===== *)
theory Hmac
  imports Sha1 Sha512 Ripemd160
begin

text \<open>
  HMAC (\<open>src/hashes/src/hmac.rs\<close>) over any hash of the crate. The trait \<open>Hash\<close> is a record of its engine operations; the
  locale \<open>hash_contract\<close> states what HMAC relies on: hashing does not depend on how the data is split, digests have a fixed
  length of at most a block, and blocks have at most 128 bytes. The block hashes of the crate interpret it.
\<close>

section \<open>The code\<close>

record 'e hash_ops =
  hash_engine :: 'e
  hash_input :: "'e \<Rightarrow> bytes \<Rightarrow> 'e"
  hash_from_engine :: "'e \<Rightarrow> bytes"
  block_size :: nat

definition trait_hash :: "'e hash_ops \<Rightarrow> bytes \<Rightarrow> bytes" where
  "trait_hash T = hash_trait_hash (hash_input T) (hash_from_engine T) (hash_engine T)"

record 'e HmacEngine =
  iengine :: 'e
  oengine :: 'e

text \<open>The loops over \<open>iter_mut().zip(...)\<close> stop at the shorter list.\<close>

definition xor_into :: "bytes \<Rightarrow> bytes \<Rightarrow> bytes" where
  "xor_into pad k = map2 (XOR) pad k @ drop (length k) pad"

text \<open>The slices of the pads panic (\<open>None\<close>) for block sizes above 128.\<close>

definition hmac_new :: "'e hash_ops \<Rightarrow> bytes \<Rightarrow> 'e HmacEngine option" where
  "hmac_new T key =
     (let ipad = replicate 128 0x36;
          opad = replicate 128 0x5c;
          (ipad, opad) = (if length key > block_size T
                          then (let hash = trait_hash T key in (xor_into ipad hash, xor_into opad hash))
                          else (xor_into ipad key, xor_into opad key)) in
      if block_size T > 128 then None
      else Some \<lparr> iengine = hash_input T (hash_engine T) (take (block_size T) ipad),
                  oengine = hash_input T (hash_engine T) (take (block_size T) opad) \<rparr>)"

definition hmac_default :: "'e hash_ops \<Rightarrow> 'e HmacEngine option" where
  "hmac_default T = hmac_new T []"

definition from_inner_engines :: "'e \<Rightarrow> 'e \<Rightarrow> 'e HmacEngine" where
  "from_inner_engines i oe = \<lparr> iengine = i, oengine = oe \<rparr>"

definition hmac_input :: "'e hash_ops \<Rightarrow> 'e HmacEngine \<Rightarrow> bytes \<Rightarrow> 'e HmacEngine" where
  "hmac_input T e buf = e\<lparr> iengine := hash_input T (iengine e) buf \<rparr>"

definition hmac_from_engine :: "'e hash_ops \<Rightarrow> 'e HmacEngine \<Rightarrow> bytes" where
  "hmac_from_engine T e =
     (let ihash = hash_from_engine T (iengine e);
          e = e\<lparr> oengine := hash_input T (oengine e) ihash \<rparr> in
      hash_from_engine T (oengine e))"

definition sha256_ops :: "sha256_engine hash_ops" where
  "sha256_ops = \<lparr> hash_engine = sha256_engine_default, hash_input = sha256_input, hash_from_engine = sha256_from_engine, block_size = 64 \<rparr>"

definition sha512_ops :: "sha512_engine hash_ops" where
  "sha512_ops = \<lparr> hash_engine = sha512_engine_default, hash_input = sha512_input, hash_from_engine = sha512_from_engine, block_size = 128 \<rparr>"

definition ripemd160_ops :: "ripemd160_engine hash_ops" where
  "ripemd160_ops = \<lparr> hash_engine = ripemd160_engine_default, hash_input = ripemd160_input, hash_from_engine = ripemd160_from_engine, block_size = 64 \<rparr>"

definition sha1_ops :: "sha1_engine hash_ops" where
  "sha1_ops = \<lparr> hash_engine = sha1_engine_default, hash_input = sha1_input, hash_from_engine = sha1_from_engine, block_size = 64 \<rparr>"

text \<open>A use of HMAC: a new engine for the key, the data in pieces, the tag.\<close>

definition hmac :: "'e hash_ops \<Rightarrow> bytes \<Rightarrow> bytes list \<Rightarrow> bytes option" where
  "hmac T key cs = map_option (\<lambda>e. hmac_from_engine T (fold (\<lambda>c e. hmac_input T e c) cs e)) (hmac_new T key)"

section \<open>The reference: RFC 2104\<close>

definition rfc2104 :: "(bytes \<Rightarrow> bytes) \<Rightarrow> nat \<Rightarrow> bytes \<Rightarrow> bytes \<Rightarrow> bytes" where
  "rfc2104 H B key txt =
     (let K0 = (if B < length key then H key else key);
          K = K0 @ replicate (B - length K0) 0 in
      H (map ((XOR) 0x5c) K @ H (map ((XOR) 0x36) K @ txt)))"

section \<open>The code computes the reference\<close>

lemma take_xor_into:
  assumes "length k \<le> B" "B \<le> 128"
  shows "take B (xor_into (replicate 128 p) k) = map ((XOR) p) (k @ replicate (B - length k) 0)"
  using assms by (auto simp: xor_into_def take_map drop_map zip_replicate1 intro!: nth_equalityI simp: nth_append)

locale hash_contract =
  fixes T :: "'e hash_ops" and D :: nat
  assumes split_irrelevant: "hash_from_engine T (fold (\<lambda>c e. hash_input T e c) cs (hash_engine T)) = trait_hash T (concat cs)"
    and digest_length: "length (trait_hash T m) = D"
    and sizes: "D \<le> block_size T" "block_size T \<le> 128"
begin

lemma hash_two: "hash_from_engine T (hash_input T (hash_input T (hash_engine T) a) b) = trait_hash T (a @ b)"
  using split_irrelevant [of "[a, b]"] by simp

lemma iengine_fold: "fold (\<lambda>c e. hmac_input T e c) cs e = e\<lparr> iengine := fold (\<lambda>c e. hash_input T e c) cs (iengine e) \<rparr>"
  by (induction cs arbitrary: e) (simp_all add: hmac_input_def)

lemma hmac_rfc: "hmac T key cs = Some (rfc2104 (trait_hash T) (block_size T) key (concat cs))"
proof -
  let ?K = "if block_size T < length key then trait_hash T key else key"
  let ?pad = "\<lambda>p. map ((XOR) p) (?K @ replicate (block_size T - length ?K) 0)"
  have "length ?K \<le> block_size T" using digest_length sizes by simp
  then have pad: "take (block_size T) (xor_into (replicate 128 p) ?K) = ?pad p" for p using sizes by (intro take_xor_into)
  have "hmac_new T key = Some \<lparr> iengine = hash_input T (hash_engine T) (?pad 0x36), oengine = hash_input T (hash_engine T) (?pad 0x5c) \<rparr>"
    unfolding hmac_new_def Let_def pad [symmetric] using sizes by (simp del: replicate.simps)
  then show ?thesis
    using split_irrelevant [of "?pad 0x36 # cs"]
    by (simp add: hmac_def hmac_from_engine_def iengine_fold hash_two rfc2104_def Let_def)
qed

end

lemmas ops_simps = sha256_ops_def sha512_ops_def ripemd160_ops_def sha1_ops_def

interpretation hmac_sha256: hash_contract sha256_ops 32
proof
  show "hash_from_engine sha256_ops (fold (\<lambda>c e. hash_input sha256_ops e c) cs (hash_engine sha256_ops)) = trait_hash sha256_ops (concat cs)" for cs
    using sha256_chunks_fips [of cs] sha256_chunks_fips [of "[concat cs]"]
    by (simp add: trait_hash_def hash_trait_hash_def ops_simps sha256_hash_byte_chunks_def hash_byte_chunks_def)
  show "length (trait_hash sha256_ops m) = 32" for m
    using length_sha256_hash [of m] by (simp add: trait_hash_def ops_simps sha256_hash_def)
qed (simp_all add: ops_simps)

interpretation hmac_sha512: hash_contract sha512_ops 64
proof
  show "hash_from_engine sha512_ops (fold (\<lambda>c e. hash_input sha512_ops e c) cs (hash_engine sha512_ops)) = trait_hash sha512_ops (concat cs)" for cs
    using sha512_blocks.hash_chunks_absorbs [of cs sha512_iv] sha512_blocks.hash_chunks_absorbs [of "[concat cs]" sha512_iv]
    by (simp add: trait_hash_def hash_trait_hash_def ops_simps sha512_from_engine_def sha512_midstate_def sha512_input_def sha512_engine_default_def)
  show "length (trait_hash sha512_ops m) = 64" for m
    using length_sha512_from_engine [OF length_ivs(1), of "[m]"]
    by (simp add: trait_hash_def hash_trait_hash_def ops_simps sha512_engine_default_def)
qed (simp_all add: ops_simps)

interpretation hmac_ripemd160: hash_contract ripemd160_ops 20
proof
  show "hash_from_engine ripemd160_ops (fold (\<lambda>c e. hash_input ripemd160_ops e c) cs (hash_engine ripemd160_ops)) = trait_hash ripemd160_ops (concat cs)" for cs
    using ripemd160_chunks [of cs] ripemd160_chunks [of "[concat cs]"]
    by (simp add: trait_hash_def hash_trait_hash_def ops_simps hash_byte_chunks_def)
  show "length (trait_hash ripemd160_ops m) = 20" for m
    using length_ripemd160_hash [of m] by (simp add: trait_hash_def ops_simps ripemd160_hash_def)
qed (simp_all add: ops_simps)

lemma length_concat_be_words: "length (concat (map to_be_bytes ws)) = 4 * length (ws :: u32 list)"
  by (induction ws) (simp_all add: length_to_be_bytes)

interpretation hmac_sha1: hash_contract sha1_ops 20
proof
  show split: "hash_from_engine sha1_ops (fold (\<lambda>c e. hash_input sha1_ops e c) cs (hash_engine sha1_ops)) = trait_hash sha1_ops (concat cs)" for cs
    using sha1_chunks [of cs] sha1_chunks [of "[concat cs]"]
    by (simp add: trait_hash_def hash_trait_hash_def ops_simps hash_byte_chunks_def)
  show "length (trait_hash sha1_ops m) = 20" for m
    using sha1_chunks [of "[m]"]
    by (simp add: trait_hash_def hash_trait_hash_def ops_simps hash_byte_chunks_def fips_sha1_def length_concat_be_words absorb_sha1)
qed (simp_all add: ops_simps)

section \<open>Properties\<close>

text \<open>
  C32: HMAC with SHA-256, SHA-512, RIPEMD-160 and SHA-1 returns for every key, and the data split over calls of \<open>input\<close> in any
  way, the tag of RFC 2104 of the concatenated data.
\<close>

theorem hmac_rfc2104:
  "hmac sha256_ops key cs = Some (rfc2104 sha256_hash 64 key (concat cs))
   \<and> hmac sha512_ops key cs = Some (rfc2104 sha512_hash 128 key (concat cs))
   \<and> hmac ripemd160_ops key cs = Some (rfc2104 ripemd160_hash 64 key (concat cs))
   \<and> hmac sha1_ops key cs = Some (rfc2104 sha1_hash 64 key (concat cs))"
proof -
  have "trait_hash sha256_ops = sha256_hash" "trait_hash sha512_ops = sha512_hash" "trait_hash ripemd160_ops = ripemd160_hash"
    "trait_hash sha1_ops = sha1_hash" by (simp_all add: trait_hash_def ops_simps sha256_hash_def sha512_hash_def ripemd160_hash_def sha1_hash_def)
  moreover have "block_size sha256_ops = 64" "block_size sha512_ops = 128" "block_size ripemd160_ops = 64" "block_size sha1_ops = 64" by (simp_all add: ops_simps)
  ultimately show ?thesis
    using hmac_sha256.hmac_rfc [of key cs] hmac_sha512.hmac_rfc [of key cs] hmac_ripemd160.hmac_rfc [of key cs]
      hmac_sha1.hmac_rfc [of key cs] by (simp only:)
qed

end
