(* ===== verification/Bit_Stream.thy ===== *)
theory Bit_Stream
  imports Bitcoin_Io
begin

text \<open>
  The bitwise reader and writer of \<open>src/litecoin/src/bip158.rs\<close> and the Golomb-Rice code on them. Abstractly a writer
  holds the list of the bits written and a reader the list of the bits to come, first bit first; the lemmas say what each
  operation does to these lists.
\<close>

section \<open>The code\<close>

record bit_reader =
  br_buffer :: u8
  br_offset :: nat
  br_rest :: bytes

record bit_writer =
  bw_buffer :: u8
  bw_offset :: nat
  bw_out :: bytes

definition bit_reader_new :: "bytes \<Rightarrow> bit_reader" where
  "bit_reader_new r = \<lparr> br_buffer = 0, br_offset = 8, br_rest = r \<rparr>"

text \<open>The byte read when the buffer is used up.\<close>

definition refill :: "bit_reader \<Rightarrow> io_failure + bit_reader" where
  "refill r = (if br_offset r = 8
     then and_then (dread 1 (br_rest r)) (\<lambda>(b, us). Inr (r\<lparr> br_buffer := b ! 0, br_offset := 0, br_rest := us \<rparr>))
     else Inr r)"

text \<open>The loop of \<open>read\<close>. Offsets above 8 do not occur; there the model stops.\<close>

function bit_read_loop :: "bit_reader \<Rightarrow> nat \<Rightarrow> u64 \<Rightarrow> io_failure + (u64 \<times> bit_reader)" where
  "bit_read_loop r nbits data =
     (if nbits = 0 \<or> br_offset r > 8 then Inr (data, r)
      else case refill r of Inl e \<Rightarrow> Inl e
        | Inr r \<Rightarrow>
           (let bits = min (8 - br_offset r) nbits;
                data = push_bit bits data;
                data = data OR ucast (drop_bit (8 - bits) (push_bit (br_offset r) (br_buffer r))) in
            bit_read_loop (r\<lparr> br_offset := br_offset r + bits \<rparr>) (nbits - bits) data))"
  by pat_completeness auto
termination
  by (relation "measure (\<lambda>(r, nbits, data). nbits)")
    (auto simp: refill_def and_then_Inr_iff split: if_splits)

declare bit_read_loop.simps [simp del]

definition bit_read :: "bit_reader \<Rightarrow> nat \<Rightarrow> io_failure + (u64 \<times> bit_reader)" where
  "bit_read r nbits = (if nbits > 64 then Inl (Io Other) else bit_read_loop r nbits 0)"

definition bit_writer_new :: bit_writer where
  "bit_writer_new = \<lparr> bw_buffer = 0, bw_offset = 0, bw_out = [] \<rparr>"

definition bit_flush :: "bit_writer \<Rightarrow> nat \<times> bit_writer" where
  "bit_flush w = (if bw_offset w > 0
     then (1, w\<lparr> bw_out := bw_out w @ [bw_buffer w], bw_buffer := 0, bw_offset := 0 \<rparr>)
     else (0, w))"

text \<open>The loop of \<open>write\<close>. Offsets of 8 and more do not occur at its head; there the model stops.\<close>

function bit_write_loop :: "bit_writer \<Rightarrow> u64 \<Rightarrow> nat \<Rightarrow> nat \<Rightarrow> nat \<times> bit_writer" where
  "bit_write_loop w data nbits acc =
     (if nbits = 0 \<or> bw_offset w \<ge> 8 then (acc, w)
      else let bits = min (8 - bw_offset w) nbits;
               w1 = w\<lparr> bw_buffer := bw_buffer w OR ucast (drop_bit (64 - 8 + bw_offset w) (push_bit (64 - nbits) data)),
                       bw_offset := bw_offset w + bits \<rparr>;
               (n, w2) = (if bw_offset w1 = 8 then bit_flush w1 else (0, w1)) in
           bit_write_loop w2 data (nbits - bits) (acc + n))"
  by pat_completeness auto
termination
  by (relation "measure (\<lambda>(w, data, nbits, acc). nbits)") auto

declare bit_write_loop.simps [simp del]

definition bit_write :: "bit_writer \<Rightarrow> u64 \<Rightarrow> nat \<Rightarrow> io_failure + (nat \<times> bit_writer)" where
  "bit_write w data nbits = (if nbits > 64 then Inl (Io Other) else Inr (bit_write_loop w data nbits 0))"

text \<open>
  Golomb-Rice coding with parameter \<open>2 ^ p\<close>. A shift of a \<open>u64\<close> by \<open>p\<close> takes \<open>p\<close> modulo 64 in release builds.
\<close>

lemma quotient_decreases: "q \<noteq> 0 \<Longrightarrow> unat (q - min q 64) < unat (q :: u64)"
proof -
  assume "q \<noteq> 0"
  then have "min q 64 \<noteq> 0" "min q 64 \<le> q" by (auto simp: min_def)
  then have "0 < unat (min q 64)" "unat (min q 64) \<le> unat q" by (simp_all add: unat_gt_0 word_le_nat_alt)
  then show ?thesis using \<open>min q 64 \<le> q\<close> by (simp add: unat_sub)
qed

function gr_quotient :: "bit_writer \<Rightarrow> u64 \<Rightarrow> nat \<Rightarrow> io_failure + (nat \<times> bit_writer)" where
  "gr_quotient w q acc =
     (if q = 0 then Inr (acc, w)
      else let nbits = min q 64 in
        and_then (bit_write w (NOT 0) (unat (ucast nbits :: u8))) (\<lambda>(n, w). gr_quotient w (q - nbits) (acc + n)))"
  by pat_completeness auto
termination
  by (relation "measure (\<lambda>(w, q, acc). unat q)") (auto simp: quotient_decreases)

declare gr_quotient.simps [simp del]

definition golomb_rice_encode :: "nat \<Rightarrow> bit_writer \<Rightarrow> u64 \<Rightarrow> io_failure + (nat \<times> bit_writer)" where
  "golomb_rice_encode p w n =
     and_then (gr_quotient w (drop_bit (p mod 64) n) 0) (\<lambda>(n0, w).
     and_then (bit_write w 0 1) (\<lambda>(n1, w).
     and_then (bit_write w n p) (\<lambda>(n2, w). Inr (n0 + n1 + n2, w))))"

section \<open>The reader as a list of bits\<close>

text \<open>The low \<open>n\<close> bits of a word, the highest of them first, and the word they append to another word.\<close>

definition bits_of :: "nat \<Rightarrow> 'a::len word \<Rightarrow> bool list" where
  "bits_of n w = map (\<lambda>k. bit w (n - 1 - k)) [0..<n]"

abbreviation byte_bits :: "u8 \<Rightarrow> bool list" where
  "byte_bits \<equiv> bits_of 8"

definition push_bits :: "u64 \<Rightarrow> bool list \<Rightarrow> u64" where
  "push_bits = foldl (\<lambda>d b. push_bit 1 d OR of_bool b)"

lemma length_bits_of [simp]: "length (bits_of n w) = n"
  by (simp add: bits_of_def)

lemma nth_bits_of [simp]: "k < n \<Longrightarrow> bits_of n w ! k = bit w (n - 1 - k)"
  by (simp add: bits_of_def)

lemma drop_bits_of: "k \<le> n \<Longrightarrow> drop k (bits_of n w) = bits_of (n - k) w"
  by (rule nth_equalityI) auto

lemma push_bits_append: "push_bits d (a @ b) = push_bits (push_bits d a) b"
  by (simp add: push_bits_def)

lemma push_bits_Nil [simp]: "push_bits d [] = d"
  by (simp add: push_bits_def)

lemma bit_push_bits: "bit (push_bits d bs) i \<longleftrightarrow> i < 64 \<and> (if i < length bs then bs ! (length bs - 1 - i) else bit d (i - length bs))"
proof (induction bs arbitrary: i rule: rev_induct)
  case Nil
  then show ?case by (auto dest: bit_imp_le_length)
next
  case (snoc b bs)
  have step: "push_bits d (bs @ [b]) = push_bit 1 (push_bits d bs) OR of_bool b" by (simp add: push_bits_def)
  show ?case
  proof (cases i)
    case 0
    then show ?thesis by (auto simp: step bit_0 even_or_iff)
  next
    case (Suc j)
    have "bit (push_bits d (bs @ [b])) i \<longleftrightarrow> i < 64 \<and> bit (push_bits d bs) j"
      unfolding step bit_or_iff bit_push_bit_iff using Suc by (auto simp: bit_of_bool_iff)
    then show ?thesis using Suc by (auto simp: snoc nth_append)
  qed
qed

lemma push_bits_bits_of: "n \<le> 64 \<Longrightarrow> push_bits 0 (bits_of n w) = take_bit n w"
  by (rule bit_word_eqI) (auto simp: bit_push_bits bit_take_bit_iff)

definition rbits :: "bit_reader \<Rightarrow> bool list" where
  "rbits r = drop (br_offset r) (byte_bits (br_buffer r)) @ concat (map byte_bits (br_rest r))"

lemma rbits_new: "rbits (bit_reader_new bs) = concat (map byte_bits bs)"
  by (simp add: rbits_def bit_reader_new_def)

lemma refill_bits:
  assumes "br_offset r \<le> 8" "rbits r \<noteq> []"
  shows "\<exists>r'. refill r = Inr r' \<and> rbits r' = rbits r \<and> br_offset r' < 8"
proof (cases "br_offset r = 8")
  case True
  then obtain b bs where "br_rest r = b # bs" using assms(2) by (cases "br_rest r") (auto simp: rbits_def)
  then show ?thesis using True by (simp add: refill_def dread_def rbits_def)
next
  case False
  then show ?thesis using assms(1) by (simp add: refill_def)
qed

text \<open>The bits of the buffer that one turn of the loop takes.\<close>

lemma read_chunk:
  assumes "k \<le> 8 - off" "0 < k"
  shows "push_bit k d OR ucast (drop_bit (8 - k) (push_bit off (b :: u8))) = push_bits d (take k (drop off (byte_bits b)))"
proof (rule bit_word_eqI)
  fix i :: nat
  assume "i < LENGTH(64)"
  moreover have "bit (ucast (drop_bit (8 - k) (push_bit off b)) :: u64) i \<longleftrightarrow> i < 64 \<and> 8 - k + i < 8 \<and> off \<le> 8 - k + i \<and> bit b (8 - k + i - off)"
    by (auto simp: bit_simps)
  moreover have "length (take k (drop off (byte_bits b))) = k" using assms by simp
  moreover have "take k (drop off (byte_bits b)) ! (k - 1 - i) = bit b (8 - k + i - off)" if "i < k"
  proof -
    have "take k (drop off (byte_bits b)) ! (k - 1 - i) = bit b (8 - 1 - (off + (k - 1 - i)))" using assms that by simp
    also have "8 - 1 - (off + (k - 1 - i)) = 8 - k + i - off" using assms that by simp
    finally show ?thesis .
  qed
  ultimately show "bit (push_bit k d OR ucast (drop_bit (8 - k) (push_bit off b))) i = bit (push_bits d (take k (drop off (byte_bits b)))) i"
    using assms by (auto simp: bit_push_bits bit_or_iff bit_push_bit_iff)
qed

lemma bit_read_loop_bits:
  assumes "br_offset r \<le> 8" "rbits r = bs @ us" "length bs = nbits"
  shows "\<exists>r'. bit_read_loop r nbits d = Inr (push_bits d bs, r') \<and> rbits r' = us \<and> br_offset r' \<le> 8"
  using assms
proof (induction nbits arbitrary: r bs d rule: less_induct)
  case (less nbits)
  show ?case
  proof (cases "nbits = 0")
    case True
    then show ?thesis using less.prems by (simp add: bit_read_loop.simps)
  next
    case False
    then have "rbits r \<noteq> []" using less.prems by auto
    then obtain r1 where r1: "refill r = Inr r1" "rbits r1 = rbits r" "br_offset r1 < 8" using refill_bits less.prems(1) by blast
    define k where "k = min (8 - br_offset r1) nbits"
    define r2 where "r2 = r1\<lparr> br_offset := br_offset r1 + k \<rparr>"
    have k: "0 < k" "k \<le> 8 - br_offset r1" "k \<le> nbits" using False r1(3) by (auto simp: k_def)
    let ?cur = "drop (br_offset r1) (byte_bits (br_buffer r1))"
    have "rbits r1 = take k ?cur @ rbits r2"
      using k by (simp add: rbits_def r2_def ac_simps flip: drop_drop append.assoc)
    then have split: "bs @ us = take k ?cur @ rbits r2" "length (take k ?cur) = k" using r1(2) less.prems(2) k by simp_all
    have take: "take k bs = take k ?cur" using arg_cong [OF split(1), of "take k"] split(2) k less.prems(3) by simp
    have r2: "rbits r2 = drop k bs @ us" using arg_cong [OF split(1), of "drop k"] split(2) k less.prems(3) by simp
    have "\<exists>r'. bit_read_loop r2 (nbits - k) (push_bits d (take k bs)) = Inr (push_bits (push_bits d (take k bs)) (drop k bs), r') \<and> rbits r' = us \<and> br_offset r' \<le> 8"
      using k less.prems r2 by (intro less.IH) (simp_all add: r2_def)
    moreover have "bit_read_loop r nbits d = bit_read_loop r2 (nbits - k) (push_bits d (take k bs))"
      using False less.prems(1) r1(1) read_chunk [OF k(2,1), of d "br_buffer r1"] take
      by (simp add: bit_read_loop.simps [of r] Let_def k_def [symmetric] r2_def)
    ultimately show ?thesis by (simp add: push_bits_append [symmetric])
  qed
qed

lemma bit_read_bits:
  assumes "br_offset r \<le> 8" "rbits r = bs @ us" "length bs \<le> 64"
  shows "\<exists>r'. bit_read r (length bs) = Inr (push_bits 0 bs, r') \<and> rbits r' = us \<and> br_offset r' \<le> 8"
  using bit_read_loop_bits [OF assms(1,2) refl, of 0] assms(3) by (simp add: bit_read_def)

lemma read_one_shrinks:
  assumes "bit_read r 1 = Inr (1, r')"
  shows "length (rbits r') < length (rbits r)"
proof -
  have "br_offset r \<le> 8" using assms by (auto simp: bit_read_def bit_read_loop.simps [of r] split: if_splits)
  moreover have "rbits r \<noteq> []"
  proof
    assume "rbits r = []"
    then have "8 - br_offset r = 0" "concat (map byte_bits (br_rest r)) = []" by (simp_all add: rbits_def)
    moreover have "byte_bits b \<noteq> []" for b by (metis length_bits_of list.size(3) zero_neq_numeral)
    ultimately have "br_offset r = 8" "br_rest r = []" using \<open>br_offset r \<le> 8\<close> by (cases "br_rest r"; simp)+
    then have "refill r = Inl (Io UnexpectedEof)" by (simp add: refill_def dread_def)
    then show False using assms \<open>br_offset r = 8\<close> by (simp add: bit_read_def bit_read_loop.simps [of r])
  qed
  then obtain b bs where "rbits r = [b] @ bs" by (cases "rbits r") auto
  ultimately show ?thesis using bit_read_bits [of r "[b]" bs] assms by auto
qed

text \<open>The loop of \<open>golomb_rice_decode\<close> over the unary quotient; each turn takes a bit.\<close>

function gr_unary :: "bit_reader \<Rightarrow> u64 \<Rightarrow> io_failure + (u64 \<times> bit_reader)" where
  "gr_unary r q = (case bit_read r 1 of Inl e \<Rightarrow> Inl e
     | Inr (b, r') \<Rightarrow> if b = 1 then gr_unary r' (q + 1) else Inr (q, r'))"
  by pat_completeness auto
termination
  by (relation "measure (\<lambda>(r, q). length (rbits r))") (auto intro: read_one_shrinks)

declare gr_unary.simps [simp del]

definition golomb_rice_decode :: "nat \<Rightarrow> bit_reader \<Rightarrow> io_failure + (u64 \<times> bit_reader)" where
  "golomb_rice_decode p r =
     and_then (gr_unary r 0) (\<lambda>(q, r).
     and_then (bit_read r p) (\<lambda>(x, r). Inr (push_bit (p mod 64) q + x, r)))"

section \<open>The writer as a list of bits\<close>

definition wbits :: "bit_writer \<Rightarrow> bool list" where
  "wbits w = concat (map byte_bits (bw_out w)) @ take (bw_offset w) (byte_bits (bw_buffer w))"

definition writer_ok :: "bit_writer \<Rightarrow> bool" where
  "writer_ok w \<longleftrightarrow> bw_offset w < 8 \<and> (\<forall>i < 8 - bw_offset w. \<not> bit (bw_buffer w) i)"

lemma writer_new: "writer_ok bit_writer_new" "wbits bit_writer_new = []"
  by (simp_all add: writer_ok_def wbits_def bit_writer_new_def)

text \<open>The bits that one turn of the loop puts into the buffer.\<close>

lemma bit_merged:
  assumes "0 < n" "n \<le> 64" "off < 8" "i < 8"
  shows "bit (b OR ucast (drop_bit (56 + off) (push_bit (64 - n) (data :: u64))) :: u8) i
    \<longleftrightarrow> bit b i \<or> i < 8 - off \<and> 8 \<le> i + off + n \<and> bit data (i + off + n - 8)"
proof -
  have "bit (push_bit (64 - n) data) (56 + off + i) \<longleftrightarrow> 56 + off + i < 64 \<and> 64 - n \<le> 56 + off + i \<and> bit data (56 + off + i - (64 - n))"
    by (auto simp: bit_push_bit_iff dest: bit_imp_le_length)
  moreover have "56 + off + i - (64 - n) = i + off + n - 8" if "64 - n \<le> 56 + off + i" using assms that by simp
  moreover have "64 - n \<le> 56 + off + i \<longleftrightarrow> 8 \<le> i + off + n" using assms by auto
  moreover have "56 + off + i < 64 \<longleftrightarrow> i < 8 - off" using assms by auto
  ultimately show ?thesis using assms(4) by (auto simp: bit_or_iff bit_ucast_iff bit_drop_bit_eq)
qed

lemma write_chunk:
  assumes ok: "off < 8" "\<forall>i < 8 - off. \<not> bit b i" and n: "0 < n" "n \<le> 64" and k: "k = min (8 - off) n"
  shows "take (off + k) (byte_bits (b OR ucast (drop_bit (56 + off) (push_bit (64 - n) (data :: u64))))) = take off (byte_bits b) @ take k (bits_of n data)"
    and "i < 8 - (off + k) \<Longrightarrow> \<not> bit (b OR ucast (drop_bit (56 + off) (push_bit (64 - n) data)) :: u8) i"
proof -
  let ?b = "b OR ucast (drop_bit (56 + off) (push_bit (64 - n) data)) :: u8"
  show "take (off + k) (byte_bits ?b) = take off (byte_bits b) @ take k (bits_of n data)"
  proof (rule nth_equalityI)
    show "length (take (off + k) (byte_bits ?b)) = length (take off (byte_bits b) @ take k (bits_of n data))" using ok k by simp
  next
    fix j
    assume "j < length (take (off + k) (byte_bits ?b))"
    then have j: "j < off + k" "j < 8" using ok k by auto
    show "take (off + k) (byte_bits ?b) ! j = (take off (byte_bits b) @ take k (bits_of n data)) ! j"
    proof (cases "j < off")
      case True
      then show ?thesis using j ok bit_merged [OF n ok(1), of "7 - j" b data] by (auto simp: nth_append)
    next
      case False
      have jk: "j - off < n" "j - off < k" using False j k by auto
      have "bit ?b (7 - j) \<longleftrightarrow> bit data (7 - j + off + n - 8)"
        using bit_merged [OF n ok(1), of "7 - j" b data] ok(2) False j jk by auto
      moreover have "7 - j + off + n - 8 = n - 1 - (j - off)" using False j jk by simp
      ultimately show ?thesis using False j jk ok by (simp add: nth_append)
    qed
  qed
  show "\<not> bit ?b i" if "i < 8 - (off + k)"
    using that bit_merged [OF n ok(1), of i b data] ok(2) k by auto
qed

lemma bit_write_loop_bits:
  assumes "writer_ok w" "n \<le> 64"
  shows "\<exists>w'. bit_write_loop w data n acc = (acc + (length (bw_out w') - length (bw_out w)), w') \<and> writer_ok w'
    \<and> wbits w' = wbits w @ bits_of n data \<and> length (bw_out w) \<le> length (bw_out w')"
  using assms
proof (induction n arbitrary: w acc rule: less_induct)
  case (less n)
  show ?case
  proof (cases "n = 0")
    case True
    then show ?thesis using less.prems by (simp add: bit_write_loop.simps bits_of_def)
  next
    case False
    let ?off = "bw_offset w"
    let ?b = "bw_buffer w OR ucast (drop_bit (56 + ?off) (push_bit (64 - n) data)) :: u8"
    have ok: "?off < 8" "\<forall>i < 8 - ?off. \<not> bit (bw_buffer w) i" using less.prems by (auto simp: writer_ok_def)
    define k where "k = min (8 - ?off) n"
    have k: "0 < k" "k \<le> n" "?off + k \<le> 8" using ok False by (auto simp: k_def)
    have n: "0 < n" using False by simp
    note chunk = write_chunk [OF ok n less.prems(2) k_def, where data = data]
    define w1 where "w1 = w\<lparr> bw_buffer := ?b, bw_offset := ?off + k \<rparr>"
    define m where "m = (if ?off + k = 8 then 1 else 0 :: nat)"
    define w2 where "w2 = (if ?off + k = 8 then w\<lparr> bw_out := bw_out w @ [?b], bw_buffer := 0, bw_offset := 0 \<rparr> else w1)"
    have "writer_ok w2" using chunk(2) k by (auto simp: writer_ok_def w2_def w1_def)
    moreover have w2: "wbits w2 = wbits w @ take k (bits_of n data)"
      using chunk(1) by (auto simp: wbits_def w2_def w1_def)
    moreover have len: "length (bw_out w2) = length (bw_out w) + m" by (simp add: w2_def w1_def m_def)
    moreover have "n - k < n" "n - k \<le> 64" using k less.prems by simp_all
    ultimately obtain w' where w': "bit_write_loop w2 data (n - k) (acc + m) = (acc + m + (length (bw_out w') - length (bw_out w2)), w')"
      "writer_ok w'" "wbits w' = wbits w2 @ bits_of (n - k) data" "length (bw_out w2) \<le> length (bw_out w')"
      using less.IH [of "n - k" w2 "acc + m"] by metis
    have "bit_write_loop w data n acc = bit_write_loop w2 data (n - k) (acc + m)"
      using False ok(1) by (simp add: bit_write_loop.simps [of w] Let_def k_def [symmetric] w1_def w2_def m_def bit_flush_def)
    moreover have "bits_of n data = take k (bits_of n data) @ bits_of (n - k) data"
      using drop_bits_of [OF k(2), of data] by (metis append_take_drop_id)
    ultimately show ?thesis using w' w2 len by auto
  qed
qed

lemma bit_write_bits:
  assumes "writer_ok w" "n \<le> 64"
  shows "\<exists>w'. bit_write w data n = Inr (length (bw_out w') - length (bw_out w), w') \<and> writer_ok w'
    \<and> wbits w' = wbits w @ bits_of n data \<and> length (bw_out w) \<le> length (bw_out w')"
  using bit_write_loop_bits [OF assms, of data 0] assms(2) by (simp add: bit_write_def)

lemma bit_flush_bits:
  assumes "writer_ok w"
  shows "\<exists>w' k. bit_flush w = (length (bw_out w') - length (bw_out w), w') \<and> bw_offset w' = 0 \<and> wbits w' = concat (map byte_bits (bw_out w'))
    \<and> wbits w' = wbits w @ replicate k False \<and> length (bw_out w) \<le> length (bw_out w')"
proof (cases "bw_offset w = 0")
  case True
  then show ?thesis by (intro exI [of _ w] exI [of _ 0]) (simp add: bit_flush_def wbits_def)
next
  case False
  have "byte_bits (bw_buffer w) = take (bw_offset w) (byte_bits (bw_buffer w)) @ replicate (8 - bw_offset w) False"
    using assms by (intro nth_equalityI) (auto simp: nth_append writer_ok_def)
  then show ?thesis using False
    by (intro exI [of _ "w\<lparr> bw_out := bw_out w @ [bw_buffer w], bw_buffer := 0, bw_offset := 0 \<rparr>"] exI [of _ "8 - bw_offset w"])
      (simp add: bit_flush_def wbits_def)
qed

section \<open>Golomb-Rice codes\<close>

definition gr_bits :: "nat \<Rightarrow> u64 \<Rightarrow> bool list" where
  "gr_bits p n = replicate (unat (drop_bit p n)) True @ False # bits_of p n"

text \<open>
  \<open>appends bs w res\<close>: the result of an operation of the writer that appends the bits \<open>bs\<close> and counts the bytes that
  went out.
\<close>

definition appends :: "bool list \<Rightarrow> bit_writer \<Rightarrow> nat \<times> bit_writer \<Rightarrow> bool" where
  "appends bs w res \<longleftrightarrow> writer_ok (snd res) \<and> wbits (snd res) = wbits w @ bs
     \<and> length (bw_out w) \<le> length (bw_out (snd res)) \<and> fst res = length (bw_out (snd res)) - length (bw_out w)"

lemma appends_seq:
  "\<lbrakk>appends a w (n, w'); appends b w' (m, w'')\<rbrakk> \<Longrightarrow> appends (a @ b) w (n + m, w'')"
  by (auto simp: appends_def)

lemma bit_write_appends:
  assumes "writer_ok w" "n \<le> 64"
  shows "\<exists>m w'. bit_write w data n = Inr (m, w') \<and> appends (bits_of n data) w (m, w')"
  using bit_write_bits [OF assms, of data] by (auto simp: appends_def)

lemma appends_ok: "appends bs w (n, w') \<Longrightarrow> writer_ok w'"
  by (simp add: appends_def)

lemma ones_bits: "n \<le> 64 \<Longrightarrow> bits_of n (NOT 0 :: u64) = replicate n True"
  by (rule nth_equalityI) simp_all

lemma gr_quotient_appends:
  assumes "writer_ok w"
  shows "\<exists>n w'. gr_quotient w q acc = Inr (acc + n, w') \<and> appends (replicate (unat q) True) w (n, w')"
  using assms
proof (induction "unat q" arbitrary: q w acc rule: less_induct)
  case less
  show ?case
  proof (cases "q = 0")
    case True
    then show ?thesis using less.prems by (simp add: gr_quotient.simps appends_def)
  next
    case False
    define k where "k = min q 64"
    have k: "k \<le> q" "unat k \<le> 64" by (auto simp: k_def min_def word_le_nat_alt)
    then have u8: "unat (ucast k :: u8) = unat k" by (simp add: unat_ucast)
    obtain m w1 where w1: "bit_write w (NOT 0) (unat k) = Inr (m, w1)" "appends (replicate (unat k) True) w (m, w1)"
      using bit_write_appends [OF less.prems k(2), of "NOT 0"] ones_bits [OF k(2)] by auto
    obtain n w2 where w2: "gr_quotient w1 (q - k) (acc + m) = Inr (acc + m + n, w2)" "appends (replicate (unat (q - k)) True) w1 (n, w2)"
      using less.hyps [of "q - k" w1 "acc + m"] quotient_decreases [OF False] appends_ok [OF w1(2)] by (auto simp: k_def)
    have "replicate (unat q) True = replicate (unat k) True @ replicate (unat (q - k)) True"
      using k(1) by (simp add: unat_sub word_le_nat_alt flip: replicate_add)
    then have "appends (replicate (unat q) True) w (m + n, w2)" using appends_seq [OF w1(2) w2(2)] by simp
    moreover have "gr_quotient w q acc = Inr (acc + (m + n), w2)"
      using False w1(1) w2(1) u8 by (simp add: gr_quotient.simps [of w q] Let_def k_def [symmetric] ac_simps)
    ultimately show ?thesis by blast
  qed
qed

lemma golomb_rice_encode_bits:
  assumes "writer_ok w" "p < 64"
  shows "\<exists>k w'. golomb_rice_encode p w n = Inr (k, w') \<and> appends (gr_bits p n) w (k, w')"
proof -
  obtain k0 w0 where w0: "gr_quotient w (drop_bit p n) 0 = Inr (k0, w0)" "appends (replicate (unat (drop_bit p n)) True) w (k0, w0)"
    using gr_quotient_appends [OF assms(1), of "drop_bit p n" 0] by auto
  obtain k1 w1 where w1: "bit_write w0 0 1 = Inr (k1, w1)" "appends [False] w0 (k1, w1)"
    using bit_write_appends [OF appends_ok [OF w0(2)], of 1 0] by (auto simp: bits_of_def)
  obtain k2 w2 where w2: "bit_write w1 n p = Inr (k2, w2)" "appends (bits_of p n) w1 (k2, w2)"
    using bit_write_appends [OF appends_ok [OF w1(2)], of p n] assms(2) by auto
  show ?thesis
    using w0(1) w1(1) w2(1) assms(2) appends_seq [OF appends_seq [OF w0(2) w1(2)] w2(2)]
    by (simp add: golomb_rice_encode_def gr_bits_def)
qed

lemma gr_unary_bits:
  assumes "br_offset r \<le> 8" "rbits r = replicate k True @ False # us"
  shows "\<exists>r'. gr_unary r q = Inr (q + of_nat k, r') \<and> rbits r' = us \<and> br_offset r' \<le> 8"
  using assms
proof (induction k arbitrary: r q)
  case 0
  then obtain r' where "bit_read r 1 = Inr (0, r')" "rbits r' = us" "br_offset r' \<le> 8"
    using bit_read_bits [of r "[False]" us] by (auto simp: push_bits_def)
  then show ?case by (simp add: gr_unary.simps [of r])
next
  case (Suc k)
  then obtain r' where r': "bit_read r 1 = Inr (1, r')" "rbits r' = replicate k True @ False # us" "br_offset r' \<le> 8"
    using bit_read_bits [of r "[True]" "replicate k True @ False # us"] by (auto simp: push_bits_def)
  from Suc.IH [OF r'(3,2), of "q + 1"] show ?case using r'(1) by (simp add: gr_unary.simps [of r] ac_simps)
qed

lemma golomb_rice_decode_bits:
  assumes "br_offset r \<le> 8" "rbits r = gr_bits p n @ us" "p < 64"
  shows "\<exists>r'. golomb_rice_decode p r = Inr (n, r') \<and> rbits r' = us \<and> br_offset r' \<le> 8"
proof -
  obtain r1 where r1: "gr_unary r 0 = Inr (drop_bit p n, r1)" "rbits r1 = bits_of p n @ us" "br_offset r1 \<le> 8"
    using gr_unary_bits [of r "unat (drop_bit p n)" "bits_of p n @ us" 0] assms by (auto simp: gr_bits_def)
  obtain r2 where r2: "bit_read r1 p = Inr (take_bit p n, r2)" "rbits r2 = us" "br_offset r2 \<le> 8"
    using bit_read_bits [OF r1(3,2)] assms(3) push_bits_bits_of [of p n] by auto
  have "push_bit p (drop_bit p n) + take_bit p n = n" by (rule bits_ident)
  then show ?thesis using r1(1) r2 assms(3) by (simp add: golomb_rice_decode_def)
qed

end
