(* ===== verification/Siphash.thy ===== *)
theory Siphash
  imports Hash_Engine "HOL-Library.Monad_Syntax"
begin

text \<open>
  SipHash-2-4 (\<open>src/hashes/src/siphash24.rs\<close>). The code reads the message through unchecked pointers: \<open>load_int_le\<close> is
  \<open>None\<close> when a read would leave the slice, and the theorem that the engine returns is a theorem of memory safety. The
  reference is the specification of SipHash: the message padded with zeroes and its length, absorbed word by word.
\<close>

section \<open>The code\<close>

record sip_state =
  v0 :: u64
  v2 :: u64
  v1 :: u64
  v3 :: u64

record siphash_engine =
  k0 :: u64
  k1 :: u64
  sip_length :: nat
  sip_st :: sip_state
  sip_tail :: u64
  ntail :: nat

text \<open>The macro \<open>compress!\<close>, statement by statement.\<close>

definition sip_compress :: "sip_state \<Rightarrow> sip_state" where
  "sip_compress s =
     (let s = s\<lparr> v0 := v0 s + v1 s \<rparr>;
          s = s\<lparr> v1 := word_rotl 13 (v1 s) \<rparr>;
          s = s\<lparr> v1 := v1 s XOR v0 s \<rparr>;
          s = s\<lparr> v0 := word_rotl 32 (v0 s) \<rparr>;
          s = s\<lparr> v2 := v2 s + v3 s \<rparr>;
          s = s\<lparr> v3 := word_rotl 16 (v3 s) \<rparr>;
          s = s\<lparr> v3 := v3 s XOR v2 s \<rparr>;
          s = s\<lparr> v0 := v0 s + v3 s \<rparr>;
          s = s\<lparr> v3 := word_rotl 21 (v3 s) \<rparr>;
          s = s\<lparr> v3 := v3 s XOR v0 s \<rparr>;
          s = s\<lparr> v2 := v2 s + v1 s \<rparr>;
          s = s\<lparr> v1 := word_rotl 17 (v1 s) \<rparr>;
          s = s\<lparr> v1 := v1 s XOR v2 s \<rparr>;
          s = s\<lparr> v2 := word_rotl 32 (v2 s) \<rparr> in s)"

definition c_rounds :: "sip_state \<Rightarrow> sip_state" where
  "c_rounds s = sip_compress (sip_compress s)"

definition d_rounds :: "sip_state \<Rightarrow> sip_state" where
  "d_rounds s = sip_compress (sip_compress (sip_compress (sip_compress s)))"

definition load_int_le :: "bytes \<Rightarrow> nat \<Rightarrow> 'a::len word option" where
  "load_int_le buf i =
     (let size = LENGTH('a) div 8 in
      if i + size \<le> length buf then Some (from_le_bytes (take size (drop i buf))) else None)"

definition u8to64_le :: "bytes \<Rightarrow> nat \<Rightarrow> nat \<Rightarrow> u64 option" where
  "u8to64_le buf start len =
     do { (i, out) \<leftarrow> (if 0 + 3 < len then do { x \<leftarrow> (load_int_le buf (start + 0) :: u32 option); Some (0 + 4, ucast x) } else Some (0, 0));
          (i, out) \<leftarrow> (if i + 1 < len then do { x \<leftarrow> (load_int_le buf (start + i) :: u16 option); Some (i + 2, out OR push_bit (i * 8) (ucast x)) } else Some (i, out));
          if i < len then do { x \<leftarrow> (load_int_le buf (start + i) :: u8 option); Some (out OR push_bit (i * 8) (ucast x)) } else Some out }"

definition with_keys :: "u64 \<Rightarrow> u64 \<Rightarrow> siphash_engine" where
  "with_keys a b = \<lparr> k0 = a, k1 = b, sip_length = 0,
     sip_st = \<lparr> v0 = a XOR 0x736f6d6570736575, v2 = a XOR 0x6c7967656e657261, v1 = b XOR 0x646f72616e646f6d, v3 = b XOR 0x7465646279746573 \<rparr>,
     sip_tail = 0, ntail = 0 \<rparr>"

definition sip_new :: siphash_engine where
  "sip_new = with_keys 0 0"

definition sip_keys :: "siphash_engine \<Rightarrow> u64 \<times> u64" where
  "sip_keys e = (k0 e, k1 e)"

text \<open>The three statements that take in one word.\<close>

definition sip_word :: "u64 \<Rightarrow> sip_state \<Rightarrow> sip_state" where
  "sip_word mi s =
     (let s = s\<lparr> v3 := v3 s XOR mi \<rparr>;
          s = c_rounds s in
      s\<lparr> v0 := v0 s XOR mi \<rparr>)"

function sip_loop :: "bytes \<Rightarrow> nat \<Rightarrow> nat \<Rightarrow> sip_state \<Rightarrow> (nat \<times> sip_state) option" where
  "sip_loop msg stop i s =
     (if i < stop then do { mi \<leftarrow> load_int_le msg i; sip_loop msg stop (i + 8) (sip_word mi s) } else Some (i, s))"
  by pat_completeness auto
termination
  by (relation "measure (\<lambda>(msg, stop, i, s). stop - i)") auto

declare sip_loop.simps [simp del]

text \<open>The part of \<open>input\<close> after the buffered bytes are flushed.\<close>

definition sip_fresh :: "siphash_engine \<Rightarrow> bytes \<Rightarrow> nat \<Rightarrow> siphash_engine option" where
  "sip_fresh e msg needed =
     (let len = length msg - needed;
          left = unat (of_nat len AND 7 :: u64) in
      do { (i, s) \<leftarrow> sip_loop msg (len - left) needed (sip_st e);
           t \<leftarrow> u8to64_le msg i left;
           Some (e\<lparr> sip_st := s, sip_tail := t, ntail := left \<rparr>) })"

definition sip_input :: "siphash_engine \<Rightarrow> bytes \<Rightarrow> siphash_engine option" where
  "sip_input e msg =
     (let len0 = length msg;
          e = e\<lparr> sip_length := sip_length e + len0 \<rparr> in
      if ntail e \<noteq> 0 then
        (let needed = 8 - ntail e in
         do { x \<leftarrow> u8to64_le msg 0 (min len0 needed);
              let e = e\<lparr> sip_tail := sip_tail e OR push_bit (8 * ntail e) x \<rparr>;
              if len0 < needed then Some (e\<lparr> ntail := ntail e + len0 \<rparr>)
              else sip_fresh (e\<lparr> sip_st := sip_word (sip_tail e) (sip_st e), ntail := 0 \<rparr>) msg needed })
      else sip_fresh e msg 0)"

definition from_engine_to_u64 :: "siphash_engine \<Rightarrow> u64" where
  "from_engine_to_u64 e =
     (let b = push_bit 56 (of_nat (sip_length e) AND 0xff) OR sip_tail e;
          s = sip_word b (sip_st e);
          s = s\<lparr> v2 := v2 s XOR 0xff \<rparr>;
          s = d_rounds s in
      v0 s XOR v1 s XOR v2 s XOR v3 s)"

definition hash_to_u64_with_keys :: "u64 \<Rightarrow> u64 \<Rightarrow> bytes \<Rightarrow> u64 option" where
  "hash_to_u64_with_keys a b data = map_option from_engine_to_u64 (sip_input (with_keys a b) data)"

definition sip_from_u64 :: "u64 \<Rightarrow> bytes" where
  "sip_from_u64 h = to_le_bytes h"

definition sip_as_u64 :: "bytes \<Rightarrow> u64" where
  "sip_as_u64 h = from_le_bytes h"

definition sip_from_engine :: "siphash_engine \<Rightarrow> bytes" where
  "sip_from_engine e = sip_from_u64 (from_engine_to_u64 e)"

definition hash_with_keys :: "u64 \<Rightarrow> u64 \<Rightarrow> bytes \<Rightarrow> bytes option" where
  "hash_with_keys a b data = map_option sip_from_engine (sip_input (with_keys a b) data)"

section \<open>The reference\<close>

text \<open>One round of SipHash, and the hash with two rounds per word and four at the end.\<close>

fun sip_round :: "u64 \<times> u64 \<times> u64 \<times> u64 \<Rightarrow> u64 \<times> u64 \<times> u64 \<times> u64" where
  "sip_round (a, b, c, d) =
     (let a = a + b; c = c + d; b = word_rotl 13 b; d = word_rotl 16 d; b = b XOR a; d = d XOR c; a = word_rotl 32 a;
          c = c + b; a = a + d; b = word_rotl 17 b; d = word_rotl 21 d; b = b XOR c; d = d XOR a; c = word_rotl 32 c in
      (a, b, c, d))"

fun sip_ref_word :: "u64 \<Rightarrow> u64 \<times> u64 \<times> u64 \<times> u64 \<Rightarrow> u64 \<times> u64 \<times> u64 \<times> u64" where
  "sip_ref_word m (a, b, c, d) = (case (sip_round ^^ 2) (a, b, c, d XOR m) of (a, b, c, d) \<Rightarrow> (a XOR m, b, c, d))"

definition sip_padded :: "bytes \<Rightarrow> bytes" where
  "sip_padded m = m @ replicate (7 - length m mod 8) 0 @ [of_nat (length m)]"

definition siphash_2_4 :: "u64 \<Rightarrow> u64 \<Rightarrow> bytes \<Rightarrow> u64" where
  "siphash_2_4 a b m =
     (case absorb 8 (\<lambda>s w. sip_ref_word (from_le_bytes w) s)
             (a XOR 0x736f6d6570736575, b XOR 0x646f72616e646f6d, a XOR 0x6c7967656e657261, b XOR 0x7465646279746573) (sip_padded m)
      of (a, b, c, d) \<Rightarrow> case (sip_round ^^ 4) (a, b, c XOR 0xff, d) of (a, b, c, d) \<Rightarrow> a XOR b XOR c XOR d)"

section \<open>Reading bytes\<close>

lemma or_shift:
  assumes "x < 2 ^ k"
  shows "(of_nat x :: u64) OR push_bit k (of_nat y) = of_nat (x + 2 ^ k * y)"
proof -
  have "x AND push_bit k y = 0"
  proof (rule bit_eqI)
    fix n
    show "bit (x AND push_bit k y) n = bit (0 :: nat) n"
    proof (cases "n < k")
      case False
      then have "x < 2 ^ n" using assms by (meson le_less_trans linorder_not_less power_increasing_iff one_less_numeral_iff semiring_norm(76) order_less_le_trans)
      then have "\<not> bit x n" by (simp add: bit_nat_def)
      then show ?thesis by (simp add: bit_and_iff)
    qed (simp add: bit_simps)
  qed
  then have "x + push_bit k y = x OR push_bit k y" by (rule disjunctive_add_eq_or)
  then have "of_nat (x + 2 ^ k * y) = (of_nat (x OR push_bit k y) :: u64)" by (simp add: push_bit_eq_mult mult.commute)
  then show ?thesis by (simp only: of_nat_or_eq push_bit_of_nat)
qed

lemma le_value_take_bound: "le_value (take i xs) < 2 ^ (8 * i)"
proof -
  have "le_value (take i xs) < 2 ^ (8 * length (take i xs))" using le_value_less [of "take i xs"] by (simp add: power_256)
  also have "\<dots> \<le> 2 ^ (8 * i)" by (intro power_increasing) simp_all
  finally show ?thesis .
qed

lemma or_le_value:
  assumes "i \<le> length xs"
  shows "(of_nat (le_value (take i xs)) :: u64) OR push_bit (8 * i) (of_nat (le_value (take n (drop i xs)))) = of_nat (le_value (take (i + n) xs))"
  using or_shift [OF le_value_take_bound, of i xs] assms by (simp add: take_add le_value_append power_256 min_absorb2)

lemma load_at:
  assumes "i + LENGTH('a) div 8 \<le> length xs" "LENGTH('a) \<le> 64" "8 dvd LENGTH('a)"
  shows "\<exists>x. load_int_le (pre @ xs @ post) (length pre + i) = Some (x :: 'a::len word) \<and> (ucast x :: u64) = of_nat (le_value (take (LENGTH('a) div 8) (drop i xs)))"
proof -
  let ?b = "take (LENGTH('a) div 8) (drop i xs)"
  have "unat (from_le_bytes ?b :: 'a word) = le_value ?b" using assms by (intro unat_from_le_bytes) simp
  then have "(ucast (from_le_bytes ?b :: 'a word) :: u64) = of_nat (le_value ?b)" by (metis of_nat_unat)
  then show ?thesis using assms by (auto simp: load_int_le_def Let_def)
qed

lemma u8to64_le_at:
  assumes "length xs < 8"
  shows "u8to64_le (pre @ xs @ post) (length pre) (length xs) = Some (of_nat (le_value xs))"
proof -
  let ?buf = "pre @ xs @ post"
  define i where "i = (if 3 < length xs then 4 else 0 :: nat)"
  have i: "i \<le> length xs" "length xs - i < 4" using assms by (auto simp: i_def)
  have first: "(if 0 + 3 < length xs then do { x \<leftarrow> (load_int_le ?buf (length pre + 0) :: u32 option); Some (0 + 4, ucast x) } else Some (0, 0))
      = Some (i, of_nat (le_value (take i xs)) :: u64)"
  proof (cases "3 < length xs")
    case True
    then show ?thesis using load_at [where ?'a = 32, of 0 xs pre post] by (auto simp: i_def)
  qed (simp add: i_def)
  define j where "j = (if i + 1 < length xs then i + 2 else i)"
  have j: "j \<le> length xs" "length xs - j < 2" using i by (auto simp: j_def)
  have second: "(if i + 1 < length xs then do { x \<leftarrow> (load_int_le ?buf (length pre + i) :: u16 option); Some (i + 2, of_nat (le_value (take i xs)) OR push_bit (i * 8) (ucast x)) }
      else Some (i, of_nat (le_value (take i xs)))) = Some (j, of_nat (le_value (take j xs)) :: u64)"
  proof (cases "i + 1 < length xs")
    case True
    then show ?thesis using load_at [where ?'a = 16, of i xs pre post] or_le_value [OF i(1), of 2] by (auto simp: j_def mult.commute)
  qed (simp add: j_def)
  have third: "(if j < length xs then do { x \<leftarrow> (load_int_le ?buf (length pre + j) :: u8 option); Some (of_nat (le_value (take j xs)) OR push_bit (j * 8) (ucast x)) }
      else Some (of_nat (le_value (take j xs)))) = Some (of_nat (le_value xs) :: u64)"
  proof (cases "j < length xs")
    case True
    then have "take (j + 1) xs = xs" using j by simp
    then show ?thesis using True load_at [where ?'a = 8, of j xs pre post] or_le_value [OF j(1), of 1] by (auto simp: mult.commute)
  next
    case False
    then show ?thesis using j by simp
  qed
  show ?thesis unfolding u8to64_le_def first Option.bind_lunit prod.case second third ..
qed

section \<open>The engine and the message it has seen\<close>

definition sip_absorb :: "sip_state \<Rightarrow> bytes \<Rightarrow> sip_state" where
  "sip_absorb = absorb 8 (\<lambda>s w. sip_word (from_le_bytes w) s)"

definition sip_holds :: "u64 \<Rightarrow> u64 \<Rightarrow> bytes \<Rightarrow> siphash_engine \<Rightarrow> bool" where
  "sip_holds a b m e \<longleftrightarrow> sip_keys e = (a, b) \<and> sip_length e = length m \<and> ntail e = length m mod 8
     \<and> sip_st e = sip_absorb (sip_st (with_keys a b)) m \<and> sip_tail e = of_nat (le_value (tail_of 8 m))"

lemma sip_holds_new: "sip_holds a b [] (with_keys a b)"
  by (simp add: sip_holds_def sip_keys_def with_keys_def sip_absorb_def absorb_short tail_of_def)

lemma sip_absorb_block: "length w = 8 \<Longrightarrow> sip_absorb s (w @ m) = sip_absorb (sip_word (from_le_bytes w) s) m"
  by (simp add: sip_absorb_def absorb_block)

lemma sip_loop_runs:
  assumes "i = length pre" and "length ws = 8 * n" and "stop \<le> i + 8 * n" and "0 < n \<Longrightarrow> i + 8 * n < stop + 8"
  shows "sip_loop (pre @ ws @ post) stop i s = Some (i + 8 * n, sip_absorb s ws)"
  using assms
proof (induction n arbitrary: pre i ws s)
  case 0
  then show ?case by (simp add: sip_loop.simps sip_absorb_def absorb_short)
next
  case (Suc n)
  define w where "w = take 8 ws"
  have ws: "ws = w @ drop 8 ws" "length w = 8" "length (drop 8 ws) = 8 * n" using Suc.prems by (simp_all add: w_def)
  have load: "load_int_le (pre @ ws @ post) i = Some (from_le_bytes w :: u64)"
    using Suc.prems by (simp add: load_int_le_def w_def)
  have split: "(pre @ w) @ drop 8 ws @ post = pre @ ws @ post" using ws(1) by (metis append.assoc)
  have "sip_loop ((pre @ w) @ drop 8 ws @ post) stop (i + 8) (sip_word (from_le_bytes w) s)
      = Some (i + 8 + 8 * n, sip_absorb (sip_word (from_le_bytes w) s) (drop 8 ws))"
    using Suc.prems ws by (intro Suc.IH) auto
  moreover note this [unfolded split]
  moreover have "sip_absorb s ws = sip_absorb (sip_word (from_le_bytes w) s) (drop 8 ws)" using sip_absorb_block [OF ws(2)] ws(1) by metis
  moreover have "i < stop" using Suc.prems by simp
  ultimately show ?case by (simp add: sip_loop.simps [of _ _ i] load ac_simps)
qed

lemma and_7: "n < 2 ^ 64 \<Longrightarrow> unat (of_nat n AND 7 :: u64) = n mod 8"
proof -
  assume n: "n < 2 ^ 64"
  have "(7 :: u64) = mask 3" by (simp add: mask_eq_exp_minus_1)
  then have "of_nat n AND 7 = take_bit 3 (of_nat n :: u64)" by (simp add: take_bit_eq_mask)
  then show ?thesis using n by (simp add: take_bit_eq_mod unat_mod unat_of_nat)
qed

lemma sip_fresh_runs:
  assumes "length pre < 8" and "length (pre @ x) < 2 ^ 64"
  shows "sip_fresh e (pre @ x) (length pre) = Some (e\<lparr> sip_st := sip_absorb (sip_st e) x,
           sip_tail := of_nat (le_value (tail_of 8 x)), ntail := length x mod 8 \<rparr>)"
proof -
  let ?n = "length x div 8"
  define ws where "ws = take (8 * ?n) x"
  have x: "x = ws @ tail_of 8 x" "length ws = 8 * ?n" by (simp_all add: ws_def tail_of_def min_absorb2)
  have left: "unat (of_nat (length x) AND 7 :: u64) = length x mod 8" using assms(2) by (intro and_7) simp
  have stop: "length x - length x mod 8 = 8 * ?n" by (rule minus_mod_eq_mult_div)
  have "sip_loop (pre @ ws @ tail_of 8 x) (8 * ?n) (length pre) (sip_st e) = Some (length pre + 8 * ?n, sip_absorb (sip_st e) ws)"
    using assms(1) x(2) by (intro sip_loop_runs) simp_all
  moreover have "u8to64_le ((pre @ ws) @ tail_of 8 x @ []) (length (pre @ ws)) (length (tail_of 8 x)) = Some (of_nat (le_value (tail_of 8 x)))"
    by (rule u8to64_le_at) (simp add: length_tail_of)
  moreover have "sip_absorb (sip_st e) x = sip_absorb (sip_st e) ws"
  proof -
    have "sip_absorb (sip_st e) (ws @ tail_of 8 x) = sip_absorb (sip_absorb (sip_st e) ws) (tail_of 8 x)"
      unfolding sip_absorb_def using x(2) by (intro absorb_append) simp_all
    then show ?thesis using x(1) by (simp add: sip_absorb_def absorb_short length_tail_of)
  qed
  ultimately show ?thesis
    using x by (simp add: sip_fresh_def left stop length_tail_of)
qed

lemma tail_of_append_blocks:
  assumes "B dvd length a" "0 < B"
  shows "tail_of B (a @ x) = tail_of B x"
proof -
  have "(length a + length x) div B = length a div B + length x div B" using assms by (simp add: div_plus_div_distrib_dvd_left)
  then have "B * ((length a + length x) div B) = length a + B * (length x div B)" using assms by (simp add: distrib_left)
  then show ?thesis by (simp add: tail_of_def)
qed

lemma sip_holds_input:
  assumes h: "sip_holds a b m e" and x: "length x < 2 ^ 64"
  shows "\<exists>e'. sip_input e x = Some e' \<and> sip_holds a b (m @ x) e'"
proof (cases "length m mod 8 = 0")
  case True
  have "tail_of 8 m = []" using True length_tail_of [of 8 m] by simp
  have "8 dvd length m" using True by auto
  then have "sip_absorb s (m @ x) = sip_absorb (sip_absorb s m) x" for s unfolding sip_absorb_def by (intro absorb_append) simp_all
  moreover have "tail_of 8 (m @ x) = tail_of 8 x" using \<open>8 dvd length m\<close> by (simp add: tail_of_append_blocks)
  moreover have "(length m + length x) mod 8 = length x mod 8" using True mod_add_left_eq [of "length m" 8 "length x"] by simp
  ultimately show ?thesis
    using h True sip_fresh_runs [of "[]" x "e\<lparr> sip_length := sip_length e + length x \<rparr>"] x
    by (simp add: sip_input_def Let_def sip_holds_def sip_keys_def)
next
  case False
  let ?t = "length m mod 8" and ?T = "tail_of 8 m"
  have t: "length ?T = ?t" "?t < 8" "0 < ?t" using False by (simp_all add: length_tail_of)
  define y where "y = take (8 - ?t) x"
  have read: "u8to64_le x 0 (min (length x) (8 - ?t)) = Some (of_nat (le_value y))"
    using u8to64_le_at [of y "[]" "drop (8 - ?t) x"] t by (simp add: y_def min.commute)
  have join: "(of_nat (le_value ?T) :: u64) OR push_bit (8 * ?t) (of_nat (le_value y)) = of_nat (le_value (?T @ y))"
    using or_le_value [of ?t "?T @ y" "length y"] t by simp
  show ?thesis
  proof (cases "length x < 8 - ?t")
    case True
    then have "y = x" by (simp add: y_def)
    moreover have "tail_of 8 (m @ x) = ?T @ x" using True by (intro tail_of_append_short) simp
    moreover have "sip_absorb s (m @ x) = sip_absorb s m" for s
      using True t unfolding sip_absorb_def by (subst absorb_tail_append) (simp_all add: absorb_short)
    moreover have "(length m + length x) mod 8 = ?t + length x" using True mod_add_left_eq [of "length m" 8 "length x"] by simp
    ultimately show ?thesis using h True False read join by (simp add: sip_input_def Let_def sip_holds_def sip_keys_def)
  next
    case ge: False
    define z where "z = drop (8 - ?t) x"
    have xz: "x = y @ z" "length y = 8 - ?t" using ge by (simp_all add: y_def z_def)
    have block: "length (?T @ y) = 8" using xz t by simp
    have full: "sip_absorb s (m @ x) = sip_absorb (sip_word (of_nat (le_value (?T @ y))) (sip_absorb s m)) z" for s
      using sip_absorb_block [OF block, of "sip_absorb s m" z]
      by (simp add: sip_absorb_def absorb_tail_append [of 8 _ s m] xz(1) from_le_bytes_def)
    have "length (m @ y) mod 8 = 0" using xz(2) t mod_add_left_eq [of "length m" 8 "length y"] by simp
    then have dvd: "8 dvd length (m @ y)" by auto
    then have tl: "tail_of 8 (m @ x) = tail_of 8 z" unfolding xz(1) append.assoc [symmetric] by (intro tail_of_append_blocks) simp_all
    have md: "(length m + length x) mod 8 = length z mod 8" using dvd by (auto simp: xz(1) elim!: dvdE simp flip: add.assoc)
    have "length (y @ z) < 2 ^ 64" "length y < 8" using x xz t by simp_all
    then show ?thesis
      using h ge False read join full tl md xz
        sip_fresh_runs [of y z "e\<lparr> sip_length := sip_length e + length x, sip_tail := of_nat (le_value (?T @ y)), sip_st := sip_word (of_nat (le_value (?T @ y))) (sip_st e), ntail := 0 \<rparr>"]
      by (simp add: sip_input_def Let_def sip_holds_def sip_keys_def)
  qed
qed

text \<open>Data in pieces.\<close>

fun sip_inputs :: "siphash_engine \<Rightarrow> bytes list \<Rightarrow> siphash_engine option" where
  "sip_inputs e [] = Some e"
| "sip_inputs e (c # cs) = do { e \<leftarrow> sip_input e c; sip_inputs e cs }"

lemma sip_inputs_hold:
  assumes "sip_holds a b m e" and "list_all (\<lambda>c. length c < 2 ^ 64) cs"
  shows "\<exists>e'. sip_inputs e cs = Some e' \<and> sip_holds a b (m @ concat cs) e'"
  using assms
proof (induction cs arbitrary: e m)
  case (Cons c cs)
  then obtain e1 where "sip_input e c = Some e1" "sip_holds a b (m @ c) e1" using sip_holds_input [of a b m e c] by auto
  moreover from Cons.IH [OF this(2)] Cons.prems obtain e2 where "sip_inputs e1 cs = Some e2" "sip_holds a b ((m @ c) @ concat cs) e2" by auto
  ultimately show ?case by simp
qed simp

section \<open>The code computes the reference\<close>

definition sip_regs :: "sip_state \<Rightarrow> u64 \<times> u64 \<times> u64 \<times> u64" where
  "sip_regs s = (v0 s, v1 s, v2 s, v3 s)"

lemma regs_compress: "sip_regs (sip_compress s) = sip_round (sip_regs s)"
  by (simp add: sip_regs_def sip_compress_def Let_def)

lemma regs_word: "sip_regs (sip_word m s) = sip_ref_word m (sip_regs s)"
proof -
  have c: "sip_regs (c_rounds s) = (sip_round ^^ 2) (sip_regs s)" for s by (simp add: c_rounds_def regs_compress numeral_2_eq_2)
  have "sip_regs (s\<lparr> v3 := v3 s XOR m \<rparr>) = (v0 s, v1 s, v2 s, v3 s XOR m)" by (simp add: sip_regs_def)
  with c [of "s\<lparr> v3 := v3 s XOR m \<rparr>"] show ?thesis
    by (simp add: sip_word_def Let_def sip_regs_def [of s] split: prod.split) (auto simp: sip_regs_def)
qed

lemma regs_absorb: "sip_regs (sip_absorb s m) = absorb 8 (\<lambda>s w. sip_ref_word (from_le_bytes w) s) (sip_regs s) m"
proof (induction "length m" arbitrary: m s rule: less_induct)
  case less
  show ?case
  proof (cases "length m < 8")
    case False
    then have "sip_absorb s m = sip_absorb (sip_word (from_le_bytes (take 8 m)) s) (drop 8 m)"
      using sip_absorb_block [of "take 8 m" s "drop 8 m"] by simp
    moreover have "absorb 8 P h m = absorb 8 P (P h (take 8 m)) (drop 8 m)" for P and h :: "u64 \<times> u64 \<times> u64 \<times> u64"
      using absorb_block [of "take 8 m" 8 P h "drop 8 m"] False by simp
    ultimately show ?thesis using False less.hyps [of "drop 8 m"] by (simp add: regs_word)
  qed (simp add: sip_absorb_def absorb_short)
qed

lemma last_word:
  assumes "length T < 8"
  shows "push_bit 56 (of_nat n AND 0xff) OR of_nat (le_value T) = (from_le_bytes (T @ replicate (7 - length T) 0 @ [of_nat n]) :: u64)"
proof -
  have zeros: "le_value (replicate k 0) = 0" for k by (induction k) simp_all
  have "(0xff :: u64) = mask 8" by (simp add: mask_eq_exp_minus_1)
  then have "(of_nat n AND 0xff :: u64) = take_bit 8 (of_nat n)" by (simp only: take_bit_eq_mask)
  then have byte: "(of_nat n AND 0xff :: u64) = of_nat (n mod 256)" by (simp only: take_bit_of_nat) (simp add: take_bit_eq_mod)
  have "le_value T < 2 ^ (8 * length T)" using le_value_less [of T] by (simp add: power_256)
  also have "\<dots> \<le> 2 ^ 56" using assms by (intro power_increasing) simp_all
  finally have "le_value T < 2 ^ 56" .
  from or_shift [OF this, of "n mod 256"]
  have "push_bit 56 (of_nat n AND 0xff) OR of_nat (le_value T) = (of_nat (le_value T + 2 ^ 56 * (n mod 256)) :: u64)"
    unfolding byte by (simp only: or.commute)
  moreover have "length T + (7 - length T) = 7" using assms by simp
  then have "(256 :: nat) ^ length T * 256 ^ (7 - length T) = 2 ^ 56" by (simp only: power_add [symmetric]) simp
  then have "le_value (T @ replicate (7 - length T) 0 @ [of_nat n]) = le_value T + 2 ^ 56 * (n mod 256)"
    by (simp add: le_value_append zeros unat_u8_of_nat mult.assoc [symmetric])
  ultimately show ?thesis unfolding from_le_bytes_def by (simp only:)
qed

lemma finish_reference:
  assumes "sip_holds a b m e"
  shows "from_engine_to_u64 e = siphash_2_4 a b m"
proof -
  let ?s0 = "sip_st (with_keys a b)" and ?T = "tail_of 8 m"
  let ?last = "?T @ replicate (7 - length m mod 8) 0 @ [of_nat (length m)]"
  have T: "length ?T = length m mod 8" by (rule length_tail_of)
  have "sip_absorb ?s0 (sip_padded m) = sip_word (from_le_bytes ?last) (sip_absorb ?s0 m)"
    using sip_absorb_block [of ?last "sip_absorb ?s0 m" "[]"] T
    by (simp add: sip_padded_def sip_absorb_def absorb_tail_append [of 8 _ _ m] absorb_short)
  moreover have "from_le_bytes ?last = push_bit 56 (of_nat (length m) AND 0xff) OR sip_tail e"
    using last_word [of ?T "length m"] T assms by (simp add: sip_holds_def)
  ultimately have st: "sip_word (push_bit 56 (of_nat (sip_length e) AND 0xff) OR sip_tail e) (sip_st e) = sip_absorb ?s0 (sip_padded m)"
    using assms by (simp add: sip_holds_def)
  have d: "sip_regs (d_rounds s) = (sip_round ^^ 4) (sip_regs s)" for s
    by (simp add: d_rounds_def regs_compress eval_nat_numeral)
  define S where "S = sip_absorb ?s0 (sip_padded m)"
  have "sip_regs S = absorb 8 (\<lambda>s w. sip_ref_word (from_le_bytes w) s) (sip_regs ?s0) (sip_padded m)" unfolding S_def by (rule regs_absorb)
  then have abs: "absorb 8 (\<lambda>s w. sip_ref_word (from_le_bytes w) s) (a XOR 0x736f6d6570736575, b XOR 0x646f72616e646f6d, a XOR 0x6c7967656e657261, b XOR 0x7465646279746573) (sip_padded m)
      = (v0 S, v1 S, v2 S, v3 S)" by (simp add: sip_regs_def with_keys_def)
  have "(sip_round ^^ 4) (v0 S, v1 S, v2 S XOR 0xff, v3 S) = sip_regs (d_rounds (S\<lparr> v2 := v2 S XOR 0xff \<rparr>))" by (simp only: d) (simp add: sip_regs_def)
  then show ?thesis unfolding siphash_2_4_def abs from_engine_to_u64_def st Let_def S_def [symmetric] by (simp add: sip_regs_def)
qed

section \<open>Properties\<close>

text \<open>
  C33: The SipHash engine never reads outside the data it is given, and, however the data is split over calls of
  \<open>input\<close>, returns the SipHash-2-4 of the concatenated data under its keys; the bytes of the hash are that number in
  little-endian order.
\<close>

theorem siphash_engine_correct:
  assumes "list_all (\<lambda>c. length c < 2 ^ 64) cs"
  shows "\<exists>e. sip_inputs (with_keys a b) cs = Some e \<and> sip_keys e = (a, b) \<and> from_engine_to_u64 e = siphash_2_4 a b (concat cs)
    \<and> sip_as_u64 (sip_from_engine e) = siphash_2_4 a b (concat cs)"
  using sip_inputs_hold [OF sip_holds_new assms, of a b] finish_reference
  by (auto simp: sip_holds_def sip_as_u64_def sip_from_engine_def sip_from_u64_def from_to_le_bytes)

theorem siphash_engine_correct_witness:
  "\<exists>e. sip_inputs (with_keys 7 9) [[1, 2, 3], [4, 5, 6, 7, 8, 9, 10, 11]] = Some e
     \<and> from_engine_to_u64 e = siphash_2_4 7 9 [1, 2, 3, 4, 5, 6, 7, 8, 9, 10, 11]"
  using siphash_engine_correct [of "[[1, 2, 3], [4, 5, 6, 7, 8, 9, 10, 11]]" 7 9] by auto

end
