(* ===== verification/Block_Filter.thy ===== *)
theory Block_Filter
  imports Bit_Stream Siphash Block "HOL-Library.List_Lexorder"
begin

text \<open>
  Block filters (\<open>src/litecoin/src/bip158.rs\<close>): Golomb-coded sets of SipHash values, their writer and their reader, and
  the filter of the scripts of a block. The bit streams and the Golomb-Rice code are in theory Bit_Stream. \<open>Panic\<close> is
  also used where a hash would read out of bounds, which never happens.
\<close>

section \<open>The code\<close>

datatype filter_error = UtxoMissing OutPoint | FilterIo io_failure

definition P_param :: nat where "P_param = 19"

definition M_param :: u64 where "M_param = 784931"

text \<open>\<open>GcsFilter\<close> with the factor \<open>m\<close> of its reader and writer.\<close>

record gcs =
  gcs_k0 :: u64
  gcs_k1 :: u64
  gcs_p :: nat
  gcs_m :: u64

definition gcs_hash :: "gcs \<Rightarrow> bytes \<Rightarrow> io_failure + u64" where
  "gcs_hash f element = (case hash_to_u64_with_keys (gcs_k0 f) (gcs_k1 f) element of None \<Rightarrow> Inl Panic | Some h \<Rightarrow> Inr h)"

definition map_to_range :: "u64 \<Rightarrow> u64 \<Rightarrow> u64" where
  "map_to_range hash nm = ucast (drop_bit 64 (ucast hash * ucast nm :: 128 word))"

fun map_elements :: "gcs \<Rightarrow> u64 \<Rightarrow> bytes list \<Rightarrow> io_failure + u64 list" where
  "map_elements f nm [] = Inr []"
| "map_elements f nm (e # es) = and_then (gcs_hash f e) (\<lambda>h. and_then (map_elements f nm es) (\<lambda>hs. Inr (map_to_range h nm # hs)))"

text \<open>The writer: a \<open>BTreeSet\<close> of elements, kept as a sorted list.\<close>

definition gcs_add_element :: "bytes list \<Rightarrow> bytes \<Rightarrow> bytes list" where
  "gcs_add_element elements element = (if element \<noteq> [] then insort_insert element elements else elements)"

fun write_deltas :: "gcs \<Rightarrow> u64 list \<Rightarrow> u64 \<Rightarrow> nat \<Rightarrow> bit_writer \<Rightarrow> io_failure + (nat \<times> bit_writer)" where
  "write_deltas f [] last_value n w = Inr (n, w)"
| "write_deltas f (data # ds) last_value n w =
     and_then (golomb_rice_encode (gcs_p f) w (data - last_value)) (\<lambda>(k, w). write_deltas f ds data (n + k) w)"

text \<open>The bytes written to the wrapped writer and the count returned.\<close>

definition gcs_finish :: "gcs \<Rightarrow> bytes list \<Rightarrow> io_failure encoded" where
  "gcs_finish f elements =
     (let nm = of_nat (length elements) * gcs_m f in
      and_then (map_elements f nm elements) (\<lambda>mapped.
      let mapped = sort mapped in
      enc_seq (varint_encode (of_nat (length mapped)))
        (and_then (write_deltas f mapped 0 0 bit_writer_new) (\<lambda>(n, w). let (k, w) = bit_flush w in Inr (bw_out w, n + k)))))"

text \<open>The two merges of sorted queries with the values of the filter.\<close>

function match_any_loop :: "gcs \<Rightarrow> u64 list \<Rightarrow> u64 \<Rightarrow> u64 \<Rightarrow> bit_reader \<Rightarrow> io_failure + bool" where
  "match_any_loop f [] data n r = Inr False"
| "match_any_loop f (p # ps) data n r =
     (if data = p then Inr True
      else if data < p then
        (if n > 0 then and_then (golomb_rice_decode (gcs_p f) r) (\<lambda>(d, r). match_any_loop f (p # ps) (data + d) (n - 1) r)
         else Inr False)
      else match_any_loop f ps data n r)"
  by pat_completeness auto
termination
  by (relation "measure (\<lambda>(f, ps, data, n, r). length ps + unat n)") (auto simp: unat_minus_one unat_gt_0)

function match_all_loop :: "gcs \<Rightarrow> u64 list \<Rightarrow> u64 \<Rightarrow> u64 \<Rightarrow> bit_reader \<Rightarrow> io_failure + bool" where
  "match_all_loop f [] data n r = Inr True"
| "match_all_loop f (p # ps) data n r =
     (if data = p then match_all_loop f ps data n r
      else if data < p then
        (if n > 0 then and_then (golomb_rice_decode (gcs_p f) r) (\<lambda>(d, r). match_all_loop f (p # ps) (data + d) (n - 1) r)
         else Inr False)
      else Inr False)"
  by pat_completeness auto
termination
  by (relation "measure (\<lambda>(f, ps, data, n, r). length ps + unat n)") (auto simp: unat_minus_one unat_gt_0)

declare match_any_loop.simps(2) [simp del] match_all_loop.simps(2) [simp del]

text \<open>\<open>unwrap_or(VarInt(0))\<close>.\<close>

definition read_n_elements :: "bytes \<Rightarrow> u64 \<times> bytes" where
  "read_n_elements cont = (case varint_decode cont of Inl e \<Rightarrow> (0, cont) | Inr (n, r) \<Rightarrow> (n, r))"

definition gcs_match_any :: "gcs \<Rightarrow> bytes \<Rightarrow> bytes list \<Rightarrow> io_failure + bool" where
  "gcs_match_any f cont query =
     (let (n_elements, r) = read_n_elements cont;
          nm = n_elements * gcs_m f in
      and_then (map_elements f nm query) (\<lambda>mapped.
      let mapped = sort mapped in
      if mapped = [] then Inr False
      else if n_elements = 0 then Inr False
      else and_then (golomb_rice_decode (gcs_p f) (bit_reader_new r)) (\<lambda>(data, r). match_any_loop f mapped data (n_elements - 1) r)))"

definition gcs_match_all :: "gcs \<Rightarrow> bytes \<Rightarrow> bytes list \<Rightarrow> io_failure + bool" where
  "gcs_match_all f cont query =
     (let (n_elements, r) = read_n_elements cont;
          nm = n_elements * gcs_m f in
      and_then (map_elements f nm query) (\<lambda>mapped.
      let mapped = remdups_adj (sort mapped) in
      if mapped = [] then Inr True
      else if n_elements = 0 then Inr False
      else and_then (golomb_rice_decode (gcs_p f) (bit_reader_new r)) (\<lambda>(data, r). match_all_loop f mapped data (n_elements - 1) r)))"

text \<open>\<open>BlockFilterWriter::new\<close> and \<open>BlockFilterReader::new\<close>: the keys are the first 16 bytes of the block hash.\<close>

definition block_gcs :: "bytes \<Rightarrow> gcs" where
  "block_gcs hash = \<lparr> gcs_k0 = from_le_bytes (take 8 hash), gcs_k1 = from_le_bytes (take 8 (drop 8 hash)), gcs_p = P_param, gcs_m = M_param \<rparr>"

definition add_output_scripts :: "'k Block \<Rightarrow> bytes list \<Rightarrow> bytes list" where
  "add_output_scripts b elements =
     fold (\<lambda>tx. fold (\<lambda>out elements. if \<not> is_op_return (script_pubkey out) then gcs_add_element elements (script_pubkey out) else elements)
       (tx_output tx)) (txdata b) elements"

fun add_scripts :: "(OutPoint \<Rightarrow> filter_error + bytes) \<Rightarrow> OutPoint list \<Rightarrow> bytes list \<Rightarrow> filter_error + bytes list" where
  "add_scripts script_for_coin [] elements = Inr elements"
| "add_scripts script_for_coin (c # cs) elements =
     (case script_for_coin c of Inr script \<Rightarrow> add_scripts script_for_coin cs (gcs_add_element elements script) | Inl e \<Rightarrow> Inl e)"

definition add_input_scripts :: "'k Block \<Rightarrow> (OutPoint \<Rightarrow> filter_error + bytes) \<Rightarrow> bytes list \<Rightarrow> filter_error + bytes list" where
  "add_input_scripts b script_for_coin elements =
     add_scripts script_for_coin (concat (map (\<lambda>t. map previous_output (tx_input t)) (drop 1 (txdata b)))) elements"

definition new_script_filter :: "'k Block \<Rightarrow> (OutPoint \<Rightarrow> filter_error + bytes) \<Rightarrow> filter_error + bytes" where
  "new_script_filter b script_for_coin =
     (case block_hash (header b) of None \<Rightarrow> Inl (FilterIo Panic)
      | Some hash \<Rightarrow>
         and_then (add_input_scripts b script_for_coin (add_output_scripts b [])) (\<lambda>elements.
         and_then (map_err FilterIo (gcs_finish (block_gcs hash) elements)) (\<lambda>(out, n). Inr out)))"

definition filter_match_any :: "bytes \<Rightarrow> bytes \<Rightarrow> bytes list \<Rightarrow> filter_error + bool" where
  "filter_match_any cont hash query = map_err FilterIo (gcs_match_any (block_gcs hash) cont query)"

definition filter_match_all :: "bytes \<Rightarrow> bytes \<Rightarrow> bytes list \<Rightarrow> filter_error + bool" where
  "filter_match_all cont hash query = map_err FilterIo (gcs_match_all (block_gcs hash) cont query)"

definition filter_hash_header :: "bytes \<Rightarrow> bytes \<Rightarrow> bytes" where
  "filter_hash_header filter_hash previous = sha256d_hash (filter_hash @ previous)"

definition filter_header :: "bytes \<Rightarrow> bytes \<Rightarrow> bytes" where
  "filter_header cont previous = filter_hash_header (sha256d_hash cont) previous"

section \<open>Mapping elements\<close>

text \<open>The value of an element in a filter of \<open>n\<close> elements.\<close>

definition gcs_value :: "gcs \<Rightarrow> nat \<Rightarrow> bytes \<Rightarrow> u64" where
  "gcs_value f n e = map_to_range (siphash_2_4 (gcs_k0 f) (gcs_k1 f) e) (of_nat n * gcs_m f)"

lemma gcs_hash_eq: "length e < 2 ^ 64 \<Longrightarrow> gcs_hash f e = Inr (siphash_2_4 (gcs_k0 f) (gcs_k1 f) e)"
  using sip_holds_input [OF sip_holds_new, of e "gcs_k0 f" "gcs_k1 f"]
  by (auto simp: gcs_hash_def hash_to_u64_with_keys_def finish_reference)

lemma map_elements_eq:
  "list_all (\<lambda>e. length e < 2 ^ 64) es \<Longrightarrow> map_elements f (of_nat n * gcs_m f) es = Inr (map (gcs_value f n) es)"
  by (induction es) (simp_all add: gcs_hash_eq gcs_value_def)

section \<open>The filter as a list of bits\<close>

fun deltas :: "u64 \<Rightarrow> u64 list \<Rightarrow> u64 list" where
  "deltas l [] = []"
| "deltas l (v # vs) = (v - l) # deltas v vs"

lemma write_deltas_bits:
  assumes "writer_ok w" "gcs_p f < 64"
  shows "\<exists>k w'. write_deltas f vs l n w = Inr (n + k, w') \<and> appends (concat (map (gr_bits (gcs_p f)) (deltas l vs))) w (k, w')"
  using assms(1)
proof (induction vs arbitrary: l n w)
  case Nil
  then show ?case by (simp add: appends_def)
next
  case (Cons v vs)
  obtain k1 w1 where w1: "golomb_rice_encode (gcs_p f) w (v - l) = Inr (k1, w1)" "appends (gr_bits (gcs_p f) (v - l)) w (k1, w1)"
    using golomb_rice_encode_bits [OF Cons.prems assms(2)] by blast
  obtain k2 w2 where w2: "write_deltas f vs v (n + k1) w1 = Inr (n + k1 + k2, w2)" "appends (concat (map (gr_bits (gcs_p f)) (deltas v vs))) w1 (k2, w2)"
    using Cons.IH [OF appends_ok [OF w1(2)]] by blast
  show ?case using w1(1) w2(1) appends_seq [OF w1(2) w2(2)] by (auto simp: add.assoc)
qed

text \<open>The content of a filter with the sorted values \<open>vs\<close>.\<close>

definition filter_content :: "nat \<Rightarrow> u64 list \<Rightarrow> bytes \<Rightarrow> bool" where
  "filter_content p vs cont \<longleftrightarrow> (\<exists>body k. cont = varint_ser (of_nat (length vs)) @ body
     \<and> concat (map byte_bits body) = concat (map (gr_bits p) (deltas 0 vs)) @ replicate k False)"

lemma gcs_finish_content:
  assumes "gcs_p f < 64" "list_all (\<lambda>e. length e < 2 ^ 64) es"
  shows "\<exists>cont. gcs_finish f es = wrote cont \<and> filter_content (gcs_p f) (sort (map (gcs_value f (length es)) es)) cont"
proof -
  let ?vs = "sort (map (gcs_value f (length es)) es)"
  obtain k w where w: "write_deltas f ?vs 0 0 bit_writer_new = Inr (k, w)" "appends (concat (map (gr_bits (gcs_p f)) (deltas 0 ?vs))) bit_writer_new (k, w)"
    using write_deltas_bits [OF writer_new(1) assms(1), of ?vs 0 0] by auto
  obtain w' j where fl: "bit_flush w = (length (bw_out w') - length (bw_out w), w')" "concat (map byte_bits (bw_out w')) = wbits w @ replicate j False"
      "length (bw_out w) \<le> length (bw_out w')"
    using bit_flush_bits [OF appends_ok [OF w(2)]] by metis
  have "k = length (bw_out w)" "wbits w = concat (map (gr_bits (gcs_p f)) (deltas 0 ?vs))"
    using w(2) by (simp_all add: appends_def writer_new(2)) (simp add: bit_writer_new_def)
  then have "gcs_finish f es = wrote (varint_ser (of_nat (length ?vs)) @ bw_out w')"
    using w(1) fl by (simp add: gcs_finish_def map_elements_eq [OF assms(2)] Let_def varint_encode_wrote)
      (simp add: enc_seq_def wrote_def)
  moreover have "filter_content (gcs_p f) ?vs (varint_ser (of_nat (length ?vs)) @ bw_out w')"
    using fl(2) \<open>wbits w = _\<close> unfolding filter_content_def by auto
  ultimately show ?thesis by blast
qed

section \<open>Matching\<close>

lemma of_nat_Suc_pos:
  assumes "Suc n < 2 ^ 64"
  shows "0 < (of_nat (Suc n) :: u64)" and "of_nat (Suc n) - 1 = (of_nat n :: u64)"
proof -
  have "unat (of_nat (Suc n) :: u64) = Suc n" using assms by (rule unat_of_nat_u64)
  then show "0 < (of_nat (Suc n) :: u64)" by (metis unat_gt_0 zero_less_Suc word_neq_0_conv)
qed simp

text \<open>A reader about to read the differences of \<open>vs\<close> after the value \<open>d\<close>.\<close>

definition reads :: "nat \<Rightarrow> u64 \<Rightarrow> u64 list \<Rightarrow> bit_reader \<Rightarrow> bool" where
  "reads p d vs r \<longleftrightarrow> br_offset r \<le> 8 \<and> (\<exists>us. rbits r = concat (map (gr_bits p) (deltas d vs)) @ us)"

lemma reads_Cons:
  assumes "reads p d (v # vs) r" "p < 64"
  shows "\<exists>r'. golomb_rice_decode p r = Inr (v - d, r') \<and> reads p v vs r'"
  using assms golomb_rice_decode_bits [of r p "v - d"] by (fastforce simp: reads_def)

lemma match_any_loop_values:
  assumes "sorted (d # vs)" "sorted ps" "reads (gcs_p f) d vs r" "gcs_p f < 64" "length vs < 2 ^ 64"
  shows "match_any_loop f ps d (of_nat (length vs)) r = Inr (\<exists>p \<in> set ps. p \<in> set (d # vs))"
  using assms
proof (induction "length ps + length vs" arbitrary: ps d vs r rule: less_induct)
  case less
  show ?case
  proof (cases ps)
    case (Cons q qs)
    consider "d = q" | "d < q" | "q < d" by (rule linorder_cases)
    then show ?thesis
    proof cases
      case 2
      then have out: "d \<notin> set ps" using less.prems(2) by (auto simp: Cons)
      show ?thesis
      proof (cases vs)
        case Nil
        then show ?thesis using 2 out by (auto simp: Cons match_any_loop.simps(2))
      next
        case (Cons v vs')
        obtain r' where r': "golomb_rice_decode (gcs_p f) r = Inr (v - d, r')" "reads (gcs_p f) v vs' r'"
          using reads_Cons less.prems(3,4) Cons by blast
        have "match_any_loop f ps v (of_nat (length vs')) r' = Inr (\<exists>p \<in> set ps. p \<in> set (v # vs'))"
          using less.prems r'(2) Cons by (intro less.hyps) auto
        moreover have "match_any_loop f ps d (of_nat (length vs)) r = match_any_loop f ps v (of_nat (length vs')) r'"
          using 2 r'(1) less.prems(5) of_nat_Suc_pos [of "length vs'"] unfolding \<open>ps = q # qs\<close> Cons
          by (subst match_any_loop.simps(2)) auto
        ultimately show ?thesis using out Cons by auto
      qed
    next
      case 3
      then have "q \<notin> set (d # vs)" using less.prems(1) by auto
      moreover have "match_any_loop f qs d (of_nat (length vs)) r = Inr (\<exists>p \<in> set qs. p \<in> set (d # vs))"
        using less.prems Cons by (intro less.hyps) auto
      ultimately show ?thesis using 3 Cons by (auto simp: match_any_loop.simps(2) [of f q])
    qed (simp add: Cons match_any_loop.simps(2))
  qed simp
qed

lemma match_all_loop_values:
  assumes "sorted (d # vs)" "sorted ps" "reads (gcs_p f) d vs r" "gcs_p f < 64" "length vs < 2 ^ 64"
  shows "match_all_loop f ps d (of_nat (length vs)) r = Inr (\<forall>p \<in> set ps. p \<in> set (d # vs))"
  using assms
proof (induction "length ps + length vs" arbitrary: ps d vs r rule: less_induct)
  case less
  show ?case
  proof (cases ps)
    case (Cons q qs)
    consider "d = q" | "d < q" | "q < d" by (rule linorder_cases)
    then show ?thesis
    proof cases
      case 1
      have "match_all_loop f qs d (of_nat (length vs)) r = Inr (\<forall>p \<in> set qs. p \<in> set (d # vs))"
        using less.prems Cons by (intro less.hyps) auto
      then show ?thesis using 1 Cons by (auto simp: match_all_loop.simps(2) [of f q])
    next
      case 2
      then have out: "d \<notin> set ps" using less.prems(2) by (auto simp: Cons)
      show ?thesis
      proof (cases vs)
        case Nil
        then show ?thesis using 2 out by (auto simp: Cons match_all_loop.simps(2))
      next
        case (Cons v vs')
        obtain r' where r': "golomb_rice_decode (gcs_p f) r = Inr (v - d, r')" "reads (gcs_p f) v vs' r'"
          using reads_Cons less.prems(3,4) Cons by blast
        have "match_all_loop f ps v (of_nat (length vs')) r' = Inr (\<forall>p \<in> set ps. p \<in> set (v # vs'))"
          using less.prems r'(2) Cons by (intro less.hyps) auto
        moreover have "match_all_loop f ps d (of_nat (length vs)) r = match_all_loop f ps v (of_nat (length vs')) r'"
          using 2 r'(1) less.prems(5) of_nat_Suc_pos [of "length vs'"] unfolding \<open>ps = q # qs\<close> Cons
          by (subst match_all_loop.simps(2)) auto
        ultimately show ?thesis using out Cons by auto
      qed
    next
      case 3
      then have "q \<notin> set (d # vs)" using less.prems(1) by auto
      then show ?thesis using 3 Cons by (auto simp: match_all_loop.simps(2) [of f q])
    qed
  qed simp
qed

text \<open>The common head of the two matching functions on a filter with at least one value.\<close>

lemma filter_head:
  assumes "filter_content p (v # vs) c" "p < 64" "length (v # vs) < 2 ^ 64"
  shows "\<exists>body r. read_n_elements c = (of_nat (length (v # vs)), body) \<and> golomb_rice_decode p (bit_reader_new body) = Inr (v, r) \<and> reads p v vs r"
proof -
  obtain body k where c: "c = varint_ser (of_nat (length (v # vs))) @ body"
    and bits: "concat (map byte_bits body) = concat (map (gr_bits p) (deltas 0 (v # vs))) @ replicate k False"
    using assms(1) by (auto simp: filter_content_def)
  have "reads p 0 (v # vs) (bit_reader_new body)" using bits by (simp only: reads_def rbits_new) (auto simp: bit_reader_new_def)
  from reads_Cons [OF this assms(2)] show ?thesis by (simp add: read_n_elements_def c varint_decode_ser)
qed

lemma filter_empty: "filter_content p [] c \<Longrightarrow> \<exists>body. read_n_elements c = (0, body)"
  using varint_decode_ser [of 0] by (auto simp: filter_content_def read_n_elements_def)

lemma no_queries: "sort xs = [] \<longleftrightarrow> xs = []" "remdups_adj xs = [] \<longleftrightarrow> xs = []" for xs :: "u64 list"
  by (metis length_sort length_0_conv) (cases xs rule: remdups_adj.cases; simp)

lemma gcs_match_any_content:
  assumes "filter_content (gcs_p f) vs c" "sorted vs" "gcs_p f < 64" "length vs < 2 ^ 64" "list_all (\<lambda>e. length e < 2 ^ 64) query"
  shows "gcs_match_any f c query = Inr (\<exists>q \<in> set query. gcs_value f (length vs) q \<in> set vs)"
proof (cases vs)
  case Nil
  then obtain body where "read_n_elements c = (0, body)" using filter_empty assms(1) by metis
  then show ?thesis using Nil map_elements_eq [OF assms(5), of f 0] by (simp add: gcs_match_any_def Let_def)
next
  case (Cons v vs')
  let ?ps = "sort (map (gcs_value f (length vs)) query)"
  from filter_head assms(1,3,4) Cons obtain body r where
    head: "read_n_elements c = (of_nat (length vs), body)" "golomb_rice_decode (gcs_p f) (bit_reader_new body) = Inr (v, r)" "reads (gcs_p f) v vs' r"
    by metis
  have "match_any_loop f ?ps v (of_nat (length vs')) r = Inr (\<exists>p \<in> set ?ps. p \<in> set (v # vs'))"
    using assms(2-4) head(3) Cons by (intro match_any_loop_values) simp_all
  moreover have "of_nat (length vs) \<noteq> (0 :: u64)" "of_nat (length vs) - 1 = (of_nat (length vs') :: u64)"
    using of_nat_Suc_pos [of "length vs'"] assms(4) Cons by simp_all
  ultimately show ?thesis
    using head(1,2) by (simp add: gcs_match_any_def map_elements_eq [OF assms(5)] Let_def no_queries Cons [symmetric])
qed

lemma gcs_match_all_content:
  assumes "filter_content (gcs_p f) vs c" "sorted vs" "gcs_p f < 64" "length vs < 2 ^ 64" "list_all (\<lambda>e. length e < 2 ^ 64) query"
  shows "gcs_match_all f c query = Inr (\<forall>q \<in> set query. gcs_value f (length vs) q \<in> set vs)"
proof (cases vs)
  case Nil
  then obtain body where "read_n_elements c = (0, body)" using filter_empty assms(1) by metis
  then show ?thesis using Nil map_elements_eq [OF assms(5), of f 0] by (auto simp: gcs_match_all_def Let_def no_queries)
next
  case (Cons v vs')
  let ?ps = "remdups_adj (sort (map (gcs_value f (length vs)) query))"
  from filter_head assms(1,3,4) Cons obtain body r where
    head: "read_n_elements c = (of_nat (length vs), body)" "golomb_rice_decode (gcs_p f) (bit_reader_new body) = Inr (v, r)" "reads (gcs_p f) v vs' r"
    by metis
  have "match_all_loop f ?ps v (of_nat (length vs')) r = Inr (\<forall>p \<in> set ?ps. p \<in> set (v # vs'))"
    using assms(2-4) head(3) Cons by (intro match_all_loop_values) (simp_all add: sorted_remdups_adj)
  moreover have "of_nat (length vs) \<noteq> (0 :: u64)" "of_nat (length vs) - 1 = (of_nat (length vs') :: u64)"
    using of_nat_Suc_pos [of "length vs'"] assms(4) Cons by simp_all
  ultimately show ?thesis
    using head(1,2) by (simp add: gcs_match_all_def map_elements_eq [OF assms(5)] Let_def no_queries Cons [symmetric])
qed

section \<open>The scripts of a block\<close>

text \<open>
  The set of scripts that BIP 158 asks for: the output scripts except empty ones and those that begin with
  \<open>OP_RETURN\<close>, and the non-empty scripts spent by all transactions but the first.
\<close>

definition filter_scripts :: "'k Block \<Rightarrow> (OutPoint \<Rightarrow> filter_error + bytes) \<Rightarrow> bytes set" where
  "filter_scripts b coin =
     {s. s \<noteq> [] \<and> \<not> is_op_return s \<and> (\<exists>tx \<in> set (txdata b). s \<in> script_pubkey ` set (tx_output tx))}
     \<union> {s. s \<noteq> [] \<and> (\<exists>tx \<in> set (drop 1 (txdata b)). \<exists>i \<in> set (tx_input tx). coin (previous_output i) = Inr s)}"

lemma set_add_element: "set (gcs_add_element es e) = set es \<union> ({e} - {[]})"
  by (auto simp: gcs_add_element_def set_insort_insert)

lemma distinct_add_element: "distinct es \<Longrightarrow> distinct (gcs_add_element es e)"
  by (simp add: gcs_add_element_def distinct_insort insort_insert_key_def)

lemma add_outputs_set:
  "set (fold (\<lambda>out es. if \<not> is_op_return (script_pubkey out) then gcs_add_element es (script_pubkey out) else es) outs es)
     = set es \<union> {s. s \<noteq> [] \<and> \<not> is_op_return s \<and> s \<in> script_pubkey ` set outs}
   \<and> (distinct es \<longrightarrow> distinct (fold (\<lambda>out es. if \<not> is_op_return (script_pubkey out) then gcs_add_element es (script_pubkey out) else es) outs es))"
  by (induction outs arbitrary: es) (auto simp: set_add_element distinct_add_element)

lemma add_output_scripts_set:
  "set (add_output_scripts b []) = {s. s \<noteq> [] \<and> \<not> is_op_return s \<and> (\<exists>tx \<in> set (txdata b). s \<in> script_pubkey ` set (tx_output tx))}
   \<and> distinct (add_output_scripts b [])"
proof -
  have "set (fold (\<lambda>tx. fold (\<lambda>out es. if \<not> is_op_return (script_pubkey out) then gcs_add_element es (script_pubkey out) else es) (tx_output tx)) txs es)
      = set es \<union> {s. s \<noteq> [] \<and> \<not> is_op_return s \<and> (\<exists>tx \<in> set txs. s \<in> script_pubkey ` set (tx_output tx))}
    \<and> (distinct es \<longrightarrow> distinct (fold (\<lambda>tx. fold (\<lambda>out es. if \<not> is_op_return (script_pubkey out) then gcs_add_element es (script_pubkey out) else es) (tx_output tx)) txs es))"
    for txs :: "'a Transaction list" and es
    by (induction txs arbitrary: es) (auto simp: add_outputs_set)
  from this [of "txdata b" "[]"] show ?thesis by (simp add: add_output_scripts_def)
qed

lemma add_scripts_set:
  assumes "\<forall>c \<in> set cs. is_ok (coin c)" "distinct es"
  shows "\<exists>es'. add_scripts coin cs es = Inr es' \<and> set es' = set es \<union> {s. s \<noteq> [] \<and> (\<exists>c \<in> set cs. coin c = Inr s)} \<and> distinct es'"
  using assms
proof (induction cs arbitrary: es)
  case (Cons c cs)
  then obtain s where s: "coin c = Inr s" by (cases "coin c") auto
  from Cons.IH [of "gcs_add_element es s"] Cons.prems distinct_add_element
  obtain es' where "add_scripts coin cs (gcs_add_element es s) = Inr es'" "distinct es'"
    "set es' = set (gcs_add_element es s) \<union> {s. s \<noteq> [] \<and> (\<exists>c \<in> set cs. coin c = Inr s)}" by auto
  then show ?case using s by (auto simp: set_add_element)
qed simp

lemma filter_elements:
  assumes "\<forall>tx \<in> set (drop 1 (txdata b)). \<forall>i \<in> set (tx_input tx). is_ok (coin (previous_output i))"
  shows "\<exists>es. add_input_scripts b coin (add_output_scripts b []) = Inr es \<and> set es = filter_scripts b coin \<and> distinct es"
proof -
  let ?cs = "concat (map (\<lambda>t. map previous_output (tx_input t)) (drop 1 (txdata b)))"
  have "\<forall>c \<in> set ?cs. is_ok (coin c)" using assms by auto
  from add_scripts_set [OF this conjunct2 [OF add_output_scripts_set]] obtain es where
    "add_scripts coin ?cs (add_output_scripts b []) = Inr es" "distinct es"
    "set es = set (add_output_scripts b []) \<union> {s. s \<noteq> [] \<and> (\<exists>c \<in> set ?cs. coin c = Inr s)}" by blast
  moreover have "{s. s \<noteq> [] \<and> (\<exists>c \<in> set ?cs. coin c = Inr s)} = {s. s \<noteq> [] \<and> (\<exists>tx \<in> set (drop 1 (txdata b)). \<exists>i \<in> set (tx_input tx). coin (previous_output i) = Inr s)}"
    by auto
  ultimately show ?thesis by (simp add: add_input_scripts_def filter_scripts_def add_output_scripts_set)
qed

section \<open>Properties\<close>

text \<open>
  C34: The filter of a block, built whenever all spent scripts are known, matches a list of queries if and only if the
  value of some query is the value of a script of the block, and matches all of them if and only if this holds for every
  query. The scripts are those that BIP 158 asks for, so a script of the block is always found.
\<close>

theorem block_filter_exact:
  assumes "block_hash (header b) = Some hash"
    and "\<forall>tx \<in> set (drop 1 (txdata b)). \<forall>i \<in> set (tx_input tx). is_ok (coin (previous_output i))"
    and "\<forall>s \<in> filter_scripts b coin. length s < 2 ^ 64" and "card (filter_scripts b coin) < 2 ^ 64"
    and "list_all (\<lambda>q. length q < 2 ^ 64) query"
  shows "\<exists>c. new_script_filter b coin = Inr c
    \<and> filter_match_any c hash query = Inr (\<exists>q \<in> set query. gcs_value (block_gcs hash) (card (filter_scripts b coin)) q
          \<in> gcs_value (block_gcs hash) (card (filter_scripts b coin)) ` filter_scripts b coin)
    \<and> filter_match_all c hash query = Inr (\<forall>q \<in> set query. gcs_value (block_gcs hash) (card (filter_scripts b coin)) q
          \<in> gcs_value (block_gcs hash) (card (filter_scripts b coin)) ` filter_scripts b coin)"
proof -
  let ?f = "block_gcs hash"
  obtain es where es: "add_input_scripts b coin (add_output_scripts b []) = Inr es" "set es = filter_scripts b coin" "distinct es"
    using filter_elements [OF assms(2)] by blast
  have n: "length es = card (filter_scripts b coin)" using es by (metis distinct_card)
  let ?vs = "sort (map (gcs_value ?f (length es)) es)"
  have p: "gcs_p ?f < 64" by (simp add: block_gcs_def P_param_def)
  have "list_all (\<lambda>e. length e < 2 ^ 64) es" using es(2) assms(3) by (simp add: list_all_iff)
  from gcs_finish_content [OF p this] obtain c where c: "gcs_finish ?f es = wrote c" "filter_content (gcs_p ?f) ?vs c" by blast
  have "new_script_filter b coin = Inr c" using assms(1) es(1) c(1) by (simp add: new_script_filter_def wrote_def)
  moreover have "set ?vs = gcs_value ?f (card (filter_scripts b coin)) ` filter_scripts b coin" "length ?vs = card (filter_scripts b coin)" using es n by simp_all
  ultimately show ?thesis
    using gcs_match_any_content [OF c(2) sorted_sort p _ assms(5)] gcs_match_all_content [OF c(2) sorted_sort p _ assms(5)] assms(4)
    by (intro exI [of _ c]) (simp only: filter_match_any_def filter_match_all_def map_err.simps simp_thms)
qed

theorem block_filter_exact_witness:
  "\<exists>c. new_script_filter sample_block (\<lambda>_. Inl (FilterIo Panic)) = Inr c
     \<and> filter_match_any c (sha256d_hash (header_ser (header sample_block))) [[1, 2, 3], [0x51]] = Inr True"
proof -
  have "filter_scripts sample_block (\<lambda>_. Inl (FilterIo Panic)) = {[0x51]}"
    by (auto simp: filter_scripts_def sample_block_def sample_tx_def is_op_return_def)
  then show ?thesis
    using block_filter_exact [OF block_hash_eq [of "header sample_block"], of "\<lambda>_. Inl (FilterIo Panic)" "[[1, 2, 3], [0x51]]"]
    by (auto simp: sample_block_def)
qed

end
