(* ===== verification/Compact_Block.thy ===== *)
theory Compact_Block
  imports Siphash Block
begin

text \<open>
  Compact blocks (\<open>src/litecoin/src/bip152.rs\<close>): short transaction identifiers, the compact form of a block with prefilled
  transactions at differentially encoded indexes, requests for transactions by index, and their answers. \<open>tx_size\<close> is
  \<open>mem::size_of::<Transaction>()\<close>, which the compiler chooses. \<open>None\<close> is a panic.
\<close>

section \<open>The code\<close>

datatype bip152_error = UnknownVersion | InvalidPrefill

record 'k PrefilledTransaction =
  pf_idx :: u16
  pf_tx :: "'k Transaction"

definition prefilled_encode :: "'k key_ops \<Rightarrow> 'k PrefilledTransaction \<Rightarrow> io_failure encoded" where
  "prefilled_encode K p = enc_seq (varint_encode (ucast (pf_idx p))) (transaction_encode K (pf_tx p))"

definition prefilled_decode :: "'k key_ops \<Rightarrow> (encode_error, 'k PrefilledTransaction) decoder" where
  "prefilled_decode K = dbind varint_decode (\<lambda>i.
     if i > 0xFFFF then dfail (ParseFailed ''BIP152 prefilled tx index out of bounds'')
     else dbind (limited (transaction_decode K)) (\<lambda>tx. dreturn \<lparr> pf_idx = ucast i, pf_tx = tx \<rparr>))"

definition calculate_siphash_keys :: "Header \<Rightarrow> u64 \<Rightarrow> (u64 \<times> u64) option" where
  "calculate_siphash_keys h n =
     (case enc_seq (header_encode h) (int_encode n) of Inl e \<Rightarrow> None
      | Inr (data, _) \<Rightarrow> let h = sha256_hash data in Some (from_le_bytes (take 8 h), from_le_bytes (take 8 (drop 8 h))))"

definition with_siphash_keys :: "bytes \<Rightarrow> u64 \<times> u64 \<Rightarrow> bytes option" where
  "with_siphash_keys t keys = map_option (take 6) (hash_with_keys (fst keys) (snd keys) t)"

definition short_id_encode :: "bytes \<Rightarrow> io_failure encoded" where
  "short_id_encode i = array_encode i"

definition short_id_decode :: "(encode_error, bytes) decoder" where
  "short_id_decode = array_decode 6"

record 'k HeaderAndShortIds =
  cb_header :: Header
  cb_nonce :: u64
  short_ids :: "bytes list"
  prefilled_txs :: "'k PrefilledTransaction list"

definition cmpctblock_encode :: "'k key_ops \<Rightarrow> 'k HeaderAndShortIds \<Rightarrow> io_failure encoded" where
  "cmpctblock_encode K c = enc_seq (header_encode (cb_header c)) (enc_seq (int_encode (cb_nonce c))
     (enc_seq (vec_encode short_id_encode (short_ids c)) (vec_encode (prefilled_encode K) (prefilled_txs c))))"

definition cmpctblock_decode :: "'k key_ops \<Rightarrow> (encode_error, 'k HeaderAndShortIds) decoder" where
  "cmpctblock_decode K = dbind header_decode (\<lambda>h. dbind read_int (\<lambda>n. dbind (vec_decode short_id_decode) (\<lambda>ids.
     dbind (vec_decode (prefilled_decode K)) (\<lambda>ps. dreturn \<lparr> cb_header = h, cb_nonce = n, short_ids = ids, prefilled_txs = ps \<rparr>))))"

text \<open>Version 1 strips the witnesses.\<close>

definition tx_for_version :: "nat \<Rightarrow> 'k Transaction \<Rightarrow> 'k Transaction" where
  "tx_for_version ver tx = (if ver = 1 then tx\<lparr> tx_input := map (\<lambda>i. i\<lparr> txin_witness := witness_clear (txin_witness i) \<rparr>) (tx_input tx) \<rparr> else tx)"

definition id_for_version :: "'k key_ops \<Rightarrow> nat \<Rightarrow> 'k Transaction \<Rightarrow> bytes option" where
  "id_for_version K ver tx = (if ver = 1 then compute_txid tx else compute_wtxid K tx)"

text \<open>The loop over the transactions: the prefilled ones, the short identifiers, and what is left of \<open>prefill\<close>.\<close>

fun from_block_loop :: "'k key_ops \<Rightarrow> nat \<Rightarrow> u64 \<times> u64 \<Rightarrow> nat \<Rightarrow> nat list \<Rightarrow> nat \<Rightarrow> 'k Transaction list
    \<Rightarrow> ('k PrefilledTransaction list \<times> bytes list \<times> nat list) option" where
  "from_block_loop K ver keys idx prefill last_prefill [] = Some ([], [], prefill)"
| "from_block_loop K ver keys idx prefill last_prefill (tx # txs) =
     (let (prefill_tx, prefill) = (if prefill \<noteq> [] \<and> hd prefill = idx then (True, tl prefill) else (idx = 0, prefill)) in
      if prefill_tx then
        (let diff_idx = idx - last_prefill in
         map_option (\<lambda>(pf, ids, left). (\<lparr> pf_idx = of_nat diff_idx, pf_tx = tx_for_version ver tx \<rparr> # pf, ids, left))
           (from_block_loop K ver keys (idx + 1) prefill (idx + 1) txs))
      else Option.bind (id_for_version K ver tx) (\<lambda>h. Option.bind (with_siphash_keys h keys) (\<lambda>i.
         map_option (\<lambda>(pf, ids, left). (pf, i # ids, left)) (from_block_loop K ver keys (idx + 1) prefill last_prefill txs))))"

definition from_block :: "'k key_ops \<Rightarrow> 'k Block \<Rightarrow> u64 \<Rightarrow> nat \<Rightarrow> nat list \<Rightarrow> (bip152_error + 'k HeaderAndShortIds) option" where
  "from_block K b n ver prefill =
     (if ver \<noteq> 1 \<and> ver \<noteq> 2 then Some (Inl UnknownVersion)
      else Option.bind (calculate_siphash_keys (header b) n) (\<lambda>keys.
        if length prefill > length (txdata b) then None
        else Option.bind (from_block_loop K ver keys 0 prefill 0 (txdata b)) (\<lambda>(pf, ids, left).
          if left \<noteq> [] then Some (Inl InvalidPrefill)
          else Some (Inr \<lparr> cb_header = header b, cb_nonce = n, short_ids = ids, prefilled_txs = pf \<rparr>))))"

record BlockTransactionsRequest =
  req_block_hash :: bytes
  indexes :: "u64 list"

text \<open>The loop over the indexes wraps in release builds.\<close>

fun index_differences :: "u64 \<Rightarrow> u64 list \<Rightarrow> u64 list" where
  "index_differences last_idx [] = []"
| "index_differences last_idx (i # is) = (i - last_idx) # index_differences (i + 1) is"

definition request_encode :: "BlockTransactionsRequest \<Rightarrow> io_failure encoded" where
  "request_encode r = enc_seq (array_encode (req_block_hash r)) (enc_seq (varint_encode (of_nat (length (indexes r))))
     (enc_list varint_encode (index_differences 0 (indexes r))))"

definition u64_checked_add :: "u64 \<Rightarrow> u64 \<Rightarrow> u64 option" where
  "u64_checked_add a b = (if unat a + unat b < 2 ^ 64 then Some (a + b) else None)"

fun indexes_decode :: "nat \<Rightarrow> u64 \<Rightarrow> (encode_error, u64 list) decoder" where
  "indexes_decode 0 last_index = dreturn []"
| "indexes_decode (Suc n) last_index = dbind varint_decode (\<lambda>differential.
     case u64_checked_add last_index differential of None \<Rightarrow> dfail (ParseFailed ''block index overflow'')
     | Some i \<Rightarrow> (case u64_checked_add i 1 of None \<Rightarrow> dfail (ParseFailed ''block index overflow'')
        | Some l \<Rightarrow> dmap ((#) i) (indexes_decode n l)))"

definition request_decode :: "nat \<Rightarrow> (encode_error, BlockTransactionsRequest) decoder" where
  "request_decode tx_size = dbind (array_decode 32) (\<lambda>h. dbind varint_decode (\<lambda>n.
     let byte_size = unat n * tx_size in
     if byte_size \<ge> 2 ^ 64 then dfail (ParseFailed ''Invalid length'')
     else if byte_size > MAX_VEC_SIZE then dfail (OversizedVectorAllocation byte_size MAX_VEC_SIZE)
     else dbind (indexes_decode (unat n) 0) (\<lambda>is. dreturn \<lparr> req_block_hash = h, indexes = is \<rparr>)))"

record 'k BlockTransactions =
  bt_block_hash :: bytes
  transactions :: "'k Transaction list"

definition block_transactions_encode :: "'k key_ops \<Rightarrow> 'k BlockTransactions \<Rightarrow> io_failure encoded" where
  "block_transactions_encode K t = enc_seq (array_encode (bt_block_hash t)) (vec_encode (transaction_encode K) (transactions t))"

definition block_transactions_decode :: "'k key_ops \<Rightarrow> (encode_error, 'k BlockTransactions) decoder" where
  "block_transactions_decode K = dbind (array_decode 32) (\<lambda>h. dbind (vec_decode (transaction_decode K)) (\<lambda>txs.
     dreturn \<lparr> bt_block_hash = h, transactions = txs \<rparr>))"

text \<open>\<open>Inl i\<close> is \<open>TxIndexOutOfRangeError(i)\<close>.\<close>

fun requested :: "'k Block \<Rightarrow> u64 list \<Rightarrow> u64 + 'k Transaction list" where
  "requested b [] = Inr []"
| "requested b (i # is) = (if i \<ge> of_nat (length (txdata b)) then Inl i
     else and_then (requested b is) (\<lambda>txs. Inr (txdata b ! unat i # txs)))"

definition from_request :: "BlockTransactionsRequest \<Rightarrow> 'k Block \<Rightarrow> u64 + 'k BlockTransactions" where
  "from_request r b = and_then (requested b (indexes r)) (\<lambda>txs. Inr \<lparr> bt_block_hash = req_block_hash r, transactions = txs \<rparr>)"

section \<open>Requests\<close>

fun increasing_from :: "u64 \<Rightarrow> u64 list \<Rightarrow> bool" where
  "increasing_from l [] \<longleftrightarrow> True"
| "increasing_from l (i # is) \<longleftrightarrow> l \<le> i \<and> i < - 1 \<and> increasing_from (i + 1) is"

definition request_wf :: "nat \<Rightarrow> BlockTransactionsRequest \<Rightarrow> bool" where
  "request_wf tx_size r \<longleftrightarrow> length (req_block_hash r) = 32 \<and> increasing_from 0 (indexes r)
     \<and> length (indexes r) < 2 ^ 64 \<and> length (indexes r) * tx_size \<le> MAX_VEC_SIZE"

definition request_ser :: "BlockTransactionsRequest \<Rightarrow> bytes" where
  "request_ser r = req_block_hash r @ varint_ser (of_nat (length (indexes r))) @ concat (map varint_ser (index_differences 0 (indexes r)))"

lemma request_encode_wrote: "request_encode r = wrote (request_ser r)"
  by (simp add: request_encode_def request_ser_def varint_encode_wrote enc_list_wrote)

lemma checked_add_back: "l \<le> i \<Longrightarrow> u64_checked_add l (i - l) = Some i"
  by (simp add: u64_checked_add_def unat_sub word_le_nat_alt)

lemma checked_add_Some: "u64_checked_add l d = Some i \<longleftrightarrow> l \<le> i \<and> d = i - l"
proof -
  have "l \<le> l + d" if "unat l + unat d < 2 ^ 64" using that by (simp add: word_le_nat_alt unat_word_ariths)
  then have "l \<le> i \<and> d = i - l" if "u64_checked_add l d = Some i" using that by (auto simp: u64_checked_add_def split: if_splits)
  then show ?thesis using checked_add_back by blast
qed

lemma checked_add_1: "u64_checked_add i 1 = (if i < - 1 then Some (i + 1) else None)"
proof -
  have "i < - 1 \<longleftrightarrow> unat i + 1 < 2 ^ 64" by (simp add: word_less_nat_alt unsigned_minus_1_eq_mask mask_eq_exp_minus_1)
  then show ?thesis by (simp add: u64_checked_add_def)
qed

lemma indexes_decode_iff:
  "indexes_decode n l s = Inr (is, s') \<longleftrightarrow> length is = n \<and> increasing_from l is \<and> s = concat (map varint_ser (index_differences l is)) @ s'"
proof (induction n arbitrary: l "is" s)
  case (Suc n)
  show ?case (is "?L \<longleftrightarrow> ?R")
  proof
    assume ?L
    then obtain d s1 where d: "s = varint_ser d @ s1" and
      c: "(case u64_checked_add l d of None \<Rightarrow> dfail (ParseFailed ''block index overflow'')
         | Some i \<Rightarrow> (case u64_checked_add i 1 of None \<Rightarrow> dfail (ParseFailed ''block index overflow'')
            | Some l \<Rightarrow> dmap ((#) i) (indexes_decode n l))) s1 = Inr (is, s')"
      by (auto simp: dbind_Inr_iff varint.dec_iff)
    then obtain i js where "u64_checked_add l d = Some i" "i < - 1" "indexes_decode n (i + 1) s1 = Inr (js, s')" "is = i # js"
      by (auto simp: checked_add_1 dmap_Inr_iff split: option.splits if_splits)
    then show ?R using d Suc.IH by (simp add: checked_add_Some)
  next
    assume ?R
    then obtain i js where is_eq: "is = i # js" by (cases "is") auto
    with \<open>?R\<close> have "indexes_decode n (i + 1) (concat (map varint_ser (index_differences (i + 1) js)) @ s') = Inr (js, s')"
      using Suc.IH by simp
    then show ?L using \<open>?R\<close> is_eq by (simp add: dbind_Inr varint_decode_ser checked_add_back checked_add_1 dmap_Inr)
  qed
qed auto

lemma request_codec: "canonical_codec request_encode (request_decode tx_size) (request_wf tx_size) request_ser"
proof (rule canonical_codecI)
  fix r s s'
  show "request_encode r = wrote (request_ser r)" by (rule request_encode_wrote)
  have MAX: "MAX_VEC_SIZE < 2 ^ 64" by (simp add: MAX_VEC_SIZE_def)
  show "request_decode tx_size s = Inr (r, s') \<longleftrightarrow> request_wf tx_size r \<and> s = request_ser r @ s'" (is "?L \<longleftrightarrow> ?R")
  proof
    assume ?L
    then obtain h n s2 "is" where "length h = 32" "s = h @ varint_ser n @ s2" "indexes_decode (unat n) 0 s2 = Inr (is, s')"
      "unat n * tx_size \<le> MAX_VEC_SIZE" "r = \<lparr> req_block_hash = h, indexes = is \<rparr>"
      by (auto simp: request_decode_def dbind_Inr_iff array_dec_iff varint.dec_iff Let_def split: if_splits)
    then show ?R using unat_less_exp [of n] by (auto simp: indexes_decode_iff request_wf_def request_ser_def)
  next
    assume ?R
    then have "unat (of_nat (length (indexes r)) :: u64) = length (indexes r)" by (simp add: request_wf_def unat_of_nat_u64)
    moreover have "indexes_decode (length (indexes r)) 0 (concat (map varint_ser (index_differences 0 (indexes r))) @ s') = Inr (indexes r, s')"
      using \<open>?R\<close> by (simp add: indexes_decode_iff request_wf_def)
    moreover have "array_decode 32 (req_block_hash r @ q) = Inr (req_block_hash r, q)" for q using \<open>?R\<close> by (simp add: array_dec_iff request_wf_def)
    ultimately show ?L
      using \<open>?R\<close> MAX by (simp add: request_decode_def request_ser_def request_wf_def dbind_Inr varint_decode_ser Let_def)
  qed
qed

lemma increasing_iff: "increasing_from l is \<longleftrightarrow> sorted_wrt (<) is \<and> (\<forall>i \<in> set is. l \<le> i \<and> i < - 1)"
proof (induction "is" arbitrary: l)
  case (Cons i "is")
  have "i + 1 \<le> j \<longleftrightarrow> i < j" if "i < - 1" for j :: u64
    using that checked_add_1 [of i] by (auto simp: u64_checked_add_def word_le_nat_alt word_less_nat_alt unat_word_ariths split: if_splits)
  with Cons show ?case by (auto intro: less_imp_le less_le_trans le_less_trans)
qed simp

lemma requested_eq:
  assumes "length (txdata b) < 2 ^ 64"
  shows "requested b is = (case find (\<lambda>i. length (txdata b) \<le> unat i) is of Some i \<Rightarrow> Inl i | None \<Rightarrow> Inr (map (\<lambda>i. txdata b ! unat i) is))"
  using assms by (induction "is") (auto simp: word_le_nat_alt unat_of_nat_u64 split: option.splits)

section \<open>The compact form of a block\<close>

text \<open>
  What a receiver does with it: prefilled transactions go to the places their differences tell, short identifiers to the
  other places in order. \<open>place\<close> reads the differences from the sixteen bits of the message.
\<close>

fun place_at :: "(nat \<times> 'k Transaction) list \<Rightarrow> bytes list \<Rightarrow> (bytes + 'k Transaction) list" where
  "place_at [] ids = map Inl ids"
| "place_at ((d, tx) # ps) ids = map Inl (take d ids) @ Inr tx # place_at ps (drop d ids)"

definition place :: "'k PrefilledTransaction list \<Rightarrow> bytes list \<Rightarrow> (bytes + 'k Transaction) list" where
  "place pf ids = place_at (map (\<lambda>p. (unat (pf_idx p), pf_tx p)) pf) ids"

text \<open>The places that are prefilled, and the distances between them: how many places are skipped before each.\<close>

definition chosen :: "nat list \<Rightarrow> nat \<Rightarrow> nat \<Rightarrow> nat list" where
  "chosen prefill from to = filter (\<lambda>i. i = 0 \<or> i \<in> set prefill) [from..<to]"

fun gaps :: "nat \<Rightarrow> nat list \<Rightarrow> nat list" where
  "gaps next_idx [] = []"
| "gaps next_idx (i # is) = (i - next_idx) # gaps (i + 1) is"

text \<open>
  The keys and the short identifiers of BIP 152, on the reference functions: SHA-256 of the header followed by the nonce
  gives the two keys; an identifier is the low six bytes of SipHash-2-4 of the double SHA-256 of the transaction,
  serialised without witnesses in version 1 and with them in version 2.
\<close>

definition bip152_keys :: "Header \<Rightarrow> u64 \<Rightarrow> u64 \<times> u64" where
  "bip152_keys h n = (let d = fips_sha256 (header_ser h @ to_le_bytes n) in
     (from_le_bytes (take 8 d), from_le_bytes (take 8 (drop 8 d))))"

definition short_id_of :: "'k key_ops \<Rightarrow> nat \<Rightarrow> u64 \<times> u64 \<Rightarrow> 'k Transaction \<Rightarrow> bytes" where
  "short_id_of K ver keys tx = take 6 (to_le_bytes (siphash_2_4 (fst keys) (snd keys)
     (fips_sha256 (fips_sha256 (if ver = 1 then base_ser tx else tx_ser K tx)))))"

text \<open>What stands at place \<open>i\<close> of a block; in version 1 every input of a prefilled transaction has an empty witness.\<close>

definition without_witnesses :: "'k Transaction \<Rightarrow> 'k Transaction" where
  "without_witnesses tx = tx\<lparr> tx_input := map (\<lambda>i. i\<lparr> txin_witness := witness_new \<rparr>) (tx_input tx) \<rparr>"

definition entry :: "'k key_ops \<Rightarrow> nat \<Rightarrow> u64 \<times> u64 \<Rightarrow> nat list \<Rightarrow> nat \<times> 'k Transaction \<Rightarrow> bytes + 'k Transaction" where
  "entry K ver keys prefill = (\<lambda>(i, tx). if i = 0 \<or> i \<in> set prefill
     then Inr (if ver = 1 then without_witnesses tx else tx) else Inl (short_id_of K ver keys tx))"

lemma tx_for_version_eq: "tx_for_version ver tx = (if ver = 1 then without_witnesses tx else tx)"
  by (simp add: tx_for_version_def without_witnesses_def witness_clear_def witness_new_def)

lemma gaps_le: "d \<in> set (gaps l is) \<Longrightarrow> \<exists>i \<in> set is. d \<le> i"
  by (induction l "is" rule: gaps.induct) auto

lemma length_gaps [simp]: "length (gaps l is) = length is"
  by (induction l "is" rule: gaps.induct) simp_all

lemma chosen_step:
  "from < to \<Longrightarrow> chosen prefill from to =
     (if from = 0 \<or> from \<in> set prefill then from # chosen prefill (Suc from) to else chosen prefill (Suc from) to)"
  by (simp add: chosen_def upt_conv_Cons)

lemma chosen_cong: "(\<And>i. from \<le> i \<Longrightarrow> i \<in> set p \<longleftrightarrow> i \<in> set q) \<Longrightarrow> chosen p from to = chosen q from to"
  unfolding chosen_def by (rule filter_cong) auto

text \<open>With at most 65536 places the sixteen bits hold every distance.\<close>

lemma place_small:
  assumes "map pf_idx pf = map of_nat (gaps l is)" and "\<forall>i \<in> set is. i < 65536"
  shows "place pf ids = place_at (zip (gaps l is) (map pf_tx pf)) ids"
proof -
  have "unat (of_nat d :: u16) = d" if "d \<in> set (gaps l is)" for d
    using gaps_le [OF that] assms(2) by (auto simp: unat_of_nat)
  then have "map unat (map pf_idx pf) = gaps l is" unfolding assms(1) by (simp add: map_idI)
  then have "gaps l is = map (\<lambda>p. unat (pf_idx p)) pf" by (simp add: comp_def)
  then show ?thesis by (simp add: place_def zip_map_map zip_same_conv_map comp_def)
qed

lemma with_siphash_keys_eq:
  "length h < 2 ^ 64 \<Longrightarrow> with_siphash_keys h keys = Some (take 6 (to_le_bytes (siphash_2_4 (fst keys) (snd keys) h)))"
  using sip_holds_input [OF sip_holds_new, of h "fst keys" "snd keys"]
  by (auto simp: with_siphash_keys_def hash_with_keys_def sip_from_engine_def sip_from_u64_def finish_reference)

lemma short_id_eq:
  assumes "key_laws K" "tx_wf tx"
  shows "Option.bind (id_for_version K ver tx) (\<lambda>h. Option.bind (with_siphash_keys h keys) f) = f (short_id_of K ver keys tx)"
  using assms
  by (simp add: id_for_version_def compute_txid_total compute_wtxid_eq with_siphash_keys_eq length_sha256d_hash short_id_of_def
      sha256d_hash_eq [unfolded sha256_hash_fips] length_fips_sha256)

text \<open>
  The loop from place \<open>idx\<close>: what it returns, the distances it stores, and where they put everything; \<open>pre\<close> are the
  identifiers since the last prefilled place.
\<close>

definition loop_ok :: "'k key_ops \<Rightarrow> nat \<Rightarrow> u64 \<times> u64 \<Rightarrow> nat \<Rightarrow> nat list \<Rightarrow> nat \<Rightarrow> 'k Transaction list
    \<Rightarrow> 'k PrefilledTransaction list \<Rightarrow> bytes list \<Rightarrow> nat list \<Rightarrow> bool" where
  "loop_ok K ver keys idx prefill last_prefill txs pf ids left \<longleftrightarrow>
     (let ds = gaps last_prefill (chosen prefill idx (idx + length txs)) in
      map pf_idx pf = map of_nat ds
      \<and> (\<forall>pre. length pre = idx - last_prefill \<longrightarrow>
          place_at (zip ds (map pf_tx pf)) (pre @ ids) = map Inl pre @ map (entry K ver keys prefill) (enumerate idx txs))
      \<and> (left = [] \<longleftrightarrow> (\<forall>i \<in> set prefill. i < idx + length txs)))"

lemma loop_ok_prefilled:
  assumes "loop_ok K ver keys (Suc idx) prefill' (Suc idx) txs pf ids left" and "idx = 0 \<or> idx \<in> set prefill"
    and "\<And>i. Suc idx \<le> i \<Longrightarrow> i \<in> set prefill' \<longleftrightarrow> i \<in> set prefill"
    and "\<forall>i \<in> set prefill'. Suc idx \<le> i"
  shows "loop_ok K ver keys idx prefill last_prefill (tx # txs)
     (\<lparr> pf_idx = of_nat (idx - last_prefill), pf_tx = tx_for_version ver tx \<rparr> # pf) ids left"
proof -
  have c: "chosen prefill idx (idx + length (tx # txs)) = idx # chosen prefill' (Suc idx) (Suc idx + length txs)"
    using assms(2) chosen_cong [of "Suc idx" prefill' prefill, OF assms(3)] by (simp add: chosen_step)
  have e: "map (entry K ver keys prefill') (enumerate (Suc idx) txs) = map (entry K ver keys prefill) (enumerate (Suc idx) txs)"
    using assms(3) by (intro map_cong refl) (auto simp: entry_def in_set_enumerate_eq)
  have "(\<forall>i \<in> set prefill'. i < Suc idx + length txs) \<longleftrightarrow> (\<forall>i \<in> set prefill. i < idx + length (tx # txs))"
  proof (intro iffI ballI)
    fix i assume "\<forall>i \<in> set prefill'. i < Suc idx + length txs" "i \<in> set prefill"
    then show "i < idx + length (tx # txs)" using assms(3) [of i] by (cases "Suc idx \<le> i") simp_all
  next
    fix i assume "\<forall>i \<in> set prefill. i < idx + length (tx # txs)" "i \<in> set prefill'"
    then show "i < Suc idx + length txs" using assms(3) [of i] assms(4) by simp
  qed
  moreover have "place_at (zip (gaps (Suc idx) (chosen prefill' (Suc idx) (Suc idx + length txs))) (map pf_tx pf)) ids
      = map (entry K ver keys prefill') (enumerate (Suc idx) txs)"
    using assms(1) by (auto simp: loop_ok_def Let_def)
  ultimately show ?thesis
    using assms(1,2) unfolding loop_ok_def Let_def c e by (simp add: entry_def tx_for_version_eq)
qed

lemma loop_ok_short:
  assumes "loop_ok K ver keys (Suc idx) prefill last_prefill txs pf ids left" and "idx \<noteq> 0" "idx \<notin> set prefill" "last_prefill \<le> idx"
  shows "loop_ok K ver keys idx prefill last_prefill (tx # txs) pf (short_id_of K ver keys tx # ids) left"
proof -
  have c: "chosen prefill idx (idx + length (tx # txs)) = chosen prefill (Suc idx) (Suc idx + length txs)"
    using assms(2,3) by (simp add: chosen_step)
  have "place_at (zip (gaps last_prefill (chosen prefill (Suc idx) (Suc idx + length txs))) (map pf_tx pf))
      (pre @ short_id_of K ver keys tx # ids) = map Inl pre @ map (entry K ver keys prefill) (enumerate idx (tx # txs))"
    if "length pre = idx - last_prefill" for pre
  proof -
    have "length (pre @ [short_id_of K ver keys tx]) = Suc idx - last_prefill" using that assms(4) by (simp add: Suc_diff_le)
    then have "place_at (zip (gaps last_prefill (chosen prefill (Suc idx) (Suc idx + length txs))) (map pf_tx pf))
        ((pre @ [short_id_of K ver keys tx]) @ ids)
      = map Inl (pre @ [short_id_of K ver keys tx]) @ map (entry K ver keys prefill) (enumerate (Suc idx) txs)"
      using assms(1) unfolding loop_ok_def Let_def by blast
    then show ?thesis using assms(2,3) by (simp add: entry_def)
  qed
  then show ?thesis using assms(1) unfolding loop_ok_def Let_def c by simp
qed

lemma from_block_loop_places:
  fixes txs :: "'k Transaction list"
  assumes K: "key_laws K" and "list_all tx_wf txs" and "last_prefill \<le> idx"
    and "sorted_wrt (<) prefill" and "\<forall>i \<in> set prefill. idx \<le> i"
  shows "\<exists>pf ids left. from_block_loop K ver keys idx prefill last_prefill txs = Some (pf, ids, left)
    \<and> loop_ok K ver keys idx prefill last_prefill txs pf ids left"
  using assms(2-)
proof (induction txs arbitrary: idx prefill last_prefill)
  case Nil
  then show ?case by (cases prefill) (fastforce simp: loop_ok_def chosen_def)+
next
  case (Cons tx txs)
  have wf: "list_all tx_wf txs" "tx_wf tx" using Cons.prems(1) by simp_all
  show ?case
  proof (cases "idx = 0 \<or> idx \<in> set prefill")
    case True
    define rest' where "rest' = (if prefill \<noteq> [] \<and> hd prefill = idx then tl prefill else prefill)"
    have hd: "hd prefill = idx" "prefill \<noteq> []" if "idx \<in> set prefill"
      using that Cons.prems(3,4) by (cases prefill; auto)+
    have rest': "sorted_wrt (<) rest'" "\<forall>i \<in> set rest'. Suc idx \<le> i" "set prefill - {idx} = set rest'"
      using Cons.prems(3,4) hd by (cases prefill; auto simp: rest'_def)+
    from Cons.IH [OF wf(1) order.refl rest'(1,2)] obtain pf ids left where
      IH: "from_block_loop K ver keys (Suc idx) rest' (Suc idx) txs = Some (pf, ids, left)"
        "loop_ok K ver keys (Suc idx) rest' (Suc idx) txs pf ids left" by blast
    have "from_block_loop K ver keys idx prefill last_prefill (tx # txs)
        = Some (\<lparr> pf_idx = of_nat (idx - last_prefill), pf_tx = tx_for_version ver tx \<rparr> # pf, ids, left)"
    proof (cases "prefill \<noteq> [] \<and> hd prefill = idx")
      case no: False
      then have "idx = 0" using True hd by blast
      then show ?thesis using IH(1) no by (auto simp: rest'_def)
    qed (use IH(1) in \<open>simp add: rest'_def\<close>)
    moreover have "i \<in> set rest' \<longleftrightarrow> i \<in> set prefill" if "Suc idx \<le> i" for i using that by (simp flip: rest'(3))
    ultimately show ?thesis using loop_ok_prefilled [OF IH(2) True _ rest'(2)] by blast
  next
    case False
    then have ge: "\<forall>i \<in> set prefill. Suc idx \<le> i" using Cons.prems(4) by (auto simp: Suc_le_eq le_less)
    have "last_prefill \<le> Suc idx" using Cons.prems(2) by simp
    from Cons.IH [OF wf(1) this Cons.prems(3) ge] obtain pf ids left where
      IH: "from_block_loop K ver keys (Suc idx) prefill last_prefill txs = Some (pf, ids, left)"
        "loop_ok K ver keys (Suc idx) prefill last_prefill txs pf ids left" by blast
    have "\<not> (prefill \<noteq> [] \<and> hd prefill = idx)" using False by (cases prefill) auto
    then have "from_block_loop K ver keys idx prefill last_prefill (tx # txs) = Some (pf, short_id_of K ver keys tx # ids, left)"
      using IH(1) False wf(2) by (auto simp: short_id_eq [OF K])
    then show ?thesis using loop_ok_short [OF IH(2) _ _ Cons.prems(2)] False by blast
  qed
qed

lemma from_block_loop_total:
  assumes "key_laws K" "list_all tx_wf txs"
  shows "\<exists>pf ids left. from_block_loop K ver keys idx prefill last_prefill txs = Some (pf, ids, left)
    \<and> (left = [] \<longrightarrow> sorted_wrt (<) prefill \<and> (\<forall>i \<in> set prefill. idx \<le> i \<and> i < idx + length txs))"
  using assms(2)
proof (induction txs arbitrary: idx prefill last_prefill)
  case (Cons tx txs)
  show ?case
  proof (cases "prefill \<noteq> [] \<and> hd prefill = idx")
    case True
    then obtain ps where ps: "prefill = idx # ps" by (cases prefill) auto
    from Cons.IH [of "Suc idx" ps "Suc idx"] Cons.prems obtain pf ids left where
      "from_block_loop K ver keys (Suc idx) ps (Suc idx) txs = Some (pf, ids, left)"
      "left = [] \<longrightarrow> sorted_wrt (<) ps \<and> (\<forall>i \<in> set ps. Suc idx \<le> i \<and> i < Suc idx + length txs)" by auto
    then show ?thesis by (auto simp: ps)
  next
    case no: False
    let ?l = "if idx = 0 then Suc idx else last_prefill"
    from Cons.IH [of "Suc idx" prefill ?l] Cons.prems obtain pf ids left where
      "from_block_loop K ver keys (Suc idx) prefill ?l txs = Some (pf, ids, left)"
      "left = [] \<longrightarrow> sorted_wrt (<) prefill \<and> (\<forall>i \<in> set prefill. Suc idx \<le> i \<and> i < Suc idx + length txs)" by auto
    then show ?thesis using no Cons.prems by (cases "idx = 0") (auto simp: short_id_eq [OF assms(1)] dest: bspec)
  qed
qed simp

lemma calculate_siphash_keys_eq: "calculate_siphash_keys h n = Some (bip152_keys h n)"
  by (simp add: calculate_siphash_keys_def header_encode_wrote)
    (simp add: wrote_def Let_def bip152_keys_def sha256_hash_fips)

lemma from_block_ok:
  assumes "key_laws K" "list_all tx_wf (txdata b)" "ver = 1 \<or> ver = 2" "length prefill \<le> length (txdata b)"
    and "sorted_wrt (<) prefill" "\<forall>i \<in> set prefill. i < length (txdata b)"
  obtains c where "from_block K b n ver prefill = Some (Inr c)" "cb_header c = header b" "cb_nonce c = n"
    "loop_ok K ver (bip152_keys (header b) n) 0 prefill 0 (txdata b) (prefilled_txs c) (short_ids c) []"
proof -
  obtain pf ids left where l: "from_block_loop K ver (bip152_keys (header b) n) 0 prefill 0 (txdata b) = Some (pf, ids, left)"
    "loop_ok K ver (bip152_keys (header b) n) 0 prefill 0 (txdata b) pf ids left"
    using from_block_loop_places [OF assms(1,2), of 0 0 prefill] assms(5) by blast
  have "left = []" using l(2) assms(6) by (simp add: loop_ok_def Let_def)
  with l assms(3,4) show thesis by (intro that) (auto simp: from_block_def calculate_siphash_keys_eq)
qed

lemma chosen_one:
  assumes "0 < p" "p < n"
  shows "chosen [p] 0 n = [0, p]"
proof (rule sorted_distinct_set_unique)
  show "set (chosen [p] 0 n) = set [0, p]" using assms by (auto simp: chosen_def)
qed (use assms in \<open>auto simp: chosen_def intro: sorted_wrt_filter\<close>)

section \<open>Codecs\<close>

lemma prefilled_codec:
  fixes K :: "'k key_ops"
  assumes "key_laws K"
  shows "codec (prefilled_encode K) (prefilled_decode K) (\<lambda>p. tx_wf (pf_tx p) \<and> length (tx_ser K (pf_tx p)) \<le> MAX_VEC_SIZE)
    (\<lambda>p. varint_ser (ucast (pf_idx p)) @ tx_ser K (pf_tx p))"
proof -
  have lim: "codec (transaction_encode K) (limited (transaction_decode K)) (\<lambda>x. tx_wf x \<and> length (tx_ser K x) \<le> MAX_VEC_SIZE) (tx_ser K)"
    unfolding limited_def by (rule codec.limited_codec [OF transaction_codec [OF assms]])
  show ?thesis
  proof
    fix p :: "'k PrefilledTransaction" and r
    assume p: "tx_wf (pf_tx p) \<and> length (tx_ser K (pf_tx p)) \<le> MAX_VEC_SIZE"
    show "prefilled_encode K p = wrote (varint_ser (ucast (pf_idx p)) @ tx_ser K (pf_tx p))"
      using codec.enc_ser [OF lim p] by (simp add: prefilled_encode_def varint_encode_wrote)
    have "unat (ucast (pf_idx p) :: u64) = unat (pf_idx p)" "unat (pf_idx p) < 2 ^ 16"
      using unat_less_exp [of "pf_idx p"] by (simp_all add: unat_ucast)
    then have "\<not> (ucast (pf_idx p) :: u64) > 0xFFFF" "ucast (ucast (pf_idx p) :: u64) = pf_idx p"
      by (auto simp: word_less_nat_alt unat_ucast intro: word_unat_eq_iff [THEN iffD2])
    then show "prefilled_decode K ((varint_ser (ucast (pf_idx p)) @ tx_ser K (pf_tx p)) @ r) = Inr (p, r)"
      using codec.dec_ser [OF lim p] by (simp add: prefilled_decode_def dbind_Inr varint_decode_ser)
  qed
qed

definition cmpctblock_wf :: "'k key_ops \<Rightarrow> 'k HeaderAndShortIds \<Rightarrow> bool" where
  "cmpctblock_wf K c \<longleftrightarrow> header_wf (cb_header c) \<and> vec_wf (\<lambda>i. length i = 6) (short_ids c)
     \<and> vec_wf (\<lambda>p. tx_wf (pf_tx p) \<and> length (tx_ser K (pf_tx p)) \<le> MAX_VEC_SIZE) (prefilled_txs c)"

lemma compact_roundtrip_codec:
  fixes K :: "'k key_ops"
  assumes "key_laws K"
  shows "\<exists>ser. codec (cmpctblock_encode K) (cmpctblock_decode K) (cmpctblock_wf K) ser"
proof -
  note pf = codec.vec_codec [OF prefilled_codec [OF assms]]
  note ids = canonical_codec.axioms(1) [OF canonical_codec.vec_canonical [OF array_canonical [of 6]]]
  let ?ser = "\<lambda>c. header_ser (cb_header c) @ to_le_bytes (cb_nonce c) @ vec_ser (\<lambda>a. a) (short_ids c)
      @ vec_ser (\<lambda>p. varint_ser (ucast (pf_idx p)) @ tx_ser K (pf_tx p)) (prefilled_txs c)"
  have "codec (cmpctblock_encode K) (cmpctblock_decode K) (cmpctblock_wf K) ?ser"
  proof
    fix c :: "'k HeaderAndShortIds" and r
    assume c: "cmpctblock_wf K c"
    have sid: "short_id_encode = array_encode" by (simp add: fun_eq_iff short_id_encode_def)
    note ok = codec.enc_ser [OF pf] codec.enc_ser [OF ids] codec.dec_ser [OF pf] codec.dec_ser [OF ids]
    show "cmpctblock_encode K c = wrote (?ser c)"
      using c ok unfolding cmpctblock_encode_def sid by (simp add: cmpctblock_wf_def header_encode_wrote)
    show "cmpctblock_decode K (?ser c @ r) = Inr (c, r)"
      using c ok by (simp add: cmpctblock_decode_def cmpctblock_wf_def dbind_Inr header.dec_ser u64_codec.dec_ser short_id_decode_def)
  qed
  then show ?thesis by blast
qed

lemma block_transactions_codec:
  fixes K :: "'k key_ops"
  assumes "key_laws K"
  shows "codec (block_transactions_encode K) (block_transactions_decode K) (\<lambda>t. length (bt_block_hash t) = 32 \<and> vec_wf tx_wf (transactions t))
    (\<lambda>t. bt_block_hash t @ vec_ser (tx_ser K) (transactions t))"
proof
  note txs = codec.vec_codec [OF transaction_codec [OF assms]]
  fix t :: "'k BlockTransactions" and r
  assume t: "length (bt_block_hash t) = 32 \<and> vec_wf tx_wf (transactions t)"
  show "block_transactions_encode K t = wrote (bt_block_hash t @ vec_ser (tx_ser K) (transactions t))"
    using t codec.enc_ser [OF txs] by (simp add: block_transactions_encode_def)
  have "array_decode 32 (bt_block_hash t @ q) = Inr (bt_block_hash t, q)" for q using t by (simp add: array_dec_iff)
  then show "block_transactions_decode K ((bt_block_hash t @ vec_ser (tx_ser K) (transactions t)) @ r) = Inr (t, r)"
    using t codec.dec_ser [OF txs] by (simp add: block_transactions_decode_def dbind_Inr)
qed

section \<open>Properties\<close>

text \<open>
  C35: From a block and a list of indexes not longer than the block, the compact form of version 1 or 2 is made exactly if
  the list is strictly increasing and within the block, and otherwise the list is refused. The prefilled places are the
  first and the listed ones. The index stored with a prefilled transaction is the number of places skipped since the
  previous one, modulo \<open>2 ^ 16\<close>; with the numbers themselves, which for a block of at most 65536 transactions are the
  stored ones, a receiver who places prefilled transactions and short identifiers gets at every place of the block the
  transaction (in version 1 with empty witnesses) for the prefilled ones, and otherwise the short identifier that
  BIP 152 defines for the transaction there, under the keys it derives from the header and the nonce.
\<close>

theorem compact_block_exact:
  assumes "key_laws K" and "list_all tx_wf (txdata b)" and "ver = 1 \<or> ver = 2" and "length prefill \<le> length (txdata b)"
  shows "if sorted_wrt (<) prefill \<and> (\<forall>i \<in> set prefill. i < length (txdata b))
    then \<exists>c. from_block K b n ver prefill = Some (Inr c) \<and> cb_header c = header b \<and> cb_nonce c = n
      \<and> map pf_idx (prefilled_txs c) = map of_nat (gaps 0 (chosen prefill 0 (length (txdata b))))
      \<and> place_at (zip (gaps 0 (chosen prefill 0 (length (txdata b)))) (map pf_tx (prefilled_txs c))) (short_ids c)
          = map (entry K ver (bip152_keys (header b) n) prefill) (enumerate 0 (txdata b))
      \<and> (length (txdata b) \<le> 65536 \<longrightarrow>
          place (prefilled_txs c) (short_ids c) = map (entry K ver (bip152_keys (header b) n) prefill) (enumerate 0 (txdata b)))
    else from_block K b n ver prefill = Some (Inl InvalidPrefill)"
proof (cases "sorted_wrt (<) prefill \<and> (\<forall>i \<in> set prefill. i < length (txdata b))")
  case True
  let ?is = "chosen prefill 0 (length (txdata b))"
  obtain c where c: "from_block K b n ver prefill = Some (Inr c)" "cb_header c = header b" "cb_nonce c = n"
    "loop_ok K ver (bip152_keys (header b) n) 0 prefill 0 (txdata b) (prefilled_txs c) (short_ids c) []"
    using from_block_ok [OF assms] True by blast
  have m: "map pf_idx (prefilled_txs c) = map of_nat (gaps 0 ?is)"
    and at: "place_at (zip (gaps 0 ?is) (map pf_tx (prefilled_txs c))) (short_ids c)
      = map (entry K ver (bip152_keys (header b) n) prefill) (enumerate 0 (txdata b))"
    using c(4) by (simp_all add: loop_ok_def Let_def)
  have "place (prefilled_txs c) (short_ids c) = map (entry K ver (bip152_keys (header b) n) prefill) (enumerate 0 (txdata b))"
    if "length (txdata b) \<le> 65536"
    using place_small [OF m] at that by (force simp: chosen_def)
  with True c m at show ?thesis by auto
next
  case False
  obtain pf ids left where "from_block_loop K ver (bip152_keys (header b) n) 0 prefill 0 (txdata b) = Some (pf, ids, left)" "left \<noteq> []"
    using from_block_loop_total [OF assms(1,2), of ver _ 0 prefill 0] False by fastforce
  with False assms(3,4) show ?thesis by (auto simp: from_block_def calculate_siphash_keys_eq)
qed

theorem compact_block_exact_witness:
  "\<exists>c. from_block byte_keys sample_block 5 1 [] = Some (Inr c) \<and> map pf_idx (prefilled_txs c) = [0]
     \<and> place (prefilled_txs c) (short_ids c) = [Inr (without_witnesses sample_tx)]"
  using compact_block_exact [OF key_laws_byte_keys, of sample_block 1 "[]" 5] sample_tx_wf
  by (auto simp: sample_block_def entry_def chosen_def)

text \<open>
  In a block of more than 65537 transactions the stored index can be wrong without an error: prefilling the transaction at
  place 65537 stores the same indexes as prefilling the one at place 1, where a receiver will put it.
\<close>

theorem prefill_index_truncated:
  assumes "key_laws K" "list_all tx_wf (txdata b)" "ver = 1 \<or> ver = 2" and "65537 < length (txdata b)"
  shows "\<exists>c d. from_block K b n ver [65537] = Some (Inr c) \<and> from_block K b n ver [1] = Some (Inr d)
    \<and> map pf_idx (prefilled_txs c) = [0, 0] \<and> map pf_idx (prefilled_txs d) = [0, 0]"
proof -
  have idx: "\<exists>c. from_block K b n ver [p] = Some (Inr c) \<and> map pf_idx (prefilled_txs c) = [0, of_nat (p - 1)]"
    if "0 < p" "p < length (txdata b)" for p
  proof -
    have "length [p] \<le> length (txdata b)" "\<forall>i \<in> set [p]. i < length (txdata b)" using that by simp_all
    then obtain c where "from_block K b n ver [p] = Some (Inr c)"
      "loop_ok K ver (bip152_keys (header b) n) 0 [p] 0 (txdata b) (prefilled_txs c) (short_ids c) []"
      using from_block_ok [OF assms(1-3), of "[p]" n] by auto
    then show ?thesis using chosen_one [OF that] by (auto simp: loop_ok_def Let_def)
  qed
  from idx [of 65537] idx [of 1] assms(4) show ?thesis by auto
qed

text \<open>
  A list of indexes longer than the block is not refused with an error: the capacity of the vector of short identifiers
  is computed by a subtraction that underflows.
\<close>

theorem from_block_long_prefill:
  "from_block K b n 2 (replicate (Suc (length (txdata b))) i) = None"
  using calculate_siphash_keys_eq [of "header b" n] by (auto simp: from_block_def)

text \<open>
  C36: Requests for transactions are read only from their serialisation, and are accepted exactly if the indexes are
  strictly increasing, none is the largest \<open>u64\<close>, and there are not too many of them; the answer to a request holds the
  transactions at these indexes, or an error names the first index outside the block.
\<close>

theorem transactions_request_exact:
  assumes "length (txdata b) < 2 ^ 64"
  shows "(request_decode tx_size s = Inr (r, s') \<longleftrightarrow> request_encode r = wrote (request_ser r) \<and> s = request_ser r @ s'
      \<and> length (req_block_hash r) = 32 \<and> sorted_wrt (<) (indexes r) \<and> - 1 \<notin> set (indexes r)
      \<and> length (indexes r) < 2 ^ 64 \<and> length (indexes r) * tx_size \<le> MAX_VEC_SIZE)
    \<and> from_request r b = (case find (\<lambda>i. length (txdata b) \<le> unat i) (indexes r) of Some i \<Rightarrow> Inl i
        | None \<Rightarrow> Inr \<lparr> bt_block_hash = req_block_hash r, transactions = map (\<lambda>i. txdata b ! unat i) (indexes r) \<rparr>)"
proof -
  have "i < - 1 \<longleftrightarrow> i \<noteq> - 1" for i :: u64 by (simp add: order_less_le)
  then have "request_wf tx_size r \<longleftrightarrow> length (req_block_hash r) = 32 \<and> sorted_wrt (<) (indexes r) \<and> - 1 \<notin> set (indexes r)
      \<and> length (indexes r) < 2 ^ 64 \<and> length (indexes r) * tx_size \<le> MAX_VEC_SIZE"
    by (auto simp: request_wf_def increasing_iff)
  then show ?thesis
    using canonical_codec.dec_iff [OF request_codec, of tx_size s r s'] requested_eq [OF assms, of "indexes r"] request_encode_wrote [of r]
    by (auto simp: from_request_def split: option.splits)
qed

theorem transactions_request_exact_witness:
  "from_request \<lparr> req_block_hash = [], indexes = [0, 3] \<rparr> sample_block = Inl 3"
  using transactions_request_exact [of sample_block 1 "[]" "\<lparr> req_block_hash = [], indexes = [0, 3] \<rparr>" "[]"]
  by (simp add: sample_block_def)

end
