(* ===== verification/Spec2Isabelle.thy ===== *)
theory Spec2Isabelle
  imports Bitcoin_Io Sha256 Encode Opcodes Script_Instr Script Witness Locktime Mimblewimble Units Amount_Text Transaction Pow_Format Block Sighash Base58 Taproot_Huffman Hmac Block_Filter Compact_Block
begin

text \<open>
  Verification of the Litecoin library under \<open>src/\<close>: a Rust workspace that parses, builds, hashes and measures the
  data of the Litecoin protocol. The crate \<open>litecoin\<close> holds transactions, scripts, blocks, proof of work,
  Merkle proofs and signature hashes; it rests on \<open>hashes\<close> (hash functions), \<open>io\<close> (readers and writers without the
  standard library), \<open>units\<close> (amounts, weights, lock times), \<open>base58\<close> and \<open>internals\<close>. The library keeps no global
  state and starts no threads: its state is in the values it works on (a hash engine, a script builder, a witness
  buffer, a signature hash cache, a partial Merkle tree) and its interactions are calls.

  \<^bold>\<open>Conventions.\<close> Fixed-width integers are words of their width, and arithmetic wraps as in a release build wherever
  the code does not check it; \<open>usize\<close> is a natural number, read for a 64-bit target. An error of the code is the left
  side of a sum type with the constructors of the Rust enum; a panic is \<^term>\<open>None\<close> of an option, or the constructor
  \<open>Panic\<close> where results are sums already. Byte strings, hashes, scripts and identifiers are lists of 8-bit words;
  text is a list of characters of one byte. A writer is modelled by the bytes written and the count reported, a reader
  by the bytes left (theory \<open>Encode\<close>), which is what the in-memory readers and writers of \<open>Bitcoin_Io\<close> are proved to
  give. Keys of the library \<open>secp256k1\<close>, which is not in the repository, are the parameter \<open>K\<close> of the definitions that
  read or write them, with its documented behaviour as the hypothesis \<open>key_laws\<close> and the instance \<open>byte_keys\<close> in the
  witnesses. Loops are structural recursions or functions with a termination proof; the retry loops of \<open>io\<close> and the
  recursion of \<open>merkle_root_r\<close>, which may not return, are partial functions into options. There is no fuel.

  \<^bold>\<open>Theories.\<close> In the order of the imports:

  \<^item> \<open>Prelude\<close>, \<open>Numerals\<close>: widths, byte orders, results, decoders and encoders; decimal digits.
  \<^item> \<open>Bitcoin_Io\<close> (\<open>io/src/lib.rs\<close>): traits and in-memory readers and writers. The locales \<open>mem_reader\<close> and
    \<open>mem_writer\<close> are the contracts of a source and a sink; inside them the retry loops return and read or write exactly
    what was asked. Interpreted for slices, cursors, \<open>Take\<close>, vectors and mutable slices.
  \<^item> \<open>Hash_Engine\<close>, \<open>Sha2_Rounds\<close>, \<open>Sha256\<close> (\<open>hashes/src\<close>): the buffering engine, the rounds as the macro calls list
    them, SHA-256 with its second, constant-time-evaluable implementation, SHA256d and tagged hashes. The locale
    \<open>block_hash\<close> proves once that a buffering engine computes the Merkle-Damgard iteration of the padded message, for
    any way of splitting the input. The references are FIPS 180-4, written down apart from the code with constants
    computed from roots of primes, and BIP 340.
  \<^item> \<open>Encode\<close> (\<open>consensus/encode.rs\<close>): integers, \<open>VarInt\<close>, vectors, byte strings, checked data. The locale \<open>codec\<close> is the
    contract of a type that can be encoded and decoded and \<open>canonical_codec\<close> adds that nothing else decodes; prefix
    freedom, vectors, size limits, \<open>serialize\<close> and \<open>deserialize\<close> are derived inside. Every later format interprets them.
  \<^item> \<open>Opcodes\<close>, \<open>Script_Instr\<close>, \<open>Script\<close> (\<open>blockdata/opcodes.rs\<close>, \<open>blockdata/script\<close>): opcode classes, script numbers,
    the instruction iterator, the builder as a refinement of a list of instructions, standard scripts and their
    recognisers, signature operation counts, dust limits.
  \<^item> \<open>Witness\<close> (\<open>blockdata/witness.rs\<close>): the one-buffer representation of a witness stack refines lists of byte
    strings under any sequence of operations.
  \<^item> \<open>Locktime\<close>, \<open>Units\<close>, \<open>Amount_Text\<close> (\<open>units/src\<close>, \<open>blockdata/locktime\<close>): lock times and sequences, amounts, fee rates,
    weights, the text format of amounts.
  \<^item> \<open>Mimblewimble\<close>, \<open>Transaction\<close> (\<open>blockdata/mimblewimble.rs\<close>, \<open>blockdata/transaction.rs\<close>): the extension-block format,
    transactions with their encodings, identifiers, sizes, signature operation costs and weight prediction.
  \<^item> \<open>Uint256\<close>, \<open>Pow\<close>, \<open>Pow_Format\<close> (\<open>pow.rs\<close>, \<open>consensus/params.rs\<close>): 256-bit integers refine natural number arithmetic
    modulo \<open>2^256\<close> (locale \<open>wrapping\<close>), compact targets, difficulty and retargeting, floating-point bits and text.
  \<^item> \<open>Merkle\<close>, \<open>Block\<close> (\<open>merkle_tree\<close>, \<open>blockdata/block.rs\<close>, \<open>blockdata/constants.rs\<close>): roots, partial trees, headers,
    blocks with extension blocks, commitment checks, genesis blocks, Merkle blocks.
  \<^item> \<open>Sighash\<close> (\<open>crypto/sighash.rs\<close>): sighash types, the lazily filled cache, and the signing data of legacy, segwit and
    taproot inputs, against the messages of BIP 341, BIP 143 and, for scripts without \<open>OP_CODESEPARATOR\<close>, which the
    code does not support, the reference node.

  \<^item> \<open>Base58\<close> (\<open>base58/src/lib.rs\<close>): the digit loops and the checked format, a bijection between byte strings and texts.
  \<^item> \<open>Taproot\<close>, \<open>Taproot_Huffman\<close> (\<open>taproot\<close>): leaf and node hashes, the depth-first builder as a refinement of trees, spending
    information and control blocks with their verification; the Huffman construction and its optimality. Keys that can
    be tweaked are the parameter \<open>X\<close> with the hypotheses \<open>xonly_laws\<close> and \<open>tweak_laws\<close> and the instance \<open>word_keys\<close>.
  \<^item> \<open>Sha512\<close>, \<open>Ripemd160\<close>, \<open>Sha1\<close>, \<open>Hmac\<close> (\<open>hashes/src\<close>): the SHA-512 family, RIPEMD-160 and HASH160, SHA-1, each an
    interpretation of \<open>block_hash\<close> that computes its published algorithm; HMAC over the locale \<open>hash_contract\<close> (splitting
    does not matter, digests fit a block), which all four hashes interpret, against RFC 2104.
  \<^item> \<open>Siphash\<close>, \<open>Bit_Stream\<close>, \<open>Block_Filter\<close>, \<open>Compact_Block\<close> (\<open>hashes/src/siphash24.rs\<close>, \<open>bip158.rs\<close>, \<open>bip152.rs\<close>): SipHash with
    its unchecked reads; bit streams and Golomb-Rice codes as lists of bits; block filters, which match exactly the
    values of the scripts of a block; compact blocks, from which a receiver reads every place of the block, as
    long as the distances between prefilled places fit sixteen bits.

  \<^bold>\<open>What the theorems show.\<close> Formats: what is written is read back, and where the format is canonical nothing else is
  read; sizes and weights are the lengths of the encodings, with the exceptions found. Hashes compute their
  standards. Commitments (identifiers, Merkle roots, witness commitments, signature digests) determine what they
  commit to, or two byte strings among those hashed collide; collisions are exhibited from the data at hand, never
  merely asserted to exist. Data structures (builder, witness buffer, 256-bit integers, partial trees, the sighash
  cache) refine their abstract values through every sequence of operations. Totality: loops return, and panics are
  ruled out or characterised. Several theorems state a deviation of the code from its documentation or purpose;
  they are listed as findings with the definitions concerned.

  \<^bold>\<open>Bounds.\<close> Lengths are below \<open>2^64\<close> where an encoding stores them in a \<open>u64\<close>; the decoders' memory limit
  \<open>MAX_VEC_SIZE\<close> is the code's. Theorems on Merkle proofs ask for at most \<open>2^31\<close> transactions, or for the 16666 that
  the code enforces.

  \<^bold>\<open>Not modelled.\<close> Elliptic curves and what rests on them (\<open>crypto/key.rs\<close>, \<open>ecdsa.rs\<close>, \<open>crypto/taproot.rs\<close>, \<open>bip32.rs\<close>,
  \<open>sign_message.rs\<close>), since \<open>secp256k1\<close> is a third-party library; addresses, for the same reason with \<open>bech32\<close>; partially
  signed transactions (\<open>psbt\<close>) and network messages (\<open>p2p\<close>), which are further formats over \<open>Encode\<close>; floating-point division;
  SIMD paths and the \<open>small-hash\<close> and fuzzing variants of the hashes; \<open>serde\<close>, \<open>Debug\<close> and error texts; the bridge to
  \<open>std::io\<close>.
\<close>

end
